(* ===== verification/Prelude.thy ===== *)
theory Prelude
  imports Main "HOL-Library.Word" "HOL-Library.AList"
begin

text \<open>
  Shared vocabulary of the development: the machine integers of the Rust sources at their
  width, the saturating and checked operations of the standard library on them, results as
  sums, the bit patterns of \<open>f32\<close> values, little-endian bytes, and the list and map lemmas
  that several components use.

  A \<open>usize\<close> that counts elements of a collection in memory is a \<open>nat\<close>: such a count never
  reaches \<open>2 ^ 64\<close>. A \<open>usize\<close> that a caller supplies, or that arithmetic could overflow, is a
  \<open>nat\<close> with the bound written out (\<open>usize_max\<close>). Counters of type \<open>u32\<close> and \<open>u64\<close> are
  words. \<open>Instant\<close> and \<open>Duration\<close> are nanoseconds (\<open>nat\<close>).
\<close>

unbundle bit_operations_syntax

named_theorems word_sat \<open>unsigned value of the saturating and checked word operations\<close>
named_theorems codec_simps \<open>reading back what was written\<close>
named_theorems res_simps \<open>computation rules of results\<close>

type_synonym u8 = "8 word"
type_synonym u16 = "16 word"
type_synonym u32 = "32 word"
type_synonym u64 = "64 word"

text \<open>An \<open>f32\<close> is its IEEE-754 bit pattern, so that NaN payloads and signed zeros survive.\<close>
type_synonym f32 = "32 word"

type_synonym instant = nat
type_synonym duration = nat

definition ns_per_sec :: nat where "ns_per_sec = 1000000000"
definition ns_per_ms :: nat where "ns_per_ms = 1000000"

definition usize_max :: nat where "usize_max = 2 ^ 64 - 1"

section \<open>Results\<close>

text \<open>\<open>Result<A, E>\<close> is \<open>E + A\<close>: \<open>Inl\<close> the error, \<open>Inr\<close> the value.\<close>

definition and_then :: "'e + 'a \<Rightarrow> ('a \<Rightarrow> 'e + 'b) \<Rightarrow> 'e + 'b" where
  "and_then r f = (case r of Inl e \<Rightarrow> Inl e | Inr a \<Rightarrow> f a)"

lemma and_then_simps [simp, res_simps]:
  "and_then (Inl e) f = Inl e"
  "and_then (Inr a) f = f a"
  by (simp_all add: and_then_def)

lemma and_then_Inr_iff [simp]:
  "and_then r f = Inr b \<longleftrightarrow> (\<exists>a. r = Inr a \<and> f a = Inr b)"
  by (cases r) auto

lemma and_then_Inl_iff:
  "and_then r f = Inl e \<longleftrightarrow> r = Inl e \<or> (\<exists>a. r = Inr a \<and> f a = Inl e)"
  by (cases r) auto

lemma and_then_cong [fundef_cong]:
  "r = r' \<Longrightarrow> (\<And>a. r' = Inr a \<Longrightarrow> f a = g a) \<Longrightarrow> and_then r f = and_then r' g"
  by (cases r') auto

definition is_ok :: "'e + 'a \<Rightarrow> bool" where
  "is_ok r = (case r of Inl _ \<Rightarrow> False | Inr _ \<Rightarrow> True)"

lemma is_ok_simps [simp]: "is_ok (Inr a)" "\<not> is_ok (Inl e)"
  by (simp_all add: is_ok_def)

lemma is_ok_iff: "is_ok r \<longleftrightarrow> (\<exists>a. r = Inr a)"
  by (cases r) auto

section \<open>Saturating and checked arithmetic\<close>

definition sat_add :: "'a::len word \<Rightarrow> 'a word \<Rightarrow> 'a word" where
  "sat_add a b = (if unat a + unat b < 2 ^ LENGTH('a) then a + b else - 1)"

definition sat_sub :: "'a::len word \<Rightarrow> 'a word \<Rightarrow> 'a word" where
  "sat_sub a b = (if b \<le> a then a - b else 0)"

definition sat_mul :: "'a::len word \<Rightarrow> 'a word \<Rightarrow> 'a word" where
  "sat_mul a b = (if unat a * unat b < 2 ^ LENGTH('a) then a * b else - 1)"

lemma unat_minus_one_max [simp]: "unat (- 1 :: 'a::len word) = 2 ^ LENGTH('a) - 1"
  by (simp add: unsigned_minus_1_eq_mask mask_eq_exp_minus_1)

lemma unat_lt_length: "unat (a :: 'a::len word) < 2 ^ LENGTH('a)"
  by (rule unsigned_less)

lemma unat_le_max: "unat (a :: 'a::len word) \<le> 2 ^ LENGTH('a) - 1"
  using unat_lt_length [of a] by linarith

lemma unat_sat_add [word_sat]:
  "unat (sat_add a b) = min (unat a + unat b) (2 ^ LENGTH('a) - 1)"
  for a b :: "'a::len word"
  by (auto simp: sat_add_def unat_word_ariths min_def)

lemma unat_sat_sub [word_sat]: "unat (sat_sub a b) = unat a - unat b"
  by (auto simp: sat_sub_def unat_sub word_le_nat_alt)

lemma unat_sat_mul [word_sat]:
  "unat (sat_mul a b) = min (unat a * unat b) (2 ^ LENGTH('a) - 1)"
  for a b :: "'a::len word"
proof (cases "unat a * unat b < 2 ^ LENGTH('a)")
  case True
  then have "unat (sat_mul a b) = unat a * unat b"
    by (simp add: sat_mul_def unat_word_ariths)
  moreover have "unat a * unat b \<le> 2 ^ LENGTH('a) - 1" using True by linarith
  ultimately show ?thesis by simp
next
  case False
  then have "2 ^ LENGTH('a) - 1 \<le> unat a * unat b" by linarith
  with False show ?thesis by (simp add: sat_mul_def)
qed

lemma sat_add_ge: "a \<le> sat_add a b"
  using unat_le_max [of a] by (simp add: word_le_nat_alt unat_sat_add)

lemma sat_add_mono: "a \<le> a' \<Longrightarrow> sat_add a b \<le> sat_add a' b"
  by (simp add: word_le_nat_alt unat_sat_add)

text \<open>\<open>u32::try_from(n).unwrap_or(u32::MAX)\<close>, for any width.\<close>

definition clamp_word :: "nat \<Rightarrow> 'a::len word" where
  "clamp_word n = (if n < 2 ^ LENGTH('a) then word_of_nat n else - 1)"

lemma unat_clamp_word [word_sat]:
  "unat (clamp_word n :: 'a::len word) = min n (2 ^ LENGTH('a) - 1)"
  by (auto simp: clamp_word_def unat_of_nat min_def)

text \<open>\<open>checked_add\<close> and \<open>checked_mul\<close> on \<open>usize\<close>.\<close>

definition checked_add_usize :: "nat \<Rightarrow> nat \<Rightarrow> nat option" where
  "checked_add_usize a b = (if a + b \<le> usize_max then Some (a + b) else None)"

definition checked_mul_usize :: "nat \<Rightarrow> nat \<Rightarrow> nat option" where
  "checked_mul_usize a b = (if a * b \<le> usize_max then Some (a * b) else None)"

lemma checked_usize_Some:
  "checked_add_usize a b = Some c \<longleftrightarrow> c = a + b \<and> a + b \<le> usize_max"
  "checked_mul_usize a b = Some c \<longleftrightarrow> c = a * b \<and> a * b \<le> usize_max"
  by (auto simp: checked_add_usize_def checked_mul_usize_def)

definition div_ceil :: "nat \<Rightarrow> nat \<Rightarrow> nat" where
  "div_ceil a b = a div b + (if a mod b = 0 then 0 else 1)"

lemma div_ceil_le_iff: "0 < b \<Longrightarrow> div_ceil a b \<le> k \<longleftrightarrow> a \<le> k * b"
proof -
  assume b: "0 < b"
  show ?thesis
  proof (cases "a mod b = 0")
    case True
    then obtain q where "a = b * q" by auto
    with b show ?thesis by (simp add: div_ceil_def mult.commute)
  next
    case False
    have "Suc (a div b) \<le> k \<longleftrightarrow> a div b < k" by auto
    also have "\<dots> \<longleftrightarrow> a < k * b" using b by (simp add: div_less_iff_less_mult)
    also have "\<dots> \<longleftrightarrow> a \<le> k * b" using False by (auto simp: le_less)
    finally show ?thesis using False by (simp add: div_ceil_def)
  qed
qed

section \<open>Floating-point bit patterns\<close>

text \<open>\<open>f32::is_finite\<close>: the exponent field is not all ones.\<close>

definition f32_exponent :: "f32 \<Rightarrow> u32" where
  "f32_exponent x = drop_bit 23 x AND 255"

definition f32_is_finite :: "f32 \<Rightarrow> bool" where
  "f32_is_finite x \<longleftrightarrow> f32_exponent x \<noteq> 255"

definition f32_zero :: f32 where "f32_zero = 0"

section \<open>Little-endian bytes\<close>

definition u16_to_le :: "u16 \<Rightarrow> u8 list" where
  "u16_to_le x = [ucast x, ucast (drop_bit 8 x)]"

fun u16_from_le :: "u8 list \<Rightarrow> u16" where
  "u16_from_le [a, b] = ucast a OR push_bit 8 (ucast b)"
| "u16_from_le _ = 0"

definition u32_to_le :: "u32 \<Rightarrow> u8 list" where
  "u32_to_le x = [ucast x, ucast (drop_bit 8 x), ucast (drop_bit 16 x), ucast (drop_bit 24 x)]"

fun u32_from_le :: "u8 list \<Rightarrow> u32" where
  "u32_from_le [a, b, c, d] =
     ucast a OR push_bit 8 (ucast b) OR push_bit 16 (ucast c) OR push_bit 24 (ucast d)"
| "u32_from_le _ = 0"

lemma length_le_bytes [simp]:
  "length (u16_to_le x) = 2" "length (u32_to_le y) = 4"
  by (simp_all add: u16_to_le_def u32_to_le_def)

lemma u16_le_roundtrip [simp, codec_simps]: "u16_from_le (u16_to_le x) = x"
  by (rule bit_word_eqI) (auto simp: u16_to_le_def bit_simps)

lemma u32_le_roundtrip [simp, codec_simps]: "u32_from_le (u32_to_le x) = x"
proof (rule bit_word_eqI)
  fix n :: nat
  assume n: "n < LENGTH(32)"
  then consider "n < 8" | "8 \<le> n" "n < 16" | "16 \<le> n" "n < 24" | "24 \<le> n" "n < 32"
    by force
  then show "bit (u32_from_le (u32_to_le x)) n = bit x n"
    by cases (auto simp: u32_to_le_def bit_simps)
qed

section \<open>Lists and maps\<close>

lemma sum_list_filter_le: "sum_list (map f (filter P xs)) \<le> sum_list (map f xs)"
  for f :: "'a \<Rightarrow> nat"
  by (induction xs) auto

lemma sum_list_map_filter_split:
  "sum_list (map f xs) = sum_list (map f (filter P xs)) + sum_list (map f (filter (\<lambda>x. \<not> P x) xs))"
  for f :: "'a \<Rightarrow> nat"
  by (induction xs) auto

lemma length_filter_split: "length xs = length (filter P xs) + length (filter (\<lambda>x. \<not> P x) xs)"
  by (induction xs) auto

text \<open>Association lists as hash maps.\<close>

lemma alist_delete_filter: "AList.delete k xs = filter (\<lambda>p. fst p \<noteq> k) xs"
  by (induction xs) auto

lemma alist_update_new: "k \<notin> fst ` set xs \<Longrightarrow> AList.update k v xs = xs @ [(k, v)]"
  by (induction xs) auto

lemma length_alist_delete: "map_of xs k = Some v \<Longrightarrow> length (AList.delete k xs) < length xs"
  unfolding alist_delete_filter by (rule length_filter_less [of "(k, v)"]) (auto dest: map_of_SomeD)

lemma set_update_subset: "set (AList.update k v xs) \<subseteq> insert (k, v) (set xs)"
  by (induction xs) auto

lemma set_alist_delete: "set (AList.delete k xs) \<subseteq> set xs"
  by (auto simp: alist_delete_filter)

section \<open>Decimal rendering\<close>

text \<open>\<open>format!("{n}")\<close> of an unsigned integer.\<close>

definition digit_char :: "nat \<Rightarrow> char" where
  "digit_char d = char_of (48 + d)"

fun dec_string :: "nat \<Rightarrow> string" where
  "dec_string n = (if n < 10 then [digit_char n] else dec_string (n div 10) @ [digit_char (n mod 10)])"

declare dec_string.simps [simp del]

definition digit_value :: "char \<Rightarrow> nat" where
  "digit_value c = of_char c - 48"

definition dec_value :: "string \<Rightarrow> nat" where
  "dec_value s = foldl (\<lambda>acc c. acc * 10 + digit_value c) 0 s"

lemma digit_value_char [simp]: "d < 10 \<Longrightarrow> digit_value (digit_char d) = d"
  by (simp add: digit_value_def digit_char_def of_char_of take_bit_nat_eq_self)

lemma dec_value_string [simp, codec_simps]: "dec_value (dec_string n) = n"
proof (induction n rule: dec_string.induct)
  case (1 n)
  show ?case
  proof (cases "n < 10")
    case True
    then show ?thesis by (simp add: dec_string.simps [of n] dec_value_def)
  next
    case False
    with 1 have "dec_value (dec_string (n div 10)) = n div 10" by simp
    with False show ?thesis
      by (simp add: dec_string.simps [of n] dec_value_def)
  qed
qed

lemma dec_string_inject [simp]: "dec_string m = dec_string n \<longleftrightarrow> m = n"
  by (metis dec_value_string)

lemma dec_string_not_Nil [simp]: "dec_string n \<noteq> []"
  by (simp add: dec_string.simps [of n])

section \<open>Substrings\<close>

text \<open>\<open>str::contains\<close>.\<close>

fun contains :: "string \<Rightarrow> string \<Rightarrow> bool" where
  "contains pat [] = (pat = [])"
| "contains pat (c # cs) = (take (length pat) (c # cs) = pat \<or> contains pat cs)"

section \<open>Loops that stop at the first error\<close>

text \<open>
  \<open>for x in xs { s = f(s, x)?; }\<close> over an explicit state.
\<close>

fun fold_res :: "('s \<Rightarrow> 'x \<Rightarrow> 'e + 's) \<Rightarrow> 's \<Rightarrow> 'x list \<Rightarrow> 'e + 's" where
  "fold_res f s [] = Inr s"
| "fold_res f s (x # xs) = and_then (f s x) (\<lambda>s'. fold_res f s' xs)"

lemma fold_res_append:
  "fold_res f s (xs @ ys) = and_then (fold_res f s xs) (\<lambda>s'. fold_res f s' ys)"
  by (induction xs arbitrary: s) (auto simp: and_then_def split: sum.splits)

lemma fold_res_append_Inr:
  "fold_res f s (xs @ ys) = Inr t \<longleftrightarrow> (\<exists>s'. fold_res f s xs = Inr s' \<and> fold_res f s' ys = Inr t)"
  by (simp add: fold_res_append)

lemma fold_res_invariant:
  "fold_res f s xs = Inr t \<Longrightarrow> P s \<Longrightarrow> (\<And>a x b. x \<in> set xs \<Longrightarrow> P a \<Longrightarrow> f a x = Inr b \<Longrightarrow> P b) \<Longrightarrow> P t"
proof (induction xs arbitrary: s)
  case Nil
  then show ?case by simp
next
  case (Cons x xs)
  from Cons.prems(1) obtain s' where "f s x = Inr s'" "fold_res f s' xs = Inr t" by auto
  then show ?case using Cons.IH [of s'] Cons.prems(2,3) by (metis list.set_intros(1,2))
qed


text \<open>The same with an early return: the step also says whether to stop.\<close>

fun fold_until :: "('s \<Rightarrow> 'x \<Rightarrow> 'e + bool \<times> 's) \<Rightarrow> 's \<Rightarrow> 'x list \<Rightarrow> 'e + bool \<times> 's" where
  "fold_until f s [] = Inr (False, s)"
| "fold_until f s (x # xs) =
     and_then (f s x) (\<lambda>(stop, s'). if stop then Inr (True, s') else fold_until f s' xs)"

lemma fold_until_append:
  "fold_until f s (xs @ ys) =
     and_then (fold_until f s xs) (\<lambda>(stop, s'). if stop then Inr (True, s') else fold_until f s' ys)"
  by (induction xs arbitrary: s) (auto simp: and_then_def split: sum.splits prod.splits)

end
