(* ===== verification/Network.thy ===== *)
theory Network
  imports Prelude
begin

text \<open>
  The creature as it crosses the FFI boundary (\<open>src/ffi_types/mod.rs\<close>), the errors of that
  boundary (\<open>src/ffi_types/error_classification.rs\<close>), the normalisation that deserialising a
  creature performs, and the composed validation gate every entry point runs first
  (\<open>creature_validation.rs\<close>: forward-only synapses, observation-width bounds, finite biases).

  A Rust \<open>String\<close> is the list of its UTF-8 bytes (\<open>string\<close>). The text of an error message is
  kept as the values it interpolates (type \<open>detail\<close>).
\<close>

section \<open>Data\<close>

record neuron_json =
  n_uuid :: string
  n_type :: string
  n_squash :: string
  n_bias :: f32

record synapse_json =
  s_from :: string
  s_to :: string
  s_weight :: f32
  s_type :: "string option"

record creature_json =
  c_neurons :: "neuron_json list"
  c_synapses :: "synapse_json list"
  c_input :: nat
  c_output :: nat

record discover_record =
  r_obs :: u32
  r_uuid :: string
  r_value :: "f32 option"
  r_activation :: f32
  r_errors :: "f32 list"

definition new_record :: "u32 \<Rightarrow> string \<Rightarrow> f32 option \<Rightarrow> f32 \<Rightarrow> f32 list \<Rightarrow> discover_record" where
  "new_record obs uuid value activation errs =
     \<lparr>r_obs = obs, r_uuid = uuid, r_value = value, r_activation = activation, r_errors = errs\<rparr>"

section \<open>Errors of the boundary\<close>

datatype violation = SelfLoop string string nat | BackEdge string nat string nat

datatype detail =
    Text string
  | DuplicateUuid string nat nat
  | Recurrent nat "violation list" nat
  | WidthBelowOne string nat
  | WidthAboveMax string nat nat
  | NonFiniteBias string f32
  | NumericId string
  | NonFiniteField string f32

datatype discovery_error =
    GpuUnavailable detail
  | GpuDeviceLost detail
  | GpuWedged detail nat
  | InvalidInput detail
  | Timeout u64
  | MemoryExhausted detail
  | Io detail
  | Cancelled

datatype error_kind =
    K_GpuTransient | K_GpuPermanent | K_GpuWedged | K_DataValidation | K_Timeout
  | K_MemoryExhausted | K_IoError | K_InternalPanic | K_Cancelled | K_Unknown

fun is_retryable :: "error_kind \<Rightarrow> bool" where
  "is_retryable K_GpuTransient = True"
| "is_retryable K_Timeout = True"
| "is_retryable K_MemoryExhausted = True"
| "is_retryable K_IoError = True"
| "is_retryable _ = False"

fun is_cancelled_kind :: "error_kind \<Rightarrow> bool" where
  "is_cancelled_kind K_Cancelled = True"
| "is_cancelled_kind _ = False"

fun discovery_error_kind :: "discovery_error \<Rightarrow> error_kind" where
  "discovery_error_kind (GpuUnavailable _) = K_GpuPermanent"
| "discovery_error_kind (GpuDeviceLost _) = K_GpuTransient"
| "discovery_error_kind (GpuWedged _ _) = K_GpuWedged"
| "discovery_error_kind (InvalidInput _) = K_DataValidation"
| "discovery_error_kind (Timeout _) = K_Timeout"
| "discovery_error_kind (MemoryExhausted _) = K_MemoryExhausted"
| "discovery_error_kind (Io _) = K_IoError"
| "discovery_error_kind Cancelled = K_Cancelled"

section \<open>Deserialisation of the fields\<close>

definition is_ascii_digit :: "char \<Rightarrow> bool" where
  "is_ascii_digit c \<longleftrightarrow> 48 \<le> (of_char c :: nat) \<and> (of_char c :: nat) \<le> 57"

definition is_ascii_lowercase :: "char \<Rightarrow> bool" where
  "is_ascii_lowercase c \<longleftrightarrow> 97 \<le> (of_char c :: nat) \<and> (of_char c :: nat) \<le> 122"

definition to_ascii_uppercase :: "char \<Rightarrow> char" where
  "to_ascii_uppercase c = (if is_ascii_lowercase c then char_of ((of_char c :: nat) - 32) else c)"

definition is_numeric_id :: "string \<Rightarrow> bool" where
  "is_numeric_id s \<longleftrightarrow> s \<noteq> [] \<and> list_all is_ascii_digit s"

definition deserialise_neuron_uuid :: "string \<Rightarrow> detail + string" where
  "deserialise_neuron_uuid raw = (if is_numeric_id raw then Inl (NumericId raw) else Inr raw)"

definition deserialise_synapse_uuid :: "string \<Rightarrow> detail + string" where
  "deserialise_synapse_uuid raw = (if is_numeric_id raw then Inl (NumericId raw) else Inr raw)"

definition observation_width_error :: "string \<Rightarrow> nat \<Rightarrow> detail option" where
  "observation_width_error field count =
     (if count < 1 then Some (WidthBelowOne field count) else None)"

definition deserialise_input_width :: "nat \<Rightarrow> detail + nat" where
  "deserialise_input_width raw =
     (case observation_width_error ''input'' raw of Some d \<Rightarrow> Inl d | None \<Rightarrow> Inr raw)"

definition deserialise_output_width :: "nat \<Rightarrow> detail + nat" where
  "deserialise_output_width raw =
     (case observation_width_error ''output'' raw of Some d \<Rightarrow> Inl d | None \<Rightarrow> Inr raw)"

definition deserialise_neuron_bias :: "f32 \<Rightarrow> detail + f32" where
  "deserialise_neuron_bias bias =
     (if \<not> f32_is_finite bias then Inl (NonFiniteBias ''The neuron'' bias) else Inr bias)"

definition deserialise_synapse_weight :: "f32 \<Rightarrow> detail + f32" where
  "deserialise_synapse_weight raw =
     (if \<not> f32_is_finite raw then Inl (NonFiniteField ''weight'' raw) else Inr raw)"

definition deserialise_finite_f32 :: "string \<Rightarrow> f32 \<Rightarrow> detail + f32" where
  "deserialise_finite_f32 field raw =
     (if \<not> f32_is_finite raw then Inl (NonFiniteField field raw) else Inr raw)"

definition deserialise_optional_value :: "f32 option \<Rightarrow> detail + f32 option" where
  "deserialise_optional_value v =
     (case v of None \<Rightarrow> Inr None
      | Some raw \<Rightarrow>
          if \<not> f32_is_finite raw then Inl (NonFiniteField ''value'' raw) else Inr (Some raw))"

definition first_non_finite :: "f32 list \<Rightarrow> (nat \<times> f32) option" where
  "first_non_finite values = find (\<lambda>(_, v). \<not> f32_is_finite v) (enumerate 0 values)"

definition deserialise_finite_errors :: "f32 list \<Rightarrow> detail + f32 list" where
  "deserialise_finite_errors raw =
     (case first_non_finite raw of
        Some (_, bad) \<Rightarrow> Inl (NonFiniteField ''errors'' bad)
      | None \<Rightarrow> Inr raw)"

text \<open>
  \<open>str::trim\<close> removes the code points of the Unicode property \<open>White_Space\<close>; these are
  their UTF-8 encodings.
\<close>

definition ws_encodings :: "string list" where
  "ws_encodings =
     [[CHR 0x09], [CHR 0x0A], [CHR 0x0B], [CHR 0x0C], [CHR 0x0D], [CHR 0x20],
      [CHR 0xC2, CHR 0x85], [CHR 0xC2, CHR 0xA0], [CHR 0xE1, CHR 0x9A, CHR 0x80],
      [CHR 0xE2, CHR 0x80, CHR 0x80], [CHR 0xE2, CHR 0x80, CHR 0x81],
      [CHR 0xE2, CHR 0x80, CHR 0x82], [CHR 0xE2, CHR 0x80, CHR 0x83],
      [CHR 0xE2, CHR 0x80, CHR 0x84], [CHR 0xE2, CHR 0x80, CHR 0x85],
      [CHR 0xE2, CHR 0x80, CHR 0x86], [CHR 0xE2, CHR 0x80, CHR 0x87],
      [CHR 0xE2, CHR 0x80, CHR 0x88], [CHR 0xE2, CHR 0x80, CHR 0x89],
      [CHR 0xE2, CHR 0x80, CHR 0x8A], [CHR 0xE2, CHR 0x80, CHR 0xA8],
      [CHR 0xE2, CHR 0x80, CHR 0xA9], [CHR 0xE2, CHR 0x80, CHR 0xAF],
      [CHR 0xE2, CHR 0x81, CHR 0x9F], [CHR 0xE3, CHR 0x80, CHR 0x80]]"

definition strip_one :: "string list \<Rightarrow> string \<Rightarrow> string option" where
  "strip_one encs s =
     (case find (\<lambda>e. e \<noteq> [] \<and> take (length e) s = e) encs of
        None \<Rightarrow> None | Some e \<Rightarrow> Some (drop (length e) s))"

lemma strip_one_shorter: "strip_one encs s = Some t \<Longrightarrow> length t < length s"
proof -
  assume "strip_one encs s = Some t"
  then obtain e where e: "find (\<lambda>e. e \<noteq> [] \<and> take (length e) s = e) encs = Some e"
    and t: "t = drop (length e) s"
    by (auto simp: strip_one_def split: option.splits)
  from e have "e \<noteq> [] \<and> take (length e) s = e" by (auto simp: find_Some_iff)
  then have "0 < length e \<and> length e \<le> length s"
    by (metis length_greater_0_conv length_take min.cobounded1 min.commute)
  then have "length s - length e < length s" by linarith
  with t show ?thesis by simp
qed

function trim_start_with :: "string list \<Rightarrow> string \<Rightarrow> string" where
  "trim_start_with encs s =
     (case strip_one encs s of None \<Rightarrow> s | Some t \<Rightarrow> trim_start_with encs t)"
  by pat_completeness auto
termination
  by (relation "measure (\<lambda>(encs, s). length s)") (auto dest: strip_one_shorter)

declare trim_start_with.simps [simp del]

definition trim_start :: "string \<Rightarrow> string" where
  "trim_start s = trim_start_with ws_encodings s"

definition trim_end :: "string \<Rightarrow> string" where
  "trim_end s = rev (trim_start_with (map rev ws_encodings) (rev s))"

definition trim :: "string \<Rightarrow> string" where
  "trim s = trim_end (trim_start s)"

definition deserialise_squash :: "string \<Rightarrow> string" where
  "deserialise_squash raw =
     (let trimmed = trim raw in
      if trimmed = [] then []
      else if list_all (\<lambda>b. \<not> is_ascii_lowercase b) trimmed then trimmed
      else map to_ascii_uppercase trimmed)"

definition default_squash :: string where "default_squash = ''IDENTITY''"

section \<open>The validation gate\<close>

text \<open>
  \<open>validate_forward_only_synapses\<close>: the loop that indexes the neurons and refuses a
  duplicate, then the loop that collects the recurrent synapses.
\<close>

definition max_reported_violations :: nat where "max_reported_violations = 5"

fun index_neurons ::
  "neuron_json list \<Rightarrow> nat \<Rightarrow> (string \<rightharpoonup> nat) \<Rightarrow> discovery_error + (string \<rightharpoonup> nat)" where
  "index_neurons [] idx m = Inr m"
| "index_neurons (n # ns) idx m =
     (case m (n_uuid n) of
        Some first_idx \<Rightarrow> Inl (InvalidInput (DuplicateUuid (n_uuid n) first_idx idx))
      | None \<Rightarrow> index_neurons ns (Suc idx) (m(n_uuid n \<mapsto> idx)))"

definition describe_violation :: "synapse_json \<Rightarrow> nat \<Rightarrow> nat \<Rightarrow> violation" where
  "describe_violation s i j =
     (if i = j then SelfLoop (s_from s) (s_to s) i else BackEdge (s_from s) i (s_to s) j)"

fun scan_synapses ::
  "(string \<rightharpoonup> nat) \<Rightarrow> synapse_json list \<Rightarrow> violation list \<times> nat \<Rightarrow> violation list \<times> nat" where
  "scan_synapses m [] acc = acc"
| "scan_synapses m (s # ss) (violations, count) =
     (case (m (s_from s), m (s_to s)) of
        (Some i, Some j) \<Rightarrow>
          if i < j then scan_synapses m ss (violations, count)
          else scan_synapses m ss
                 (if length violations < max_reported_violations
                  then violations @ [describe_violation s i j] else violations,
                  Suc count)
      | _ \<Rightarrow> scan_synapses m ss (violations, count))"

definition validate_forward_only_synapses :: "creature_json \<Rightarrow> discovery_error + unit" where
  "validate_forward_only_synapses c =
     and_then (index_neurons (c_neurons c) 0 Map.empty) (\<lambda>m.
       case scan_synapses m (c_synapses c) ([], 0) of (violations, count) \<Rightarrow>
         if count = 0 then Inr ()
         else Inl (InvalidInput (Recurrent count violations (count - length violations))))"

definition max_creature_input_neurons :: nat where "max_creature_input_neurons = 1000000"
definition max_creature_output_neurons :: nat where "max_creature_output_neurons = 1000000"

definition validate_creature_input_bounds :: "creature_json \<Rightarrow> discovery_error + unit" where
  "validate_creature_input_bounds c =
     (case (case observation_width_error ''input'' (c_input c) of
              Some d \<Rightarrow> Some d
            | None \<Rightarrow> observation_width_error ''output'' (c_output c)) of
        Some d \<Rightarrow> Inl (InvalidInput d)
      | None \<Rightarrow>
          if max_creature_input_neurons < c_input c
          then Inl (InvalidInput (WidthAboveMax ''input'' (c_input c) max_creature_input_neurons))
          else if max_creature_output_neurons < c_output c
          then Inl (InvalidInput (WidthAboveMax ''output'' (c_output c) max_creature_output_neurons))
          else Inr ())"

fun validate_biases :: "neuron_json list \<Rightarrow> discovery_error + unit" where
  "validate_biases [] = Inr ()"
| "validate_biases (n # ns) =
     (if \<not> f32_is_finite (n_bias n) then Inl (InvalidInput (NonFiniteBias (n_uuid n) (n_bias n)))
      else validate_biases ns)"

definition validate_neuron_biases :: "creature_json \<Rightarrow> discovery_error + unit" where
  "validate_neuron_biases c = validate_biases (c_neurons c)"

definition validate_creature :: "creature_json \<Rightarrow> discovery_error + unit" where
  "validate_creature c =
     and_then (and_then (validate_forward_only_synapses c) (\<lambda>_. validate_creature_input_bounds c))
       (\<lambda>_. validate_neuron_biases c)"

section \<open>What the gate guarantees\<close>

text \<open>The position of each identifier, and the synapses that violate the order, in order.\<close>

fun position_map :: "neuron_json list \<Rightarrow> nat \<Rightarrow> string \<rightharpoonup> nat" where
  "position_map [] idx = Map.empty"
| "position_map (n # ns) idx = (position_map ns (Suc idx))(n_uuid n \<mapsto> idx)"

definition violation_at :: "(string \<rightharpoonup> nat) \<Rightarrow> synapse_json \<Rightarrow> violation option" where
  "violation_at m s =
     (case (m (s_from s), m (s_to s)) of
        (Some i, Some j) \<Rightarrow> if i < j then None else Some (describe_violation s i j)
      | _ \<Rightarrow> None)"

fun violations_of :: "(string \<rightharpoonup> nat) \<Rightarrow> synapse_json list \<Rightarrow> violation list" where
  "violations_of m [] = []"
| "violations_of m (s # ss) =
     (case violation_at m s of None \<Rightarrow> violations_of m ss | Some v \<Rightarrow> v # violations_of m ss)"

lemma dom_position_map [simp]: "dom (position_map ns idx) = n_uuid ` set ns"
  by (induction ns arbitrary: idx) auto

lemma position_map_Some:
  "distinct (map n_uuid ns) \<Longrightarrow>
   position_map ns idx u = Some k \<longleftrightarrow>
     (\<exists>i < length ns. k = idx + i \<and> n_uuid (ns ! i) = u)"
proof (induction ns arbitrary: idx)
  case Nil
  then show ?case by simp
next
  case (Cons n ns)
  then have IH: "position_map ns (Suc idx) u = Some k \<longleftrightarrow>
      (\<exists>i < length ns. k = Suc idx + i \<and> n_uuid (ns ! i) = u)" by simp
  show ?case
  proof (cases "u = n_uuid n")
    case True
    with Cons.prems have "\<forall>i < length ns. n_uuid (ns ! i) \<noteq> u"
      by (metis distinct.simps(2) image_eqI list.simps(9) list.set_map nth_mem)
    with True show ?thesis by (auto simp: less_Suc_eq_0_disj)
  next
    case False
    with IH show ?thesis by (fastforce simp: less_Suc_eq_0_disj)
  qed
qed

lemma index_neurons_Inr_iff:
  "index_neurons ns idx m = Inr m' \<longleftrightarrow>
     distinct (map n_uuid ns) \<and> n_uuid ` set ns \<inter> dom m = {} \<and> m' = m ++ position_map ns idx"
proof (induction ns arbitrary: idx m)
  case Nil
  then show ?case by auto
next
  case (Cons n ns)
  show ?case
  proof (cases "m (n_uuid n)")
    case (Some a)
    then show ?thesis by (auto simp: dom_def)
  next
    case None
    have "m(n_uuid n \<mapsto> idx) ++ position_map ns (Suc idx) = m ++ position_map (n # ns) idx"
      if "n_uuid n \<notin> n_uuid ` set ns"
    proof -
      have "n_uuid n \<notin> dom (position_map ns (Suc idx))" using that by simp
      then have "position_map ns (Suc idx) (n_uuid n) = None" by blast
      then show ?thesis by (auto simp: map_add_def fun_eq_iff split: option.splits)
    qed
    note upd = this
    have disj: "n_uuid ` set ns \<inter> dom (m(n_uuid n \<mapsto> idx)) = {} \<longleftrightarrow>
        n_uuid n \<notin> n_uuid ` set ns \<and> n_uuid ` set ns \<inter> dom m = {}"
      by (simp add: Int_insert_right)
    have head: "n_uuid ` set (n # ns) \<inter> dom m = {} \<longleftrightarrow> n_uuid ` set ns \<inter> dom m = {}"
      using None by auto
    have "index_neurons (n # ns) idx m = Inr m' \<longleftrightarrow>
        index_neurons ns (Suc idx) (m(n_uuid n \<mapsto> idx)) = Inr m'"
      using None by (simp del: fun_upd_apply)
    also have "\<dots> \<longleftrightarrow> n_uuid n \<notin> n_uuid ` set ns \<and> distinct (map n_uuid ns) \<and>
        n_uuid ` set ns \<inter> dom m = {} \<and> m' = m(n_uuid n \<mapsto> idx) ++ position_map ns (Suc idx)"
      unfolding Cons.IH disj by blast
    also have "\<dots> \<longleftrightarrow> distinct (map n_uuid (n # ns)) \<and>
        n_uuid ` set (n # ns) \<inter> dom m = {} \<and> m' = m ++ position_map (n # ns) idx"
      unfolding head using upd by (cases "n_uuid n \<in> n_uuid ` set ns") (simp_all del: fun_upd_apply)
    finally show ?thesis .
  qed
qed

lemma scan_synapses_eq:
  "scan_synapses m ss (v, t) =
     (v @ take (max_reported_violations - length v) (violations_of m ss),
      t + length (violations_of m ss))"
proof (induction ss arbitrary: v t)
  case Nil
  then show ?case by simp
next
  case (Cons s ss)
  show ?case
  proof (cases "violation_at m s")
    case None
    then have "scan_synapses m (s # ss) (v, t) = scan_synapses m ss (v, t)"
      by (auto simp: violation_at_def split: option.splits if_splits)
    with None show ?thesis by (simp add: Cons.IH)
  next
    case (Some d)
    then have step: "scan_synapses m (s # ss) (v, t) =
        scan_synapses m ss
          (if length v < max_reported_violations then v @ [d] else v, Suc t)"
      by (auto simp: violation_at_def split: option.splits if_splits)
    show ?thesis
    proof (cases "length v < max_reported_violations")
      case True
      then obtain k where "max_reported_violations - length v = Suc k"
        by (metis Suc_diff_Suc)
      moreover from this have "max_reported_violations - Suc (length v) = k" by simp
      ultimately show ?thesis using True Some unfolding step by (simp add: Cons.IH)
    next
      case False
      with Some show ?thesis unfolding step by (simp add: Cons.IH)
    qed
  qed
qed

lemma violations_of_empty_iff:
  "violations_of m ss = [] \<longleftrightarrow> (\<forall>s \<in> set ss. violation_at m s = None)"
  by (induction ss) (auto split: option.splits)

lemma length_violations_of:
  "length (violations_of m ss) = length (filter (\<lambda>s. violation_at m s \<noteq> None) ss)"
  by (induction ss) (auto split: option.splits)

text \<open>The declared order of the neurons, as a relation on identifiers.\<close>

definition synapse_forward :: "creature_json \<Rightarrow> synapse_json \<Rightarrow> bool" where
  "synapse_forward c s \<longleftrightarrow>
     (\<forall>i < length (c_neurons c). \<forall>j < length (c_neurons c).
        n_uuid (c_neurons c ! i) = s_from s \<longrightarrow> n_uuid (c_neurons c ! j) = s_to s \<longrightarrow> i < j)"

definition listed_edges :: "creature_json \<Rightarrow> (string \<times> string) set" where
  "listed_edges c =
     {(s_from s, s_to s) | s. s \<in> set (c_synapses c) \<and>
        s_from s \<in> n_uuid ` set (c_neurons c) \<and> s_to s \<in> n_uuid ` set (c_neurons c)}"

lemma violation_at_None_iff:
  assumes "distinct (map n_uuid (c_neurons c))"
  shows "violation_at (position_map (c_neurons c) 0) s = None \<longleftrightarrow> synapse_forward c s"
proof -
  let ?m = "position_map (c_neurons c) 0"
  have "violation_at ?m s = None \<longleftrightarrow>
      (\<forall>i j. ?m (s_from s) = Some i \<longrightarrow> ?m (s_to s) = Some j \<longrightarrow> i < j)"
    by (auto simp: violation_at_def split: option.splits)
  also have "\<dots> \<longleftrightarrow> synapse_forward c s"
    using assms by (auto simp: synapse_forward_def position_map_Some)
  finally show ?thesis .
qed

lemma validate_forward_only_cases:
  "validate_forward_only_synapses c =
     (case index_neurons (c_neurons c) 0 Map.empty of
        Inl e \<Rightarrow> Inl e
      | Inr m \<Rightarrow> (let vs = violations_of m (c_synapses c); shown = take max_reported_violations vs in
           if vs = [] then Inr ()
           else Inl (InvalidInput (Recurrent (length vs) shown (length vs - length shown)))))"
  by (auto simp: validate_forward_only_synapses_def and_then_def scan_synapses_eq Let_def
      split: sum.splits)

lemma forward_only_ok_iff:
  "validate_forward_only_synapses c = Inr () \<longleftrightarrow>
     distinct (map n_uuid (c_neurons c)) \<and> (\<forall>s \<in> set (c_synapses c). synapse_forward c s)"
proof (cases "distinct (map n_uuid (c_neurons c))")
  case True
  then have "index_neurons (c_neurons c) 0 Map.empty = Inr (position_map (c_neurons c) 0)"
    by (simp add: index_neurons_Inr_iff)
  with True show ?thesis
    by (simp add: validate_forward_only_cases Let_def violations_of_empty_iff
        violation_at_None_iff)
next
  case False
  then have "\<forall>m. index_neurons (c_neurons c) 0 Map.empty \<noteq> Inr m"
    by (simp add: index_neurons_Inr_iff)
  then obtain e where "index_neurons (c_neurons c) 0 Map.empty = Inl e"
    by (meson obj_sumE)
  with False show ?thesis by (simp add: validate_forward_only_cases)
qed

section \<open>Properties of the gate\<close>

lemma input_bounds_ok_iff:
  "validate_creature_input_bounds c = Inr () \<longleftrightarrow>
     1 \<le> c_input c \<and> c_input c \<le> max_creature_input_neurons \<and>
     1 \<le> c_output c \<and> c_output c \<le> max_creature_output_neurons"
  by (auto simp: validate_creature_input_bounds_def observation_width_error_def)

lemma validate_biases_ok_iff:
  "validate_biases ns = Inr () \<longleftrightarrow> (\<forall>n \<in> set ns. f32_is_finite (n_bias n))"
  by (induction ns) auto

lemma index_neurons_Inl_kind:
  "index_neurons ns idx m = Inl e \<Longrightarrow> discovery_error_kind e = K_DataValidation"
  by (induction ns arbitrary: idx m) (auto split: option.splits)

lemma validate_biases_Inl_kind:
  "validate_biases ns = Inl e \<Longrightarrow> discovery_error_kind e = K_DataValidation"
  by (induction ns) (auto split: if_splits)

lemma forward_only_Inl_kind:
  "validate_forward_only_synapses c = Inl e \<Longrightarrow> discovery_error_kind e = K_DataValidation"
  by (auto simp: validate_forward_only_cases Let_def split: sum.splits if_splits
      dest: index_neurons_Inl_kind)

lemma input_bounds_Inl_kind:
  "validate_creature_input_bounds c = Inl e \<Longrightarrow> discovery_error_kind e = K_DataValidation"
  by (auto simp: validate_creature_input_bounds_def split: option.splits if_splits)

definition example_creature :: creature_json where
  "example_creature =
     \<lparr>c_neurons = [\<lparr>n_uuid = ''hidden-0'', n_type = ''hidden'', n_squash = ''TANH'', n_bias = 0\<rparr>,
                   \<lparr>n_uuid = ''output-0'', n_type = ''output'', n_squash = ''IDENTITY'', n_bias = 0\<rparr>],
      c_synapses = [\<lparr>s_from = ''input-0'', s_to = ''hidden-0'', s_weight = 0, s_type = None\<rparr>,
                    \<lparr>s_from = ''hidden-0'', s_to = ''output-0'', s_weight = 0, s_type = None\<rparr>],
      c_input = 1, c_output = 1\<rparr>"

lemma example_creature_valid: "validate_creature example_creature = Inr ()"
proof -
  have "validate_forward_only_synapses example_creature = Inr ()" by code_simp
  moreover have "validate_neuron_biases example_creature = Inr ()" by code_simp
  moreover have "validate_creature_input_bounds example_creature = Inr ()"
    by (simp add: input_bounds_ok_iff example_creature_def max_creature_input_neurons_def
        max_creature_output_neurons_def)
  ultimately show ?thesis by (simp add: validate_creature_def)
qed

text \<open>
  C8. The composed gate accepts a creature exactly when its neuron identifiers are distinct,
  every synapse between listed neurons points from an earlier to a later neuron, both
  observation widths lie in 1..1000000 and every bias is finite; every refusal is a data
  validation error, which is never retryable.
\<close>
theorem validate_creature_decides:
  "(validate_creature c = Inr () \<longleftrightarrow>
      distinct (map n_uuid (c_neurons c)) \<and> list_all (synapse_forward c) (c_synapses c) \<and>
      c_input c \<in> {1..1000000} \<and> c_output c \<in> {1..1000000} \<and>
      list_all (\<lambda>n. f32_is_finite (n_bias n)) (c_neurons c)) \<and>
   (case validate_creature c of
      Inl e \<Rightarrow> discovery_error_kind e = K_DataValidation \<and> \<not> is_retryable (discovery_error_kind e)
    | Inr _ \<Rightarrow> True)"
proof
  show "validate_creature c = Inr () \<longleftrightarrow>
      distinct (map n_uuid (c_neurons c)) \<and> list_all (synapse_forward c) (c_synapses c) \<and>
      c_input c \<in> {1..1000000} \<and> c_output c \<in> {1..1000000} \<and>
      list_all (\<lambda>n. f32_is_finite (n_bias n)) (c_neurons c)"
    by (auto simp: validate_creature_def forward_only_ok_iff input_bounds_ok_iff
        validate_neuron_biases_def validate_biases_ok_iff list_all_iff
        max_creature_input_neurons_def max_creature_output_neurons_def)
next
  have "discovery_error_kind e = K_DataValidation" if "validate_creature c = Inl e" for e
    using that
    by (auto simp: validate_creature_def and_then_Inl_iff validate_neuron_biases_def
        dest: forward_only_Inl_kind input_bounds_Inl_kind validate_biases_Inl_kind)
  then show "case validate_creature c of
      Inl e \<Rightarrow> discovery_error_kind e = K_DataValidation \<and> \<not> is_retryable (discovery_error_kind e)
    | Inr _ \<Rightarrow> True"
    by (auto split: sum.split)
qed

text \<open>
  The gate makes evaluation order well-founded: in an accepted creature the synapses
  between listed neurons form an acyclic graph.
\<close>
theorem validated_creature_acyclic:
  assumes "validate_creature c = Inr ()"
  shows "acyclic (listed_edges c)"
proof -
  let ?pos = "\<lambda>u. the (position_map (c_neurons c) 0 u)"
  from assms have ok: "validate_forward_only_synapses c = Inr ()"
    by (simp add: validate_creature_def)
  then have dist: "distinct (map n_uuid (c_neurons c))"
    and fwd: "\<forall>s \<in> set (c_synapses c). synapse_forward c s"
    by (simp_all add: forward_only_ok_iff)
  have "listed_edges c \<subseteq> measure ?pos"
  proof
    fix e assume "e \<in> listed_edges c"
    then obtain s i j where s: "s \<in> set (c_synapses c)" "e = (s_from s, s_to s)"
      and i: "i < length (c_neurons c)" "n_uuid (c_neurons c ! i) = s_from s"
      and j: "j < length (c_neurons c)" "n_uuid (c_neurons c ! j) = s_to s"
      by (auto simp: listed_edges_def in_set_conv_nth) metis
    from fwd s(1) i j have "i < j" by (auto simp: synapse_forward_def)
    moreover have "position_map (c_neurons c) 0 (s_from s) = Some i"
      "position_map (c_neurons c) 0 (s_to s) = Some j"
      using i j by (auto simp: position_map_Some [OF dist])
    ultimately show "e \<in> measure ?pos" using s(2) by simp
  qed
  then show ?thesis by (meson acyclic_subset wf_acyclic wf_measure)
qed

theorem validated_creature_acyclic_witness: "acyclic (listed_edges example_creature)"
  by (rule validated_creature_acyclic) (rule example_creature_valid)

text \<open>
  A refusal for recurrence reports the exact number of offending synapses, shows the first
  five of them in the creature's order, and counts the rest.
\<close>
theorem recurrent_report_exact:
  assumes "validate_forward_only_synapses c = Inl (InvalidInput (Recurrent count shown extra))"
  shows "count = length (filter (\<lambda>s. \<not> synapse_forward c s) (c_synapses c)) \<and> 0 < count \<and>
    shown = take 5 (violations_of (position_map (c_neurons c) 0) (c_synapses c)) \<and>
    length shown + extra = count"
proof -
  have dist: "distinct (map n_uuid (c_neurons c))"
  proof (rule ccontr)
    assume "\<not> distinct (map n_uuid (c_neurons c))"
    then obtain e where e: "index_neurons (c_neurons c) 0 Map.empty = Inl e"
      by (metis index_neurons_Inr_iff obj_sumE)
    have "\<And>ns idx m a b d. index_neurons ns idx m \<noteq> Inl (InvalidInput (Recurrent a b d))"
    proof -
      fix ns idx m a b d
      show "index_neurons ns idx m \<noteq> Inl (InvalidInput (Recurrent a b d))"
        by (induction ns arbitrary: idx m) (auto split: option.splits)
    qed
    with e assms show False by (simp add: validate_forward_only_cases)
  qed
  then have "index_neurons (c_neurons c) 0 Map.empty = Inr (position_map (c_neurons c) 0)"
    by (simp add: index_neurons_Inr_iff)
  with assms show ?thesis
    by (auto simp: validate_forward_only_cases Let_def length_violations_of
        max_reported_violations_def violation_at_None_iff [OF dist] violations_of_empty_iff
        filter_empty_conv split: if_splits)
qed

definition looping_creature :: creature_json where
  "looping_creature = example_creature
     \<lparr>c_synapses := [\<lparr>s_from = ''output-0'', s_to = ''output-0'', s_weight = 0, s_type = None\<rparr>,
                     \<lparr>s_from = ''output-0'', s_to = ''hidden-0'', s_weight = 0, s_type = None\<rparr>]\<rparr>"

theorem recurrent_report_exact_witness:
  "length (filter (\<lambda>s. \<not> synapse_forward looping_creature s) (c_synapses looping_creature)) = 2"
proof -
  have "validate_forward_only_synapses looping_creature =
      Inl (InvalidInput (Recurrent 2
        [SelfLoop ''output-0'' ''output-0'' 1, BackEdge ''output-0'' 1 ''hidden-0'' 0] 0))"
    by code_simp
  from recurrent_report_exact [OF this] show ?thesis by simp
qed

section \<open>Normalising a squash name\<close>

lemma strip_one_None_iff:
  "strip_one encs s = None \<longleftrightarrow> (\<forall>e \<in> set encs. e = [] \<or> take (length e) s \<noteq> e)"
proof -
  have "strip_one encs s = None \<longleftrightarrow> find (\<lambda>e. e \<noteq> [] \<and> take (length e) s = e) encs = None"
    by (simp add: strip_one_def split: option.splits)
  then show ?thesis by (auto simp: find_None_iff)
qed

lemma strip_one_trimmed: "strip_one encs (trim_start_with encs s) = None"
proof (induction encs s rule: trim_start_with.induct)
  case (1 encs s)
  then show ?case
    by (cases "strip_one encs s") (simp_all add: trim_start_with.simps [of encs s])
qed

lemma trim_start_with_fixed: "strip_one encs s = None \<Longrightarrow> trim_start_with encs s = s"
  by (simp add: trim_start_with.simps)

lemma trim_start_with_suffix: "\<exists>k. trim_start_with encs s = drop k s"
proof (induction encs s rule: trim_start_with.induct)
  case (1 encs s)
  show ?case
  proof (cases "strip_one encs s")
    case None
    then show ?thesis by (intro exI [of _ 0]) (simp add: trim_start_with_fixed)
  next
    case (Some t)
    then obtain j k where "t = drop j s" "trim_start_with encs t = drop k t"
      using 1 by (auto simp: strip_one_def split: option.splits)
    with Some show ?thesis by (auto simp: trim_start_with.simps [of encs s])
  qed
qed

lemma strip_one_prefix_None:
  assumes "strip_one encs s = None"
  shows "strip_one encs (take k s) = None"
proof -
  have "take (length e) s = e" if "take (length e) (take k s) = e" "e \<noteq> []" for e
  proof -
    from that have "length e \<le> k"
      by (metis length_take min.bounded_iff min.cobounded2 take_take)
    with that show ?thesis by (simp add: min_def)
  qed
  with assms show ?thesis by (fastforce simp: strip_one_None_iff)
qed

lemma trim_end_prefix: "\<exists>k. trim_end s = take k s"
proof -
  obtain k where "trim_start_with (map rev ws_encodings) (rev s) = drop k (rev s)"
    using trim_start_with_suffix by blast
  then have "trim_end s = take (length s - k) s" by (simp add: trim_end_def rev_drop)
  then show ?thesis by blast
qed

lemma trim_fixed_iff:
  "trim s = s" if "strip_one ws_encodings s = None" "strip_one (map rev ws_encodings) (rev s) = None"
  using that by (simp add: trim_def trim_end_def trim_start_def trim_start_with_fixed)

lemma trim_stripped:
  "strip_one ws_encodings (trim s) = None"
  "strip_one (map rev ws_encodings) (rev (trim s)) = None"
proof -
  obtain k where "trim s = take k (trim_start s)"
    using trim_end_prefix by (metis trim_def)
  then show "strip_one ws_encodings (trim s) = None"
    by (simp add: trim_start_def strip_one_trimmed strip_one_prefix_None)
  show "strip_one (map rev ws_encodings) (rev (trim s)) = None"
    by (simp add: trim_def trim_end_def strip_one_trimmed)
qed

lemma upper_not_lower: "\<not> is_ascii_lowercase (to_ascii_uppercase c)"
  by (auto simp: to_ascii_uppercase_def is_ascii_lowercase_def of_char_of take_bit_nat_less_self_iff
      take_bit_nat_eq_self)

text \<open>Upper-casing can only produce bytes of the range A to Z, which no white space uses.\<close>

definition letter_free :: "string \<Rightarrow> bool" where
  "letter_free e \<longleftrightarrow> list_all (\<lambda>c. \<not> (65 \<le> (of_char c :: nat) \<and> (of_char c :: nat) \<le> 90)) e"

lemma letter_free_encodings:
  "list_all letter_free ws_encodings" "list_all letter_free (map rev ws_encodings)"
  by (simp_all add: ws_encodings_def letter_free_def)

lemma upper_preimage:
  assumes "to_ascii_uppercase c = b" "\<not> (65 \<le> (of_char b :: nat) \<and> (of_char b :: nat) \<le> 90)"
  shows "c = b"
proof (rule ccontr)
  assume "c \<noteq> b"
  with assms(1) have low: "is_ascii_lowercase c" and b: "b = char_of ((of_char c :: nat) - 32)"
    by (auto simp: to_ascii_uppercase_def split: if_splits)
  from low have "(of_char c :: nat) - 32 < 256" by (auto simp: is_ascii_lowercase_def)
  then have "(of_char b :: nat) = of_char c - 32"
    by (simp add: b of_char_of take_bit_nat_eq_self)
  with low assms(2) show False by (auto simp: is_ascii_lowercase_def)
qed

lemma upper_map_letter_free:
  "map to_ascii_uppercase u = e \<Longrightarrow> letter_free e \<Longrightarrow> u = e"
proof (induction u arbitrary: e)
  case (Cons a u)
  then obtain b bs where e: "e = b # bs" "to_ascii_uppercase a = b" "map to_ascii_uppercase u = bs"
    by auto
  with Cons.prems(2) have "\<not> (65 \<le> (of_char b :: nat) \<and> (of_char b :: nat) \<le> 90)" "letter_free bs"
    by (simp_all add: letter_free_def)
  with e Cons.IH show ?case by (metis upper_preimage)
qed simp

lemma strip_one_upper:
  assumes "strip_one encs u = None" "list_all letter_free encs"
  shows "strip_one encs (map to_ascii_uppercase u) = None"
  unfolding strip_one_None_iff
proof (intro ballI)
  fix e assume e: "e \<in> set encs"
  with assms have "letter_free e" and "e = [] \<or> take (length e) u \<noteq> e"
    by (auto simp: list_all_iff strip_one_None_iff)
  then show "e = [] \<or> take (length e) (map to_ascii_uppercase u) \<noteq> e"
    by (metis take_map upper_map_letter_free)
qed

text \<open>
  Normalising a squash name is idempotent: a name that went through the boundary once is
  not changed by going through it again, so a serialised creature reads back with the same
  squash names, and no normalised name contains a lower-case ASCII letter.
\<close>
theorem deserialise_squash_idempotent:
  "deserialise_squash (deserialise_squash raw) = deserialise_squash raw \<and>
   list_all (\<lambda>b. \<not> is_ascii_lowercase b) (deserialise_squash raw)"
proof -
  let ?t = "trim raw" and ?u = "map to_ascii_uppercase (trim raw)"
  have "trim ?t = ?t" by (intro trim_fixed_iff trim_stripped)
  moreover have "trim ?u = ?u"
    by (intro trim_fixed_iff)
       (simp_all add: rev_map strip_one_upper trim_stripped letter_free_encodings)
  moreover have "list_all (\<lambda>b. \<not> is_ascii_lowercase b) ?u"
    by (simp add: list_all_iff upper_not_lower)
  moreover have "trim [] = []"
    by (intro trim_fixed_iff) (auto simp: strip_one_None_iff)
  ultimately show ?thesis by (auto simp: deserialise_squash_def Let_def)
qed

end
