(* ===== verification/ParquetWriter.thy ===== *)
theory ParquetWriter
  imports Network
begin

text \<open>
  The Parquet writer of discovery records: \<open>src/parquet_format/schema.rs\<close> (identifier
  validation, UTF-8 truncation of previews), \<open>writer.rs\<close> (\<open>ParquetRecordWriter\<close>: capacity
  checks, per-batch chunking under the Arrow offset limits) and the row decoding of
  \<open>batch_columns.rs\<close>.

  The Arrow writer itself is third-party code. It is the parameter \<open>arrow_ops\<close>: how writing
  one batch and closing act on an opaque sink. No law about it is assumed; the theorems speak of
  the sequence of batches the code hands to it.
\<close>

section \<open>Identifiers\<close>

definition max_arrow_offset :: nat where "max_arrow_offset = 2 ^ 31 - 1"
definition min_neuron_uuid_length :: nat where "min_neuron_uuid_length = 1"
definition max_neuron_uuid_length :: nat where "max_neuron_uuid_length = 100"

text \<open>A byte starts a character unless it is a continuation byte \<open>10xxxxxx\<close>.\<close>

definition is_continuation :: "char \<Rightarrow> bool" where
  "is_continuation c \<longleftrightarrow> 128 \<le> (of_char c :: nat) \<and> (of_char c :: nat) < 192"

definition is_char_boundary :: "string \<Rightarrow> nat \<Rightarrow> bool" where
  "is_char_boundary s i \<longleftrightarrow>
     i = 0 \<or> i = length s \<or> (i < length s \<and> \<not> is_continuation (s ! i))"

fun back_to_boundary :: "string \<Rightarrow> nat \<Rightarrow> nat" where
  "back_to_boundary s 0 = 0"
| "back_to_boundary s (Suc e) =
     (if is_char_boundary s (Suc e) then Suc e else back_to_boundary s e)"

definition truncate_utf8 :: "string \<Rightarrow> nat \<Rightarrow> string" where
  "truncate_utf8 value max_bytes =
     (if length value \<le> max_bytes then value
      else if max_bytes = 0 then ''...''
      else let end = back_to_boundary value (min max_bytes (length value)) in
           if end = 0 then ''...'' else take end value @ ''...'')"

datatype uuid_error = UuidLength string nat | UuidCharacter string nat

definition is_uuid_char :: "char \<Rightarrow> bool" where
  "is_uuid_char c \<longleftrightarrow>
     (let n = (of_char c :: nat) in
      (97 \<le> n \<and> n \<le> 122) \<or> (65 \<le> n \<and> n \<le> 90) \<or> (48 \<le> n \<and> n \<le> 57) \<or> n = 45)"

definition validate_neuron_uuid :: "string \<Rightarrow> uuid_error + unit" where
  "validate_neuron_uuid uuid =
     (let len = length uuid; preview = truncate_utf8 uuid 120 in
      if len < min_neuron_uuid_length then Inl (UuidLength preview len)
      else if max_neuron_uuid_length < len then Inl (UuidLength preview len)
      else case find (\<lambda>(_, c). \<not> is_uuid_char c) (enumerate 0 uuid) of
             Some (index, _) \<Rightarrow> Inl (UuidCharacter preview index)
           | None \<Rightarrow> Inr ())"

section \<open>The writer\<close>

record 'w arrow_ops =
  aw_open :: "string + 'w"
  aw_write :: "'w \<Rightarrow> discover_record list \<Rightarrow> string + 'w"
  aw_close :: "'w \<Rightarrow> string + 'w"

record 'w pq_writer =
  w_sink :: 'w
  w_max_uuid :: nat
  w_max_errors :: nat
  w_longest :: "string option"
  w_remaining :: nat

datatype write_error =
    NoRecordsToWrite
  | ZeroUuidLimit
  | ZeroErrorLimit
  | UuidLimitTooLarge nat
  | ErrorLimitTooLarge nat
  | CapacityTooLarge nat
  | FileCreate string
  | ArrowOpen string
  | OverCapacity nat nat
  | BadUuid uuid_error
  | UuidOverLimit string nat nat
  | TooManyErrors string nat nat
  | RejectedUuidLength string nat string
  | RejectedString string
  | ArrowWrite string
  | ArrowClose string

text \<open>
  \<open>ParquetRecordWriter::open\<close>: the checks in the source's order. Creating the file happens
  between the checks and the Arrow writer; its result is the argument \<open>file\<close>.
\<close>

definition writer_open ::
  "'w arrow_ops \<Rightarrow> string option \<Rightarrow> nat \<Rightarrow> nat \<Rightarrow> nat \<Rightarrow> write_error + 'w pq_writer" where
  "writer_open ops file_error max_uuid max_errors capacity =
     (if capacity = 0 then Inl NoRecordsToWrite
      else if max_uuid = 0 then Inl ZeroUuidLimit
      else if max_errors = 0 then Inl ZeroErrorLimit
      else if max_arrow_offset < max_uuid then Inl (UuidLimitTooLarge max_uuid)
      else if max_arrow_offset < max_errors then Inl (ErrorLimitTooLarge max_errors)
      else if max_arrow_offset < capacity then Inl (CapacityTooLarge capacity)
      else case file_error of
             Some e \<Rightarrow> Inl (FileCreate e)
           | None \<Rightarrow>
               (case aw_open ops of
                  Inl e \<Rightarrow> Inl (ArrowOpen e)
                | Inr w \<Rightarrow> Inr \<lparr>w_sink = w, w_max_uuid = max_uuid, w_max_errors = max_errors,
                                w_longest = None, w_remaining = capacity\<rparr>))"

text \<open>
  \<open>validate_records\<close>; the longest identifier seen is updated even when a later record is
  refused, as the source's \<open>&mut\<close> argument is.
\<close>

fun validate_records ::
  "nat \<Rightarrow> nat \<Rightarrow> discover_record list \<Rightarrow> string option \<Rightarrow> write_error option \<times> string option" where
  "validate_records max_uuid max_errors [] longest = (None, longest)"
| "validate_records max_uuid max_errors (r # rs) longest =
     (let uuid = r_uuid r; len = length uuid in
      case validate_neuron_uuid uuid of
        Inl e \<Rightarrow> (Some (BadUuid e), longest)
      | Inr _ \<Rightarrow>
          if max_uuid < len
          then (Some (UuidOverLimit (truncate_utf8 uuid 120) len max_uuid), longest)
          else
            let longest' = (case longest of
                              None \<Rightarrow> Some uuid
                            | Some existing \<Rightarrow> if length existing < len then Some uuid else longest)
            in if max_errors < length (r_errors r)
               then (Some (TooManyErrors (truncate_utf8 uuid 120) (length (r_errors r)) max_errors),
                     longest')
               else validate_records max_uuid max_errors rs longest')"

text \<open>
  \<open>determine_chunk_end\<close>: the number of records from \<open>start\<close> that go into one batch.
  \<open>taken\<close> is \<open>end > start\<close>.
\<close>

fun chunk_length :: "nat \<Rightarrow> nat \<Rightarrow> bool \<Rightarrow> nat \<Rightarrow> nat \<Rightarrow> discover_record list \<Rightarrow> nat" where
  "chunk_length max_uuid max_errors taken uuid_bytes error_count [] = 0"
| "chunk_length max_uuid max_errors taken uuid_bytes error_count (r # rs) =
     (let uuid_len = length (r_uuid r); errors_len = length (r_errors r) in
      if taken \<and> (max_uuid < uuid_bytes + uuid_len \<or> max_errors < error_count + errors_len) then 0
      else Suc (chunk_length max_uuid max_errors True
                  (uuid_bytes + uuid_len) (error_count + errors_len) rs))"

definition determine_chunk_end :: "discover_record list \<Rightarrow> nat \<Rightarrow> nat \<Rightarrow> nat \<Rightarrow> nat" where
  "determine_chunk_end records start max_uuid max_errors =
     start + chunk_length max_uuid max_errors False 0 0 (drop start records)"

definition write_chunk ::
  "'w arrow_ops \<Rightarrow> string option \<Rightarrow> 'w \<Rightarrow> discover_record list \<Rightarrow> write_error + 'w" where
  "write_chunk ops longest sink chunk =
     (case aw_write ops sink chunk of
        Inr sink' \<Rightarrow> Inr sink'
      | Inl msg \<Rightarrow>
          if contains ''Invalid string length'' msg then
            (case longest of
               Some uuid \<Rightarrow> Inl (RejectedUuidLength (truncate_utf8 uuid 120) (length uuid) msg)
             | None \<Rightarrow> Inl (RejectedString msg))
          else Inl (ArrowWrite msg))"

lemma chunk_length_pos: "rs \<noteq> [] \<Longrightarrow> 0 < chunk_length mu me False ub ec rs"
  by (cases rs) (simp_all add: Let_def)

lemma chunk_length_le: "chunk_length mu me taken ub ec rs \<le> length rs"
  by (induction mu me taken ub ec rs rule: chunk_length.induct) (auto simp: Let_def)

lemma determine_chunk_end_bounds:
  "start < length rs \<Longrightarrow>
   start < determine_chunk_end rs start mu me \<and> determine_chunk_end rs start mu me \<le> length rs"
  using chunk_length_pos [of "drop start rs" mu me 0 0] chunk_length_le [of mu me False 0 0 "drop start rs"]
  by (auto simp: determine_chunk_end_def)

text \<open>
  The chunk loop of \<open>write_records\<close>. A failing write returns the error and the sink the
  earlier chunks left behind: those chunks are already in the file.
\<close>

function write_chunks ::
  "'w arrow_ops \<Rightarrow> nat \<Rightarrow> nat \<Rightarrow> string option \<Rightarrow> discover_record list \<Rightarrow> nat \<Rightarrow> 'w
     \<Rightarrow> write_error option \<times> 'w" where
  "write_chunks ops max_uuid max_errors longest records start sink =
     (if start < length records then
        let end = determine_chunk_end records start max_uuid max_errors in
        case write_chunk ops longest sink (take (end - start) (drop start records)) of
          Inl e \<Rightarrow> (Some e, sink)
        | Inr sink' \<Rightarrow> write_chunks ops max_uuid max_errors longest records end sink'
      else (None, sink))"
  by pat_completeness auto
termination
  using determine_chunk_end_bounds
  by (relation "measure (\<lambda>(ops, mu, me, l, records, start, sink). length records - start)")
     (auto intro: diff_less_mono2)

declare write_chunks.simps [simp del]

definition write_records ::
  "'w arrow_ops \<Rightarrow> 'w pq_writer \<Rightarrow> discover_record list \<Rightarrow> write_error option \<times> 'w pq_writer" where
  "write_records ops w records =
     (if records = [] then (None, w)
      else if w_remaining w < length records
      then (Some (OverCapacity (length records) (w_remaining w)), w)
      else
        case validate_records (w_max_uuid w) (w_max_errors w) records (w_longest w) of
          (Some e, longest) \<Rightarrow> (Some e, w\<lparr>w_longest := longest\<rparr>)
        | (None, longest) \<Rightarrow>
            (case write_chunks ops (w_max_uuid w) (w_max_errors w) longest records 0 (w_sink w) of
               (Some e, sink) \<Rightarrow> (Some e, w\<lparr>w_longest := longest, w_sink := sink\<rparr>)
             | (None, sink) \<Rightarrow>
                 (None, w\<lparr>w_longest := longest, w_sink := sink,
                         w_remaining := w_remaining w - length records\<rparr>)))"

definition writer_finish :: "'w arrow_ops \<Rightarrow> 'w pq_writer \<Rightarrow> write_error + 'w" where
  "writer_finish ops w =
     (case aw_close ops (w_sink w) of Inl e \<Rightarrow> Inl (ArrowClose e) | Inr s \<Rightarrow> Inr s)"

definition write_records_to_parquet ::
  "'w arrow_ops \<Rightarrow> string option \<Rightarrow> discover_record list \<Rightarrow> write_error + 'w" where
  "write_records_to_parquet ops file_error records =
     and_then (writer_open ops file_error max_arrow_offset max_arrow_offset (length records)) (\<lambda>w.
       case write_records ops w records of
         (Some e, _) \<Rightarrow> Inl e
       | (None, w') \<Rightarrow> writer_finish ops w')"

section \<open>Chunks\<close>

text \<open>The batches the loop cuts a record list into.\<close>

function chunks_of :: "nat \<Rightarrow> nat \<Rightarrow> discover_record list \<Rightarrow> nat \<Rightarrow> discover_record list list" where
  "chunks_of mu me records start =
     (if start < length records then
        let end = determine_chunk_end records start mu me in
        take (end - start) (drop start records) # chunks_of mu me records end
      else [])"
  by pat_completeness auto
termination
  using determine_chunk_end_bounds
  by (relation "measure (\<lambda>(mu, me, records, start). length records - start)")
     (auto intro: diff_less_mono2)

declare chunks_of.simps [simp del]

definition uuid_bytes_of :: "discover_record list \<Rightarrow> nat" where
  "uuid_bytes_of rs = sum_list (map (\<lambda>r. length (r_uuid r)) rs)"

definition error_values_of :: "discover_record list \<Rightarrow> nat" where
  "error_values_of rs = sum_list (map (\<lambda>r. length (r_errors r)) rs)"

definition fits :: "nat \<Rightarrow> nat \<Rightarrow> discover_record list \<Rightarrow> bool" where
  "fits mu me rs \<longleftrightarrow> uuid_bytes_of rs \<le> mu \<and> error_values_of rs \<le> me"

lemma weights_simps [simp]:
  "uuid_bytes_of [] = 0" "error_values_of [] = 0"
  "uuid_bytes_of (r # rs) = length (r_uuid r) + uuid_bytes_of rs"
  "error_values_of (r # rs) = length (r_errors r) + error_values_of rs"
  by (simp_all add: uuid_bytes_of_def error_values_of_def)

lemma chunk_length_fits:
  assumes "taken \<longrightarrow> ub \<le> mu \<and> ec \<le> me" "\<not> taken \<longrightarrow> ub = 0 \<and> ec = 0"
    and "\<forall>r \<in> set rs. length (r_uuid r) \<le> mu \<and> length (r_errors r) \<le> me"
  shows "ub + uuid_bytes_of (take (chunk_length mu me taken ub ec rs) rs) \<le> mu \<and>
         ec + error_values_of (take (chunk_length mu me taken ub ec rs) rs) \<le> me"
  using assms
proof (induction mu me taken ub ec rs rule: chunk_length.induct)
  case (1 mu me taken ub ec)
  then show ?case by (cases taken) simp_all
next
  case (2 mu me taken ub ec r rs)
  show ?case
  proof (cases "taken \<and> (mu < ub + length (r_uuid r) \<or> me < ec + length (r_errors r))")
    case True
    with 2 show ?thesis by simp
  next
    case False
    with 2 have fit: "ub + length (r_uuid r) \<le> mu \<and> ec + length (r_errors r) \<le> me"
      by (cases taken) auto
    with 2 False show ?thesis by (auto simp: Let_def add.assoc)
  qed
qed

text \<open>Greedy: a chunk that is not the last cannot take the next record.\<close>

lemma chunk_length_greedy:
  assumes "chunk_length mu me taken ub ec rs < length rs"
    and "n = chunk_length mu me taken ub ec rs"
  shows "\<not> (ub + uuid_bytes_of (take (Suc n) rs) \<le> mu \<and> ec + error_values_of (take (Suc n) rs) \<le> me)"
  using assms
proof (induction mu me taken ub ec rs arbitrary: n rule: chunk_length.induct)
  case (1 mu me taken ub ec)
  then show ?case by simp
next
  case (2 mu me taken ub ec r rs)
  show ?case
  proof (cases "taken \<and> (mu < ub + length (r_uuid r) \<or> me < ec + length (r_errors r))")
    case True
    with 2 show ?thesis by auto
  next
    case False
    with 2 show ?thesis by (auto simp: Let_def add.assoc split: if_splits)
  qed
qed

lemma chunks_concat: "concat (chunks_of mu me rs start) = drop start rs"
proof (induction mu me rs start rule: chunks_of.induct)
  case (1 mu me rs start)
  show ?case
  proof (cases "start < length rs")
    case True
    let ?e = "determine_chunk_end rs start mu me"
    have "start \<le> ?e" using determine_chunk_end_bounds [OF True] by (simp add: less_imp_le)
    then have "take (?e - start) (drop start rs) @ drop ?e rs = drop start rs"
      by (metis append_take_drop_id drop_drop le_add_diff_inverse2)
    with 1 True show ?thesis by (simp add: chunks_of.simps [of mu me rs start] Let_def)
  next
    case False
    then show ?thesis by (simp add: chunks_of.simps)
  qed
qed

lemma chunks_nonempty_fit:
  assumes "\<forall>r \<in> set rs. length (r_uuid r) \<le> mu \<and> length (r_errors r) \<le> me"
  shows "\<forall>c \<in> set (chunks_of mu me rs start). c \<noteq> [] \<and> fits mu me c"
  using assms
proof (induction mu me rs start rule: chunks_of.induct)
  case (1 mu me rs start)
  show ?case
  proof (cases "start < length rs")
    case True
    let ?e = "determine_chunk_end rs start mu me"
    let ?c = "take (?e - start) (drop start rs)"
    from determine_chunk_end_bounds [OF True] have "start < ?e" "?e \<le> length rs" by blast+
    then have "?c \<noteq> []" using True by simp
    moreover have "fits mu me ?c"
      using chunk_length_fits [of False 0 mu 0 me "drop start rs"] "1.prems"
      by (auto simp: fits_def determine_chunk_end_def dest: in_set_dropD)
    ultimately show ?thesis
      using 1 True by (simp add: chunks_of.simps [of mu me rs start] Let_def)
  next
    case False
    then show ?thesis by (simp add: chunks_of.simps)
  qed
qed

lemma write_chunks_eq:
  "write_chunks ops mu me l rs start sink = (None, sink') \<longleftrightarrow>
   fold_res (write_chunk ops l) sink (chunks_of mu me rs start) = Inr sink'"
proof (induction ops mu me l rs start sink rule: write_chunks.induct)
  case (1 ops mu me l rs start sink)
  show ?case
  proof (cases "start < length rs")
    case True
    with 1 show ?thesis
      by (cases "write_chunk ops l sink
            (take (determine_chunk_end rs start mu me - start) (drop start rs))")
         (simp_all add: write_chunks.simps [of ops mu me l rs start sink]
           chunks_of.simps [of mu me rs start] Let_def)
  next
    case False
    then show ?thesis by (simp add: write_chunks.simps chunks_of.simps)
  qed
qed

lemma write_chunk_Inr [simp]:
  "write_chunk ops l sink c = Inr sink' \<longleftrightarrow> aw_write ops sink c = Inr sink'"
  by (simp add: write_chunk_def split: sum.splits option.splits)

lemma fold_write_chunk:
  "fold_res (write_chunk ops l) sink cs = Inr sink' \<longleftrightarrow> fold_res (aw_write ops) sink cs = Inr sink'"
  by (induction cs arbitrary: sink) auto

lemma validate_records_ok_iff:
  "fst (validate_records mu me rs l) = None \<longleftrightarrow>
     (\<forall>r \<in> set rs. validate_neuron_uuid (r_uuid r) = Inr () \<and>
        length (r_uuid r) \<le> mu \<and> length (r_errors r) \<le> me)"
proof (induction rs arbitrary: l)
  case Nil
  then show ?case by simp
next
  case (Cons r rs)
  then show ?case
    by (cases "validate_neuron_uuid (r_uuid r)") (auto simp: Let_def split: option.splits)
qed

lemma validate_neuron_uuid_ok_iff:
  "validate_neuron_uuid u = Inr () \<longleftrightarrow>
     u \<noteq> [] \<and> length u \<le> 100 \<and> list_all is_uuid_char u"
proof -
  have "find (\<lambda>(_, c). \<not> is_uuid_char c) (enumerate 0 u) = None \<longleftrightarrow> list_all is_uuid_char u"
  proof -
    have "set u = snd ` set (enumerate 0 u)" by (metis list.set_map map_snd_enumerate)
    then show ?thesis by (auto simp: find_None_iff list_all_iff case_prod_beta)
  qed
  then show ?thesis
    by (auto simp: validate_neuron_uuid_def Let_def min_neuron_uuid_length_def
        max_neuron_uuid_length_def split: option.splits)
qed

lemma write_records_None:
  "write_records ops w rs = (None, w') \<Longrightarrow>
     length rs \<le> w_remaining w \<and> w_remaining w' = w_remaining w - length rs \<and>
     w_max_uuid w' = w_max_uuid w \<and> w_max_errors w' = w_max_errors w \<and>
     (\<forall>r \<in> set rs. validate_neuron_uuid (r_uuid r) = Inr () \<and>
        length (r_uuid r) \<le> w_max_uuid w \<and> length (r_errors r) \<le> w_max_errors w) \<and>
     fold_res (aw_write ops) (w_sink w) (chunks_of (w_max_uuid w) (w_max_errors w) rs 0) = Inr (w_sink w')"
proof (cases "rs = []")
  case True
  then show "write_records ops w rs = (None, w') \<Longrightarrow> ?thesis"
    by (simp add: write_records_def chunks_of.simps)
next
  case False
  assume "write_records ops w rs = (None, w')"
  then obtain l sink where cap: "length rs \<le> w_remaining w"
    and val: "validate_records (w_max_uuid w) (w_max_errors w) rs (w_longest w) = (None, l)"
    and wr: "write_chunks ops (w_max_uuid w) (w_max_errors w) l rs 0 (w_sink w) = (None, sink)"
    and w': "w' = w\<lparr>w_longest := l, w_sink := sink, w_remaining := w_remaining w - length rs\<rparr>"
    using False by (auto simp: write_records_def split: if_splits option.splits prod.splits)
  from val have "\<forall>r \<in> set rs. validate_neuron_uuid (r_uuid r) = Inr () \<and>
      length (r_uuid r) \<le> w_max_uuid w \<and> length (r_errors r) \<le> w_max_errors w"
    by (metis fst_conv validate_records_ok_iff)
  with cap wr w' show ?thesis by (simp add: write_chunks_eq fold_write_chunk)
qed

lemma write_records_batches_in_order:
  assumes "write_records ops w records = (None, w')"
  shows "\<exists>batches. concat batches = records \<and>
    (\<forall>b \<in> set batches. b \<noteq> [] \<and> fits (w_max_uuid w) (w_max_errors w) b) \<and>
    fold_res (aw_write ops) (w_sink w) batches = Inr (w_sink w') \<and>
    w_remaining w' + length records = w_remaining w"
proof -
  let ?bs = "chunks_of (w_max_uuid w) (w_max_errors w) records 0"
  note ok = write_records_None [OF assms]
  have "concat ?bs = records" by (simp add: chunks_concat)
  moreover have "\<forall>b \<in> set ?bs. b \<noteq> [] \<and> fits (w_max_uuid w) (w_max_errors w) b"
    by (rule chunks_nonempty_fit) (use ok in auto)
  ultimately show ?thesis using ok by (intro exI [of _ ?bs]) auto
qed

section \<open>Columns\<close>

text \<open>
  The Arrow columns of one batch (\<open>write_chunk\<close>) and the decoding of a row
  (\<open>batch_columns.rs\<close>). The list offsets come from Arrow's
  \<open>OffsetBuffer::from_lengths\<close>, the parameter \<open>from_lengths\<close>; they are \<open>i32\<close> values.
\<close>

record columns =
  col_obs :: "u32 list"
  col_uuid :: "string list"
  col_value :: "f32 option list"
  col_activation :: "f32 list"
  col_offsets :: "int list"
  col_values :: "f32 list"

definition encode_columns :: "(nat list \<Rightarrow> int list) \<Rightarrow> discover_record list \<Rightarrow> columns" where
  "encode_columns from_lengths chunk =
     \<lparr>col_obs = map r_obs chunk, col_uuid = map r_uuid chunk, col_value = map r_value chunk,
      col_activation = map r_activation chunk,
      col_offsets = from_lengths (map (\<lambda>r. length (r_errors r)) chunk),
      col_values = concat (map r_errors chunk)\<rparr>"

datatype decode_error = NoOffset nat | NegativeOffset int nat | PastValues nat nat nat nat | RowPanic nat

definition offset_at :: "columns \<Rightarrow> nat \<Rightarrow> decode_error + nat" where
  "offset_at cols index =
     (if index < length (col_offsets cols) then
        let offset = col_offsets cols ! index in
        if offset < 0 then Inl (NegativeOffset offset index) else Inr (nat offset)
      else Inl (NoOffset index))"

definition errors_row :: "columns \<Rightarrow> nat \<Rightarrow> decode_error + f32 list" where
  "errors_row cols row =
     and_then (offset_at cols row) (\<lambda>start.
     and_then (offset_at cols (row + 1)) (\<lambda>end.
       if start \<le> end \<and> end \<le> length (col_values cols)
       then Inr (take (end - start) (drop start (col_values cols)))
       else Inl (PastValues row start end (length (col_values cols)))))"

definition num_rows :: "columns \<Rightarrow> nat" where
  "num_rows cols = length (col_obs cols)"

definition decode_row :: "bool \<Rightarrow> columns \<Rightarrow> nat \<Rightarrow> decode_error + discover_record" where
  "decode_row include_errors cols row =
     (if row < length (col_value cols) \<and> row < length (col_obs cols) \<and>
         row < length (col_uuid cols) \<and> row < length (col_activation cols) then
        and_then (if include_errors then errors_row cols row else Inr []) (\<lambda>errs.
          Inr (new_record (col_obs cols ! row) (col_uuid cols ! row) (col_value cols ! row)
                 (col_activation cols ! row) errs))
      else Inl (RowPanic row))"

text \<open>What Arrow documents of \<open>from_lengths\<close>: it starts at zero and adds each length.\<close>

definition offsets_law :: "(nat list \<Rightarrow> int list) \<Rightarrow> bool" where
  "offsets_law from_lengths \<longleftrightarrow>
     (\<forall>ls. length (from_lengths ls) = Suc (length ls) \<and> from_lengths ls ! 0 = 0 \<and>
        (\<forall>i < length ls. from_lengths ls ! Suc i = from_lengths ls ! i + int (ls ! i)))"

definition cumulative :: "nat list \<Rightarrow> int list" where
  "cumulative ls = map (\<lambda>i. int (sum_list (take i ls))) [0..<Suc (length ls)]"

lemma cumulative_law: "offsets_law cumulative"
  by (auto simp: offsets_law_def cumulative_def take_Suc_conv_app_nth simp del: upt_Suc)

lemma offsets_law_nth:
  assumes "offsets_law f" "i \<le> length ls"
  shows "f ls ! i = int (sum_list (take i ls))"
  using assms(2)
proof (induction i)
  case 0
  with assms(1) show ?case by (simp add: offsets_law_def)
next
  case (Suc i)
  with assms(1) have "f ls ! Suc i = f ls ! i + int (ls ! i)" by (simp add: offsets_law_def)
  with Suc show ?case by (simp add: take_Suc_conv_app_nth)
qed

lemma concat_slice:
  "i < length xss \<Longrightarrow>
   take (length (xss ! i)) (drop (sum_list (take i (map length xss))) (concat xss)) = xss ! i"
proof (induction xss arbitrary: i)
  case Nil
  then show ?case by simp
next
  case (Cons xs xss)
  then show ?case by (cases i) (simp_all add: add.commute)
qed

lemma sum_take_le_concat: "sum_list (take i (map length xss)) \<le> length (concat xss)"
  by (metis append_take_drop_id le_add1 length_concat sum_list_append)

section \<open>Properties\<close>

text \<open>
  C6. A successful write hands the Arrow writer the records in their order, cut into nonempty
  batches none of which exceeds the per-batch limits on identifier bytes and error values, and
  uses up exactly its share of the remaining capacity.
\<close>
theorem write_records_batches:
  assumes "write_records ops w records = (None, w')"
  shows "\<exists>batches. concat batches = records \<and>
    (\<forall>b \<in> set batches. b \<noteq> [] \<and> fits (w_max_uuid w) (w_max_errors w) b) \<and>
    fold_res (aw_write ops) (w_sink w) batches = Inr (w_sink w') \<and>
    w_remaining w' + length records = w_remaining w"
  using write_records_batches_in_order [OF assms] .

definition log_ops :: "discover_record list list arrow_ops" where
  "log_ops = \<lparr>aw_open = Inr [], aw_write = (\<lambda>log b. Inr (log @ [b])), aw_close = (\<lambda>log. Inr log)\<rparr>"

definition sample_records :: "discover_record list" where
  "sample_records = [new_record 0 ''ab'' None 0 [], new_record 0 ''cd'' None 1 [2],
                     new_record 0 ''e'' (Some 3) 3 [4]]"

definition sample_writer :: "discover_record list list pq_writer" where
  "sample_writer = \<lparr>w_sink = [], w_max_uuid = 3, w_max_errors = 2, w_longest = None, w_remaining = 5\<rparr>"

lemma sample_write:
  "write_records log_ops sample_writer sample_records =
     (None, sample_writer\<lparr>w_sink := [[new_record 0 ''ab'' None 0 []],
        [new_record 0 ''cd'' None 1 [2], new_record 0 ''e'' (Some 3) 3 [4]]],
        w_longest := Some ''ab'', w_remaining := 2\<rparr>)"
  by code_simp

theorem write_records_batches_witness:
  "\<exists>batches. concat batches = sample_records \<and>
    (\<forall>b \<in> set batches. b \<noteq> [] \<and> fits 3 2 b)"
  using write_records_batches [OF sample_write] by (auto simp: sample_writer_def)

text \<open>
  The chunk loop is greedy and so produces no batch needlessly: from any start before the
  end, the next boundary lies strictly after it and within the records, and either it is the end
  or the batch with one more record would break a limit.
\<close>
theorem chunk_end_greedy:
  assumes "start < length records"
  shows "start < determine_chunk_end records start mu me \<and>
    determine_chunk_end records start mu me \<le> length records \<and>
    (determine_chunk_end records start mu me = length records \<or>
     \<not> fits mu me (take (Suc (determine_chunk_end records start mu me - start)) (drop start records)))"
proof -
  let ?n = "chunk_length mu me False 0 0 (drop start records)"
  have "determine_chunk_end records start mu me = length records \<or> ?n < length (drop start records)"
    using determine_chunk_end_bounds [OF assms, of mu me]
    by (auto simp: determine_chunk_end_def le_less)
  then show ?thesis
    using determine_chunk_end_bounds [OF assms, of mu me]
      chunk_length_greedy [of mu me False 0 0 "drop start records"]
    by (auto simp: determine_chunk_end_def fits_def)
qed

theorem chunk_end_greedy_witness:
  "\<not> fits 3 2 (take (Suc (determine_chunk_end sample_records 0 3 2)) sample_records)"
proof -
  have "determine_chunk_end sample_records 0 3 2 = 1" "length sample_records = 3" by code_simp+
  then show ?thesis using chunk_end_greedy [of 0 sample_records 3 2] by simp
qed

text \<open>
  The columns a batch is written as decode, row by row, to the records of the batch: with
  the error lists exactly, and without them to the same records with an empty error list.
\<close>
theorem columns_roundtrip:
  assumes "offsets_law from_lengths"
  shows "num_rows (encode_columns from_lengths chunk) = length chunk \<and>
    (\<forall>row < length chunk.
       decode_row True (encode_columns from_lengths chunk) row = Inr (chunk ! row) \<and>
       decode_row False (encode_columns from_lengths chunk) row = Inr ((chunk ! row)\<lparr>r_errors := []\<rparr>))"
proof (intro conjI allI impI)
  show "num_rows (encode_columns from_lengths chunk) = length chunk"
    by (simp add: num_rows_def encode_columns_def)
next
  fix row assume row: "row < length chunk"
  let ?c = "encode_columns from_lengths chunk"
  let ?xss = "map r_errors chunk"
  let ?ls = "map length ?xss"
  have offs: "offset_at ?c i = Inr (sum_list (take i ?ls))" if "i \<le> length chunk" for i
    using that offsets_law_nth [OF assms, of i ?ls] assms
    by (simp add: offset_at_def encode_columns_def offsets_law_def comp_def)
  have "sum_list (take (Suc row) ?ls) = sum_list (take row ?ls) + length (?xss ! row)"
    using row by (simp add: take_Suc_conv_app_nth)
  moreover have "sum_list (take (Suc row) ?ls) \<le> length (concat ?xss)"
    by (rule sum_take_le_concat)
  ultimately have "errors_row ?c row = Inr (?xss ! row)"
    using row offs [of row] offs [of "Suc row"] concat_slice [of row ?xss]
    by (simp add: errors_row_def encode_columns_def comp_def)
  then show "decode_row True ?c row = Inr (chunk ! row)"
    using row by (simp add: decode_row_def encode_columns_def new_record_def)
  show "decode_row False ?c row = Inr ((chunk ! row)\<lparr>r_errors := []\<rparr>)"
    using row by (simp add: decode_row_def encode_columns_def new_record_def)
qed

theorem columns_roundtrip_witness:
  "decode_row True (encode_columns cumulative sample_records) 2 = Inr (new_record 0 ''e'' (Some 3) 3 [4])"
  using columns_roundtrip [OF cumulative_law, of sample_records] by (simp add: sample_records_def)

end
