(* ===== verification/Recording.thy ===== *)
theory Recording
  imports ParquetWriter
begin

text \<open>
  Single-call recording (\<open>src/record/\<close>): the preconditions and the observation indices
  (\<open>validation.rs\<close>), the overflow-checked number of records per sample (\<open>sizing.rs\<close>) and the
  loop that turns each training record into one batch and one write (\<open>processing.rs\<close>).
\<close>

section \<open>Input\<close>

record neuron_data =
  d_uuid :: string
  d_activation :: f32
  d_value :: "f32 option"
  d_errors :: "f32 list"

record training_record =
  t_input :: "f32 list"
  t_output :: "f32 list"
  t_neuron_data :: "neuron_data list option"

record record_input =
  i_creature :: creature_json
  i_training :: "training_record list"
  i_indices :: "nat list option"

datatype record_error =
    NoNonInputNeurons
  | IndexCountMismatch nat nat
  | DuplicateIndex nat
  | IndexTooLarge nat
  | TooManyRecords nat
  | SampleSizeOverflow
  | NoRecordsGenerated
  | MissingNeuronData
  | WriteFailed write_error
  | IndexPanic nat

section \<open>Preconditions\<close>

definition records_per_sample :: "nat \<Rightarrow> nat \<Rightarrow> record_error + nat" where
  "records_per_sample non_input_neuron_count creature_input =
     (case checked_add_usize non_input_neuron_count creature_input of
        None \<Rightarrow> Inl SampleSizeOverflow | Some n \<Rightarrow> Inr n)"

definition u32_try_from :: "nat \<Rightarrow> u32 option" where
  "u32_try_from n = (if n < 2 ^ 32 then Some (word_of_nat n) else None)"

fun convert_indices :: "nat list \<Rightarrow> nat list \<Rightarrow> record_error + u32 list" where
  "convert_indices seen [] = Inr []"
| "convert_indices seen (idx # rest) =
     (if idx \<in> set seen then Inl (DuplicateIndex idx)
      else case u32_try_from idx of
             None \<Rightarrow> Inl (IndexTooLarge idx)
           | Some i \<Rightarrow> and_then (convert_indices (idx # seen) rest) (\<lambda>is. Inr (i # is)))"

definition resolve_observation_indices :: "record_input \<Rightarrow> record_error + u32 list" where
  "resolve_observation_indices inp =
     (case i_indices inp of
        Some record_indices \<Rightarrow>
          if length record_indices \<noteq> length (i_training inp)
          then Inl (IndexCountMismatch (length record_indices) (length (i_training inp)))
          else convert_indices [] record_indices
      | None \<Rightarrow>
          if 2 ^ 32 - 1 < length (i_training inp) then Inl (TooManyRecords (length (i_training inp)))
          else fold_res (\<lambda>acc idx. case u32_try_from idx of
                           None \<Rightarrow> Inl (IndexTooLarge idx) | Some i \<Rightarrow> Inr (acc @ [i]))
                 [] [0..<length (i_training inp)])"

definition non_input_count :: "creature_json \<Rightarrow> nat" where
  "non_input_count c = length (filter (\<lambda>n. n_type n \<noteq> ''input'') (c_neurons c))"

definition validate_and_resolve_indices :: "record_input \<Rightarrow> record_error + nat \<times> u32 list" where
  "validate_and_resolve_indices inp =
     (let count = non_input_count (i_creature inp) in
      if count = 0 then Inl NoNonInputNeurons
      else
        and_then (resolve_observation_indices inp) (\<lambda>obs_indices.
        and_then (records_per_sample count (c_input (i_creature inp))) (\<lambda>per_sample.
          if i_training inp = [] \<or> per_sample = 0 then Inl NoRecordsGenerated
          else Inr (count, obs_indices))))"

section \<open>From training records to batches\<close>

definition find_neuron :: "creature_json \<Rightarrow> string \<Rightarrow> neuron_json option" where
  "find_neuron c uuid = find (\<lambda>n. n_uuid n = uuid) (c_neurons c)"

text \<open>
  The records of the precomputed neuron data: unknown neurons and input neurons are skipped.
\<close>

fun neuron_records :: "creature_json \<Rightarrow> u32 \<Rightarrow> neuron_data list \<Rightarrow> discover_record list" where
  "neuron_records c obs [] = []"
| "neuron_records c obs (d # ds) =
     (case find_neuron c (d_uuid d) of
        None \<Rightarrow> neuron_records c obs ds
      | Some n \<Rightarrow>
          if n_type n = ''input'' then neuron_records c obs ds
          else new_record obs (d_uuid d) (d_value d) (d_activation d) (d_errors d)
                 # neuron_records c obs ds)"

definition input_uuid :: "nat \<Rightarrow> string" where
  "input_uuid i = ''input-'' @ dec_string i"

definition input_records :: "u32 \<Rightarrow> f32 list \<Rightarrow> discover_record list" where
  "input_records obs inputs =
     map (\<lambda>(i, v). new_record obs (input_uuid i) (Some v) v []) (enumerate 0 inputs)"

definition batch_of :: "creature_json \<Rightarrow> u32 \<Rightarrow> neuron_data list \<Rightarrow> f32 list \<Rightarrow> discover_record list" where
  "batch_of c obs ds inputs = neuron_records c obs ds @ input_records obs inputs"

text \<open>
  The loop of \<open>process_training_data\<close>: the state is whether anything was written, and the
  writer. \<open>obs_indices[relative_idx]\<close> panics when there are fewer indices than samples.
\<close>

fun process_loop ::
  "'w arrow_ops \<Rightarrow> creature_json \<Rightarrow> training_record list \<Rightarrow> u32 list \<Rightarrow> nat \<Rightarrow> bool \<Rightarrow> 'w pq_writer
     \<Rightarrow> record_error option \<times> bool \<times> 'w pq_writer" where
  "process_loop ops c [] obs k wrote w = (None, wrote, w)"
| "process_loop ops c (t # ts) [] k wrote w = (Some (IndexPanic k), wrote, w)"
| "process_loop ops c (t # ts) (ob # obs) k wrote w =
     (case t_neuron_data t of
        None \<Rightarrow> (Some MissingNeuronData, wrote, w)
      | Some ds \<Rightarrow>
          let batch = batch_of c ob ds (t_input t) in
          if batch = [] then process_loop ops c ts obs (Suc k) wrote w
          else case write_records ops w batch of
                 (Some e, w') \<Rightarrow> (Some (WriteFailed e), wrote, w')
               | (None, w') \<Rightarrow> process_loop ops c ts obs (Suc k) True w')"

definition process_training_data ::
  "'w arrow_ops \<Rightarrow> record_input \<Rightarrow> u32 list \<Rightarrow> nat \<Rightarrow> 'w pq_writer \<Rightarrow> record_error option \<times> 'w pq_writer" where
  "process_training_data ops inp obs_indices count w =
     (case records_per_sample count (c_input (i_creature inp)) of
        Inl e \<Rightarrow> (Some e, w)
      | Inr _ \<Rightarrow>
          case process_loop ops (i_creature inp) (i_training inp) obs_indices 0 False w of
            (Some e, _, w') \<Rightarrow> (Some e, w')
          | (None, wrote, w') \<Rightarrow> (if wrote then None else Some NoRecordsGenerated, w'))"

section \<open>Indices\<close>

lemma records_per_sample_Inr:
  "records_per_sample a b = Inr n \<longleftrightarrow> n = a + b \<and> a + b \<le> usize_max"
  by (auto simp: records_per_sample_def checked_add_usize_def)

lemma u32_try_from_Some: "u32_try_from n = Some i \<longleftrightarrow> n < 2 ^ 32 \<and> i = word_of_nat n"
  by (auto simp: u32_try_from_def)

lemma unat_u32_try_from: "u32_try_from n = Some i \<Longrightarrow> unat i = n"
  by (auto simp: u32_try_from_Some unat_of_nat)

lemma convert_indices_Inr:
  "convert_indices seen ns = Inr is \<longleftrightarrow>
     distinct ns \<and> set ns \<inter> set seen = {} \<and> (\<forall>n \<in> set ns. n < 2 ^ 32) \<and> is = map word_of_nat ns"
proof (induction ns arbitrary: seen "is")
  case Nil
  then show ?case by auto
next
  case (Cons n ns)
  show ?case
  proof (cases "n \<in> set seen \<or> \<not> n < 2 ^ 32")
    case True
    then show ?thesis by (auto simp: u32_try_from_def)
  next
    case False
    then have "convert_indices seen (n # ns) = Inr is \<longleftrightarrow>
        (\<exists>js. convert_indices (n # seen) ns = Inr js \<and> is = word_of_nat n # js)"
      by (auto simp: u32_try_from_def)
    with False show ?thesis by (auto simp: Cons.IH)
  qed
qed

lemma sequential_indices:
  "\<forall>n \<in> set ns. n < 2 ^ 32 \<Longrightarrow>
   fold_res (\<lambda>acc idx. case u32_try_from idx of
       None \<Rightarrow> Inl (IndexTooLarge idx) | Some i \<Rightarrow> Inr (acc @ [i])) acc ns
   = Inr (acc @ map word_of_nat ns)"
  by (induction ns arbitrary: acc) (auto simp: u32_try_from_def)

lemma map_unat_of_nat: "\<forall>n \<in> set ns. n < 2 ^ 32 \<Longrightarrow> map unat (map (word_of_nat :: nat \<Rightarrow> u32) ns) = ns"
  by (induction ns) (auto simp: unat_of_nat)

lemma resolve_indices_Inr:
  assumes "resolve_observation_indices inp = Inr obs"
  shows "length obs = length (i_training inp) \<and> distinct obs \<and>
    (case i_indices inp of
       Some ns \<Rightarrow> map unat obs = ns
     | None \<Rightarrow> map unat obs = [0..<length (i_training inp)])"
proof (cases "i_indices inp")
  case (Some ns)
  with assms have len: "length ns = length (i_training inp)" and conv: "convert_indices [] ns = Inr obs"
    by (auto simp: resolve_observation_indices_def split: if_splits)
  from conv have d: "distinct ns" "\<forall>n \<in> set ns. n < 2 ^ 32" "obs = map word_of_nat ns"
    by (simp_all add: convert_indices_Inr)
  then have "map unat obs = ns" by (simp only: map_unat_of_nat)
  moreover from this d(1) have "distinct obs" by (metis distinct_map)
  ultimately show ?thesis using Some len d(3) by simp
next
  case None
  let ?ns = "[0..<length (i_training inp)]"
  from None assms have "\<forall>n \<in> set ?ns. n < 2 ^ 32"
    by (auto simp: resolve_observation_indices_def split: if_splits)
  with None assms have obs: "obs = map word_of_nat ?ns"
    by (auto simp: resolve_observation_indices_def sequential_indices simp del: upt_Suc split: if_splits)
  then have "map unat obs = ?ns"
    using map_unat_of_nat \<open>\<forall>n \<in> set ?ns. n < 2 ^ 32\<close> by blast
  moreover from this have "distinct obs" by (metis distinct_map distinct_upt)
  ultimately show ?thesis using None obs by simp
qed

section \<open>Batches\<close>

lemma neuron_records_obs: "r \<in> set (neuron_records c obs ds) \<Longrightarrow> r_obs r = obs"
  by (induction ds) (auto simp: new_record_def split: option.splits if_splits)

lemma batch_of_obs: "r \<in> set (batch_of c obs ds inputs) \<Longrightarrow> r_obs r = obs"
  by (auto simp: batch_of_def input_records_def new_record_def dest: neuron_records_obs)

lemma neuron_records_known:
  "r \<in> set (neuron_records c obs ds) \<Longrightarrow>
     \<exists>n \<in> set (c_neurons c). n_uuid n = r_uuid r \<and> n_type n \<noteq> ''input''"
proof (induction ds)
  case Nil
  then show ?case by simp
next
  case (Cons d ds)
  show ?case
  proof (cases "find_neuron c (d_uuid d)")
    case None
    with Cons show ?thesis by simp
  next
    case (Some n)
    then have "n \<in> set (c_neurons c)" "n_uuid n = d_uuid d"
      by (auto simp: find_neuron_def find_Some_iff)
    with Some Cons show ?thesis by (auto simp: new_record_def split: if_splits)
  qed
qed

lemma input_uuid_inject [simp]: "input_uuid i = input_uuid j \<longleftrightarrow> i = j"
  by (simp add: input_uuid_def)

lemma input_records_uuids:
  "map r_uuid (input_records obs inputs) = map input_uuid [0..<length inputs]"
proof -
  have "map r_uuid (input_records obs inputs) = map input_uuid (map fst (enumerate 0 inputs))"
    by (auto simp: input_records_def new_record_def simp del: map_fst_enumerate)
  then show ?thesis by simp
qed

section \<open>The recorded file\<close>

text \<open>
  The files that recording touches: a path that does not exist, an empty file, a file an open
  writer is filling, or a finalised Parquet file. What the operating system answers is \<open>io\<close>
  (\<open>None\<close> is success).
\<close>

datatype 'w content = Empty | Partial 'w | Complete 'w

type_synonym 'w files = "string \<rightharpoonup> 'w content"

record io =
  io_mkdir :: "string option"
  io_create :: "string option"
  io_rename :: "string option"
  io_remove :: "string option"

definition remove_file :: "io \<Rightarrow> string \<Rightarrow> 'w files \<Rightarrow> 'w files" where
  "remove_file io path fs = (case io_remove io of None \<Rightarrow> fs(path := None) | Some _ \<Rightarrow> fs)"

text \<open>\<open>ParquetRecordWriter::new_exclusive\<close>: \<open>O_EXCL\<close> refuses an existing path.\<close>

definition writer_new_exclusive ::
  "'w arrow_ops \<Rightarrow> io \<Rightarrow> 'w files \<Rightarrow> string \<Rightarrow> nat \<Rightarrow> nat \<Rightarrow> nat
     \<Rightarrow> (write_error + 'w pq_writer) \<times> 'w files" where
  "writer_new_exclusive ops io fs path max_uuid max_errors capacity =
     (let file_error = (if path \<in> dom fs then Some ''File exists'' else io_create io) in
      case writer_open ops file_error max_uuid max_errors capacity of
        Inr w \<Rightarrow> (Inr w, fs(path \<mapsto> Partial (w_sink w)))
      | Inl (ArrowOpen e) \<Rightarrow> (Inl (ArrowOpen e), remove_file io path (fs(path \<mapsto> Empty)))
      | Inl e \<Rightarrow> (Inl e, fs))"

datatype record_failure = Mkdir string | Record record_error | CountOverflow | Write write_error | Publish string

text \<open>
  \<open>record_discovery_data\<close>, with the temporary and the published path it derives from the
  directory. A failure after the temporary file was created removes it.
\<close>

definition record_discovery_data ::
  "'w arrow_ops \<Rightarrow> io \<Rightarrow> string \<Rightarrow> string \<Rightarrow> record_input \<Rightarrow> 'w files \<Rightarrow> (record_failure + unit) \<times> 'w files" where
  "record_discovery_data ops io tmp final inp fs =
     (case io_mkdir io of
        Some e \<Rightarrow> (Inl (Mkdir e), fs)
      | None \<Rightarrow>
     (case validate_and_resolve_indices inp of
        Inl e \<Rightarrow> (Inl (Record e), fs)
      | Inr (count, obs) \<Rightarrow>
     (case records_per_sample count (c_input (i_creature inp)) of
        Inl e \<Rightarrow> (Inl (Record e), fs)
      | Inr per_sample \<Rightarrow>
     (case checked_mul_usize (length (i_training inp)) per_sample of
        None \<Rightarrow> (Inl CountOverflow, fs)
      | Some total_records \<Rightarrow>
     (case writer_new_exclusive ops io fs tmp max_arrow_offset max_arrow_offset total_records of
        (Inl e, fs') \<Rightarrow> (Inl (Write e), fs')
      | (Inr w, fs') \<Rightarrow>
     (case process_training_data ops inp obs count w of
        (Some e, w') \<Rightarrow> (Inl (Record e), remove_file io tmp (fs'(tmp \<mapsto> Partial (w_sink w'))))
      | (None, w') \<Rightarrow>
     (case writer_finish ops w' of
        Inl e \<Rightarrow> (Inl (Write e), remove_file io tmp (fs'(tmp \<mapsto> Partial (w_sink w'))))
      | Inr sink \<Rightarrow>
     (case io_rename io of
        Some e \<Rightarrow> (Inl (Publish e), remove_file io tmp (fs'(tmp \<mapsto> Complete sink)))
      | None \<Rightarrow> (Inr (), fs'(tmp := None, final \<mapsto> Complete sink))))))))))"

section \<open>Properties\<close>

text \<open>The batch of each sample, in order, leaving out samples that produce nothing.\<close>

definition sample_batches :: "creature_json \<Rightarrow> training_record list \<Rightarrow> u32 list \<Rightarrow> discover_record list list" where
  "sample_batches c ts obs =
     filter (\<lambda>b. b \<noteq> [])
       (map (\<lambda>(t, ob). batch_of c ob (the (t_neuron_data t)) (t_input t)) (zip ts obs))"

lemma process_loop_ok:
  assumes "process_loop ops c ts obs k wrote w = (None, wrote', w')"
  shows "\<exists>css. map concat css = sample_batches c ts obs \<and>
    (\<forall>cs \<in> set css. \<forall>b \<in> set cs. b \<noteq> []) \<and>
    fold_res (aw_write ops) (w_sink w) (concat css) = Inr (w_sink w') \<and>
    wrote' = (wrote \<or> sample_batches c ts obs \<noteq> []) \<and>
    (\<forall>t \<in> set ts. t_neuron_data t \<noteq> None)"
  using assms
proof (induction ops c ts obs k wrote w rule: process_loop.induct)
  case (1 ops c obs k wrote w)
  then show ?case by (intro exI [of _ "[]"]) (simp add: sample_batches_def)
next
  case (2 ops c t ts k wrote w)
  then show ?case by simp
next
  case (3 ops c t ts ob obs k wrote w)
  from "3.prems" obtain ds where ds: "t_neuron_data t = Some ds"
    by (auto split: option.splits)
  let ?b = "batch_of c ob ds (t_input t)"
  show ?case
  proof (cases "?b = []")
    case True
    with "3.prems" ds have "process_loop ops c ts obs (Suc k) wrote w = (None, wrote', w')"
      by (simp add: Let_def)
    from "3.IH"(1) [OF ds refl True this] ds True show ?thesis
      by (auto simp: sample_batches_def)
  next
    case False
    with "3.prems" ds obtain w1 where w1: "write_records ops w ?b = (None, w1)"
      and rest: "process_loop ops c ts obs (Suc k) True w1 = (None, wrote', w')"
      by (auto simp: Let_def split: prod.splits option.splits)
    from write_records_batches_in_order [OF w1] obtain cs where cs: "concat cs = ?b"
      "\<forall>b \<in> set cs. b \<noteq> []" "fold_res (aw_write ops) (w_sink w) cs = Inr (w_sink w1)"
      by blast
    from "3.IH"(2) [OF ds refl False w1 [symmetric] refl rest] obtain css where css:
      "map concat css = sample_batches c ts obs" "\<forall>cs \<in> set css. \<forall>b \<in> set cs. b \<noteq> []"
      "fold_res (aw_write ops) (w_sink w1) (concat css) = Inr (w_sink w')"
      "wrote'" "\<forall>t \<in> set ts. t_neuron_data t \<noteq> None"
      by auto
    from cs css ds False show ?thesis
      by (intro exI [of _ "cs # css"]) (auto simp: sample_batches_def fold_res_append_Inr)
  qed
qed

lemma process_training_ok:
  assumes "process_training_data ops inp obs count w = (None, w')"
  shows "\<exists>css. map concat css = sample_batches (i_creature inp) (i_training inp) obs \<and> css \<noteq> [] \<and>
    (\<forall>cs \<in> set css. \<forall>b \<in> set cs. b \<noteq> []) \<and>
    fold_res (aw_write ops) (w_sink w) (concat css) = Inr (w_sink w')"
proof -
  from assms have "process_loop ops (i_creature inp) (i_training inp) obs 0 False w = (None, True, w')"
    by (auto simp: process_training_data_def split: sum.splits prod.splits option.splits if_splits)
  from process_loop_ok [OF this] show ?thesis by fastforce
qed

lemma batch_single_observation:
  assumes "map concat css = sample_batches c ts obs" "b \<in> set (concat css)" "r \<in> set b" "r' \<in> set b"
  shows "r_obs r = r_obs r'"
proof -
  from assms(2) obtain cs where cs: "cs \<in> set css" "b \<in> set cs" by auto
  from cs(1) assms(1) have "concat cs \<in> set (sample_batches c ts obs)" by (metis image_eqI list.set_map)
  then obtain ob ds ins where "concat cs = batch_of c ob ds ins"
    by (auto simp: sample_batches_def)
  with cs(2) assms(3,4) have "r \<in> set (batch_of c ob ds ins)" "r' \<in> set (batch_of c ob ds ins)"
    by (metis concat.simps UN_I set_concat)+
  then show ?thesis by (simp add: batch_of_obs)
qed

text \<open>What creating the temporary file exclusively leaves behind.\<close>

lemma new_exclusive_Inr:
  "writer_new_exclusive ops io fs path mu me cap = (Inr w, fs') \<longleftrightarrow>
     path \<notin> dom fs \<and> io_create io = None \<and> writer_open ops None mu me cap = Inr w \<and>
     fs' = fs(path \<mapsto> Partial (w_sink w))"
  by (auto simp: writer_new_exclusive_def writer_open_def Let_def
      split: if_splits sum.splits option.splits)

lemma new_exclusive_Inl:
  assumes "writer_new_exclusive ops io fs path mu me cap = (Inl e, fs')"
  shows "fs' = fs \<or> path \<notin> dom fs \<and> io_remove io \<noteq> None \<and> fs' = fs(path \<mapsto> Empty)"
proof (cases "path \<in> dom fs")
  case True
  with assms show ?thesis
    by (auto simp: writer_new_exclusive_def writer_open_def Let_def
        split: if_splits sum.splits option.splits)
next
  case False
  with assms show ?thesis
    by (auto simp: writer_new_exclusive_def writer_open_def Let_def remove_file_def fun_upd_idem_iff
        split: if_splits sum.splits option.splits)
qed

lemma writer_open_Inr:
  "writer_open ops fe mu me cap = Inr w \<Longrightarrow>
     aw_open ops = Inr (w_sink w) \<and> w_max_uuid w = mu \<and> w_max_errors w = me \<and> w_remaining w = cap"
  by (auto simp: writer_open_def split: if_splits option.splits sum.splits)

text \<open>
  C3. When recording succeeds, the published file is the finalised writer output of the samples'
  batches in order, the temporary file is gone, and it did not exist before. Every batch handed
  to the writer holds records of a single observation, the observation indices are distinct, and
  no other path changes.
\<close>
theorem record_discovery_publishes:
  assumes "record_discovery_data ops io tmp final inp fs = (Inr (), fs')"
  shows "\<exists>count obs css sink0 sink1 sink. validate_and_resolve_indices inp = Inr (count, obs) \<and>
    distinct obs \<and> length obs = length (i_training inp) \<and>
    map concat css = sample_batches (i_creature inp) (i_training inp) obs \<and> css \<noteq> [] \<and>
    list_all (\<lambda>b. b \<noteq> [] \<and> list_all (\<lambda>r. r_obs r = r_obs (hd b)) b) (concat css) \<and>
    aw_open ops = Inr sink0 \<and> fold_res (aw_write ops) sink0 (concat css) = Inr sink1 \<and>
    aw_close ops sink1 = Inr sink \<and>
    tmp \<notin> dom fs \<and> fs' = fs(tmp := None, final \<mapsto> Complete sink)"
proof -
  from assms obtain count obs n w w' sink fs1 where
    v: "validate_and_resolve_indices inp = Inr (count, obs)"
    and w: "writer_new_exclusive ops io fs tmp max_arrow_offset max_arrow_offset n = (Inr w, fs1)"
    and p: "process_training_data ops inp obs count w = (None, w')"
    and f: "writer_finish ops w' = Inr sink"
    and fs': "fs' = fs1(tmp := None, final \<mapsto> Complete sink)"
    by (auto simp: record_discovery_data_def split: option.splits sum.splits prod.splits)
  from v have res: "resolve_observation_indices inp = Inr obs"
    by (auto simp: validate_and_resolve_indices_def Let_def split: if_splits)
  from process_training_ok [OF p] obtain css where css:
    "map concat css = sample_batches (i_creature inp) (i_training inp) obs" "css \<noteq> []"
    "\<forall>cs \<in> set css. \<forall>b \<in> set cs. b \<noteq> []"
    "fold_res (aw_write ops) (w_sink w) (concat css) = Inr (w_sink w')" by blast
  have "b \<noteq> [] \<and> (\<forall>r \<in> set b. r_obs r = r_obs (hd b))" if "b \<in> set (concat css)" for b
  proof -
    from that css(3) have "b \<noteq> []" by auto
    then show ?thesis using batch_single_observation [OF css(1) that _ hd_in_set] by blast
  qed
  then have "list_all (\<lambda>b. b \<noteq> [] \<and> list_all (\<lambda>r. r_obs r = r_obs (hd b)) b) (concat css)"
    by (simp only: list_all_iff) blast
  moreover from w have "aw_open ops = Inr (w_sink w)" "tmp \<notin> dom fs" "fs1 = fs(tmp \<mapsto> Partial (w_sink w))"
    by (auto simp: new_exclusive_Inr dest: writer_open_Inr)
  moreover from f have "aw_close ops (w_sink w') = Inr sink"
    by (simp add: writer_finish_def split: sum.splits)
  ultimately show ?thesis
    using v css resolve_indices_Inr [OF res] fs'
    by (intro exI [of _ count] exI [of _ obs] exI [of _ css] exI [of _ "w_sink w"]
        exI [of _ "w_sink w'"] exI [of _ sink] conjI) simp_all
qed

definition good_io :: io where
  "good_io = \<lparr>io_mkdir = None, io_create = None, io_rename = None, io_remove = None\<rparr>"

definition example_input :: record_input where
  "example_input =
     \<lparr>i_creature = example_creature,
      i_training = [\<lparr>t_input = [7], t_output = [],
        t_neuron_data = Some [\<lparr>d_uuid = ''output-0'', d_activation = 1, d_value = None, d_errors = [3]\<rparr>,
                             \<lparr>d_uuid = ''ghost'', d_activation = 1, d_value = None, d_errors = []\<rparr>]\<rparr>],
      i_indices = Some [41]\<rparr>"

definition example_batch :: "discover_record list" where
  "example_batch = [new_record 41 ''output-0'' None 1 [3], new_record 41 ''input-0'' (Some 7) 7 []]"

lemma example_validates: "validate_and_resolve_indices example_input = Inr (2, [41])"
  by (simp add: validate_and_resolve_indices_def resolve_observation_indices_def
      records_per_sample_def checked_add_usize_def non_input_count_def example_input_def
      example_creature_def u32_try_from_def usize_max_def)

lemma example_write_records:
  assumes "w_sink w = []" "w_longest w = None" "2 \<le> w_remaining w"
    "w_max_uuid w = max_arrow_offset" "w_max_errors w = max_arrow_offset"
  shows "write_records log_ops w example_batch =
    (None, w\<lparr>w_longest := Some ''output-0'', w_sink := [example_batch],
             w_remaining := w_remaining w - 2\<rparr>)"
proof -
  have valid: "validate_neuron_uuid ''output-0'' = Inr ()" "validate_neuron_uuid ''input-0'' = Inr ()"
    by (simp_all add: validate_neuron_uuid_ok_iff is_uuid_char_def Let_def)
  have big: "20 \<le> max_arrow_offset" by (simp add: max_arrow_offset_def)
  have "determine_chunk_end example_batch 0 max_arrow_offset max_arrow_offset = 2"
    using big by (simp add: determine_chunk_end_def example_batch_def new_record_def Let_def)
  then have "write_chunks log_ops max_arrow_offset max_arrow_offset (Some ''output-0'') example_batch 0 []
      = (None, [example_batch])"
    by (simp add: write_chunks.simps [of _ _ _ _ _ 0] write_chunks.simps [of _ _ _ _ _ 2] Let_def
        write_chunk_def log_ops_def example_batch_def)
  moreover have "validate_records max_arrow_offset max_arrow_offset example_batch None = (None, Some ''output-0'')"
    using big valid by (simp add: example_batch_def new_record_def Let_def)
  ultimately show ?thesis
    using assms by (simp add: write_records_def) (simp add: example_batch_def)
qed

definition example_data :: "neuron_data list" where
  "example_data =
     [\<lparr>d_uuid = ''output-0'', d_activation = 1, d_value = None, d_errors = [3]\<rparr>,
      \<lparr>d_uuid = ''ghost'', d_activation = 1, d_value = None, d_errors = []\<rparr>]"

lemma example_batch_of: "batch_of example_creature 41 example_data [7] = example_batch"
  by code_simp

lemma example_write:
  "process_training_data log_ops example_input [41] 2
     \<lparr>w_sink = [], w_max_uuid = max_arrow_offset, w_max_errors = max_arrow_offset,
      w_longest = None, w_remaining = 3\<rparr> =
   (None, \<lparr>w_sink = [example_batch], w_max_uuid = max_arrow_offset, w_max_errors = max_arrow_offset,
      w_longest = Some ''output-0'', w_remaining = 1\<rparr>)"
  by (simp add: process_training_data_def example_input_def records_per_sample_def
      checked_add_usize_def usize_max_def example_batch_of [unfolded example_data_def] Let_def
      example_write_records)
     (simp add: example_batch_def example_creature_def)

lemma example_records:
  "record_discovery_data log_ops good_io ''d.tmp'' ''d'' example_input Map.empty =
     (Inr (), [''d'' \<mapsto> Complete [example_batch]])"
proof -
  have op: "writer_new_exclusive log_ops good_io Map.empty ''d.tmp'' max_arrow_offset max_arrow_offset 3 =
      (Inr \<lparr>w_sink = [], w_max_uuid = max_arrow_offset, w_max_errors = max_arrow_offset,
        w_longest = None, w_remaining = 3\<rparr>, [''d.tmp'' \<mapsto> Partial []])"
    by (simp add: new_exclusive_Inr good_io_def writer_open_def log_ops_def max_arrow_offset_def)
  have n: "records_per_sample 2 (c_input (i_creature example_input)) = Inr 3"
    "checked_mul_usize (length (i_training example_input)) 3 = Some 3"
    by (simp_all add: example_input_def example_creature_def records_per_sample_def
        checked_add_usize_def checked_mul_usize_def usize_max_def)
  have io: "io_mkdir good_io = None" "io_rename good_io = None" by (simp_all add: good_io_def)
  have fin: "writer_finish log_ops w = Inr (w_sink w)" for w
    by (simp add: writer_finish_def log_ops_def)
  show ?thesis
    unfolding record_discovery_data_def
    by (simp add: example_validates n op example_write io fin)
qed

theorem record_discovery_publishes_witness:
  "\<exists>css. map concat css = sample_batches example_creature (i_training example_input) [41] \<and> css \<noteq> [] \<and>
     list_all (\<lambda>b. b \<noteq> [] \<and> list_all (\<lambda>r. r_obs r = r_obs (hd b)) b) (concat css)"
  using record_discovery_publishes [OF example_records] example_validates
  by (auto simp: example_input_def)

text \<open>
  C13. A failed recording never touches the published path or any other file, and leaves an
  already existing temporary file untouched; when the clean-up succeeds the files are exactly
  what they were.
\<close>
theorem record_discovery_failure_clean:
  assumes "record_discovery_data ops io tmp final inp fs = (Inl e, fs')"
  shows "(\<forall>q. q \<noteq> tmp \<longrightarrow> fs' q = fs q) \<and> (tmp \<in> dom fs \<longrightarrow> fs' = fs) \<and>
    (io_remove io = None \<longrightarrow> fs' = fs)"
proof -
  have after: "fs'' = fs \<or> tmp \<notin> dom fs \<and> io_remove io \<noteq> None \<and> (\<exists>x. fs'' = fs(tmp \<mapsto> x))"
    if "writer_new_exclusive ops io fs tmp a b n = (Inr w, fs1)" "fs'' = remove_file io tmp (fs1(tmp \<mapsto> x))"
    for a b n w fs1 fs'' x
    using that by (auto simp: new_exclusive_Inr remove_file_def fun_upd_idem_iff split: option.splits)
  have "fs' = fs \<or> tmp \<notin> dom fs \<and> io_remove io \<noteq> None \<and> (\<exists>x. fs' = fs(tmp \<mapsto> x))"
    using assms unfolding record_discovery_data_def
    by (auto split: option.splits sum.splits prod.splits dest: after new_exclusive_Inl)
  then show ?thesis by (auto simp: dom_def)
qed

theorem record_discovery_failure_clean_witness:
  "fst (record_discovery_data log_ops good_io ''d.tmp'' ''d'' (example_input\<lparr>i_training := []\<rparr>)
          [''d'' \<mapsto> Complete [example_batch]]) = Inl (Record (IndexCountMismatch 1 0)) \<and>
   snd (record_discovery_data log_ops good_io ''d.tmp'' ''d'' (example_input\<lparr>i_training := []\<rparr>)
          [''d'' \<mapsto> Complete [example_batch]]) = [''d'' \<mapsto> Complete [example_batch]]"
proof -
  have v: "validate_and_resolve_indices (example_input\<lparr>i_training := []\<rparr>) = Inl (IndexCountMismatch 1 0)"
    by (simp add: validate_and_resolve_indices_def resolve_observation_indices_def
        non_input_count_def example_input_def example_creature_def)
  then have "record_discovery_data log_ops good_io ''d.tmp'' ''d'' (example_input\<lparr>i_training := []\<rparr>)
      [''d'' \<mapsto> Complete [example_batch]] =
      (Inl (Record (IndexCountMismatch 1 0)), [''d'' \<mapsto> Complete [example_batch]])" (is "?r = _")
    unfolding record_discovery_data_def by (simp add: good_io_def)
  with record_discovery_failure_clean [of log_ops good_io "''d.tmp''" "''d''"
      "example_input\<lparr>i_training := []\<rparr>" "[''d'' \<mapsto> Complete [example_batch]]"]
  show ?thesis by (simp add: good_io_def)
qed

text \<open>
  Observation indices are resolved without loss: a success gives one distinct \<open>u32\<close> per
  training record, equal to the caller's indices or to 0, 1, 2, ...; given indices are refused
  exactly when their number differs, one repeats, or one does not fit in \<open>u32\<close>.
\<close>
theorem observation_indices_exact:
  "(case resolve_observation_indices inp of
      Inr obs \<Rightarrow> distinct obs \<and> length obs = length (i_training inp) \<and>
        map unat obs = (case i_indices inp of Some ns \<Rightarrow> ns | None \<Rightarrow> [0..<length (i_training inp)])
    | Inl e \<Rightarrow> (case i_indices inp of
        Some ns \<Rightarrow> \<not> (length ns = length (i_training inp) \<and> distinct ns \<and> list_all (\<lambda>n. n < 2 ^ 32) ns)
      | None \<Rightarrow> 2 ^ 32 \<le> length (i_training inp)))"
proof (cases "resolve_observation_indices inp")
  case (Inr obs)
  with resolve_indices_Inr [OF Inr] show ?thesis by (simp split: option.splits)
next
  case (Inl e)
  show ?thesis
  proof (cases "i_indices inp")
    case (Some ns)
    have "convert_indices [] ns = Inr (map word_of_nat ns)"
      if "distinct ns" "\<forall>n \<in> set ns. n < 2 ^ 32"
      using that by (simp add: convert_indices_Inr)
    with Inl Some show ?thesis
      by (auto simp: resolve_observation_indices_def list_all_iff split: if_splits)
  next
    case None
    have "fold_res (\<lambda>acc idx. case u32_try_from idx of
        None \<Rightarrow> Inl (IndexTooLarge idx) | Some i \<Rightarrow> Inr (acc @ [i])) [] [0..<length (i_training inp)]
        = Inr (map word_of_nat [0..<length (i_training inp)])"
      if "length (i_training inp) < 2 ^ 32"
      using that sequential_indices [of "[0..<length (i_training inp)]" "[]"] by simp
    with Inl None show ?thesis
      by (auto simp: resolve_observation_indices_def simp del: upt_Suc split: if_splits)
  qed
qed

end
