(* ===== verification/Sessions.thy ===== *)
theory Sessions
  imports Recording "HOL-Library.AList" "HOL-Library.Multiset"
begin

text \<open>
  Streaming recording sessions (\<open>src/streaming.rs\<close>). The process-global map from session
  identifiers to shared handles, the entries behind the handles (tombstone flag and session under
  its own lock), and the files.

  A handle is an address of the store. \<open>st_holds\<close> counts the \<open>Arc\<close> clones that calls in flight
  hold, \<open>st_locked\<close> the per-session locks taken; \<open>RecordingSession::drop\<close> runs when the last
  reference goes (\<open>release\<close>). Every API function is split at the points where it takes or gives
  up a lock, so that the same definitions describe a call that runs alone and calls that
  interleave.
\<close>

section \<open>State\<close>

record 'w session =
  ss_writer :: "'w pq_writer option"
  ss_creature :: creature_json
  ss_temp_dir :: string
  ss_parquet_path :: string
  ss_records_written :: nat
  ss_finished :: bool
  ss_preserve :: bool
  ss_created_at :: instant

record 'w entry =
  e_cancelled :: bool
  e_session :: "'w session"

record 'w store =
  st_sessions :: "(string \<times> nat) list"
  st_entries :: "nat \<rightharpoonup> 'w entry"
  st_holds :: "nat \<Rightarrow> nat"
  st_locked :: "nat set"
  st_next :: nat
  st_files :: "'w files"

datatype session_error =
    SessionNotFound string
  | SessionCancelled string
  | WriterConsumed
  | AppendWrite write_error
  | NothingRecorded
  | FinaliseFailed write_error
  | RenameFailed string
  | TempDirFailed string
  | NoRecordableNeuron
  | WriterInit write_error

definition streaming_max_capacity :: nat where "streaming_max_capacity = 2 ^ 31 - 1"

definition tmp_path :: "'w session \<Rightarrow> string" where
  "tmp_path s = ss_parquet_path s @ ''.tmp''"

definition parquet_path_in :: "string \<Rightarrow> string" where
  "parquet_path_in dir = dir @ ''/discovery_data.parquet''"

section \<open>Handles\<close>

definition session_handle :: "'w store \<Rightarrow> string \<Rightarrow> nat option" where
  "session_handle st sid = map_of (st_sessions st) sid"

definition remove_from_map :: "string \<Rightarrow> 'w store \<Rightarrow> 'w store" where
  "remove_from_map sid st = st\<lparr>st_sessions := AList.delete sid (st_sessions st)\<rparr>"

definition cancel_entry :: "nat \<Rightarrow> 'w store \<Rightarrow> 'w store" where
  "cancel_entry h st =
     st\<lparr>st_entries := (st_entries st)(h := map_option (\<lambda>e. e\<lparr>e_cancelled := True\<rparr>) (st_entries st h))\<rparr>"

text \<open>\<open>impl Drop for RecordingSession\<close>.\<close>

definition session_drop :: "io \<Rightarrow> 'w session \<Rightarrow> 'w files \<Rightarrow> 'w files" where
  "session_drop io s fs =
     (if ss_finished s then fs
      else if ss_preserve s then fs
      else remove_file io (tmp_path s) fs)"

text \<open>One reference to a handle goes; the last one drops the session.\<close>

definition release :: "io \<Rightarrow> nat \<Rightarrow> 'w store \<Rightarrow> 'w store" where
  "release io h st =
     (if h \<in> snd ` set (st_sessions st) \<or> 0 < st_holds st h then st
      else case st_entries st h of
             None \<Rightarrow> st
           | Some e \<Rightarrow> st\<lparr>st_entries := (st_entries st)(h := None),
                         st_files := session_drop io (e_session e) (st_files st)\<rparr>)"

definition hold :: "nat \<Rightarrow> 'w store \<Rightarrow> 'w store" where
  "hold h st = st\<lparr>st_holds := (st_holds st)(h := Suc (st_holds st h))\<rparr>"

definition unhold :: "io \<Rightarrow> nat \<Rightarrow> 'w store \<Rightarrow> 'w store" where
  "unhold io h st = release io h (st\<lparr>st_holds := (st_holds st)(h := st_holds st h - 1)\<rparr>)"

definition set_session :: "nat \<Rightarrow> 'w session \<Rightarrow> 'w store \<Rightarrow> 'w store" where
  "set_session h s st =
     st\<lparr>st_entries := (st_entries st)(h := map_option (\<lambda>e. e\<lparr>e_session := s\<rparr>) (st_entries st h))\<rparr>"

section \<open>Sweep and start\<close>

definition is_stale :: "duration \<Rightarrow> instant \<Rightarrow> 'w store \<Rightarrow> string \<times> nat \<Rightarrow> bool" where
  "is_stale ttl now st = (\<lambda>(sid, h).
     h \<notin> st_locked st \<and>
     (case st_entries st h of None \<Rightarrow> False | Some e \<Rightarrow> ttl < now - ss_created_at (e_session e)))"

definition cleanup_stale_sessions :: "io \<Rightarrow> duration \<Rightarrow> instant \<Rightarrow> 'w store \<Rightarrow> 'w store" where
  "cleanup_stale_sessions io ttl now st =
     (let stale = filter (is_stale ttl now st) (st_sessions st);
          evicted = fold (\<lambda>(sid, h) s. cancel_entry h (remove_from_map sid s)) stale st
      in fold (\<lambda>(sid, h). release io h) stale evicted)"

definition session_new ::
  "'w arrow_ops \<Rightarrow> io \<Rightarrow> instant \<Rightarrow> creature_json \<Rightarrow> string \<Rightarrow> string \<Rightarrow> 'w files
     \<Rightarrow> (session_error + 'w session) \<times> 'w files" where
  "session_new ops io now c dir path fs =
     (case writer_new_exclusive ops io fs (path @ ''.tmp'') max_arrow_offset max_arrow_offset
             streaming_max_capacity of
        (Inl e, fs') \<Rightarrow> (Inl (WriterInit e), fs')
      | (Inr w, fs') \<Rightarrow>
          (Inr \<lparr>ss_writer = Some w, ss_creature = c, ss_temp_dir = dir, ss_parquet_path = path,
                ss_records_written = 0, ss_finished = False, ss_preserve = False,
                ss_created_at = now\<rparr>, fs'))"

text \<open>
  \<open>start_session\<close>; the random identifier is the argument \<open>sid\<close>. \<open>HashMap::insert\<close> drops a
  handle it replaces.
\<close>

definition start_session ::
  "'w arrow_ops \<Rightarrow> io \<Rightarrow> duration \<Rightarrow> instant \<Rightarrow> string \<Rightarrow> creature_json \<Rightarrow> string \<Rightarrow> 'w store
     \<Rightarrow> (session_error + string) \<times> 'w store" where
  "start_session ops io ttl now sid c dir st =
     (let st = cleanup_stale_sessions io ttl now st in
      case io_mkdir io of
        Some e \<Rightarrow> (Inl (TempDirFailed e), st)
      | None \<Rightarrow>
          if non_input_count c = 0 then (Inl NoRecordableNeuron, st)
          else case session_new ops io now c dir (parquet_path_in dir) (st_files st) of
                 (Inl e, fs) \<Rightarrow> (Inl e, st\<lparr>st_files := fs\<rparr>)
               | (Inr s, fs) \<Rightarrow>
                   let h = st_next st; old = session_handle st sid;
                       st' = st\<lparr>st_sessions := AList.update sid h (st_sessions st),
                                st_entries := (st_entries st)(h \<mapsto> \<lparr>e_cancelled = False, e_session = s\<rparr>),
                                st_next := Suc h, st_files := fs\<rparr>
                   in (Inr sid, case old of None \<Rightarrow> st' | Some h' \<Rightarrow> release io h' st'))"

section \<open>Append\<close>

type_synonym batch_input = "u32 \<times> neuron_data list \<times> f32 list"

text \<open>The loop over the batches: how many records were written, and the writer it leaves.\<close>

fun append_loop ::
  "'w arrow_ops \<Rightarrow> creature_json \<Rightarrow> batch_input list \<Rightarrow> nat \<Rightarrow> 'w pq_writer option
     \<Rightarrow> (session_error + nat) \<times> 'w pq_writer option" where
  "append_loop ops c [] n w = (Inr n, w)"
| "append_loop ops c ((obs, ds, inputs) # rest) n w =
     (let batch = batch_of c obs ds inputs in
      if batch = [] then append_loop ops c rest n w
      else case w of
             None \<Rightarrow> (Inl WriterConsumed, w)
           | Some wr \<Rightarrow>
               (case write_records ops wr batch of
                  (Some e, wr') \<Rightarrow> (Inl (AppendWrite e), Some wr')
                | (None, wr') \<Rightarrow> append_loop ops c rest (n + length batch) (Some wr')))"

text \<open>The temporary file holds what its open writer has written.\<close>

definition sync_file :: "'w session \<Rightarrow> 'w files \<Rightarrow> 'w files" where
  "sync_file s fs =
     (case ss_writer s of
        None \<Rightarrow> fs
      | Some w \<Rightarrow> if tmp_path s \<in> dom fs then fs(tmp_path s \<mapsto> Partial (w_sink w)) else fs)"

text \<open>
  \<open>append_to_handle\<close> from taking the lock to the end of its writes. On success the lock is
  still held.
\<close>

definition append_write ::
  "'w arrow_ops \<Rightarrow> nat \<Rightarrow> string \<Rightarrow> batch_input list \<Rightarrow> 'w store \<Rightarrow> (session_error + nat) \<times> 'w store" where
  "append_write ops h sid batches st =
     (case st_entries st h of
        None \<Rightarrow> (Inl (SessionNotFound sid), st)
      | Some e \<Rightarrow>
          if e_cancelled e then (Inl (SessionCancelled sid), st)
          else
            let s = e_session e in
            case append_loop ops (ss_creature s) batches 0 (ss_writer s) of
              (r, w') \<Rightarrow>
                let s' = s\<lparr>ss_writer := w'\<rparr>;
                    st' = (set_session h s' st)\<lparr>st_files := sync_file s' (st_files st)\<rparr>
                in case r of
                     Inl err \<Rightarrow> (Inl err, st')
                   | Inr n \<Rightarrow> (Inr n, st'\<lparr>st_locked := insert h (st_locked st)\<rparr>))"

text \<open>The second cancellation check, the acknowledgement and the end of the lock.\<close>

definition append_ack :: "nat \<Rightarrow> string \<Rightarrow> nat \<Rightarrow> 'w store \<Rightarrow> (session_error + nat) \<times> 'w store" where
  "append_ack h sid n st =
     (let st' = st\<lparr>st_locked := st_locked st - {h}\<rparr> in
      case st_entries st h of
        None \<Rightarrow> (Inl (SessionNotFound sid), st')
      | Some e \<Rightarrow>
          if e_cancelled e then (Inl (SessionCancelled sid), st')
          else (Inr n, set_session h
                  ((e_session e)\<lparr>ss_records_written := ss_records_written (e_session e) + n\<rparr>) st'))"

definition append_to_handle ::
  "'w arrow_ops \<Rightarrow> nat \<Rightarrow> string \<Rightarrow> batch_input list \<Rightarrow> 'w store \<Rightarrow> (session_error + nat) \<times> 'w store" where
  "append_to_handle ops h sid batches st =
     (case append_write ops h sid batches st of
        (Inl e, st') \<Rightarrow> (Inl e, st')
      | (Inr n, st') \<Rightarrow> append_ack h sid n st')"

definition append_records ::
  "'w arrow_ops \<Rightarrow> io \<Rightarrow> string \<Rightarrow> batch_input list \<Rightarrow> 'w store \<Rightarrow> (session_error + nat) \<times> 'w store" where
  "append_records ops io sid batches st =
     (case session_handle st sid of
        None \<Rightarrow> (Inl (SessionNotFound sid), st)
      | Some h \<Rightarrow>
          (case append_to_handle ops h sid batches (hold h st) of
             (r, st') \<Rightarrow> (r, unhold io h st')))"

section \<open>Finish and cancel\<close>

text \<open>
  The locked region of \<open>finish_session\<close>: on \<open>Inr\<close> the recording is published. The writer is
  taken out of the session before it is closed.
\<close>

definition finish_locked ::
  "'w arrow_ops \<Rightarrow> io \<Rightarrow> 'w session \<Rightarrow> 'w files \<Rightarrow> (session_error + unit) \<times> 'w session \<times> 'w files" where
  "finish_locked ops io s fs =
     (let s1 = s\<lparr>ss_preserve := True\<rparr>;
          closed = (case ss_writer s1 of
                      None \<Rightarrow> Inr (s1, fs)
                    | Some w \<Rightarrow>
                        (case writer_finish ops w of
                           Inl e \<Rightarrow> Inl (FinaliseFailed e)
                         | Inr sink \<Rightarrow> Inr (s1\<lparr>ss_writer := None\<rparr>,
                             if tmp_path s \<in> dom fs then fs(tmp_path s \<mapsto> Complete sink) else fs)))
      in case closed of
           Inl e \<Rightarrow> (Inl e, s1\<lparr>ss_writer := None\<rparr>, fs)
         | Inr (s2, fs2) \<Rightarrow>
             (case io_rename io of
                Some e \<Rightarrow> (Inl (RenameFailed e), s2, fs2)
              | None \<Rightarrow>
                  (case fs2 (tmp_path s) of
                     None \<Rightarrow> (Inl (RenameFailed ''No such file or directory''), s2, fs2)
                   | Some content \<Rightarrow>
                       (Inr (), s2\<lparr>ss_finished := True\<rparr>,
                        fs2(tmp_path s := None, ss_parquet_path s \<mapsto> content)))))"

text \<open>
  \<open>finish_session\<close> from taking the session lock to giving it up: the answer, and whether the
  session is over and leaves the map.
\<close>

definition finish_region ::
  "'w arrow_ops \<Rightarrow> io \<Rightarrow> nat \<Rightarrow> string \<Rightarrow> 'w store
     \<Rightarrow> (session_error + string \<times> string \<times> nat) \<times> bool \<times> 'w store" where
  "finish_region ops io h sid st =
     (case st_entries st h of
        None \<Rightarrow> (Inl (SessionNotFound sid), False, st)
      | Some e \<Rightarrow>
          let s = e_session e in
          if ss_records_written s = 0 then (Inl NothingRecorded, True, st)
          else case finish_locked ops io s (st_files st) of
                 (Inl err, s', fs') \<Rightarrow> (Inl err, False, (set_session h s' st)\<lparr>st_files := fs'\<rparr>)
               | (Inr _, s', fs') \<Rightarrow>
                   (Inr (ss_temp_dir s', ''discovery_data.parquet'', ss_records_written s'), True,
                    (set_session h s' st)\<lparr>st_files := fs'\<rparr>))"

definition retire :: "io \<Rightarrow> nat \<Rightarrow> string \<Rightarrow> 'w store \<Rightarrow> 'w store" where
  "retire io h sid st = release io h (remove_from_map sid st)"

definition finish_handle ::
  "'w arrow_ops \<Rightarrow> io \<Rightarrow> nat \<Rightarrow> string \<Rightarrow> 'w store \<Rightarrow> (session_error + string \<times> string \<times> nat) \<times> 'w store" where
  "finish_handle ops io h sid st =
     (case finish_region ops io h sid st of
        (r, over, st') \<Rightarrow> (r, if over then retire io h sid st' else st'))"

definition finish_session ::
  "'w arrow_ops \<Rightarrow> io \<Rightarrow> string \<Rightarrow> 'w store \<Rightarrow> (session_error + string \<times> string \<times> nat) \<times> 'w store" where
  "finish_session ops io sid st =
     (case session_handle st sid of
        None \<Rightarrow> (Inl (SessionNotFound sid), st)
      | Some h \<Rightarrow>
          (case finish_handle ops io h sid (hold h st) of
             (r, st') \<Rightarrow> (r, unhold io h st')))"

definition cancel_session :: "io \<Rightarrow> string \<Rightarrow> 'w store \<Rightarrow> (session_error + unit) \<times> 'w store" where
  "cancel_session io sid st =
     (case session_handle st sid of
        None \<Rightarrow> (Inl (SessionNotFound sid), st)
      | Some h \<Rightarrow> (Inr (), release io h (cancel_entry h (remove_from_map sid st))))"

definition active_session_count :: "'w store \<Rightarrow> nat" where
  "active_session_count st = length (st_sessions st)"

definition empty_store :: "'w files \<Rightarrow> 'w store" where
  "empty_store fs = \<lparr>st_sessions = [], st_entries = Map.empty, st_holds = (\<lambda>_. 0), st_locked = {},
                     st_next = 0, st_files = fs\<rparr>"

section \<open>Calls that run alone\<close>

text \<open>
  Between calls nobody holds a handle or a lock, handles and identifiers correspond one to one,
  and no registered entry is tombstoned. \<open>sess_map\<close> is the abstract state such a store
  stands for: the sessions by identifier.
\<close>

definition quiet :: "'w store \<Rightarrow> bool" where
  "quiet st \<longleftrightarrow>
     st_holds st = (\<lambda>_. 0) \<and> st_locked st = {} \<and>
     distinct (map fst (st_sessions st)) \<and> distinct (map snd (st_sessions st)) \<and>
     dom (st_entries st) = snd ` set (st_sessions st) \<and>
     (\<forall>h \<in> dom (st_entries st). h < st_next st) \<and>
     (\<forall>h e. st_entries st h = Some e \<longrightarrow> \<not> e_cancelled e)"

definition sess_map :: "'w store \<Rightarrow> string \<rightharpoonup> 'w session" where
  "sess_map st sid =
     (case session_handle st sid of None \<Rightarrow> None | Some h \<Rightarrow> map_option e_session (st_entries st h))"

lemma quiet_handle:
  assumes "quiet st" "session_handle st sid = Some h"
  obtains e where "st_entries st h = Some e" "\<not> e_cancelled e" "sess_map st sid = Some (e_session e)"
    "h \<in> snd ` set (st_sessions st)"
proof -
  from assms have mem: "(sid, h) \<in> set (st_sessions st)"
    by (simp add: session_handle_def map_of_SomeD)
  then have h: "h \<in> snd ` set (st_sessions st)" by force
  with assms(1) have "h \<in> dom (st_entries st)" by (simp add: quiet_def)
  then obtain e where e: "st_entries st h = Some e" by blast
  with assms have "\<not> e_cancelled e" "sess_map st sid = Some (e_session e)"
    by (auto simp: quiet_def sess_map_def)
  with that e h show thesis by blast
qed

lemma sess_map_None_iff:
  assumes "quiet st"
  shows "sess_map st sid = None \<longleftrightarrow> session_handle st sid = None"
proof (cases "session_handle st sid")
  case None
  then show ?thesis by (simp add: sess_map_def)
next
  case (Some h)
  with assms show ?thesis by (auto elim: quiet_handle)
qed

lemma quiet_handle_unique:
  assumes "quiet st" "session_handle st sid = Some h" "session_handle st sid' = Some h"
  shows "sid = sid'"
proof -
  from assms have "(sid, h) \<in> set (st_sessions st)" "(sid', h) \<in> set (st_sessions st)"
    by (simp_all add: session_handle_def map_of_SomeD)
  moreover have "inj_on snd (set (st_sessions st))"
    using assms(1) by (simp add: quiet_def distinct_map)
  ultimately show ?thesis by (metis inj_onD prod.inject snd_conv)
qed

lemma quiet_set_session:
  assumes "quiet st" "session_handle st sid = Some h"
  shows "quiet (set_session h s st)" and "sess_map (set_session h s st) = (sess_map st)(sid \<mapsto> s)"
proof -
  from assms obtain e where e: "st_entries st h = Some e" "\<not> e_cancelled e"
    by (rule quiet_handle)
  with assms(1) show "quiet (set_session h s st)"
    by (auto simp: quiet_def set_session_def insert_absorb domI)
  show "sess_map (set_session h s st) = (sess_map st)(sid \<mapsto> s)"
  proof
    fix sid'
    show "sess_map (set_session h s st) sid' = ((sess_map st)(sid \<mapsto> s)) sid'"
    proof (cases "sid' = sid")
      case True
      with assms(2) e show ?thesis
        by (simp add: sess_map_def set_session_def session_handle_def)
    next
      case False
      with quiet_handle_unique [OF assms(1,2), of sid'] have "session_handle st sid' \<noteq> Some h"
        by blast
      with False show ?thesis
        by (cases "session_handle st sid'") (auto simp: sess_map_def set_session_def session_handle_def)
    qed
  qed
qed

lemma quiet_files [simp]: "quiet (st\<lparr>st_files := fs\<rparr>) = quiet st" "sess_map (st\<lparr>st_files := fs\<rparr>) = sess_map st"
  by (simp_all add: quiet_def sess_map_def session_handle_def fun_eq_iff split: option.splits)

lemma session_handle_simps [simp]:
  "session_handle (hold h st) sid = session_handle st sid"
  "session_handle (set_session h s st) sid = session_handle st sid"
  "session_handle (cancel_entry h st) sid = session_handle st sid"
  "session_handle (st\<lparr>st_files := fs\<rparr>) sid = session_handle st sid"
  "session_handle (remove_from_map sid' st) sid = (if sid = sid' then None else session_handle st sid)"
  by (simp_all add: session_handle_def hold_def set_session_def cancel_entry_def remove_from_map_def
      delete_conv')

lemma delete_snd:
  assumes "distinct (map snd xs)" "map_of xs k = Some h" "distinct (map fst xs)"
  shows "snd ` set (AList.delete k xs) = snd ` set xs - {h}"
proof -
  from assms(2) have "(k, h) \<in> set xs" by (rule map_of_SomeD)
  moreover have "inj_on snd (set xs)" using assms(1) by (simp add: distinct_map)
  ultimately have only: "(k', h) \<in> set xs \<Longrightarrow> k' = k" for k'
    by (metis inj_onD prod.inject snd_conv)
  show ?thesis
  proof
    show "snd ` set (AList.delete k xs) \<subseteq> snd ` set xs - {h}"
      using only by (auto simp: AList.delete_eq)
    show "snd ` set xs - {h} \<subseteq> snd ` set (AList.delete k xs)"
    proof
      fix x assume "x \<in> snd ` set xs - {h}"
      then obtain k' where "(k', x) \<in> set xs" "x \<noteq> h" by auto
      moreover from this assms(2,3) have "k' \<noteq> k" by (metis map_of_eq_Some_iff option.inject)
      ultimately show "x \<in> snd ` set (AList.delete k xs)"
        by (force simp: AList.delete_eq)
    qed
  qed
qed

text \<open>Removing a session from the map and dropping the last reference.\<close>

lemma quiet_retire:
  assumes "quiet st" "session_handle st sid = Some h" "st_entries st h = Some e"
    and st': "st' = release io h (remove_from_map sid st)"
  shows "quiet st'" "sess_map st' = (sess_map st)(sid := None)"
    "st_files st' = session_drop io (e_session e) (st_files st)"
proof -
  have snds: "snd ` set (AList.delete sid (st_sessions st)) = snd ` set (st_sessions st) - {h}"
    using assms(1,2) by (intro delete_snd) (auto simp: quiet_def session_handle_def)
  then have st'': "st' = (remove_from_map sid st)
      \<lparr>st_entries := (st_entries st)(h := None), st_files := session_drop io (e_session e) (st_files st)\<rparr>"
    using assms by (simp add: release_def remove_from_map_def quiet_def)
  have "distinct (map snd (AList.delete sid (st_sessions st)))"
    using assms(1) by (auto simp: quiet_def AList.delete_eq distinct_map inj_on_def)
  then show "quiet st'"
    using assms(1) snds by (auto simp: quiet_def st'' remove_from_map_def AList.distinct_delete)
  show "sess_map st' = (sess_map st)(sid := None)"
  proof
    fix sid'
    show "sess_map st' sid' = ((sess_map st)(sid := None)) sid'"
    proof (cases "sid' = sid")
      case True
      then show ?thesis
        by (simp add: sess_map_def st'' session_handle_def remove_from_map_def delete_conv')
    next
      case False
      with quiet_handle_unique [OF assms(1,2), of sid'] have "session_handle st sid' \<noteq> Some h"
        by blast
      with False show ?thesis
        by (cases "session_handle st sid'")
           (auto simp: sess_map_def st'' session_handle_def remove_from_map_def delete_conv')
    qed
  qed
  show "st_files st' = session_drop io (e_session e) (st_files st)" by (simp add: st'')
qed

lemma unhold_hold: "unhold io h (hold h st) = release io h st"
  by (simp add: unhold_def hold_def fun_upd_idem_iff)

lemma release_registered: "h \<in> snd ` set (st_sessions st) \<Longrightarrow> release io h st = st"
  by (simp add: release_def)

lemma hold_commutes:
  "set_session h s (hold h' st) = hold h' (set_session h s st)"
  "(hold h' st)\<lparr>st_files := fs\<rparr> = hold h' (st\<lparr>st_files := fs\<rparr>)"
  "(hold h' st)\<lparr>st_locked := L\<rparr> = hold h' (st\<lparr>st_locked := L\<rparr>)"
  "remove_from_map sid (hold h' st) = hold h' (remove_from_map sid st)"
  "st_entries (hold h' st) = st_entries st" "st_files (hold h' st) = st_files st"
  "st_locked (hold h' st) = st_locked st" "st_sessions (hold h' st) = st_sessions st"
  by (simp_all add: set_session_def hold_def remove_from_map_def)

lemma release_held: "release io h (hold h st) = hold h st"
  by (simp add: release_def hold_def)

text \<open>An append that runs alone.\<close>

definition appended :: "'w arrow_ops \<Rightarrow> batch_input list \<Rightarrow> 'w session \<Rightarrow> (session_error + nat) \<times> 'w session" where
  "appended ops batches s =
     (case append_loop ops (ss_creature s) batches 0 (ss_writer s) of
        (Inl e, w) \<Rightarrow> (Inl e, s\<lparr>ss_writer := w\<rparr>)
      | (Inr n, w) \<Rightarrow> (Inr n, s\<lparr>ss_writer := w, ss_records_written := ss_records_written s + n\<rparr>))"

lemma sync_file_written [simp]: "sync_file (s\<lparr>ss_records_written := n\<rparr>) fs = sync_file s fs"
  by (simp add: sync_file_def tmp_path_def split: option.splits)

lemma append_alone:
  assumes "quiet st" "append_records ops io sid batches st = (r, st')"
  shows "case sess_map st sid of
      None \<Rightarrow> r = Inl (SessionNotFound sid) \<and> st' = st
    | Some s \<Rightarrow> quiet st' \<and> r = fst (appended ops batches s) \<and>
        sess_map st' = (sess_map st)(sid \<mapsto> snd (appended ops batches s)) \<and>
        st_files st' = sync_file (snd (appended ops batches s)) (st_files st)"
proof (cases "session_handle st sid")
  case None
  with assms show ?thesis by (simp add: append_records_def sess_map_def)
next
  case (Some h)
  with assms(1) obtain e where e: "st_entries st h = Some e" "\<not> e_cancelled e"
    "sess_map st sid = Some (e_session e)" "h \<in> snd ` set (st_sessions st)"
    by (rule quiet_handle)
  let ?s = "e_session e" and ?s' = "snd (appended ops batches (e_session e))"
  let ?st = "(set_session h ?s' st)\<lparr>st_files := sync_file ?s' (st_files st)\<rparr>"
  have "append_to_handle ops h sid batches (hold h st) = (fst (appended ops batches ?s), hold h ?st)"
    using e assms(1)
    by (auto simp: append_to_handle_def append_write_def append_ack_def appended_def Let_def
        hold_commutes quiet_def set_session_def hold_def split: sum.splits prod.splits)
  then have "append_records ops io sid batches st = (fst (appended ops batches ?s), ?st)"
    using Some e by (simp add: append_records_def unhold_hold release_registered set_session_def)
  with assms quiet_set_session [OF assms(1) Some, of ?s'] e show ?thesis
    by auto
qed

lemma finish_alone:
  assumes "quiet st" "finish_session ops io sid st = (r, st')"
  shows "case sess_map st sid of
      None \<Rightarrow> r = Inl (SessionNotFound sid) \<and> st' = st
    | Some s \<Rightarrow> quiet st' \<and>
        (if ss_records_written s = 0 then
           r = Inl NothingRecorded \<and> sess_map st' = (sess_map st)(sid := None) \<and>
           st_files st' = session_drop io s (st_files st)
         else case finish_locked ops io s (st_files st) of
           (Inl err, s', fs') \<Rightarrow> r = Inl err \<and> sess_map st' = (sess_map st)(sid \<mapsto> s') \<and> st_files st' = fs'
         | (Inr _, s', fs') \<Rightarrow>
             r = Inr (ss_temp_dir s', ''discovery_data.parquet'', ss_records_written s') \<and>
             sess_map st' = (sess_map st)(sid := None) \<and> st_files st' = session_drop io s' fs')"
proof (cases "session_handle st sid")
  case None
  with assms show ?thesis by (simp add: finish_session_def sess_map_def)
next
  case (Some h)
  with assms(1) obtain e where e: "st_entries st h = Some e" "\<not> e_cancelled e"
    "sess_map st sid = Some (e_session e)" "h \<in> snd ` set (st_sessions st)"
    by (rule quiet_handle)
  let ?s = "e_session e"
  show ?thesis
  proof (cases "ss_records_written ?s = 0")
    case True
    then have "finish_session ops io sid st = (Inl NothingRecorded, release io h (remove_from_map sid st))"
      using Some e by (simp add: finish_session_def finish_handle_def finish_region_def retire_def hold_commutes Let_def
          release_held unhold_hold)
    with True assms(2) e quiet_retire [OF assms(1) Some e(1) refl, of io] show ?thesis by auto
  next
    case False
    obtain q s' fs' where fl: "finish_locked ops io ?s (st_files st) = (q, s', fs')"
      by (metis prod.exhaust)
    let ?st = "(set_session h s' st)\<lparr>st_files := fs'\<rparr>"
    have qst: "quiet ?st" "sess_map ?st = (sess_map st)(sid \<mapsto> s')" "session_handle ?st sid = Some h"
      using quiet_set_session [OF assms(1) Some, of s'] Some by simp_all
    have ent: "st_entries ?st h = Some (e\<lparr>e_session := s'\<rparr>)" using e by (simp add: set_session_def)
    show ?thesis
    proof (cases q)
      case (Inl err)
      then have "finish_session ops io sid st = (Inl err, ?st)"
        using Some e fl False
        by (simp add: finish_session_def finish_handle_def finish_region_def retire_def hold_commutes Let_def unhold_hold
            release_registered) (simp add: release_registered set_session_def)
      with assms(2) e fl Inl False qst show ?thesis by auto
    next
      case (Inr u)
      then have "finish_session ops io sid st =
          (Inr (ss_temp_dir s', ''discovery_data.parquet'', ss_records_written s'),
           release io h (remove_from_map sid ?st))"
        using Some e fl False
        by (simp add: finish_session_def finish_handle_def finish_region_def retire_def hold_commutes Let_def unhold_hold release_held)
      with assms(2) e fl Inr False quiet_retire [OF qst(1,3) ent refl, of io] qst(2) show ?thesis
        by auto
    qed
  qed
qed

lemma release_cancel_entry:
  assumes "h \<notin> snd ` set (st_sessions st)" "st_holds st h = 0" "st_entries st h = Some e"
  shows "release io h (cancel_entry h st) = release io h st"
  using assms by (simp add: release_def cancel_entry_def)

lemma cancel_alone:
  assumes "quiet st" "cancel_session io sid st = (r, st')"
  shows "case sess_map st sid of
      None \<Rightarrow> r = Inl (SessionNotFound sid) \<and> st' = st
    | Some s \<Rightarrow> quiet st' \<and> r = Inr () \<and> sess_map st' = (sess_map st)(sid := None) \<and>
        st_files st' = session_drop io s (st_files st)"
proof (cases "session_handle st sid")
  case None
  with assms show ?thesis by (simp add: cancel_session_def sess_map_def)
next
  case (Some h)
  with assms(1) obtain e where e: "st_entries st h = Some e" "\<not> e_cancelled e"
    "sess_map st sid = Some (e_session e)" "h \<in> snd ` set (st_sessions st)"
    by (rule quiet_handle)
  have "snd ` set (AList.delete sid (st_sessions st)) = snd ` set (st_sessions st) - {h}"
    using assms(1) Some by (intro delete_snd) (auto simp: quiet_def session_handle_def)
  then have "release io h (cancel_entry h (remove_from_map sid st)) = release io h (remove_from_map sid st)"
    using assms(1) e by (intro release_cancel_entry [of _ _ e]) (auto simp: remove_from_map_def quiet_def)
  then have "cancel_session io sid st = (Inr (), release io h (remove_from_map sid st))"
    using Some by (simp add: cancel_session_def)
  with assms(2) e quiet_retire [OF assms(1) Some e(1) refl, of io] show ?thesis by auto
qed

text \<open>The sweep: eviction of all stale sessions, then their drops.\<close>

abbreviation "evict \<equiv> (\<lambda>(sid, h) s. cancel_entry h (remove_from_map sid s))"

lemma evict_step:
  "st_sessions (cancel_entry h (remove_from_map sid st)) = filter (\<lambda>p. fst p \<noteq> sid) (st_sessions st)"
  "st_entries (cancel_entry h (remove_from_map sid st)) h' =
     (if h' = h then map_option (\<lambda>e. e\<lparr>e_cancelled := True\<rparr>) (st_entries st h) else st_entries st h')"
  "st_files (cancel_entry h (remove_from_map sid st)) = st_files st"
  "st_holds (cancel_entry h (remove_from_map sid st)) = st_holds st"
  "st_locked (cancel_entry h (remove_from_map sid st)) = st_locked st"
  "st_next (cancel_entry h (remove_from_map sid st)) = st_next st"
  by (auto simp: cancel_entry_def remove_from_map_def AList.delete_eq intro!: filter_cong)

lemma fold_evict:
  "st_sessions (fold evict xs st) = filter (\<lambda>p. fst p \<notin> fst ` set xs) (st_sessions st) \<and>
   st_files (fold evict xs st) = st_files st \<and> st_holds (fold evict xs st) = st_holds st \<and>
   st_locked (fold evict xs st) = st_locked st \<and> st_next (fold evict xs st) = st_next st"
proof (induction xs arbitrary: st)
  case Nil
  then show ?case by simp
next
  case (Cons x xs)
  obtain sid h where x: "x = (sid, h)" by (cases x)
  then show ?case
    by (auto simp: Cons.IH evict_step filter_filter intro!: filter_cong)
qed

lemma fold_evict_entries:
  "st_entries (fold evict xs st) h =
     (if h \<in> snd ` set xs then map_option (\<lambda>e. e\<lparr>e_cancelled := True\<rparr>) (st_entries st h)
      else st_entries st h)"
  by (induction xs arbitrary: st) (auto simp: evict_step option.map_comp comp_def)

definition drop_all :: "io \<Rightarrow> (nat \<rightharpoonup> 'w entry) \<Rightarrow> (string \<times> nat) list \<Rightarrow> 'w files \<Rightarrow> 'w files" where
  "drop_all io es xs fs =
     fold (\<lambda>(sid, h) fs. case es h of None \<Rightarrow> fs | Some e \<Rightarrow> session_drop io (e_session e) fs) xs fs"

lemma fold_release:
  assumes "distinct (map snd xs)" "snd ` set xs \<inter> snd ` set (st_sessions st) = {}" "st_holds st = (\<lambda>_. 0)"
  shows "fold (\<lambda>(sid, h). release io h) xs st =
    st\<lparr>st_entries := (\<lambda>h. if h \<in> snd ` set xs then None else st_entries st h),
       st_files := drop_all io (st_entries st) xs (st_files st)\<rparr>"
  using assms
proof (induction xs arbitrary: st)
  case Nil
  then show ?case by (simp add: drop_all_def)
next
  case (Cons x xs)
  obtain sid h where x: "x = (sid, h)" by (cases x)
  let ?st = "release io h st"
  have st1: "st_sessions ?st = st_sessions st" "st_holds ?st = (\<lambda>_. 0)"
    and ent: "st_entries ?st = (st_entries st)(h := None)"
    and fs: "st_files ?st = (case st_entries st h of None \<Rightarrow> st_files st
        | Some e \<Rightarrow> session_drop io (e_session e) (st_files st))"
    and rest: "?st\<lparr>st_entries := E, st_files := F\<rparr> = st\<lparr>st_entries := E, st_files := F\<rparr>" for E F
    using Cons.prems x by (auto simp: release_def fun_upd_idem_iff split: option.splits)
  have "drop_all io (st_entries ?st) xs fs0 = drop_all io (st_entries st) xs fs0" for fs0
    unfolding drop_all_def
  proof (rule fold_cong [OF refl refl])
    fix y assume "y \<in> set xs"
    then have "snd y \<noteq> h" using Cons.prems(1) x by auto
    then show "(\<lambda>(sid, h') fs. case st_entries ?st h' of None \<Rightarrow> fs
          | Some e \<Rightarrow> session_drop io (e_session e) fs) y =
        (\<lambda>(sid, h') fs. case st_entries st h' of None \<Rightarrow> fs
          | Some e \<Rightarrow> session_drop io (e_session e) fs) y"
      by (cases y) (simp add: ent)
  qed
  then have "drop_all io (st_entries ?st) xs (st_files ?st) =
      drop_all io (st_entries st) (x # xs) (st_files st)"
    by (simp add: drop_all_def x fs)
  moreover have "(\<lambda>h'. if h' \<in> snd ` set xs then None else st_entries ?st h') =
      (\<lambda>h'. if h' \<in> snd ` set (x # xs) then None else st_entries st h')"
    by (auto simp: ent x)
  moreover have "fold (\<lambda>(sid, h). release io h) xs ?st =
      ?st\<lparr>st_entries := (\<lambda>h'. if h' \<in> snd ` set xs then None else st_entries ?st h'),
         st_files := drop_all io (st_entries ?st) xs (st_files ?st)\<rparr>"
    using Cons.prems x st1 by (intro Cons.IH) auto
  ultimately show ?case by (simp add: x rest)
qed

definition stale_session :: "duration \<Rightarrow> instant \<Rightarrow> 'w session \<Rightarrow> bool" where
  "stale_session ttl now s \<longleftrightarrow> ttl < now - ss_created_at s"

lemma cleanup_alone:
  assumes q: "quiet st"
  shows "quiet (cleanup_stale_sessions io ttl now st)"
    and "sess_map (cleanup_stale_sessions io ttl now st) =
      (\<lambda>sid. case sess_map st sid of None \<Rightarrow> None
             | Some s \<Rightarrow> if stale_session ttl now s then None else Some s)"
    and "st_files (cleanup_stale_sessions io ttl now st) =
      drop_all io (st_entries st) (filter (is_stale ttl now st) (st_sessions st)) (st_files st)"
    and "st_next (cleanup_stale_sessions io ttl now st) = st_next st"
proof -
  let ?xs = "filter (is_stale ttl now st) (st_sessions st)"
  let ?keep = "filter (\<lambda>p. \<not> is_stale ttl now st p) (st_sessions st)"
  let ?es = "\<lambda>h. if h \<in> snd ` set ?xs then None else st_entries st h"
  have d: "distinct (map fst (st_sessions st))" "distinct (map snd (st_sessions st))"
    using q by (simp_all add: quiet_def)
  have keep: "filter (\<lambda>p. fst p \<notin> fst ` set ?xs) (st_sessions st) = ?keep"
  proof (rule filter_cong [OF refl])
    fix p assume p: "p \<in> set (st_sessions st)"
    have "inj_on fst (set (st_sessions st))" using d(1) by (simp add: distinct_map)
    then have "fst p \<in> fst ` set ?xs \<longleftrightarrow> p \<in> set ?xs"
      using p by (auto dest: inj_onD)
    then show "(fst p \<notin> fst ` set ?xs) = (\<not> is_stale ttl now st p)" using p by auto
  qed
  have disj: "snd ` set ?xs \<inter> snd ` set ?keep = {}"
  proof -
    have "inj_on snd (set (st_sessions st))" using d(2) by (simp add: distinct_map)
    then show ?thesis by (auto dest: inj_onD)
  qed
  let ?ev = "fold evict ?xs st"
  have dx: "distinct (map snd ?xs)" using d(2) by (simp add: distinct_map_filter)
  have evs: "st_sessions ?ev = ?keep" "st_files ?ev = st_files st" "st_holds ?ev = st_holds st"
    "st_locked ?ev = st_locked st" "st_next ?ev = st_next st"
    using fold_evict [of ?xs st] keep by simp_all
  have "cleanup_stale_sessions io ttl now st = fold (\<lambda>(sid, h). release io h) ?xs ?ev"
    by (simp add: cleanup_stale_sessions_def Let_def)
  also have "\<dots> = ?ev\<lparr>st_entries := (\<lambda>h. if h \<in> snd ` set ?xs then None else st_entries ?ev h),
       st_files := drop_all io (st_entries ?ev) ?xs (st_files ?ev)\<rparr>"
    using dx disj q evs by (intro fold_release) (simp_all add: fold_evict quiet_def del: set_filter)
  also have "drop_all io (st_entries ?ev) ?xs (st_files ?ev) = drop_all io (st_entries st) ?xs (st_files st)"
    by (simp add: fold_evict drop_all_def, rule fold_cong) (auto simp: fold_evict_entries fun_eq_iff split: option.splits)
  also have "(\<lambda>h. if h \<in> snd ` set ?xs then None else st_entries ?ev h) = ?es"
    by (auto simp: fold_evict_entries)
  finally have eq: "cleanup_stale_sessions io ttl now st =
    ?ev\<lparr>st_entries := ?es, st_files := drop_all io (st_entries st) ?xs (st_files st)\<rparr>" .
  have "dom ?es = dom (st_entries st) - snd ` set ?xs" by (auto simp: dom_def)
  also have "dom (st_entries st) = snd ` set ?xs \<union> snd ` set ?keep"
    using q by (auto simp: quiet_def)
  also have "\<dots> - snd ` set ?xs = snd ` set ?keep" using disj by auto
  finally have dom: "dom ?es = snd ` set ?keep" .
  have "dom ?es \<subseteq> dom (st_entries st)" by (auto simp: dom_def)
  moreover have "\<forall>h e. ?es h = Some e \<longrightarrow> \<not> e_cancelled e" using q by (simp add: quiet_def)
  ultimately show "quiet (cleanup_stale_sessions io ttl now st)"
    using q d dom by (auto simp: quiet_def eq evs distinct_map_filter)
  show "st_files (cleanup_stale_sessions io ttl now st) = drop_all io (st_entries st) ?xs (st_files st)"
    by (simp add: eq)
  show "st_next (cleanup_stale_sessions io ttl now st) = st_next st"
    by (simp add: eq evs)
  show "sess_map (cleanup_stale_sessions io ttl now st) =
      (\<lambda>sid. case sess_map st sid of None \<Rightarrow> None
             | Some s \<Rightarrow> if stale_session ttl now s then None else Some s)"
  proof
    fix sid
    show "sess_map (cleanup_stale_sessions io ttl now st) sid =
        (case sess_map st sid of None \<Rightarrow> None | Some s \<Rightarrow> if stale_session ttl now s then None else Some s)"
    proof (cases "session_handle st sid")
      case None
      then have "map_of ?keep sid = None" "map_of (st_sessions st) sid = None"
        by (auto simp: session_handle_def map_of_eq_None_iff)
      then show ?thesis by (simp add: sess_map_def session_handle_def eq evs)
    next
      case (Some h)
      with q obtain e where e: "st_entries st h = Some e" "sess_map st sid = Some (e_session e)"
        by (rule quiet_handle)
      have mem: "(sid, h) \<in> set (st_sessions st)" using Some by (simp add: session_handle_def map_of_SomeD)
      have stale: "is_stale ttl now st (sid, h) = stale_session ttl now (e_session e)"
        using q e by (simp add: is_stale_def stale_session_def quiet_def)
      show ?thesis
      proof (cases "is_stale ttl now st (sid, h)")
        case True
        have "map_of ?keep sid = None"
        proof -
          have "\<And>h'. (sid, h') \<in> set (st_sessions st) \<Longrightarrow> h' = h"
            using d(1) mem by (metis map_of_eq_Some_iff option.inject)
          with True show ?thesis by (auto simp: map_of_eq_None_iff)
        qed
        with True e stale show ?thesis
          by (simp add: sess_map_def session_handle_def eq evs)
      next
        case False
        with mem d(1) have k: "map_of ?keep sid = Some h" by (simp add: distinct_map_filter)
        with disj have "h \<notin> snd ` set ?xs" by (metis IntI emptyE image_eqI map_of_SomeD snd_conv)
        with k False e stale show ?thesis
          by (simp add: sess_map_def session_handle_def eq evs)
      qed
    qed
  qed
qed

definition abs_start ::
  "'w arrow_ops \<Rightarrow> io \<Rightarrow> instant \<Rightarrow> string \<Rightarrow> creature_json \<Rightarrow> string
     \<Rightarrow> (string \<rightharpoonup> 'w session) \<times> 'w files
     \<Rightarrow> (session_error + string) \<times> (string \<rightharpoonup> 'w session) \<times> 'w files" where
  "abs_start ops io now sid c dir = (\<lambda>(m, fs).
     case io_mkdir io of
       Some e \<Rightarrow> (Inl (TempDirFailed e), m, fs)
     | None \<Rightarrow>
         if non_input_count c = 0 then (Inl NoRecordableNeuron, m, fs)
         else case session_new ops io now c dir (parquet_path_in dir) fs of
                (Inl e, fs') \<Rightarrow> (Inl e, m, fs')
              | (Inr s, fs') \<Rightarrow> (Inr sid, m(sid \<mapsto> s), fs'))"

definition abs_of :: "'w store \<Rightarrow> (string \<rightharpoonup> 'w session) \<times> 'w files" where
  "abs_of st = (sess_map st, st_files st)"

lemma start_alone:
  assumes "quiet st" "session_handle st sid = None"
    "start_session ops io ttl now sid c dir st = (r, st')"
    and st0: "st0 = cleanup_stale_sessions io ttl now st"
  shows "quiet st' \<and> abs_start ops io now sid c dir (abs_of st0) = (r, abs_of st')"
proof -
  have q0: "quiet st0" using cleanup_alone(1) [OF assms(1)] st0 by simp
  have none: "session_handle st0 sid = None"
  proof -
    have "sess_map st sid = None" using assms(2) by (simp add: sess_map_def)
    then have "sess_map st0 sid = None" using cleanup_alone(2) [OF assms(1), of io ttl now] st0 by simp
    then show ?thesis using sess_map_None_iff [OF q0] by simp
  qed
  obtain q fs where new: "session_new ops io now c dir (parquet_path_in dir) (st_files st0) = (q, fs)"
    by (cases "session_new ops io now c dir (parquet_path_in dir) (st_files st0)")
  show ?thesis
  proof (cases "io_mkdir io \<noteq> None \<or> non_input_count c = 0 \<or> (\<exists>e. q = Inl e)")
    case True
    with assms(3) st0 q0 new show ?thesis
      by (auto simp: start_session_def abs_start_def abs_of_def Let_def
          split: option.splits if_splits)
  next
    case False
    then obtain s where q: "q = Inr s" and ok: "io_mkdir io = None" "non_input_count c \<noteq> 0"
      by (cases q) auto
    let ?h = "st_next st0"
    from q ok new none assms(3) st0 have r: "r = Inr sid" and st':
      "st' = st0\<lparr>st_sessions := AList.update sid ?h (st_sessions st0),
          st_entries := (st_entries st0)(?h \<mapsto> \<lparr>e_cancelled = False, e_session = s\<rparr>),
          st_next := Suc ?h, st_files := fs\<rparr>"
      by (auto simp: start_session_def Let_def)
    have fresh: "?h \<notin> snd ` set (st_sessions st0)" "st_entries st0 ?h = None"
      using q0 by (auto simp: quiet_def)
    have upd: "AList.update sid ?h (st_sessions st0) = st_sessions st0 @ [(sid, ?h)]"
      using none by (intro alist_update_new) (simp add: session_handle_def map_of_eq_None_iff)
    have "sid \<notin> fst ` set (st_sessions st0)"
      using none by (simp add: session_handle_def map_of_eq_None_iff)
    then have "quiet st'"
      using q0 fresh by (auto simp: quiet_def st' upd less_Suc_eq)
    moreover have "sess_map st' = (sess_map st0)(sid \<mapsto> s)"
    proof
      fix sid'
      show "sess_map st' sid' = ((sess_map st0)(sid \<mapsto> s)) sid'"
      proof (cases "sid' = sid")
        case True
        then show ?thesis by (simp add: sess_map_def session_handle_def st' update_conv')
      next
        case False
        have "session_handle st0 sid' \<noteq> Some ?h"
          using fresh(1) by (auto simp: session_handle_def dest!: map_of_SomeD) (metis image_eqI snd_conv)
        with False show ?thesis
          by (cases "session_handle st0 sid'") (auto simp: sess_map_def session_handle_def st' update_conv')
      qed
    qed
    ultimately show ?thesis using r new q ok by (simp add: st' abs_start_def abs_of_def)
  qed
qed

section \<open>The sequential specification\<close>

text \<open>
  The sessions as a finite map and the files: what each call does when no other runs.
\<close>

definition abs_append ::
  "'w arrow_ops \<Rightarrow> string \<Rightarrow> batch_input list \<Rightarrow> (string \<rightharpoonup> 'w session) \<times> 'w files
     \<Rightarrow> (session_error + nat) \<times> (string \<rightharpoonup> 'w session) \<times> 'w files" where
  "abs_append ops sid batches = (\<lambda>(m, fs).
     case m sid of
       None \<Rightarrow> (Inl (SessionNotFound sid), m, fs)
     | Some s \<Rightarrow>
         (case appended ops batches s of (r, s') \<Rightarrow> (r, m(sid \<mapsto> s'), sync_file s' fs)))"

definition abs_finish ::
  "'w arrow_ops \<Rightarrow> io \<Rightarrow> string \<Rightarrow> (string \<rightharpoonup> 'w session) \<times> 'w files
     \<Rightarrow> (session_error + string \<times> string \<times> nat) \<times> (string \<rightharpoonup> 'w session) \<times> 'w files" where
  "abs_finish ops io sid = (\<lambda>(m, fs).
     case m sid of
       None \<Rightarrow> (Inl (SessionNotFound sid), m, fs)
     | Some s \<Rightarrow>
         if ss_records_written s = 0 then (Inl NothingRecorded, m(sid := None), session_drop io s fs)
         else (case finish_locked ops io s fs of
                 (Inl err, s', fs') \<Rightarrow> (Inl err, m(sid \<mapsto> s'), fs')
               | (Inr _, s', fs') \<Rightarrow>
                   (Inr (ss_temp_dir s', ''discovery_data.parquet'', ss_records_written s'),
                    m(sid := None), session_drop io s' fs')))"

definition abs_cancel ::
  "io \<Rightarrow> string \<Rightarrow> (string \<rightharpoonup> 'w session) \<times> 'w files
     \<Rightarrow> (session_error + unit) \<times> (string \<rightharpoonup> 'w session) \<times> 'w files" where
  "abs_cancel io sid = (\<lambda>(m, fs).
     case m sid of
       None \<Rightarrow> (Inl (SessionNotFound sid), m, fs)
     | Some s \<Rightarrow> (Inr (), m(sid := None), session_drop io s fs))"

definition swept_map :: "duration \<Rightarrow> instant \<Rightarrow> (string \<rightharpoonup> 'w session) \<Rightarrow> string \<rightharpoonup> 'w session" where
  "swept_map ttl now m = (\<lambda>sid. case m sid of None \<Rightarrow> None
     | Some s \<Rightarrow> if stale_session ttl now s then None else Some s)"

definition swept_files ::
  "io \<Rightarrow> duration \<Rightarrow> instant \<Rightarrow> (string \<rightharpoonup> 'w session) \<Rightarrow> 'w files \<Rightarrow> 'w files" where
  "swept_files io ttl now m fs = (\<lambda>p.
     if io_remove io = None \<and> (\<exists>s \<in> ran m. stale_session ttl now s \<and> \<not> ss_finished s \<and>
          \<not> ss_preserve s \<and> p = tmp_path s)
     then None else fs p)"

definition abs_sweep ::
  "io \<Rightarrow> duration \<Rightarrow> instant \<Rightarrow> (string \<rightharpoonup> 'w session) \<times> 'w files \<Rightarrow> (string \<rightharpoonup> 'w session) \<times> 'w files" where
  "abs_sweep io ttl now = (\<lambda>(m, fs). (swept_map ttl now m, swept_files io ttl now m fs))"

lemma session_drop_at:
  "session_drop io s fs p =
     (if io_remove io = None \<and> \<not> ss_finished s \<and> \<not> ss_preserve s \<and> p = tmp_path s then None else fs p)"
  by (auto simp: session_drop_def remove_file_def split: option.splits)

lemma drop_all_at:
  "drop_all io es xs fs p =
     (if io_remove io = None \<and> (\<exists>x \<in> set xs. \<exists>e. es (snd x) = Some e \<and> \<not> ss_finished (e_session e) \<and>
          \<not> ss_preserve (e_session e) \<and> p = tmp_path (e_session e)) then None else fs p)"
proof (induction xs arbitrary: fs)
  case Nil
  then show ?case by (simp add: drop_all_def)
next
  case (Cons x xs)
  have step: "drop_all io es (x # xs) fs =
      drop_all io es xs (case es (snd x) of None \<Rightarrow> fs | Some e \<Rightarrow> session_drop io (e_session e) fs)"
    by (cases x) (simp add: drop_all_def)
  show ?case
    by (cases "es (snd x)") (auto simp: step Cons.IH session_drop_at)
qed

lemma sweep_alone:
  assumes "quiet st"
  shows "quiet (cleanup_stale_sessions io ttl now st)"
    and "abs_of (cleanup_stale_sessions io ttl now st) = abs_sweep io ttl now (abs_of st)"
proof -
  show "quiet (cleanup_stale_sessions io ttl now st)" using assms by (rule cleanup_alone)
  have stale: "(\<exists>x \<in> set (filter (is_stale ttl now st) (st_sessions st)).
        \<exists>e. st_entries st (snd x) = Some e \<and> P (e_session e)) \<longleftrightarrow>
      (\<exists>s \<in> ran (sess_map st). stale_session ttl now s \<and> P s)" (is "?l \<longleftrightarrow> ?r") for P
  proof
    assume ?l
    then obtain sid h e where x: "(sid, h) \<in> set (st_sessions st)" "is_stale ttl now st (sid, h)"
      "st_entries st h = Some e" "P (e_session e)" by auto
    then have "session_handle st sid = Some h"
      using assms by (simp add: session_handle_def quiet_def)
    with x have "sess_map st sid = Some (e_session e)" by (simp add: sess_map_def)
    with x show ?r by (auto simp: is_stale_def stale_session_def intro!: bexI ranI)
  next
    assume ?r
    then obtain sid s where s: "sess_map st sid = Some s" "stale_session ttl now s" "P s"
      by (auto simp: ran_def)
    then obtain h e where h: "session_handle st sid = Some h" "st_entries st h = Some e" "s = e_session e"
      by (auto simp: sess_map_def split: option.splits)
    then have "(sid, h) \<in> set (st_sessions st)" by (simp add: session_handle_def map_of_SomeD)
    moreover have "is_stale ttl now st (sid, h)"
      using s h assms by (simp add: is_stale_def stale_session_def quiet_def)
    ultimately show ?l using h s by force
  qed
  show "abs_of (cleanup_stale_sessions io ttl now st) = abs_sweep io ttl now (abs_of st)"
    using assms stale [of "\<lambda>s. \<not> ss_finished s \<and> \<not> ss_preserve s \<and> p = tmp_path s" for p]
    by (auto simp: abs_of_def abs_sweep_def cleanup_alone swept_map_def swept_files_def drop_all_at fun_eq_iff)
qed

section \<open>Calls\<close>

datatype api_call =
    Start duration instant string creature_json string
  | Append string "batch_input list"
  | Finish string
  | Cancel string

datatype api_result =
    Started "session_error + string"
  | Appended "session_error + nat"
  | Finished "session_error + string \<times> string \<times> nat"
  | Cancelled "session_error + unit"

definition run_call :: "'w arrow_ops \<Rightarrow> io \<Rightarrow> api_call \<Rightarrow> 'w store \<Rightarrow> api_result \<times> 'w store" where
  "run_call ops io c st =
     (case c of
        Start ttl now sid cr dir \<Rightarrow> map_prod Started id (start_session ops io ttl now sid cr dir st)
      | Append sid bs \<Rightarrow> map_prod Appended id (append_records ops io sid bs st)
      | Finish sid \<Rightarrow> map_prod Finished id (finish_session ops io sid st)
      | Cancel sid \<Rightarrow> map_prod Cancelled id (cancel_session io sid st))"

definition abs_call ::
  "'w arrow_ops \<Rightarrow> io \<Rightarrow> api_call \<Rightarrow> (string \<rightharpoonup> 'w session) \<times> 'w files
     \<Rightarrow> api_result \<times> (string \<rightharpoonup> 'w session) \<times> 'w files" where
  "abs_call ops io c a =
     (case c of
        Start ttl now sid cr dir \<Rightarrow>
          map_prod Started id (abs_start ops io now sid cr dir (abs_sweep io ttl now a))
      | Append sid bs \<Rightarrow> map_prod Appended id (abs_append ops sid bs a)
      | Finish sid \<Rightarrow> map_prod Finished id (abs_finish ops io sid a)
      | Cancel sid \<Rightarrow> map_prod Cancelled id (abs_cancel io sid a))"

text \<open>A new session gets an identifier that no registered session has (a random UUID).\<close>

definition fresh_call :: "api_call \<Rightarrow> 'w store \<Rightarrow> bool" where
  "fresh_call c st =
     (case c of Start ttl now sid cr dir \<Rightarrow> session_handle st sid = None | _ \<Rightarrow> True)"

lemma call_refines:
  assumes "quiet st" "fresh_call c st" "run_call ops io c st = (r, st')"
  shows "quiet st' \<and> abs_call ops io c (abs_of st) = (r, abs_of st')"
proof (cases c)
  case (Start ttl now sid cr dir)
  then obtain q where q: "start_session ops io ttl now sid cr dir st = (q, st')" "r = Started q"
    using assms(3) by (auto simp: run_call_def map_prod_def split: prod.splits)
  with start_alone [OF assms(1) _ q(1) refl] assms(2) Start sweep_alone(2) [OF assms(1), of io ttl now]
  show ?thesis by (auto simp: abs_call_def fresh_call_def)
next
  case (Append sid bs)
  then obtain q where q: "append_records ops io sid bs st = (q, st')" "r = Appended q"
    using assms(3) by (auto simp: run_call_def map_prod_def split: prod.splits)
  with append_alone [OF assms(1) q(1)] Append assms(1) show ?thesis
    by (auto simp: abs_call_def abs_append_def abs_of_def split: option.splits prod.splits)
next
  case (Finish sid)
  then obtain q where q: "finish_session ops io sid st = (q, st')" "r = Finished q"
    using assms(3) by (auto simp: run_call_def map_prod_def split: prod.splits)
  with finish_alone [OF assms(1) q(1)] Finish assms(1) show ?thesis
    by (auto simp: abs_call_def abs_finish_def abs_of_def split: option.splits prod.splits sum.splits if_splits)
next
  case (Cancel sid)
  then obtain q where q: "cancel_session io sid st = (q, st')" "r = Cancelled q"
    using assms(3) by (auto simp: run_call_def map_prod_def split: prod.splits)
  with cancel_alone [OF assms(1) q(1)] Cancel assms(1) show ?thesis
    by (auto simp: abs_call_def abs_cancel_def abs_of_def split: option.splits)
qed

text \<open>
  The stores that sequences of calls reach. Between calls the environment may change any file
  except the temporary files of registered sessions.
\<close>

inductive api_reach :: "'w arrow_ops \<Rightarrow> 'w store \<Rightarrow> bool" for ops where
  api_init: "api_reach ops (empty_store fs)"
| api_run: "api_reach ops st \<Longrightarrow> fresh_call c st \<Longrightarrow> run_call ops io c st = (r, st') \<Longrightarrow> api_reach ops st'"
| api_env: "api_reach ops st \<Longrightarrow>
    (\<And>sid s. sess_map st sid = Some s \<Longrightarrow> fs (tmp_path s) = st_files st (tmp_path s)) \<Longrightarrow>
    api_reach ops (st\<lparr>st_files := fs\<rparr>)"

section \<open>The invariant\<close>

text \<open>The sink of an open writer comes from writes that together hold at least \<open>n\<close> records.\<close>

definition written :: "'w arrow_ops \<Rightarrow> nat \<Rightarrow> 'w \<Rightarrow> bool" where
  "written ops n sink \<longleftrightarrow> (\<exists>s0 bs. aw_open ops = Inr s0 \<and> fold_res (aw_write ops) s0 bs = Inr sink \<and>
     n \<le> length (concat bs))"

definition session_ok :: "'w arrow_ops \<Rightarrow> 'w files \<Rightarrow> 'w session \<Rightarrow> bool" where
  "session_ok ops fs s \<longleftrightarrow>
     \<not> ss_finished s \<and> ss_parquet_path s = parquet_path_in (ss_temp_dir s) \<and>
     (case ss_writer s of
        Some w \<Rightarrow> \<not> ss_preserve s \<and> fs (tmp_path s) = Some (Partial (w_sink w)) \<and>
          written ops (ss_records_written s) (w_sink w) \<and>
          ss_records_written s + w_remaining w \<le> streaming_max_capacity
      | None \<Rightarrow> ss_preserve s \<and> tmp_path s \<in> dom fs \<and> 0 < ss_records_written s)"

definition abs_ok :: "'w arrow_ops \<Rightarrow> (string \<rightharpoonup> 'w session) \<times> 'w files \<Rightarrow> bool" where
  "abs_ok ops = (\<lambda>(m, fs).
     (\<forall>sid s. m sid = Some s \<longrightarrow> session_ok ops fs s) \<and>
     (\<forall>sid sid' s s'. m sid = Some s \<longrightarrow> m sid' = Some s' \<longrightarrow> tmp_path s = tmp_path s' \<longrightarrow> sid = sid'))"

lemma session_ok_cong: "fs (tmp_path s) = fs' (tmp_path s) \<Longrightarrow> session_ok ops fs s = session_ok ops fs' s"
  by (simp add: session_ok_def domIff cong: option.case_cong)

lemma session_ok_tmp: "session_ok ops fs s \<Longrightarrow> tmp_path s \<in> dom fs"
  by (auto simp: session_ok_def split: option.splits)

text \<open>Changing one session and no other temporary file keeps the invariant.\<close>

lemma abs_ok_update:
  assumes "abs_ok ops (m, fs)" "m sid = Some s" "session_ok ops fs' s'" "tmp_path s' = tmp_path s"
    and "\<And>p. p \<noteq> tmp_path s \<Longrightarrow> p \<in> tmp_path ` ran m \<Longrightarrow> fs' p = fs p"
  shows "abs_ok ops (m(sid \<mapsto> s'), fs')"
proof -
  have other: "session_ok ops fs' t" if "m sid' = Some t" "sid' \<noteq> sid" for sid' t
  proof -
    from that assms(1,2) have "tmp_path t \<noteq> tmp_path s" "session_ok ops fs t" by (auto simp: abs_ok_def)
    moreover from that have "tmp_path t \<in> tmp_path ` ran m" by (auto simp: ran_def)
    ultimately show ?thesis using session_ok_cong assms(5) by metis
  qed
  with assms show ?thesis by (auto simp: abs_ok_def)
qed

lemma abs_ok_remove:
  assumes "abs_ok ops (m, fs)" "m sid = Some s"
    and "\<And>p. p \<noteq> tmp_path s \<Longrightarrow> p \<in> tmp_path ` ran m \<Longrightarrow> fs' p = fs p"
  shows "abs_ok ops (m(sid := None), fs')"
proof -
  have other: "session_ok ops fs' t" if "m sid' = Some t" "sid' \<noteq> sid" for sid' t
  proof -
    from that assms(1,2) have "tmp_path t \<noteq> tmp_path s" "session_ok ops fs t" by (auto simp: abs_ok_def)
    moreover from that have "tmp_path t \<in> tmp_path ` ran m" by (auto simp: ran_def)
    ultimately show ?thesis using session_ok_cong assms(3) by metis
  qed
  with assms show ?thesis by (auto simp: abs_ok_def)
qed

lemma abs_ok_insert:
  assumes "abs_ok ops (m, fs)" "m sid = None" "session_ok ops fs' s" "tmp_path s \<notin> dom fs"
    and "\<And>p. p \<noteq> tmp_path s \<Longrightarrow> fs' p = fs p"
  shows "abs_ok ops (m(sid \<mapsto> s), fs')"
proof -
  have other: "tmp_path t \<noteq> tmp_path s \<and> session_ok ops fs' t" if "m sid' = Some t" for sid' t
  proof -
    from that assms(1) have ok: "session_ok ops fs t" by (auto simp: abs_ok_def)
    then have "tmp_path t \<noteq> tmp_path s" using session_ok_tmp assms(4) by metis
    with ok show ?thesis using session_ok_cong assms(5) by metis
  qed
  with assms(1-3) show ?thesis by (auto simp: abs_ok_def dest: other)
qed

text \<open>Appends extend the written batches and never exceed the capacity.\<close>

lemma write_chunks_prefix:
  "write_chunks ops mu me l rs start sink = (r, sink') \<Longrightarrow>
     \<exists>bs. fold_res (aw_write ops) sink bs = Inr sink'"
proof (induction ops mu me l rs start sink rule: write_chunks.induct)
  case (1 ops mu me l rs start sink)
  show ?case
  proof (cases "start < length rs")
    case False
    with 1 show ?thesis by (auto simp: write_chunks.simps [of ops mu me l rs start] intro: exI [of _ "[]"])
  next
    case True
    let ?e = "determine_chunk_end rs start mu me"
    let ?c = "take (?e - start) (drop start rs)"
    show ?thesis
    proof (cases "write_chunk ops l sink ?c")
      case (Inl e)
      with True 1 show ?thesis
        by (auto simp: write_chunks.simps [of ops mu me l rs start] Let_def intro: exI [of _ "[]"])
    next
      case (Inr s1)
      with True 1 obtain bs where "fold_res (aw_write ops) s1 bs = Inr sink'"
        by (auto simp: write_chunks.simps [of ops mu me l rs start] Let_def)
      moreover from Inr have "aw_write ops sink ?c = Inr s1"
        by (auto simp: write_chunk_def split: sum.splits if_splits option.splits)
      ultimately show ?thesis by (intro exI [of _ "?c # bs"]) simp
    qed
  qed
qed

lemma write_records_prefix:
  assumes "write_records ops w rs = (Some e, w')"
  shows "(\<exists>bs. fold_res (aw_write ops) (w_sink w) bs = Inr (w_sink w')) \<and> w_remaining w' = w_remaining w"
  using assms
  by (auto simp: write_records_def split: if_splits prod.splits option.splits
      intro: exI [of _ "[]"] dest: write_chunks_prefix)

lemma append_loop_None: "append_loop ops c bs n None = (r, w') \<Longrightarrow> w' = None \<and> (\<forall>k. r = Inr k \<longrightarrow> k = n)"
  by (induction bs arbitrary: n) (auto simp: Let_def split: if_splits)

lemma append_loop_Some:
  assumes "append_loop ops c bs n (Some w) = (r, w')"
  shows "\<exists>w1 bss. w' = Some w1 \<and> fold_res (aw_write ops) (w_sink w) bss = Inr (w_sink w1) \<and>
    (case r of Inl _ \<Rightarrow> w_remaining w1 \<le> w_remaining w
             | Inr k \<Rightarrow> k + w_remaining w1 = n + w_remaining w \<and> k = n + length (concat bss))"
  using assms
proof (induction bs arbitrary: n w)
  case Nil
  then show ?case by (auto intro!: exI [of _ "[]"])
next
  case (Cons b bs)
  obtain obs ds inputs where b: "b = (obs, ds, inputs)" by (cases b)
  let ?batch = "batch_of c obs ds inputs"
  show ?case
  proof (cases "?batch = []")
    case True
    with Cons b show ?thesis by (simp add: Let_def)
  next
    case False
    obtain q w1 where q: "write_records ops w ?batch = (q, w1)" by force
    show ?thesis
    proof (cases q)
      case (Some e)
      with q False b Cons.prems write_records_prefix [of ops w ?batch e w1] show ?thesis
        by (auto simp: Let_def)
    next
      case None
      with q have wr: "write_records ops w ?batch = (None, w1)" by simp
      from write_records_batches_in_order [OF wr] obtain cs where cs: "concat cs = ?batch"
        "fold_res (aw_write ops) (w_sink w) cs = Inr (w_sink w1)"
        "w_remaining w1 + length ?batch = w_remaining w" by blast
      from None q False b Cons.prems
      have "append_loop ops c bs (n + length ?batch) (Some w1) = (r, w')" by (simp add: Let_def)
      from Cons.IH [OF this] obtain w2 bss where w2: "w' = Some w2"
        "fold_res (aw_write ops) (w_sink w1) bss = Inr (w_sink w2)"
        "case r of Inl _ \<Rightarrow> w_remaining w2 \<le> w_remaining w1
           | Inr k \<Rightarrow> k + w_remaining w2 = n + length ?batch + w_remaining w1 \<and>
               k = n + length ?batch + length (concat bss)" by blast
      have "fold_res (aw_write ops) (w_sink w) (cs @ bss) = Inr (w_sink w2)"
        using cs(2) w2(2) by (simp add: fold_res_append)
      with w2 cs show ?thesis
        by (intro exI [of _ w2] exI [of _ "cs @ bss"]) (auto split: sum.splits)
    qed
  qed
qed

lemma written_extend:
  assumes "written ops n sink" "fold_res (aw_write ops) sink bs = Inr sink'" "k \<le> n + length (concat bs)"
  shows "written ops k sink'"
proof -
  from assms(1) obtain s0 bs0 where "aw_open ops = Inr s0" "fold_res (aw_write ops) s0 bs0 = Inr sink"
    "n \<le> length (concat bs0)" by (auto simp: written_def)
  with assms(2,3) show ?thesis
    unfolding written_def by (intro exI [of _ s0] exI [of _ "bs0 @ bs"]) (simp add: fold_res_append)
qed

lemma tmp_path_simps [simp]:
  "tmp_path (s\<lparr>ss_writer := w\<rparr>) = tmp_path s" "tmp_path (s\<lparr>ss_records_written := n\<rparr>) = tmp_path s"
  "tmp_path (s\<lparr>ss_preserve := b\<rparr>) = tmp_path s" "tmp_path (s\<lparr>ss_finished := b\<rparr>) = tmp_path s"
  by (simp_all add: tmp_path_def)

lemma appended_ok:
  assumes "session_ok ops fs s" "appended ops batches s = (r, s')"
  shows "session_ok ops (sync_file s' fs) s' \<and> tmp_path s' = tmp_path s"
proof -
  obtain q w' where q: "append_loop ops (ss_creature s) batches 0 (ss_writer s) = (q, w')" by force
  show ?thesis
  proof (cases "ss_writer s")
    case None
    with q have "w' = None \<and> (\<forall>k. q = Inr k \<longrightarrow> k = 0)" by (auto dest: append_loop_None)
    with assms q None show ?thesis
      by (auto simp: appended_def session_ok_def sync_file_def split: sum.splits)
  next
    case (Some w)
    from append_loop_Some [OF q [unfolded Some]] obtain w1 bss where w1: "w' = Some w1"
      "fold_res (aw_write ops) (w_sink w) bss = Inr (w_sink w1)"
      "case q of Inl _ \<Rightarrow> w_remaining w1 \<le> w_remaining w
             | Inr k \<Rightarrow> k + w_remaining w1 = 0 + w_remaining w \<and> k = 0 + length (concat bss)" by blast
    from assms(1) Some have ok: "written ops (ss_records_written s) (w_sink w)"
      "fs (tmp_path s) = Some (Partial (w_sink w))"
      "ss_records_written s + w_remaining w \<le> streaming_max_capacity"
      "\<not> ss_preserve s" "\<not> ss_finished s" "ss_parquet_path s = parquet_path_in (ss_temp_dir s)"
      by (auto simp: session_ok_def)
    from w1(3) have "written ops (ss_records_written s + (case q of Inl _ \<Rightarrow> 0 | Inr k \<Rightarrow> k)) (w_sink w1)"
      by (intro written_extend [OF ok(1) w1(2)]) (auto split: sum.splits)
    with w1 ok assms(2) q show ?thesis
      by (auto simp: appended_def session_ok_def sync_file_def split: sum.splits)
  qed
qed

lemma parquet_path_not_tmp: "parquet_path_in d \<noteq> p @ ''.tmp''"
proof
  assume "parquet_path_in d = p @ ''.tmp''"
  then have "last (parquet_path_in d) = last (p @ ''.tmp'')" by simp
  then show False by (simp add: parquet_path_in_def)
qed

lemma finish_locked_cases:
  assumes "session_ok ops fs s" "finish_locked ops io s fs = (r, s', fs')"
    and that: "0 < ss_records_written s"
  shows "case r of
      Inl e \<Rightarrow> session_ok ops fs' s' \<and> tmp_path s' = tmp_path s \<and> (\<forall>p. p \<noteq> tmp_path s \<longrightarrow> fs' p = fs p)
    | Inr _ \<Rightarrow> ss_finished s' \<and> ss_temp_dir s' = ss_temp_dir s \<and>
        ss_records_written s' = ss_records_written s \<and>
        (\<exists>x. fs' = fs(tmp_path s := None, ss_parquet_path s \<mapsto> x) \<and>
          (case ss_writer s of Some w \<Rightarrow> \<exists>sink. aw_close ops (w_sink w) = Inr sink \<and> x = Complete sink
                             | None \<Rightarrow> fs (tmp_path s) = Some x))"
proof (cases "ss_writer s")
  case None
  with assms that show ?thesis
    by (auto simp: finish_locked_def session_ok_def Let_def split: option.splits)
next
  case (Some w)
  from assms(1) Some have f: "fs (tmp_path s) = Some (Partial (w_sink w))" "\<not> ss_finished s"
    "ss_parquet_path s = parquet_path_in (ss_temp_dir s)"
    by (auto simp: session_ok_def)
  then have dom: "tmp_path s \<in> dom fs" by auto
  show ?thesis
  proof (cases "writer_finish ops w")
    case (Inl e)
    with Some assms(2) f that dom show ?thesis
      by (auto simp: finish_locked_def session_ok_def Let_def)
  next
    case (Inr sink)
    then have "aw_close ops (w_sink w) = Inr sink" by (auto simp: writer_finish_def split: sum.splits)
    with Inr Some assms(2) f that dom show ?thesis
      by (auto simp: finish_locked_def session_ok_def Let_def fun_upd_twist split: option.splits)
  qed
qed

lemma abs_ok_sweep:
  assumes "abs_ok ops (m, fs)"
  shows "abs_ok ops (abs_sweep io ttl now (m, fs))"
proof -
  let ?m = "swept_map ttl now m" and ?fs = "swept_files io ttl now m fs"
  have sub: "m i = Some s" "\<not> stale_session ttl now s" if "?m i = Some s" for i s
    using that by (auto simp: swept_map_def split: option.splits if_splits)
  have "?fs (tmp_path s) = fs (tmp_path s)" if s: "?m i = Some s" for i s
  proof -
    have "tmp_path t \<noteq> tmp_path s" if t: "t \<in> ran m" "stale_session ttl now t" for t
    proof
      assume eq: "tmp_path t = tmp_path s"
      from t obtain j where j: "m j = Some t" by (auto simp: ran_def)
      with assms sub(1) [OF s] eq have "j = i" by (auto simp: abs_ok_def)
      with sub [OF s] t j show False by simp
    qed
    then show ?thesis by (fastforce simp: swept_files_def)
  qed
  then have "session_ok ops ?fs s" if "?m i = Some s" for i s
    using that sub(1) [OF that] assms session_ok_cong [of ?fs s fs ops] by (auto simp: abs_ok_def)
  with assms sub(1) show ?thesis by (auto simp: abs_ok_def abs_sweep_def)
qed

lemma abs_ok_new_file:
  assumes "abs_ok ops (m, fs)" "p \<notin> dom fs"
  shows "abs_ok ops (m, fs(p \<mapsto> x))"
proof -
  have "session_ok ops (fs(p \<mapsto> x)) s" if "m i = Some s" for i s
  proof -
    from that assms(1) have ok: "session_ok ops fs s" by (auto simp: abs_ok_def)
    then have "tmp_path s \<noteq> p" using assms(2) session_ok_tmp by metis
    with ok show ?thesis using session_ok_cong [of "fs(p \<mapsto> x)" s fs] by simp
  qed
  with assms(1) show ?thesis by (auto simp: abs_ok_def)
qed

lemma session_new_ok:
  assumes "abs_ok ops (m, fs)" "m sid = None"
    and new: "session_new ops io now cr dir (parquet_path_in dir) fs = (q, fs')"
  shows "case q of Inl _ \<Rightarrow> abs_ok ops (m, fs') | Inr s \<Rightarrow> abs_ok ops (m(sid \<mapsto> s), fs')"
proof (cases q)
  case (Inl e)
  with new have "fs' = fs \<or> parquet_path_in dir @ ''.tmp'' \<notin> dom fs \<and>
      fs' = fs(parquet_path_in dir @ ''.tmp'' \<mapsto> Empty)"
    by (auto simp: session_new_def split: prod.splits sum.splits dest: new_exclusive_Inl)
  with Inl assms(1) show ?thesis by (auto intro: abs_ok_new_file)
next
  case (Inr s)
  from new Inr obtain w where w: "writer_new_exclusive ops io fs (parquet_path_in dir @ ''.tmp'')
      max_arrow_offset max_arrow_offset streaming_max_capacity = (Inr w, fs')"
    and s: "s = \<lparr>ss_writer = Some w, ss_creature = cr, ss_temp_dir = dir,
      ss_parquet_path = parquet_path_in dir, ss_records_written = 0, ss_finished = False,
      ss_preserve = False, ss_created_at = now\<rparr>"
    by (auto simp: session_new_def split: prod.splits sum.splits)
  from w have fs': "parquet_path_in dir @ ''.tmp'' \<notin> dom fs"
    "fs' = fs(parquet_path_in dir @ ''.tmp'' \<mapsto> Partial (w_sink w))"
    "aw_open ops = Inr (w_sink w)" "w_remaining w = streaming_max_capacity"
    by (auto simp: new_exclusive_Inr dest: writer_open_Inr)
  have "session_ok ops fs' s"
    using fs' by (auto simp: session_ok_def s tmp_path_def written_def intro!: exI [of _ "[]"])
  then have "abs_ok ops (m(sid \<mapsto> s), fs')"
    using fs' by (intro abs_ok_insert [OF assms(1,2)]) (auto simp: s tmp_path_def)
  with Inr show ?thesis by simp
qed

lemma abs_ok_start:
  assumes "abs_ok ops (m, fs)" "m sid = None"
    and "abs_start ops io now sid cr dir (m, fs) = (r, m', fs')"
  shows "abs_ok ops (m', fs')"
proof -
  obtain q fs1 where new: "session_new ops io now cr dir (parquet_path_in dir) fs = (q, fs1)" by force
  from session_new_ok [OF assms(1,2) new] new assms(1,3) show ?thesis
    by (auto simp: abs_start_def split: option.splits if_splits sum.splits)
qed

lemma abs_ok_append:
  assumes "abs_ok ops (m, fs)" "abs_append ops sid bs (m, fs) = (r, m', fs')"
  shows "abs_ok ops (m', fs')"
proof (cases "m sid")
  case None
  with assms show ?thesis by (auto simp: abs_append_def)
next
  case (Some s)
  obtain q s' where q: "appended ops bs s = (q, s')" by force
  from assms(1) Some have "session_ok ops fs s" by (auto simp: abs_ok_def)
  from appended_ok [OF this q] have "session_ok ops (sync_file s' fs) s'" "tmp_path s' = tmp_path s"
    by blast+
  then have "abs_ok ops (m(sid \<mapsto> s'), sync_file s' fs)"
    by (intro abs_ok_update [OF assms(1) Some]) (auto simp: sync_file_def split: option.splits)
  with assms(2) Some q show ?thesis by (auto simp: abs_append_def)
qed

lemma abs_ok_cancel:
  assumes "abs_ok ops (m, fs)" "abs_cancel io sid (m, fs) = (r, m', fs')"
  shows "abs_ok ops (m', fs')"
proof (cases "m sid")
  case None
  with assms show ?thesis by (auto simp: abs_cancel_def)
next
  case (Some s)
  have "abs_ok ops (m(sid := None), session_drop io s fs)"
    by (intro abs_ok_remove [OF assms(1) Some]) (auto simp: session_drop_at)
  with assms(2) Some show ?thesis by (auto simp: abs_cancel_def)
qed

lemma abs_ok_finish:
  assumes "abs_ok ops (m, fs)" "abs_finish ops io sid (m, fs) = (r, m', fs')"
  shows "abs_ok ops (m', fs')"
proof (cases "m sid")
  case None
  with assms show ?thesis by (auto simp: abs_finish_def)
next
  case (Some s)
  have drop: "abs_ok ops (m(sid := None), session_drop io s fs)"
    by (intro abs_ok_remove [OF assms(1) Some]) (auto simp: session_drop_at)
  show ?thesis
  proof (cases "ss_records_written s = 0")
    case True
    with drop assms(2) Some show ?thesis by (auto simp: abs_finish_def)
  next
    case False
    from assms(1) Some have ok: "session_ok ops fs s" by (auto simp: abs_ok_def)
    obtain q s' fs1 where q: "finish_locked ops io s fs = (q, s', fs1)" by (metis prod.exhaust)
    from False have "0 < ss_records_written s" by simp
    note fin = finish_locked_cases [OF ok q this]
    show ?thesis
    proof (cases q)
      case (Inl e)
      with fin have "abs_ok ops (m(sid \<mapsto> s'), fs1)"
        by (intro abs_ok_update [OF assms(1) Some]) auto
      with assms(2) Some False q Inl show ?thesis by (auto simp: abs_finish_def)
    next
      case (Inr u)
      have "abs_ok ops (m(sid := None), session_drop io s' fs1)"
      proof (rule abs_ok_remove [OF assms(1) Some])
        fix p assume p: "p \<noteq> tmp_path s" "p \<in> tmp_path ` ran m"
        from p(2) obtain p' where "p = p' @ ''.tmp''" by (auto simp: tmp_path_def)
        with ok have "p \<noteq> ss_parquet_path s"
          using parquet_path_not_tmp by (metis session_ok_def)
        with fin Inr p show "session_drop io s' fs1 p = fs p" by (auto simp: session_drop_at)
      qed
      with assms(2) Some False q Inr show ?thesis by (auto simp: abs_finish_def)
    qed
  qed
qed

lemma abs_ok_call:
  assumes "abs_ok ops (m, fs)" "abs_call ops io c (m, fs) = (r, m', fs')"
    and "case c of Start ttl now sid cr dir \<Rightarrow> m sid = None | _ \<Rightarrow> True"
  shows "abs_ok ops (m', fs')"
proof (cases c)
  case (Start ttl now sid cr dir)
  obtain m1 fs1 where sw: "abs_sweep io ttl now (m, fs) = (m1, fs1)" by force
  with abs_ok_sweep [OF assms(1), of io ttl now] have "abs_ok ops (m1, fs1)" by simp
  moreover from sw assms(3) Start have "m1 sid = None" by (auto simp: abs_sweep_def swept_map_def)
  ultimately show ?thesis
    using assms(2) Start sw
    by (auto simp: abs_call_def map_prod_def split: prod.splits intro: abs_ok_start)
qed (use assms in \<open>auto simp: abs_call_def map_prod_def split: prod.splits
       intro: abs_ok_append abs_ok_finish abs_ok_cancel\<close>)

lemma reachable_ok: "api_reach ops st \<Longrightarrow> quiet st \<and> abs_ok ops (abs_of st)"
proof (induction rule: api_reach.induct)
  case (api_init fs)
  have "sess_map (empty_store fs) = Map.empty"
    by (simp add: fun_eq_iff sess_map_def session_handle_def empty_store_def)
  then show ?case by (simp add: quiet_def abs_of_def abs_ok_def) (simp add: empty_store_def)
next
  case (api_run st c io r st')
  then have q: "quiet st" "abs_ok ops (abs_of st)" by blast+
  from call_refines [OF q(1) api_run.hyps(2,3)] have st': "quiet st'"
    "abs_call ops io c (sess_map st, st_files st) = (r, sess_map st', st_files st')"
    by (simp_all add: abs_of_def)
  have "case c of Start ttl now sid cr dir \<Rightarrow> sess_map st sid = None | _ \<Rightarrow> True"
    using api_run.hyps(2) by (auto simp: fresh_call_def sess_map_def split: api_call.splits)
  with abs_ok_call [OF _ st'(2)] q st' show ?case by (auto simp: abs_of_def)
next
  case (api_env st fs)
  then have "session_ok ops fs s" if "sess_map st i = Some s" for i s
    using that session_ok_cong [of fs s "st_files st" ops] by (auto simp: abs_ok_def abs_of_def)
  with api_env show ?case by (auto simp: abs_ok_def abs_of_def)
qed

section \<open>Properties\<close>

text \<open>A recording of two records, used by the witnesses.\<close>

definition sample_batches_in :: "batch_input list" where
  "sample_batches_in = [(41, example_data, [7])]"

definition broken_close_ops :: "discover_record list list arrow_ops" where
  "broken_close_ops = log_ops\<lparr>aw_close := (\<lambda>_. Inl ''no space left'')\<rparr>"

definition sample_open_writer :: "discover_record list list pq_writer" where
  "sample_open_writer =
     \<lparr>w_sink = [example_batch], w_max_uuid = max_arrow_offset, w_max_errors = max_arrow_offset,
      w_longest = Some ''output-0'', w_remaining = streaming_max_capacity - 2\<rparr>"

definition sample_session :: "discover_record list list session" where
  "sample_session =
     \<lparr>ss_writer = Some sample_open_writer,
      ss_creature = example_creature, ss_temp_dir = ''/d'',
      ss_parquet_path = parquet_path_in ''/d'', ss_records_written = 2, ss_finished = False,
      ss_preserve = False, ss_created_at = 5\<rparr>"

definition sample_tmp :: string where "sample_tmp = parquet_path_in ''/d'' @ ''.tmp''"

definition sample_store :: "discover_record list list store" where
  "sample_store =
     \<lparr>st_sessions = [(''s'', 0)], st_entries = [0 \<mapsto> \<lparr>e_cancelled = False, e_session = sample_session\<rparr>],
      st_holds = (\<lambda>_. 0), st_locked = {}, st_next = 1,
      st_files = [sample_tmp \<mapsto> Partial [example_batch]]\<rparr>"

lemma write_chunks_cong:
  "aw_write ops = aw_write ops' \<Longrightarrow> write_chunks ops mu me l rs k s = write_chunks ops' mu me l rs k s"
proof (induction ops mu me l rs k s rule: write_chunks.induct)
  case (1 ops mu me l rs k s)
  then have same: "write_chunk ops l s c = write_chunk ops' l s c" for c by (simp add: write_chunk_def)
  let ?c = "take (determine_chunk_end rs k mu me - k) (drop k rs)"
  show ?case
  proof (cases "write_chunk ops' l s ?c")
    case (Inl e)
    then show ?thesis
      by (simp add: write_chunks.simps [of ops mu me l rs k] write_chunks.simps [of ops' mu me l rs k]
          same Let_def)
  next
    case (Inr s')
    have "write_chunks ops mu me l rs (determine_chunk_end rs k mu me) s' =
        write_chunks ops' mu me l rs (determine_chunk_end rs k mu me) s'" if "k < length rs"
      by (rule "1.IH" [OF that refl]) (use same Inr 1 in simp_all)
    then show ?thesis
      by (simp add: write_chunks.simps [of ops mu me l rs k] write_chunks.simps [of ops' mu me l rs k]
          same Inr Let_def)
  qed
qed

lemma cleanup_empty: "cleanup_stale_sessions io ttl now (empty_store fs) = empty_store fs"
  by (simp add: cleanup_stale_sessions_def empty_store_def)

lemma sample_reached:
  assumes ops: "ops = log_ops \<or> ops = broken_close_ops"
  shows "api_reach ops sample_store"
proof -
  have "aw_write ops = aw_write log_ops" using ops by (auto simp: broken_close_ops_def)
  then have "write_chunks ops = write_chunks log_ops" by (intro ext) (rule write_chunks_cong)
  then have wr: "write_records ops w b = write_records log_ops w b" for w b
    by (simp add: write_records_def split: prod.split option.split)
  have op: "aw_open ops = Inr []" using ops by (auto simp: broken_close_ops_def log_ops_def)
  let ?w = "\<lparr>w_sink = [], w_max_uuid = max_arrow_offset, w_max_errors = max_arrow_offset,
      w_longest = None, w_remaining = streaming_max_capacity\<rparr>"
  let ?s = "sample_session\<lparr>ss_writer := Some ?w, ss_records_written := 0\<rparr>"
  let ?st = "sample_store\<lparr>st_entries := [0 \<mapsto> \<lparr>e_cancelled = False, e_session = ?s\<rparr>],
      st_files := [sample_tmp \<mapsto> Partial []]\<rparr>"
  have new: "writer_new_exclusive ops good_io Map.empty sample_tmp max_arrow_offset max_arrow_offset
      streaming_max_capacity = (Inr ?w, [sample_tmp \<mapsto> Partial []])"
    using op by (simp add: new_exclusive_Inr good_io_def writer_open_def max_arrow_offset_def
        streaming_max_capacity_def)
  have start: "run_call ops good_io (Start 10 5 ''s'' example_creature ''/d'') (empty_store Map.empty)
      = (Started (Inr ''s''), ?st)"
    using new
    by (simp add: run_call_def start_session_def cleanup_empty)
       (simp add: start_session_def session_new_def sample_tmp_def empty_store_def
        session_handle_def sample_session_def sample_store_def good_io_def non_input_count_def
        example_creature_def Let_def)
  have cap: "2 \<le> streaming_max_capacity" by (simp add: streaming_max_capacity_def)
  have "appended ops sample_batches_in ?s = (Inr 2, sample_session)"
    using cap
    by (simp add: appended_def sample_batches_in_def sample_session_def sample_open_writer_def wr example_write_records
        example_batch_of Let_def) (simp add: example_batch_def)
  then have app: "run_call ops good_io (Append ''s'' sample_batches_in) ?st = (Appended (Inr 2), sample_store)"
    using cap
    by (simp add: run_call_def append_records_def append_to_handle_def append_write_def append_ack_def
        session_handle_def sample_store_def appended_def hold_def unhold_def release_def set_session_def
        sync_file_def tmp_path_def sample_tmp_def fun_upd_idem_iff Let_def
        split: prod.splits sum.splits)
       (auto simp: sample_session_def sample_open_writer_def tmp_path_def)
  have "api_reach ops (empty_store Map.empty)" by (rule api_init)
  then have "api_reach ops ?st"
    by (rule api_run [OF _ _ start]) (simp add: fresh_call_def session_handle_def empty_store_def)
  then show ?thesis by (rule api_run [OF _ _ app]) (simp add: fresh_call_def)
qed

lemma sample_facts:
  "sess_map sample_store = [''s'' \<mapsto> sample_session]"
  "session_handle sample_store ''s'' = Some 0" "st_files sample_store sample_tmp = Some (Partial [example_batch])"
  by (auto simp: sess_map_def session_handle_def sample_store_def fun_eq_iff)

text \<open>
  C2. Every call of the streaming API, run alone on a reachable store, does what the
  specification over the finite map of sessions says: the same result, the same sessions, the
  same files.
\<close>
theorem session_calls_refine:
  assumes "api_reach ops st" "fresh_call c st" "run_call ops io c st = (r, st')"
  shows "abs_call ops io c (abs_of st) = (r, abs_of st')"
  using call_refines [OF _ assms(2,3)] reachable_ok [OF assms(1)] by blast

theorem session_calls_refine_witness:
  "abs_call log_ops good_io (Cancel ''s'') (abs_of sample_store) =
     (let r = run_call log_ops good_io (Cancel ''s'') sample_store in (fst r, abs_of (snd r)))"
  using session_calls_refine [OF sample_reached [of log_ops], of "Cancel ''s''" good_io]
  by (simp add: fresh_call_def Let_def)

text \<open>
  C1. In every reachable store a registered session either has an open writer, and then its
  temporary file is the writer's partial output, which holds at least as many records as were
  acknowledged and leaves room for the rest of the capacity, or a failed finish took the writer,
  and then the temporary file still exists and no drop will delete it. No two sessions share a
  temporary file.
\<close>
theorem sessions_own_their_files:
  assumes "api_reach ops st"
  shows "\<forall>sid s. sess_map st sid = Some s \<longrightarrow>
      (case ss_writer s of
         Some w \<Rightarrow> st_files st (tmp_path s) = Some (Partial (w_sink w)) \<and>
           (\<exists>s0 bs. aw_open ops = Inr s0 \<and> fold_res (aw_write ops) s0 bs = Inr (w_sink w) \<and>
              ss_records_written s \<le> length (concat bs)) \<and>
           ss_records_written s + w_remaining w \<le> 2 ^ 31 - 1
       | None \<Rightarrow> ss_preserve s \<and> tmp_path s \<in> dom (st_files st)) \<and>
      (\<forall>sid' s'. sess_map st sid' = Some s' \<longrightarrow> tmp_path s' = tmp_path s \<longrightarrow> sid' = sid)"
proof (intro allI impI conjI)
  fix sid s assume s: "sess_map st sid = Some s"
  with reachable_ok [OF assms] have ok: "session_ok ops (st_files st) s"
    and uniq: "\<And>sid' s'. sess_map st sid' = Some s' \<Longrightarrow> tmp_path s' = tmp_path s \<Longrightarrow> sid' = sid"
    by (auto simp: abs_ok_def abs_of_def)
  from ok show "case ss_writer s of
         Some w \<Rightarrow> st_files st (tmp_path s) = Some (Partial (w_sink w)) \<and>
           (\<exists>s0 bs. aw_open ops = Inr s0 \<and> fold_res (aw_write ops) s0 bs = Inr (w_sink w) \<and>
              ss_records_written s \<le> length (concat bs)) \<and>
           ss_records_written s + w_remaining w \<le> 2 ^ 31 - 1
       | None \<Rightarrow> ss_preserve s \<and> tmp_path s \<in> dom (st_files st)"
    by (cases "ss_writer s") (simp_all add: session_ok_def written_def streaming_max_capacity_def)
  show "sid' = sid" if "sess_map st sid' = Some s'" "tmp_path s' = tmp_path s" for sid' s'
    using uniq that .
qed

theorem sessions_own_their_files_witness:
  "st_files sample_store (tmp_path sample_session) = Some (Partial [example_batch])"
  using sessions_own_their_files [OF sample_reached [of log_ops], THEN spec [of _ "''s''"],
      THEN spec [of _ sample_session]]
  by (simp add: sample_facts) (simp add: sample_session_def sample_open_writer_def)

lemma finish_reachable_Inr:
  assumes "api_reach ops st" "finish_session ops io sid st = (Inr (dir, name, n), st')"
  obtains s s' fs' where "sess_map st sid = Some s" "0 < ss_records_written s"
    "session_ok ops (st_files st) s" "finish_locked ops io s (st_files st) = (Inr (), s', fs')"
    "dir = ss_temp_dir s'" "name = ''discovery_data.parquet''" "n = ss_records_written s'"
    "sess_map st' = (sess_map st)(sid := None)" "st_files st' = session_drop io s' fs'"
proof -
  from reachable_ok [OF assms(1)] have q: "quiet st" "abs_ok ops (abs_of st)" by blast+
  note fin = finish_alone [OF q(1) assms(2)]
  then obtain s where s: "sess_map st sid = Some s" "0 < ss_records_written s"
    by (auto split: option.splits if_splits)
  obtain q' s' fs' where fl: "finish_locked ops io s (st_files st) = (q', s', fs')" by (metis prod.exhaust)
  with fin s have "q' = Inr ()" by (cases q') auto
  moreover have "session_ok ops (st_files st) s" using q s by (auto simp: abs_ok_def abs_of_def)
  ultimately show thesis using that [OF s, of s' fs'] fin fl s by simp
qed

lemma finish_reachable_Inl:
  assumes "api_reach ops st" "finish_session ops io sid st = (Inl err, st')"
    "err \<noteq> SessionNotFound sid" "err \<noteq> NothingRecorded"
  obtains s s' fs' where "sess_map st sid = Some s" "0 < ss_records_written s"
    "session_ok ops (st_files st) s" "finish_locked ops io s (st_files st) = (Inl err, s', fs')"
    "sess_map st' = (sess_map st)(sid \<mapsto> s')" "st_files st' = fs'" "quiet st'"
proof -
  from reachable_ok [OF assms(1)] have q: "quiet st" "abs_ok ops (abs_of st)" by blast+
  note fin = finish_alone [OF q(1) assms(2)]
  with assms(3,4) obtain s where s: "sess_map st sid = Some s" "0 < ss_records_written s"
    by (auto split: option.splits if_splits)
  obtain q' s' fs' where fl: "finish_locked ops io s (st_files st) = (q', s', fs')" by (metis prod.exhaust)
  with fin s have "q' = Inl err" by (cases q') auto
  moreover have "session_ok ops (st_files st) s" using q s by (auto simp: abs_ok_def abs_of_def)
  ultimately show thesis using that [OF s, of s' fs'] fin fl s by simp
qed

definition sample_final :: string where "sample_final = parquet_path_in ''/d''"

lemma sample_paths [simp]:
  "tmp_path sample_session = sample_tmp" "sample_tmp \<noteq> sample_final" "sample_final \<noteq> sample_tmp"
  "ss_parquet_path sample_session = sample_final" "''/d'' @ ''/'' @ ''discovery_data.parquet'' = sample_final"
  by (simp_all add: tmp_path_def sample_session_def sample_tmp_def sample_final_def parquet_path_in_def)

lemma sample_finish_locked:
  assumes "io_rename io = None"
  shows "finish_locked log_ops io sample_session [sample_tmp \<mapsto> Partial [example_batch]] =
    (Inr (), sample_session\<lparr>ss_writer := None, ss_preserve := True, ss_finished := True\<rparr>,
     [sample_final \<mapsto> Complete [example_batch]])"
proof -
  have "writer_finish log_ops sample_open_writer = Inr [example_batch]"
    by (simp add: writer_finish_def log_ops_def sample_open_writer_def)
  moreover have "ss_writer sample_session = Some sample_open_writer" by (simp add: sample_session_def)
  ultimately show ?thesis
    using assms by (simp add: finish_locked_def Let_def fun_upd_twist)
qed

lemma sample_finish:
  assumes "io_rename io = None"
  obtains st' where "finish_session log_ops io ''s'' sample_store =
    (Inr (''/d'', ''discovery_data.parquet'', 2), st')"
proof -
  obtain r st' where f: "finish_session log_ops io ''s'' sample_store = (r, st')" by force
  have "quiet sample_store" using reachable_ok [OF sample_reached [of log_ops]] by simp
  from finish_alone [OF this f] sample_finish_locked [OF assms] have "r = Inr (''/d'', ''discovery_data.parquet'', 2)"
    by (simp add: sample_facts) (simp add: sample_store_def sample_session_def)
  with f that show thesis by simp
qed

text \<open>
  C10. Every successful \<open>finish_session\<close> belongs to a registered session, reports its acknowledged
  record count (never 0), moves its temporary file to the published path, removes the session, and
  changes no other file or session. What is published depends on the writer: when the session still
  has it, the close has succeeded and the published file is the finalised output of writes that hold
  at least the acknowledged records; when an earlier finish already took it, the temporary file is
  published exactly as that finish left it.
\<close>
theorem finish_publishes_recording:
  assumes "api_reach ops st"
    and "finish_session ops io sid st = (Inr (dir, name, n), st')"
  shows "\<exists>s content. sess_map st sid = Some s \<and>
    n = ss_records_written s \<and> 0 < n \<and> dir = ss_temp_dir s \<and> name = ''discovery_data.parquet'' \<and>
    st_files st' = (st_files st)(tmp_path s := None, dir @ ''/'' @ name \<mapsto> content) \<and>
    sess_map st' = (sess_map st)(sid := None) \<and>
    (case ss_writer s of
       Some w \<Rightarrow> \<exists>sink. aw_close ops (w_sink w) = Inr sink \<and> written ops n (w_sink w) \<and>
         content = Complete sink
     | None \<Rightarrow> st_files st (tmp_path s) = Some content)"
proof -
  from finish_reachable_Inr [OF assms] obtain s s' fs' where
    s: "sess_map st sid = Some s" and ok: "0 < ss_records_written s" "session_ok ops (st_files st) s"
    and fl: "finish_locked ops io s (st_files st) = (Inr (), s', fs')"
    and r: "dir = ss_temp_dir s'" "name = ''discovery_data.parquet''" "n = ss_records_written s'"
      "sess_map st' = (sess_map st)(sid := None)" "st_files st' = session_drop io s' fs'"
    by metis
  from finish_locked_cases [OF ok(2) fl ok(1)] obtain content where
    f: "ss_finished s'" "ss_temp_dir s' = ss_temp_dir s" "ss_records_written s' = ss_records_written s"
       "fs' = (st_files st)(tmp_path s := None, ss_parquet_path s \<mapsto> content)"
    and c: "case ss_writer s of
        Some w \<Rightarrow> \<exists>sink. aw_close ops (w_sink w) = Inr sink \<and> content = Complete sink
      | None \<Rightarrow> st_files st (tmp_path s) = Some content"
    by auto
  from c ok(2) have "case ss_writer s of
       Some w \<Rightarrow> \<exists>sink. aw_close ops (w_sink w) = Inr sink \<and>
         written ops (ss_records_written s) (w_sink w) \<and> content = Complete sink
     | None \<Rightarrow> st_files st (tmp_path s) = Some content"
    by (auto simp: session_ok_def split: option.splits)
  moreover have "st_files st' = (st_files st)(tmp_path s := None, dir @ ''/'' @ name \<mapsto> content)"
    using r f ok(2) by (simp add: session_drop_def session_ok_def parquet_path_in_def)
  ultimately show ?thesis
    using s r f ok(1) by (intro exI [of _ s] exI [of _ content]) (simp split: option.splits)
qed

theorem finish_publishes_recording_witness:
  "\<exists>st'. finish_session log_ops good_io ''s'' sample_store =
      (Inr (''/d'', ''discovery_data.parquet'', 2), st') \<and>
    st_files st' sample_final = Some (Complete [example_batch]) \<and> sess_map st' ''s'' = None"
proof -
  obtain st' where f: "finish_session log_ops good_io ''s'' sample_store =
      (Inr (''/d'', ''discovery_data.parquet'', 2), st')"
    by (rule sample_finish [of good_io]) (simp_all add: good_io_def)
  have "\<exists>w. ss_writer sample_session = Some w \<and> w_sink w = [example_batch]"
    by (simp add: sample_session_def sample_open_writer_def)
  then obtain w where w: "ss_writer sample_session = Some w" "w_sink w = [example_batch]" by blast
  have "aw_close log_ops x = Inr x" for x by (simp add: log_ops_def)
  with finish_publishes_recording [OF sample_reached [of log_ops] f] f w show ?thesis
    by (auto simp: sample_facts simp del: append.simps)
qed

text \<open>
  C11. What a failed finish leaves behind, for every way it can fail. An unknown session: nothing
  changes. Nothing recorded: the session is over and dropped, so its temporary file is removed, unless
  the removal itself fails. Closing or renaming failed: the
  session stays registered and its temporary file on disk, and no drop will delete it. No other
  file or session is touched in any case. After a failed rename whose temporary file had been
  finalised, finishing again with a working rename publishes the complete recording.
\<close>
theorem failed_finish_keeps_recording:
  assumes "api_reach ops st" "finish_session ops io sid st = (Inl err, st')"
  shows "case sess_map st sid of
      None \<Rightarrow> err = SessionNotFound sid \<and> st' = st
    | Some s \<Rightarrow>
        (\<forall>p. p \<noteq> tmp_path s \<longrightarrow> st_files st' p = st_files st p) \<and>
        (if ss_records_written s = 0 then
           err = NothingRecorded \<and> sess_map st' = (sess_map st)(sid := None) \<and>
           st_files st' = remove_file io (tmp_path s) (st_files st)
         else \<exists>s'. err \<noteq> NothingRecorded \<and> sess_map st' = (sess_map st)(sid \<mapsto> s') \<and>
           tmp_path s \<in> dom (st_files st') \<and> tmp_path s' = tmp_path s \<and> ss_preserve s' \<and>
           (\<forall>e io' sink. err = RenameFailed e \<longrightarrow> io_rename io' = None \<longrightarrow>
              st_files st' (tmp_path s) = Some (Complete sink) \<longrightarrow>
              (case finish_session ops io' sid st' of
                 (Inr _, st2) \<Rightarrow> st_files st2 =
                     (st_files st')(tmp_path s := None, ss_parquet_path s \<mapsto> Complete sink)
               | (Inl _, _) \<Rightarrow> False)))"
proof (cases "sess_map st sid")
  case None
  from reachable_ok [OF assms(1)] have "quiet st" by blast
  from finish_alone [OF this assms(2)] None show ?thesis by simp
next
  case s: (Some s)
  from reachable_ok [OF assms(1)] have q: "quiet st" "abs_ok ops (abs_of st)" by blast+
  have ok: "session_ok ops (st_files st) s" using q(2) s by (auto simp: abs_ok_def abs_of_def)
  show ?thesis
  proof (cases "ss_records_written s = 0")
    case True
    with ok have "\<not> ss_finished s" "\<not> ss_preserve s" by (auto simp: session_ok_def split: option.splits)
    with finish_alone [OF q(1) assms(2)] s True show ?thesis
      by (auto simp: session_drop_def remove_file_def split: option.splits)
  next
    case False
    then have pos: "0 < ss_records_written s" by simp
    obtain q' s' fs' where fl: "finish_locked ops io s (st_files st) = (q', s', fs')" by (metis prod.exhaust)
    with finish_alone [OF q(1) assms(2)] s False have q': "q' = Inl err" by (cases q') auto
    with fl have fl: "finish_locked ops io s (st_files st) = (Inl err, s', fs')" by simp
    with finish_alone [OF q(1) assms(2)] s False have
      st': "sess_map st' = (sess_map st)(sid \<mapsto> s')" "st_files st' = fs'" and qu: "quiet st'" by auto
    from finish_locked_cases [OF ok fl pos] have keep: "session_ok ops fs' s'"
      "tmp_path s' = tmp_path s" "\<forall>p. p \<noteq> tmp_path s \<longrightarrow> fs' p = st_files st p" by auto
    have left: "ss_writer s' = None" "ss_preserve s'" "0 < ss_records_written s'" "err \<noteq> NothingRecorded"
      "ss_parquet_path s' = ss_parquet_path s"
      using fl pos by (auto simp: finish_locked_def Let_def split: option.splits sum.splits)
    have again: "case finish_session ops io' sid st' of
        (Inr _, st2) \<Rightarrow> st_files st2 =
            (st_files st')(tmp_path s := None, ss_parquet_path s \<mapsto> Complete sink)
      | (Inl _, _) \<Rightarrow> False"
      if "io_rename io' = None" "st_files st' (tmp_path s) = Some (Complete sink)" for io' sink
    proof -
      obtain r2 st2 where f2: "finish_session ops io' sid st' = (r2, st2)" by force
      from finish_alone [OF qu f2] that left keep(2) st' show ?thesis
        by (simp add: f2 finish_locked_def session_drop_def Let_def)
    qed
    show ?thesis
      using s False st' keep left session_ok_tmp [OF keep(1)] again by simp (blast intro: exI [of _ s'])
  qed
qed

lemma sample_finish_broken_rename:
  "\<exists>st'. finish_session log_ops (good_io\<lparr>io_rename := Some ''cross-device''\<rparr>) ''s'' sample_store =
     (Inl (RenameFailed ''cross-device''), st')"
proof -
  let ?io = "good_io\<lparr>io_rename := Some ''cross-device''\<rparr>"
  obtain r st' where f: "finish_session log_ops ?io ''s'' sample_store = (r, st')" by force
  have "quiet sample_store" using reachable_ok [OF sample_reached [of log_ops]] by simp
  moreover have "\<exists>s' fs'. finish_locked log_ops ?io sample_session (st_files sample_store) =
      (Inl (RenameFailed ''cross-device''), s', fs')"
    by (simp add: finish_locked_def sample_session_def sample_open_writer_def writer_finish_def
        log_ops_def Let_def)
  moreover have "ss_records_written sample_session = 2" by (simp add: sample_session_def)
  ultimately have "r = Inl (RenameFailed ''cross-device'')"
    using finish_alone [of sample_store log_ops ?io "''s''" r st'] f by (auto simp: sample_facts)
  with f show ?thesis by blast
qed

theorem failed_finish_keeps_recording_witness:
  "\<exists>st'. finish_session log_ops (good_io\<lparr>io_rename := Some ''cross-device''\<rparr>) ''s'' sample_store =
      (Inl (RenameFailed ''cross-device''), st') \<and> sample_tmp \<in> dom (st_files st')"
proof -
  from sample_finish_broken_rename obtain st' where
    f: "finish_session log_ops (good_io\<lparr>io_rename := Some ''cross-device''\<rparr>) ''s'' sample_store =
      (Inl (RenameFailed ''cross-device''), st')" by blast
  have two: "ss_records_written sample_session = 2" by (simp add: sample_session_def)
  from failed_finish_keeps_recording [OF sample_reached [of log_ops] f] have "sample_tmp \<in> dom (st_files st')"
    by (auto simp: sample_facts two)
  with f show ?thesis by blast
qed

text \<open>
  The guarantee does not extend to a failed close: \<open>finish_session\<close> has already taken the
  writer, so a second call skips the close, renames the unfinalised temporary file to the
  published path and reports success.
\<close>
theorem retry_after_failed_close_publishes_partial:
  assumes "api_reach ops st" "finish_session ops io sid st = (Inl (FinaliseFailed e), st1)"
    and "io_rename io' = None" "finish_session ops io' sid st1 = (r, st2)"
  shows "\<exists>s w. sess_map st sid = Some s \<and> ss_writer s = Some w \<and>
    r = Inr (ss_temp_dir s, ''discovery_data.parquet'', ss_records_written s) \<and>
    st_files st2 (ss_parquet_path s) = Some (Partial (w_sink w))"
proof -
  have ne: "FinaliseFailed e \<noteq> SessionNotFound sid" "FinaliseFailed e \<noteq> NothingRecorded" by simp_all
  from finish_reachable_Inl [OF assms(1,2) ne] obtain s s1 fs1 where
    s: "sess_map st sid = Some s" and ok: "0 < ss_records_written s" "session_ok ops (st_files st) s"
    and fl: "finish_locked ops io s (st_files st) = (Inl (FinaliseFailed e), s1, fs1)"
    and st1: "sess_map st1 = (sess_map st)(sid \<mapsto> s1)" "st_files st1 = fs1" and qu: "quiet st1"
    by metis
  from fl obtain w where w: "ss_writer s = Some w" "writer_finish ops w = Inl e"
    "s1 = s\<lparr>ss_preserve := True, ss_writer := None\<rparr>" "fs1 = st_files st"
    by (auto simp: finish_locked_def Let_def split: option.splits sum.splits)
  from ok(2) w(1) have "st_files st (tmp_path s) = Some (Partial (w_sink w))"
    by (simp add: session_ok_def)
  with finish_alone [OF qu assms(4)] s st1 w ok(1) assms(3) show ?thesis
    by (simp add: finish_locked_def session_drop_def Let_def)
qed

theorem retry_after_failed_close_publishes_partial_witness:
  "\<exists>st1 st2. finish_session broken_close_ops good_io ''s'' sample_store =
      (Inl (FinaliseFailed (ArrowClose ''no space left'')), st1) \<and>
    finish_session broken_close_ops good_io ''s'' st1 = (Inr (''/d'', ''discovery_data.parquet'', 2), st2) \<and>
    st_files st2 sample_final = Some (Partial [example_batch])"
proof -
  obtain r st1 where f: "finish_session broken_close_ops good_io ''s'' sample_store = (r, st1)" by force
  have "quiet sample_store" using reachable_ok [OF sample_reached [of broken_close_ops]] by simp
  moreover have "\<exists>s' fs'. finish_locked broken_close_ops good_io sample_session (st_files sample_store) =
      (Inl (FinaliseFailed (ArrowClose ''no space left'')), s', fs')"
    by (simp add: finish_locked_def sample_session_def writer_finish_def broken_close_ops_def Let_def)
  moreover have two: "ss_records_written sample_session = 2" "ss_temp_dir sample_session = ''/d''"
    by (simp_all add: sample_session_def)
  ultimately have r: "r = Inl (FinaliseFailed (ArrowClose ''no space left''))"
    using finish_alone [of sample_store broken_close_ops good_io "''s''" r st1] f
    by (auto simp: sample_facts)
  obtain r2 st2 where f2: "finish_session broken_close_ops good_io ''s'' st1 = (r2, st2)" by force
  have "\<forall>w. ss_writer sample_session = Some w \<longrightarrow> w_sink w = [example_batch]"
    by (simp add: sample_session_def sample_open_writer_def)
  with retry_after_failed_close_publishes_partial [OF sample_reached [of broken_close_ops]
      f [unfolded r] _ f2] f f2 r two
  show ?thesis by (auto simp: sample_facts good_io_def)
qed

section \<open>Interleaved calls\<close>

text \<open>
  The calls in flight are a multiset of program points; a step takes one of them to its next
  lock boundary, or starts a call, cancels, or opens a session.
\<close>

datatype task =
    AppendResolved nat string "batch_input list"
  | AppendWriting nat string nat
  | FinishResolved nat string
  | FinishOver nat string

inductive conc_step :: "'w arrow_ops \<Rightarrow> 'w store \<times> task multiset \<Rightarrow> 'w store \<times> task multiset \<Rightarrow> bool"
  for ops where
  resolve_append: "session_handle st sid = Some h \<Longrightarrow>
    conc_step ops (st, T) (hold h st, add_mset (AppendResolved h sid bs) T)"
| write_ok: "h \<notin> st_locked st \<Longrightarrow> append_write ops h sid bs st = (Inr n, st') \<Longrightarrow>
    conc_step ops (st, add_mset (AppendResolved h sid bs) T) (st', add_mset (AppendWriting h sid n) T)"
| write_fails: "h \<notin> st_locked st \<Longrightarrow> append_write ops h sid bs st = (Inl e, st') \<Longrightarrow>
    conc_step ops (st, add_mset (AppendResolved h sid bs) T) (unhold io h st', T)"
| acknowledge: "append_ack h sid n st = (r, st') \<Longrightarrow>
    conc_step ops (st, add_mset (AppendWriting h sid n) T) (unhold io h st', T)"
| resolve_finish: "session_handle st sid = Some h \<Longrightarrow>
    conc_step ops (st, T) (hold h st, add_mset (FinishResolved h sid) T)"
| finish_ends: "h \<notin> st_locked st \<Longrightarrow> finish_region ops io h sid st = (r, True, st') \<Longrightarrow>
    conc_step ops (st, add_mset (FinishResolved h sid) T) (st', add_mset (FinishOver h sid) T)"
| finish_fails: "h \<notin> st_locked st \<Longrightarrow> finish_region ops io h sid st = (r, False, st') \<Longrightarrow>
    conc_step ops (st, add_mset (FinishResolved h sid) T) (unhold io h st', T)"
| finish_retires:
    "conc_step ops (st, add_mset (FinishOver h sid) T) (unhold io h (retire io h sid st), T)"
| cancel: "cancel_session io sid st = (r, st') \<Longrightarrow> conc_step ops (st, T) (st', T)"
| start: "start_session ops io ttl now sid c dir st = (r, st') \<Longrightarrow> conc_step ops (st, T) (st', T)"

inductive_cases conc_stepE: "conc_step ops (st, T) (st', T')"

text \<open>A handle whose entry is gone or tombstoned with \<open>n\<close> acknowledged records.\<close>

definition frozen :: "nat \<Rightarrow> nat \<Rightarrow> 'w store \<Rightarrow> bool" where
  "frozen h n st \<longleftrightarrow> h < st_next st \<and>
     (case st_entries st h of None \<Rightarrow> True
      | Some e \<Rightarrow> e_cancelled e \<and> ss_records_written (e_session e) = n)"

lemma frozen_simps [simp]:
  "frozen h n (hold h' st) = frozen h n st"
  "frozen h n (remove_from_map sid st) = frozen h n st"
  "frozen h n (st\<lparr>st_files := fs\<rparr>) = frozen h n st"
  "frozen h n (st\<lparr>st_locked := L\<rparr>) = frozen h n st"
  "frozen h n (st\<lparr>st_holds := H\<rparr>) = frozen h n st"
  by (simp_all add: frozen_def hold_def remove_from_map_def)

lemma frozen_release: "frozen h n st \<Longrightarrow> frozen h n (release io h' st)"
  by (auto simp: frozen_def release_def split: option.splits)

lemma frozen_unhold: "frozen h n st \<Longrightarrow> frozen h n (unhold io h' st)"
  by (simp add: unhold_def frozen_release)

lemma frozen_cancel_entry: "frozen h n st \<Longrightarrow> frozen h n (cancel_entry h' st)"
  by (auto simp: frozen_def cancel_entry_def split: option.splits)

lemma frozen_set_session:
  "frozen h n st \<Longrightarrow>
   (h' = h \<Longrightarrow> \<forall>e. st_entries st h = Some e \<longrightarrow> ss_records_written s = ss_records_written (e_session e)) \<Longrightarrow>
   frozen h n (set_session h' s st)"
  by (auto simp: frozen_def set_session_def split: option.splits)

lemmas frozen_intros = frozen_release frozen_unhold frozen_cancel_entry frozen_set_session

lemma frozen_append_write:
  assumes "frozen h n st" "append_write ops h' sid bs st = (r, st')"
  shows "frozen h n st'"
  using assms
  by (auto simp: append_write_def Let_def intro!: frozen_set_session
      split: option.splits if_splits prod.splits sum.splits)

lemma frozen_append_ack:
  assumes "frozen h n st" "append_ack h' sid k st = (r, st')"
  shows "frozen h n st'"
proof (cases "h' = h")
  case True
  with assms show ?thesis
    by (auto simp: append_ack_def Let_def frozen_def split: option.splits if_splits)
next
  case False
  with assms show ?thesis
    by (auto simp: append_ack_def Let_def intro!: frozen_set_session split: option.splits if_splits)
qed

lemma finish_locked_records: "finish_locked ops io s fs = (r, s', fs') \<Longrightarrow> ss_records_written s' = ss_records_written s"
  by (auto simp: finish_locked_def Let_def split: option.splits sum.splits)

lemma frozen_finish_region:
  assumes "frozen h n st" "finish_region ops io h' sid st = (r, over, st')"
  shows "frozen h n st'"
  using assms
  by (auto simp: finish_region_def Let_def intro!: frozen_set_session 
      split: option.splits if_splits prod.splits sum.splits)
     (metis finish_locked_records)+

lemma frozen_fold:
  assumes "\<And>x st. frozen h n st \<Longrightarrow> frozen h n (f x st)"
  shows "frozen h n st \<Longrightarrow> frozen h n (fold f xs st)"
  by (induction xs arbitrary: st) (auto intro: assms)

lemma frozen_cleanup: "frozen h n st \<Longrightarrow> frozen h n (cleanup_stale_sessions io ttl now st)"
  unfolding cleanup_stale_sessions_def Let_def
  by (intro frozen_fold) (auto intro: frozen_intros)

lemma frozen_start:
  assumes "frozen h n st" "start_session ops io ttl now sid c dir st = (r, st')"
  shows "frozen h n st'"
proof -
  have "frozen h n (cleanup_stale_sessions io ttl now st)" using assms(1) by (rule frozen_cleanup)
  then have add: "frozen h n ((cleanup_stale_sessions io ttl now st)
      \<lparr>st_sessions := x, st_entries := (st_entries (cleanup_stale_sessions io ttl now st))
         (st_next (cleanup_stale_sessions io ttl now st) \<mapsto> e),
       st_next := Suc (st_next (cleanup_stale_sessions io ttl now st)), st_files := fs\<rparr>)" for x e fs
    by (auto simp: frozen_def)
  with assms frozen_cleanup [OF assms(1)] show ?thesis
    by (auto simp: start_session_def Let_def intro: frozen_release
        split: option.splits if_splits prod.splits sum.splits)
qed

lemma frozen_step: "conc_step ops (st, T) (st', T') \<Longrightarrow> frozen h n st \<Longrightarrow> frozen h n st'"
  by (erule conc_stepE)
     (auto intro!: frozen_intros intro: frozen_start frozen_append_write frozen_append_ack frozen_finish_region
      simp: retire_def cancel_session_def split: option.splits)

lemma frozen_steps: "(conc_step ops)\<^sup>*\<^sup>* c c' \<Longrightarrow> frozen h n (fst c) \<Longrightarrow> frozen h n (fst c')"
proof (induction rule: rtranclp_induct)
  case (step c c')
  then show ?case using frozen_step [of ops "fst c" "snd c" "fst c'" "snd c'"] by simp
qed simp

text \<open>
  A tombstone is final: once the entry behind a handle is cancelled, no interleaving of
  calls in flight with new calls, cancellations, sweeps and sessions acknowledges another record
  through that handle or lifts the tombstone.
\<close>
theorem tombstone_freezes_record_count:
  assumes "(conc_step ops)\<^sup>*\<^sup>* (st, T) (st', T')"
    and "st_entries st h = Some e" "e_cancelled e" "h < st_next st"
  shows "case st_entries st' h of None \<Rightarrow> True
    | Some e' \<Rightarrow> e_cancelled e' \<and> ss_records_written (e_session e') = ss_records_written (e_session e)"
  using frozen_steps [OF assms(1), of h "ss_records_written (e_session e)"] assms(2-4)
  by (simp add: frozen_def)

lemma sample_cancel:
  "cancel_session good_io ''s'' (hold 0 sample_store) = (Inr (), cancel_entry 0 (remove_from_map ''s'' (hold 0 sample_store)))"
proof -
  have "session_handle (hold 0 sample_store) ''s'' = Some 0" by (simp add: sample_facts)
  then show ?thesis
    by (simp add: cancel_session_def release_def cancel_entry_def remove_from_map_def hold_def)
qed

theorem tombstone_freezes_record_count_witness:
  "\<exists>st2. (conc_step log_ops)\<^sup>*\<^sup>* (hold 0 sample_store, {#AppendResolved 0 ''s'' sample_batches_in#}) (st2, {#}) \<and>
     (case st_entries st2 0 of None \<Rightarrow> True
      | Some e' \<Rightarrow> e_cancelled e' \<and> ss_records_written (e_session e') = 2)"
proof -
  let ?st = "cancel_entry 0 (remove_from_map ''s'' (hold 0 sample_store))"
  have e: "st_entries ?st 0 = Some \<lparr>e_cancelled = True, e_session = sample_session\<rparr>" "st_next ?st = 1"
    "st_locked ?st = {}"
    by (simp_all add: cancel_entry_def remove_from_map_def hold_def sample_store_def)
  let ?st2 = "unhold good_io 0 ?st"
  have "conc_step log_ops (hold 0 sample_store, {#AppendResolved 0 ''s'' sample_batches_in#})
      (?st, {#AppendResolved 0 ''s'' sample_batches_in#})"
    by (rule conc_step.cancel [OF sample_cancel])
  moreover have last: "conc_step log_ops (?st, {#AppendResolved 0 ''s'' sample_batches_in#}) (?st2, {#})"
    by (rule conc_step.write_fails) (simp_all add: append_write_def e)
  ultimately have "(conc_step log_ops)\<^sup>*\<^sup>* (hold 0 sample_store, {#AppendResolved 0 ''s'' sample_batches_in#})
      (?st2, {#})" by (meson converse_rtranclp_into_rtranclp r_into_rtranclp)
  moreover have "ss_records_written sample_session = 2" by (simp add: sample_session_def)
  ultimately show ?thesis
    using tombstone_freezes_record_count [OF r_into_rtranclp [where r = "conc_step log_ops", OF last] e(1)] e(2)
    by (intro exI [of _ ?st2] conjI) (simp_all split: option.splits)
qed

text \<open>
  Cancellation does not stop a finish in flight: a \<open>finish_session\<close> that resolved its handle
  before \<open>cancel_session\<close> returned \<open>Ok\<close> still publishes the cancelled recording and succeeds,
  because its locked region looks at neither the tombstone nor the map.
\<close>
theorem cancel_does_not_stop_finish:
  assumes "api_reach ops st" "sess_map st sid = Some s" "0 < ss_records_written s"
    and "ss_writer s = Some w" "aw_close ops (w_sink w) = Inr sink" "io_rename io = None"
  shows "\<exists>h st1 T st2. (conc_step ops)\<^sup>*\<^sup>* (st, {#}) (st1, {#FinishResolved h sid#}) \<and>
    cancel_session io sid (hold h st) = (Inr (), st1) \<and> session_handle st1 sid = None \<and>
    conc_step ops (st1, {#FinishResolved h sid#}) (st2, T) \<and>
    finish_region ops io h sid st1 =
      (Inr (ss_temp_dir s, ''discovery_data.parquet'', ss_records_written s), True, st2) \<and>
    st_files st2 (ss_parquet_path s) = Some (Complete sink)"
proof -
  from reachable_ok [OF assms(1)] have q: "quiet st" and ok: "session_ok ops (st_files st) s"
    using assms(2) by (auto simp: abs_ok_def abs_of_def)
  from assms(2) obtain h where h: "session_handle st sid = Some h" by (auto simp: sess_map_def split: option.splits)
  with q assms(2) obtain e where e: "st_entries st h = Some e" "e_session e = s" "h \<in> snd ` set (st_sessions st)"
    by (metis quiet_handle option.inject)
  let ?st1 = "cancel_entry h (remove_from_map sid (hold h st))"
  have c: "cancel_session io sid (hold h st) = (Inr (), ?st1)"
  proof -
    have "session_handle (hold h st) sid = Some h" using h by simp
    then show ?thesis
      by (simp add: cancel_session_def release_def cancel_entry_def remove_from_map_def hold_def)
  qed
  have st1: "st_entries ?st1 h = Some (e\<lparr>e_cancelled := True\<rparr>)" "st_files ?st1 = st_files st" "st_locked ?st1 = {}"
    using e q by (simp_all add: cancel_entry_def remove_from_map_def hold_def quiet_def)
  have "writer_finish ops w = Inr sink" using assms(5) by (simp add: writer_finish_def)
  moreover have "tmp_path s \<in> dom (st_files st)" by (rule session_ok_tmp [OF ok])
  ultimately have fl: "\<exists>s' fs'. finish_locked ops io s (st_files st) = (Inr (), s', fs') \<and>
      fs' (ss_parquet_path s) = Some (Complete sink) \<and> ss_temp_dir s' = ss_temp_dir s \<and>
      ss_records_written s' = ss_records_written s"
    using assms(4,6) by (simp add: finish_locked_def Let_def)
  then obtain st2 where st2: "finish_region ops io h sid ?st1 =
      (Inr (ss_temp_dir s, ''discovery_data.parquet'', ss_records_written s), True, st2)"
    "st_files st2 (ss_parquet_path s) = Some (Complete sink)"
    using st1 e assms(3) by (auto simp: finish_region_def Let_def)
  have "(conc_step ops)\<^sup>*\<^sup>* (st, {#}) (?st1, {#FinishResolved h sid#})"
    using conc_step.resolve_finish [OF h] conc_step.cancel [OF c] by (meson converse_rtranclp_into_rtranclp r_into_rtranclp)
  moreover have "conc_step ops (?st1, {#FinishResolved h sid#}) (st2, {#FinishOver h sid#})"
    by (rule conc_step.finish_ends [OF _ st2(1)]) (simp add: st1)
  moreover have "session_handle ?st1 sid = None" by simp
  ultimately show ?thesis using c st2 by blast
qed

theorem cancel_does_not_stop_finish_witness:
  "\<exists>st1 st2 h. cancel_session good_io ''s'' (hold h sample_store) = (Inr (), st1) \<and>
     finish_region log_ops good_io h ''s'' st1 = (Inr (''/d'', ''discovery_data.parquet'', 2), True, st2) \<and>
     st_files st2 sample_final = Some (Complete [example_batch])"
proof -
  have "ss_writer sample_session = Some sample_open_writer" "ss_records_written sample_session = 2"
    "ss_temp_dir sample_session = ''/d''"
    "aw_close log_ops (w_sink sample_open_writer) = Inr [example_batch]"
    by (simp_all add: sample_session_def log_ops_def sample_open_writer_def)
  with cancel_does_not_stop_finish [OF sample_reached [of log_ops], of "''s''" sample_session
      sample_open_writer "[example_batch]" good_io]
  show ?thesis by (auto simp: sample_facts good_io_def)
qed

end
