(* ===== verification/Serialise.thy ===== *)
theory Serialise
  imports Recording
begin

text \<open>
  The byte format of the compressed record cache (\<open>src/analysis/cache/serialisation.rs\<close>): the
  writer with its length-prefix checks, the positional reader with its truncation errors, lossy
  UTF-8 decoding of identifiers, and the cache entry around the LZ4 codec, which is a parameter.

  The locale \<open>codec\<close> states what a field's writer and reader promise each other; it is
  interpreted for every field type of the format and for whole records.
\<close>

section \<open>Bytes of strings\<close>

definition byte_of :: "char \<Rightarrow> u8" where "byte_of c = word_of_nat (of_char c)"
definition char_of_byte :: "u8 \<Rightarrow> char" where "char_of_byte b = char_of (unat b)"

definition string_bytes :: "string \<Rightarrow> u8 list" where "string_bytes s = map byte_of s"
definition bytes_string :: "u8 list \<Rightarrow> string" where "bytes_string bs = map char_of_byte bs"

lemma char_byte [simp]: "char_of_byte (byte_of c) = c"
proof -
  have "(of_char c :: nat) < 2 ^ 8" by simp
  then have "unat (byte_of c) = of_char c" unfolding byte_of_def by (simp only: unat_of_nat) simp
  then show ?thesis by (simp add: char_of_byte_def)
qed

lemma byte_char [simp]: "byte_of (char_of_byte b) = b"
proof -
  have "unat b < 256" using unat_lt_length [of b] by simp
  then show ?thesis by (simp add: byte_of_def char_of_byte_def of_char_of take_bit_nat_eq_self)
qed

lemma string_bytes_inverse [simp, codec_simps]:
  "bytes_string (string_bytes s) = s" "string_bytes (bytes_string bs) = bs"
  by (simp_all add: string_bytes_def bytes_string_def comp_def map_idI)

lemma length_string_bytes [simp]: "length (string_bytes s) = length s"
  by (simp add: string_bytes_def)

section \<open>Lossy UTF-8\<close>

text \<open>
  The head of a byte string: whether it starts with a well-formed sequence, and how many bytes
  that sequence, or the maximal ill-formed part, takes.
\<close>

definition byte_in :: "nat \<Rightarrow> nat \<Rightarrow> u8 list \<Rightarrow> nat \<Rightarrow> bool" where
  "byte_in lo hi bs i \<longleftrightarrow> i < length bs \<and> lo \<le> unat (bs ! i) \<and> unat (bs ! i) \<le> hi"

definition second_range :: "nat \<Rightarrow> nat \<times> nat" where
  "second_range b =
     (if b = 0xE0 then (0xA0, 0xBF) else if b = 0xED then (0x80, 0x9F)
      else if b = 0xF0 then (0x90, 0xBF) else if b = 0xF4 then (0x80, 0x8F) else (0x80, 0xBF))"

definition utf8_step :: "u8 list \<Rightarrow> bool \<times> nat" where
  "utf8_step bs =
     (let b = unat (hd bs); (lo, hi) = second_range b in
      if b < 0x80 then (True, 1)
      else if 0xC2 \<le> b \<and> b \<le> 0xDF then
        (if byte_in 0x80 0xBF bs 1 then (True, 2) else (False, 1))
      else if 0xE0 \<le> b \<and> b \<le> 0xEF then
        (if \<not> byte_in lo hi bs 1 then (False, 1)
         else if \<not> byte_in 0x80 0xBF bs 2 then (False, 2) else (True, 3))
      else if 0xF0 \<le> b \<and> b \<le> 0xF4 then
        (if \<not> byte_in lo hi bs 1 then (False, 1)
         else if \<not> byte_in 0x80 0xBF bs 2 then (False, 2)
         else if \<not> byte_in 0x80 0xBF bs 3 then (False, 3) else (True, 4))
      else (False, 1))"

lemma utf8_step_pos: "0 < snd (utf8_step bs)"
  by (simp add: utf8_step_def Let_def split: prod.split)

definition replacement_character :: "u8 list" where
  "replacement_character = [0xEF, 0xBF, 0xBD]"

text \<open>\<open>String::from_utf8_lossy\<close> on bytes.\<close>

function utf8_lossy :: "u8 list \<Rightarrow> u8 list" where
  "utf8_lossy bs =
     (if bs = [] then []
      else (case utf8_step bs of
              (True, n) \<Rightarrow> take n bs
            | (False, n) \<Rightarrow> replacement_character) @ utf8_lossy (drop (snd (utf8_step bs)) bs))"
  by pat_completeness auto
termination
  by (relation "measure length") (use utf8_step_pos in \<open>auto intro!: diff_less\<close>)

function utf8_valid :: "u8 list \<Rightarrow> bool" where
  "utf8_valid bs =
     (if bs = [] then True
      else if fst (utf8_step bs) then utf8_valid (drop (snd (utf8_step bs)) bs) else False)"
  by pat_completeness auto
termination
  by (relation "measure length") (use utf8_step_pos in \<open>auto intro!: diff_less\<close>)

declare utf8_lossy.simps [simp del] utf8_valid.simps [simp del]

lemma utf8_lossy_valid: "utf8_valid bs \<Longrightarrow> utf8_lossy bs = bs"
proof (induction bs rule: utf8_lossy.induct)
  case (1 bs)
  show ?case
  proof (cases "bs = []")
    case True
    then show ?thesis by (simp add: utf8_lossy.simps)
  next
    case False
    with 1 have "fst (utf8_step bs)" "utf8_lossy (drop (snd (utf8_step bs)) bs) = drop (snd (utf8_step bs)) bs"
      by (simp_all add: utf8_valid.simps [of bs] split: if_splits)
    with False show ?thesis
      by (cases "utf8_step bs") (auto simp: utf8_lossy.simps [of bs] split: bool.splits)
  qed
qed

text \<open>The decoder's output is well formed whatever its input.\<close>

lemma byte_in_length: "byte_in lo hi bs i \<Longrightarrow> Suc i \<le> length bs"
  by (simp add: byte_in_def Suc_le_eq)

lemma utf8_step_length:
  assumes "utf8_step bs = (True, n)" "bs \<noteq> []"
  shows "n \<le> length bs"
proof -
  have "Suc 0 \<le> length bs" using assms(2) by (cases bs) simp_all
  with assms(1) show ?thesis
    by (auto simp: utf8_step_def Let_def numeral_eq_Suc dest: byte_in_length split: if_splits prod.splits)
qed

lemma utf8_step_take:
  assumes "utf8_step bs = (True, n)" "bs \<noteq> []"
  shows "utf8_step (take n bs @ rest) = (True, n)"
proof -
  have n: "0 < n" using utf8_step_pos [of bs] assms(1) by simp
  then have hd: "hd (take n bs @ rest) = hd bs" using assms(2) by (cases bs; cases n) auto
  have at: "byte_in lo hi (take n bs @ rest) i = byte_in lo hi bs i" if "i < n" for lo hi i
    using that utf8_step_length [OF assms] by (auto simp: byte_in_def nth_append)
  obtain lo hi where r: "second_range (unat (hd bs)) = (lo, hi)" by force
  have "n = 1 \<and> unat (hd bs) < 0x80 \<or>
    n = 2 \<and> 0xC2 \<le> unat (hd bs) \<and> unat (hd bs) \<le> 0xDF \<and> byte_in 0x80 0xBF bs 1 \<or>
    n = 3 \<and> 0xE0 \<le> unat (hd bs) \<and> unat (hd bs) \<le> 0xEF \<and> byte_in lo hi bs 1 \<and> byte_in 0x80 0xBF bs 2 \<or>
    n = 4 \<and> 0xF0 \<le> unat (hd bs) \<and> unat (hd bs) \<le> 0xF4 \<and> byte_in lo hi bs 1 \<and>
      byte_in 0x80 0xBF bs 2 \<and> byte_in 0x80 0xBF bs 3"
    using assms(1) by (simp add: utf8_step_def Let_def r split: if_split_asm)
  moreover obtain xs where xs: "xs = take n bs @ rest" by simp
  with hd at have "hd xs = hd bs" "\<And>i lo hi. i < n \<Longrightarrow> byte_in lo hi xs i = byte_in lo hi bs i"
    by simp_all
  ultimately have "utf8_step xs = (True, n)"
    by (elim disjE conjE) (simp_all add: utf8_step_def Let_def r)
  with xs show ?thesis by simp
qed

lemma utf8_valid_prepend:
  assumes "utf8_step bs = (True, n)" "bs \<noteq> []" "utf8_valid rest"
  shows "utf8_valid (take n bs @ rest)"
  using utf8_step_take [OF assms(1,2), of rest] utf8_step_length [OF assms(1,2)] assms
  by (subst utf8_valid.simps) simp

lemma utf8_valid_lossy: "utf8_valid (utf8_lossy bs)"
proof (induction bs rule: utf8_lossy.induct)
  case (1 bs)
  show ?case
  proof (cases "bs = []")
    case True
    then show ?thesis by (simp add: utf8_lossy.simps utf8_valid.simps)
  next
    case False
    obtain ok n where s: "utf8_step bs = (ok, n)" by force
    have "utf8_step replacement_character = (True, 3)"
      by (simp add: utf8_step_def replacement_character_def byte_in_def second_range_def)
    then have "utf8_valid (replacement_character @ rest)" if "utf8_valid rest" for rest
      using utf8_valid_prepend [of replacement_character 3 rest] that
      by (simp add: replacement_character_def)
    with 1 False s utf8_valid_prepend [of bs n] show ?thesis
      by (cases ok) (auto simp: utf8_lossy.simps [of bs])
  qed
qed

section \<open>Writing\<close>

datatype cache_error =
    LengthOverflow string nat
  | CacheTruncated nat string
  | DecompressFailed string

definition push_len_u16 :: "u8 list \<Rightarrow> nat \<Rightarrow> string \<Rightarrow> cache_error + u8 list" where
  "push_len_u16 buf len field =
     (if 65535 < len then Inl (LengthOverflow field len)
      else Inr (buf @ u16_to_le (word_of_nat len)))"

definition value_bytes :: "f32 option \<Rightarrow> u8 list" where
  "value_bytes v = (case v of Some v \<Rightarrow> 1 # u32_to_le v | None \<Rightarrow> [0])"

definition serialise_record :: "u8 list \<Rightarrow> discover_record \<Rightarrow> cache_error + u8 list" where
  "serialise_record buf r =
     (let buf = buf @ u32_to_le (r_obs r); uuid_bytes = string_bytes (r_uuid r) in
      and_then (push_len_u16 buf (length uuid_bytes) ''neuron_uuid'') (\<lambda>buf.
        let buf = buf @ uuid_bytes @ value_bytes (r_value r) @ u32_to_le (r_activation r) in
        and_then (push_len_u16 buf (length (r_errors r)) ''errors'') (\<lambda>buf.
          Inr (buf @ concat (map u32_to_le (r_errors r))))))"

definition serialise_records :: "discover_record list \<Rightarrow> cache_error + u8 list" where
  "serialise_records rs = fold_res serialise_record [] rs"

section \<open>Reading\<close>

text \<open>A reader takes the data and a position and gives a value and the next position.\<close>

type_synonym 'a reader = "u8 list \<Rightarrow> nat \<Rightarrow> cache_error + 'a \<times> nat"

definition then_read :: "'a reader \<Rightarrow> ('a \<Rightarrow> 'b reader) \<Rightarrow> 'b reader" where
  "then_read f g data pos = and_then (f data pos) (\<lambda>(a, pos'). g a data pos')"

definition returning :: "'a \<Rightarrow> 'a reader" where
  "returning a data pos = Inr (a, pos)"

definition read_bytes :: "string \<Rightarrow> nat \<Rightarrow> u8 list reader" where
  "read_bytes what n data pos =
     (if length data < pos + n then Inl (CacheTruncated pos what)
      else Inr (take n (drop pos data), pos + n))"

definition read_u32 :: "string \<Rightarrow> u32 reader" where
  "read_u32 what = then_read (read_bytes what 4) (\<lambda>bs. returning (u32_from_le bs))"

definition read_u16 :: "string \<Rightarrow> nat reader" where
  "read_u16 what = then_read (read_bytes what 2) (\<lambda>bs. returning (unat (u16_from_le bs)))"

definition read_uuid :: "string reader" where
  "read_uuid =
     then_read (read_u16 ''uuid_len'') (\<lambda>uuid_len.
     then_read (read_bytes ''UUID'' uuid_len) (\<lambda>bs. returning (bytes_string (utf8_lossy bs))))"

definition read_value :: "f32 option reader" where
  "read_value =
     then_read (read_bytes ''has_value flag'' 1) (\<lambda>flag.
       if flag = [1] then then_read (read_u32 ''value'') (\<lambda>v. returning (Some v)) else returning None)"

fun read_many :: "'a reader \<Rightarrow> nat \<Rightarrow> 'a list reader" where
  "read_many rd 0 = returning []"
| "read_many rd (Suc n) =
     then_read rd (\<lambda>x. then_read (read_many rd n) (\<lambda>xs. returning (x # xs)))"

text \<open>The \<open>errors_len\<close> values, after the check that all their bytes are there.\<close>

definition read_floats :: "nat \<Rightarrow> f32 list reader" where
  "read_floats n = read_many (read_u32 ''errors'') n"

definition read_errors :: "f32 list reader" where
  "read_errors =
     then_read (read_u16 ''errors_len'') (\<lambda>errors_len data pos.
       if length data < pos + errors_len * 4 then Inl (CacheTruncated pos ''errors'')
       else read_floats errors_len data pos)"

definition read_record :: "discover_record reader" where
  "read_record =
     then_read (read_u32 ''obs_index'') (\<lambda>obs_index.
     then_read read_uuid (\<lambda>neuron_uuid.
     then_read read_value (\<lambda>value.
     then_read (read_u32 ''activation'') (\<lambda>activation.
     then_read read_errors (\<lambda>errors.
       returning (new_record obs_index neuron_uuid value activation errors))))))"

text \<open>Readers move forward and stay inside the data.\<close>

definition forward :: "nat \<Rightarrow> 'a reader \<Rightarrow> bool" where
  "forward k f \<longleftrightarrow> (\<forall>data pos a pos'. pos \<le> length data \<longrightarrow> f data pos = Inr (a, pos') \<longrightarrow>
     pos + k \<le> pos' \<and> pos' \<le> length data)"

lemma forward_then: "forward k f \<Longrightarrow> (\<And>a. forward 0 (g a)) \<Longrightarrow> forward k (then_read f g)"
proof -
  assume f: "forward k f" and g: "\<And>a. forward 0 (g a)"
  show "forward k (then_read f g)"
    unfolding forward_def
  proof (intro allI impI)
    fix data pos a pos'
    assume pos: "pos \<le> length data" and r: "then_read f g data pos = Inr (a, pos')"
    from r obtain b p where "f data pos = Inr (b, p)" "g b data p = Inr (a, pos')"
      by (auto simp: then_read_def)
    with f pos have "pos + k \<le> p \<and> p \<le> length data" unfolding forward_def by blast
    moreover from this have "p + 0 \<le> pos' \<and> pos' \<le> length data"
      using g [of b] \<open>g b data p = Inr (a, pos')\<close> unfolding forward_def by blast
    ultimately show "pos + k \<le> pos' \<and> pos' \<le> length data" by linarith
  qed
qed

lemma forward_returning: "forward 0 (returning a)"
  by (simp add: forward_def returning_def)

lemma forward_bytes: "forward n (read_bytes what n)"
  by (auto simp: forward_def read_bytes_def split: if_splits)

lemma forward_mono: "forward k f \<Longrightarrow> forward 0 f"
  unfolding forward_def by fastforce

lemma forward_u32: "forward 4 (read_u32 what)"
  unfolding read_u32_def by (intro forward_then forward_bytes forward_returning)

lemma forward_u16: "forward 2 (read_u16 what)"
  unfolding read_u16_def by (intro forward_then forward_bytes forward_returning)

lemma forward_many: "forward 0 rd \<Longrightarrow> forward 0 (read_many rd n)"
proof (induction n)
  case 0
  then show ?case by (simp add: forward_returning)
next
  case (Suc n)
  show ?case
    by (simp, rule forward_then [OF Suc.prems forward_then [OF Suc.IH [OF Suc.prems] forward_returning]])
qed

lemma forward_floats: "forward 0 (read_floats n)"
  unfolding read_floats_def by (rule forward_many [OF forward_mono [OF forward_u32]])

lemma forward_guard: "forward k f \<Longrightarrow> forward k (\<lambda>data pos. if P data pos then Inl (e data pos) else f data pos)"
  unfolding forward_def by (metis Inl_Inr_False)

lemma forward_if: "forward k f \<Longrightarrow> forward k g \<Longrightarrow> forward k (if b then f else g)"
  by simp

lemma forward_value: "forward 0 read_value"
  unfolding read_value_def
  by (rule forward_then [OF forward_mono [OF forward_bytes]], rule forward_if,
      rule forward_then [OF forward_mono [OF forward_u32] forward_returning], rule forward_returning)

lemma forward_uuid: "forward 0 read_uuid"
  unfolding read_uuid_def
  by (rule forward_then [OF forward_mono [OF forward_u16]],
      rule forward_then [OF forward_mono [OF forward_bytes] forward_returning])

lemma forward_errors: "forward 0 read_errors"
proof -
  have "forward 0 (\<lambda>data pos. if length data < pos + n * 4 then Inl (CacheTruncated pos ''errors'')
      else read_floats n data pos)" for n
    by (rule forward_guard [OF forward_floats])
  then show ?thesis
    unfolding read_errors_def by (rule forward_then [OF forward_mono [OF forward_u16]])
qed

lemma forward_record: "forward 4 read_record"
  unfolding read_record_def
  by (rule forward_then [OF forward_u32], rule forward_then [OF forward_uuid],
      rule forward_then [OF forward_value], rule forward_then [OF forward_mono [OF forward_u32]],
      rule forward_then [OF forward_errors forward_returning])

text \<open>The loop of \<open>deserialise_records\<close>.\<close>

function deserialise_from :: "u8 list \<Rightarrow> nat \<Rightarrow> discover_record list \<Rightarrow> cache_error + discover_record list" where
  "deserialise_from data pos records =
     (if pos < length data then
        case read_record data pos of
          Inl e \<Rightarrow> Inl e
        | Inr (r, pos') \<Rightarrow> deserialise_from data pos' (records @ [r])
      else Inr records)"
  by pat_completeness auto
termination
proof (relation "measure (\<lambda>(data, pos, _). length data - pos)", simp, clarsimp)
  fix data pos r pos' assume "pos < length data" "read_record data pos = Inr (r, pos')"
  then have "pos + 4 \<le> pos'"
    using forward_record unfolding forward_def by (meson less_imp_le)
  with \<open>pos < length data\<close> show "length data - pos' < length data - pos" by linarith
qed

declare deserialise_from.simps [simp del]

definition deserialise_records :: "u8 list \<Rightarrow> cache_error + discover_record list" where
  "deserialise_records data = deserialise_from data 0 []"

section \<open>What a writer and a reader promise each other\<close>

text \<open>
  \<open>reads bs rd v\<close>: wherever \<open>bs\<close> stands in the data, \<open>rd\<close> reads \<open>v\<close> and stops right after it;
  when the data ends inside \<open>bs\<close> it reports an error.
\<close>

definition reads :: "u8 list \<Rightarrow> 'a reader \<Rightarrow> 'a \<Rightarrow> bool" where
  "reads bs rd v \<longleftrightarrow>
     (\<forall>pre rest. rd (pre @ bs @ rest) (length pre) = Inr (v, length pre + length bs)) \<and>
     (\<forall>pre k. k < length bs \<longrightarrow> (\<exists>e. rd (pre @ take k bs) (length pre) = Inl e))"

lemma reads_then:
  assumes "reads b1 f a" "reads b2 (g a) v"
  shows "reads (b1 @ b2) (then_read f g) v"
proof -
  have f: "f (pre @ b1 @ rest) (length pre) = Inr (a, length pre + length b1)" for pre rest
    using assms(1) by (simp add: reads_def)
  have g: "g a ((pre @ b1) @ b2 @ rest) (length (pre @ b1)) = Inr (v, length (pre @ b1) + length b2)" for pre rest
    using assms(2) unfolding reads_def by blast
  have "\<exists>e. then_read f g (pre @ take k (b1 @ b2)) (length pre) = Inl e" if "k < length (b1 @ b2)" for pre k
  proof (cases "k < length b1")
    case True
    with assms(1) obtain e where "f (pre @ take k b1) (length pre) = Inl e"
      unfolding reads_def by blast
    with True show ?thesis by (simp add: then_read_def)
  next
    case False
    with that have "k - length b1 < length b2" by simp
    with assms(2) obtain e where "g a ((pre @ b1) @ take (k - length b1) b2) (length (pre @ b1)) = Inl e"
      unfolding reads_def by blast
    with False f [of pre "take (k - length b1) b2"] show ?thesis by (simp add: then_read_def)
  qed
  then show ?thesis
    using f [of _ "b2 @ _"] g by (simp add: reads_def then_read_def add.assoc)
qed

lemma reads_returning: "reads [] (returning a) a"
  by (simp add: reads_def returning_def)

lemma reads_last: "reads b f a \<Longrightarrow> g a = returning v \<Longrightarrow> reads b (then_read f g) v"
  using reads_then [of b f a "[]" g v] reads_returning [of v] by simp

lemma reads_bytes: "length bs = n \<Longrightarrow> reads bs (read_bytes what n) bs"
  by (auto simp: reads_def read_bytes_def)

lemma reads_u32: "reads (u32_to_le x) (read_u32 what) x"
  unfolding read_u32_def by (rule reads_last [OF reads_bytes]) simp_all

lemma reads_u16: "n \<le> 65535 \<Longrightarrow> reads (u16_to_le (word_of_nat n)) (read_u16 what) n"
  unfolding read_u16_def by (rule reads_last [OF reads_bytes]) (simp_all add: unat_of_nat)

locale codec =
  fixes enc :: "'a \<Rightarrow> u8 list" and rd :: "'a reader" and ok :: "'a \<Rightarrow> bool"
  assumes reads_ok: "ok a \<Longrightarrow> reads (enc a) rd a"
begin

lemma read_back: "ok a \<Longrightarrow> rd (pre @ enc a @ rest) (length pre) = Inr (a, length pre + length (enc a))"
  using reads_ok unfolding reads_def by blast

lemma read_cut: "ok a \<Longrightarrow> k < length (enc a) \<Longrightarrow> \<exists>e. rd (pre @ take k (enc a)) (length pre) = Inl e"
  using reads_ok unfolding reads_def by blast

text \<open>No encoding is a proper prefix of another.\<close>

lemma prefix_free:
  assumes "ok a" "ok b" "enc a @ rest = enc b @ rest'"
  shows "a = b"
  using read_back [OF assms(1), of "[]" rest] read_back [OF assms(2), of "[]" rest'] assms(3)
  by simp

lemma read_many: "list_all ok xs \<Longrightarrow> reads (concat (map enc xs)) (read_many rd (length xs)) xs"
proof (induction xs)
  case Nil
  then show ?case by (simp add: reads_returning)
next
  case (Cons x xs)
  have "reads (concat (map enc xs)) (then_read (read_many rd (length xs)) (\<lambda>ys. returning (x # ys))) (x # xs)"
    by (rule reads_last) (use Cons in simp_all)
  with Cons.prems show ?case by (auto intro!: reads_then [OF reads_ok])
qed

end

interpretation u32c: codec u32_to_le "read_u32 what" "\<lambda>_. True" for what
  by unfold_locales (rule reads_u32)

interpretation u16c: codec "\<lambda>n. u16_to_le (word_of_nat n)" "read_u16 what" "\<lambda>n. n \<le> 65535" for what
  by unfold_locales (rule reads_u16)

definition uuid_bytes :: "string \<Rightarrow> u8 list" where
  "uuid_bytes s = u16_to_le (word_of_nat (length s)) @ string_bytes s"

definition errors_bytes :: "f32 list \<Rightarrow> u8 list" where
  "errors_bytes xs = u16_to_le (word_of_nat (length xs)) @ concat (map u32_to_le xs)"

text \<open>A Rust \<open>String\<close> is well-formed UTF-8.\<close>

definition rust_string :: "string \<Rightarrow> bool" where
  "rust_string s \<longleftrightarrow> utf8_valid (string_bytes s)"

interpretation uuidc: codec uuid_bytes read_uuid "\<lambda>s. length s \<le> 65535 \<and> rust_string s"
proof
  fix s assume s: "length s \<le> 65535 \<and> rust_string s"
  then have "returning (bytes_string (utf8_lossy (string_bytes s))) = returning s"
    by (simp add: rust_string_def utf8_lossy_valid)
  then have "reads (string_bytes s)
      (then_read (read_bytes ''UUID'' (length s)) (\<lambda>bs. returning (bytes_string (utf8_lossy bs)))) s"
    by (intro reads_last [OF reads_bytes]) simp_all
  with s show "reads (uuid_bytes s) read_uuid s"
    unfolding uuid_bytes_def read_uuid_def by (intro reads_then [OF reads_u16]) simp_all
qed

interpretation valuec: codec value_bytes read_value "\<lambda>_. True"
proof
  fix v :: "f32 option"
  show "reads (value_bytes v) read_value v"
  proof (cases v)
    case None
    have "reads [0] read_value None"
      unfolding read_value_def by (rule reads_last [OF reads_bytes]) simp_all
    with None show ?thesis by (simp add: value_bytes_def)
  next
    case (Some x)
    have "reads (u32_to_le x) (then_read (read_u32 ''value'') (\<lambda>v. returning (Some v))) (Some x)"
      by (rule reads_last [OF reads_u32]) simp
    then have "reads ([1] @ u32_to_le x) read_value (Some x)"
      unfolding read_value_def by (intro reads_then [OF reads_bytes]) simp_all
    with Some show ?thesis by (simp add: value_bytes_def)
  qed
qed

lemma length_concat_u32: "length (concat (map u32_to_le xs)) = 4 * length xs"
  by (induction xs) simp_all

interpretation errorsc: codec errors_bytes read_errors "\<lambda>xs. length xs \<le> 65535"
proof
  fix xs :: "f32 list" assume len: "length xs \<le> 65535"
  have many: "reads (concat (map u32_to_le xs)) (read_floats (length xs)) xs"
    unfolding read_floats_def by (rule u32c.read_many) (simp add: list_all_iff)
  then have "reads (concat (map u32_to_le xs)) (\<lambda>data pos.
      if length data < pos + length xs * 4 then Inl (CacheTruncated pos ''errors'')
      else read_floats (length xs) data pos) xs"
    by (auto simp: reads_def length_concat_u32)
  then show "reads (errors_bytes xs) read_errors xs"
    unfolding errors_bytes_def read_errors_def by (intro reads_then [OF reads_u16 [OF len]])
qed

definition record_bytes :: "discover_record \<Rightarrow> u8 list" where
  "record_bytes r = u32_to_le (r_obs r) @ uuid_bytes (r_uuid r) @ value_bytes (r_value r) @
     u32_to_le (r_activation r) @ errors_bytes (r_errors r)"

definition record_ok :: "discover_record \<Rightarrow> bool" where
  "record_ok r \<longleftrightarrow> length (r_uuid r) \<le> 65535 \<and> rust_string (r_uuid r) \<and> length (r_errors r) \<le> 65535"

interpretation recordc: codec record_bytes read_record record_ok
proof
  fix r :: discover_record assume ok: "record_ok r"
  have "returning (new_record (r_obs r) (r_uuid r) (r_value r) (r_activation r) (r_errors r)) = returning r"
    by (cases r) (simp add: new_record_def)
  with ok show "reads (record_bytes r) read_record r"
    unfolding record_bytes_def read_record_def record_ok_def
    by (intro reads_then [OF reads_u32] reads_then [OF uuidc.reads_ok] reads_then [OF valuec.reads_ok]
        reads_last [OF errorsc.reads_ok]) simp_all
qed

section \<open>The whole cache buffer\<close>

lemma serialise_record_Inr:
  "serialise_record buf r = Inr out \<longleftrightarrow>
     length (r_uuid r) \<le> 65535 \<and> length (r_errors r) \<le> 65535 \<and> out = buf @ record_bytes r"
  by (auto simp: serialise_record_def push_len_u16_def record_bytes_def uuid_bytes_def errors_bytes_def Let_def)

lemma serialise_fold_Inr:
  "fold_res serialise_record buf rs = Inr out \<longleftrightarrow>
     list_all (\<lambda>r. length (r_uuid r) \<le> 65535 \<and> length (r_errors r) \<le> 65535) rs \<and>
     out = buf @ concat (map record_bytes rs)"
  by (induction rs arbitrary: buf) (auto simp: serialise_record_Inr)

lemma record_bytes_pos: "0 < length (record_bytes r)"
  by (simp add: record_bytes_def)

lemma deserialise_back:
  "list_all record_ok rs \<Longrightarrow>
   deserialise_from (pre @ concat (map record_bytes rs)) (length pre) acc = Inr (acc @ rs)"
proof (induction rs arbitrary: pre acc)
  case Nil
  then show ?case by (simp add: deserialise_from.simps)
next
  case (Cons r rs)
  then have "read_record (pre @ record_bytes r @ concat (map record_bytes rs)) (length pre) =
      Inr (r, length pre + length (record_bytes r))" by (simp add: recordc.read_back)
  with Cons.IH [of "pre @ record_bytes r" "acc @ [r]"] Cons.prems record_bytes_pos [of r] show ?case
    by (subst deserialise_from.simps) simp
qed

lemma deserialise_cut:
  assumes "list_all record_ok rs" "k \<le> length (concat (map record_bytes rs))"
    and "deserialise_from (pre @ take k (concat (map record_bytes rs))) (length pre) acc = Inr out"
  shows "\<exists>j \<le> length rs. out = acc @ take j rs \<and> k = length (concat (map record_bytes (take j rs)))"
  using assms
proof (induction rs arbitrary: pre acc k)
  case Nil
  then show ?case by (simp add: deserialise_from.simps)
next
  case (Cons r rs)
  show ?case
  proof (cases "k < length (record_bytes r)")
    case True
    show ?thesis
    proof (cases "k = 0")
      case True
      with Cons.prems(3) show ?thesis by (auto simp: deserialise_from.simps intro!: exI [of _ 0])
    next
      case False
      from Cons.prems(1) True obtain e where
        "read_record (pre @ take k (record_bytes r)) (length pre) = Inl e"
        using recordc.read_cut by force
      with Cons.prems(3) True False show ?thesis by (subst (asm) deserialise_from.simps) simp
    qed
  next
    case False
    let ?k = "k - length (record_bytes r)" and ?rest = "concat (map record_bytes rs)"
    from Cons.prems(1) have "read_record (pre @ record_bytes r @ take ?k ?rest) (length pre) =
        Inr (r, length pre + length (record_bytes r))" by (simp add: recordc.read_back)
    with Cons.prems(3) False record_bytes_pos [of r]
    have "deserialise_from ((pre @ record_bytes r) @ take ?k ?rest) (length (pre @ record_bytes r)) (acc @ [r])
        = Inr out" by (subst (asm) deserialise_from.simps) simp
    moreover have "list_all record_ok rs" "?k \<le> length ?rest" using Cons.prems(1,2) False by auto
    ultimately obtain j where
      "j \<le> length rs" "out = (acc @ [r]) @ take j rs" "?k = length (concat (map record_bytes (take j rs)))"
      using Cons.IH by blast
    with False show ?thesis by (intro exI [of _ "Suc j"]) auto
  qed
qed

section \<open>Cache entries\<close>

text \<open>\<open>CompressedCacheEntry\<close>; \<open>compress\<close> and \<open>decompress\<close> are the LZ4 codec.\<close>

record cache_entry =
  ce_data :: "u8 list"
  ce_size :: nat
  ce_last_access :: instant

definition entry_new ::
  "(u8 list \<Rightarrow> u8 list) \<Rightarrow> instant \<Rightarrow> discover_record list \<Rightarrow> cache_error + cache_entry" where
  "entry_new compress now records =
     and_then (serialise_records records) (\<lambda>serialised.
       let compressed = compress serialised in
       Inr \<lparr>ce_data = compressed, ce_size = length compressed, ce_last_access = now\<rparr>)"

definition entry_decompress ::
  "(u8 list \<Rightarrow> string + u8 list) \<Rightarrow> cache_entry \<Rightarrow> cache_error + discover_record list" where
  "entry_decompress decompress e =
     (case decompress (ce_data e) of
        Inl msg \<Rightarrow> Inl (DecompressFailed msg)
      | Inr bytes \<Rightarrow> deserialise_records bytes)"

definition entry_touch :: "instant \<Rightarrow> cache_entry \<Rightarrow> cache_entry" where
  "entry_touch now e = e\<lparr>ce_last_access := now\<rparr>"

lemma serialise_records_Inr:
  "serialise_records rs = Inr bytes \<longleftrightarrow>
     list_all (\<lambda>r. length (r_uuid r) \<le> 65535 \<and> length (r_errors r) \<le> 65535) rs \<and>
     bytes = concat (map record_bytes rs)"
  by (simp add: serialise_records_def serialise_fold_Inr)

lemma serialised_ok:
  assumes "serialise_records rs = Inr bytes" "list_all (\<lambda>r. rust_string (r_uuid r)) rs"
  shows "list_all record_ok rs" "bytes = concat (map record_bytes rs)"
  using assms by (auto simp: serialise_records_Inr record_ok_def list_all_iff)

lemma serialise_deserialise:
  assumes "serialise_records rs = Inr bytes" "list_all (\<lambda>r. rust_string (r_uuid r)) rs"
  shows "deserialise_records bytes = Inr rs"
  using deserialise_back [OF serialised_ok(1) [OF assms], of "[]" "[]"] serialised_ok(2) [OF assms]
  by (simp add: deserialise_records_def)

lemma entry_roundtrip:
  assumes "entry_new compress now rs = Inr e" "list_all (\<lambda>r. rust_string (r_uuid r)) rs"
    and "\<And>bs. decompress (compress bs) = Inr bs"
  shows "entry_decompress decompress (entry_touch now' e) = Inr rs"
  using assms serialise_deserialise
  by (auto simp: entry_new_def entry_decompress_def entry_touch_def Let_def)

section \<open>Properties\<close>

text \<open>
  C7. With a lossless compressor, a cache entry gives back exactly the records it was built from,
  NaN payloads and signed zeros included, after any number of touches; and building one fails
  only for an identifier or an error list longer than 65535.
\<close>
theorem cache_entry_roundtrip:
  assumes "\<And>bs. decompress (compress bs) = Inr bs" "list_all (\<lambda>r. rust_string (r_uuid r)) rs"
  shows "case entry_new compress now rs of
      Inr e \<Rightarrow> entry_decompress decompress (entry_touch now' e) = Inr rs \<and> ce_size e = length (ce_data e)
    | Inl err \<Rightarrow> \<not> list_all (\<lambda>r. length (r_uuid r) \<le> 65535 \<and> length (r_errors r) \<le> 65535) rs"
proof (cases "entry_new compress now rs")
  case (Inl err)
  have "serialise_records rs \<noteq> Inr bytes" for bytes using Inl by (auto simp: entry_new_def Let_def)
  then show ?thesis using Inl by (auto simp: serialise_records_Inr)
next
  case (Inr e)
  with entry_roundtrip [OF Inr assms(2), of decompress now'] assms(1) show ?thesis
    by (auto simp: entry_new_def Let_def)
qed

definition cached_sample :: "discover_record list" where
  "cached_sample = [new_record 41 ''h1'' (Some 0x7FC00001) 0x80000000 [1, 2], new_record 42 ''o'' None 7 []]"

lemma cached_sample_strings: "list_all (\<lambda>r. rust_string (r_uuid r)) cached_sample"
  by (simp add: cached_sample_def new_record_def rust_string_def string_bytes_def byte_of_def
      utf8_valid.simps utf8_step_def second_range_def)

theorem cache_entry_roundtrip_witness:
  "\<exists>e. entry_new rev 3 cached_sample = Inr e \<and>
     entry_decompress (\<lambda>bs. Inr (rev bs)) (entry_touch 9 e) = Inr cached_sample"
proof -
  have "entry_new rev 3 cached_sample \<noteq> Inl err" for err
    by (simp add: entry_new_def serialise_records_def serialise_record_def push_len_u16_def
        cached_sample_def new_record_def Let_def)
  then obtain e where e: "entry_new rev 3 cached_sample = Inr e"
    by (cases "entry_new rev 3 cached_sample") auto
  with cache_entry_roundtrip [of "\<lambda>bs. Inr (rev bs)" rev cached_sample 9 3] cached_sample_strings
  show ?thesis by simp
qed

text \<open>
  Truncation never goes unnoticed inside a record: when a prefix of a serialised buffer
  deserialises at all, it was cut at a record boundary, and the result is the records before the
  cut.
\<close>
theorem truncated_cache_detected:
  assumes "serialise_records rs = Inr bytes" "list_all (\<lambda>r. rust_string (r_uuid r)) rs"
    and "k \<le> length bytes" "deserialise_records (take k bytes) = Inr out"
  shows "\<exists>j \<le> length rs. out = take j rs \<and> serialise_records out = Inr (take k bytes)"
proof -
  from assms serialised_ok [OF assms(1,2)] deserialise_cut [of rs k "[]" "[]" out] obtain j where
    j: "j \<le> length rs" "out = take j rs" "k = length (concat (map record_bytes (take j rs)))"
    by (auto simp: deserialise_records_def)
  have "concat (map record_bytes rs) =
      concat (map record_bytes (take j rs)) @ concat (map record_bytes (drop j rs))"
    by (metis append_take_drop_id concat_append map_append)
  then have "take k bytes = concat (map record_bytes out)"
    using serialised_ok(2) [OF assms(1,2)] j by simp
  moreover have "list_all (\<lambda>r. length (r_uuid r) \<le> 65535 \<and> length (r_errors r) \<le> 65535) out"
    using assms(1) j by (auto simp: serialise_records_Inr list_all_iff dest: in_set_takeD)
  ultimately show ?thesis using j by (auto simp: serialise_records_Inr)
qed

theorem truncated_cache_detected_witness:
  "deserialise_records (take 3 (record_bytes (hd cached_sample))) \<noteq> Inr [] \<and>
   serialise_records cached_sample = Inr (concat (map record_bytes cached_sample))"
proof -
  have ser: "serialise_records cached_sample = Inr (concat (map record_bytes cached_sample))"
    by (simp add: serialise_records_Inr) (simp add: cached_sample_def new_record_def)
  have first: "concat (map record_bytes cached_sample) =
      record_bytes (hd cached_sample) @ concat (map record_bytes (tl cached_sample))"
    by (simp add: cached_sample_def)
  have long: "4 \<le> length (record_bytes (hd cached_sample))" by (simp add: record_bytes_def)
  then have cut: "take 3 (concat (map record_bytes cached_sample)) = take 3 (record_bytes (hd cached_sample))"
    by (simp add: first)
  have "deserialise_records (take 3 (record_bytes (hd cached_sample))) \<noteq> Inr []"
  proof
    assume "deserialise_records (take 3 (record_bytes (hd cached_sample))) = Inr []"
    with truncated_cache_detected [OF ser cached_sample_strings, of 3 "[]"] cut long first
    have "serialise_records [] = Inr (take 3 (record_bytes (hd cached_sample)))" by auto
    with long show False by (simp add: serialise_records_Inr)
  qed
  with ser show ?thesis by blast
qed

end
