(* ===== verification/RecordCaches.thy ===== *)
theory RecordCaches
  imports Serialise "HOL-Library.AList"
begin

text \<open>
  The in-memory record caches (\<open>src/analysis/cache/\<close>): the LRU cache with its byte and entry
  bounds (\<open>lru_cache.rs\<close>), the LZ4-compressed LRU cache (\<open>compressed_cache.rs\<close>), the memoising
  cache (\<open>RecordCache\<close> in \<open>mod.rs\<close>) and the decisions which of them to use
  (\<open>loading_strategy.rs\<close>, \<open>mod.rs\<close>).

  The locale \<open>record_cache\<close> is the contract all of them share: whatever was looked up, evicted or
  swept before, a lookup answers what the loader answers for that neuron. A \<open>HashMap\<close> is an
  association list; \<open>find_lru\<close> takes the first least recently used entry of the list, and no
  theorem depends on the list's order.
\<close>

section \<open>The contract of a record cache\<close>

fun run_gets :: "('k \<Rightarrow> 's \<Rightarrow> 'r \<times> 's) \<Rightarrow> 'k list \<Rightarrow> 's \<Rightarrow> 'r list \<times> 's" where
  "run_gets get [] s = ([], s)"
| "run_gets get (k # ks) s =
     (case get k s of (r, s') \<Rightarrow> (case run_gets get ks s' of (rs, s'') \<Rightarrow> (r # rs, s'')))"

locale record_cache =
  fixes get :: "'k \<Rightarrow> 's \<Rightarrow> 'r \<times> 's" and inv :: "'s \<Rightarrow> bool" and answer :: "'k \<Rightarrow> 'r"
  assumes get_answers: "inv s \<Longrightarrow> fst (get k s) = answer k"
    and get_keeps: "inv s \<Longrightarrow> inv (snd (get k s))"
begin

lemma run_answers: "inv s \<Longrightarrow> fst (run_gets get ks s) = map answer ks \<and> inv (snd (run_gets get ks s))"
proof (induction ks arbitrary: s)
  case (Cons k ks)
  obtain r s' where g: "get k s = (r, s')" by force
  obtain rs s'' where run: "run_gets get ks s' = (rs, s'')" by force
  from g Cons.prems get_answers [of s k] get_keeps [of s k] have "r = answer k" "inv s'" by simp_all
  with Cons.IH [of s'] g run show ?case by simp
qed simp

text \<open>A second lookup of a key gives the same answer, whatever happened in between.\<close>

lemma repeatable: "inv s \<Longrightarrow> fst (get k (snd (run_gets get (k # ks) s))) = fst (get k s)"
  using run_answers [of s "k # ks"] get_answers by metis

end

text \<open>A cache whose state is bounded after every lookup.\<close>

locale bounded_cache = record_cache get inv answer
  for get :: "'k \<Rightarrow> 's \<Rightarrow> 'r \<times> 's" and inv answer +
  fixes bounded :: "'s \<Rightarrow> bool"
  assumes get_bounded: "inv s \<Longrightarrow> bounded s \<Longrightarrow> bounded (snd (get k s))"
begin

lemma run_bounded: "inv s \<Longrightarrow> bounded s \<Longrightarrow> bounded (snd (run_gets get ks s))"
proof (induction ks arbitrary: s)
  case (Cons k ks)
  obtain r s' where g: "get k s = (r, s')" by force
  obtain rs s'' where run: "run_gets get ks s' = (rs, s'')" by force
  from g Cons.prems get_bounded [of s k] get_keeps [of s k] have "inv s'" "bounded s'" by simp_all
  with Cons.IH [of s'] g run show ?case by simp
qed simp

end

section \<open>Least recently used entries\<close>

record 'e cache_state =
  cs_cache :: "(string \<times> 'e) list"
  cs_bytes :: nat
  cs_hits :: u64
  cs_misses :: u64
  cs_evictions :: u64

text \<open>\<open>min_by_key\<close> over the access times.\<close>

fun find_lru :: "('e \<Rightarrow> instant) \<Rightarrow> ('k \<times> 'e) list \<Rightarrow> ('k \<times> 'e) option" where
  "find_lru last_access [] = None"
| "find_lru last_access (x # xs) =
     (case find_lru last_access xs of
        None \<Rightarrow> Some x
      | Some y \<Rightarrow> if last_access (snd x) \<le> last_access (snd y) then Some x else Some y)"

definition find_lru_key :: "('e \<Rightarrow> instant) \<Rightarrow> ('k \<times> 'e) list \<Rightarrow> 'k option" where
  "find_lru_key last_access cache = map_option fst (find_lru last_access cache)"

lemma find_lru_None [simp]: "find_lru f xs = None \<longleftrightarrow> xs = []"
  by (cases xs) (auto split: option.splits)

lemma find_lru_Some:
  "find_lru f xs = Some x \<Longrightarrow> x \<in> set xs \<and> (\<forall>y \<in> set xs. f (snd x) \<le> f (snd y))"
proof (induction xs arbitrary: x)
  case Nil
  then show ?case by simp
next
  case (Cons a xs)
  show ?case
  proof (cases "find_lru f xs")
    case None
    with Cons.prems show ?thesis by simp
  next
    case (Some y)
    with Cons.IH [OF Some] Cons.prems show ?thesis by (auto split: if_splits)
  qed
qed

text \<open>
  \<open>evict_one\<close>: removes the least recently used entry. The subtraction does not underflow as long
  as the byte count covers the entries (\<open>bytes_ok\<close> below).
\<close>

definition evict_one ::
  "('e \<Rightarrow> instant) \<Rightarrow> ('e \<Rightarrow> nat) \<Rightarrow> 'e cache_state \<Rightarrow> bool \<times> 'e cache_state" where
  "evict_one last_access sz s =
     (case find_lru_key last_access (cs_cache s) of
        None \<Rightarrow> (False, s)
      | Some k \<Rightarrow>
          (case map_of (cs_cache s) k of
             None \<Rightarrow> (False, s)
           | Some evicted \<Rightarrow>
               (True, s\<lparr>cs_cache := AList.delete k (cs_cache s),
                        cs_bytes := cs_bytes s - sz evicted,
                        cs_evictions := cs_evictions s + 1\<rparr>)))"

lemma evict_one_False: "fst (evict_one la sz s) = False \<longleftrightarrow> cs_cache s = []"
proof (cases "find_lru la (cs_cache s)")
  case None
  then show ?thesis by (simp add: evict_one_def find_lru_key_def)
next
  case (Some x)
  then have "x \<in> set (cs_cache s)" using find_lru_Some by blast
  then have "map_of (cs_cache s) (fst x) \<noteq> None" by (auto simp: map_of_eq_None_iff)
  with Some show ?thesis by (cases x) (auto simp: evict_one_def find_lru_key_def split: option.splits)
qed

lemma evict_one_length:
  assumes "evict_one la sz s = (True, s')"
  shows "length (cs_cache s') < length (cs_cache s)"
proof -
  from assms obtain k e where k: "map_of (cs_cache s) k = Some e" "s' = s\<lparr>cs_cache := AList.delete k (cs_cache s),
      cs_bytes := cs_bytes s - sz e, cs_evictions := cs_evictions s + 1\<rparr>"
    by (auto simp: evict_one_def split: option.splits)
  then show ?thesis by (simp add: length_alist_delete)
qed

text \<open>\<open>while cond { if !self.evict_one(cache) { break; } }\<close>\<close>

function evict_while ::
  "('e \<Rightarrow> instant) \<Rightarrow> ('e \<Rightarrow> nat) \<Rightarrow> ('e cache_state \<Rightarrow> bool) \<Rightarrow> 'e cache_state \<Rightarrow> 'e cache_state" where
  "evict_while la sz cond s =
     (if cond s then
        case evict_one la sz s of
          (True, s') \<Rightarrow> evict_while la sz cond s'
        | (False, s') \<Rightarrow> s'
      else s)"
  by pat_completeness auto
termination
  by (relation "measure (\<lambda>(la, sz, cond, s). length (cs_cache s))") (auto dest: evict_one_length [OF sym])

declare evict_while.simps [simp del]

definition total_size :: "('e \<Rightarrow> nat) \<Rightarrow> ('k \<times> 'e) list \<Rightarrow> nat" where
  "total_size sz cache = sum_list (map (\<lambda>(k, e). sz e) cache)"

text \<open>The byte count is the sum of the sizes, plus a drift that is 0 without races.\<close>

definition cache_ok :: "('e \<Rightarrow> nat) \<Rightarrow> nat \<Rightarrow> 'e cache_state \<Rightarrow> bool" where
  "cache_ok sz drift s \<longleftrightarrow>
     distinct (map fst (cs_cache s)) \<and> cs_bytes s = total_size sz (cs_cache s) + drift"

lemma total_size_delete:
  "distinct (map fst xs) \<Longrightarrow> map_of xs k = Some e \<Longrightarrow>
   total_size sz xs = total_size sz (AList.delete k xs) + sz e"
proof (induction xs)
  case (Cons x xs)
  obtain k' e' where x: "x = (k', e')" by (cases x)
  show ?case
  proof (cases "k' = k")
    case True
    with Cons.prems x have "filter (\<lambda>p. fst p \<noteq> k) xs = xs" "e' = e"
      by (auto intro!: filter_True)
    then show ?thesis using x True by (simp add: total_size_def alist_delete_filter)
  next
    case False
    with Cons x show ?thesis by (simp add: total_size_def)
  qed
qed simp

lemma total_size_append [simp]: "total_size sz (xs @ [(k, e)]) = total_size sz xs + sz e"
  by (simp add: total_size_def)

lemma evict_one_ok:
  assumes "cache_ok sz d s" "evict_one la sz s = (b, s')"
  shows "cache_ok sz d s' \<and> set (cs_cache s') \<subseteq> set (cs_cache s) \<and>
    cs_hits s' = cs_hits s \<and> cs_misses s' = cs_misses s"
proof (cases b)
  case False
  with assms show ?thesis by (auto simp: evict_one_def split: option.splits)
next
  case True
  with assms(2) obtain k e where k: "map_of (cs_cache s) k = Some e" "s' = s\<lparr>cs_cache := AList.delete k (cs_cache s),
      cs_bytes := cs_bytes s - sz e, cs_evictions := cs_evictions s + 1\<rparr>"
    by (auto simp: evict_one_def split: option.splits)
  moreover have "distinct (map fst (AList.delete k (cs_cache s)))"
    using assms(1) by (simp add: cache_ok_def distinct_delete)
  ultimately show ?thesis
    using assms(1) total_size_delete [of "cs_cache s" k e sz] set_alist_delete [of k "cs_cache s"]
    by (auto simp: cache_ok_def)
qed

lemma evict_while_ok:
  assumes "cache_ok sz d s"
  shows "cache_ok sz d (evict_while la sz cond s) \<and>
    set (cs_cache (evict_while la sz cond s)) \<subseteq> set (cs_cache s) \<and>
    cs_hits (evict_while la sz cond s) = cs_hits s \<and> cs_misses (evict_while la sz cond s) = cs_misses s \<and>
    length (cs_cache (evict_while la sz cond s)) \<le> length (cs_cache s) \<and>
    (\<not> cond (evict_while la sz cond s) \<or> cs_cache (evict_while la sz cond s) = [])"
  using assms
proof (induction la sz cond s rule: evict_while.induct)
  case (1 la sz cond s)
  show ?case
  proof (cases "cond s")
    case False
    with 1 show ?thesis by (simp add: evict_while.simps [of la sz cond s])
  next
    case True
    obtain b s' where b: "evict_one la sz s = (b, s')" by force
    note ok = evict_one_ok [OF 1(2) b]
    show ?thesis
    proof (cases b)
      case True
      with 1 \<open>cond s\<close> b ok evict_one_length [of la sz s s'] show ?thesis
        by (fastforce simp: evict_while.simps [of la sz cond s])
    next
      case False
      with b have "cs_cache s = []" "s' = s"
        using evict_one_False [of la sz s] by (auto simp: evict_one_def split: option.splits)
      with \<open>cond s\<close> b ok False show ?thesis by (simp add: evict_while.simps [of la sz cond s])
    qed
  qed
qed

lemma evict_one_smaller:
  assumes "cache_ok sz d s" "evict_one la sz s = (b, s')"
  shows "total_size sz (cs_cache s') \<le> total_size sz (cs_cache s)"
proof (cases b)
  case False
  with assms show ?thesis by (auto simp: evict_one_def split: option.splits)
next
  case True
  with assms total_size_delete [of "cs_cache s"] show ?thesis
    by (fastforce simp: evict_one_def cache_ok_def split: option.splits)
qed

lemma evict_while_smaller:
  "cache_ok sz d s \<Longrightarrow> total_size sz (cs_cache (evict_while la sz cond s)) \<le> total_size sz (cs_cache s)"
proof (induction la sz cond s rule: evict_while.induct)
  case (1 la sz cond s)
  obtain b s' where b: "evict_one la sz s = (b, s')" by force
  note ok = evict_one_ok [OF 1(2) b] and less = evict_one_smaller [OF 1(2) b]
  show ?case
  proof (cases "cond s \<and> b")
    case True
    with "1.IH" [OF _ b [symmetric], of ] b ok less show ?thesis
      by (auto simp: evict_while.simps [of la sz cond s])
  next
    case False
    with b less show ?thesis by (auto simp: evict_while.simps [of la sz cond s])
  qed
qed

section \<open>The LRU cache\<close>

record lru_entry =
  le_records :: "discover_record list"
  le_last_access :: instant
  le_inserted_at :: instant
  le_access_count :: u64
  le_size_bytes :: nat

text \<open>\<open>record_size\<close> is \<open>size_of::<DiscoverRecord>()\<close>, which depends on the platform.\<close>

definition estimate_records_size :: "nat \<Rightarrow> discover_record list \<Rightarrow> nat" where
  "estimate_records_size record_size rs =
     sum_list (map (\<lambda>r. record_size + length (r_uuid r) + length (r_errors r) * 4) rs)"

definition lru_entry_new :: "nat \<Rightarrow> instant \<Rightarrow> discover_record list \<Rightarrow> lru_entry" where
  "lru_entry_new record_size now rs =
     \<lparr>le_records = rs, le_last_access = now, le_inserted_at = now, le_access_count = 0,
      le_size_bytes = estimate_records_size record_size rs\<rparr>"

definition lru_touch :: "instant \<Rightarrow> lru_entry \<Rightarrow> lru_entry" where
  "lru_touch now e = e\<lparr>le_last_access := now, le_access_count := le_access_count e + 1\<rparr>"

definition evict_if_needed ::
  "nat \<Rightarrow> nat option \<Rightarrow> nat \<Rightarrow> lru_entry cache_state \<Rightarrow> lru_entry cache_state" where
  "evict_if_needed capacity_bytes max_entries incoming_bytes s =
     (let s1 = evict_while le_last_access le_size_bytes
                 (\<lambda>s. capacity_bytes < cs_bytes s + incoming_bytes) s
      in case max_entries of
           None \<Rightarrow> s1
         | Some mx \<Rightarrow> evict_while le_last_access le_size_bytes (\<lambda>s. mx \<le> length (cs_cache s)) s1)"

text \<open>
  The two critical sections of \<open>get\<close>, and the call as a whole. Between them the lock is free.
\<close>

definition lru_hit ::
  "instant \<Rightarrow> string \<Rightarrow> lru_entry cache_state \<Rightarrow> (discover_record list \<times> lru_entry cache_state) option" where
  "lru_hit now k s =
     (case map_of (cs_cache s) k of
        None \<Rightarrow> None
      | Some e \<Rightarrow> Some (le_records e, s\<lparr>cs_cache := AList.update k (lru_touch now e) (cs_cache s),
                                       cs_hits := cs_hits s + 1\<rparr>))"

definition lru_insert ::
  "nat \<Rightarrow> nat \<Rightarrow> nat option \<Rightarrow> instant \<Rightarrow> string \<Rightarrow> discover_record list
     \<Rightarrow> lru_entry cache_state \<Rightarrow> lru_entry cache_state" where
  "lru_insert record_size capacity_bytes max_entries now k rs s =
     (let e = lru_entry_new record_size now rs;
          s1 = evict_if_needed capacity_bytes max_entries (le_size_bytes e) s
      in s1\<lparr>cs_bytes := cs_bytes s1 + le_size_bytes e, cs_cache := AList.update k e (cs_cache s1)\<rparr>)"

definition lru_get ::
  "(string \<Rightarrow> string + discover_record list) \<Rightarrow> nat \<Rightarrow> nat \<Rightarrow> nat option \<Rightarrow> instant \<times> string
     \<Rightarrow> lru_entry cache_state \<Rightarrow> (string + discover_record list) \<times> lru_entry cache_state" where
  "lru_get load record_size capacity_bytes max_entries nk s =
     (case nk of (now, k) \<Rightarrow>
        (case lru_hit now k s of
           Some (rs, s') \<Rightarrow> (Inr rs, s')
         | None \<Rightarrow>
             let s1 = s\<lparr>cs_misses := cs_misses s + 1\<rparr> in
             case load k of
               Inl e \<Rightarrow> (Inl e, s1)
             | Inr rs \<Rightarrow> (Inr rs, lru_insert record_size capacity_bytes max_entries now k rs s1)))"

definition cache_new :: "'e cache_state" where
  "cache_new = \<lparr>cs_cache = [], cs_bytes = 0, cs_hits = 0, cs_misses = 0, cs_evictions = 0\<rparr>"

definition lru_inv :: "(string \<Rightarrow> string + discover_record list) \<Rightarrow> nat \<Rightarrow> lru_entry cache_state \<Rightarrow> bool" where
  "lru_inv load d s \<longleftrightarrow> cache_ok le_size_bytes d s \<and>
     (\<forall>(k, e) \<in> set (cs_cache s). load k = Inr (le_records e))"

definition lru_bounded :: "nat \<Rightarrow> nat option \<Rightarrow> 'e cache_state \<Rightarrow> bool" where
  "lru_bounded capacity_bytes max_entries s \<longleftrightarrow>
     (cs_bytes s \<le> capacity_bytes \<or> length (cs_cache s) \<le> 1) \<and>
     (case max_entries of None \<Rightarrow> True | Some mx \<Rightarrow> length (cs_cache s) \<le> max mx 1)"

lemma update_same_fst: "map_of xs k = Some e \<Longrightarrow> map fst (AList.update k v xs) = map fst xs"
  by (induction xs) auto

lemma total_size_update:
  "map_of xs k = Some e \<Longrightarrow> sz v = sz e \<Longrightarrow> total_size sz (AList.update k v xs) = total_size sz xs"
  by (induction xs) (auto simp: total_size_def split: if_splits)

lemma cache_ok_touch:
  assumes "cache_ok sz d s" "map_of (cs_cache s) k = Some e" "sz e' = sz e"
  shows "cache_ok sz d (s\<lparr>cs_cache := AList.update k e' (cs_cache s), cs_hits := h\<rparr>)"
proof -
  from assms(1,2) have "distinct (map fst (AList.update k e' (cs_cache s)))"
    by (simp add: cache_ok_def distinct_update)
  moreover have "total_size sz (AList.update k e' (cs_cache s)) = total_size sz (cs_cache s)"
    using assms(2,3) by (rule total_size_update)
  ultimately show ?thesis using assms(1) by (simp add: cache_ok_def)
qed

lemma evict_if_needed_ok:
  assumes "cache_ok le_size_bytes d s"
  shows "cache_ok le_size_bytes d (evict_if_needed cap mx n s) \<and>
    set (cs_cache (evict_if_needed cap mx n s)) \<subseteq> set (cs_cache s) \<and>
    length (cs_cache (evict_if_needed cap mx n s)) \<le> length (cs_cache s) \<and>
    (cs_bytes (evict_if_needed cap mx n s) + n \<le> cap \<or> cs_cache (evict_if_needed cap mx n s) = []) \<and>
    (case mx of None \<Rightarrow> True
     | Some m \<Rightarrow> length (cs_cache (evict_if_needed cap mx n s)) < max m 1)"
proof -
  let ?s1 = "evict_while le_last_access le_size_bytes (\<lambda>s. cap < cs_bytes s + n) s"
  note s1 = evict_while_ok [OF assms, of le_last_access "\<lambda>s. cap < cs_bytes s + n"]
  show ?thesis
  proof (cases mx)
    case None
    with s1 show ?thesis by (auto simp: evict_if_needed_def)
  next
    case (Some m)
    let ?s2 = "evict_while le_last_access le_size_bytes (\<lambda>s. m \<le> length (cs_cache s)) ?s1"
    note s2 = evict_while_ok [OF s1 [THEN conjunct1], of le_last_access "\<lambda>s. m \<le> length (cs_cache s)"]
    have mono: "total_size le_size_bytes (cs_cache ?s2) \<le> total_size le_size_bytes (cs_cache ?s1)"
      by (rule evict_while_smaller) (use s1 in blast)
    have "cs_bytes ?s2 \<le> cs_bytes ?s1"
      using mono s1 s2 unfolding cache_ok_def by linarith
    with s1 s2 Some show ?thesis
      by (auto simp: evict_if_needed_def less_max_iff_disj)
  qed
qed

text \<open>Inserting a key that is not cached; a race inserts one that is (see below).\<close>

lemma lru_insert_ok:
  assumes "cache_ok le_size_bytes d s" "map_of (cs_cache s) k = None"
  shows "cache_ok le_size_bytes d (lru_insert rsz cap mx now k rs s) \<and>
    set (cs_cache (lru_insert rsz cap mx now k rs s)) \<subseteq> insert (k, lru_entry_new rsz now rs) (set (cs_cache s)) \<and>
    lru_bounded cap mx (lru_insert rsz cap mx now k rs s)"
proof -
  let ?e = "lru_entry_new rsz now rs"
  let ?s1 = "evict_if_needed cap mx (le_size_bytes ?e) s"
  note s1 = evict_if_needed_ok [OF assms(1), of cap mx "le_size_bytes ?e"]
  from s1 assms(2) have new: "k \<notin> fst ` set (cs_cache ?s1)"
    by (force simp: map_of_eq_None_iff)
  then have upd: "AList.update k ?e (cs_cache ?s1) = cs_cache ?s1 @ [(k, ?e)]"
    by (rule alist_update_new)
  from s1 new show ?thesis
    by (auto simp: lru_insert_def Let_def upd cache_ok_def lru_bounded_def split: option.splits)
qed

lemma lru_get_ok:
  assumes "lru_inv load d s"
  shows "fst (lru_get load rsz cap mx nk s) = load (snd nk)"
    and "lru_inv load d (snd (lru_get load rsz cap mx nk s))"
    and "lru_bounded cap mx s \<Longrightarrow> lru_bounded cap mx (snd (lru_get load rsz cap mx nk s))"
proof -
  obtain now k where nk: "nk = (now, k)" by (cases nk)
  from assms have ok: "cache_ok le_size_bytes d s" by (simp add: lru_inv_def)
  have goal: "fst (lru_get load rsz cap mx nk s) = load (snd nk) \<and>
    lru_inv load d (snd (lru_get load rsz cap mx nk s)) \<and>
    (lru_bounded cap mx s \<longrightarrow> lru_bounded cap mx (snd (lru_get load rsz cap mx nk s)))"
  proof (cases "map_of (cs_cache s) k")
    case (Some e)
    then have mem: "(k, e) \<in> set (cs_cache s)" by (simp add: map_of_SomeD)
    with assms have load: "load k = Inr (le_records e)" by (auto simp: lru_inv_def)
    let ?s = "s\<lparr>cs_cache := AList.update k (lru_touch now e) (cs_cache s), cs_hits := cs_hits s + 1\<rparr>"
    have len: "length (AList.update k (lru_touch now e) (cs_cache s)) = length (cs_cache s)"
      using update_same_fst [OF Some] by (metis length_map)
    have "cache_ok le_size_bytes d ?s" by (rule cache_ok_touch [OF ok Some]) (simp add: lru_touch_def)
    moreover have "\<forall>(k', e') \<in> set (AList.update k (lru_touch now e) (cs_cache s)). load k' = Inr (le_records e')"
      using assms load set_update_subset [of k "lru_touch now e" "cs_cache s"]
      by (auto simp: lru_inv_def lru_touch_def)
    ultimately show ?thesis
      using nk Some load len by (simp add: lru_get_def lru_hit_def lru_inv_def lru_bounded_def split: option.splits)
  next
    case None
    show ?thesis
    proof (cases "load k")
      case (Inl e)
      with nk None assms show ?thesis
        by (simp add: lru_get_def lru_hit_def lru_inv_def cache_ok_def lru_bounded_def Let_def
            split: option.splits)
    next
      case (Inr rs)
      let ?s1 = "s\<lparr>cs_misses := cs_misses s + 1\<rparr>"
      have "cache_ok le_size_bytes d ?s1" "map_of (cs_cache ?s1) k = None"
        using ok None by (simp_all add: cache_ok_def)
      from lru_insert_ok [OF this, of rsz cap mx now rs] Inr nk None assms show ?thesis
        by (auto simp: lru_get_def lru_hit_def lru_inv_def lru_entry_new_def Let_def)
    qed
  qed
  then show "fst (lru_get load rsz cap mx nk s) = load (snd nk)"
    "lru_inv load d (snd (lru_get load rsz cap mx nk s))"
    "lru_bounded cap mx s \<Longrightarrow> lru_bounded cap mx (snd (lru_get load rsz cap mx nk s))"
    by blast+
qed

interpretation lru: bounded_cache "lru_get load rsz cap mx" "lru_inv load d" "\<lambda>nk. load (snd nk)" "lru_bounded cap mx"
  for load d rsz cap mx
  by unfold_locales (rule lru_get_ok; assumption)+

subsection \<open>Concurrent calls\<close>

text \<open>
  Calls of \<open>get\<close> from several threads. Each takes the lock twice, for the lookup and, after the
  load, for the insertion, and any other section may run in between. Calls are numbered; a step
  that does not belong to the call's progress changes nothing.
\<close>

datatype lru_call =
    Missed string
  | Answered string "string + discover_record list"

datatype lru_event = Look_up nat instant string | Store nat instant

definition lru_section ::
  "(string \<Rightarrow> string + discover_record list) \<Rightarrow> nat \<Rightarrow> nat \<Rightarrow> nat option \<Rightarrow> lru_event
     \<Rightarrow> lru_entry cache_state \<times> (nat \<rightharpoonup> lru_call) \<Rightarrow> lru_entry cache_state \<times> (nat \<rightharpoonup> lru_call)" where
  "lru_section load record_size capacity_bytes max_entries x = (\<lambda>(s, calls).
     case x of
       Look_up i now k \<Rightarrow>
         (case calls i of
            Some _ \<Rightarrow> (s, calls)
          | None \<Rightarrow>
              (case lru_hit now k s of
                 Some (rs, s') \<Rightarrow> (s', calls(i \<mapsto> Answered k (Inr rs)))
               | None \<Rightarrow> (s\<lparr>cs_misses := cs_misses s + 1\<rparr>, calls(i \<mapsto> Missed k))))
     | Store i now \<Rightarrow>
         (case calls i of
            Some (Missed k) \<Rightarrow>
              (case load k of
                 Inl e \<Rightarrow> (s, calls(i \<mapsto> Answered k (Inl e)))
               | Inr rs \<Rightarrow> (lru_insert record_size capacity_bytes max_entries now k rs s,
                            calls(i \<mapsto> Answered k (Inr rs))))
          | _ \<Rightarrow> (s, calls)))"

definition lru_interleaved ::
  "(string \<Rightarrow> string + discover_record list) \<Rightarrow> nat \<Rightarrow> nat \<Rightarrow> nat option \<Rightarrow> lru_event list
     \<Rightarrow> lru_entry cache_state \<times> (nat \<rightharpoonup> lru_call)" where
  "lru_interleaved load record_size capacity_bytes max_entries xs =
     fold (lru_section load record_size capacity_bytes max_entries) xs (cache_new, Map.empty)"

text \<open>The two sections of one call, back to back, are \<open>lru_get\<close>.\<close>

lemma lru_sections_get:
  assumes "calls i = None"
  shows "lru_section load rsz cap mx (Store i now) (lru_section load rsz cap mx (Look_up i now k) (s, calls)) =
    (case lru_get load rsz cap mx (now, k) s of (r, s') \<Rightarrow> (s', calls(i \<mapsto> Answered k r)))"
  using assms
  by (simp add: lru_section_def lru_get_def Let_def split: option.split sum.split prod.split)

lemma total_size_replace:
  assumes "distinct (map fst xs)" "map_of xs k = Some e"
  shows "total_size sz (AList.update k v xs) + sz e = total_size sz xs + sz v"
  using assms by (induction xs) (auto simp: total_size_def split: if_splits)

lemma set_update_distinct:
  "distinct (map fst xs) \<Longrightarrow> map_of xs k = Some e \<Longrightarrow>
   (\<forall>(k', e') \<in> set xs. P k' e') \<Longrightarrow> P k v \<Longrightarrow> \<forall>(k', e') \<in> set (AList.update k v xs). P k' e'"
  using set_update_subset [of k v xs] by fastforce

text \<open>A racing insertion of a key that is already cached replaces the entry and leaves its size counted.\<close>

lemma lru_insert_race:
  assumes "lru_inv load d s" "load k = Inr rs"
  shows "\<exists>d'. lru_inv load d' (lru_insert rsz cap mx now k rs s) \<and>
    lru_bounded cap mx (lru_insert rsz cap mx now k rs s)"
proof -
  let ?e = "lru_entry_new rsz now rs"
  let ?s1 = "evict_if_needed cap mx (le_size_bytes ?e) s"
  let ?s2 = "lru_insert rsz cap mx now k rs s"
  from assms(1) have ok: "cache_ok le_size_bytes d s" by (simp add: lru_inv_def)
  note s1 = evict_if_needed_ok [OF ok, of cap mx "le_size_bytes ?e"]
  have from_load: "\<forall>(k', e') \<in> set (cs_cache ?s1). load k' = Inr (le_records e')"
    using s1 assms(1) by (auto simp: lru_inv_def)
  have ek: "load k = Inr (le_records ?e)" using assms(2) by (simp add: lru_entry_new_def)
  show ?thesis
  proof (cases "map_of (cs_cache ?s1) k")
    case None
    then have new: "k \<notin> fst ` set (cs_cache ?s1)" by (simp add: map_of_eq_None_iff)
    then have upd: "AList.update k ?e (cs_cache ?s1) = cs_cache ?s1 @ [(k, ?e)]" by (rule alist_update_new)
    have "cache_ok le_size_bytes d ?s2"
      using s1 new by (auto simp: lru_insert_def Let_def upd cache_ok_def)
    moreover have "\<forall>(k', e') \<in> set (cs_cache ?s2). load k' = Inr (le_records e')"
      using from_load ek by (auto simp: lru_insert_def Let_def upd)
    moreover have "lru_bounded cap mx ?s2"
      using s1 by (auto simp: lru_insert_def Let_def upd lru_bounded_def split: option.splits)
    ultimately show ?thesis unfolding lru_inv_def by blast
  next
    case (Some e0)
    have dist: "distinct (map fst (cs_cache ?s1))"
      and bytes: "cs_bytes ?s1 = total_size le_size_bytes (cs_cache ?s1) + d"
      using s1 by (auto simp: cache_ok_def)
    have keys: "map fst (AList.update k ?e (cs_cache ?s1)) = map fst (cs_cache ?s1)"
      using Some by (rule update_same_fst)
    then have len: "length (AList.update k ?e (cs_cache ?s1)) = length (cs_cache ?s1)"
      by (metis length_map)
    have nonempty: "cs_cache ?s1 \<noteq> []" using Some by auto
    have "cache_ok le_size_bytes (d + le_size_bytes e0) ?s2"
      using total_size_replace [OF dist Some, of le_size_bytes ?e] bytes keys dist
      by (simp add: lru_insert_def Let_def cache_ok_def)
    moreover have "\<forall>(k', e') \<in> set (cs_cache ?s2). load k' = Inr (le_records e')"
      using set_update_distinct [where P = "\<lambda>k' e'. load k' = Inr (le_records e')", OF dist Some from_load ek]
      by (simp add: lru_insert_def Let_def)
    moreover have "lru_bounded cap mx ?s2"
      using s1 nonempty len by (auto simp: lru_insert_def Let_def lru_bounded_def split: option.splits)
    ultimately show ?thesis unfolding lru_inv_def by blast
  qed
qed

definition calls_ok :: "(string \<Rightarrow> string + discover_record list) \<Rightarrow> (nat \<rightharpoonup> lru_call) \<Rightarrow> bool" where
  "calls_ok load calls \<longleftrightarrow> (\<forall>i. case calls i of Some (Answered k r) \<Rightarrow> r = load k | _ \<Rightarrow> True)"

lemma calls_ok_update:
  "calls_ok load calls \<Longrightarrow> (case c of Answered k r \<Rightarrow> r = load k | Missed _ \<Rightarrow> True) \<Longrightarrow>
   calls_ok load (calls(i \<mapsto> c))"
  by (simp add: calls_ok_def)

lemma lru_section_ok:
  assumes "lru_inv load d s" "lru_bounded cap mx s" "calls_ok load calls"
    and "lru_section load rsz cap mx x (s, calls) = (s', calls')"
  shows "(\<exists>d'. lru_inv load d' s') \<and> lru_bounded cap mx s' \<and> calls_ok load calls'"
proof (cases x)
  case (Look_up i now k)
  show ?thesis
  proof (cases "calls i")
    case (Some c)
    with Look_up assms show ?thesis by (auto simp: lru_section_def)
  next
    case free: None
    show ?thesis
    proof (cases "map_of (cs_cache s) k")
      case None
      with free Look_up assms(4) have s': "s' = s\<lparr>cs_misses := cs_misses s + 1\<rparr>"
        and calls': "calls' = calls(i \<mapsto> Missed k)"
        by (simp_all add: lru_section_def lru_hit_def)
      from assms(1,2) have "lru_inv load d s'" "lru_bounded cap mx s'"
        by (simp_all add: s' lru_inv_def cache_ok_def lru_bounded_def split: option.splits)
      moreover have "calls_ok load calls'"
        unfolding calls' by (rule calls_ok_update [OF assms(3)]) simp
      ultimately show ?thesis by blast
    next
      case (Some e)
      have get: "lru_get load rsz cap mx (now, k) s = (Inr (le_records e), s')"
        and calls': "calls' = calls(i \<mapsto> Answered k (Inr (le_records e)))"
        using Some free Look_up assms(4) by (simp_all add: lru_section_def lru_get_def lru_hit_def)
      from lru_get_ok [OF assms(1), where rsz = rsz and cap = cap and mx = mx and nk = "(now, k)"] get assms(2)
      have "lru_inv load d s'" "lru_bounded cap mx s'" "Inr (le_records e) = load k" by simp_all
      moreover from this(3) have "calls_ok load calls'"
        unfolding calls' by (intro calls_ok_update [OF assms(3)]) simp
      ultimately show ?thesis by blast
    qed
  qed
next
  case (Store i now)
  show ?thesis
  proof (cases "\<exists>k. calls i = Some (Missed k)")
    case False
    with Store assms show ?thesis by (auto simp: lru_section_def split: option.splits lru_call.splits)
  next
    case True
    then obtain k where k: "calls i = Some (Missed k)" by blast
    show ?thesis
    proof (cases "load k")
      case (Inl e)
      with k Store assms(4) have "s' = s" and calls': "calls' = calls(i \<mapsto> Answered k (Inl e))"
        by (simp_all add: lru_section_def)
      moreover have "calls_ok load calls'"
        unfolding calls' by (rule calls_ok_update [OF assms(3)]) (simp add: Inl)
      ultimately show ?thesis using assms(1,2) by blast
    next
      case (Inr rs)
      with k Store assms(4) have s': "s' = lru_insert rsz cap mx now k rs s"
        and calls': "calls' = calls(i \<mapsto> Answered k (Inr rs))"
        by (simp_all add: lru_section_def)
      have "calls_ok load calls'"
        unfolding calls' by (rule calls_ok_update [OF assms(3)]) (simp add: Inr)
      with lru_insert_race [OF assms(1) Inr, of rsz cap mx now] show ?thesis by (simp add: s')
    qed
  qed
qed

lemma lru_sections_ok:
  assumes "lru_inv load d s" "lru_bounded cap mx s" "calls_ok load calls"
    and "fold (lru_section load rsz cap mx) xs (s, calls) = (s', calls')"
  shows "(\<exists>d'. lru_inv load d' s') \<and> lru_bounded cap mx s' \<and> calls_ok load calls'"
  using assms
proof (induction xs arbitrary: d s calls)
  case Nil
  then show ?case by auto
next
  case (Cons x xs)
  obtain s1 calls1 where x: "lru_section load rsz cap mx x (s, calls) = (s1, calls1)" by force
  from lru_section_ok [OF Cons.prems(1-3) x] obtain d1 where
    "lru_inv load d1 s1" "lru_bounded cap mx s1" "calls_ok load calls1" by blast
  from Cons.IH [OF this] Cons.prems(4) x show ?case by simp
qed

section \<open>The compressed LRU cache\<close>

datatype get_error = LoadFailed string | CacheFailed cache_error

definition compressed_evict :: "nat \<Rightarrow> nat \<Rightarrow> cache_entry cache_state \<Rightarrow> cache_entry cache_state" where
  "compressed_evict capacity_bytes sz s =
     evict_while ce_last_access ce_size (\<lambda>s. capacity_bytes < cs_bytes s + sz) s"

definition compressed_get ::
  "(string \<Rightarrow> string + discover_record list) \<Rightarrow> (u8 list \<Rightarrow> u8 list) \<Rightarrow> (u8 list \<Rightarrow> string + u8 list)
     \<Rightarrow> nat \<Rightarrow> instant \<times> string \<Rightarrow> cache_entry cache_state
     \<Rightarrow> (get_error + discover_record list) \<times> cache_entry cache_state" where
  "compressed_get load compress decompress capacity_bytes nk s =
     (case nk of (now, k) \<Rightarrow>
        (case map_of (cs_cache s) k of
           Some e \<Rightarrow>
             let e' = entry_touch now e;
                 s' = s\<lparr>cs_cache := AList.update k e' (cs_cache s), cs_hits := cs_hits s + 1\<rparr>
             in (case entry_decompress decompress e' of
                   Inl err \<Rightarrow> (Inl (CacheFailed err), s')
                 | Inr rs \<Rightarrow> (Inr rs, s'))
         | None \<Rightarrow>
             let s1 = s\<lparr>cs_misses := cs_misses s + 1\<rparr> in
             case load k of
               Inl err \<Rightarrow> (Inl (LoadFailed err), s1)
             | Inr rs \<Rightarrow>
                 (case entry_new compress now rs of
                    Inl err \<Rightarrow> (Inl (CacheFailed err), s1)
                  | Inr e \<Rightarrow>
                      let s2 = compressed_evict capacity_bytes (ce_size e) s1 in
                      (Inr rs, s2\<lparr>cs_bytes := cs_bytes s2 + ce_size e,
                                 cs_cache := AList.update k e (cs_cache s2)\<rparr>))))"

text \<open>What a lookup should answer: the loaded records, unless the format cannot hold them.\<close>

definition compressed_answer ::
  "(string \<Rightarrow> string + discover_record list) \<Rightarrow> instant \<times> string \<Rightarrow> get_error + discover_record list" where
  "compressed_answer load nk =
     (case load (snd nk) of
        Inl err \<Rightarrow> Inl (LoadFailed err)
      | Inr rs \<Rightarrow> (case serialise_records rs of Inl err \<Rightarrow> Inl (CacheFailed err) | Inr _ \<Rightarrow> Inr rs))"

definition compressed_inv ::
  "(string \<Rightarrow> string + discover_record list) \<Rightarrow> (u8 list \<Rightarrow> string + u8 list) \<Rightarrow> nat
     \<Rightarrow> cache_entry cache_state \<Rightarrow> bool" where
  "compressed_inv load decompress d s \<longleftrightarrow> cache_ok ce_size d s \<and>
     (\<forall>(k, e) \<in> set (cs_cache s). \<exists>rs bytes. load k = Inr rs \<and> serialise_records rs = Inr bytes \<and>
        (\<forall>now. entry_decompress decompress (entry_touch now e) = Inr rs))"

lemma entry_touch_touch [simp]: "entry_touch now (entry_touch now' e) = entry_touch now e"
  by (simp add: entry_touch_def)

lemma ce_size_touch [simp]: "ce_size (entry_touch now e) = ce_size e"
  by (simp add: entry_touch_def)

lemma compressed_hit_ok:
  assumes "compressed_inv load dec d s" "map_of (cs_cache s) k = Some e"
  shows "\<exists>rs. compressed_get load cmp dec cap (now, k) s =
      (Inr rs, s\<lparr>cs_cache := AList.update k (entry_touch now e) (cs_cache s), cs_hits := cs_hits s + 1\<rparr>) \<and>
    compressed_answer load (now, k) = Inr rs"
    and "compressed_inv load dec d
      (s\<lparr>cs_cache := AList.update k (entry_touch now e) (cs_cache s), cs_hits := cs_hits s + 1\<rparr>)"
proof -
  have "(k, e) \<in> set (cs_cache s)" using assms(2) by (simp add: map_of_SomeD)
  with assms(1) obtain rs bytes where rs: "load k = Inr rs" "serialise_records rs = Inr bytes"
    "\<And>now. entry_decompress dec (entry_touch now e) = Inr rs"
    by (fastforce simp: compressed_inv_def)
  with assms(2) show "\<exists>rs. compressed_get load cmp dec cap (now, k) s =
      (Inr rs, s\<lparr>cs_cache := AList.update k (entry_touch now e) (cs_cache s), cs_hits := cs_hits s + 1\<rparr>) \<and>
    compressed_answer load (now, k) = Inr rs"
    by (auto simp: compressed_get_def compressed_answer_def Let_def)
  have "cache_ok ce_size d
      (s\<lparr>cs_cache := AList.update k (entry_touch now e) (cs_cache s), cs_hits := cs_hits s + 1\<rparr>)"
    using assms by (intro cache_ok_touch) (auto simp: compressed_inv_def)
  then show "compressed_inv load dec d
      (s\<lparr>cs_cache := AList.update k (entry_touch now e) (cs_cache s), cs_hits := cs_hits s + 1\<rparr>)"
    using assms(1) rs set_update_subset [of k "entry_touch now e" "cs_cache s"]
    by (auto simp: compressed_inv_def)
qed

lemma compressed_miss_ok:
  assumes inv: "compressed_inv load dec d s" and none: "map_of (cs_cache s) k = None"
    and lossless: "\<And>bs. dec (cmp bs) = Inr bs"
    and strings: "\<And>k rs. load k = Inr rs \<Longrightarrow> list_all (\<lambda>r. rust_string (r_uuid r)) rs"
  shows "fst (compressed_get load cmp dec cap (now, k) s) = compressed_answer load (now, k) \<and>
    compressed_inv load dec d (snd (compressed_get load cmp dec cap (now, k) s)) \<and>
    (lru_bounded cap None s \<longrightarrow> lru_bounded cap None (snd (compressed_get load cmp dec cap (now, k) s)))"
proof (cases "load k")
  case (Inl err)
  with assms show ?thesis
    by (simp add: compressed_get_def compressed_answer_def compressed_inv_def cache_ok_def
        lru_bounded_def Let_def)
next
  case (Inr rs)
  show ?thesis
  proof (cases "entry_new cmp now rs")
    case (Inl err)
    then have "serialise_records rs = Inl err" by (auto simp: entry_new_def and_then_Inl_iff Let_def)
    with Inr Inl none inv show ?thesis
      by (simp add: compressed_get_def compressed_answer_def compressed_inv_def cache_ok_def
          lru_bounded_def Let_def)
  next
    case new: (Inr e)
    then obtain bytes where bytes: "serialise_records rs = Inr bytes" by (auto simp: entry_new_def)
    let ?s1 = "s\<lparr>cs_misses := cs_misses s + 1\<rparr>"
    let ?s2 = "compressed_evict cap (ce_size e) ?s1"
    have "cache_ok ce_size d ?s1" using inv by (simp add: compressed_inv_def cache_ok_def)
    note s2 = evict_while_ok [OF this, of ce_last_access "\<lambda>s. cap < cs_bytes s + ce_size e",
        folded compressed_evict_def]
    have "k \<notin> fst ` set (cs_cache ?s2)" using s2 none by (force simp: map_of_eq_None_iff)
    then have upd: "AList.update k e (cs_cache ?s2) = cs_cache ?s2 @ [(k, e)]" "k \<notin> fst ` set (cs_cache ?s2)"
      by (simp_all add: alist_update_new)
    have "entry_decompress dec (entry_touch now' e) = Inr rs" for now'
      by (rule entry_roundtrip [OF new strings [OF Inr]]) (rule lossless)
    with Inr bytes s2 upd inv have "compressed_inv load dec d
        (?s2\<lparr>cs_bytes := cs_bytes ?s2 + ce_size e, cs_cache := AList.update k e (cs_cache ?s2)\<rparr>)"
      by (auto simp: compressed_inv_def cache_ok_def)
    moreover have "lru_bounded cap None
        (?s2\<lparr>cs_bytes := cs_bytes ?s2 + ce_size e, cs_cache := AList.update k e (cs_cache ?s2)\<rparr>)"
      using s2 upd by (auto simp: lru_bounded_def)
    ultimately show ?thesis
      using Inr new bytes none by (simp add: compressed_get_def compressed_answer_def Let_def)
  qed
qed

text \<open>With a lossless codec and well-formed identifiers the compressed cache keeps the contract.\<close>

lemma compressed_cache_contract:
  assumes lossless: "\<And>bs. dec (cmp bs) = Inr bs"
    and strings: "\<And>k rs. load k = Inr rs \<Longrightarrow> list_all (\<lambda>r. rust_string (r_uuid r)) rs"
  shows "bounded_cache (compressed_get load cmp dec cap) (compressed_inv load dec d)
    (compressed_answer load) (lru_bounded cap None)"
proof
  fix s and nk :: "instant \<times> string" assume inv: "compressed_inv load dec d s"
  obtain now k where nk: "nk = (now, k)" by (cases nk)
  have goal: "fst (compressed_get load cmp dec cap nk s) = compressed_answer load nk \<and>
      compressed_inv load dec d (snd (compressed_get load cmp dec cap nk s)) \<and>
      (lru_bounded cap None s \<longrightarrow> lru_bounded cap None (snd (compressed_get load cmp dec cap nk s)))"
  proof (cases "map_of (cs_cache s) k")
    case None
    with compressed_miss_ok [OF inv None lossless strings] nk show ?thesis by simp
  next
    case (Some e)
    have "length (AList.update k (entry_touch now e) (cs_cache s)) = length (cs_cache s)"
      using update_same_fst [OF Some] by (metis length_map)
    with compressed_hit_ok(1) [OF inv Some, of cmp cap now] compressed_hit_ok(2) [OF inv Some, of now] nk
    show ?thesis by (auto simp: lru_bounded_def)
  qed
  then show "fst (compressed_get load cmp dec cap nk s) = compressed_answer load nk"
    "compressed_inv load dec d (snd (compressed_get load cmp dec cap nk s))"
    "lru_bounded cap None s \<Longrightarrow> lru_bounded cap None (snd (compressed_get load cmp dec cap nk s))"
    by blast+
qed

section \<open>The memoising cache\<close>

text \<open>
  \<open>RecordCache\<close>: one \<open>OnceLock\<close> cell per neuron, filled once with the loader's answer, errors
  included. \<open>mc_loads\<close> logs the loader calls. Whether the deadline had passed when a lookup
  started comes with its key.
\<close>

record memo_cache =
  mc_cells :: "(string \<times> (string + discover_record list) option) list"
  mc_loads :: "string list"

datatype memo_error = AnalysisDeadlineExceeded string | LoadRecordsFailed string string

definition memo_new :: memo_cache where
  "memo_new = \<lparr>mc_cells = [], mc_loads = []\<rparr>"

definition memo_preloaded :: "(string \<times> discover_record list) list \<Rightarrow> memo_cache" where
  "memo_preloaded shared = \<lparr>mc_cells = map (\<lambda>(k, v). (k, Some (Inr v))) shared, mc_loads = []\<rparr>"

definition memo_entry :: "string \<Rightarrow> memo_cache \<Rightarrow> memo_cache" where
  "memo_entry k c =
     (case map_of (mc_cells c) k of
        None \<Rightarrow> c\<lparr>mc_cells := AList.update k None (mc_cells c)\<rparr>
      | Some _ \<Rightarrow> c)"

definition memo_get_or_init ::
  "(string \<Rightarrow> string + discover_record list) \<Rightarrow> string \<Rightarrow> memo_cache
     \<Rightarrow> (string + discover_record list) \<times> memo_cache" where
  "memo_get_or_init load k c =
     (case map_of (mc_cells c) k of
        Some (Some r) \<Rightarrow> (r, c)
      | _ \<Rightarrow> (load k, c\<lparr>mc_cells := AList.update k (Some (load k)) (mc_cells c),
                       mc_loads := mc_loads c @ [k]\<rparr>))"

definition memo_get ::
  "(string \<Rightarrow> string + discover_record list) \<Rightarrow> bool \<times> string \<Rightarrow> memo_cache
     \<Rightarrow> (memo_error + discover_record list) \<times> memo_cache" where
  "memo_get load pk c =
     (case pk of (deadline_passed, k) \<Rightarrow>
        if deadline_passed then (Inl (AnalysisDeadlineExceeded k), c)
        else (case memo_get_or_init load k (memo_entry k c) of
                (Inr rs, c') \<Rightarrow> (Inr rs, c')
              | (Inl msg, c') \<Rightarrow> (Inl (LoadRecordsFailed k msg), c')))"

definition memo_len :: "memo_cache \<Rightarrow> nat" where
  "memo_len c = length (mc_cells c)"

definition loaded_record_count :: "memo_cache \<Rightarrow> nat" where
  "loaded_record_count c =
     sum_list (map (\<lambda>(_, cell). case cell of Some (Inr rs) \<Rightarrow> length rs | _ \<Rightarrow> 0) (mc_cells c))"

text \<open>The bulk lookups keep the neurons whose records load, in order.\<close>

fun keep_ok :: "('k \<times> ('e + 'r)) list \<Rightarrow> ('k \<times> 'r) list" where
  "keep_ok [] = []"
| "keep_ok ((k, Inl _) # xs) = keep_ok xs"
| "keep_ok ((k, Inr r) # xs) = (k, r) # keep_ok xs"

definition load_records_for_uuids ::
  "(string \<Rightarrow> string + discover_record list) \<Rightarrow> (bool \<times> string) list \<Rightarrow> memo_cache
     \<Rightarrow> (string \<times> discover_record list) list \<times> memo_cache" where
  "load_records_for_uuids load pks c =
     (case run_gets (memo_get load) pks c of
        (rs, c') \<Rightarrow> (keep_ok (zip (map snd pks) rs), c'))"

definition with_deadline :: "(nat \<Rightarrow> bool) \<Rightarrow> string list \<Rightarrow> (bool \<times> string) list" where
  "with_deadline passed uuids = map (\<lambda>(i, u). (passed i, u)) (enumerate 0 uuids)"

definition load_records_for_neuron_types ::
  "(string \<Rightarrow> string + discover_record list) \<Rightarrow> (nat \<Rightarrow> bool) \<Rightarrow> creature_json \<Rightarrow> string list
     \<Rightarrow> memo_cache \<Rightarrow> (string \<times> discover_record list) list \<times> memo_cache" where
  "load_records_for_neuron_types load passed c types =
     load_records_for_uuids load
       (with_deadline passed (map n_uuid (filter (\<lambda>n. n_type n \<in> set types) (c_neurons c))))"

definition load_records_for_all_neurons ::
  "(string \<Rightarrow> string + discover_record list) \<Rightarrow> (nat \<Rightarrow> bool) \<Rightarrow> creature_json
     \<Rightarrow> memo_cache \<Rightarrow> (string \<times> discover_record list) list \<times> memo_cache" where
  "load_records_for_all_neurons load passed c =
     load_records_for_uuids load (with_deadline passed (map n_uuid (c_neurons c)))"

fun first_occurrences :: "string list \<Rightarrow> string list \<Rightarrow> string list" where
  "first_occurrences seen [] = []"
| "first_occurrences seen (x # xs) =
     (if x \<in> set seen then first_occurrences seen xs else x # first_occurrences (x # seen) xs)"

definition load_records_for_synapse_sources ::
  "(string \<Rightarrow> string + discover_record list) \<Rightarrow> (nat \<Rightarrow> bool) \<Rightarrow> creature_json
     \<Rightarrow> memo_cache \<Rightarrow> (string \<times> discover_record list) list \<times> memo_cache" where
  "load_records_for_synapse_sources load passed c =
     load_records_for_uuids load
       (with_deadline passed (first_occurrences [] (map s_from (c_synapses c))))"

definition memo_answer ::
  "(string \<Rightarrow> string + discover_record list) \<Rightarrow> bool \<times> string \<Rightarrow> memo_error + discover_record list" where
  "memo_answer load pk =
     (case pk of (deadline_passed, k) \<Rightarrow>
        if deadline_passed then Inl (AnalysisDeadlineExceeded k)
        else (case load k of Inl msg \<Rightarrow> Inl (LoadRecordsFailed k msg) | Inr rs \<Rightarrow> Inr rs))"

definition memo_inv :: "(string \<Rightarrow> string + discover_record list) \<Rightarrow> memo_cache \<Rightarrow> bool" where
  "memo_inv load c \<longleftrightarrow>
     (\<forall>k r. map_of (mc_cells c) k = Some (Some r) \<longrightarrow> r = load k) \<and>
     distinct (mc_loads c) \<and> (\<forall>k \<in> set (mc_loads c). \<exists>r. map_of (mc_cells c) k = Some (Some r))"

lemma memo_get_ok:
  assumes "memo_inv load c"
  shows "fst (memo_get load pk c) = memo_answer load pk \<and> memo_inv load (snd (memo_get load pk c))"
proof -
  obtain passed k where pk: "pk = (passed, k)" by (cases pk)
  show ?thesis
  proof (cases "\<exists>r. map_of (mc_cells c) k = Some (Some r)")
    case True
    then obtain r where r: "map_of (mc_cells c) k = Some (Some r)" by blast
    with assms have "r = load k" by (simp add: memo_inv_def)
    with r assms pk show ?thesis
      by (auto simp: memo_get_def memo_answer_def memo_entry_def memo_get_or_init_def split: sum.split)
  next
    case False
    let ?c = "memo_entry k c"
    have cells: "map_of (mc_cells ?c) = (map_of (mc_cells c))(k \<mapsto> None)" "mc_loads ?c = mc_loads c"
      using False by (auto simp: memo_entry_def update_conv' fun_eq_iff split: option.splits)
    have "k \<notin> set (mc_loads c)" using False assms by (auto simp: memo_inv_def)
    with assms have "memo_inv load (?c\<lparr>mc_cells := AList.update k (Some (load k)) (mc_cells ?c),
        mc_loads := mc_loads ?c @ [k]\<rparr>)"
      by (auto simp: memo_inv_def cells update_conv')
    moreover have "memo_get_or_init load k ?c = (load k,
        ?c\<lparr>mc_cells := AList.update k (Some (load k)) (mc_cells ?c), mc_loads := mc_loads ?c @ [k]\<rparr>)"
      by (simp add: memo_get_or_init_def cells)
    ultimately show ?thesis
      using assms pk by (auto simp: memo_get_def memo_answer_def split: sum.split)
  qed
qed

interpretation memo: record_cache "memo_get load" "memo_inv load" "memo_answer load" for load
  by unfold_locales (use memo_get_ok in auto)

section \<open>Which cache to use\<close>

datatype loading_strategy = PreloadAll | LruCache u64 | Streaming

definition decompression_ratio :: u64 where "decompression_ratio = 3"

definition select_loading_strategy :: "u64 \<Rightarrow> u64 \<Rightarrow> loading_strategy" where
  "select_loading_strategy file_size_bytes available_memory_bytes =
     (let estimated_expanded = sat_mul file_size_bytes decompression_ratio;
          small_threshold = available_memory_bytes div 4
      in if estimated_expanded < small_threshold then PreloadAll
         else if estimated_expanded < available_memory_bytes then LruCache (available_memory_bytes div 2)
         else Streaming)"

datatype cache_preload_mode = Preload | Lazy | SkipUnworkable
datatype cache_lazy_reason = NoReason | Budget | NoBudget | MemoryPressure | Unworkable

definition bytes_per_mb :: u64 where "bytes_per_mb = 1048576"
definition lazy_overbook_skip_ratio :: u64 where "lazy_overbook_skip_ratio = 10"

definition clamp_budget_mb_to_host :: "u64 \<Rightarrow> u64 \<Rightarrow> u64" where
  "clamp_budget_mb_to_host budget_mb host_total_mb =
     (if 0 < host_total_mb \<and> host_total_mb < budget_mb then min budget_mb host_total_mb else budget_mb)"

definition parquet_preload_fits_available :: "u64 \<Rightarrow> u64 \<Rightarrow> u64 \<Rightarrow> bool" where
  "parquet_preload_fits_available projected available margin \<longleftrightarrow> projected \<le> sat_sub available margin"

definition decide_cache_preload_for_budget :: "u64 \<Rightarrow> u64 \<Rightarrow> cache_preload_mode \<times> cache_lazy_reason" where
  "decide_cache_preload_for_budget projected_bytes budget_mb =
     (let budget_bytes = sat_mul budget_mb bytes_per_mb in
      if 0 < budget_mb \<and> sat_mul budget_bytes lazy_overbook_skip_ratio < projected_bytes
      then (SkipUnworkable, Unworkable)
      else if budget_bytes < projected_bytes then (Lazy, Budget)
      else (Preload, NoReason))"

definition decide_cache_preload_for_available_memory ::
  "u64 \<Rightarrow> u64 \<Rightarrow> u64 \<Rightarrow> cache_preload_mode \<times> cache_lazy_reason" where
  "decide_cache_preload_for_available_memory projected_bytes available_bytes margin_bytes =
     (if parquet_preload_fits_available projected_bytes available_bytes margin_bytes
      then (Preload, NoReason) else (Lazy, MemoryPressure))"

definition decide_analysis_cache_preload ::
  "u64 \<Rightarrow> u64 option \<Rightarrow> u64 \<Rightarrow> u64 \<Rightarrow> u64 \<Rightarrow> cache_preload_mode \<times> cache_lazy_reason \<times> u64" where
  "decide_analysis_cache_preload projected_bytes budget_mb available_bytes margin_bytes host_total_mb =
     (case budget_mb of
        Some raw_budget \<Rightarrow>
          let budget = clamp_budget_mb_to_host raw_budget host_total_mb in
          (case decide_cache_preload_for_budget projected_bytes budget of
             (mode, reason) \<Rightarrow>
               if mode = SkipUnworkable \<or> mode = Lazy then (mode, reason, budget)
               else if fst (decide_cache_preload_for_available_memory projected_bytes available_bytes
                              margin_bytes) = Lazy
               then (Lazy, MemoryPressure, budget)
               else (Preload, NoReason, budget))
      | None \<Rightarrow>
          let mode = fst (decide_cache_preload_for_available_memory projected_bytes available_bytes margin_bytes)
          in (mode, if mode = Lazy then NoBudget else NoReason, 0))"

section \<open>Properties\<close>

lemma cache_new_ok: "cache_ok sz 0 cache_new" "lru_inv load 0 cache_new" "lru_bounded cap mx cache_new"
  "compressed_inv load dec 0 cache_new"
  by (simp_all add: cache_ok_def total_size_def cache_new_def lru_inv_def lru_bounded_def
      compressed_inv_def split: option.split)

text \<open>
  A cache within its capacity, or with a single entry: beyond the capacity only one entry that is
  itself larger.
\<close>

lemma lru_over_capacity:
  assumes "cache_ok le_size_bytes d s" "lru_bounded cap mx s"
  shows "total_size le_size_bytes (cs_cache s) \<le> cap \<or>
    (\<exists>k e. cs_cache s = [(k, e)] \<and> cap < le_size_bytes e)"
proof (cases "cs_bytes s \<le> cap")
  case True
  with assms(1) show ?thesis by (simp add: cache_ok_def)
next
  case False
  with assms(2) have "length (cs_cache s) \<le> 1" by (simp add: lru_bounded_def)
  then have "cs_cache s = [] \<or> (\<exists>k e. cs_cache s = [(k, e)])"
    by (cases "cs_cache s") auto
  then show ?thesis by (auto simp: total_size_def not_le)
qed

lemma lru_entry_limit:
  "lru_bounded cap mx s \<Longrightarrow> case mx of None \<Rightarrow> True | Some m \<Rightarrow> length (cs_cache s) \<le> max m 1"
  by (simp add: lru_bounded_def)

text \<open>
  C9. The LRU cache is invisible. After any sequence of lookups one after another, with any clock,
  every answer was the loader's answer for its neuron, and the byte count is exactly the size of
  what is cached. When lookups of several threads interleave in any way, their two critical
  sections being the atomic steps, every answered lookup still has the loader's answer, and the
  byte count covers what is cached (two misses of one neuron may leave it larger). In both cases
  the cached size is within the capacity, except that a single entry larger than the capacity is
  kept alone, and the entry limit holds, a limit of 0 acting as 1.
\<close>
theorem lru_cache_transparent:
  "(case run_gets (lru_get load record_size capacity_bytes max_entries) nks cache_new of
     (answers, s) \<Rightarrow> answers = map (\<lambda>(_, k). load k) nks \<and>
       cs_bytes s = total_size le_size_bytes (cs_cache s) \<and>
       (cs_bytes s \<le> capacity_bytes \<or>
          (\<exists>k e. cs_cache s = [(k, e)] \<and> capacity_bytes < le_size_bytes e)) \<and>
       (case max_entries of None \<Rightarrow> True | Some mx \<Rightarrow> length (cs_cache s) \<le> max mx 1)) \<and>
   (case lru_interleaved load record_size capacity_bytes max_entries sections of
     (s, calls) \<Rightarrow>
       (\<forall>i. case calls i of Some (Answered k r) \<Rightarrow> r = load k | _ \<Rightarrow> True) \<and>
       total_size le_size_bytes (cs_cache s) \<le> cs_bytes s \<and>
       (total_size le_size_bytes (cs_cache s) \<le> capacity_bytes \<or>
          (\<exists>k e. cs_cache s = [(k, e)] \<and> capacity_bytes < le_size_bytes e)) \<and>
       (case max_entries of None \<Rightarrow> True | Some mx \<Rightarrow> length (cs_cache s) \<le> max mx 1))"
proof (intro conjI)
  let ?run = "run_gets (lru_get load record_size capacity_bytes max_entries) nks cache_new"
  have run: "fst ?run = map (\<lambda>nk. load (snd nk)) nks" "lru_inv load 0 (snd ?run)"
    "lru_bounded capacity_bytes max_entries (snd ?run)"
    using lru.run_answers [OF cache_new_ok(2)] lru.run_bounded [OF cache_new_ok(2,3)] by blast+
  from run(2) have ok: "cache_ok le_size_bytes 0 (snd ?run)" by (simp add: lru_inv_def)
  show "case ?run of (answers, s) \<Rightarrow> answers = map (\<lambda>(_, k). load k) nks \<and>
       cs_bytes s = total_size le_size_bytes (cs_cache s) \<and>
       (cs_bytes s \<le> capacity_bytes \<or>
          (\<exists>k e. cs_cache s = [(k, e)] \<and> capacity_bytes < le_size_bytes e)) \<and>
       (case max_entries of None \<Rightarrow> True | Some mx \<Rightarrow> length (cs_cache s) \<le> max mx 1)"
    using run(1) lru_over_capacity [OF ok run(3)] lru_entry_limit [OF run(3)] ok
    unfolding case_prod_beta by (simp add: cache_ok_def)
next
  obtain s calls where i: "lru_interleaved load record_size capacity_bytes max_entries sections = (s, calls)"
    by force
  have "calls_ok load Map.empty" by (simp add: calls_ok_def)
  from lru_sections_ok [OF cache_new_ok(2,3) this i [unfolded lru_interleaved_def]] obtain d where
    inv: "lru_inv load d s" "lru_bounded capacity_bytes max_entries s" "calls_ok load calls" by blast
  from inv(1) have ok: "cache_ok le_size_bytes d s" by (simp add: lru_inv_def)
  show "case lru_interleaved load record_size capacity_bytes max_entries sections of
     (s, calls) \<Rightarrow>
       (\<forall>i. case calls i of Some (Answered k r) \<Rightarrow> r = load k | _ \<Rightarrow> True) \<and>
       total_size le_size_bytes (cs_cache s) \<le> cs_bytes s \<and>
       (total_size le_size_bytes (cs_cache s) \<le> capacity_bytes \<or>
          (\<exists>k e. cs_cache s = [(k, e)] \<and> capacity_bytes < le_size_bytes e)) \<and>
       (case max_entries of None \<Rightarrow> True | Some mx \<Rightarrow> length (cs_cache s) \<le> max mx 1)"
    using inv(3) lru_over_capacity [OF ok inv(2)] lru_entry_limit [OF inv(2)] ok
    by (simp add: i cache_ok_def calls_ok_def)
qed

text \<open>
  The type's comment promises no more than \<open>max_entries\<close> entries and a total size within the byte
  capacity at any time. One entry outlives both limits: a lookup under an entry limit of 0 leaves
  its entry cached, whatever its size.
\<close>
theorem one_entry_outlives_limits:
  assumes "load k = Inr rs"
  shows "case lru_get load record_size capacity_bytes (Some 0) (now, k) cache_new of
    (_, s) \<Rightarrow> map fst (cs_cache s) = [k] \<and> cs_bytes s = estimate_records_size record_size rs"
proof -
  have empty: "evict_if_needed capacity_bytes (Some 0) n s = s" if "cs_cache s = []" for n and s :: "lru_entry cache_state"
  proof -
    have "evict_while la sz cond s = s" for la sz cond
      using that by (simp add: evict_while.simps [of la sz cond s] evict_one_def find_lru_key_def)
    then show ?thesis by (simp add: evict_if_needed_def)
  qed
  show ?thesis
    using assms by (simp add: lru_get_def lru_hit_def lru_insert_def empty cache_new_def lru_entry_new_def Let_def)
qed

theorem one_entry_outlives_limits_witness:
  "case lru_get (\<lambda>_. Inr [new_record 1 ''a'' None 0 []]) 64 10 (Some 0) (1, ''a'') cache_new of
    (_, s) \<Rightarrow> length (cs_cache s) = 1 \<and> 10 < cs_bytes s"
proof -
  have n: "estimate_records_size 64 [new_record 1 ''a'' None 0 []] = 65"
    by (simp add: estimate_records_size_def new_record_def)
  have "case lru_get (\<lambda>_. Inr [new_record 1 ''a'' None 0 []]) 64 10 (Some 0) (1, ''a'') cache_new of
    (_, s) \<Rightarrow> map fst (cs_cache s) = [''a''] \<and> cs_bytes s = estimate_records_size 64 [new_record 1 ''a'' None 0 []]"
    by (rule one_entry_outlives_limits) simp
  then show ?thesis by (auto simp: n dest: arg_cong [of _ _ length])
qed

lemma evict_one_removes:
  assumes "cache_ok sz d s" "evict_one la sz s = (True, s')" "x \<in> set (cs_cache s)" "x \<notin> set (cs_cache s')"
    "y \<in> set (cs_cache s)"
  shows "la (snd x) \<le> la (snd y)"
proof -
  from assms(2) obtain m where m: "find_lru la (cs_cache s) = Some m"
    "cs_cache s' = AList.delete (fst m) (cs_cache s)"
    by (auto simp: evict_one_def find_lru_key_def split: option.splits)
  note least = find_lru_Some [OF m(1)]
  from assms(3,4) m(2) have "fst x = fst m" by (auto simp: alist_delete_filter)
  with assms(1,3) least have "x = m"
    by (metis cache_ok_def eq_key_imp_eq_value prod.collapse)
  with least assms(5) show ?thesis by blast
qed

lemma evict_while_removes:
  "cache_ok sz d s \<Longrightarrow> x \<in> set (cs_cache s) \<Longrightarrow> x \<notin> set (cs_cache (evict_while la sz cond s)) \<Longrightarrow>
   y \<in> set (cs_cache (evict_while la sz cond s)) \<Longrightarrow> la (snd x) \<le> la (snd y)"
proof (induction la sz cond s rule: evict_while.induct)
  case (1 la sz cond s)
  obtain b s' where b: "evict_one la sz s = (b, s')" by force
  note ok = evict_one_ok [OF 1(2) b]
  show ?case
  proof (cases "cond s \<and> b")
    case True
    then have eq: "evict_while la sz cond s = evict_while la sz cond s'"
      using b by (simp add: evict_while.simps [of la sz cond s])
    have y: "y \<in> set (cs_cache s)"
      using 1(5) eq ok evict_while_ok [of sz d s' la cond] by auto
    show ?thesis
    proof (cases "x \<in> set (cs_cache s')")
      case True
      have "cond s" and bt: "(True, s') = evict_one la sz s" using \<open>cond s \<and> b\<close> b by auto
      from "1.IH" [OF this(1) bt refl] ok True 1(4,5) eq show ?thesis by simp
    next
      case False
      then show ?thesis using evict_one_removes [OF 1(2) _ 1(3) _ y] \<open>cond s \<and> b\<close> b by simp
    qed
  next
    case False
    with b have "cs_cache (evict_while la sz cond s) = cs_cache s"
      using evict_one_False [of la sz s]
      by (auto simp: evict_while.simps [of la sz cond s] evict_one_def split: option.splits)
    with 1 show ?thesis by simp
  qed
qed

text \<open>
  Eviction is least recently used first: an entry that an insertion evicted was accessed no
  later than any entry that it kept.
\<close>
theorem eviction_takes_least_recent:
  assumes "lru_inv load d s" "e = lru_entry_new record_size now rs"
    and "s' = evict_if_needed capacity_bytes max_entries (le_size_bytes e) s"
    and "x \<in> set (cs_cache s)" "x \<notin> set (cs_cache s')" "y \<in> set (cs_cache s')"
  shows "le_last_access (snd x) \<le> le_last_access (snd y)"
proof -
  let ?s1 = "evict_while le_last_access le_size_bytes (\<lambda>s. capacity_bytes < cs_bytes s + le_size_bytes e) s"
  have ok: "cache_ok le_size_bytes d s" using assms(1) by (simp add: lru_inv_def)
  note s1 = evict_while_ok [OF ok, of le_last_access "\<lambda>s. capacity_bytes < cs_bytes s + le_size_bytes e"]
  show ?thesis
  proof (cases max_entries)
    case None
    with assms ok show ?thesis
      by (auto simp: evict_if_needed_def intro: evict_while_removes)
  next
    case (Some mx)
    let ?s2 = "evict_while le_last_access le_size_bytes (\<lambda>s. mx \<le> length (cs_cache s)) ?s1"
    have s': "s' = ?s2" using Some assms(3) by (simp add: evict_if_needed_def)
    have "y \<in> set (cs_cache ?s1)"
      using assms(6) s' evict_while_ok [OF s1 [THEN conjunct1], of le_last_access "\<lambda>s. mx \<le> length (cs_cache s)"]
      by blast
    with assms(4-6) s' ok s1 show ?thesis
      by (cases "x \<in> set (cs_cache ?s1)") (auto intro: evict_while_removes)
  qed
qed

theorem eviction_takes_least_recent_witness:
  "le_last_access (lru_entry_new 64 3 []) \<le> le_last_access (lru_entry_new 64 5 []) \<and>
   (let s = \<lparr>cs_cache = [(''b'', lru_entry_new 64 5 []), (''a'', lru_entry_new 64 3 [])],
             cs_bytes = 0, cs_hits = 0, cs_misses = 0, cs_evictions = 0\<rparr>
    in cs_cache (evict_if_needed 10 (Some 2) 0 s) = [(''b'', lru_entry_new 64 5 [])])"
proof -
  let ?s = "\<lparr>cs_cache = [(''b'', lru_entry_new 64 5 []), (''a'', lru_entry_new 64 3 [])],
             cs_bytes = 0, cs_hits = 0, cs_misses = 0, cs_evictions = 0\<rparr> :: lru_entry cache_state"
  have inv: "lru_inv (\<lambda>_. Inr []) 0 ?s"
    by (simp add: lru_inv_def cache_ok_def total_size_def lru_entry_new_def estimate_records_size_def)
  have e0: "le_size_bytes (lru_entry_new 64 9 []) = 0"
    by (simp add: lru_entry_new_def estimate_records_size_def)
  have evicted: "cs_cache (evict_if_needed 10 (Some 2) 0 ?s) = [(''b'', lru_entry_new 64 5 [])]"
    by (simp add: evict_if_needed_def evict_while.simps evict_one_def find_lru_key_def lru_entry_new_def)
  have "le_last_access (snd (''a'', lru_entry_new 64 3 [])) \<le> le_last_access (snd (''b'', lru_entry_new 64 5 []))"
    by (rule eviction_takes_least_recent [OF inv refl refl,
          where record_size = 64 and now = 9 and rs = "[]" and capacity_bytes = 10 and max_entries = "Some 2"])
       (simp_all add: e0 evicted)
  with evicted show ?thesis by (simp add: Let_def)
qed

lemma alist_update_last: "k \<notin> fst ` set xs \<Longrightarrow> AList.update k v (xs @ [(k, w)]) = xs @ [(k, v)]"
  by (induction xs) auto

lemma no_eviction:
  "cs_bytes s + n \<le> cap \<Longrightarrow> evict_if_needed cap None n s = s"
  by (simp add: evict_if_needed_def evict_while.simps)

text \<open>
  Without the lock held across the load, two concurrent misses of one neuron count its bytes
  twice while the second insertion replaces the first entry: after both, and after any later
  lookups, the byte count exceeds the cached size by that entry, and no eviction takes the excess
  away.
\<close>
theorem racing_misses_leak_bytes:
  assumes "lru_inv load 0 s" "map_of (cs_cache s) k = None" "load k = Inr rs"
    and "n = estimate_records_size record_size rs" "cs_bytes s + 2 * n \<le> capacity_bytes"
    and "s2 = lru_insert record_size capacity_bytes None t2 k rs
                (lru_insert record_size capacity_bytes None t1 k rs s)"
    and "s' = snd (run_gets (lru_get load record_size capacity_bytes None) nks s2)"
  shows "cs_bytes s' = total_size le_size_bytes (cs_cache s') + n"
proof -
  let ?e = "\<lambda>t. lru_entry_new record_size t rs"
  let ?s1 = "lru_insert record_size capacity_bytes None t1 k rs s"
  have size: "le_size_bytes (?e t) = n" for t by (simp add: lru_entry_new_def assms(4))
  have notin: "k \<notin> fst ` set (cs_cache s)" using assms(2) by (simp add: map_of_eq_None_iff)
  have s1: "?s1 = s\<lparr>cs_bytes := cs_bytes s + n, cs_cache := cs_cache s @ [(k, ?e t1)]\<rparr>"
    using assms(5) notin by (simp add: lru_insert_def size no_eviction alist_update_new Let_def)
  have "s2 = ?s1\<lparr>cs_bytes := cs_bytes s + n + n, cs_cache := AList.update k (?e t2) (cs_cache s @ [(k, ?e t1)])\<rparr>"
    using assms(5) unfolding assms(6) lru_insert_def [of _ _ _ t2] by (simp add: size no_eviction Let_def s1)
  moreover have "AList.update k (?e t2) (cs_cache s @ [(k, ?e t1)]) = cs_cache s @ [(k, ?e t2)]"
    using notin by (rule alist_update_last)
  ultimately have "lru_inv load n s2"
    using assms(1,3) notin size by (auto simp: lru_inv_def cache_ok_def s1 lru_entry_new_def)
  from lru.run_answers [OF this, of record_size capacity_bytes None nks] assms(7)
  show ?thesis by (simp add: lru_inv_def cache_ok_def)
qed

theorem racing_misses_leak_bytes_witness:
  "cs_bytes (lru_insert 64 1000 None 2 ''a'' [new_record 1 ''a'' None 0 []]
     (lru_insert 64 1000 None 1 ''a'' [new_record 1 ''a'' None 0 []] cache_new)) = 130 \<and>
   total_size le_size_bytes (cs_cache (lru_insert 64 1000 None 2 ''a'' [new_record 1 ''a'' None 0 []]
     (lru_insert 64 1000 None 1 ''a'' [new_record 1 ''a'' None 0 []] cache_new))) = 65"
proof -
  let ?rs = "[new_record 1 ''a'' None 0 []]"
  let ?s2 = "lru_insert 64 1000 None 2 ''a'' ?rs (lru_insert 64 1000 None 1 ''a'' ?rs cache_new)"
  have n: "65 = estimate_records_size 64 ?rs" by (simp add: estimate_records_size_def new_record_def)
  have "cs_bytes ?s2 = total_size le_size_bytes (cs_cache ?s2) + 65"
    by (rule racing_misses_leak_bytes [OF cache_new_ok(2) _ _ n _ refl, where nks = "[]" and load = "\<lambda>_. Inr ?rs"])
       (simp_all add: cache_new_def)
  moreover have "total_size le_size_bytes (cs_cache ?s2) = 65"
    by (simp add: lru_insert_def Let_def no_eviction lru_entry_new_def cache_new_def
        estimate_records_size_def new_record_def total_size_def)
  ultimately show ?thesis by simp
qed

text \<open>
  With a lossless compressor and well-formed identifiers the compressed cache is invisible
  too: every answer is the loaded records, or the load or format error, and the compressed bytes
  stay within the capacity unless a single entry is cached.
\<close>
theorem compressed_cache_transparent:
  assumes "\<And>bs. decompress (compress bs) = Inr bs"
    and "\<And>k rs. load k = Inr rs \<Longrightarrow> list_all (\<lambda>r. rust_string (r_uuid r)) rs"
    and "run_gets (compressed_get load compress decompress capacity_bytes) nks cache_new = (answers, s)"
  shows "answers = map (compressed_answer load) nks \<and>
    cs_bytes s = total_size ce_size (cs_cache s) \<and>
    (cs_bytes s \<le> capacity_bytes \<or> length (cs_cache s) \<le> 1)"
proof -
  have c: "bounded_cache (compressed_get load compress decompress capacity_bytes)
      (compressed_inv load decompress 0) (compressed_answer load) (lru_bounded capacity_bytes None)"
    by (rule compressed_cache_contract) (fact assms(1), fact assms(2))
  then have r: "record_cache (compressed_get load compress decompress capacity_bytes)
      (compressed_inv load decompress 0) (compressed_answer load)"
    by (simp add: bounded_cache_def)
  from record_cache.run_answers [OF r cache_new_ok(4), of nks] assms(3)
  have "answers = map (compressed_answer load) nks" "compressed_inv load decompress 0 s" by simp_all
  moreover have "lru_bounded capacity_bytes None s"
    using bounded_cache.run_bounded [OF c cache_new_ok(4,3), of nks] assms(3) by simp
  ultimately show ?thesis by (simp add: compressed_inv_def cache_ok_def lru_bounded_def)
qed

theorem compressed_cache_transparent_witness:
  "fst (run_gets (compressed_get (\<lambda>k. if k = ''x'' then Inr cached_sample else Inl ''gone'') rev
       (\<lambda>bs. Inr (rev bs)) 50) [(1, ''x''), (2, ''y''), (3, ''x'')] cache_new) =
     [Inr cached_sample, Inl (LoadFailed ''gone''), Inr cached_sample]"
proof -
  let ?load = "\<lambda>k. if k = ''x'' then Inr cached_sample else Inl ''gone''"
  obtain answers s where run: "run_gets (compressed_get ?load rev (\<lambda>bs. Inr (rev bs)) 50)
      [(1, ''x''), (2, ''y''), (3, ''x'')] cache_new = (answers, s)" by force
  obtain bytes where "serialise_records cached_sample = Inr bytes"
    using serialise_records_Inr [of cached_sample] by (auto simp: cached_sample_def new_record_def)
  then have "map (compressed_answer ?load) [(1, ''x''), (2, ''y''), (3, ''x'')] =
      [Inr cached_sample, Inl (LoadFailed ''gone''), Inr cached_sample]"
    by (simp add: compressed_answer_def)
  moreover have "answers = map (compressed_answer ?load) [(1, ''x''), (2, ''y''), (3, ''x'')]"
    using compressed_cache_transparent [OF _ _ run] cached_sample_strings
    by (metis Inl_Inr_False rev_rev_ident sum.inject(2))
  ultimately show ?thesis using run by simp
qed

text \<open>
  The memoising cache asks the loader at most once per neuron, however often it is looked up
  and whether or not the load failed, and answers every lookup with the loader's answer unless
  the deadline had passed.
\<close>
theorem memo_cache_loads_once:
  "case run_gets (memo_get load) pks memo_new of
     (answers, c) \<Rightarrow> answers = map (memo_answer load) pks \<and> distinct (mc_loads c)"
proof -
  have "memo_inv load memo_new" by (simp add: memo_inv_def memo_new_def)
  from memo.run_answers [OF this, of pks] show ?thesis
    by (cases "run_gets (memo_get load) pks memo_new") (simp add: memo_inv_def)
qed

text \<open>
  The preload decision is exact: the saturating arithmetic never changes it. With a budget
  (clamped to the host) analysis is skipped when the projection is more than ten times the budget,
  lazy when it exceeds the budget or the memory left after the margin, and preloaded otherwise;
  without one only memory counts.
\<close>
theorem preload_decision_exact:
  "fst (decide_analysis_cache_preload projected budget_mb available margin host_mb) =
     (case budget_mb of
        None \<Rightarrow> if unat available - unat margin < unat projected then Lazy else Preload
      | Some raw \<Rightarrow>
          let b = (if 0 < unat host_mb then min (unat raw) (unat host_mb) else unat raw) in
          if 0 < b \<and> b * 1048576 * 10 < unat projected then SkipUnworkable
          else if b * 1048576 < unat projected \<or> unat available - unat margin < unat projected then Lazy
          else Preload)"
proof -
  have p: "unat projected < 2 ^ 64" using unat_lt_length [of projected] by simp
  have clamp: "unat (clamp_budget_mb_to_host raw host_mb) =
      (if 0 < unat host_mb then min (unat raw) (unat host_mb) else unat raw)" for raw
    by (auto simp: clamp_budget_mb_to_host_def word_less_nat_alt word_le_nat_alt min_def)
  have fits: "parquet_preload_fits_available projected available margin \<longleftrightarrow>
      \<not> unat available - unat margin < unat projected"
    by (simp add: parquet_preload_fits_available_def word_le_nat_alt unat_sat_sub not_less)
  have mb: "unat bytes_per_mb = 1048576" "unat lazy_overbook_skip_ratio = 10"
    by (simp_all add: bytes_per_mb_def lazy_overbook_skip_ratio_def)
  have over: "sat_mul b bytes_per_mb < projected \<longleftrightarrow> unat b * 1048576 < unat projected" for b
    using p by (auto simp: word_less_nat_alt unat_sat_mul mb min_def)
  have skip: "sat_mul (sat_mul b bytes_per_mb) lazy_overbook_skip_ratio < projected \<longleftrightarrow>
      unat b * 1048576 * 10 < unat projected" for b
    using p by (auto simp: word_less_nat_alt unat_sat_mul mb min_def)
  have pos: "0 < b \<longleftrightarrow> 0 < unat b" for b :: u64 by (simp add: word_less_nat_alt)
  show ?thesis
    by (auto simp: decide_analysis_cache_preload_def decide_cache_preload_for_budget_def
        decide_cache_preload_for_available_memory_def Let_def over skip pos clamp fits
        split: option.splits)
qed

end
