(* ===== verification/Reader.thy ===== *)
theory Reader
  imports Recording
begin

text \<open>
  Reading recordings back (\<open>src/parquet_format/\<close>): the schema check and the record readers
  (\<open>reader.rs\<close>), the projection of a file's decoded size from its footer (\<open>footer.rs\<close>), the decode
  budget (\<open>decode_budget.rs\<close>) and the process-wide cache of grouped records
  (\<open>shared_records.rs\<close>).

  What the Parquet crate reports of a file is the record \<open>parquet_file\<close>: its columns and fields,
  its row groups and its batches. \<open>size_of::<DiscoverRecord>()\<close> and the crate's default batch size
  are the parameters of \<open>limits\<close>.
\<close>

section \<open>Schema\<close>

datatype data_type = UInt32 | Utf8 | Float32 | ListOf data_type bool | OtherType string

record pq_field =
  f_name :: string
  f_type :: data_type
  f_nullable :: bool

definition create_schema :: "pq_field list" where
  "create_schema =
     [\<lparr>f_name = ''obs_index'', f_type = UInt32, f_nullable = False\<rparr>,
      \<lparr>f_name = ''neuron_uuid'', f_type = Utf8, f_nullable = False\<rparr>,
      \<lparr>f_name = ''value'', f_type = Float32, f_nullable = True\<rparr>,
      \<lparr>f_name = ''activation'', f_type = Float32, f_nullable = False\<rparr>,
      \<lparr>f_name = ''errors'', f_type = ListOf Float32 False, f_nullable = False\<rparr>]"

definition expected_columns :: "string list" where
  "expected_columns = [''obs_index'', ''neuron_uuid'', ''value'', ''activation'', ''errors'']"

datatype column_profile = Full | WithoutErrors | ActivationOnly

fun root_indices :: "column_profile \<Rightarrow> nat list" where
  "root_indices Full = [0, 1, 2, 3, 4]"
| "root_indices WithoutErrors = [0, 1, 2, 3]"
| "root_indices ActivationOnly = [1, 3]"

definition includes_errors :: "column_profile \<Rightarrow> bool" where
  "includes_errors p \<longleftrightarrow> p = Full"

definition root_names :: "column_profile \<Rightarrow> string list" where
  "root_names p = map (\<lambda>i. expected_columns ! i) (root_indices p)"

fun data_type_matches :: "data_type \<Rightarrow> data_type \<Rightarrow> bool" where
  "data_type_matches (ListOf actual a) (ListOf expected e) = (actual = expected \<and> a = e)"
| "data_type_matches actual expected = (actual = expected)"

datatype read_error =
    TmpSuffix
  | OpenFailed string
  | TooFewColumns nat nat
  | IndexBeyondFields nat nat
  | WrongName nat string string
  | WrongType nat data_type data_type
  | NullableColumn nat string
  | MissingUuidColumn
  | BadUuidColumn nat
  | FooterInvalid string int
  | FooterOverflow
  | FooterMismatch u64 u64
  | BudgetExceeded u64
  | BatchFailed string
  | DecodeFailed decode_error
  | DeadlinePassed
  | CancelledByHost
  | DeadlineReached nat nat

fun check_fields :: "pq_field list \<Rightarrow> nat list \<Rightarrow> read_error + unit" where
  "check_fields fs [] = Inr ()"
| "check_fields fs (idx # rest) =
     (let actual = fs ! idx; expected = create_schema ! idx; expected_name = expected_columns ! idx in
      if f_name actual \<noteq> expected_name then Inl (WrongName idx expected_name (f_name actual))
      else if \<not> data_type_matches (f_type actual) (f_type expected)
      then Inl (WrongType idx (f_type actual) (f_type expected))
      else if f_nullable actual \<and> \<not> f_nullable expected then Inl (NullableColumn idx expected_name)
      else check_fields fs rest)"

definition validate_parquet_schema :: "nat \<Rightarrow> pq_field list \<Rightarrow> column_profile \<Rightarrow> read_error + unit" where
  "validate_parquet_schema num_columns fs profile =
     (let indices = root_indices profile;
          max_index = fold max indices 0;
          required_count = max_index + 1;
          field_count = length fs
      in if num_columns < required_count then Inl (TooFewColumns required_count num_columns)
         else if field_count \<le> max_index then Inl (IndexBeyondFields max_index field_count)
         else check_fields fs indices)"

definition validate_neuron_uuid_column :: "pq_field list \<Rightarrow> read_error + nat" where
  "validate_neuron_uuid_column fs =
     (case find (\<lambda>(_, f). f_name f = ''neuron_uuid'') (enumerate 0 fs) of
        None \<Rightarrow> Inl MissingUuidColumn
      | Some (index, f) \<Rightarrow>
          if f_type f \<noteq> Utf8 \<or> f_nullable f then Inl (BadUuidColumn index) else Inr index)"

section \<open>Footer\<close>

datatype encoding = Plain | Rle | BitPacked | OtherEncoding string

record column_chunk =
  cc_path :: "string list"
  cc_uncompressed_size :: int
  cc_num_values :: int
  cc_unencoded_bytes :: "int option"
  cc_encodings :: "encoding list"

record row_group =
  rg_num_rows :: int
  rg_total_byte_size :: int
  rg_columns :: "column_chunk list"

record limits =
  lm_struct_bytes :: u64
  lm_batch_size :: u64

definition u64_try_from :: "int \<Rightarrow> u64 option" where
  "u64_try_from v = (if 0 \<le> v \<and> v < 2 ^ 64 then Some (word_of_int v) else None)"

definition footer_u64 :: "int \<Rightarrow> string \<Rightarrow> read_error + u64" where
  "footer_u64 v fld = (case u64_try_from v of Some w \<Rightarrow> Inr w | None \<Rightarrow> Inl (FooterInvalid fld v))"

definition checked_add_u64 :: "u64 \<Rightarrow> u64 \<Rightarrow> u64 option" where
  "checked_add_u64 a b = (if unat a + unat b < 2 ^ 64 then Some (a + b) else None)"

definition sum_row_group_rows :: "int list \<Rightarrow> read_error + u64" where
  "sum_row_group_rows counts =
     fold_res (\<lambda>s c. and_then (footer_u64 c ''row-group num_rows'') (\<lambda>w.
        case checked_add_u64 s w of Some t \<Rightarrow> Inr t | None \<Rightarrow> Inl FooterOverflow)) 0 counts"

definition error_value_bytes :: u64 where "error_value_bytes = 4"
definition assumed_uuid_heap_bytes :: u64 where "assumed_uuid_heap_bytes = 36"

record footer_stats =
  fs_num_rows :: u64
  fs_uncompressed_bytes :: u64
  fs_error_values :: u64
  fs_uuid_heap_bytes :: u64

definition projected_in_memory_bytes :: "limits \<Rightarrow> footer_stats \<Rightarrow> u64" where
  "projected_in_memory_bytes lm st =
     (let records = sat_mul (fs_num_rows st) (lm_struct_bytes lm);
          errors = sat_mul (fs_error_values st) error_value_bytes;
          projected = sat_add (sat_add records (fs_uuid_heap_bytes st)) errors
      in if fs_uncompressed_bytes st < projected then projected else fs_uncompressed_bytes st)"

definition is_uuid_chunk :: "column_chunk \<Rightarrow> bool" where
  "is_uuid_chunk c = (case cc_path c of [] \<Rightarrow> False | root # _ \<Rightarrow> root = ''neuron_uuid'')"

definition column_uuid_heap_bytes :: "limits \<Rightarrow> column_chunk \<Rightarrow> u64 \<Rightarrow> u64" where
  "column_uuid_heap_bytes lm c rows =
     (case Option.bind (cc_unencoded_bytes c) u64_try_from of
        Some bytes \<Rightarrow> bytes
      | None \<Rightarrow>
          let least = sat_mul rows assumed_uuid_heap_bytes;
              uncompressed = (case u64_try_from (cc_uncompressed_size c) of Some w \<Rightarrow> w | None \<Rightarrow> 0);
              stores_values_in_full = list_all (\<lambda>e. e \<in> {Plain, Rle, BitPacked}) (cc_encodings c);
              decoded = (if stores_values_in_full then uncompressed
                         else sat_mul (min rows (lm_batch_size lm)) uncompressed)
          in max decoded least)"

definition neuron_uuid_heap_bytes :: "limits \<Rightarrow> row_group list \<Rightarrow> u64" where
  "neuron_uuid_heap_bytes lm groups =
     foldl sat_add 0 (map (\<lambda>g.
        let rows = (case u64_try_from (rg_num_rows g) of Some w \<Rightarrow> w | None \<Rightarrow> 0) in
        foldl sat_add 0 (map (\<lambda>c. column_uuid_heap_bytes lm c rows) (filter is_uuid_chunk (rg_columns g)))) groups)"

text \<open>The sums over the selected columns of one row group: bytes and error values.\<close>

definition add_chunk ::
  "string list \<Rightarrow> bool \<Rightarrow> u64 \<times> u64 \<Rightarrow> column_chunk \<Rightarrow> read_error + u64 \<times> u64" where
  "add_chunk selected include_errors = (\<lambda>(bytes, errors) c.
     case cc_path c of
       [] \<Rightarrow> Inr (bytes, errors)
     | root # _ \<Rightarrow>
         and_then (if root \<in> set selected
                   then and_then (footer_u64 (cc_uncompressed_size c) ''uncompressed_size'') (\<lambda>w. Inr (sat_add bytes w))
                   else Inr bytes) (\<lambda>bytes'.
         and_then (if include_errors \<and> root = ''errors''
                   then and_then (footer_u64 (cc_num_values c) ''num_values'') (\<lambda>w. Inr (sat_add errors w))
                   else Inr errors) (\<lambda>errors'. Inr (bytes', errors'))))"

definition projected_bytes_for_row_groups ::
  "limits \<Rightarrow> row_group list \<Rightarrow> string list \<Rightarrow> u64 \<Rightarrow> bool \<Rightarrow> read_error + u64" where
  "projected_bytes_for_row_groups lm groups selected record_overhead include_errors =
     and_then (fold_res (\<lambda>(rows, bytes, errors) g.
         and_then (footer_u64 (rg_num_rows g) ''row-group num_rows'') (\<lambda>w.
         and_then (fold_res (add_chunk selected include_errors) (bytes, errors) (rg_columns g)) (\<lambda>(bytes', errors').
           Inr (sat_add rows w, bytes', errors')))) (0, 0, 0) groups) (\<lambda>(rows, bytes, errors).
       let heap = (if ''neuron_uuid'' \<in> set selected then neuron_uuid_heap_bytes lm groups else 0) in
       Inr (max (sat_add (sat_add (sat_mul rows record_overhead) (sat_mul errors error_value_bytes)) heap) bytes))"

definition read_footer_stats :: "limits \<Rightarrow> int \<Rightarrow> row_group list \<Rightarrow> read_error + footer_stats" where
  "read_footer_stats lm file_num_rows groups =
     and_then (footer_u64 file_num_rows ''num_rows'') (\<lambda>num_rows.
     and_then (sum_row_group_rows (map rg_num_rows groups)) (\<lambda>row_group_rows.
     and_then (fold_res (\<lambda>(bytes, errors) g.
         and_then (footer_u64 (rg_total_byte_size g) ''total_byte_size'') (\<lambda>w.
         and_then (fold_res (\<lambda>errors c.
             and_then (footer_u64 (cc_num_values c) ''num_values'') (\<lambda>v.
               Inr (case cc_path c of root # _ \<Rightarrow> if root = ''errors'' then sat_add errors v else errors
                                    | [] \<Rightarrow> errors))) errors (rg_columns g)) (\<lambda>errors'.
           Inr (sat_add bytes w, errors')))) (0, 0) groups) (\<lambda>(bytes, errors).
       if num_rows \<noteq> row_group_rows then Inl (FooterMismatch num_rows row_group_rows)
       else Inr \<lparr>fs_num_rows = num_rows, fs_uncompressed_bytes = bytes, fs_error_values = errors,
                 fs_uuid_heap_bytes = neuron_uuid_heap_bytes lm groups\<rparr>)))"

section \<open>The decode budget\<close>

record decode_budget =
  db_limit :: "u64 option"
  db_consumed :: u64

definition budget_new :: "u64 option \<Rightarrow> decode_budget" where
  "budget_new limit = \<lparr>db_limit = limit, db_consumed = 0\<rparr>"

definition default_decode_limit_bytes :: "u64 \<Rightarrow> u64 option" where
  "default_decode_limit_bytes total_system_bytes =
     (if total_system_bytes = 0 then None else Some (total_system_bytes div 2))"

definition budget_resolve :: "u64 option \<Rightarrow> u64 option \<Rightarrow> u64 \<Rightarrow> decode_budget" where
  "budget_resolve budget_mb configured_mb total_bytes =
     (case Option.bind budget_mb (\<lambda>mb. if 0 < mb then Some mb else None) of
        Some mb \<Rightarrow> budget_new (Some (sat_mul mb 1048576))
      | None \<Rightarrow>
          (case configured_mb of
             Some mb \<Rightarrow> budget_new (Some (sat_mul mb 1048576))
           | None \<Rightarrow> budget_new (default_decode_limit_bytes total_bytes)))"

definition estimated_record_bytes :: "limits \<Rightarrow> nat \<Rightarrow> nat \<Rightarrow> u64" where
  "estimated_record_bytes lm uuid_len errors_len =
     sat_add (sat_add (lm_struct_bytes lm) (clamp_word uuid_len)) (sat_mul (clamp_word errors_len) 4)"

definition charge_record :: "limits \<Rightarrow> nat \<Rightarrow> nat \<Rightarrow> decode_budget \<Rightarrow> read_error + decode_budget" where
  "charge_record lm uuid_len errors_len b =
     (let b' = b\<lparr>db_consumed := sat_add (db_consumed b) (estimated_record_bytes lm uuid_len errors_len)\<rparr> in
      case db_limit b' of
        None \<Rightarrow> Inr b'
      | Some limit \<Rightarrow> if db_consumed b' \<le> limit then Inr b' else Inl (BudgetExceeded (db_consumed b')))"

definition check_projected :: "u64 \<Rightarrow> decode_budget \<Rightarrow> read_error + unit" where
  "check_projected projected b =
     (case db_limit b of
        Some limit \<Rightarrow> if limit < projected then Inl (BudgetExceeded projected) else Inr ()
      | None \<Rightarrow> Inr ())"

definition preflight_columns :: "limits \<Rightarrow> row_group list \<Rightarrow> string list \<Rightarrow> decode_budget \<Rightarrow> read_error + unit" where
  "preflight_columns lm groups selected b =
     and_then (projected_bytes_for_row_groups lm groups selected (lm_struct_bytes lm) (''errors'' \<in> set selected))
       (\<lambda>projected. check_projected projected b)"

definition root_overhead :: "string \<Rightarrow> u64" where
  "root_overhead root =
     (if root \<in> {''neuron_uuid'', ''obs_index'', ''value'', ''activation'', ''errors''} then 4 else 0)"

definition preflight_row_groups :: "limits \<Rightarrow> row_group list \<Rightarrow> string list \<Rightarrow> decode_budget \<Rightarrow> read_error + unit" where
  "preflight_row_groups lm groups selected b =
     fold_res (\<lambda>_ g.
       and_then (projected_bytes_for_row_groups lm [g] selected (sum_list (map root_overhead selected))
                   (''errors'' \<in> set selected))
         (\<lambda>projected. check_projected projected b)) () groups"

section \<open>Readers\<close>

text \<open>
  A file as the Parquet crate presents it: whether it opens, its columns and fields, its row
  groups, and its batches in order, each of which may fail to read or resolve.
\<close>

record parquet_file =
  pf_path :: string
  pf_open :: "string option"
  pf_num_columns :: nat
  pf_fields :: "pq_field list"
  pf_groups :: "row_group list"
  pf_batches :: "(string + columns) list"

definition ends_with :: "string \<Rightarrow> string \<Rightarrow> bool" where
  "ends_with suffix s \<longleftrightarrow> length suffix \<le> length s \<and> drop (length s - length suffix) s = suffix"

definition open_parquet_file :: "parquet_file \<Rightarrow> read_error + unit" where
  "open_parquet_file f =
     (if ends_with ''.parquet.tmp'' (pf_path f) then Inl TmpSuffix
      else case pf_open f of Some e \<Rightarrow> Inl (OpenFailed e) | None \<Rightarrow> Inr ())"

definition decode :: "bool \<Rightarrow> columns \<Rightarrow> nat \<Rightarrow> read_error + discover_record" where
  "decode include_errors cols i =
     (case decode_row include_errors cols i of Inl e \<Rightarrow> Inl (DecodeFailed e) | Inr r \<Rightarrow> Inr r)"

definition charge :: "limits \<Rightarrow> decode_budget \<Rightarrow> discover_record \<Rightarrow> read_error + decode_budget" where
  "charge lm b r = charge_record lm (length (r_uuid r)) (length (r_errors r)) b"

text \<open>The two nested loops every reader runs: over the batches, and over the rows of each.\<close>

definition over_rows ::
  "(columns \<Rightarrow> 's \<Rightarrow> nat \<Rightarrow> read_error + 's) \<Rightarrow> (string + columns) list \<Rightarrow> 's \<Rightarrow> read_error + 's" where
  "over_rows row batches st =
     fold_res (\<lambda>st batch. case batch of
        Inl e \<Rightarrow> Inl (BatchFailed e)
      | Inr cols \<Rightarrow> fold_res (row cols) st [0..<num_rows cols]) st batches"

definition filtered_row ::
  "limits \<Rightarrow> bool \<Rightarrow> string \<Rightarrow> columns \<Rightarrow> discover_record list \<times> decode_budget \<Rightarrow> nat
     \<Rightarrow> read_error + discover_record list \<times> decode_budget" where
  "filtered_row lm include_errors uuid cols = (\<lambda>(records, b) i.
     if col_uuid cols ! i \<noteq> uuid then Inr (records, b)
     else and_then (decode include_errors cols i) (\<lambda>r.
          and_then (charge lm b r) (\<lambda>b'. Inr (records @ [r], b'))))"

definition read_records_from_parquet_with_profile ::
  "limits \<Rightarrow> parquet_file \<Rightarrow> string \<Rightarrow> column_profile \<Rightarrow> decode_budget
     \<Rightarrow> read_error + discover_record list \<times> decode_budget" where
  "read_records_from_parquet_with_profile lm f uuid profile b =
     and_then (open_parquet_file f) (\<lambda>_.
     and_then (validate_parquet_schema (pf_num_columns f) (pf_fields f) profile) (\<lambda>_.
     and_then (preflight_row_groups lm (pf_groups f) (root_names profile) b) (\<lambda>_.
       over_rows (filtered_row lm (includes_errors profile) uuid) (pf_batches f) ([], b))))"

text \<open>The limited reader keeps the rows of the first \<open>max_obs\<close> distinct observations.\<close>

definition include_obs :: "u32 option \<Rightarrow> u32 list \<Rightarrow> u32 \<Rightarrow> bool \<times> u32 list" where
  "include_obs max_obs accepted obs =
     (case max_obs of
        None \<Rightarrow> (True, accepted)
      | Some mx \<Rightarrow>
          if obs \<in> set accepted then (True, accepted)
          else if length accepted < unat mx then (True, obs # accepted)
          else (False, accepted))"

definition limited_row ::
  "limits \<Rightarrow> bool \<Rightarrow> u32 option \<Rightarrow> columns \<Rightarrow> discover_record list \<times> u32 list \<times> decode_budget \<Rightarrow> nat
     \<Rightarrow> read_error + discover_record list \<times> u32 list \<times> decode_budget" where
  "limited_row lm include_errors max_obs cols = (\<lambda>(records, accepted, b) i.
     let (include_row, accepted') = include_obs max_obs accepted (col_obs cols ! i)
     in if \<not> include_row then Inr (records, accepted', b)
        else and_then (decode include_errors cols i) (\<lambda>r.
             and_then (charge lm b r) (\<lambda>b'. Inr (records @ [r], accepted', b'))))"

definition read_records_from_parquet_with_limit ::
  "limits \<Rightarrow> parquet_file \<Rightarrow> u32 option \<Rightarrow> column_profile \<Rightarrow> decode_budget
     \<Rightarrow> read_error + discover_record list" where
  "read_records_from_parquet_with_limit lm f max_obs profile b =
     (if max_obs = Some 0 then Inr []
      else
        and_then (open_parquet_file f) (\<lambda>_.
        and_then (validate_parquet_schema (pf_num_columns f) (pf_fields f) profile) (\<lambda>_.
        and_then (preflight_row_groups lm (pf_groups f) (root_names profile) b) (\<lambda>_.
        and_then (over_rows (limited_row lm (includes_errors profile) max_obs) (pf_batches f) ([], [], b))
          (\<lambda>(records, _, _). Inr records)))))"

text \<open>Grouping by neuron: an association list in order of first appearance.\<close>

definition add_record ::
  "discover_record \<Rightarrow> (string \<times> discover_record list) list \<Rightarrow> (string \<times> discover_record list) list" where
  "add_record r acc =
     (case map_of acc (r_uuid r) of
        Some existing \<Rightarrow> AList.update (r_uuid r) (existing @ [r]) acc
      | None \<Rightarrow> AList.update (r_uuid r) [r] acc)"

definition lookup_list :: "(string \<times> 'a list) list \<Rightarrow> string \<Rightarrow> 'a list" where
  "lookup_list m u = (case map_of m u of None \<Rightarrow> [] | Some xs \<Rightarrow> xs)"

definition grouped_row ::
  "limits \<Rightarrow> bool \<Rightarrow> columns \<Rightarrow> (string \<times> discover_record list) list \<times> decode_budget \<Rightarrow> nat
     \<Rightarrow> read_error + (string \<times> discover_record list) list \<times> decode_budget" where
  "grouped_row lm include_errors cols = (\<lambda>(groups, b) i.
     and_then (decode include_errors cols i) (\<lambda>r.
     and_then (charge lm b r) (\<lambda>b'. Inr (add_record r groups, b'))))"

text \<open>
  The grouped reader looks at the host's cancellation and at the deadline before every batch;
  their answers at batch \<open>i\<close> are \<open>cancelled i\<close> and \<open>deadline i\<close>.
\<close>

fun grouped_batches ::
  "limits \<Rightarrow> bool \<Rightarrow> (nat \<Rightarrow> bool) \<Rightarrow> (nat \<Rightarrow> bool) \<Rightarrow> nat \<Rightarrow> (string + columns) list
     \<Rightarrow> (string \<times> discover_record list) list \<times> decode_budget
     \<Rightarrow> read_error + (string \<times> discover_record list) list \<times> decode_budget" where
  "grouped_batches lm include_errors cancelled deadline n [] st = Inr st"
| "grouped_batches lm include_errors cancelled deadline n (batch # rest) st =
     (if cancelled n then Inl CancelledByHost
      else if deadline n then Inl (DeadlineReached n (length (fst st)))
      else and_then (over_rows (grouped_row lm include_errors) [batch] st)
             (\<lambda>st'. grouped_batches lm include_errors cancelled deadline (Suc n) rest st'))"

definition read_all_records_grouped_by_neuron_bounded ::
  "limits \<Rightarrow> parquet_file \<Rightarrow> bool \<Rightarrow> (nat \<Rightarrow> bool) \<Rightarrow> (nat \<Rightarrow> bool) \<Rightarrow> column_profile \<Rightarrow> decode_budget
     \<Rightarrow> read_error + (string \<times> discover_record list) list \<times> decode_budget" where
  "read_all_records_grouped_by_neuron_bounded lm f passed_before cancelled deadline profile b =
     (if passed_before then Inl DeadlinePassed
      else
        and_then (open_parquet_file f) (\<lambda>_.
        and_then (validate_parquet_schema (pf_num_columns f) (pf_fields f) profile) (\<lambda>_.
        and_then (preflight_columns lm (pf_groups f) (root_names profile) b) (\<lambda>_.
          grouped_batches lm (includes_errors profile) cancelled deadline 0 (pf_batches f) ([], b)))))"

section \<open>What the readers return\<close>

text \<open>All rows of the file, decoded in reading order.\<close>

definition file_records :: "bool \<Rightarrow> (string + columns) list \<Rightarrow> read_error + discover_record list" where
  "file_records include_errors batches =
     over_rows (\<lambda>cols rs i. and_then (decode include_errors cols i) (\<lambda>r. Inr (rs @ [r]))) batches []"

definition budget_bytes :: "limits \<Rightarrow> discover_record list \<Rightarrow> nat" where
  "budget_bytes lm rs =
     sum_list (map (\<lambda>r. unat (estimated_record_bytes lm (length (r_uuid r)) (length (r_errors r)))) rs)"

lemma decode_columns:
  assumes "decode ie cols i = Inr r"
  shows "r_uuid r = col_uuid cols ! i" "r_obs r = col_obs cols ! i"
  using assms by (auto simp: decode_def decode_row_def new_record_def split: sum.splits if_splits)

text \<open>A simulation of one reader's loops by the plain one.\<close>

lemma fold_res_sim:
  assumes "fold_res f s xs = Inr s'" "fold_res g t xs = Inr t'" "R s t"
    and "\<And>s t x s1 t1. R s t \<Longrightarrow> f s x = Inr s1 \<Longrightarrow> g t x = Inr t1 \<Longrightarrow> R s1 t1"
  shows "R s' t'"
  using assms
proof (induction xs arbitrary: s t)
  case Nil
  then show ?case by simp
next
  case (Cons x xs)
  from Cons.prems(1,2) obtain s1 t1 where "f s x = Inr s1" "fold_res f s1 xs = Inr s'"
    "g t x = Inr t1" "fold_res g t1 xs = Inr t'" by auto
  with Cons show ?case by metis
qed

lemma over_rows_sim:
  assumes "over_rows f batches s = Inr s'" "over_rows g batches t = Inr t'" "R s t"
    and step: "\<And>cols s t i s1 t1. R s t \<Longrightarrow> f cols s i = Inr s1 \<Longrightarrow> g cols t i = Inr t1 \<Longrightarrow> R s1 t1"
  shows "R s' t'"
proof -
  have "R s1 t1" if "R s t" and f: "(case batch of Inl e \<Rightarrow> Inl (BatchFailed e)
      | Inr cols \<Rightarrow> fold_res (f cols) s [0..<num_rows cols]) = Inr s1"
    and g: "(case batch of Inl e \<Rightarrow> Inl (BatchFailed e)
      | Inr cols \<Rightarrow> fold_res (g cols) t [0..<num_rows cols]) = Inr t1" for s t batch s1 t1
  proof (cases batch)
    case (Inr cols)
    with f g have "fold_res (f cols) s [0..<num_rows cols] = Inr s1"
      "fold_res (g cols) t [0..<num_rows cols] = Inr t1" by simp_all
    then show ?thesis by (rule fold_res_sim [where R = R]) (use that(1) step in blast)+
  qed (use f in simp)
  with assms(1,2,3) show ?thesis unfolding over_rows_def by (rule fold_res_sim [where R = R])
qed

lemma charge_Inr:
  assumes "charge lm b r = Inr b'"
  shows "db_limit b' = db_limit b \<and>
    unat (db_consumed b') = min (unat (db_consumed b) +
       unat (estimated_record_bytes lm (length (r_uuid r)) (length (r_errors r)))) (2 ^ 64 - 1) \<and>
    (\<forall>limit. db_limit b = Some limit \<longrightarrow> db_consumed b' \<le> limit)"
  using assms by (auto simp: charge_def charge_record_def Let_def unat_sat_add split: option.splits if_splits)

text \<open>What a budget that charged \<open>rs\<close> guarantees.\<close>

definition charged :: "limits \<Rightarrow> decode_budget \<Rightarrow> discover_record list \<Rightarrow> decode_budget \<Rightarrow> bool" where
  "charged lm b0 rs b \<longleftrightarrow> db_limit b = db_limit b0 \<and>
     unat (db_consumed b) = min (unat (db_consumed b0) + budget_bytes lm rs) (2 ^ 64 - 1) \<and>
     (rs \<noteq> [] \<longrightarrow> (\<forall>limit. db_limit b = Some limit \<longrightarrow> db_consumed b \<le> limit))"

lemma charged_empty: "charged lm b [] b"
  using unat_le_max [of "db_consumed b"] by (simp add: charged_def budget_bytes_def)

lemma charged_step: "charged lm b0 rs b \<Longrightarrow> charge lm b r = Inr b' \<Longrightarrow> charged lm b0 (rs @ [r]) b'"
  using charge_Inr [of lm b r b'] by (auto simp: charged_def budget_bytes_def min_def)

lemma filtered_spec:
  assumes "over_rows (filtered_row lm ie uuid) batches ([], b) = Inr (records, b')"
    and "file_records ie batches = Inr all"
  shows "records = filter (\<lambda>r. r_uuid r = uuid) all \<and> charged lm b records b'"
proof -
  let ?R = "\<lambda>(records, b') all. records = filter (\<lambda>r. r_uuid r = uuid) all \<and> charged lm b records b'"
  have "?R (records, b') all"
    using assms(1) assms(2) [unfolded file_records_def]
  proof (rule over_rows_sim [where R = ?R])
    show "?R ([], b) []" by (simp add: charged_empty)
  next
    fix cols s t i s1 t1
    assume R: "?R s t" and f: "filtered_row lm ie uuid cols s i = Inr s1"
      and g: "and_then (decode ie cols i) (\<lambda>r. Inr (t @ [r])) = Inr t1"
    from g obtain r where r: "decode ie cols i = Inr r" "t1 = t @ [r]" by auto
    note decode_columns [OF r(1)]
    with R f r show "?R s1 t1"
      by (auto simp: filtered_row_def split: prod.splits if_splits dest: charged_step)
  qed
  then show ?thesis unfolding prod.case .
qed

lemma lookup_add_record:
  "lookup_list (add_record r acc) u = lookup_list acc u @ (if r_uuid r = u then [r] else [])"
  by (auto simp: add_record_def lookup_list_def update_conv' split: option.splits)

lemma add_record_nonempty:
  "\<forall>u. map_of acc u \<noteq> Some [] \<Longrightarrow> map_of (add_record r acc) u \<noteq> Some []"
  by (auto simp: add_record_def update_conv' split: option.splits if_splits)

definition grouped_as :: "(string \<times> discover_record list) list \<Rightarrow> discover_record list \<Rightarrow> bool" where
  "grouped_as groups rs \<longleftrightarrow>
     (\<forall>u. lookup_list groups u = filter (\<lambda>r. r_uuid r = u) rs \<and> map_of groups u \<noteq> Some [])"

lemma grouped_as_add: "grouped_as groups rs \<Longrightarrow> grouped_as (add_record r groups) (rs @ [r])"
  by (simp add: grouped_as_def lookup_add_record add_record_nonempty)

lemma grouped_batches_over_rows:
  "grouped_batches lm ie cancelled deadline n batches st = Inr st' \<Longrightarrow>
   over_rows (grouped_row lm ie) batches st = Inr st'"
  by (induction batches arbitrary: n st)
     (auto simp: over_rows_def split: if_splits sum.splits)

lemma grouped_spec:
  assumes "over_rows (grouped_row lm ie) batches ([], b) = Inr (groups, b')"
    and "file_records ie batches = Inr all"
  shows "grouped_as groups all \<and> charged lm b all b'"
proof -
  let ?R = "\<lambda>(groups, b') all. grouped_as groups all \<and> charged lm b all b'"
  have "?R (groups, b') all"
    using assms(1) assms(2) [unfolded file_records_def]
  proof (rule over_rows_sim [where R = ?R])
    show "?R ([], b) []" by (simp add: charged_empty grouped_as_def lookup_list_def)
  next
    fix cols s t i s1 t1
    assume R: "?R s t" and f: "grouped_row lm ie cols s i = Inr s1"
      and g: "and_then (decode ie cols i) (\<lambda>r. Inr (t @ [r])) = Inr t1"
    from g obtain r where "decode ie cols i = Inr r" "t1 = t @ [r]" by auto
    with R f show "?R s1 t1"
      by (auto simp: grouped_row_def split: prod.splits dest: charged_step grouped_as_add)
  qed
  then show ?thesis unfolding prod.case .
qed


text \<open>The first \<open>n\<close> distinct values of a list, in order of first appearance.\<close>

definition firsts :: "nat \<Rightarrow> 'a list \<Rightarrow> 'a list" where
  "firsts n xs = take n (rev (remdups (rev xs)))"

lemma firsts_snoc:
  "firsts n (xs @ [x]) =
     (if x \<in> set xs \<or> n \<le> length (firsts n xs) then firsts n xs else firsts n xs @ [x])"
  by (auto simp: firsts_def)

lemma firsts_all: "length (firsts n xs) < n \<Longrightarrow> set (firsts n xs) = set xs"
  by (auto simp: firsts_def)

lemma set_firsts: "set (firsts n xs) \<subseteq> set xs"
  by (auto simp: firsts_def dest: in_set_takeD)

definition first_observations :: "u32 option \<Rightarrow> discover_record list \<Rightarrow> discover_record list" where
  "first_observations max_obs rs =
     (case max_obs of
        None \<Rightarrow> rs
      | Some mx \<Rightarrow> filter (\<lambda>r. r_obs r \<in> set (firsts (unat mx) (map r_obs rs))) rs)"

definition accepted_as :: "u32 option \<Rightarrow> u32 list \<Rightarrow> discover_record list \<Rightarrow> bool" where
  "accepted_as max_obs accepted rs =
     (case max_obs of
        None \<Rightarrow> True
      | Some mx \<Rightarrow> set accepted = set (firsts (unat mx) (map r_obs rs)) \<and>
                   length accepted = length (firsts (unat mx) (map r_obs rs)))"

lemma include_obs_step:
  assumes "accepted_as max_obs accepted rs" "include_obs max_obs accepted (r_obs r) = (inc, accepted')"
  shows "accepted_as max_obs accepted' (rs @ [r]) \<and>
    first_observations max_obs (rs @ [r]) = first_observations max_obs rs @ (if inc then [r] else [])"
proof (cases max_obs)
  case None
  with assms show ?thesis by (auto simp: accepted_as_def include_obs_def first_observations_def)
next
  case (Some mx)
  let ?f = "firsts (unat mx) (map r_obs rs)"
  have sub: "set ?f \<subseteq> r_obs ` set rs" using set_firsts by force
  have all: "length ?f < unat mx \<Longrightarrow> set ?f = r_obs ` set rs" using firsts_all by force
  consider "r_obs r \<in> set ?f" | "r_obs r \<notin> set ?f" "length ?f < unat mx"
    | "r_obs r \<notin> set ?f" "unat mx \<le> length ?f" by linarith
  then show ?thesis
  proof cases
    case 1
    with Some assms sub show ?thesis
      by (auto simp: accepted_as_def include_obs_def first_observations_def firsts_snoc)
  next
    case 2
    with all have new: "r_obs r \<notin> r_obs ` set rs" by simp
    then have "filter (\<lambda>x. r_obs x = r_obs r \<or> r_obs x \<in> set ?f) rs = filter (\<lambda>x. r_obs x \<in> set ?f) rs"
      by (intro filter_cong) (auto intro: rev_image_eqI)
    with 2 new Some assms show ?thesis
      by (auto simp: accepted_as_def include_obs_def first_observations_def firsts_snoc)
  next
    case 3
    with Some assms show ?thesis
      by (auto simp: accepted_as_def include_obs_def first_observations_def firsts_snoc)
  qed
qed

lemma limited_spec:
  assumes "over_rows (limited_row lm ie max_obs) batches ([], [], b) = Inr (records, accepted, b')"
    and "file_records ie batches = Inr all"
  shows "records = first_observations max_obs all \<and> charged lm b records b'"
proof -
  let ?R = "\<lambda>(records, accepted, b') all. accepted_as max_obs accepted all \<and>
    records = first_observations max_obs all \<and> charged lm b records b'"
  have "?R (records, accepted, b') all"
    using assms(1) assms(2) [unfolded file_records_def]
  proof (rule over_rows_sim [where R = ?R])
    show "?R ([], [], b) []"
      by (auto simp: charged_empty accepted_as_def first_observations_def firsts_def split: option.split)
  next
    fix cols s t i s1 t1
    assume R: "?R s t" and f: "limited_row lm ie max_obs cols s i = Inr s1"
      and g: "and_then (decode ie cols i) (\<lambda>r. Inr (t @ [r])) = Inr t1"
    from g obtain r where r: "decode ie cols i = Inr r" "t1 = t @ [r]" by auto
    obtain rs acc b1 where s: "s = (rs, acc, b1)" by (cases s)
    obtain inc acc' where inc: "include_obs max_obs acc (r_obs r) = (inc, acc')" by force
    note obs = decode_columns(2) [OF r(1), symmetric]
    from R s have "accepted_as max_obs acc t" by simp
    note step = include_obs_step [OF this inc]
    show "?R s1 t1"
    proof (cases inc)
      case True
      with f inc r s obtain b2 where "charge lm b1 r = Inr b2" "s1 = (rs @ [r], acc', b2)"
        by (auto simp: limited_row_def obs)
      with R s step r True show ?thesis by (auto intro: charged_step)
    next
      case False
      with f inc s have "s1 = (rs, acc', b1)"
        by (auto simp: limited_row_def obs)
      with R s step r False show ?thesis by auto
    qed
  qed
  then show ?thesis unfolding prod.case by (elim conjE) (intro conjI)
qed


text \<open>
  The other direction: where every row decodes and the records fit the budget, the loops of a
  reader run to their end.
\<close>

lemma fold_res_run:
  assumes "fold_res g t xs = Inr t'" "R s t" "Q t'"
    and down: "\<And>t x t1. g t x = Inr t1 \<Longrightarrow> Q t1 \<Longrightarrow> Q t"
    and step: "\<And>s t x t1. R s t \<Longrightarrow> g t x = Inr t1 \<Longrightarrow> Q t1 \<Longrightarrow> \<exists>s1. f s x = Inr s1 \<and> R s1 t1"
  shows "\<exists>s'. fold_res f s xs = Inr s' \<and> R s' t'"
proof -
  have Q: "Q t" if "fold_res g t xs = Inr t'" for t xs
    using that assms(3) by (induction xs arbitrary: t) (auto intro: down)
  from assms(1,2) show ?thesis
  proof (induction xs arbitrary: s t)
    case Nil
    then show ?case by simp
  next
    case (Cons x xs)
    from Cons.prems(1) obtain t1 where t1: "g t x = Inr t1" "fold_res g t1 xs = Inr t'" by auto
    from step [OF Cons.prems(2) t1(1) Q [OF t1(2)]] obtain s1 where "f s x = Inr s1" "R s1 t1" by blast
    with Cons.IH [OF t1(2)] show ?case by simp
  qed
qed

lemma over_rows_run:
  assumes "over_rows g batches t = Inr t'" "R s t" "Q t'"
    and down: "\<And>cols t i t1. g cols t i = Inr t1 \<Longrightarrow> Q t1 \<Longrightarrow> Q t"
    and step: "\<And>cols s t i t1. R s t \<Longrightarrow> g cols t i = Inr t1 \<Longrightarrow> Q t1 \<Longrightarrow> \<exists>s1. f cols s i = Inr s1 \<and> R s1 t1"
  shows "\<exists>s'. over_rows f batches s = Inr s' \<and> R s' t'"
proof -
  have Q: "Q t1" if "fold_res (g cols) t1 xs = Inr t2" "Q t2" for cols t1 xs t2
    using that by (induction xs arbitrary: t1) (auto intro: down)
  show ?thesis
    unfolding over_rows_def
  proof (rule fold_res_run [where Q = Q and R = R])
    show "fold_res (\<lambda>st batch. case batch of Inl e \<Rightarrow> Inl (BatchFailed e)
        | Inr cols \<Rightarrow> fold_res (g cols) st [0..<num_rows cols]) t batches = Inr t'"
      using assms(1) by (simp add: over_rows_def)
  next
    fix t1 batch t2
    assume "(case batch of Inl e \<Rightarrow> Inl (BatchFailed e)
        | Inr cols \<Rightarrow> fold_res (g cols) t1 [0..<num_rows cols]) = Inr t2" "Q t2"
    then show "Q t1" by (auto split: sum.splits intro: Q)
  next
    fix s t1 batch t2
    assume R: "R s t1" and g: "(case batch of Inl e \<Rightarrow> Inl (BatchFailed e)
        | Inr cols \<Rightarrow> fold_res (g cols) t1 [0..<num_rows cols]) = Inr t2" and "Q t2"
    from g obtain cols where cols: "batch = Inr cols" "fold_res (g cols) t1 [0..<num_rows cols] = Inr t2"
      by (auto split: sum.splits)
    have "\<exists>s1. fold_res (f cols) s [0..<num_rows cols] = Inr s1 \<and> R s1 t2"
      by (rule fold_res_run [where R = R and Q = Q and g = "g cols"]) (fact cols R \<open>Q t2\<close> down step)+
    with cols(1) show "\<exists>s1. (case batch of Inl e \<Rightarrow> Inl (BatchFailed e)
        | Inr cols \<Rightarrow> fold_res (f cols) s [0..<num_rows cols]) = Inr s1 \<and> R s1 t2" by simp
  qed (use assms in auto)
qed

definition fits :: "limits \<Rightarrow> decode_budget \<Rightarrow> discover_record list \<Rightarrow> bool" where
  "fits lm b rs = (case db_limit b of
     None \<Rightarrow> True | Some limit \<Rightarrow> unat (db_consumed b) + budget_bytes lm rs \<le> unat limit)"

lemma fits_subset: "fits lm b (rs @ [r]) \<Longrightarrow> fits lm b rs"
  by (auto simp: fits_def budget_bytes_def split: option.splits)

lemma charge_fits:
  assumes "charged lm b0 rs b" "fits lm b0 (rs @ [r])"
  shows "\<exists>b'. charge lm b r = Inr b' \<and> charged lm b0 (rs @ [r]) b'"
proof -
  have "\<exists>b'. charge lm b r = Inr b'"
    using assms
    by (auto simp: charge_def charge_record_def Let_def charged_def fits_def budget_bytes_def
        word_le_nat_alt unat_sat_add min_def split: option.splits)
  then show ?thesis using charged_step [OF assms(1)] by blast
qed


lemma fits_filter: "fits lm b rs \<Longrightarrow> fits lm b (filter P rs)"
  unfolding fits_def budget_bytes_def
  by (auto split: option.splits intro: order_trans [OF add_left_mono [OF sum_list_filter_le]])

lemma fits_first_observations: "fits lm b rs \<Longrightarrow> fits lm b (first_observations max_obs rs)"
  by (auto simp: first_observations_def fits_filter split: option.splits)

lemma filtered_run:
  assumes "file_records ie batches = Inr all" "fits lm b all"
  shows "\<exists>b'. over_rows (filtered_row lm ie uuid) batches ([], b) =
    Inr (filter (\<lambda>r. r_uuid r = uuid) all, b')"
proof -
  let ?R = "\<lambda>s t. fst s = filter (\<lambda>r. r_uuid r = uuid) t \<and> charged lm b (fst s) (snd s)"
  have "\<exists>s'. over_rows (filtered_row lm ie uuid) batches ([], b) = Inr s' \<and> ?R s' all"
    using assms(1) [unfolded file_records_def] _ assms(2)
  proof (rule over_rows_run [where R = ?R])
    show "?R ([], b) []" by (simp add: charged_empty)
  next
    fix cols t i t1
    assume "and_then (decode ie cols i) (\<lambda>r. Inr (t @ [r])) = Inr t1" "fits lm b t1"
    then show "fits lm b t" by (auto dest: fits_subset)
  next
    fix cols s t i t1
    assume R: "?R s t" and g: "and_then (decode ie cols i) (\<lambda>r. Inr (t @ [r])) = Inr t1"
      and fit: "fits lm b t1"
    from g obtain r where r: "decode ie cols i = Inr r" "t1 = t @ [r]" by auto
    obtain rs b1 where s: "s = (rs, b1)" by (cases s)
    show "\<exists>s1. filtered_row lm ie uuid cols s i = Inr s1 \<and> ?R s1 t1"
    proof (cases "r_uuid r = uuid")
      case True
      with fits_filter [OF fit, of "\<lambda>r. r_uuid r = uuid"] R r s
      have "fits lm b (rs @ [r])" "charged lm b rs b1" by auto
      from charge_fits [OF this(2,1)] obtain b2 where "charge lm b1 r = Inr b2" "charged lm b (rs @ [r]) b2"
        by blast
      with True R r s show ?thesis by (auto simp: filtered_row_def decode_columns(1) [OF r(1), symmetric])
    next
      case False
      with R r s show ?thesis by (auto simp: filtered_row_def decode_columns(1) [OF r(1), symmetric])
    qed
  qed
  then show ?thesis by auto
qed

lemma limited_run:
  assumes "file_records ie batches = Inr all" "fits lm b all"
  shows "\<exists>acc b'. over_rows (limited_row lm ie max_obs) batches ([], [], b) =
    Inr (first_observations max_obs all, acc, b')"
proof -
  let ?R = "\<lambda>s t. accepted_as max_obs (fst (snd s)) t \<and> fst s = first_observations max_obs t \<and>
    charged lm b (fst s) (snd (snd s))"
  have "\<exists>s'. over_rows (limited_row lm ie max_obs) batches ([], [], b) = Inr s' \<and> ?R s' all"
    using assms(1) [unfolded file_records_def] _ assms(2)
  proof (rule over_rows_run [where R = ?R])
    show "?R ([], [], b) []"
      by (auto simp: charged_empty accepted_as_def first_observations_def firsts_def split: option.split)
  next
    fix cols t i t1
    assume "and_then (decode ie cols i) (\<lambda>r. Inr (t @ [r])) = Inr t1" "fits lm b t1"
    then show "fits lm b t" by (auto dest: fits_subset)
  next
    fix cols s t i t1
    assume R: "?R s t" and g: "and_then (decode ie cols i) (\<lambda>r. Inr (t @ [r])) = Inr t1"
      and fit: "fits lm b t1"
    from g obtain r where r: "decode ie cols i = Inr r" "t1 = t @ [r]" by auto
    note obs = decode_columns(2) [OF r(1), symmetric]
    obtain rs acc b1 where s: "s = (rs, acc, b1)" by (cases s)
    obtain inc acc' where inc: "include_obs max_obs acc (r_obs r) = (inc, acc')" by force
    from R s have "accepted_as max_obs acc t" by simp
    note step = include_obs_step [OF this inc]
    show "\<exists>s1. limited_row lm ie max_obs cols s i = Inr s1 \<and> ?R s1 t1"
    proof (cases inc)
      case True
      with fits_first_observations [OF fit, of max_obs] R r s step
      have "fits lm b (rs @ [r])" "charged lm b rs b1" by auto
      from charge_fits [OF this(2,1)] obtain b2 where "charge lm b1 r = Inr b2" "charged lm b (rs @ [r]) b2"
        by blast
      with True R r s step inc show ?thesis by (auto simp: limited_row_def obs)
    next
      case False
      with R r s step inc show ?thesis by (auto simp: limited_row_def obs)
    qed
  qed
  then show ?thesis by auto
qed

lemma grouped_run:
  assumes "file_records ie batches = Inr all" "fits lm b all"
  shows "\<exists>groups b'. over_rows (grouped_row lm ie) batches ([], b) = Inr (groups, b') \<and> grouped_as groups all"
proof -
  let ?R = "\<lambda>s t. grouped_as (fst s) t \<and> charged lm b t (snd s)"
  have "\<exists>s'. over_rows (grouped_row lm ie) batches ([], b) = Inr s' \<and> ?R s' all"
    using assms(1) [unfolded file_records_def] _ assms(2)
  proof (rule over_rows_run [where R = ?R])
    show "?R ([], b) []" by (simp add: charged_empty grouped_as_def lookup_list_def)
  next
    fix cols t i t1
    assume "and_then (decode ie cols i) (\<lambda>r. Inr (t @ [r])) = Inr t1" "fits lm b t1"
    then show "fits lm b t" by (auto dest: fits_subset)
  next
    fix cols s t i t1
    assume R: "?R s t" and g: "and_then (decode ie cols i) (\<lambda>r. Inr (t @ [r])) = Inr t1"
      and fit: "fits lm b t1"
    from g obtain r where r: "decode ie cols i = Inr r" "t1 = t @ [r]" by auto
    with R fit obtain b2 where "charge lm (snd s) r = Inr b2" "charged lm b t1 b2"
      using charge_fits [of lm b t "snd s" r] by blast
    with R r show "\<exists>s1. grouped_row lm ie cols s i = Inr s1 \<and> ?R s1 t1"
      by (auto simp: grouped_row_def grouped_as_add split: prod.splits)
  qed
  then show ?thesis by auto
qed


lemma grouped_batches_run:
  "over_rows (grouped_row lm ie) batches st = Inr st' \<Longrightarrow>
   grouped_batches lm ie (\<lambda>_. False) (\<lambda>_. False) n batches st = Inr st'"
  by (induction batches arbitrary: n st) (auto simp: over_rows_def)

lemma grouped_decodes:
  assumes "over_rows (grouped_row lm ie) batches st = Inr st'"
  shows "\<exists>all. file_records ie batches = Inr all"
proof -
  have "\<exists>all. over_rows (\<lambda>cols rs i. and_then (decode ie cols i) (\<lambda>r. Inr (rs @ [r]))) batches [] =
      Inr (all :: discover_record list) \<and> True"
    using assms
  proof (rule over_rows_run [where R = "\<lambda>_ _. True" and Q = "\<lambda>_. True"])
    fix cols t i t1 and rs :: "discover_record list"
    assume "grouped_row lm ie cols t i = Inr t1"
    then show "\<exists>s1. and_then (decode ie cols i) (\<lambda>r. Inr (rs @ [r])) = Inr s1 \<and> True"
      by (auto simp: grouped_row_def split: prod.splits)
  qed simp_all
  then show ?thesis by (simp add: file_records_def)
qed

lemma filtered_charged:
  assumes "over_rows (filtered_row lm ie uuid) batches ([], b) = Inr (records, b')"
  shows "charged lm b records b'"
proof -
  let ?R = "\<lambda>s t. s = t \<and> charged lm b (fst s) (snd s)"
  from assms assms have "?R (records, b') (records, b')"
    by (rule over_rows_sim [where R = ?R])
       (auto simp: charged_empty filtered_row_def split: prod.splits if_splits dest: charged_step)
  then show ?thesis by simp
qed

section \<open>Properties of the readers\<close>

text \<open>A recording a reader can return: it opens, its schema is the writer's, every row decodes.\<close>

definition readable :: "parquet_file \<Rightarrow> column_profile \<Rightarrow> discover_record list \<Rightarrow> bool" where
  "readable f profile all \<longleftrightarrow>
     open_parquet_file f = Inr () \<and>
     validate_parquet_schema (pf_num_columns f) (pf_fields f) profile = Inr () \<and>
     file_records (includes_errors profile) (pf_batches f) = Inr all"

definition example_limits :: limits where
  "example_limits = \<lparr>lm_struct_bytes = 72, lm_batch_size = 1024\<rparr>"

definition example_rows :: "discover_record list" where
  "example_rows = [new_record 4 ''a'' None 1 [], new_record 4 ''b'' (Some 2) 2 [], new_record 5 ''a'' None 3 []]"

definition example_file :: parquet_file where
  "example_file =
     \<lparr>pf_path = ''d.parquet'', pf_open = None, pf_num_columns = 5, pf_fields = create_schema, pf_groups = [],
      pf_batches = [Inr (encode_columns cumulative (take 2 example_rows)),
                    Inr (encode_columns cumulative (drop 2 example_rows))]\<rparr>"

lemma example_readable: "readable example_file Full example_rows"
proof -
  have "open_parquet_file example_file = Inr ()" by code_simp
  moreover have "validate_parquet_schema (pf_num_columns example_file) (pf_fields example_file) Full = Inr ()"
    by code_simp
  moreover have "file_records (includes_errors Full) (pf_batches example_file) = Inr example_rows"
    by code_simp
  ultimately show ?thesis by (simp add: readable_def)
qed

lemma example_preflight:
  "preflight_row_groups lm (pf_groups example_file) (root_names Full) b = Inr ()"
  "preflight_columns lm (pf_groups example_file) (root_names Full) (budget_new (Some 400)) = Inr ()"
  by (simp_all add: preflight_row_groups_def preflight_columns_def example_file_def root_names_def
      expected_columns_def projected_bytes_for_row_groups_def neuron_uuid_heap_bytes_def sat_add_def
      sat_mul_def check_projected_def budget_new_def)

lemma example_estimate: "estimated_record_bytes example_limits (Suc 0) 0 = 73"
  by (simp add: estimated_record_bytes_def example_limits_def sat_add_def sat_mul_def clamp_word_def)

text \<open>
  C5. On a readable file whose footer passes the pre-flight check and whose records fit the
  budget, every reader succeeds: the reader of one neuron returns that neuron's rows in file
  order, the reader limited to \<open>n\<close> observations returns the rows of the first \<open>n\<close> distinct
  observations, and the grouped reader, when it is neither cancelled nor late, returns for every
  neuron exactly the rows the first reader returns for it.
\<close>

theorem readers_return_recording:
  assumes "readable f profile all" "fits lm b all"
    and "preflight_row_groups lm (pf_groups f) (root_names profile) b = Inr ()"
    and "preflight_columns lm (pf_groups f) (root_names profile) b = Inr ()"
  shows "(\<exists>b'. read_records_from_parquet_with_profile lm f uuid profile b =
            Inr (filter (\<lambda>r. r_uuid r = uuid) all, b')) \<and>
    read_records_from_parquet_with_limit lm f max_obs profile b = Inr (first_observations max_obs all) \<and>
    (\<exists>groups b'. read_all_records_grouped_by_neuron_bounded lm f False (\<lambda>_. False) (\<lambda>_. False) profile b =
            Inr (groups, b') \<and> (\<forall>u. lookup_list groups u = filter (\<lambda>r. r_uuid r = u) all))"
proof -
  from assms(1) have f: "open_parquet_file f = Inr ()"
    "validate_parquet_schema (pf_num_columns f) (pf_fields f) profile = Inr ()"
    "file_records (includes_errors profile) (pf_batches f) = Inr all" by (simp_all add: readable_def)
  note runs = filtered_run [OF f(3) assms(2)] limited_run [OF f(3) assms(2)] grouped_run [OF f(3) assms(2)]
  have "first_observations (Some 0) all = []" by (simp add: first_observations_def firsts_def)
  with f assms runs(1) [of uuid] runs(2) [of max_obs] runs(3) show ?thesis
    by (auto simp: read_records_from_parquet_with_profile_def read_records_from_parquet_with_limit_def
        read_all_records_grouped_by_neuron_bounded_def grouped_as_def dest!: grouped_batches_run [where n = 0])
qed

theorem readers_return_recording_witness:
  "read_records_from_parquet_with_limit example_limits example_file (Some 1) Full (budget_new (Some 400)) =
     Inr (take 2 example_rows)"
proof -
  have "fits example_limits (budget_new (Some 400)) example_rows"
    by (simp add: fits_def budget_new_def budget_bytes_def example_rows_def new_record_def example_estimate)
  from readers_return_recording [OF example_readable this example_preflight]
  have "read_records_from_parquet_with_limit example_limits example_file (Some 1) Full (budget_new (Some 400)) =
    Inr (first_observations (Some 1) example_rows)" by blast
  moreover have "first_observations (Some 1) example_rows = take 2 example_rows" by code_simp
  ultimately show ?thesis by simp
qed

lemma charged_within:
  assumes "charged lm b rs b'" "db_limit b = Some limit" "limit < - 1" "db_consumed b \<le> limit"
  shows "unat (db_consumed b) + budget_bytes lm rs \<le> unat limit"
proof (cases rs)
  case Nil
  with assms show ?thesis by (simp add: budget_bytes_def word_le_nat_alt)
next
  case Cons
  with assms(1,2) have "unat (db_consumed b') \<le> unat limit"
    "unat (db_consumed b') = min (unat (db_consumed b) + budget_bytes lm rs) (2 ^ 64 - 1)"
    by (auto simp: charged_def word_le_nat_alt)
  moreover have "unat limit < 2 ^ 64 - 1" using assms(3) by (simp add: word_less_nat_alt)
  ultimately show ?thesis by (simp add: min_def split: if_splits)
qed

text \<open>
  C12. Whatever the file holds and whatever its footer claims, a reader that succeeds under a budget
  below \<open>u64::MAX\<close> returned records whose estimated size, added to what the budget had already
  consumed, is within the limit: for the reader of one neuron the records it returns, for the
  grouped reader every row of the file.
\<close>

theorem reads_stay_within_budget:
  assumes "db_limit b = Some limit" "limit < - 1" "db_consumed b \<le> limit"
  shows "(case read_records_from_parquet_with_profile lm f uuid profile b of
      Inl _ \<Rightarrow> True
    | Inr (rs, _) \<Rightarrow> unat (db_consumed b) + budget_bytes lm rs \<le> unat limit) \<and>
    (case read_all_records_grouped_by_neuron_bounded lm f late cancelled deadline profile b of
      Inl _ \<Rightarrow> True
    | Inr (groups, _) \<Rightarrow> (\<exists>all. file_records (includes_errors profile) (pf_batches f) = Inr all \<and>
        (\<forall>u. lookup_list groups u = filter (\<lambda>r. r_uuid r = u) all) \<and>
        unat (db_consumed b) + budget_bytes lm all \<le> unat limit))"
proof (intro conjI)
  show "case read_records_from_parquet_with_profile lm f uuid profile b of
      Inl _ \<Rightarrow> True
    | Inr (rs, _) \<Rightarrow> unat (db_consumed b) + budget_bytes lm rs \<le> unat limit"
    using charged_within [OF _ assms]
    by (auto simp: read_records_from_parquet_with_profile_def split: sum.splits dest: filtered_charged)
next
  have "\<exists>all. file_records (includes_errors profile) (pf_batches f) = Inr all \<and>
        (\<forall>u. lookup_list groups u = filter (\<lambda>r. r_uuid r = u) all) \<and>
        unat (db_consumed b) + budget_bytes lm all \<le> unat limit"
    if "read_all_records_grouped_by_neuron_bounded lm f late cancelled deadline profile b = Inr (groups, b')"
    for groups b'
  proof -
    from that have rows: "over_rows (grouped_row lm (includes_errors profile)) (pf_batches f) ([], b) = Inr (groups, b')"
      by (auto simp: read_all_records_grouped_by_neuron_bounded_def split: if_splits
          dest: grouped_batches_over_rows)
    from grouped_decodes [OF this] obtain all
      where all: "file_records (includes_errors profile) (pf_batches f) = Inr all" by blast
    from grouped_spec [OF rows all] charged_within [OF _ assms, of lm all b'] all
    show ?thesis by (auto simp: grouped_as_def)
  qed
  then show "case read_all_records_grouped_by_neuron_bounded lm f late cancelled deadline profile b of
      Inl _ \<Rightarrow> True
    | Inr (groups, _) \<Rightarrow> (\<exists>all. file_records (includes_errors profile) (pf_batches f) = Inr all \<and>
        (\<forall>u. lookup_list groups u = filter (\<lambda>r. r_uuid r = u) all) \<and>
        unat (db_consumed b) + budget_bytes lm all \<le> unat limit)"
    by (auto split: sum.splits)
qed

theorem reads_stay_within_budget_witness:
  "\<not> (\<exists>b'. read_records_from_parquet_with_profile example_limits example_file ''a'' Full
        (budget_new (Some 100)) = Inr (filter (\<lambda>r. r_uuid r = ''a'') example_rows, b'))"
proof
  assume "\<exists>b'. read_records_from_parquet_with_profile example_limits example_file ''a'' Full
        (budget_new (Some 100)) = Inr (filter (\<lambda>r. r_uuid r = ''a'') example_rows, b')"
  then obtain b' where "read_records_from_parquet_with_profile example_limits example_file ''a'' Full
        (budget_new (Some 100)) = Inr (filter (\<lambda>r. r_uuid r = ''a'') example_rows, b')" ..
  with reads_stay_within_budget [of "budget_new (Some 100)" 100 example_limits example_file "''a''" Full]
  have "budget_bytes example_limits (filter (\<lambda>r. r_uuid r = ''a'') example_rows) \<le> 100"
    by (simp add: budget_new_def)
  moreover have "budget_bytes example_limits (filter (\<lambda>r. r_uuid r = ''a'') example_rows) = 146"
    by (simp add: budget_bytes_def example_rows_def new_record_def example_estimate)
  ultimately show False by simp
qed


text \<open>The schema the writer creates passes every profile, with or without further columns behind it.\<close>

lemma writer_schema_accepted:
  "validate_parquet_schema (5 + length extra) (create_schema @ extra) profile = Inr ()"
  by (cases profile)
     (simp_all add: validate_parquet_schema_def create_schema_def expected_columns_def nth_append)

text \<open>A footer that is accepted states the row count of the file without wrap-around.\<close>

lemma footer_u64_Inr: "footer_u64 v fld = Inr w \<Longrightarrow> int (unat w) = v"
  by (auto simp: footer_u64_def u64_try_from_def uint_word_of_int_eq take_bit_int_eq_self split: option.splits if_splits)

lemma sum_rows_from:
  "fold_res (\<lambda>s c. and_then (footer_u64 c ''row-group num_rows'') (\<lambda>w.
        case checked_add_u64 s w of Some t \<Rightarrow> Inr t | None \<Rightarrow> Inl FooterOverflow)) acc counts = Inr n \<Longrightarrow>
   int (unat n) = int (unat acc) + sum_list counts"
proof (induction counts arbitrary: acc)
  case (Cons c counts)
  from Cons.prems obtain w t where w: "footer_u64 c ''row-group num_rows'' = Inr w"
    and t: "checked_add_u64 acc w = Some t"
    and rest: "fold_res (\<lambda>s c. and_then (footer_u64 c ''row-group num_rows'') (\<lambda>w.
        case checked_add_u64 s w of Some t \<Rightarrow> Inr t | None \<Rightarrow> Inl FooterOverflow)) t counts = Inr n"
    by (auto split: option.splits)
  from w have "int (unat w) = c" by (rule footer_u64_Inr)
  moreover from t have "unat t = unat acc + unat w"
    by (auto simp: checked_add_u64_def unat_word_ariths split: if_splits)
  ultimately show ?case using Cons.IH [OF rest] by simp
qed simp

lemma footer_rows_exact:
  assumes "read_footer_stats lm file_rows groups = Inr st"
  shows "int (unat (fs_num_rows st)) = file_rows" "file_rows = sum_list (map rg_num_rows groups)"
proof -
  from assms obtain n where n: "sum_row_group_rows (map rg_num_rows groups) = Inr n"
    "footer_u64 file_rows ''num_rows'' = Inr n" "fs_num_rows st = n"
    by (auto simp: read_footer_stats_def split: prod.splits if_splits)
  then show "int (unat (fs_num_rows st)) = file_rows"
    by (auto dest: footer_u64_Inr)
  moreover have "int (unat n) = sum_list (map rg_num_rows groups)"
    using n(1) sum_rows_from [of 0 "map rg_num_rows groups" n] by (simp add: sum_row_group_rows_def)
  ultimately show "file_rows = sum_list (map rg_num_rows groups)" using n by simp
qed

section \<open>The shared cache of grouped records\<close>

text \<open>
  One process-wide slot holds the last decoded recording under the identity of its file. The
  answers of the file system before and after a decode are \<open>before\<close> and \<open>after\<close>; the slot is read
  under its lock before the decode (\<open>slot1\<close>) and again after it (\<open>slot2\<close>), and other threads may
  change it in between.
\<close>

type_synonym grouped_records = "(string \<times> discover_record list) list"

record file_meta =
  mt_dev_ino :: "(u64 \<times> u64) option"
  mt_len :: u64
  mt_modified :: "nat option"
  mt_ctime :: "(int \<times> int) option"

record cache_key =
  k_path :: string
  k_dev_ino :: "(u64 \<times> u64) option"
  k_len :: u64
  k_mtime_nanos :: nat
  k_ctime :: "(int \<times> int) option"

record cache_slot =
  sl_key :: cache_key
  sl_records :: grouped_records
  sl_decodes :: u64

definition key_for_path :: "string \<Rightarrow> file_meta option \<Rightarrow> cache_key option" where
  "key_for_path path meta = Option.bind meta (\<lambda>m. Option.bind (mt_modified m) (\<lambda>t.
     Some \<lparr>k_path = path, k_dev_ino = mt_dev_ino m, k_len = mt_len m, k_mtime_nanos = t, k_ctime = mt_ctime m\<rparr>))"

definition shared_lookup :: "cache_key option \<Rightarrow> cache_slot option \<Rightarrow> grouped_records option" where
  "shared_lookup before slot =
     (case before of
        None \<Rightarrow> None
      | Some key \<Rightarrow>
          (case slot of
             None \<Rightarrow> None
           | Some existing \<Rightarrow> if sl_key existing = key then Some (sl_records existing) else None))"

definition shared_store ::
  "cache_key option \<Rightarrow> grouped_records \<Rightarrow> cache_key option \<Rightarrow> cache_slot option
     \<Rightarrow> grouped_records \<times> cache_slot option" where
  "shared_store before shared after slot =
     (case Option.bind after (\<lambda>a. if before = Some a then Some a else None) of
        None \<Rightarrow> (shared, slot)
      | Some key \<Rightarrow>
          let fresh = (shared, Some \<lparr>sl_key = key, sl_records = shared, sl_decodes = 1\<rparr>) in
          (case slot of
             None \<Rightarrow> fresh
           | Some existing \<Rightarrow>
               if sl_key existing = key
               then (sl_records existing, Some (existing\<lparr>sl_decodes := sat_add (sl_decodes existing) 1\<rparr>))
               else fresh))"

definition load_shared_with_decoder ::
  "cache_key option \<Rightarrow> 'e + grouped_records \<Rightarrow> cache_key option \<Rightarrow> cache_slot option \<Rightarrow> cache_slot option
     \<Rightarrow> ('e + grouped_records) \<times> cache_slot option" where
  "load_shared_with_decoder before decoded after slot1 slot2 =
     (case shared_lookup before slot1 of
        Some records \<Rightarrow> (Inr records, slot2)
      | None \<Rightarrow>
          (case decoded of
             Inl e \<Rightarrow> (Inl e, slot2)
           | Inr grouped \<Rightarrow>
               let (records, slot') = shared_store before grouped after slot2 in (Inr records, slot')))"

definition decodes_for_path :: "string \<Rightarrow> cache_slot option \<Rightarrow> u64" where
  "decodes_for_path path slot =
     (case slot of
        None \<Rightarrow> 0
      | Some s \<Rightarrow> if k_path (sl_key s) = path then sl_decodes s else 0)"

definition invalidate :: "cache_slot option \<Rightarrow> cache_slot option" where
  "invalidate slot = None"

text \<open>
  The slots any interleaving of loads and invalidations can leave. A decode whose file kept its
  identity \<open>k\<close> from before to after returns the content \<open>k\<close> identifies; a decode that raced a
  replacement may return anything.
\<close>

inductive shared_reach :: "(cache_key \<Rightarrow> grouped_records) \<Rightarrow> cache_slot option \<Rightarrow> bool"
  for content :: "cache_key \<Rightarrow> grouped_records" where
  start: "shared_reach content None"
| store: "shared_reach content slot \<Longrightarrow> (\<And>k. before = Some k \<Longrightarrow> after = Some k \<Longrightarrow> shared = content k) \<Longrightarrow>
    shared_reach content (snd (shared_store before shared after slot))"
| invalidated: "shared_reach content slot \<Longrightarrow> shared_reach content (invalidate slot)"

inductive_simps shared_reach_None: "shared_reach content None"

lemma shared_reach_content:
  "shared_reach content slot \<Longrightarrow> slot = Some s \<Longrightarrow> sl_records s = content (sl_key s)"
proof (induction arbitrary: s rule: shared_reach.induct)
  case (store slot before after shared)
  then show ?case
    by (auto simp: shared_store_def Let_def split: option.splits if_splits bind_splits)
qed (simp_all add: invalidate_def)

definition example_meta :: "file_meta option" where
  "example_meta = Some \<lparr>mt_dev_ino = None, mt_len = 9, mt_modified = Some 5, mt_ctime = None\<rparr>"

text \<open>
  Whatever interleaving of loads, replacements of the file and invalidations the slot went
  through, a load of a file that kept its identity returns the content of that identity, whether
  it hit, stored, or lost the race to another load; a load whose file changed under the decode
  leaves the slot alone; and after an invalidation the next load decodes again.
\<close>

theorem shared_records_coherent:
  assumes "shared_reach content slot1" "shared_reach content slot2"
    and "before = Some k" "after = Some k" "decoded = Inr (content k)"
  shows "fst (load_shared_with_decoder before decoded after slot1 slot2) = Inr (content k) \<and>
    shared_reach content (snd (load_shared_with_decoder before decoded after slot1 slot2)) \<and>
    snd (load_shared_with_decoder before other None slot1 slot2) = slot2 \<and>
    load_shared_with_decoder before other after (invalidate slot1) (invalidate slot2) =
      (other, case other of Inl _ \<Rightarrow> None
              | Inr g \<Rightarrow> Some \<lparr>sl_key = k, sl_records = g, sl_decodes = 1\<rparr>)"
proof (intro conjI)
  have answer: "fst (shared_store (Some k) (content k) (Some k) slot2) = content k"
    using shared_reach_content [OF assms(2)] by (auto simp: shared_store_def Let_def split: option.splits)
  have hit: "shared_lookup (Some k) slot1 = Some rs \<Longrightarrow> rs = content k" for rs
    using shared_reach_content [OF assms(1)] by (auto simp: shared_lookup_def split: option.splits if_splits)
  show "fst (load_shared_with_decoder before decoded after slot1 slot2) = Inr (content k)"
    using assms(3-5) answer hit
    by (auto simp: load_shared_with_decoder_def split: option.splits prod.splits)
  have "shared_reach content (snd (shared_store (Some k) (content k) (Some k) slot2))"
    by (rule shared_reach.store [OF assms(2)]) simp
  with assms show "shared_reach content (snd (load_shared_with_decoder before decoded after slot1 slot2))"
    by (auto simp: load_shared_with_decoder_def split: option.splits prod.splits)
  show "snd (load_shared_with_decoder before other None slot1 slot2) = slot2"
    by (auto simp: load_shared_with_decoder_def shared_store_def split: option.splits sum.splits)
  show "load_shared_with_decoder before other after (invalidate slot1) (invalidate slot2) =
      (other, case other of Inl _ \<Rightarrow> None
              | Inr g \<Rightarrow> Some \<lparr>sl_key = k, sl_records = g, sl_decodes = 1\<rparr>)"
    using assms(3,4)
    by (simp add: load_shared_with_decoder_def invalidate_def shared_lookup_def shared_store_def split: sum.splits)
qed

theorem shared_records_coherent_witness:
  "fst (load_shared_with_decoder (key_for_path ''d.parquet'' example_meta)
      (Inr [(''a'', example_rows)] :: string + grouped_records)
      (key_for_path ''d.parquet'' example_meta) None None) = Inr [(''a'', example_rows)]"
proof -
  obtain k where k: "key_for_path ''d.parquet'' example_meta = Some k"
    by (simp add: key_for_path_def example_meta_def)
  have "fst (load_shared_with_decoder (Some k) (Inr [(''a'', example_rows)] :: string + grouped_records)
      (Some k) None None) = Inr [(''a'', example_rows)]"
    using shared_records_coherent [where content = "\<lambda>_. [(''a'', example_rows)]" and before = "Some k" and
      after = "Some k" and k = k, OF shared_reach.start shared_reach.start refl refl refl, THEN conjunct1] .
  with k show ?thesis by simp
qed

end
