(* ===== verification/BlockCache.thy ===== *)
theory BlockCache
  imports RecordCaches Reader
begin

text \<open>
  The streaming block cache (\<open>src/analysis/streaming.rs\<close>): the index from neurons to blocks of
  rows, the loading of one block, lookups with eviction and prefetching, and the tiered cache
  that chooses between the caches (\<open>src/analysis/cache/tiered_cache.rs\<close>).

  A file is the list of its rows in reading order. Opening, schema and budget errors come from
  the parameter \<open>load\<close>; the theorems about contents take \<open>load\<close> to be the block loader over the
  rows. The prefetch thread takes requests from a queue of at most 32, one per event.
\<close>

section \<open>The block index\<close>

text \<open>A row is pushed to its neuron's list unless the list already ends in the current block.\<close>

definition push_block :: "nat \<Rightarrow> nat list option \<Rightarrow> nat list option" where
  "push_block current blocks =
     (case blocks of
        None \<Rightarrow> Some [current]
      | Some bs \<Rightarrow> if bs \<noteq> [] \<and> last bs = current then Some bs else Some (bs @ [current]))"

text \<open>The row counter moves to the next block when the block is full.\<close>

definition next_row :: "nat \<Rightarrow> nat \<Rightarrow> nat \<Rightarrow> nat \<times> nat" where
  "next_row block_size current rows_in_block =
     (if block_size \<le> Suc rows_in_block then (Suc current, 0) else (current, Suc rows_in_block))"

fun index_rows ::
  "nat \<Rightarrow> string list \<Rightarrow> (string \<rightharpoonup> nat list) \<Rightarrow> nat \<Rightarrow> nat \<Rightarrow> (string \<rightharpoonup> nat list) \<times> nat \<times> nat" where
  "index_rows block_size [] m current rows_in_block = (m, current, rows_in_block)"
| "index_rows block_size (u # us) m current rows_in_block =
     (let m' = m(u := push_block current (m u)) in
      case next_row block_size current rows_in_block of
        (current', rows') \<Rightarrow> index_rows block_size us m' current' rows')"

definition build_block_index :: "nat \<Rightarrow> discover_record list \<Rightarrow> (string \<rightharpoonup> nat list) \<times> nat" where
  "build_block_index block_size rows =
     (case index_rows block_size (map r_uuid rows) Map.empty 0 0 of
        (m, current, rows_in_block) \<Rightarrow>
          (m, if 0 < rows_in_block then current + 1 else max current 1))"

text \<open>The block of a row; a block size of 0 acts as 1.\<close>

definition block_of :: "nat \<Rightarrow> nat \<Rightarrow> nat" where
  "block_of block_size i = i div max block_size 1"

lemma next_row_position:
  assumes "k < max bs 1" "next_row bs c k = (c', k')"
  shows "k' < max bs 1 \<and> c' * max bs 1 + k' = Suc (c * max bs 1 + k)"
proof (cases "bs \<le> Suc k")
  case True
  with assms have "Suc k = max bs 1" "c' = Suc c" "k' = 0" by (auto simp: next_row_def)
  then show ?thesis by (simp add: algebra_simps)
next
  case False
  with assms show ?thesis by (auto simp: next_row_def)
qed

lemma block_of_position: "k < max bs 1 \<Longrightarrow> block_of bs (c * max bs 1 + k) = c"
  by (simp add: block_of_def)

text \<open>The list of the blocks of a neuron's rows.\<close>

definition blocks_from :: "nat \<Rightarrow> nat \<Rightarrow> string list \<Rightarrow> string \<Rightarrow> nat list" where
  "blocks_from bs p us u = map (block_of bs \<circ> fst) (filter (\<lambda>(i, v). v = u) (enumerate p us))"

lemma index_rows_spec:
  assumes "k < max bs 1"
  shows "fst (index_rows bs us m c k) u = fold push_block (blocks_from bs (c * max bs 1 + k) us u) (m u)"
  using assms
proof (induction us arbitrary: m c k)
  case Nil
  then show ?case by (simp add: blocks_from_def)
next
  case (Cons v us)
  obtain c' k' where n: "next_row bs c k = (c', k')" by force
  note pos = next_row_position [OF Cons.prems n]
  let ?m = "m(v := push_block c (m v))"
  have "fst (index_rows bs (v # us) m c k) u = fst (index_rows bs us ?m c' k') u"
    by (simp add: n Let_def)
  also have "\<dots> = fold push_block (blocks_from bs (c' * max bs 1 + k') us u) (?m u)"
    by (rule Cons.IH) (use pos in blast)
  also have "\<dots> = fold push_block (blocks_from bs (c * max bs 1 + k) (v # us) u) (m u)"
    using pos block_of_position [OF Cons.prems, of c] by (simp add: blocks_from_def)
  finally show ?case .
qed

lemma fold_push_Some: "fold push_block xs (Some (ys @ [l])) = Some (ys @ remdups_adj (l # xs))"
proof (induction xs arbitrary: ys l)
  case (Cons x xs)
  from Cons.IH [of ys x] Cons.IH [of "ys @ [l]" x] show ?case by (simp add: push_block_def)
qed simp

lemma fold_push_None: "fold push_block xs None = (if xs = [] then None else Some (remdups_adj xs))"
proof (cases xs)
  case (Cons x ys)
  then have "fold push_block xs None = fold push_block ys (Some ([] @ [x]))" by (simp add: push_block_def)
  also have "\<dots> = Some (remdups_adj (x # ys))" by (subst fold_push_Some) simp
  finally show ?thesis using Cons by simp
qed simp

lemma block_index_spec:
  "fst (build_block_index bs rows) u =
     (let xs = blocks_from bs 0 (map r_uuid rows) u in if xs = [] then None else Some (remdups_adj xs))"
  using index_rows_spec [of 0 bs "map r_uuid rows" Map.empty 0 u]
  by (auto simp: build_block_index_def fold_push_None Let_def split: prod.splits)

section \<open>Loading one block\<close>

text \<open>\<open>records_by_neuron\<close> of the block with number \<open>block_id\<close>; reading stops after that block.\<close>

fun load_rows ::
  "nat \<Rightarrow> nat \<Rightarrow> discover_record list \<Rightarrow> (string \<times> discover_record list) list \<Rightarrow> nat \<Rightarrow> nat \<Rightarrow> bool
     \<Rightarrow> (string \<times> discover_record list) list" where
  "load_rows block_size block_id [] acc current rows_in_block found = acc"
| "load_rows block_size block_id (r # rs) acc current rows_in_block found =
     (let acc' = (if current = block_id then add_record r acc else acc);
          found' = (found \<or> current = block_id)
      in case next_row block_size current rows_in_block of
           (current', rows') \<Rightarrow>
             if current' \<noteq> current \<and> found' then acc'
             else load_rows block_size block_id rs acc' current' rows' found')"

definition load_block_records ::
  "nat \<Rightarrow> discover_record list \<Rightarrow> nat \<Rightarrow> (string \<times> discover_record list) list" where
  "load_block_records block_size rows block_id = load_rows block_size block_id rows [] 0 0 False"

text \<open>The rows of a neuron in a block, from position \<open>p\<close> on.\<close>

definition rows_in :: "nat \<Rightarrow> nat \<Rightarrow> nat \<Rightarrow> discover_record list \<Rightarrow> string \<Rightarrow> discover_record list" where
  "rows_in bs b p rows u = map snd (filter (\<lambda>(i, r). block_of bs i = b \<and> r_uuid r = u) (enumerate p rows))"

lemma rows_in_later:
  assumes "block_of bs p > b"
  shows "rows_in bs b p rows u = []"
proof -
  have "block_of bs i > b" if "(i, r) \<in> set (enumerate p rows)" for i r
  proof -
    from that have "p \<le> i" by (simp add: in_set_enumerate_eq)
    with assms show ?thesis unfolding block_of_def by (meson div_le_mono less_le_trans)
  qed
  then show ?thesis by (force simp: rows_in_def filter_empty_conv)
qed

lemma load_rows_spec:
  assumes "k < max bs 1" "found \<Longrightarrow> c = b" "\<forall>u. map_of acc u \<noteq> Some []"
  shows "lookup_list (load_rows bs b rs acc c k found) u =
      lookup_list acc u @ rows_in bs b (c * max bs 1 + k) rs u \<and>
    (\<forall>u. map_of (load_rows bs b rs acc c k found) u \<noteq> Some [])"
  using assms
proof (induction rs arbitrary: acc c k found)
  case Nil
  then show ?case by (simp add: rows_in_def)
next
  case (Cons r rs)
  obtain c' k' where n: "next_row bs c k = (c', k')" by force
  note pos = next_row_position [OF Cons.prems(1) n]
  let ?acc = "if c = b then add_record r acc else acc"
  have acc: "lookup_list ?acc u @ rows_in bs b (Suc (c * max bs 1 + k)) rs u =
      lookup_list acc u @ rows_in bs b (c * max bs 1 + k) (r # rs) u"
    using block_of_position [OF Cons.prems(1), of c] by (simp add: lookup_add_record rows_in_def)
  have ne: "\<forall>u. map_of ?acc u \<noteq> Some []" using Cons.prems(3) add_record_nonempty [of acc r] by simp
  show ?case
  proof (cases "c' \<noteq> c \<and> (found \<or> c = b)")
    case True
    then have "c = b" using Cons.prems(2) by blast
    moreover have "c' = Suc c" using True n by (auto simp: next_row_def split: if_splits)
    moreover have "block_of bs (Suc (c * max bs 1 + k)) = c'"
      using pos block_of_position [of k' bs c'] by metis
    ultimately have "rows_in bs b (Suc (c * max bs 1 + k)) rs u = []"
      by (intro rows_in_later) simp
    with True n acc ne show ?thesis by (simp add: Let_def)
  next
    case False
    then have "load_rows bs b (r # rs) acc c k found = load_rows bs b rs ?acc c' k' (found \<or> c = b)"
      by (auto simp add: n Let_def)
    moreover have "found \<or> c = b \<Longrightarrow> c' = b" using False Cons.prems(2) by auto
    ultimately show ?thesis
      using Cons.IH [of k' "found \<or> c = b" c' ?acc] pos ne acc by simp
  qed
qed

lemma load_block_spec:
  "lookup_list (load_block_records bs rows b) u = rows_in bs b 0 rows u"
  "map_of (load_block_records bs rows b) u \<noteq> Some []"
  using load_rows_spec [of 0 bs False 0 b "[]" rows u]
  by (simp_all add: load_block_records_def lookup_list_def)

lemma load_block_map:
  "map_of (load_block_records bs rows b) u =
     (if rows_in bs b 0 rows u = [] then None else Some (rows_in bs b 0 rows u))"
  using load_block_spec [of bs rows b u] by (auto simp: lookup_list_def split: option.splits)

text \<open>Reading the blocks of the index one after the other gives the neuron's rows in order.\<close>

lemma distinct_adj_sorted: "sorted xs \<Longrightarrow> distinct_adj xs \<Longrightarrow> distinct xs"
proof (induction xs)
  case (Cons x xs)
  then show ?case by (cases xs) auto
qed simp

lemma concat_groups:
  fixes f :: "'a \<Rightarrow> nat"
  assumes "sorted (map f xs)"
  shows "concat (map (\<lambda>b. filter (\<lambda>x. f x = b) xs) (remdups_adj (map f xs))) = xs"
  using assms
proof (induction "map f xs" arbitrary: xs rule: remdups_adj.induct)
  case 1
  then show ?case by simp
next
  case (2 x)
  then obtain y where "xs = [y]" by auto
  then show ?case by simp
next
  case (3 a b cs)
  then obtain y ys where xs: "xs = y # ys" "map f ys = b # cs" "f y = a" by (cases xs) auto
  have s: "sorted (map f ys)" "\<forall>z \<in> set ys. f y \<le> f z" using 3(4) xs by auto
  show ?case
  proof (cases "a = b")
    case True
    have ih: "concat (map (\<lambda>b. filter (\<lambda>x. f x = b) ys) (remdups_adj (map f ys))) = ys"
      by (rule "3.hyps"(1)) (use True xs s in simp_all)
    have rd: "remdups_adj (map f xs) = remdups_adj (map f ys)" using xs True by simp
    obtain rest where rest: "remdups_adj (map f ys) = a # rest"
      using xs True by (metis hd_remdups_adj list.collapse list.discI list.sel(1) remdups_adj_Nil_iff)
    have "a \<notin> set rest"
    proof -
      have "sorted (remdups_adj (map f ys))" "distinct (remdups_adj (map f ys))"
        using s(1) by (simp_all add: distinct_adj_sorted)
      with rest show ?thesis by simp
    qed
    then have same: "map (\<lambda>b. filter (\<lambda>x. f x = b) (y # ys)) rest = map (\<lambda>b. filter (\<lambda>x. f x = b) ys) rest"
      using xs(3) by (auto intro!: map_cong)
    have "concat (map (\<lambda>b. filter (\<lambda>x. f x = b) xs) (remdups_adj (map f xs))) =
        concat (map (\<lambda>b. filter (\<lambda>x. f x = b) xs) (a # rest))"
      by (simp only: rd rest)
    also have "\<dots> = filter (\<lambda>x. f x = a) (y # ys) @ concat (map (\<lambda>b. filter (\<lambda>x. f x = b) ys) rest)"
      by (simp only: xs(1) list.map concat.simps same)
    also have "\<dots> = y # ys" using ih rest xs(3) by simp
    finally show ?thesis using xs(1) by simp
  next
    case False
    have ih: "concat (map (\<lambda>b. filter (\<lambda>x. f x = b) ys) (remdups_adj (map f ys))) = ys"
      by (rule "3.hyps"(2) [OF False xs(2) [symmetric] s(1)])
    have notin: "a \<notin> set (map f ys)"
    proof
      assume "a \<in> set (map f ys)"
      moreover have "\<forall>z \<in> set (map f ys). b \<le> z" using s(1) xs(2) by simp
      moreover have "a \<le> b" using s(2) xs by (cases ys) auto
      ultimately show False using False by auto
    qed
    then have none: "filter (\<lambda>x. f x = a) ys = []" by (auto simp: filter_empty_conv)
    have same: "map (\<lambda>b. filter (\<lambda>x. f x = b) (y # ys)) (remdups_adj (map f ys)) =
        map (\<lambda>b. filter (\<lambda>x. f x = b) ys) (remdups_adj (map f ys))"
      using notin xs(3) by (auto intro!: map_cong)
    have rd: "remdups_adj (map f xs) = a # remdups_adj (map f ys)" using xs False by simp
    have "concat (map (\<lambda>b. filter (\<lambda>x. f x = b) xs) (remdups_adj (map f xs))) =
        concat (map (\<lambda>b. filter (\<lambda>x. f x = b) xs) (a # remdups_adj (map f ys)))"
      by (simp only: rd)
    also have "\<dots> = filter (\<lambda>x. f x = a) (y # ys) @ ys"
      by (simp only: xs(1) list.map concat.simps same ih)
    also have "\<dots> = y # ys" using none xs(3) by simp
    finally show ?thesis using xs(1) by simp
  qed
qed

text \<open>The blocks a lookup visits, and what they hold of the neuron.\<close>

definition lookup_blocks :: "(string \<rightharpoonup> nat list) \<Rightarrow> string \<Rightarrow> nat list" where
  "lookup_blocks index u = (case index u of Some blocks \<Rightarrow> blocks | None \<Rightarrow> [0])"

lemma enumerate_map: "enumerate p (map f xs) = map (\<lambda>(i, x). (i, f x)) (enumerate p xs)"
  by (induction xs arbitrary: p) auto

lemma blocks_cover_neuron:
  "concat (map (\<lambda>b. rows_in bs b 0 rows u) (lookup_blocks (fst (build_block_index bs rows)) u)) =
   filter (\<lambda>r. r_uuid r = u) rows"
proof -
  let ?es = "filter (\<lambda>x. r_uuid (snd x) = u) (enumerate 0 rows)"
  let ?f = "block_of bs \<circ> fst"
  have snds: "map snd ?es = filter (\<lambda>r. r_uuid r = u) rows"
  proof -
    have "map snd (filter (\<lambda>x. r_uuid (snd x) = u) es) = filter (\<lambda>r. r_uuid r = u) (map snd es)"
      for es :: "(nat \<times> discover_record) list" by (induction es) auto
    then show ?thesis by simp
  qed
  have keys: "blocks_from bs 0 (map r_uuid rows) u = map ?f ?es"
    by (simp add: blocks_from_def enumerate_map filter_map split_def comp_def)
  have rows: "rows_in bs b 0 rows u = map snd (filter (\<lambda>x. ?f x = b) ?es)" for b
    by (simp add: rows_in_def filter_filter split_def conj_commute)
  have "sorted (map fst ?es)"
    by (rule sorted_filter) simp
  then have sorted: "sorted (map ?f ?es)"
    by (auto simp: sorted_wrt_map block_of_def intro: div_le_mono elim!: sorted_wrt_mono_rel [rotated])
  show ?thesis
  proof (cases "?es = []")
    case True
    then have "filter (\<lambda>r. r_uuid r = u) rows = []" using snds by simp
    moreover have "rows_in bs 0 0 rows u = []" using True by (simp add: rows)
    ultimately show ?thesis
      using True by (simp add: lookup_blocks_def block_index_spec keys del: filter_empty_conv)
  next
    case False
    then have "lookup_blocks (fst (build_block_index bs rows)) u = remdups_adj (map ?f ?es)"
      by (simp add: lookup_blocks_def block_index_spec keys Let_def)
    then have "concat (map (\<lambda>b. rows_in bs b 0 rows u) (lookup_blocks (fst (build_block_index bs rows)) u)) =
        map snd (concat (map (\<lambda>b. filter (\<lambda>x. ?f x = b) ?es) (remdups_adj (map ?f ?es))))"
      by (simp add: rows map_concat comp_def)
    then show ?thesis by (simp only: concat_groups [OF sorted] snds)
  qed
qed

section \<open>Cached blocks\<close>

record cache_block =
  cb_records :: "(string \<times> discover_record list) list"
  cb_last_access :: instant
  cb_size_bytes :: nat

definition block_new :: "nat \<Rightarrow> instant \<Rightarrow> (string \<times> discover_record list) list \<Rightarrow> cache_block" where
  "block_new record_size now records =
     \<lparr>cb_records = records, cb_last_access = now,
      cb_size_bytes = sum_list (map (\<lambda>(k, v). length k + estimate_records_size record_size v) records)\<rparr>"

definition block_touch :: "instant \<Rightarrow> cache_block \<Rightarrow> cache_block" where
  "block_touch now b = b\<lparr>cb_last_access := now\<rparr>"

record stream_cache =
  sc_index :: "string \<rightharpoonup> nat list"
  sc_total_blocks :: nat
  sc_blocks :: "(nat \<times> cache_block) list"
  sc_hits :: u64
  sc_misses :: u64
  sc_evictions :: u64
  sc_prefetches :: u64
  sc_queue :: "nat list"

record stream_config =
  cfg_record_size :: nat
  cfg_max_blocks :: "nat option"
  cfg_prefetch_depth :: nat

text \<open>The block limit of a cache that was given none depends on the host's memory.\<close>

datatype memory_tier = LowMemory | StandardMemory | HighMemory

definition block_limit :: "nat option \<Rightarrow> memory_tier \<Rightarrow> nat option" where
  "block_limit max_cached_blocks tier =
     (case max_cached_blocks of
        Some n \<Rightarrow> Some n
      | None \<Rightarrow> Some (case tier of LowMemory \<Rightarrow> 10 | StandardMemory \<Rightarrow> 50 | HighMemory \<Rightarrow> 100))"

definition stream_new :: "nat \<Rightarrow> discover_record list \<Rightarrow> stream_cache" where
  "stream_new block_size rows =
     (case build_block_index block_size rows of
        (index, num_blocks) \<Rightarrow>
          \<lparr>sc_index = index, sc_total_blocks = num_blocks, sc_blocks = [], sc_hits = 0, sc_misses = 0,
           sc_evictions = 0, sc_prefetches = 0, sc_queue = []\<rparr>)"

text \<open>\<open>evict_blocks\<close>: room for one more block.\<close>

function evict_blocks ::
  "nat \<Rightarrow> (nat \<times> cache_block) list \<Rightarrow> u64 \<Rightarrow> (nat \<times> cache_block) list \<times> u64" where
  "evict_blocks max_blocks blocks evictions =
     (if max_blocks \<le> length blocks then
        case find_lru cb_last_access blocks of
          Some (block_id, blk) \<Rightarrow> evict_blocks max_blocks (AList.delete block_id blocks) (evictions + 1)
        | None \<Rightarrow> (blocks, evictions)
      else (blocks, evictions))"
  by pat_completeness auto
termination
proof (relation "measure (\<lambda>(mx, blocks, ev). length blocks)", simp)
  fix mx and blocks :: "(nat \<times> cache_block) list" and ev :: u64 and x b blk
  assume "find_lru cb_last_access blocks = Some x" "(b, blk) = x"
  then have "(b, blk) \<in> set blocks" using find_lru_Some by fastforce
  then have "length (AList.delete b blocks) < length blocks"
    unfolding alist_delete_filter by (rule length_filter_less) simp
  then show "((mx, AList.delete b blocks, ev + 1), mx, blocks, ev) \<in> measure (\<lambda>(mx, blocks, ev). length blocks)"
    by simp
qed

declare evict_blocks.simps [simp del]

definition make_room :: "nat option \<Rightarrow> stream_cache \<Rightarrow> stream_cache" where
  "make_room max_blocks c =
     (case max_blocks of
        None \<Rightarrow> c
      | Some mx \<Rightarrow> (case evict_blocks mx (sc_blocks c) (sc_evictions c) of
                     (blocks, ev) \<Rightarrow> c\<lparr>sc_blocks := blocks, sc_evictions := ev\<rparr>))"

text \<open>Eviction and \<open>entry(block_id).or_insert_with(..)\<close> under the write lock.\<close>

definition insert_block ::
  "stream_config \<Rightarrow> instant \<Rightarrow> nat \<Rightarrow> (string \<times> discover_record list) list \<Rightarrow> stream_cache \<Rightarrow> stream_cache" where
  "insert_block cfg now block_id records c =
     (let c1 = make_room (cfg_max_blocks cfg) c in
      case map_of (sc_blocks c1) block_id of
        Some _ \<Rightarrow> c1
      | None \<Rightarrow> c1\<lparr>sc_blocks := AList.update block_id (block_new (cfg_record_size cfg) now records) (sc_blocks c1)\<rparr>)"

text \<open>\<open>trigger_prefetch\<close>; \<open>try_send\<close> fails on a full queue.\<close>

definition trigger_prefetch :: "stream_config \<Rightarrow> nat \<Rightarrow> stream_cache \<Rightarrow> stream_cache" where
  "trigger_prefetch cfg current_block c =
     fold (\<lambda>offset c.
        let next_block = current_block + offset in
        if next_block < sc_total_blocks c \<and> map_of (sc_blocks c) next_block = None \<and> length (sc_queue c) < 32
        then c\<lparr>sc_queue := sc_queue c @ [next_block], sc_prefetches := sc_prefetches c + 1\<rparr>
        else c) [1..<Suc (cfg_prefetch_depth cfg)] c"

text \<open>One request of the prefetch thread.\<close>

definition prefetch_one ::
  "(nat \<Rightarrow> 'e + (string \<times> discover_record list) list) \<Rightarrow> stream_config \<Rightarrow> instant \<Rightarrow> stream_cache \<Rightarrow> stream_cache" where
  "prefetch_one load cfg now c =
     (case sc_queue c of
        [] \<Rightarrow> c
      | block_id # rest \<Rightarrow>
          let c1 = c\<lparr>sc_queue := rest\<rparr> in
          if map_of (sc_blocks c1) block_id \<noteq> None then c1
          else (case load block_id of
                  Inl _ \<Rightarrow> c1
                | Inr records \<Rightarrow> insert_block cfg now block_id records c1))"

section \<open>Lookups\<close>

text \<open>The first pass, under the write lock: what the cached blocks hold, and whether all are cached.\<close>

fun collect_cached ::
  "instant \<Rightarrow> string \<Rightarrow> nat list \<Rightarrow> (nat \<times> cache_block) list \<Rightarrow> discover_record list
     \<Rightarrow> discover_record list \<times> bool \<times> (nat \<times> cache_block) list" where
  "collect_cached now u [] blocks acc = (acc, True, blocks)"
| "collect_cached now u (b # bs) blocks acc =
     (case map_of blocks b of
        None \<Rightarrow> (acc, False, blocks)
      | Some blk \<Rightarrow>
          (case map_of (cb_records blk) u of
             Some records \<Rightarrow>
               collect_cached now u bs (AList.update b (block_touch now blk) blocks) (acc @ records)
           | None \<Rightarrow> collect_cached now u bs blocks acc))"

text \<open>The second pass: each block from the cache or from the file.\<close>

fun fetch_blocks ::
  "(nat \<Rightarrow> 'e + (string \<times> discover_record list) list) \<Rightarrow> stream_config \<Rightarrow> instant \<Rightarrow> string \<Rightarrow> nat list
     \<Rightarrow> stream_cache \<Rightarrow> discover_record list \<Rightarrow> ('e + discover_record list) \<times> stream_cache" where
  "fetch_blocks load cfg now u [] c acc = (Inr acc, c)"
| "fetch_blocks load cfg now u (b # bs) c acc =
     (case Option.bind (map_of (sc_blocks c) b) (\<lambda>blk. map_of (cb_records blk) u) of
        Some records \<Rightarrow> fetch_blocks load cfg now u bs c (acc @ records)
      | None \<Rightarrow>
          (case load b of
             Inl e \<Rightarrow> (Inl e, c)
           | Inr records \<Rightarrow>
               fetch_blocks load cfg now u bs
                 (trigger_prefetch cfg b (insert_block cfg now b records c))
                 (acc @ lookup_list records u)))"

definition stream_get ::
  "(nat \<Rightarrow> 'e + (string \<times> discover_record list) list) \<Rightarrow> stream_config \<Rightarrow> instant \<Rightarrow> string
     \<Rightarrow> stream_cache \<Rightarrow> ('e + discover_record list) \<times> stream_cache" where
  "stream_get load cfg now u c =
     (let block_ids = lookup_blocks (sc_index c) u in
      case collect_cached now u block_ids (sc_blocks c) [] of
        (records, all_cached, blocks) \<Rightarrow>
          let c1 = c\<lparr>sc_blocks := blocks\<rparr> in
          if all_cached \<and> records \<noteq> [] then (Inr records, c1\<lparr>sc_hits := sc_hits c1 + 1\<rparr>)
          else fetch_blocks load cfg now u block_ids (c1\<lparr>sc_misses := sc_misses c1 + 1\<rparr>) [])"

definition stream_cached_bytes :: "stream_cache \<Rightarrow> nat" where
  "stream_cached_bytes c = sum_list (map (\<lambda>(_, b). cb_size_bytes b) (sc_blocks c))"

text \<open>Lookups and prefetches as the events a cache sees.\<close>

datatype stream_event = Lookup instant string | PrefetchOne instant

definition stream_event ::
  "(nat \<Rightarrow> 'e + (string \<times> discover_record list) list) \<Rightarrow> stream_config \<Rightarrow> stream_event
     \<Rightarrow> stream_cache \<Rightarrow> ('e + discover_record list) option \<times> stream_cache" where
  "stream_event load cfg ev c =
     (case ev of
        Lookup now u \<Rightarrow> map_prod Some id (stream_get load cfg now u c)
      | PrefetchOne now \<Rightarrow> (None, prefetch_one load cfg now c))"

section \<open>The contract\<close>

definition stream_inv :: "nat \<Rightarrow> discover_record list \<Rightarrow> stream_cache \<Rightarrow> bool" where
  "stream_inv bs rows c \<longleftrightarrow> sc_index c = fst (build_block_index bs rows) \<and>
     (\<forall>(b, blk) \<in> set (sc_blocks c). cb_records blk = load_block_records bs rows b)"

definition stream_bounded :: "stream_config \<Rightarrow> stream_cache \<Rightarrow> bool" where
  "stream_bounded cfg c \<longleftrightarrow>
     (case cfg_max_blocks cfg of None \<Rightarrow> True | Some mx \<Rightarrow> length (sc_blocks c) \<le> max mx 1)"

lemma evict_blocks_ok:
  "set (fst (evict_blocks mx blocks ev)) \<subseteq> set blocks \<and> length (fst (evict_blocks mx blocks ev)) < max mx 1"
proof (induction mx blocks ev rule: evict_blocks.induct)
  case (1 mx blocks ev)
  show ?case
  proof (cases "mx \<le> length blocks \<and> blocks \<noteq> []")
    case True
    then obtain b blk where f: "find_lru cb_last_access blocks = Some (b, blk)"
      by (metis find_lru_None old.prod.exhaust option.exhaust)
    with True 1 [OF _ f refl] set_alist_delete [of b blocks] show ?thesis
      by (auto simp: evict_blocks.simps [of mx blocks])
  next
    case False
    then show ?thesis by (auto simp: evict_blocks.simps [of mx blocks])
  qed
qed

lemma insert_block_ok:
  assumes "stream_inv bs rows c"
  shows "stream_inv bs rows (insert_block cfg now b (load_block_records bs rows b) c)"
    and "stream_bounded cfg (insert_block cfg now b (load_block_records bs rows b) c)"
proof -
  let ?c = "make_room (cfg_max_blocks cfg) c"
  have c: "set (sc_blocks ?c) \<subseteq> set (sc_blocks c)" "sc_index ?c = sc_index c"
    "case cfg_max_blocks cfg of None \<Rightarrow> True | Some mx \<Rightarrow> length (sc_blocks ?c) < max mx 1"
    using evict_blocks_ok [of "the (cfg_max_blocks cfg)" "sc_blocks c" "sc_evictions c"]
    by (auto simp: make_room_def split: option.splits prod.splits)
  with assms set_update_subset show "stream_inv bs rows (insert_block cfg now b (load_block_records bs rows b) c)"
    by (fastforce simp: insert_block_def stream_inv_def block_new_def Let_def split: option.splits)
  have "length (AList.update k v xs) \<le> Suc (length xs)" for k :: nat and v :: cache_block and xs
    by (induction xs) auto
  then have "length (sc_blocks (insert_block cfg now b records c)) \<le> Suc (length (sc_blocks ?c))" for records
    by (auto simp: insert_block_def Let_def split: option.split)
  with c(3) show "stream_bounded cfg (insert_block cfg now b (load_block_records bs rows b) c)"
    by (fastforce simp: stream_bounded_def split: option.splits intro: order_trans)
qed

lemma trigger_prefetch_ok:
  "sc_blocks (trigger_prefetch cfg b c) = sc_blocks c \<and> sc_index (trigger_prefetch cfg b c) = sc_index c"
proof -
  have "sc_blocks (fold (\<lambda>offset c. let next_block = b + offset in
        if next_block < sc_total_blocks c \<and> map_of (sc_blocks c) next_block = None \<and> length (sc_queue c) < 32
        then c\<lparr>sc_queue := sc_queue c @ [next_block], sc_prefetches := sc_prefetches c + 1\<rparr>
        else c) xs c) = sc_blocks c \<and>
      sc_index (fold (\<lambda>offset c. let next_block = b + offset in
        if next_block < sc_total_blocks c \<and> map_of (sc_blocks c) next_block = None \<and> length (sc_queue c) < 32
        then c\<lparr>sc_queue := sc_queue c @ [next_block], sc_prefetches := sc_prefetches c + 1\<rparr>
        else c) xs c) = sc_index c" for xs
    by (induction xs arbitrary: c) (auto simp: Let_def)
  then show ?thesis unfolding trigger_prefetch_def by blast
qed

lemma cached_block:
  assumes "\<forall>(b, blk) \<in> set blocks. cb_records blk = load_block_records bs rows b" "map_of blocks b = Some blk"
  shows "map_of (cb_records blk) u =
    (if rows_in bs b 0 rows u = [] then None else Some (rows_in bs b 0 rows u))"
proof -
  from assms(2) have "(b, blk) \<in> set blocks" by (rule map_of_SomeD)
  with assms(1) have "cb_records blk = load_block_records bs rows b" by auto
  then show ?thesis by (simp add: load_block_map)
qed

lemma collect_cached_ok:
  assumes "\<forall>(b, blk) \<in> set blocks. cb_records blk = load_block_records bs rows b"
    and "collect_cached now u ids blocks acc = (records, all_cached, blocks')"
  shows "(\<forall>(b, blk) \<in> set blocks'. cb_records blk = load_block_records bs rows b) \<and>
    length blocks' = length blocks \<and>
    (all_cached \<longrightarrow> records = acc @ concat (map (\<lambda>b. rows_in bs b 0 rows u) ids))"
  using assms
proof (induction now u ids blocks acc rule: collect_cached.induct)
  case 1
  then show ?case by simp
next
  case (2 now u b ids blocks acc)
  show ?case
  proof (cases "map_of blocks b")
    case None
    with 2 show ?thesis by auto
  next
    case (Some blk)
    note rec = cached_block [OF 2(3) Some, of u]
    show ?thesis
    proof (cases "rows_in bs b 0 rows u = []")
      case True
      with 2 Some rec show ?thesis by simp
    next
      case False
      let ?blocks = "AList.update b (block_touch now blk) blocks"
      have "cb_records blk = load_block_records bs rows b" using 2(3) map_of_SomeD [OF Some] by auto
      then have inv: "\<forall>(b, blk) \<in> set ?blocks. cb_records blk = load_block_records bs rows b"
        using 2(3) set_update_subset [of b "block_touch now blk" blocks] by (auto simp: block_touch_def)
      have len: "length ?blocks = length blocks" using update_same_fst [OF Some] by (metis length_map)
      from False 2(4) Some rec have
        "collect_cached now u ids ?blocks (acc @ rows_in bs b 0 rows u) = (records, all_cached, blocks')"
        by simp
      with "2.IH"(2) [OF Some _ inv, of "rows_in bs b 0 rows u"] rec False len show ?thesis by auto
    qed
  qed
qed

lemma fetch_blocks_ok:
  assumes "stream_inv bs rows c" and load: "\<And>b. load b = Inr (load_block_records bs rows b)"
  shows "fst (fetch_blocks load cfg now u ids c acc) =
      Inr (acc @ concat (map (\<lambda>b. rows_in bs b 0 rows u) ids)) \<and>
    stream_inv bs rows (snd (fetch_blocks load cfg now u ids c acc)) \<and>
    (stream_bounded cfg c \<longrightarrow>
     stream_bounded cfg (snd (fetch_blocks load cfg now u ids c acc)))"
  using assms(1)
proof (induction ids arbitrary: c acc)
  case Nil
  then show ?case by simp
next
  case (Cons b ids)
  let ?hit = "Option.bind (map_of (sc_blocks c) b) (\<lambda>blk. map_of (cb_records blk) u)"
  have inv: "\<forall>(b, blk) \<in> set (sc_blocks c). cb_records blk = load_block_records bs rows b"
    using Cons.prems by (simp add: stream_inv_def)
  show ?case
  proof (cases ?hit)
    case (Some records)
    then obtain blk where "map_of (sc_blocks c) b = Some blk" "map_of (cb_records blk) u = Some records"
      by (auto simp: bind_eq_Some_conv)
    with cached_block [OF inv] have "records = rows_in bs b 0 rows u" by (auto split: if_splits)
    with Some Cons.IH [OF Cons.prems, of "acc @ records"] show ?thesis by simp
  next
    case None
    let ?c = "trigger_prefetch cfg b (insert_block cfg now b (load_block_records bs rows b) c)"
    have "stream_inv bs rows ?c" "stream_bounded cfg ?c"
      using insert_block_ok [OF Cons.prems, of cfg now b] trigger_prefetch_ok
      by (simp_all add: stream_inv_def stream_bounded_def split: option.splits)
    with None Cons.IH [of ?c "acc @ rows_in bs b 0 rows u"] show ?thesis by (simp add: load load_block_spec)
  qed
qed

lemma stream_get_ok:
  assumes "stream_inv bs rows c" and load: "\<And>b. load b = Inr (load_block_records bs rows b)"
  shows "fst (stream_get load cfg now u c) = Inr (filter (\<lambda>r. r_uuid r = u) rows) \<and>
    stream_inv bs rows (snd (stream_get load cfg now u c)) \<and>
    (stream_bounded cfg c \<longrightarrow>
     stream_bounded cfg (snd (stream_get load cfg now u c)))"
proof -
  let ?ids = "lookup_blocks (sc_index c) u"
  have cover: "concat (map (\<lambda>b. rows_in bs b 0 rows u) ?ids) = filter (\<lambda>r. r_uuid r = u) rows"
    using blocks_cover_neuron [of bs rows u] assms by (simp add: stream_inv_def)
  obtain records all_cached blocks where cc: "collect_cached now u ?ids (sc_blocks c) [] = (records, all_cached, blocks)"
    by (metis prod.exhaust)
  have "\<forall>(b, blk) \<in> set (sc_blocks c). cb_records blk = load_block_records bs rows b"
    using assms by (simp add: stream_inv_def)
  note ok = collect_cached_ok [OF this cc]
  let ?c = "c\<lparr>sc_blocks := blocks\<rparr>"
  have inv: "stream_inv bs rows (?c\<lparr>sc_hits := h\<rparr>)" "stream_inv bs rows (?c\<lparr>sc_misses := h\<rparr>)"
    "stream_bounded cfg (?c\<lparr>sc_hits := h\<rparr>) = stream_bounded cfg c"
    "stream_bounded cfg (?c\<lparr>sc_misses := h\<rparr>) = stream_bounded cfg c" for h
    using ok assms by (simp_all add: stream_inv_def stream_bounded_def split: option.split)
  show ?thesis
  proof (cases "all_cached \<and> records \<noteq> []")
    case True
    then show ?thesis using cc ok cover inv by (simp add: stream_get_def Let_def)
  next
    case False
    with fetch_blocks_ok [OF inv(2) [of "sc_misses ?c + 1"] load, of cfg now u ?ids "[]"] cc cover inv show ?thesis
      by (auto simp: stream_get_def Let_def)
  qed
qed

lemma prefetch_one_ok:
  assumes "stream_inv bs rows c" and load: "\<And>b. load b = Inr (load_block_records bs rows b)"
  shows "stream_inv bs rows (prefetch_one load cfg now c) \<and>
    (stream_bounded cfg c \<longrightarrow>
     stream_bounded cfg (prefetch_one load cfg now c))"
proof (cases "sc_queue c")
  case Nil
  with assms show ?thesis by (simp add: prefetch_one_def)
next
  case (Cons b rest)
  let ?c = "c\<lparr>sc_queue := rest\<rparr>"
  have "stream_inv bs rows ?c" "stream_bounded cfg ?c = stream_bounded cfg c"
    using assms by (simp_all add: stream_inv_def stream_bounded_def split: option.split)
  with insert_block_ok [of bs rows ?c cfg now b] Cons show ?thesis
    by (auto simp: prefetch_one_def load Let_def)
qed

definition stream_answer :: "discover_record list \<Rightarrow> stream_event \<Rightarrow> ('e + discover_record list) option" where
  "stream_answer rows ev =
     (case ev of Lookup now u \<Rightarrow> Some (Inr (filter (\<lambda>r. r_uuid r = u) rows)) | PrefetchOne now \<Rightarrow> None)"

lemma stream_event_ok:
  assumes "stream_inv bs rows c" and load: "\<And>b. load b = Inr (load_block_records bs rows b)"
  shows "fst (stream_event load cfg ev c) = stream_answer rows ev \<and>
    stream_inv bs rows (snd (stream_event load cfg ev c)) \<and>
    (stream_bounded cfg c \<longrightarrow>
     stream_bounded cfg (snd (stream_event load cfg ev c)))"
proof (cases ev)
  case (Lookup now u)
  with stream_get_ok [OF assms, of cfg now u] show ?thesis
    by (simp add: stream_event_def stream_answer_def)
next
  case (PrefetchOne now)
  with prefetch_one_ok [OF assms, of cfg now] show ?thesis
    by (simp add: stream_event_def stream_answer_def)
qed

interpretation stream: bounded_cache
  "stream_event (\<lambda>b. Inr (load_block_records bs rows b)) cfg" "stream_inv bs rows" "stream_answer rows"
  "stream_bounded cfg" for bs rows cfg
  by unfold_locales (rule stream_event_ok [THEN conjunct1] stream_event_ok [THEN conjunct2, THEN conjunct1]
      stream_event_ok [THEN conjunct2, THEN conjunct2, rule_format]; simp)+

section \<open>The tiered cache\<close>

text \<open>
  The first variant is a \<open>RecordCache\<close> with the loader it was built with: a preloaded one holds a
  cell for every neuron of the file and answers any other neuron with no records, a lazy one reads
  the file.
\<close>

datatype tiered_cache =
    TieredPreloaded "string \<Rightarrow> string + discover_record list" memo_cache
  | TieredLru "lru_entry cache_state" nat
  | TieredStreaming stream_cache

datatype tiered_error = MemoError memo_error | LruError string | StreamError read_error | CacheSkipped

text \<open>
  \<open>TieredRecordCache::new\<close>: \<open>plan\<close> is the adaptive cache's preload plan, \<open>grouped\<close> what the grouped
  reader returns, \<open>load\<close> the reader of one neuron and \<open>streaming\<close> the new streaming cache.
\<close>

definition tiered_new ::
  "u64 \<Rightarrow> u64 \<Rightarrow> cache_preload_mode \<Rightarrow> (string \<times> discover_record list) list
     \<Rightarrow> (string \<Rightarrow> string + discover_record list) \<Rightarrow> stream_cache \<Rightarrow> tiered_error + tiered_cache" where
  "tiered_new file_size available plan grouped load streaming =
     (case select_loading_strategy file_size available of
        PreloadAll \<Rightarrow>
          (case plan of
             Preload \<Rightarrow> Inr (TieredPreloaded (\<lambda>_. Inr []) (memo_preloaded grouped))
           | Lazy \<Rightarrow> Inr (TieredPreloaded load memo_new)
           | SkipUnworkable \<Rightarrow> Inl CacheSkipped)
      | LruCache capacity_bytes \<Rightarrow> Inr (TieredLru cache_new (unat capacity_bytes))
      | Streaming \<Rightarrow> Inr (TieredStreaming streaming))"

definition tiered_get ::
  "(string \<Rightarrow> string + discover_record list) \<Rightarrow> (nat \<Rightarrow> read_error + (string \<times> discover_record list) list)
     \<Rightarrow> stream_config \<Rightarrow> instant \<times> string \<Rightarrow> tiered_cache
     \<Rightarrow> (tiered_error + discover_record list) \<times> tiered_cache" where
  "tiered_get load load_block cfg nk t =
     (case nk of (now, u) \<Rightarrow>
        (case t of
           TieredPreloaded loader m \<Rightarrow>
             (case memo_get loader (False, u) m of
                (Inl e, m') \<Rightarrow> (Inl (MemoError e), TieredPreloaded loader m')
              | (Inr rs, m') \<Rightarrow> (Inr rs, TieredPreloaded loader m'))
         | TieredLru s capacity \<Rightarrow>
             (case lru_get load (cfg_record_size cfg) capacity None (now, u) s of
                (Inl e, s') \<Rightarrow> (Inl (LruError e), TieredLru s' capacity)
              | (Inr rs, s') \<Rightarrow> (Inr rs, TieredLru s' capacity))
         | TieredStreaming c \<Rightarrow>
             (case stream_get load_block cfg now u c of
                (Inl e, c') \<Rightarrow> (Inl (StreamError e), TieredStreaming c')
              | (Inr rs, c') \<Rightarrow> (Inr rs, TieredStreaming c'))))"

text \<open>The reader of one neuron over the rows of the file.\<close>

definition neuron_rows :: "discover_record list \<Rightarrow> string \<Rightarrow> string + discover_record list" where
  "neuron_rows rows u = Inr (filter (\<lambda>r. r_uuid r = u) rows)"

definition loader_agrees ::
  "(string \<Rightarrow> string + discover_record list) \<Rightarrow> (string \<Rightarrow> string + discover_record list) \<Rightarrow> memo_cache \<Rightarrow> bool" where
  "loader_agrees loader load m \<longleftrightarrow>
     (\<forall>k. (\<exists>r. map_of (mc_cells m) k = Some (Some r)) \<or> loader k = load k)"

lemma memo_get_loader:
  assumes "loader_agrees loader load m"
  shows "memo_get loader pk m = memo_get load pk m \<and> loader_agrees loader load (snd (memo_get load pk m))"
proof -
  obtain passed k where pk: "pk = (passed, k)" by (cases pk)
  from assms consider r where "map_of (mc_cells m) k = Some (Some r)" | "loader k = load k"
    unfolding loader_agrees_def by blast
  then show ?thesis
  proof cases
    case 1
    with assms show ?thesis
      by (auto simp: memo_get_def memo_entry_def memo_get_or_init_def pk split: sum.split)
  next
    case 2
    then have same: "memo_get_or_init loader k c = memo_get_or_init load k c" for c
      by (simp add: memo_get_or_init_def split: option.split)
    have "loader_agrees loader load (memo_entry k m)"
      using assms 2 by (auto simp: loader_agrees_def memo_entry_def update_conv' split: option.splits)
    then have "loader_agrees loader load (snd (memo_get_or_init load k (memo_entry k m)))"
      by (auto simp: memo_get_or_init_def loader_agrees_def update_conv' split: option.splits)
    with same assms show ?thesis by (auto simp: memo_get_def pk split: sum.splits prod.splits)
  qed
qed

definition tiered_inv :: "nat \<Rightarrow> discover_record list \<Rightarrow> tiered_cache \<Rightarrow> bool" where
  "tiered_inv bs rows t =
     (case t of
        TieredPreloaded loader m \<Rightarrow> memo_inv (neuron_rows rows) m \<and> loader_agrees loader (neuron_rows rows) m
      | TieredLru s _ \<Rightarrow> lru_inv (neuron_rows rows) 0 s
      | TieredStreaming c \<Rightarrow> stream_inv bs rows c)"

interpretation tiered: record_cache
  "tiered_get (neuron_rows rows) (\<lambda>b. Inr (load_block_records bs rows b)) cfg"
  "tiered_inv bs rows" "\<lambda>nk. Inr (filter (\<lambda>r. r_uuid r = snd nk) rows)"
  for rows bs cfg
proof
  fix t and nk :: "instant \<times> string" assume inv: "tiered_inv bs rows t"
  let ?get = "tiered_get (neuron_rows rows) (\<lambda>b. Inr (load_block_records bs rows b)) cfg nk t"
  obtain now u where nk: "nk = (now, u)" by (cases nk)
  have "fst ?get = Inr (filter (\<lambda>r. r_uuid r = snd nk) rows) \<and> tiered_inv bs rows (snd ?get)"
  proof (cases t)
    case (TieredPreloaded loader m)
    then have m: "memo_inv (neuron_rows rows) m" "loader_agrees loader (neuron_rows rows) m"
      using inv by (simp_all add: tiered_inv_def)
    from memo_get_ok [OF m(1), of "(False, u)"] memo_get_loader [OF m(2), of "(False, u)"] show ?thesis
      by (auto simp: tiered_get_def tiered_inv_def memo_answer_def neuron_rows_def nk TieredPreloaded
          split: prod.splits sum.splits)
  next
    case (TieredLru s capacity)
    then have "lru_inv (neuron_rows rows) 0 s" using inv by (simp add: tiered_inv_def)
    from lru_get_ok(1,2) [OF this, of "cfg_record_size cfg" capacity None "(now, u)"]
    show ?thesis
      by (auto simp: tiered_get_def tiered_inv_def neuron_rows_def nk TieredLru split: prod.splits sum.splits)
  next
    case (TieredStreaming c)
    then have "stream_inv bs rows c" using inv by (simp add: tiered_inv_def)
    from stream_get_ok [OF this, where load = "\<lambda>b. Inr (load_block_records bs rows b) :: read_error + _" and cfg = cfg and now = now and u = u] show ?thesis
      by (auto simp: tiered_get_def tiered_inv_def nk TieredStreaming split: prod.splits sum.splits)
  qed
  then show "fst ?get = Inr (filter (\<lambda>r. r_uuid r = snd nk) rows)" "tiered_inv bs rows (snd ?get)"
    by blast+
qed

lemma preloaded_agrees:
  assumes "grouped_as grouped rows"
  shows "tiered_inv bs rows (TieredPreloaded (\<lambda>_. Inr []) (memo_preloaded grouped))"
proof -
  have cells: "map_of (mc_cells (memo_preloaded grouped)) k = map_option (\<lambda>v. Some (Inr v)) (map_of grouped k)" for k
    by (simp add: memo_preloaded_def map_of_map)
  have loads: "mc_loads (memo_preloaded grouped) = []" by (simp add: memo_preloaded_def)
  have look: "lookup_list grouped k = filter (\<lambda>r. r_uuid r = k) rows" for k
    using assms by (simp add: grouped_as_def)
  have "map_of grouped k = Some v \<Longrightarrow> neuron_rows rows k = Inr v" for k v
    using look [of k] by (simp add: neuron_rows_def lookup_list_def)
  moreover have "map_of grouped k = None \<Longrightarrow> neuron_rows rows k = Inr []" for k
    using look [of k] by (simp add: neuron_rows_def lookup_list_def)
  ultimately show ?thesis
    by (simp add: tiered_inv_def memo_inv_def loader_agrees_def cells loads) (metis option.exhaust)
qed

lemma tiered_new_ok:
  assumes "grouped_as grouped rows"
    and "tiered_new file_size available plan grouped (neuron_rows rows) (stream_new bs rows) = Inr t"
  shows "tiered_inv bs rows t"
proof -
  have "stream_inv bs rows (stream_new bs rows)"
    by (simp add: stream_inv_def stream_new_def split: prod.split)
  moreover have "lru_inv (neuron_rows rows) 0 cache_new" by (rule cache_new_ok)
  moreover have "memo_inv (neuron_rows rows) memo_new" by (simp add: memo_inv_def memo_new_def)
  ultimately show ?thesis
    using assms(2) preloaded_agrees [OF assms(1), of bs]
    by (auto simp: tiered_new_def tiered_inv_def loader_agrees_def
        split: loading_strategy.splits cache_preload_mode.splits)
qed

lemma stream_run_ok:
  assumes "stream_inv bs rows c" "stream_bounded cfg c"
    and "\<And>b. load b = Inr (load_block_records bs rows b)"
  shows "case run_gets (stream_event load cfg) events c of
     (answers, c') \<Rightarrow> answers = map (stream_answer rows) events \<and> stream_bounded cfg c'"
proof -
  from assms(3) have load: "load = (\<lambda>b. Inr (load_block_records bs rows b))" by blast
  let ?run = "run_gets (stream_event load cfg) events c"
  have "fst ?run = map (stream_answer rows) events"
    unfolding load using stream.run_answers [OF assms(1)] by blast
  moreover have "stream_bounded cfg (snd ?run)"
    unfolding load by (rule stream.run_bounded [OF assms(1,2)])
  ultimately show ?thesis by (simp add: case_prod_beta)
qed

section \<open>Properties\<close>

definition example_stream_config :: stream_config where
  "example_stream_config = \<lparr>cfg_record_size = 72, cfg_max_blocks = Some 1, cfg_prefetch_depth = 2\<rparr>"

text \<open>
  The tiered cache is uniform: whichever cache the file size, the free memory and the preload
  plan select, when its construction succeeds any sequence of lookups returns each neuron's rows of
  the file, also for neurons the file does not mention.
\<close>

theorem tiered_cache_uniform:
  assumes "grouped_as grouped rows"
    and "tiered_new file_size available plan grouped (neuron_rows rows) (stream_new bs rows) = Inr t"
  shows "fst (run_gets (tiered_get (neuron_rows rows) (\<lambda>b. Inr (load_block_records bs rows b)) cfg) nks t) =
    map (\<lambda>(_, u). Inr (filter (\<lambda>r. r_uuid r = u) rows)) nks"
  using tiered.run_answers [OF tiered_new_ok [OF assms], of cfg nks] by (simp add: case_prod_beta')

theorem tiered_cache_uniform_witness:
  "fst (run_gets (tiered_get (neuron_rows example_rows) (\<lambda>b. Inr (load_block_records 2 example_rows b)) example_stream_config)
      [(1, ''a''), (2, ''ghost'')]
      (TieredPreloaded (\<lambda>_. Inr []) (memo_preloaded (fold add_record example_rows [])))) =
     [Inr [new_record 4 ''a'' None 1 [], new_record 5 ''a'' None 3 []], Inr []]"
proof -
  have "grouped_as (fold add_record example_rows []) example_rows"
    by (auto simp: grouped_as_def lookup_list_def example_rows_def add_record_def new_record_def)
  moreover have "tiered_new 0 8 Preload (fold add_record example_rows []) (neuron_rows example_rows)
      (stream_new 2 example_rows) = Inr (TieredPreloaded (\<lambda>_. Inr []) (memo_preloaded (fold add_record example_rows [])))"
    by (simp add: tiered_new_def select_loading_strategy_def sat_mul_def Let_def)
  ultimately have "fst (run_gets (tiered_get (neuron_rows example_rows) (\<lambda>b. Inr (load_block_records 2 example_rows b)) example_stream_config)
      [(1, ''a''), (2, ''ghost'')]
      (TieredPreloaded (\<lambda>_. Inr []) (memo_preloaded (fold add_record example_rows [])))) =
    map (\<lambda>(_, u). Inr (filter (\<lambda>r. r_uuid r = u) example_rows)) [(1 :: instant, ''a''), (2, ''ghost'')]"
    by (rule tiered_cache_uniform)
  then show ?thesis by (simp add: example_rows_def new_record_def)
qed

end
