(* ===== verification/StreamingFiles.thy ===== *)
theory StreamingFiles
  imports BlockCache
begin

text \<open>
  The streaming cache on a Parquet file (\<open>src/analysis/streaming.rs\<close>): the block index and the block
  loader with their schema checks, pre-flight checks, decode errors and budget charges, and the
  proof that on a file whose rows decode within the budget they compute the index and the blocks of
  the file's rows.
\<close>

section \<open>The loops\<close>

definition open_file :: "parquet_file \<Rightarrow> read_error + unit" where
  "open_file f = (case pf_open f of Some e \<Rightarrow> Inl (OpenFailed e) | None \<Rightarrow> Inr ())"

text \<open>The identifiers of a batch, in row order.\<close>

definition batch_uuids :: "columns \<Rightarrow> string list" where
  "batch_uuids cols = map (\<lambda>i. col_uuid cols ! i) [0..<num_rows cols]"

definition index_batches ::
  "nat \<Rightarrow> (string + columns) list \<Rightarrow> read_error + (string \<rightharpoonup> nat list) \<times> nat \<times> nat" where
  "index_batches block_size batches =
     fold_res (\<lambda>(m, current, rows_in_block) batch.
       case batch of
         Inl e \<Rightarrow> Inl (BatchFailed e)
       | Inr cols \<Rightarrow> Inr (index_rows block_size (batch_uuids cols) m current rows_in_block))
       (Map.empty, 0, 0) batches"

definition build_block_index_file ::
  "limits \<Rightarrow> parquet_file \<Rightarrow> nat \<Rightarrow> decode_budget \<Rightarrow> read_error + (string \<rightharpoonup> nat list) \<times> nat" where
  "build_block_index_file lm f block_size b =
     and_then (open_file f) (\<lambda>_.
     and_then (validate_neuron_uuid_column (pf_fields f)) (\<lambda>_.
     and_then (preflight_row_groups lm (pf_groups f) [''neuron_uuid''] b) (\<lambda>_.
     and_then (index_batches block_size (pf_batches f)) (\<lambda>(m, current, rows_in_block).
       Inr (m, if 0 < rows_in_block then current + 1 else max current 1)))))"

text \<open>
  One row of the block loader: a row of the wanted block is decoded, charged and kept; at a block
  boundary the loop returns when it has seen the block.
\<close>

type_synonym block_state = "(string \<times> discover_record list) list \<times> nat \<times> nat \<times> bool \<times> decode_budget"

definition block_row ::
  "limits \<Rightarrow> nat \<Rightarrow> nat \<Rightarrow> columns \<Rightarrow> block_state \<Rightarrow> nat \<Rightarrow> read_error + bool \<times> block_state" where
  "block_row lm block_size block_id cols = (\<lambda>(acc, current, rows_in_block, found, b) i.
     and_then
       (if current = block_id
        then and_then (decode True cols i) (\<lambda>r.
             and_then (charge lm b r) (\<lambda>b'. Inr (add_record r acc, True, b')))
        else Inr (acc, found, b)) (\<lambda>(acc', found', b').
       let (current', rows') = next_row block_size current rows_in_block in
       Inr (current' \<noteq> current \<and> found', acc', current', rows', found', b')))"

definition block_batches ::
  "limits \<Rightarrow> nat \<Rightarrow> nat \<Rightarrow> (string + columns) list \<Rightarrow> block_state \<Rightarrow> read_error + bool \<times> block_state" where
  "block_batches lm block_size block_id batches st =
     fold_until (\<lambda>st batch. case batch of
        Inl e \<Rightarrow> Inl (BatchFailed e)
      | Inr cols \<Rightarrow> fold_until (block_row lm block_size block_id cols) st [0..<num_rows cols]) st batches"

definition load_block_file ::
  "limits \<Rightarrow> parquet_file \<Rightarrow> nat \<Rightarrow> decode_budget \<Rightarrow> nat
     \<Rightarrow> read_error + (string \<times> discover_record list) list" where
  "load_block_file lm f block_size b block_id =
     and_then (open_file f) (\<lambda>_.
     and_then (validate_parquet_schema (pf_num_columns f) (pf_fields f) Full) (\<lambda>_.
     and_then (preflight_row_groups lm (pf_groups f) (root_names Full) b) (\<lambda>_.
     and_then (block_batches lm block_size block_id (pf_batches f) ([], 0, 0, False, b)) (\<lambda>(_, acc, _).
       Inr acc))))"

text \<open>\<open>StreamingRecordCache::new\<close>: index the file, then start with no blocks.\<close>

definition stream_open ::
  "limits \<Rightarrow> parquet_file \<Rightarrow> nat \<Rightarrow> decode_budget \<Rightarrow> read_error + stream_cache" where
  "stream_open lm f block_size b =
     and_then (build_block_index_file lm f block_size b) (\<lambda>(index, num_blocks).
       Inr \<lparr>sc_index = index, sc_total_blocks = num_blocks, sc_blocks = [], sc_hits = 0, sc_misses = 0,
            sc_evictions = 0, sc_prefetches = 0, sc_queue = []\<rparr>)"

section \<open>Rows of a readable file\<close>

text \<open>The rows of the batches as pairs of batch and row number.\<close>

definition row_refs :: "columns list \<Rightarrow> (columns \<times> nat) list" where
  "row_refs colss = concat (map (\<lambda>cols. map (Pair cols) [0..<num_rows cols]) colss)"

definition decodes_to :: "columns \<times> nat \<Rightarrow> discover_record \<Rightarrow> bool" where
  "decodes_to p r \<longleftrightarrow> decode True (fst p) (snd p) = Inr r"

lemma plain_rows:
  "fold_res (\<lambda>rs i. and_then (decode True cols i) (\<lambda>r. Inr (rs @ [r]))) acc is = Inr out \<Longrightarrow>
   \<exists>rs. out = acc @ rs \<and> list_all2 decodes_to (map (Pair cols) is) rs"
proof (induction "is" arbitrary: acc)
  case (Cons i "is")
  then obtain r where r: "decode True cols i = Inr r"
    "fold_res (\<lambda>rs i. and_then (decode True cols i) (\<lambda>r. Inr (rs @ [r]))) (acc @ [r]) is = Inr out" by auto
  from Cons.IH [OF r(2)] obtain rs where "out = acc @ r # rs" "list_all2 decodes_to (map (Pair cols) is) rs"
    by auto
  moreover from r(1) have "decodes_to (cols, i) r" by (simp add: decodes_to_def)
  ultimately show ?case by (intro exI [of _ "r # rs"]) simp
qed simp

lemma plain_batches:
  "over_rows (\<lambda>cols rs i. and_then (decode True cols i) (\<lambda>r. Inr (rs @ [r]))) batches acc = Inr out \<Longrightarrow>
   \<exists>colss rs. batches = map Inr colss \<and> out = acc @ rs \<and> list_all2 decodes_to (row_refs colss) rs"
proof (induction batches arbitrary: acc)
  case Nil
  then show ?case by (simp add: over_rows_def row_refs_def)
next
  case (Cons batch batches)
  then obtain cols mid where b: "batch = Inr cols"
    "fold_res (\<lambda>rs i. and_then (decode True cols i) (\<lambda>r. Inr (rs @ [r]))) acc [0..<num_rows cols] = Inr mid"
    and rest: "over_rows (\<lambda>cols rs i. and_then (decode True cols i) (\<lambda>r. Inr (rs @ [r]))) batches mid = Inr out"
    by (auto simp: over_rows_def split: sum.splits)
  from plain_rows [OF b(2)] obtain rs1 where 1: "mid = acc @ rs1"
    "list_all2 decodes_to (map (Pair cols) [0..<num_rows cols]) rs1" by blast
  from Cons.IH [OF rest] obtain colss rs2 where "batches = map Inr colss" "out = mid @ rs2"
    "list_all2 decodes_to (row_refs colss) rs2" by blast
  with b 1 show ?case
    by (intro exI [of _ "cols # colss"] exI [of _ "rs1 @ rs2"])
       (simp add: row_refs_def list_all2_appendI)
qed

lemma file_rows:
  assumes "file_records True batches = Inr all"
  obtains colss where "batches = map Inr colss" "list_all2 decodes_to (row_refs colss) all"
  using plain_batches [of batches "[]" all] assms by (auto simp: file_records_def)

section \<open>The index\<close>

lemma index_rows_append:
  "index_rows bs (us @ vs) m c k = (case index_rows bs us m c k of (m', c', k') \<Rightarrow> index_rows bs vs m' c' k')"
  by (induction us arbitrary: m c k) (simp_all add: Let_def split: prod.split)

lemma index_batches_rows:
  "fold_res (\<lambda>(m, current, rows_in_block) batch.
       case batch of
         Inl e \<Rightarrow> Inl (BatchFailed e)
       | Inr cols \<Rightarrow> Inr (index_rows bs (batch_uuids cols) m current rows_in_block)) (m, c, k) (map Inr colss) =
   Inr (index_rows bs (concat (map batch_uuids colss)) m c k)"
  by (induction colss arbitrary: m c k) (simp_all add: index_rows_append split: prod.split)

lemma batch_uuids_rows:
  assumes "list_all2 decodes_to (row_refs colss) rs"
  shows "concat (map batch_uuids colss) = map r_uuid rs"
proof -
  have "concat (map batch_uuids colss) = map (\<lambda>p. col_uuid (fst p) ! snd p) (row_refs colss)"
    by (induction colss) (simp_all add: row_refs_def batch_uuids_def)
  also have "\<dots> = map r_uuid rs"
    using assms by (induction rule: list_all2_induct) (auto simp: decodes_to_def dest: decode_columns(1))
  finally show ?thesis .
qed

section \<open>The block loader\<close>

lemma nested_fold_until:
  "fold_until (\<lambda>st batch. case batch of
        Inl e \<Rightarrow> Inl (BatchFailed e)
      | Inr cols \<Rightarrow> fold_until (row cols) st [0..<num_rows cols]) st (map Inr colss) =
   fold_until (\<lambda>st p. row (fst p) st (snd p)) st (row_refs colss)"
proof (induction colss arbitrary: st)
  case (Cons cols colss)
  have "fold_until (\<lambda>st p. row (fst p) st (snd p)) st (map (Pair cols) is) = fold_until (row cols) st is" for st "is"
    by (induction "is" arbitrary: st) (simp_all add: and_then_def split: sum.split prod.split)
  with Cons show ?case
    by (simp add: row_refs_def fold_until_append and_then_def split: sum.split)
qed (simp add: row_refs_def)

lemma block_rows_run:
  assumes "list_all2 decodes_to ps rs" "charged lm b0 taken b" "fits lm b0 (taken @ rs)"
  shows "\<exists>stop rest. fold_until (\<lambda>st p. block_row lm bs bid (fst p) st (snd p)) (acc, c, k, found, b) ps =
    Inr (stop, load_rows bs bid rs acc c k found, rest)"
  using assms
proof (induction ps rs arbitrary: taken b acc c k found rule: list_all2_induct)
  case Nil
  then show ?case by auto
next
  case (Cons p ps r rs)
  from Cons.hyps have r: "decode True (fst p) (snd p) = Inr r" by (simp add: decodes_to_def)
  obtain c' k' where n: "next_row bs c k = (c', k')" by force
  show ?case
  proof (cases "c = bid")
    case True
    have "fits lm b0 (taken @ [r])"
      using Cons.prems(2) by (auto simp: fits_def budget_bytes_def split: option.splits)
    from charge_fits [OF Cons.prems(1) this] obtain b' where
      b': "charge lm b r = Inr b'" "charged lm b0 (taken @ [r]) b'" by blast
    from Cons.prems(2) have "fits lm b0 ((taken @ [r]) @ rs)" by simp
    from Cons.IH [OF b'(2) this, of "add_record r acc" c' k' True] True r b' n show ?thesis
      by (auto simp: block_row_def Let_def)
  next
    case False
    have "fits lm b0 (taken @ rs)"
      using Cons.prems(2) by (auto simp: fits_def budget_bytes_def split: option.splits)
    from Cons.IH [OF Cons.prems(1) this, of acc c' k' found] False n show ?thesis
      by (auto simp: block_row_def Let_def)
  qed
qed

text \<open>A file the streaming cache can serve.\<close>

definition streamable :: "limits \<Rightarrow> parquet_file \<Rightarrow> decode_budget \<Rightarrow> discover_record list \<Rightarrow> bool" where
  "streamable lm f b all \<longleftrightarrow> readable f Full all \<and> fits lm b all \<and>
     preflight_row_groups lm (pf_groups f) (root_names Full) b = Inr () \<and>
     preflight_row_groups lm (pf_groups f) [''neuron_uuid''] b = Inr () \<and>
     is_ok (validate_neuron_uuid_column (pf_fields f))"

lemma streamable_open: "streamable lm f b all \<Longrightarrow> open_file f = Inr ()"
  by (auto simp: streamable_def readable_def open_parquet_file_def open_file_def split: if_splits option.splits)

lemma load_block_file_ok:
  assumes "streamable lm f b all"
  shows "load_block_file lm f bs b bid = Inr (load_block_records bs all bid)"
proof -
  from assms have r: "validate_parquet_schema (pf_num_columns f) (pf_fields f) Full = Inr ()"
    "file_records True (pf_batches f) = Inr all" "fits lm b all"
    "preflight_row_groups lm (pf_groups f) (root_names Full) b = Inr ()"
    by (simp_all add: streamable_def readable_def includes_errors_def)
  obtain colss where c: "pf_batches f = map Inr colss" "list_all2 decodes_to (row_refs colss) all"
    using file_rows [OF r(2)] .
  from block_rows_run [OF c(2) charged_empty [of lm b], of bs bid "[]" 0 0 False] r(3)
  obtain stop rest where "block_batches lm bs bid (pf_batches f) ([], 0, 0, False, b) =
      Inr (stop, load_block_records bs all bid, rest)"
    by (auto simp: block_batches_def c(1) nested_fold_until load_block_records_def)
  with r streamable_open [OF assms] show ?thesis by (simp add: load_block_file_def)
qed

lemma stream_open_ok:
  assumes "streamable lm f b all"
  shows "stream_open lm f bs b = Inr (stream_new bs all)"
proof -
  from assms have r: "file_records True (pf_batches f) = Inr all"
    "is_ok (validate_neuron_uuid_column (pf_fields f))"
    "preflight_row_groups lm (pf_groups f) [''neuron_uuid''] b = Inr ()"
    by (simp_all add: streamable_def readable_def includes_errors_def)
  obtain colss where c: "pf_batches f = map Inr colss" "list_all2 decodes_to (row_refs colss) all"
    using file_rows [OF r(1)] .
  have "index_batches bs (pf_batches f) = Inr (index_rows bs (map r_uuid all) Map.empty 0 0)"
    by (simp add: index_batches_def c(1) index_batches_rows batch_uuids_rows [OF c(2)])
  with r streamable_open [OF assms] show ?thesis
    by (auto simp: stream_open_def build_block_index_file_def stream_new_def build_block_index_def
        is_ok_iff split: prod.split)
qed

section \<open>Properties\<close>

lemma example_streamable: "streamable example_limits example_file (budget_new (Some 400)) example_rows"
proof -
  have "fits example_limits (budget_new (Some 400)) example_rows"
    by (simp add: fits_def budget_new_def budget_bytes_def example_rows_def new_record_def example_estimate)
  moreover have "is_ok (validate_neuron_uuid_column (pf_fields example_file))" by code_simp
  ultimately show ?thesis
    using example_readable
    by (simp add: streamable_def example_preflight preflight_row_groups_def example_file_def)
qed

text \<open>
  C4. On a streamable file the streaming cache opens, and whatever sequence of lookups and
  prefetches it then sees, whatever its block size, prefetch depth and block limit, and whatever it
  evicted and reloaded in between, every lookup returns exactly the neuron's rows of the file in
  order, and at most \<open>max(limit, 1)\<close> blocks stay cached.
\<close>

theorem streaming_cache_transparent:
  assumes "streamable lm f b all"
  shows "case stream_open lm f block_size b of
      Inl _ \<Rightarrow> False
    | Inr c \<Rightarrow> (case run_gets (stream_event (load_block_file lm f block_size b) cfg) events c of
        (answers, c') \<Rightarrow> answers = map (stream_answer all) events \<and> stream_bounded cfg c')"
proof -
  have "stream_inv block_size all (stream_new block_size all)" "stream_bounded cfg (stream_new block_size all)"
    by (auto simp: stream_inv_def stream_bounded_def stream_new_def split: prod.split option.split)
  from stream_run_ok [OF this load_block_file_ok [OF assms], of events] stream_open_ok [OF assms, of block_size]
  show ?thesis by simp
qed

theorem streaming_cache_transparent_witness:
  "case stream_open example_limits example_file 2 (budget_new (Some 400)) of
     Inl _ \<Rightarrow> False
   | Inr c \<Rightarrow> fst (run_gets (stream_event (load_block_file example_limits example_file 2 (budget_new (Some 400)))
        example_stream_config) [Lookup 1 ''a'', PrefetchOne 2, Lookup 3 ''b''] c) =
      [Some (Inr [new_record 4 ''a'' None 1 [], new_record 5 ''a'' None 3 []]), None,
       Some (Inr [new_record 4 ''b'' (Some 2) 2 []])]"
  using streaming_cache_transparent [OF example_streamable, where block_size = 2 and
      cfg = example_stream_config and events = "[Lookup 1 ''a'', PrefetchOne 2, Lookup 3 ''b'']"]
  by (auto simp: stream_answer_def example_rows_def new_record_def split: sum.splits prod.splits)

end
