(* ===== verification/GpuGuard.thy ===== *)
theory GpuGuard
  imports Prelude
begin

text \<open>
  The guards around the GPU (\<open>src/analysis/gpu/\<close>): the circuit breaker (\<open>breaker.rs\<close>), the time
  budget of a request (\<open>budget.rs\<close>), the heartbeat watch (\<open>heartbeat.rs\<close>), the registry of
  outstanding requests (\<open>inflight.rs\<close>), the retry back-off (\<open>queue/recovery.rs\<close>) and the check that a
  sample set fits the device (\<open>sample_limits.rs\<close>). Clock readings are arguments.
\<close>

section \<open>The circuit breaker\<close>

datatype trip_reason = AbandonedThread | BatchTimeout | InitTimeout | HeartbeatStall | WorkerPanicked

fun trip_code :: "trip_reason \<Rightarrow> u8" where
  "trip_code AbandonedThread = 1"
| "trip_code BatchTimeout = 2"
| "trip_code InitTimeout = 3"
| "trip_code HeartbeatStall = 4"
| "trip_code WorkerPanicked = 5"

definition from_trip_code :: "u8 \<Rightarrow> trip_reason option" where
  "from_trip_code code =
     (if code = 1 then Some AbandonedThread
      else if code = 2 then Some BatchTimeout
      else if code = 3 then Some InitTimeout
      else if code = 4 then Some HeartbeatStall
      else if code = 5 then Some WorkerPanicked
      else None)"

lemma trip_code_roundtrip [simp, codec_simps]: "from_trip_code (trip_code r) = Some r"
  by (cases r) (simp_all add: from_trip_code_def)

lemma from_trip_code_zero [simp]: "from_trip_code 0 = None"
  by (simp add: from_trip_code_def)

lemma trip_code_nonzero [simp]: "trip_code r \<noteq> 0"
  by (cases r) simp_all

text \<open>The breaker and the process-wide count of abandoned threads it reports.\<close>

record breaker =
  br_reason :: u8
  br_skip_warned :: bool
  br_abandoned :: nat

definition breaker_new :: breaker where
  "breaker_new = \<lparr>br_reason = 0, br_skip_warned = False, br_abandoned = 0\<rparr>"

definition is_tripped :: "breaker \<Rightarrow> bool" where
  "is_tripped b \<longleftrightarrow> br_reason b \<noteq> 0"

definition breaker_trip_reason :: "breaker \<Rightarrow> trip_reason option" where
  "breaker_trip_reason b = from_trip_code (br_reason b)"

text \<open>\<open>trip\<close>: the compare-exchange keeps the first reason.\<close>

definition trip :: "trip_reason \<Rightarrow> breaker \<Rightarrow> breaker" where
  "trip r b = (if br_reason b = 0 then b\<lparr>br_reason := trip_code r\<rparr> else b)"

definition record_abandoned_thread :: "breaker \<Rightarrow> breaker" where
  "record_abandoned_thread b = trip AbandonedThread (b\<lparr>br_abandoned := br_abandoned b + 1\<rparr>)"

text \<open>The \<open>GpuWedged\<close> error carries its detail and the count of abandoned threads.\<close>

datatype wedge_detail =
    BreakerTripped trip_reason
  | QueueFull u64
  | OperationTimedOut string u64
  | OperationStalled string duration duration
  | InitTimedOut u64

datatype gpu_error =
    GpuWedged wedge_detail nat
  | QueueClosed
  | ResponseClosed
  | InitFailed string
  | ThreadNotStarted

definition gpu_wedged_error :: "wedge_detail \<Rightarrow> breaker \<Rightarrow> gpu_error" where
  "gpu_wedged_error detail b = GpuWedged detail (br_abandoned b)"

definition breaker_check :: "breaker \<Rightarrow> gpu_error + unit" where
  "breaker_check b =
     (case breaker_trip_reason b of
        None \<Rightarrow> Inr ()
      | Some r \<Rightarrow> Inl (gpu_wedged_error (BreakerTripped r) b))"

text \<open>\<open>gpu_wedged_skip_reason\<close>: the reason, and whether this call is the one that warns.\<close>

definition gpu_wedged_skip_reason :: "breaker \<Rightarrow> (trip_reason \<times> bool) option \<times> breaker" where
  "gpu_wedged_skip_reason b =
     (case breaker_trip_reason b of
        None \<Rightarrow> (None, b)
      | Some r \<Rightarrow> (Some (r, \<not> br_skip_warned b), b\<lparr>br_skip_warned := True\<rparr>))"

definition breaker_reset :: "breaker \<Rightarrow> breaker" where
  "breaker_reset b = b\<lparr>br_reason := 0, br_skip_warned := False, br_abandoned := 0\<rparr>"

text \<open>The operations any threads may interleave; \<open>reset\<close> is for tests.\<close>

datatype breaker_op = Trip trip_reason | Abandon | SkipReason

fun breaker_step :: "breaker_op \<Rightarrow> breaker \<Rightarrow> breaker" where
  "breaker_step (Trip r) b = trip r b"
| "breaker_step Abandon b = record_abandoned_thread b"
| "breaker_step SkipReason b = snd (gpu_wedged_skip_reason b)"

fun breaker_op_reason :: "breaker_op \<Rightarrow> trip_reason option" where
  "breaker_op_reason (Trip r) = Some r"
| "breaker_op_reason Abandon = Some AbandonedThread"
| "breaker_op_reason SkipReason = None"

text \<open>The reason code stays one \<open>from_code\<close> knows.\<close>

definition breaker_ok :: "breaker \<Rightarrow> bool" where
  "breaker_ok b \<longleftrightarrow> br_reason b = 0 \<or> (\<exists>r. br_reason b = trip_code r)"

lemma breaker_reason_cases:
  assumes "breaker_ok b"
  shows "breaker_trip_reason b = None \<longleftrightarrow> \<not> is_tripped b"
  using assms by (auto simp: breaker_ok_def breaker_trip_reason_def is_tripped_def)

lemma breaker_step_ok: "breaker_ok b \<Longrightarrow> breaker_ok (breaker_step op b)"
  by (cases op) (auto simp: breaker_ok_def trip_def record_abandoned_thread_def gpu_wedged_skip_reason_def
      split: option.split simp del: trip_code.simps)

lemma breaker_steps_ok: "breaker_ok b \<Longrightarrow> breaker_ok (fold breaker_step ops b)"
  by (induction ops arbitrary: b) (simp_all add: breaker_step_ok)

lemma breaker_step_tripped: "is_tripped b \<Longrightarrow> br_reason (breaker_step op b) = br_reason b"
  by (cases op) (auto simp: is_tripped_def trip_def record_abandoned_thread_def gpu_wedged_skip_reason_def
      split: option.split)

lemma breaker_latched:
  "is_tripped b \<Longrightarrow> br_reason (fold breaker_step ops b) = br_reason b"
proof (induction ops arbitrary: b)
  case (Cons op ops)
  note step = breaker_step_tripped [OF Cons.prems, of op]
  with Cons.prems have "is_tripped (breaker_step op b)" by (simp add: is_tripped_def)
  from Cons.IH [OF this] step show ?case by simp
qed simp

lemma breaker_first_reason:
  "\<not> is_tripped b \<Longrightarrow> breaker_trip_reason (fold breaker_step ops b) =
     (case List.map_filter breaker_op_reason ops of [] \<Rightarrow> None | r # _ \<Rightarrow> Some r)"
proof (induction ops arbitrary: b)
  case Nil
  then show ?case by (simp add: is_tripped_def breaker_trip_reason_def from_trip_code_def map_filter_def)
next
  case (Cons op ops)
  show ?case
  proof (cases "breaker_op_reason op")
    case None
    then have "op = SkipReason" by (cases op) simp_all
    with Cons.prems have "breaker_step op b = b"
      by (simp add: gpu_wedged_skip_reason_def breaker_trip_reason_def from_trip_code_def is_tripped_def)
    with Cons None show ?thesis by (simp add: map_filter_def)
  next
    case (Some r)
    have "br_reason (breaker_step op b) = trip_code r"
      using Some Cons.prems by (cases op) (auto simp: is_tripped_def trip_def record_abandoned_thread_def)
    moreover from this have "is_tripped (breaker_step op b)" by (simp add: is_tripped_def)
    ultimately show ?thesis
      using breaker_latched [of "breaker_step op b" ops] Some
      by (simp add: breaker_trip_reason_def map_filter_def)
  qed
qed

lemma abandoned_count:
  "br_abandoned (fold breaker_step ops b) = br_abandoned b + length (filter (\<lambda>op. op = Abandon) ops)"
proof (induction ops arbitrary: b)
  case (Cons op ops)
  have "br_abandoned (breaker_step op b) = br_abandoned b + (if op = Abandon then 1 else 0)"
    by (cases op) (auto simp: trip_def record_abandoned_thread_def gpu_wedged_skip_reason_def split: option.split)
  with Cons show ?case by simp
qed simp

section \<open>Time budgets\<close>

definition gpu_queue_timeout_min_secs :: nat where "gpu_queue_timeout_min_secs = 60"
definition gpu_queue_timeout_max_secs :: nat where "gpu_queue_timeout_max_secs = 300"
definition gpu_buffer_map_timeout_margin_secs :: nat where "gpu_buffer_map_timeout_margin_secs = 5"
definition gpu_buffer_map_timeout_secs :: nat where
  "gpu_buffer_map_timeout_secs = gpu_queue_timeout_max_secs - gpu_buffer_map_timeout_margin_secs"

text \<open>\<open>calculate_gpu_batch_timeout\<close>: half of the remaining time, between a minute and five.\<close>

definition calculate_gpu_batch_timeout :: "instant option \<Rightarrow> instant \<Rightarrow> duration" where
  "calculate_gpu_batch_timeout deadline now =
     (let min_timeout = gpu_queue_timeout_min_secs * ns_per_sec;
          max_timeout = gpu_queue_timeout_max_secs * ns_per_sec
      in case deadline of
           Some dl \<Rightarrow>
             if now \<le> dl then
               let half_remaining = (dl - now) div 2 in
               if half_remaining < min_timeout then min_timeout
               else if max_timeout < half_remaining then max_timeout
               else half_remaining
             else min_timeout
         | None \<Rightarrow> max_timeout)"

record time_budget =
  tb_deadline :: "instant option"

definition unbounded :: time_budget where
  "unbounded = \<lparr>tb_deadline = None\<rparr>"

definition from_caller_timeout_at :: "instant \<Rightarrow> duration \<Rightarrow> time_budget" where
  "from_caller_timeout_at start caller_timeout =
     \<lparr>tb_deadline = Some (start + (caller_timeout - gpu_buffer_map_timeout_margin_secs * ns_per_sec))\<rparr>"

definition is_bounded :: "time_budget \<Rightarrow> bool" where
  "is_bounded b \<longleftrightarrow> tb_deadline b \<noteq> None"

definition remaining_at :: "time_budget \<Rightarrow> instant \<Rightarrow> duration" where
  "remaining_at b now =
     (case tb_deadline b of
        Some deadline \<Rightarrow> deadline - now
      | None \<Rightarrow> gpu_buffer_map_timeout_secs * ns_per_sec)"

definition capped :: "time_budget \<Rightarrow> duration \<Rightarrow> instant \<Rightarrow> duration" where
  "capped b wait now = min wait (remaining_at b now)"

definition budget_is_expired :: "time_budget \<Rightarrow> instant \<Rightarrow> bool" where
  "budget_is_expired b now \<longleftrightarrow> is_bounded b \<and> remaining_at b now = 0"

definition is_exhausted_for_waits_at :: "time_budget \<Rightarrow> instant \<Rightarrow> bool" where
  "is_exhausted_for_waits_at b now \<longleftrightarrow> is_bounded b \<and> remaining_at b now < ns_per_sec"

definition budget_check :: "time_budget \<Rightarrow> string \<Rightarrow> instant \<Rightarrow> string + unit" where
  "budget_check b label now = (if budget_is_expired b now then Inl label else Inr ())"

text \<open>
  The GPU side gives up strictly before its caller: the budget made from a caller's batch timeout
  expires at least the margin before the caller stops waiting, and no capped wait outlives it.
\<close>

lemma batch_timeout_bounds:
  "gpu_queue_timeout_min_secs * ns_per_sec \<le> calculate_gpu_batch_timeout deadline now \<and>
   calculate_gpu_batch_timeout deadline now \<le> gpu_queue_timeout_max_secs * ns_per_sec"
  by (simp add: calculate_gpu_batch_timeout_def gpu_queue_timeout_min_secs_def gpu_queue_timeout_max_secs_def
      ns_per_sec_def Let_def split: option.split)

lemma budget_before_caller:
  assumes "b = from_caller_timeout_at start (calculate_gpu_batch_timeout deadline start)"
  shows "now + capped b wait now + gpu_buffer_map_timeout_margin_secs * ns_per_sec
      \<le> max (start + calculate_gpu_batch_timeout deadline start)
          (now + gpu_buffer_map_timeout_margin_secs * ns_per_sec)"
    and "budget_is_expired b now \<longleftrightarrow>
      start + calculate_gpu_batch_timeout deadline start \<le> now + gpu_buffer_map_timeout_margin_secs * ns_per_sec"
  using batch_timeout_bounds [of deadline start] assms
  by (auto simp: from_caller_timeout_at_def capped_def remaining_at_def budget_is_expired_def is_bounded_def
      gpu_buffer_map_timeout_margin_secs_def gpu_queue_timeout_min_secs_def ns_per_sec_def)

section \<open>The heartbeat watch\<close>

record heartbeat_watch =
  hw_window :: duration
  hw_last_ticks :: u64
  hw_last_progress :: instant

definition watch_new :: "u64 \<Rightarrow> duration \<Rightarrow> instant \<Rightarrow> heartbeat_watch" where
  "watch_new ticks stall_window now =
     \<lparr>hw_window = stall_window, hw_last_ticks = ticks, hw_last_progress = now\<rparr>"

definition stalled_for :: "u64 \<Rightarrow> instant \<Rightarrow> heartbeat_watch \<Rightarrow> duration option \<times> heartbeat_watch" where
  "stalled_for ticks now w =
     (if ticks \<noteq> hw_last_ticks w then (None, w\<lparr>hw_last_ticks := ticks, hw_last_progress := now\<rparr>)
      else if hw_window w = 0 then (None, w)
      else let idle = now - hw_last_progress w in
           (if hw_window w \<le> idle then Some idle else None, w))"

definition poll_interval :: "heartbeat_watch \<Rightarrow> duration" where
  "poll_interval w =
     (if hw_window w = 0 then ns_per_sec
      else max (10 * ns_per_ms) (min (hw_window w div 10) ns_per_sec))"

lemma poll_interval_bounds: "10 * ns_per_ms \<le> poll_interval w \<and> poll_interval w \<le> ns_per_sec"
  by (simp add: poll_interval_def ns_per_ms_def ns_per_sec_def)

section \<open>Outstanding requests\<close>

record inflight_entry =
  if_id :: u64
  if_label :: string
  if_started :: instant

record inflight =
  il_next_id :: u64
  il_entries :: "inflight_entry list"

definition register_inflight :: "string \<Rightarrow> instant \<Rightarrow> inflight \<Rightarrow> u64 \<times> inflight" where
  "register_inflight label now s =
     (il_next_id s, s\<lparr>il_next_id := il_next_id s + 1,
        il_entries := il_entries s @ [\<lparr>if_id = il_next_id s, if_label = label, if_started = now\<rparr>]\<rparr>)"

definition drop_inflight :: "u64 \<Rightarrow> inflight \<Rightarrow> inflight" where
  "drop_inflight i s = s\<lparr>il_entries := filter (\<lambda>e. if_id e \<noteq> i) (il_entries s)\<rparr>"

text \<open>\<open>sort_by_key\<close> with \<open>Reverse\<close> is a stable sort by descending age.\<close>

definition outstanding_requests :: "bool \<Rightarrow> instant \<Rightarrow> inflight \<Rightarrow> (string \<times> duration) list option" where
  "outstanding_requests lock_free now s =
     (if \<not> lock_free then None
      else Some (sort_key (\<lambda>(_, age). - int age)
             (map (\<lambda>e. (if_label e, now - if_started e)) (il_entries s))))"

lemma register_drop_inflight:
  assumes "register_inflight label now s = (i, s')" "i \<notin> if_id ` set (il_entries s)"
  shows "il_entries (drop_inflight i s') = il_entries s"
proof -
  from assms(2) have "filter (\<lambda>e. if_id e \<noteq> i) (il_entries s) = il_entries s"
    by (auto intro: filter_True)
  with assms show ?thesis by (auto simp: register_inflight_def drop_inflight_def)
qed

lemma outstanding_oldest_first:
  assumes "outstanding_requests free now s = Some rs"
  shows "sorted_wrt (\<lambda>a b. snd b \<le> snd a) rs"
proof -
  from assms have "sorted (map (\<lambda>(_, age). - int age) rs)"
    by (auto simp: outstanding_requests_def split: if_splits)
  then show ?thesis by (simp add: sorted_wrt_map case_prod_beta)
qed

section \<open>Retry back-off\<close>

definition checked_shl_one :: "u32 \<Rightarrow> u64 option" where
  "checked_shl_one n = (if unat n < 64 then Some (push_bit (unat n) 1) else None)"

definition backoff_delay_ms :: "u32 \<Rightarrow> u64 \<Rightarrow> u64 \<Rightarrow> u64" where
  "backoff_delay_ms attempt initial_ms max_ms =
     (let exponent = sat_sub attempt 1;
          delay = sat_mul initial_ms (case checked_shl_one exponent of Some v \<Rightarrow> v | None \<Rightarrow> - 1)
      in min delay max_ms)"

lemma unat_two_power: "n < 64 \<Longrightarrow> unat (2 ^ n :: u64) = 2 ^ n"
proof -
  assume n: "n < 64"
  have "(2 :: u64) ^ n = word_of_nat (2 ^ n)" by simp
  then have "unat (2 ^ n :: u64) = take_bit 64 (2 ^ n)" by (simp only: unsigned_of_nat) simp
  also have "\<dots> = 2 ^ n"
    using n by (intro take_bit_nat_eq_self power_strict_increasing) simp_all
  finally show ?thesis .
qed

text \<open>The delay is the exact capped exponential: neither the shift nor the product can distort it.\<close>

lemma backoff_exact:
  "unat (backoff_delay_ms attempt initial_ms max_ms) =
     min (unat initial_ms * 2 ^ (unat attempt - 1)) (unat max_ms)"
proof -
  let ?e = "unat attempt - 1"
  have e: "unat (sat_sub attempt 1) = ?e" by (simp add: unat_sat_sub)
  have mx: "unat max_ms \<le> 2 ^ 64 - 1" using unat_le_max [of max_ms] by simp
  have un: "unat (min a b) = min (unat a) (unat b)" for a b :: u64
    by (simp add: min_def word_le_nat_alt)
  show ?thesis
  proof (cases "?e < 64")
    case True
    with mx show ?thesis
      by (simp add: backoff_delay_ms_def checked_shl_one_def e un unat_sat_mul unat_two_power)
  next
    case False
    then have "unat (backoff_delay_ms attempt initial_ms max_ms) =
        min (min (unat initial_ms * (2 ^ 64 - 1)) (2 ^ 64 - 1)) (unat max_ms)"
      by (simp add: backoff_delay_ms_def checked_shl_one_def e un unat_sat_mul)
    also have "\<dots> = min (unat initial_ms * 2 ^ ?e) (unat max_ms)"
    proof (cases "unat initial_ms = 0")
      case nz: False
      have "(2::nat) ^ 64 \<le> 2 ^ ?e" using False by (intro power_increasing) simp_all
      also have "\<dots> \<le> unat initial_ms * 2 ^ ?e" using nz by simp
      finally have big: "2 ^ 64 \<le> unat initial_ms * 2 ^ ?e" .
      have "2 ^ 64 - 1 \<le> unat initial_ms * (2 ^ 64 - 1)" using nz by (cases "unat initial_ms") simp_all
      with big mx show ?thesis by linarith
    qed simp
    finally show ?thesis .
  qed
qed

section \<open>Device limits\<close>

record gpu_limits =
  gl_max_binding :: u64
  gl_max_buffer :: u64
  gl_max_workgroups :: u32

datatype fit_error =
    SizeOverflow string string nat nat
  | BindingTooLarge string string nat
  | BufferTooLarge string string nat
  | TooManyWorkgroups string nat

definition workgroup_size :: nat where "workgroup_size = 256"

fun check_bindings :: "string \<Rightarrow> nat \<Rightarrow> (string \<times> nat) list \<Rightarrow> gpu_limits \<Rightarrow> fit_error + unit" where
  "check_bindings path n [] lim = Inr ()"
| "check_bindings path n ((name, element_bytes) # rest) lim =
     (case checked_mul_usize n element_bytes of
        None \<Rightarrow> Inl (SizeOverflow path name n element_bytes)
      | Some bytes \<Rightarrow>
          if unat (gl_max_binding lim) < bytes then Inl (BindingTooLarge path name bytes)
          else if unat (gl_max_buffer lim) < bytes then Inl (BufferTooLarge path name bytes)
          else check_bindings path n rest lim)"

definition check_sample_set_fits :: "string \<Rightarrow> nat \<Rightarrow> (string \<times> nat) list \<Rightarrow> gpu_limits \<Rightarrow> fit_error + unit" where
  "check_sample_set_fits path sample_count bindings lim =
     (if sample_count = 0 then Inr ()
      else and_then (check_bindings path sample_count bindings lim) (\<lambda>_.
        let workgroups = div_ceil sample_count workgroup_size in
        if unat (gl_max_workgroups lim) < workgroups then Inl (TooManyWorkgroups path workgroups) else Inr ()))"

text \<open>Element sizes are those of the \<open>repr(C)\<close> sample and output structures.\<close>

record element_sizes =
  es_sample :: nat
  es_helpful :: nat
  es_harmful :: nat
  es_relu :: nat
  es_activation :: nat

definition check_helpful_set_fits :: "element_sizes \<Rightarrow> nat \<Rightarrow> gpu_limits \<Rightarrow> fit_error + unit" where
  "check_helpful_set_fits es n lim =
     check_sample_set_fits ''helpful'' n [(''samples'', es_sample es), (''contributions'', es_helpful es)] lim"

definition check_harmful_set_fits :: "element_sizes \<Rightarrow> nat \<Rightarrow> gpu_limits \<Rightarrow> fit_error + unit" where
  "check_harmful_set_fits es n lim =
     check_sample_set_fits ''harmful'' n [(''samples'', es_sample es), (''contributions'', es_harmful es)] lim"

definition check_relu_set_fits :: "element_sizes \<Rightarrow> nat \<Rightarrow> gpu_limits \<Rightarrow> fit_error + unit" where
  "check_relu_set_fits es n lim =
     check_sample_set_fits ''relu'' n [(''samples'', es_sample es), (''contributions'', es_relu es)] lim"

definition check_activation_set_fits :: "element_sizes \<Rightarrow> nat \<Rightarrow> gpu_limits \<Rightarrow> fit_error + unit" where
  "check_activation_set_fits es n lim =
     check_sample_set_fits ''activation'' n [(''samples'', es_sample es), (''outputs'', es_activation es)] lim"

lemma check_bindings_iff:
  "is_ok (check_bindings path n bs lim) \<longleftrightarrow>
     list_all (\<lambda>(_, e). n * e \<le> usize_max \<and> n * e \<le> unat (gl_max_binding lim) \<and> n * e \<le> unat (gl_max_buffer lim)) bs"
  by (induction path n bs lim rule: check_bindings.induct)
     (auto simp: checked_mul_usize_def split: option.splits)

lemma sample_set_fits_iff:
  "is_ok (check_sample_set_fits path n bs lim) \<longleftrightarrow>
     n = 0 \<or> (list_all (\<lambda>(_, e). n * e \<le> min (unat (gl_max_binding lim)) (unat (gl_max_buffer lim))) bs \<and>
       n \<le> unat (gl_max_workgroups lim) * workgroup_size)"
proof -
  have "unat (gl_max_binding lim) \<le> usize_max"
    using unat_le_max [of "gl_max_binding lim"] by (simp add: usize_max_def)
  then have "is_ok (check_bindings path n bs lim) \<longleftrightarrow>
      list_all (\<lambda>(_, e). n * e \<le> min (unat (gl_max_binding lim)) (unat (gl_max_buffer lim))) bs"
    unfolding check_bindings_iff by (intro list.pred_cong) auto
  moreover have "div_ceil n workgroup_size \<le> unat (gl_max_workgroups lim) \<longleftrightarrow>
      n \<le> unat (gl_max_workgroups lim) * workgroup_size"
    by (rule div_ceil_le_iff) (simp add: workgroup_size_def)
  ultimately show ?thesis
    by (cases "check_bindings path n bs lim") (auto simp: check_sample_set_fits_def Let_def not_less)
qed

end
