(* ===== verification/GpuQueue.thy ===== *)
theory GpuQueue
  imports GpuGuard "HOL-Library.Sublist"
begin

text \<open>
  The GPU work queue (\<open>src/analysis/gpu/queue/\<close>): the requests (\<open>mod.rs\<close>), staleness
  (\<open>staleness.rs\<close>), error classification (\<open>recovery.rs\<close>), the worker loop with device recovery
  (\<open>execution.rs\<close>), the guarded thread, creation and drop of a queue (\<open>scheduling.rs\<close>), and the
  submitting side with its two waiting loops (\<open>submission.rs\<close>).

  What the worker observes is a \<open>gpu_world\<close>: the clock, the liveness of callers, the evaluator and
  the factory that re-creates it, each read at a tick that advances with every observation. A
  response channel is the list of what was sent on it; its capacity is one, so a second send would
  block the GPU thread.
\<close>

section \<open>Requests\<close>

text \<open>The response channel, liveness handle and budget every request carries.\<close>

record request_ref =
  rq_id :: nat
  rq_budget :: time_budget

datatype 's gpu_work =
    HelpfulBatch "'s list list" request_ref
  | HarmfulBatch "('s list \<times> f32) list" request_ref
  | ReluEval "'s list" f32 request_ref
  | ActivationEval "'s list" u32 f32 f32 request_ref
  | ActivationBatchEval "'s list" "(u32 \<times> f32 \<times> f32) list" request_ref
  | Shutdown

fun work_ref :: "'s gpu_work \<Rightarrow> request_ref option" where
  "work_ref (HelpfulBatch _ r) = Some r"
| "work_ref (HarmfulBatch _ r) = Some r"
| "work_ref (ReluEval _ _ r) = Some r"
| "work_ref (ActivationEval _ _ _ _ r) = Some r"
| "work_ref (ActivationBatchEval _ _ r) = Some r"
| "work_ref Shutdown = None"

fun request_label :: "'s gpu_work \<Rightarrow> string" where
  "request_label (HelpfulBatch _ _) = ''helpful_batch''"
| "request_label (HarmfulBatch _ _) = ''harmful_batch''"
| "request_label (ReluEval _ _ _) = ''relu_eval''"
| "request_label (ActivationEval _ _ _ _ _) = ''activation_eval''"
| "request_label (ActivationBatchEval _ _ _) = ''activation_batch_eval''"
| "request_label Shutdown = ''shutdown''"

text \<open>A call into the evaluator or the factory may also panic.\<close>

datatype 'x outcome = Panics string | Returns 'x

record ('a, 's, 'r) gpu_world =
  gw_now :: "nat \<Rightarrow> instant"
  gw_live :: "nat \<Rightarrow> nat \<Rightarrow> bool"
  gw_evaluate :: "'a \<Rightarrow> 's gpu_work \<Rightarrow> nat \<Rightarrow> (string + 'r) outcome"
  gw_device_lost :: "'a \<Rightarrow> nat \<Rightarrow> bool"
  gw_create :: "nat option \<Rightarrow> nat \<Rightarrow> (string + 'a) outcome"
  gw_batch_size :: "'a \<Rightarrow> nat"

section \<open>Staleness\<close>

datatype stale_reason = ReceiverGone | BudgetExpired

definition has_live_receiver :: "('a, 's, 'r) gpu_world \<Rightarrow> 's gpu_work \<Rightarrow> nat \<Rightarrow> bool" where
  "has_live_receiver gw w tick = (case work_ref w of Some r \<Rightarrow> gw_live gw (rq_id r) tick | None \<Rightarrow> True)"

definition stale_reason :: "('a, 's, 'r) gpu_world \<Rightarrow> 's gpu_work \<Rightarrow> nat \<Rightarrow> stale_reason option" where
  "stale_reason gw w tick =
     (if \<not> has_live_receiver gw w tick then Some ReceiverGone
      else case work_ref w of
             Some r \<Rightarrow> if budget_is_expired (rq_budget r) (gw_now gw tick) then Some BudgetExpired else None
           | None \<Rightarrow> None)"

section \<open>Error classification\<close>

text \<open>The messages the classifier looks at are ASCII, so \<open>to_lowercase\<close> is ASCII lower-casing.\<close>

definition to_lower_char :: "char \<Rightarrow> char" where
  "to_lower_char c =
     (if 65 \<le> (of_char c :: nat) \<and> (of_char c :: nat) \<le> 90 then char_of ((of_char c :: nat) + 32) else c)"

definition to_lowercase :: "string \<Rightarrow> string" where
  "to_lowercase s = map to_lower_char s"

definition device_lost_patterns :: "string list" where
  "device_lost_patterns =
     [''device is lost'', ''device lost'', ''device was lost'', ''gpu device poll error'',
      ''internal error'', ''out of memory'', ''not enough memory left'', ''allocation failed'',
      ''command buffer'', ''too many command buffers'', ''device creation failed'', ''gpu driver'',
      ''driver may be unresponsive'']"

definition is_device_lost_error :: "string \<Rightarrow> bool" where
  "is_device_lost_error e \<longleftrightarrow> list_ex (\<lambda>p. contains p (to_lowercase e)) device_lost_patterns"

definition is_memory_exhaustion_error :: "string \<Rightarrow> bool" where
  "is_memory_exhaustion_error e \<longleftrightarrow>
     list_ex (\<lambda>p. contains p (to_lowercase e)) [''out of memory'', ''not enough memory left'', ''allocation failed'']"

definition is_wait_timeout_error :: "string \<Rightarrow> bool" where
  "is_wait_timeout_error e \<longleftrightarrow> contains ''timed out after'' (to_lowercase e)"

definition em_dash :: string where
  "em_dash = [CHR 0xE2, CHR 0x80, CHR 0x94]"

definition evaluation_timeout_message :: string where
  "evaluation_timeout_message =
     ''GPU time budget exhausted during evaluation '' @ em_dash @
     '' the request ran out of its time budget while waiting on the GPU, so it is abandoned without device recovery.''"

definition reclassify_budget_timeout :: "string + 'r \<Rightarrow> time_budget \<Rightarrow> instant \<Rightarrow> string + 'r" where
  "reclassify_budget_timeout result budget now =
     (case result of
        Inl e \<Rightarrow> if is_wait_timeout_error e \<and> is_exhausted_for_waits_at budget now
                 then Inl evaluation_timeout_message else Inl e
      | Inr v \<Rightarrow> Inr v)"

definition recovery_error :: "string \<Rightarrow> string" where
  "recovery_error e = (if is_device_lost_error e then e else ''GPU device lost: '' @ e)"

text \<open>Every error that reaches the recovery is one the classifier recognises.\<close>

lemma contains_append: "contains p s \<Longrightarrow> contains p (t @ s)"
  by (induction t) simp_all

lemma contains_prefix: "contains p (p @ s)"
proof (cases "p @ s")
  case (Cons a l)
  then have "take (length p) (a # l) = p" by (metis append_eq_conv_conj)
  with Cons show ?thesis by (simp add: contains.simps(2))
qed simp

lemma recovery_error_recognised: "is_device_lost_error (recovery_error e)"
proof (cases "is_device_lost_error e")
  case False
  have "to_lowercase (''GPU device lost: '' @ e) = ''gpu '' @ ''device lost'' @ '': '' @ to_lowercase e"
  proof -
    have "map to_lower_char ''GPU device lost: '' = ''gpu '' @ ''device lost'' @ '': ''" by code_simp
    then show ?thesis by (simp only: to_lowercase_def map_append append_assoc)
  qed
  then have "contains ''device lost'' (to_lowercase (''GPU device lost: '' @ e))"
    by (simp only: contains_append contains_prefix)
  with False show ?thesis
    by (simp add: recovery_error_def is_device_lost_error_def device_lost_patterns_def)
qed (simp add: recovery_error_def)

section \<open>One request\<close>

datatype worker_event = Evaluated nat | Recreated "nat option" | Slept u64 | Beat string

record ('a, 'r) worker =
  wk_analyzer :: 'a
  wk_tick :: nat
  wk_answers :: "(nat \<times> (string + 'r)) list"
  wk_completed :: u64
  wk_stale_skips :: nat
  wk_reductions :: "nat list"
  wk_log :: "worker_event list"

definition observe :: "worker_event list \<Rightarrow> ('a, 'r) worker \<Rightarrow> ('a, 'r) worker" where
  "observe evs wk = wk\<lparr>wk_tick := Suc (wk_tick wk), wk_log := wk_log wk @ evs\<rparr>"

definition beat :: "string \<Rightarrow> ('a, 'r) worker \<Rightarrow> ('a, 'r) worker" where
  "beat step wk = wk\<lparr>wk_log := wk_log wk @ [Beat step]\<rparr>"

definition send_response :: "nat \<Rightarrow> string + 'r \<Rightarrow> ('a, 'r) worker \<Rightarrow> ('a, 'r) worker" where
  "send_response i result wk = wk\<lparr>wk_answers := wk_answers wk @ [(i, result)]\<rparr>"

definition send_error_to_request :: "'s gpu_work \<Rightarrow> string \<Rightarrow> ('a, 'r) worker \<Rightarrow> ('a, 'r) worker" where
  "send_error_to_request w msg wk =
     (case work_ref w of Some r \<Rightarrow> send_response (rq_id r) (Inl msg) wk | None \<Rightarrow> wk)"

datatype exec_result = ExecDone | ExecLost string | ExecPanicked string

definition routes_to_recovery :: "('a, 's, 'r) gpu_world \<Rightarrow> ('a, 'r) worker \<Rightarrow> string \<Rightarrow> bool" where
  "routes_to_recovery gw wk e \<longleftrightarrow> is_device_lost_error e \<or> gw_device_lost gw (wk_analyzer wk) (wk_tick wk)"

definition execute_request ::
  "('a, 's, 'r) gpu_world \<Rightarrow> 's gpu_work \<Rightarrow> ('a, 'r) worker \<Rightarrow> exec_result \<times> ('a, 'r) worker" where
  "execute_request gw w wk =
     (case work_ref w of
        None \<Rightarrow> (ExecDone, wk)
      | Some r \<Rightarrow>
          let wk1 = observe [Evaluated (rq_id r)] wk in
          (case gw_evaluate gw (wk_analyzer wk) w (wk_tick wk) of
             Panics msg \<Rightarrow> (ExecPanicked msg, wk1)
           | Returns result0 \<Rightarrow>
               (case reclassify_budget_timeout result0 (rq_budget r) (gw_now gw (wk_tick wk1)) of
                  Inl e \<Rightarrow>
                    if routes_to_recovery gw wk1 e then (ExecLost (recovery_error e), wk1)
                    else (ExecDone, send_response (rq_id r) (Inl e) wk1)
                | Inr v \<Rightarrow> (ExecDone, send_response (rq_id r) (Inr v) wk1))))"

definition queued_too_long_message :: string where
  "queued_too_long_message =
     ''GPU time budget expired while the request waited in the work queue '' @ em_dash @
     '' abandoned without evaluation to keep the queue moving.''"

definition skip_stale_request :: "'s gpu_work \<Rightarrow> stale_reason \<Rightarrow> ('a, 'r) worker \<Rightarrow> ('a, 'r) worker" where
  "skip_stale_request w reason wk =
     (let wk1 = wk\<lparr>wk_stale_skips := wk_stale_skips wk + 1\<rparr> in
      if reason = BudgetExpired then send_error_to_request w queued_too_long_message wk1 else wk1)"

section \<open>Device recovery\<close>

definition default_backoff_initial_ms :: u64 where "default_backoff_initial_ms = 10"
definition default_backoff_max_ms :: u64 where "default_backoff_max_ms = 1000"
definition minimum_gpu_batch_size :: nat where "minimum_gpu_batch_size = 64"

definition recovery_timeout_message :: string where
  "recovery_timeout_message =
     ''GPU time budget exhausted during device recovery '' @ em_dash @
     '' the request is abandoned without further re-initialisation.''"

datatype recovery_result = Recovered | Abandoned | Exhausted | RecoveryPanicked string

text \<open>\<open>for attempt in 1..=retry_limit\<close>, with \<open>left\<close> attempts to go.\<close>

fun recover ::
  "('a, 's, 'r) gpu_world \<Rightarrow> 's gpu_work \<Rightarrow> bool \<Rightarrow> nat \<Rightarrow> nat \<Rightarrow> u32 \<Rightarrow> ('a, 'r) worker
     \<Rightarrow> recovery_result \<times> ('a, 'r) worker" where
  "recover gw w is_oom batch 0 attempt wk = (Exhausted, wk)"
| "recover gw w is_oom batch (Suc left) attempt wk =
     (case stale_reason gw w (wk_tick wk) of
        Some ReceiverGone \<Rightarrow> (Abandoned, (observe [] wk)\<lparr>wk_stale_skips := wk_stale_skips wk + 1\<rparr>)
      | Some BudgetExpired \<Rightarrow>
          (Abandoned, send_error_to_request w recovery_timeout_message
             ((observe [] wk)\<lparr>wk_stale_skips := wk_stale_skips wk + 1\<rparr>))
      | None \<Rightarrow>
          let delay = backoff_delay_ms attempt default_backoff_initial_ms default_backoff_max_ms;
              override = (if is_oom then Some batch else None);
              wk1 = beat ''recovery_attempt'' (observe [Slept delay] wk);
              wk2 = observe [Recreated override] wk1
          in case gw_create gw override (wk_tick wk1) of
               Panics msg \<Rightarrow> (RecoveryPanicked msg, wk2)
             | Returns (Inl _) \<Rightarrow> recover gw w is_oom batch left (attempt + 1) wk2
             | Returns (Inr analyzer) \<Rightarrow>
                 (case execute_request gw w (wk2\<lparr>wk_analyzer := analyzer\<rparr>) of
                    (ExecDone, wk3) \<Rightarrow> (Recovered, beat ''request_completed'' wk3)
                  | (ExecLost _, wk3) \<Rightarrow> recover gw w is_oom batch left (attempt + 1) wk3
                  | (ExecPanicked msg, wk3) \<Rightarrow> (RecoveryPanicked msg, wk3)))"

definition recovery_failed_message :: "u32 \<Rightarrow> string \<Rightarrow> string" where
  "recovery_failed_message retry_limit e =
     ''GPU device lost and recovery failed after '' @ dec_string (unat retry_limit) @ '' attempts: '' @ e"

definition exhausted_memory_message :: "nat \<Rightarrow> string \<Rightarrow> string" where
  "exhausted_memory_message batch e =
     ''GPU memory exhaustion with batch size '' @ dec_string batch @ '' (minimum '' @
     dec_string minimum_gpu_batch_size @ '') '' @ em_dash @ '' cannot reduce further: '' @ e"

definition recover_request ::
  "('a, 's, 'r) gpu_world \<Rightarrow> u32 \<Rightarrow> 's gpu_work \<Rightarrow> string \<Rightarrow> ('a, 'r) worker
     \<Rightarrow> string option \<times> ('a, 'r) worker" where
  "recover_request gw retry_limit w device_err wk =
     (let is_oom = is_memory_exhaustion_error device_err;
          current = gw_batch_size gw (wk_analyzer wk);
          reduced = current div 2
      in if is_oom \<and> reduced < minimum_gpu_batch_size
         then (None, send_error_to_request w (exhausted_memory_message current device_err) wk)
         else
           let wk1 = (if is_oom then wk\<lparr>wk_reductions := wk_reductions wk @ [reduced]\<rparr> else wk)
           in case recover gw w is_oom (if is_oom then reduced else current) (unat retry_limit) 1 wk1 of
                (Recovered, wk2) \<Rightarrow> (None, wk2)
              | (Abandoned, wk2) \<Rightarrow> (None, wk2)
              | (Exhausted, wk2) \<Rightarrow>
                  (None, send_error_to_request w (recovery_failed_message retry_limit device_err) wk2)
              | (RecoveryPanicked msg, wk2) \<Rightarrow> (Some msg, wk2))"

text \<open>One iteration of the worker loop on a request; a panic message when the thread unwinds.\<close>

definition process_request ::
  "('a, 's, 'r) gpu_world \<Rightarrow> u32 \<Rightarrow> 's gpu_work \<Rightarrow> ('a, 'r) worker \<Rightarrow> string option \<times> ('a, 'r) worker" where
  "process_request gw retry_limit w wk =
     (let wk1 = beat ''request_dequeued'' wk in
      case stale_reason gw w (wk_tick wk1) of
        Some reason \<Rightarrow> (None, skip_stale_request w reason (observe [] wk1))
      | None \<Rightarrow>
          (case execute_request gw w (observe [] wk1) of
             (ExecDone, wk2) \<Rightarrow>
               (None, (beat ''request_completed'' wk2)\<lparr>wk_completed := wk_completed wk2 + 1\<rparr>)
           | (ExecLost e, wk2) \<Rightarrow> recover_request gw retry_limit w e wk2
           | (ExecPanicked msg, wk2) \<Rightarrow> (Some msg, wk2)))"

section \<open>The worker loop and the guarded thread\<close>

text \<open>What \<open>recv_timeout\<close> brings; an idle wake-up looks at the host's cancellation flag.\<close>

datatype 's received = Request "'s gpu_work" | IdleWakeup bool | SenderGone

datatype worker_exit = ShutdownRequested | CancelledWhileIdle | SendersDisconnected | ThreadPanicked string

fun run_work_loop ::
  "('a, 's, 'r) gpu_world \<Rightarrow> u32 \<Rightarrow> 's received list \<Rightarrow> ('a, 'r) worker
     \<Rightarrow> worker_exit option \<times> ('a, 'r) worker \<times> 's received list" where
  "run_work_loop gw retry_limit [] wk = (None, wk, [])"
| "run_work_loop gw retry_limit (IdleWakeup cancelled # rest) wk =
     (if cancelled then (Some CancelledWhileIdle, wk, rest) else run_work_loop gw retry_limit rest wk)"
| "run_work_loop gw retry_limit (SenderGone # rest) wk = (Some SendersDisconnected, wk, rest)"
| "run_work_loop gw retry_limit (Request w # rest) wk =
     (if w = Shutdown then (Some ShutdownRequested, wk, rest)
      else case process_request gw retry_limit w wk of
             (None, wk') \<Rightarrow> run_work_loop gw retry_limit rest wk'
           | (Some msg, wk') \<Rightarrow> (Some (ThreadPanicked msg), wk', rest))"

definition thread_panicked_message :: "string \<Rightarrow> string" where
  "thread_panicked_message msg = ''GPU thread panicked: '' @ msg"

fun queued_requests :: "'s received list \<Rightarrow> 's gpu_work list" where
  "queued_requests [] = []"
| "queued_requests (Request w # rest) = w # queued_requests rest"
| "queued_requests (_ # rest) = queued_requests rest"

text \<open>
  \<open>run_guarded_gpu_thread\<close>: after a panic the breaker trips and every request still in the queue,
  here every request of the rest of the trace, is answered with the panic.
\<close>

definition run_guarded_gpu_thread ::
  "('a, 's, 'r) gpu_world \<Rightarrow> u32 \<Rightarrow> 's received list \<Rightarrow> breaker \<Rightarrow> ('a, 'r) worker
     \<Rightarrow> breaker \<times> ('a, 'r) worker \<times> 's received list" where
  "run_guarded_gpu_thread gw retry_limit trace b wk =
     (case run_work_loop gw retry_limit trace wk of
        (Some (ThreadPanicked msg), wk', rest) \<Rightarrow>
          (trip WorkerPanicked b,
           fold (\<lambda>w. send_error_to_request w (thread_panicked_message msg)) (queued_requests rest) wk', rest)
      | (_, wk', rest) \<Rightarrow> (b, wk', rest))"

section \<open>Creating and dropping a queue\<close>

definition gpu_init_timeout_secs :: u64 where "gpu_init_timeout_secs = 30"

datatype init_signal = InitOk | InitErr string | InitTimedOutSignal | InitDisconnected

definition queue_new :: "init_signal \<Rightarrow> breaker \<Rightarrow> (gpu_error + unit) \<times> breaker" where
  "queue_new signal b =
     (case breaker_check b of
        Inl e \<Rightarrow> (Inl e, b)
      | Inr _ \<Rightarrow>
          (case signal of
             InitOk \<Rightarrow> (Inr (), b)
           | InitErr e \<Rightarrow> (Inl (InitFailed e), b)
           | InitTimedOutSignal \<Rightarrow>
               let b' = trip InitTimeout b in (Inl (gpu_wedged_error (InitTimedOut gpu_init_timeout_secs) b'), b')
           | InitDisconnected \<Rightarrow> (Inl ThreadNotStarted, b)))"

datatype exit_signal = Exited | ExitTimeout | ExitDisconnected

definition queue_drop :: "exit_signal \<Rightarrow> breaker \<Rightarrow> breaker" where
  "queue_drop signal b =
     (case signal of
        Exited \<Rightarrow> b
      | ExitTimeout \<Rightarrow> record_abandoned_thread b
      | ExitDisconnected \<Rightarrow> b)"


section \<open>How often a request is answered\<close>

text \<open>\<open>wk'\<close> extends the answers of \<open>wk\<close> by \<open>n\<close> answers on the channel of \<open>w\<close>.\<close>

definition answered :: "'s gpu_work \<Rightarrow> nat \<Rightarrow> ('a, 'r) worker \<Rightarrow> ('a, 'r) worker \<Rightarrow> bool" where
  "answered w n wk wk' \<longleftrightarrow>
     (\<exists>new. wk_answers wk' = wk_answers wk @ new \<and>
        map fst new = (case work_ref w of Some r \<Rightarrow> replicate n (rq_id r) | None \<Rightarrow> []))"

lemma answered_same: "wk_answers wk' = wk_answers wk \<Longrightarrow> answered w 0 wk wk'"
  by (simp add: answered_def split: option.split)

lemma answered_error: "answered w 1 wk (send_error_to_request w msg wk)"
  by (auto simp: answered_def send_error_to_request_def send_response_def split: option.split)

lemma answered_response: "work_ref w = Some r \<Longrightarrow> answered w 1 wk (send_response (rq_id r) res wk)"
  by (simp add: answered_def send_response_def)

lemma answered_from: "wk_answers wk1 = wk_answers wk \<Longrightarrow> answered w n wk1 wk' \<Longrightarrow> answered w n wk wk'"
  by (simp add: answered_def)

lemma answered_to: "answered w n wk wk1 \<Longrightarrow> wk_answers wk' = wk_answers wk1 \<Longrightarrow> answered w n wk wk'"
  by (simp add: answered_def)

lemma answers_kept [simp]:
  "wk_answers (observe evs wk) = wk_answers wk" "wk_answers (beat step wk) = wk_answers wk"
  by (simp_all add: observe_def beat_def)

lemma execute_answers:
  assumes "execute_request gw w wk = (res, wk')" "work_ref w = Some r"
  shows "answered w (if res = ExecDone then 1 else 0) wk wk'"
  using assms answered_response [OF assms(2), of "observe [Evaluated (rq_id r)] wk"]
  by (auto simp: execute_request_def Let_def answered_def send_response_def
      split: outcome.splits sum.splits if_splits)

lemma recover_answers:
  assumes "recover gw w is_oom batch left attempt wk = (res, wk')" "work_ref w = Some r"
  shows "(res = Recovered \<longrightarrow> answered w 1 wk wk') \<and>
    (res = Exhausted \<or> (\<exists>msg. res = RecoveryPanicked msg) \<longrightarrow> answered w 0 wk wk') \<and>
    (res = Abandoned \<longrightarrow> answered w 1 wk wk' \<or> answered w 0 wk wk' \<and> (\<exists>t. \<not> gw_live gw (rq_id r) t))"
  using assms
proof (induction gw w is_oom batch left attempt wk rule: recover.induct)
  case (1 gw w is_oom batch attempt wk)
  then show ?case by (auto simp: answered_same)
next
  case (2 gw w is_oom batch left attempt wk)
  show ?case
  proof (cases "stale_reason gw w (wk_tick wk)")
    case (Some reason)
    show ?thesis
    proof (cases reason)
      case ReceiverGone
      with Some 2(4) have "\<exists>t. \<not> gw_live gw (rq_id r) t"
        by (auto simp: stale_reason_def has_live_receiver_def split: if_splits)
      with Some ReceiverGone 2(3) show ?thesis by (auto simp: answered_same)
    next
      case BudgetExpired
      have "answered w 1 wk (send_error_to_request w recovery_timeout_message
          ((observe [] wk)\<lparr>wk_stale_skips := wk_stale_skips wk + 1\<rparr>))"
        by (rule answered_from [OF _ answered_error]) simp
      with Some BudgetExpired 2(3) show ?thesis by auto
    qed
  next
    case None
    define wk2 where "wk2 = observe [Recreated (if is_oom then Some batch else None)]
      (beat ''recovery_attempt'' (observe [Slept (backoff_delay_ms attempt default_backoff_initial_ms default_backoff_max_ms)] wk))"
    have same: "wk_answers wk2 = wk_answers wk" by (simp add: wk2_def)
    have step: "\<And>n. answered w n wk2 wk' \<Longrightarrow> answered w n wk wk'" using answered_from [OF same] .
    show ?thesis
    proof (cases "gw_create gw (if is_oom then Some batch else None) (wk_tick (beat ''recovery_attempt''
        (observe [Slept (backoff_delay_ms attempt default_backoff_initial_ms default_backoff_max_ms)] wk)))")
      case (Panics msg)
      with None 2(3) show ?thesis by (auto simp: Let_def answered_same)
    next
      case (Returns created)
      show ?thesis
      proof (cases created)
        case (Inl e)
        with None Returns 2(3) have "recover gw w is_oom batch left (attempt + 1) wk2 = (res, wk')"
          by (simp add: Let_def wk2_def)
        from "2.IH"(1) [OF None refl refl refl refl Returns Inl, folded wk2_def, OF this 2(4)] step
        show ?thesis by blast
      next
        case (Inr analyzer)
        obtain er wk3 where ex: "execute_request gw w (wk2\<lparr>wk_analyzer := analyzer\<rparr>) = (er, wk3)" by force
        from execute_answers [OF ex 2(4)] have ans: "answered w (if er = ExecDone then 1 else 0) wk2 wk3"
          by (simp add: answered_def)
        show ?thesis
        proof (cases er)
          case ExecDone
          with None Returns Inr ex 2(3) have "res = Recovered" "wk' = beat ''request_completed'' wk3"
            by (auto simp: Let_def wk2_def)
          moreover have "answered w 1 wk wk'"
            using ans ExecDone step [of 1] \<open>wk' = _\<close> answered_to [of w 1 wk2 wk3 wk'] by simp
          ultimately show ?thesis by simp
        next
          case (ExecLost e)
          with None Returns Inr ex 2(3) have run: "recover gw w is_oom batch left (attempt + 1) wk3 = (res, wk')"
            by (simp add: Let_def wk2_def)
          from ans ExecLost same have "wk_answers wk3 = wk_answers wk"
            by (auto simp: answered_def split: option.splits)
          then have step3: "\<And>n. answered w n wk3 wk' \<Longrightarrow> answered w n wk wk'" using answered_from by blast
          from "2.IH"(2) [OF None refl refl refl refl Returns Inr, folded wk2_def, OF ex [symmetric] ExecLost run 2(4)] step3
          show ?thesis by blast
        next
          case (ExecPanicked msg)
          with None Returns Inr ex 2(3) have "res = RecoveryPanicked msg" "wk' = wk3"
            by (auto simp: Let_def wk2_def)
          with ans ExecPanicked step show ?thesis by auto
        qed
      qed
    qed
  qed
qed


lemma process_answers:
  assumes "process_request gw retry_limit w wk = (panic, wk')" "work_ref w = Some r"
  shows "(panic = None \<longrightarrow> answered w 1 wk wk' \<or> answered w 0 wk wk' \<and> (\<exists>t. \<not> gw_live gw (rq_id r) t)) \<and>
    (panic \<noteq> None \<longrightarrow> answered w 0 wk wk')"
proof (cases "stale_reason gw w (wk_tick wk)")
  case (Some reason)
  have tick: "wk_tick (beat step wk) = wk_tick wk" for step by (simp add: beat_def)
  show ?thesis
  proof (cases reason)
    case ReceiverGone
    with Some assms(2) have "\<exists>t. \<not> gw_live gw (rq_id r) t"
      by (auto simp: stale_reason_def has_live_receiver_def split: if_splits)
    with Some ReceiverGone assms(1) show ?thesis
      by (auto simp: process_request_def Let_def tick skip_stale_request_def answered_same)
  next
    case BudgetExpired
    let ?wk1 = "observe [] (beat ''request_dequeued'' wk)"
    have "answered w 1 wk (send_error_to_request w queued_too_long_message
        (?wk1\<lparr>wk_stale_skips := wk_stale_skips ?wk1 + 1\<rparr>))"
      by (rule answered_from [OF _ answered_error]) simp
    with Some BudgetExpired assms(1) show ?thesis
      by (auto simp: process_request_def Let_def tick skip_stale_request_def)
  qed
next
  case None
  let ?wk1 = "observe [] (beat ''request_dequeued'' wk)"
  have none: "stale_reason gw w (wk_tick (beat ''request_dequeued'' wk)) = None"
    using None by (simp add: beat_def)
  obtain er wk2 where ex: "execute_request gw w ?wk1 = (er, wk2)" by force
  have ans: "answered w (if er = ExecDone then 1 else 0) wk wk2"
    by (rule answered_from [OF _ execute_answers [OF ex assms(2)]]) simp
  show ?thesis
  proof (cases er)
    case ExecDone
    with none ex assms(1) ans show ?thesis
      by (auto simp: process_request_def Let_def intro: answered_to)
  next
    case (ExecPanicked msg)
    with none ex assms(1) ans show ?thesis by (auto simp: process_request_def Let_def)
  next
    case (ExecLost e)
    with ans assms(2) have same: "wk_answers wk2 = wk_answers wk" by (simp add: answered_def)
    from none ex ExecLost assms(1) have rr: "recover_request gw retry_limit w e wk2 = (panic, wk')"
      by (simp add: process_request_def Let_def)
    define oom where "oom = is_memory_exhaustion_error e"
    define current where "current = gw_batch_size gw (wk_analyzer wk2)"
    show ?thesis
    proof (cases "oom \<and> current div 2 < minimum_gpu_batch_size")
      case True
      with rr have "panic = None" "wk' = send_error_to_request w (exhausted_memory_message current e) wk2"
        by (auto simp: recover_request_def Let_def oom_def current_def)
      then show ?thesis using answered_from [OF same answered_error] by auto
    next
      case False
      define wk3 where "wk3 = (if oom then wk2\<lparr>wk_reductions := wk_reductions wk2 @ [current div 2]\<rparr> else wk2)"
      have same3: "wk_answers wk3 = wk_answers wk" using same by (simp add: wk3_def)
      obtain res wk4 where rec: "recover gw w oom (if oom then current div 2 else current) (unat retry_limit) 1 wk3 = (res, wk4)"
        by force
      from rr False rec have out: "(panic, wk') = (case res of Recovered \<Rightarrow> (None, wk4) | Abandoned \<Rightarrow> (None, wk4)
          | Exhausted \<Rightarrow> (None, send_error_to_request w (recovery_failed_message retry_limit e) wk4)
          | RecoveryPanicked msg \<Rightarrow> (Some msg, wk4))"
        by (auto simp: recover_request_def Let_def oom_def [symmetric] current_def [symmetric] wk3_def [symmetric]
            split: recovery_result.splits)
      note ra = recover_answers [OF rec assms(2)]
      have from3: "answered w n wk3 wk4 \<Longrightarrow> answered w n wk wk4" for n by (rule answered_from [OF same3])
      show ?thesis
      proof (cases res)
        case Exhausted
        with ra same3 assms(2) have "wk_answers wk4 = wk_answers wk" by (simp add: answered_def)
        from answered_from [OF this answered_error] out Exhausted show ?thesis by auto
      qed (use ra from3 out in auto)
    qed
  qed
qed

fun request_ids :: "'s received list \<Rightarrow> nat list" where
  "request_ids [] = []"
| "request_ids (Request w # rest) =
     (case work_ref w of Some r \<Rightarrow> rq_id r # request_ids rest | None \<Rightarrow> request_ids rest)"
| "request_ids (_ # rest) = request_ids rest"

definition gone_ids :: "('a, 's, 'r) gpu_world \<Rightarrow> nat set" where
  "gone_ids gw = {i. \<exists>t. \<not> gw_live gw i t}"

lemma work_ref_Some: "w \<noteq> Shutdown \<Longrightarrow> \<exists>r. work_ref w = Some r"
  by (cases w) simp_all

text \<open>
  The requests \<open>pre\<close> the loop took, against the channels \<open>ids\<close> it answered: all of them in order, but
  for callers that were gone and for the request whose evaluation panicked.
\<close>

definition served :: "('a, 's, 'r) gpu_world \<Rightarrow> worker_exit option \<Rightarrow> 's received list \<Rightarrow> nat list \<Rightarrow> bool" where
  "served gw ex pre ids \<longleftrightarrow>
     (case ex of
        Some (ThreadPanicked msg) \<Rightarrow> subseq ids (request_ids (butlast pre)) \<and> pre \<noteq> [] \<and>
          set (request_ids (butlast pre)) \<subseteq> set ids \<union> gone_ids gw \<and>
          (\<exists>i. request_ids pre = request_ids (butlast pre) @ [i])
      | _ \<Rightarrow> subseq ids (request_ids pre) \<and> set (request_ids pre) \<subseteq> set ids \<union> gone_ids gw)"

lemma served_other:
  "served gw ex pre ids \<Longrightarrow> request_ids [x] = [] \<Longrightarrow> served gw ex (x # pre) ids"
proof -
  assume a: "served gw ex pre ids" "request_ids [x] = []"
  have "request_ids (x # ys) = request_ids ys" for ys
    using a(2) by (cases x) (auto split: option.splits)
  with a(1) show ?thesis
    by (auto simp: served_def split: option.splits worker_exit.splits)
qed

lemma served_request:
  "served gw ex pre ids \<Longrightarrow> work_ref w = Some r \<Longrightarrow> new = [rq_id r] \<or> new = [] \<and> rq_id r \<in> gone_ids gw \<Longrightarrow>
   served gw ex (Request w # pre) (new @ ids)"
  by (auto simp: served_def split: option.splits worker_exit.splits)

lemma loop_answers:
  assumes "run_work_loop gw retry_limit trace wk = (ex, wk', rest)"
  shows "\<exists>pre new. trace = pre @ rest \<and> wk_answers wk' = wk_answers wk @ new \<and> served gw ex pre (map fst new)"
  using assms
proof (induction gw retry_limit trace wk rule: run_work_loop.induct)
  case (1 gw retry_limit wk)
  then show ?case by (intro exI [of _ "[]"]) (auto simp: served_def)
next
  case (2 gw retry_limit cancelled rest0 wk)
  show ?case
  proof (cases cancelled)
    case True
    with 2(2) show ?thesis
      by (intro exI [of _ "[IdleWakeup cancelled]"] exI [of _ "[]"]) (auto simp: served_def)
  next
    case False
    with 2 obtain pre new where ih: "rest0 = pre @ rest" "wk_answers wk' = wk_answers wk @ new"
      "served gw ex pre (map fst new)" by auto
    from served_other [OF ih(3), of "IdleWakeup cancelled"] ih(1,2) show ?thesis
      by (intro exI [of _ "IdleWakeup cancelled # pre"] exI [of _ new]) simp
  qed
next
  case (3 gw retry_limit rest0 wk)
  then show ?case by (intro exI [of _ "[SenderGone]"] exI [of _ "[]"]) (auto simp: served_def)
next
  case (4 gw retry_limit w rest0 wk)
  show ?case
  proof (cases "w = Shutdown")
    case True
    with 4(2) show ?thesis
      by (intro exI [of _ "[Request w]"] exI [of _ "[]"]) (auto simp: served_def)
  next
    case False
    then obtain r where r: "work_ref w = Some r" using work_ref_Some by blast
    obtain panic wk1 where pr: "process_request gw retry_limit w wk = (panic, wk1)" by force
    note pa = process_answers [OF pr r]
    show ?thesis
    proof (cases panic)
      case (Some msg)
      with pa have "wk_answers wk1 = wk_answers wk" using r by (simp add: answered_def)
      with Some pr False 4(2) r show ?thesis
        by (intro exI [of _ "[Request w]"] exI [of _ "[]"]) (auto simp: served_def)
    next
      case None
      with False pr 4(2) have "run_work_loop gw retry_limit rest0 wk1 = (ex, wk', rest)" by simp
      from 4(1) [OF False pr [symmetric] None this] obtain pre new where
        ih: "rest0 = pre @ rest" "wk_answers wk' = wk_answers wk1 @ new" "served gw ex pre (map fst new)" by blast
      from pa None have "answered w 1 wk wk1 \<or> answered w 0 wk wk1 \<and> rq_id r \<in> gone_ids gw"
        by (simp add: gone_ids_def)
      then obtain new0 where
        new0: "wk_answers wk1 = wk_answers wk @ new0"
          "map fst new0 = [rq_id r] \<or> map fst new0 = [] \<and> rq_id r \<in> gone_ids gw"
        using r by (auto simp: answered_def)
      from served_request [OF ih(3) r new0(2)] ih new0(1) show ?thesis
        by (intro exI [of _ "Request w # pre"] exI [of _ "new0 @ new"]) simp
    qed
  qed
qed

lemma fail_all_answers:
  "map fst (wk_answers (fold (\<lambda>w. send_error_to_request w msg) (queued_requests rest) wk)) =
   map fst (wk_answers wk) @ request_ids rest"
proof (induction rest arbitrary: wk rule: queued_requests.induct)
  case (2 w rest)
  then show ?case
    by (cases "work_ref w") (auto simp: send_error_to_request_def send_response_def)
qed simp_all

lemma request_ids_append [simp]: "request_ids (xs @ ys) = request_ids xs @ request_ids ys"
  by (induction xs rule: request_ids.induct) (auto split: option.split)


section \<open>The submitting side\<close>

text \<open>
  \<open>send_until_deadline\<close>, one observation per iteration: the clock before the attempt, its outcome,
  and for a timed-out attempt the breaker, the heartbeat's ticks and the clock after it. \<open>None\<close>:
  the loop still waits when the observations end.
\<close>

datatype send_result = Sent | SendTimedOut | SendDisconnected

record send_obs =
  so_now :: instant
  so_result :: send_result
  so_breaker :: breaker
  so_ticks :: u64
  so_after :: instant

definition queue_full_error :: "u64 \<Rightarrow> breaker \<Rightarrow> gpu_error \<times> breaker" where
  "queue_full_error timeout_secs b =
     (let b' = trip BatchTimeout b in (gpu_wedged_error (QueueFull timeout_secs) b', b'))"

definition batch_timeout_error :: "string \<Rightarrow> u64 \<Rightarrow> breaker \<Rightarrow> gpu_error \<times> breaker" where
  "batch_timeout_error operation timeout_secs b =
     (let b' = trip BatchTimeout b in (gpu_wedged_error (OperationTimedOut operation timeout_secs) b', b'))"

definition heartbeat_stall_error :: "string \<Rightarrow> duration \<Rightarrow> duration \<Rightarrow> breaker \<Rightarrow> gpu_error \<times> breaker" where
  "heartbeat_stall_error operation idle window b =
     (let b' = trip HeartbeatStall b in (gpu_wedged_error (OperationStalled operation idle window) b', b'))"

fun send_until_deadline ::
  "instant \<Rightarrow> string \<Rightarrow> u64 \<Rightarrow> heartbeat_watch \<Rightarrow> send_obs list \<Rightarrow> ((gpu_error + unit) \<times> breaker) option" where
  "send_until_deadline deadline operation timeout_secs watch [] = None"
| "send_until_deadline deadline operation timeout_secs watch (o1 # os) =
     (if deadline - so_now o1 = 0 then
        Some (case queue_full_error timeout_secs (so_breaker o1) of (e, b) \<Rightarrow> (Inl e, b))
      else case so_result o1 of
        Sent \<Rightarrow> Some (Inr (), so_breaker o1)
      | SendDisconnected \<Rightarrow> Some (Inl QueueClosed, so_breaker o1)
      | SendTimedOut \<Rightarrow>
          (case breaker_check (so_breaker o1) of
             Inl e \<Rightarrow> Some (Inl e, so_breaker o1)
           | Inr _ \<Rightarrow>
               (case stalled_for (so_ticks o1) (so_after o1) watch of
                  (Some idle, w') \<Rightarrow>
                    Some (case heartbeat_stall_error operation idle (hw_window w') (so_breaker o1) of (e, b) \<Rightarrow> (Inl e, b))
                | (None, w') \<Rightarrow> send_until_deadline deadline operation timeout_secs w' os)))"

text \<open>\<open>wait_for_gpu_response\<close>, with the answer of \<open>try_recv\<close> for an iteration past the deadline.\<close>

datatype 'r recv_result = RecvAnswer "string + 'r" | RecvTimedOut | RecvDisconnected

record 'r wait_obs =
  wo_now :: instant
  wo_result :: "'r recv_result"
  wo_ticks :: u64
  wo_after :: instant

datatype 'r wait_outcome =
    AnsweredWith "string + 'r"
  | StalledFor duration duration
  | WaitTimedOut
  | WaitDisconnected

fun wait_for_gpu_response ::
  "instant \<Rightarrow> heartbeat_watch \<Rightarrow> 'r wait_obs list \<Rightarrow> 'r wait_outcome option" where
  "wait_for_gpu_response deadline watch [] = None"
| "wait_for_gpu_response deadline watch (o1 # os) =
     (if deadline - wo_now o1 = 0 then
        Some (case wo_result o1 of
                RecvAnswer r \<Rightarrow> AnsweredWith r
              | RecvDisconnected \<Rightarrow> WaitDisconnected
              | RecvTimedOut \<Rightarrow> WaitTimedOut)
      else case wo_result o1 of
        RecvAnswer r \<Rightarrow> Some (AnsweredWith r)
      | RecvDisconnected \<Rightarrow> Some WaitDisconnected
      | RecvTimedOut \<Rightarrow>
          (case stalled_for (wo_ticks o1) (wo_after o1) watch of
             (Some idle, w') \<Rightarrow> Some (StalledFor idle (hw_window w'))
           | (None, w') \<Rightarrow> wait_for_gpu_response deadline w' os))"

datatype 'r answer_error = GpuError gpu_error | EvaluationError string

definition resolve_gpu_wait ::
  "'r wait_outcome \<Rightarrow> string \<Rightarrow> u64 \<Rightarrow> breaker \<Rightarrow> ('r answer_error + 'r) \<times> breaker" where
  "resolve_gpu_wait outcome operation timeout_secs b =
     (case outcome of
        AnsweredWith (Inr v) \<Rightarrow> (Inr v, b)
      | AnsweredWith (Inl e) \<Rightarrow> (Inl (EvaluationError e), b)
      | StalledFor idle window \<Rightarrow>
          (case heartbeat_stall_error operation idle window b of (e, b') \<Rightarrow> (Inl (GpuError e), b'))
      | WaitTimedOut \<Rightarrow>
          (case batch_timeout_error operation timeout_secs b of (e, b') \<Rightarrow> (Inl (GpuError e), b'))
      | WaitDisconnected \<Rightarrow> (Inl (GpuError ResponseClosed), b))"

text \<open>
  The blocking submissions share one shape: refuse on a tripped breaker, answer an empty batch at
  once, send until the deadline, then wait for what is left of it. \<open>b\<close> is the breaker at entry; the
  breaker after the wait is \<open>b'\<close>, since other threads may trip it meanwhile.
\<close>

record 'r gpu_call =
  gc_breaker :: breaker
  gc_start :: instant
  gc_deadline :: "instant option"
  gc_window :: duration
  gc_send_ticks :: u64
  gc_send :: "send_obs list"
  gc_wait_start :: instant
  gc_wait_ticks :: u64
  gc_wait :: "'r wait_obs list"
  gc_breaker_after :: breaker

definition submit_and_wait ::
  "string \<Rightarrow> 'r option \<Rightarrow> 'r gpu_call \<Rightarrow> (('r answer_error + 'r) \<times> breaker) option" where
  "submit_and_wait operation immediate c =
     (case breaker_check (gc_breaker c) of
        Inl e \<Rightarrow> Some (Inl (GpuError e), gc_breaker c)
      | Inr _ \<Rightarrow>
          (case immediate of
             Some v \<Rightarrow> Some (Inr v, gc_breaker c)
           | None \<Rightarrow>
               let timeout = calculate_gpu_batch_timeout (gc_deadline c) (gc_start c);
                   timeout_secs = clamp_word (timeout div ns_per_sec);
                   send_deadline = gc_start c + timeout
               in case send_until_deadline send_deadline operation timeout_secs
                         (watch_new (gc_send_ticks c) (gc_window c) (gc_start c)) (gc_send c) of
                    None \<Rightarrow> None
                  | Some (Inl e, b) \<Rightarrow> Some (Inl (GpuError e), b)
                  | Some (Inr _, b) \<Rightarrow>
                      map_option (\<lambda>outcome. resolve_gpu_wait outcome operation timeout_secs (gc_breaker_after c))
                        (wait_for_gpu_response (gc_wait_start c + (send_deadline - gc_wait_start c))
                           (watch_new (gc_wait_ticks c) (gc_window c) (gc_wait_start c)) (gc_wait c))))"

definition evaluate_helpful_batch ::
  "'s list list \<Rightarrow> 'st list gpu_call \<Rightarrow> (('st list answer_error + 'st list) \<times> breaker) option" where
  "evaluate_helpful_batch samples =
     submit_and_wait ''helpful batch evaluation'' (if samples = [] then Some [] else None)"

definition evaluate_harmful_batch ::
  "('s list \<times> f32) list \<Rightarrow> 'st list gpu_call \<Rightarrow> (('st list answer_error + 'st list) \<times> breaker) option" where
  "evaluate_harmful_batch samples =
     submit_and_wait ''harmful batch evaluation'' (if samples = [] then Some [] else None)"

text \<open>\<open>empty_relu\<close> is what \<open>ReluStats::new\<close> gives for both orientations, with a zero.\<close>

definition evaluate_relu_gpu :: "'r \<Rightarrow> 's list \<Rightarrow> 'r gpu_call \<Rightarrow> (('r answer_error + 'r) \<times> breaker) option" where
  "evaluate_relu_gpu empty_relu samples =
     submit_and_wait ''ReLU evaluation'' (if samples = [] then Some empty_relu else None)"

definition evaluate_activation_gpu ::
  "'s list \<Rightarrow> (f32 \<times> f32 \<times> f32 \<times> u32) gpu_call
     \<Rightarrow> (((f32 \<times> f32 \<times> f32 \<times> u32) answer_error + f32 \<times> f32 \<times> f32 \<times> u32) \<times> breaker) option" where
  "evaluate_activation_gpu samples =
     submit_and_wait ''activation evaluation''
       (if samples = [] then Some (f32_zero, f32_zero, f32_zero, 0) else None)"

definition evaluate_activations_batched_gpu ::
  "'s list \<Rightarrow> (u32 \<times> f32 \<times> f32) list \<Rightarrow> (f32 \<times> f32 \<times> f32 \<times> u32) list gpu_call
     \<Rightarrow> (((f32 \<times> f32 \<times> f32 \<times> u32) list answer_error + (f32 \<times> f32 \<times> f32 \<times> u32) list) \<times> breaker) option" where
  "evaluate_activations_batched_gpu samples configs =
     submit_and_wait ''batched activation evaluation''
       (if configs = [] then Some []
        else if samples = [] then Some (replicate (length configs) (f32_zero, f32_zero, f32_zero, 0))
        else None)"

section \<open>Termination of the waits\<close>

text \<open>
  What \<open>recv_timeout\<close> documents: it times out only after the time it was given, here the smaller
  of the poll interval and the time left.
\<close>

definition timely :: "instant \<Rightarrow> duration \<Rightarrow> (nat \<Rightarrow> instant) \<Rightarrow> bool" where
  "timely deadline interval now \<longleftrightarrow> (\<forall>i. now i + min interval (deadline - now i) \<le> now (Suc i))"

lemma timely_progress:
  assumes "timely deadline interval now"
  shows "min deadline (now 0 + k * interval) \<le> now k"
proof (induction k)
  case (Suc k)
  have "now k + min interval (deadline - now k) \<le> now (Suc k)" using assms by (simp add: timely_def)
  with Suc show ?case
    by (auto simp: min_def split: if_splits nat_diff_split)
qed simp

lemma watch_window: "hw_window (snd (stalled_for ticks now w)) = hw_window w"
  by (auto simp: stalled_for_def Let_def)

lemma wait_returns_at:
  assumes "k < length os" "deadline \<le> wo_now (os ! k)"
  shows "wait_for_gpu_response deadline w os \<noteq> None"
  using assms
proof (induction os arbitrary: k w)
  case (Cons o1 os)
  show ?case
  proof (cases k)
    case 0
    with Cons.prems show ?thesis by simp
  next
    case (Suc j)
    with Cons.prems Cons.IH [of j] show ?thesis
      by (auto split: recv_result.split prod.split option.split)
  qed
qed simp

subsection \<open>What a stall is\<close>

text \<open>
  The specification of a reported stall, over the heartbeat readings alone. Reading 0 is the
  watch's own start; reading \<open>m\<close> is the \<open>m\<close>th poll that timed out. The heartbeat has been silent
  since reading \<open>j\<close> when every reading from \<open>j\<close> to \<open>m\<close> shows the same tick count and the one before
  \<open>j\<close> shows another. Poll \<open>m\<close> finds a stall when the time between them is at least the window,
  and detection is on, which a window of 0 turns off.
\<close>

definition readings :: "heartbeat_watch \<Rightarrow> 'r wait_obs list \<Rightarrow> (u64 \<times> instant) list" where
  "readings w os = (hw_last_ticks w, hw_last_progress w) # map (\<lambda>o1. (wo_ticks o1, wo_after o1)) os"

definition silent_since :: "(u64 \<times> instant) list \<Rightarrow> nat \<Rightarrow> nat \<Rightarrow> bool" where
  "silent_since rs j m \<longleftrightarrow> (\<forall>i\<in>{j..m}. fst (rs ! i) = fst (rs ! m)) \<and>
     (j = 0 \<or> fst (rs ! (j - 1)) \<noteq> fst (rs ! m))"

definition stalls_at :: "duration \<Rightarrow> (u64 \<times> instant) list \<Rightarrow> nat \<Rightarrow> duration \<Rightarrow> bool" where
  "stalls_at window rs m idle \<longleftrightarrow> 0 < window \<and>
     (\<exists>j<m. silent_since rs j m \<and> idle = snd (rs ! m) - snd (rs ! j) \<and> window \<le> idle)"

definition still_waiting :: "instant \<Rightarrow> 'r wait_obs \<Rightarrow> bool" where
  "still_waiting deadline o1 \<longleftrightarrow> wo_result o1 = RecvTimedOut \<and> wo_now o1 < deadline"

text \<open>The first \<open>m\<close> polls timed out before the deadline and none of them found a stall.\<close>

definition polled :: "instant \<Rightarrow> heartbeat_watch \<Rightarrow> 'r wait_obs list \<Rightarrow> nat \<Rightarrow> bool" where
  "polled deadline w os m \<longleftrightarrow> m \<le> length os \<and>
     (\<forall>o1 \<in> set (take m os). still_waiting deadline o1) \<and>
     (\<forall>m'\<in>{0<..m}. \<forall>idle. \<not> stalls_at (hw_window w) (readings w os) m' idle)"

text \<open>
  What the wait must return at poll \<open>m\<close>: with the deadline ahead and nothing received, the stall
  that the poll finds; otherwise what the channel gave.
\<close>

definition outcome_at :: "instant \<Rightarrow> heartbeat_watch \<Rightarrow> 'r wait_obs list \<Rightarrow> nat \<Rightarrow> 'r wait_outcome \<Rightarrow> bool" where
  "outcome_at deadline w os m r \<longleftrightarrow> m < length os \<and>
     (if still_waiting deadline (os ! m)
      then \<exists>idle. stalls_at (hw_window w) (readings w os) (Suc m) idle \<and> r = StalledFor idle (hw_window w)
      else r = (case wo_result (os ! m) of
                  RecvAnswer a \<Rightarrow> AnsweredWith a
                | RecvDisconnected \<Rightarrow> WaitDisconnected
                | RecvTimedOut \<Rightarrow> WaitTimedOut))"

lemma all_from_Suc: "(\<forall>i\<in>{Suc j..Suc m}. P i) \<longleftrightarrow> (\<forall>i\<in>{j..m}. P (Suc i))"
proof -
  have "{Suc j..Suc m} = Suc ` {j..m}" by simp
  then show ?thesis by (simp only: ball_simps)
qed

lemma all_to_Suc: "(\<forall>i\<in>{0..Suc m}. P i) \<longleftrightarrow> P 0 \<and> (\<forall>i\<in>{0..m}. P (Suc i))"
  by (simp only: atLeast0_atMost_Suc_eq_insert_0 ball_simps all_from_Suc)

lemma stalls_at_one:
  "stalls_at window (x0 # x1 # rs) (Suc 0) idle \<longleftrightarrow>
     0 < window \<and> fst x0 = fst x1 \<and> idle = snd x1 - snd x0 \<and> window \<le> idle"
  by (auto simp: stalls_at_def silent_since_def all_to_Suc)

lemma silent_since_shift:
  assumes "fst x0 \<noteq> fst x1"
  shows "silent_since (x0 # x1 # rs) (Suc j) (Suc m) \<longleftrightarrow> silent_since (x1 # rs) j m"
    and "\<not> silent_since (x0 # x1 # rs) 0 (Suc m)"
proof -
  show "silent_since (x0 # x1 # rs) (Suc j) (Suc m) \<longleftrightarrow> silent_since (x1 # rs) j m"
  proof (cases j)
    case 0
    have key: "fst x0 \<noteq> fst ((x1 # rs) ! m)" if "\<forall>i\<in>{0..m}. fst ((x1 # rs) ! i) = fst ((x1 # rs) ! m)"
      using that [THEN bspec, of 0] assms by simp
    show ?thesis unfolding silent_since_def 0 all_from_Suc by simp (use key in blast)
  next
    case (Suc i)
    then show ?thesis unfolding silent_since_def Suc all_from_Suc by simp
  qed
  show "\<not> silent_since (x0 # x1 # rs) 0 (Suc m)"
  proof
    assume "silent_since (x0 # x1 # rs) 0 (Suc m)"
    then have "\<forall>i\<in>{0..Suc m}. fst ((x0 # x1 # rs) ! i) = fst ((x0 # x1 # rs) ! Suc m)"
      by (simp add: silent_since_def)
    from this [THEN bspec, of 0] this [THEN bspec, of 1] assms show False by simp
  qed
qed

lemma stalls_at_ticked:
  assumes "fst x0 \<noteq> fst x1"
  shows "stalls_at window (x0 # x1 # rs) (Suc m) idle \<longleftrightarrow> stalls_at window (x1 # rs) m idle"
proof -
  have ex: "(\<exists>j<Suc m. P j) \<longleftrightarrow> P 0 \<or> (\<exists>j<m. P (Suc j))" for P
    by (metis less_Suc_eq_0_disj zero_less_Suc)
  then show ?thesis
    unfolding stalls_at_def ex by (simp add: silent_since_shift [OF assms])
qed

lemma silent_since_same:
  assumes "fst x0 = fst x1"
  shows "silent_since (x0 # x1 # rs) 0 (Suc (Suc n)) \<longleftrightarrow> silent_since (x0 # rs) 0 (Suc n)"
    and "\<not> silent_since (x0 # x1 # rs) (Suc 0) (Suc (Suc n))"
    and "silent_since (x0 # x1 # rs) (Suc (Suc j)) (Suc (Suc n)) \<longleftrightarrow> silent_since (x0 # rs) (Suc j) (Suc n)"
proof -
  show "silent_since (x0 # x1 # rs) 0 (Suc (Suc n)) \<longleftrightarrow> silent_since (x0 # rs) 0 (Suc n)"
    using assms by (simp add: silent_since_def all_to_Suc)
  show "\<not> silent_since (x0 # x1 # rs) (Suc 0) (Suc (Suc n))"
  proof
    assume "silent_since (x0 # x1 # rs) (Suc 0) (Suc (Suc n))"
    then have "\<forall>i\<in>{0..Suc n}. fst ((x1 # rs) ! i) = fst ((x1 # rs) ! Suc n)"
      "fst x0 \<noteq> fst ((x1 # rs) ! Suc n)"
      by (auto simp: silent_since_def all_from_Suc)
    from this(1) [THEN bspec, of 0] this(2) assms show False by simp
  qed
  show "silent_since (x0 # x1 # rs) (Suc (Suc j)) (Suc (Suc n)) \<longleftrightarrow> silent_since (x0 # rs) (Suc j) (Suc n)"
    using assms by (cases j) (simp_all add: silent_since_def all_from_Suc)
qed

lemma stalls_at_same:
  assumes "fst x0 = fst x1" "0 < m"
  shows "stalls_at window (x0 # x1 # rs) (Suc m) idle \<longleftrightarrow> stalls_at window (x0 # rs) m idle"
proof -
  obtain n where m: "m = Suc n" using assms(2) by (cases m) auto
  have ex: "(\<exists>j<Suc k. P j) \<longleftrightarrow> P 0 \<or> (\<exists>j<k. P (Suc j))" for P k
    by (metis less_Suc_eq_0_disj zero_less_Suc)
  show ?thesis
    unfolding stalls_at_def m ex by (simp add: silent_since_same [OF assms(1)])
qed

text \<open>One poll of the loop, against the readings.\<close>

lemma stalls_at_poll:
  assumes "stalled_for (wo_ticks o1) (wo_after o1) w = (st, w')"
  shows "stalls_at (hw_window w) (readings w (o1 # os)) (Suc 0) idle \<longleftrightarrow> st = Some idle"
    and "stalls_at (hw_window w) (readings w (o1 # os)) (Suc (Suc m)) idle \<longleftrightarrow>
         stalls_at (hw_window w') (readings w' os) (Suc m) idle"
proof -
  show "stalls_at (hw_window w) (readings w (o1 # os)) (Suc 0) idle \<longleftrightarrow> st = Some idle"
    using assms by (auto simp: readings_def stalls_at_one stalled_for_def Let_def split: if_splits)
  show "stalls_at (hw_window w) (readings w (o1 # os)) (Suc (Suc m)) idle \<longleftrightarrow>
         stalls_at (hw_window w') (readings w' os) (Suc m) idle"
  proof (cases "wo_ticks o1 = hw_last_ticks w")
    case True
    with assms have "w' = w" by (auto simp: stalled_for_def Let_def split: if_splits)
    with True show ?thesis by (simp add: readings_def stalls_at_same)
  next
    case False
    with assms have "w' = w\<lparr>hw_last_ticks := wo_ticks o1, hw_last_progress := wo_after o1\<rparr>"
      by (simp add: stalled_for_def)
    with False show ?thesis by (simp add: readings_def stalls_at_ticked)
  qed
qed

lemma polled_Suc:
  assumes "stalled_for (wo_ticks o1) (wo_after o1) w = (st, w')"
  shows "polled deadline w (o1 # os) (Suc m) \<longleftrightarrow>
    still_waiting deadline o1 \<and> st = None \<and> polled deadline w' os m"
proof -
  have split: "(\<forall>m'\<in>{0<..Suc m}. Q m') \<longleftrightarrow> Q (Suc 0) \<and> (\<forall>m'\<in>{0<..m}. Q (Suc m'))" for Q
    by (auto simp: Ball_def) (metis Suc_le_mono gr0_implies_Suc not_gr_zero)
  have "(\<forall>m'\<in>{0<..m}. \<forall>idle. \<not> stalls_at (hw_window w) (readings w (o1 # os)) (Suc m') idle) \<longleftrightarrow>
      (\<forall>m'\<in>{0<..m}. \<forall>idle. \<not> stalls_at (hw_window w') (readings w' os) m' idle)"
    by (rule ball_cong [OF refl]) (metis stalls_at_poll(2) [OF assms] gr0_implies_Suc greaterThanAtMost_iff)
  then show ?thesis
    using stalls_at_poll(1) [OF assms, of os] unfolding polled_def split
    by (cases st) auto
qed

lemma outcome_at_Suc:
  assumes "stalled_for (wo_ticks o1) (wo_after o1) w = (st, w')"
  shows "outcome_at deadline w (o1 # os) (Suc m) r \<longleftrightarrow> outcome_at deadline w' os m r"
proof -
  have "hw_window w' = hw_window w" using assms watch_window by (metis snd_conv)
  then show ?thesis by (simp add: outcome_at_def stalls_at_poll(2) [OF assms])
qed

text \<open>The loop returns at the first poll that has something to return.\<close>

lemma wait_outcome:
  "wait_for_gpu_response deadline w os = Some r \<Longrightarrow> \<exists>m. polled deadline w os m \<and> outcome_at deadline w os m r"
proof (induction os arbitrary: w)
  case (Cons o1 os)
  obtain st w' where st: "stalled_for (wo_ticks o1) (wo_after o1) w = (st, w')" by force
  have win: "hw_window w' = hw_window w" using st watch_window by (metis snd_conv)
  have zero: "polled deadline w (o1 # os) 0" by (simp add: polled_def)
  show ?case
  proof (cases "still_waiting deadline o1")
    case False
    with Cons.prems have "outcome_at deadline w (o1 # os) 0 r"
      by (cases "wo_result o1") (auto simp: outcome_at_def still_waiting_def split: if_splits)
    with zero show ?thesis by blast
  next
    case True
    show ?thesis
    proof (cases st)
      case None
      with True Cons.prems st have "wait_for_gpu_response deadline w' os = Some r"
        by (simp add: still_waiting_def)
      from Cons.IH [OF this] obtain m where "polled deadline w' os m" "outcome_at deadline w' os m r" by blast
      with True None have "polled deadline w (o1 # os) (Suc m)" "outcome_at deadline w (o1 # os) (Suc m) r"
        by (simp_all add: polled_Suc [OF st] outcome_at_Suc [OF st])
      then show ?thesis by blast
    next
      case (Some idle)
      with True Cons.prems st win have "r = StalledFor idle (hw_window w)" by (simp add: still_waiting_def)
      with True Some have "outcome_at deadline w (o1 # os) 0 r"
        by (simp add: outcome_at_def stalls_at_poll(1) [OF st])
      with zero show ?thesis by blast
    qed
  qed
qed simp

section \<open>The cost of one request\<close>

definition evaluations :: "('a, 'r) worker \<Rightarrow> nat" where
  "evaluations wk = length (filter (\<lambda>e. case e of Evaluated _ \<Rightarrow> True | _ \<Rightarrow> False) (wk_log wk))"

definition recreations :: "('a, 'r) worker \<Rightarrow> nat" where
  "recreations wk = length (filter (\<lambda>e. case e of Recreated _ \<Rightarrow> True | _ \<Rightarrow> False) (wk_log wk))"

definition slept_ms :: "('a, 'r) worker \<Rightarrow> nat" where
  "slept_ms wk = sum_list (map (\<lambda>e. case e of Slept d \<Rightarrow> unat d | _ \<Rightarrow> 0) (wk_log wk))"

definition costs_at_most :: "nat \<Rightarrow> nat \<Rightarrow> ('a, 'r) worker \<Rightarrow> ('a, 'r) worker \<Rightarrow> bool" where
  "costs_at_most evals n wk wk' \<longleftrightarrow> evaluations wk' \<le> evaluations wk + evals \<and>
     recreations wk' \<le> recreations wk + n \<and> slept_ms wk' \<le> slept_ms wk + 1000 * n"

lemmas cost_defs = evaluations_def recreations_def slept_ms_def

lemma costs_log: "wk_log wk' = wk_log wk \<Longrightarrow> costs_at_most 0 0 wk wk'"
  by (simp add: costs_at_most_def cost_defs)

lemma costs_trans:
  "costs_at_most a m wk wk1 \<Longrightarrow> costs_at_most b n wk1 wk' \<Longrightarrow> costs_at_most (a + b) (m + n) wk wk'"
  by (auto simp: costs_at_most_def)

lemma costs_mono: "costs_at_most a m wk wk' \<Longrightarrow> a \<le> b \<Longrightarrow> m \<le> n \<Longrightarrow> costs_at_most b n wk wk'"
  by (auto simp: costs_at_most_def)

lemma costs_send: "costs_at_most 0 0 wk (send_error_to_request w msg wk)"
  by (rule costs_log) (simp add: send_error_to_request_def send_response_def split: option.split)

lemma costs_beat: "costs_at_most 0 0 wk (beat step wk)"
  by (simp add: costs_at_most_def cost_defs beat_def)

lemma costs_observe: "costs_at_most 0 0 wk (observe [] wk)"
  by (simp add: costs_at_most_def cost_defs observe_def)

lemma costs_execute: "execute_request gw w wk = (res, wk') \<Longrightarrow> costs_at_most 1 0 wk wk'"
  by (auto simp: execute_request_def Let_def costs_at_most_def cost_defs observe_def send_response_def
      split: option.splits outcome.splits sum.splits if_splits)

lemma delay_at_most: "unat (backoff_delay_ms attempt default_backoff_initial_ms default_backoff_max_ms) \<le> 1000"
  by (simp add: backoff_exact default_backoff_max_ms_def)

lemma costs_recover:
  "recover gw w is_oom batch left attempt wk = (res, wk') \<Longrightarrow> costs_at_most left left wk wk'"
proof (induction gw w is_oom batch left attempt wk rule: recover.induct)
  case (1 gw w is_oom batch attempt wk)
  then show ?case by (simp add: costs_log)
next
  case (2 gw w is_oom batch left attempt wk)
  show ?case
  proof (cases "stale_reason gw w (wk_tick wk)")
    case (Some reason)
    have "costs_at_most 0 0 wk ((observe [] wk)\<lparr>wk_stale_skips := n\<rparr>)" for n
      by (simp add: costs_at_most_def cost_defs observe_def)
    note kept = this
    have "costs_at_most (Suc left) (Suc left) wk ((observe [] wk)\<lparr>wk_stale_skips := n\<rparr>)"
      "costs_at_most (Suc left) (Suc left) wk (send_error_to_request w msg ((observe [] wk)\<lparr>wk_stale_skips := n\<rparr>))" for n msg
      by (rule costs_mono [OF kept], simp_all) (rule costs_mono [OF costs_trans [OF kept costs_send]], simp_all)
    with Some 2(3) show ?thesis by (cases reason) auto
  next
    case None
    define delay where "delay = backoff_delay_ms attempt default_backoff_initial_ms default_backoff_max_ms"
    define wk1 where "wk1 = beat ''recovery_attempt'' (observe [Slept delay] wk)"
    define wk2 where "wk2 = observe [Recreated (if is_oom then Some batch else None)] wk1"
    have c2: "costs_at_most 0 1 wk wk2"
      using delay_at_most [of attempt]
      by (simp add: costs_at_most_def cost_defs wk2_def wk1_def observe_def beat_def delay_def)
    show ?thesis
    proof (cases "gw_create gw (if is_oom then Some batch else None) (wk_tick wk1)")
      case (Panics msg)
      with None 2(3) c2 show ?thesis
        by (auto simp: Let_def wk1_def wk2_def delay_def intro: costs_mono)
    next
      case (Returns created)
      show ?thesis
      proof (cases created)
        case (Inl e)
        with None Returns 2(3) have "recover gw w is_oom batch left (attempt + 1) wk2 = (res, wk')"
          by (simp add: Let_def wk1_def wk2_def delay_def)
        from "2.IH"(1) [OF None refl refl refl refl, folded delay_def, folded wk1_def, OF Returns Inl, folded wk2_def, OF this] c2
        show ?thesis by (auto dest: costs_trans intro: costs_mono)
      next
        case (Inr analyzer)
        obtain er wk3 where ex: "execute_request gw w (wk2\<lparr>wk_analyzer := analyzer\<rparr>) = (er, wk3)" by force
        have "costs_at_most 0 0 wk2 (wk2\<lparr>wk_analyzer := analyzer\<rparr>)" by (rule costs_log) simp
        from costs_trans [OF c2 costs_trans [OF this costs_execute [OF ex]]]
        have c3: "costs_at_most 1 1 wk wk3" by simp
        show ?thesis
        proof (cases er)
          case ExecDone
          with None Returns Inr ex 2(3) have "wk' = beat ''request_completed'' wk3"
            by (auto simp: Let_def wk1_def wk2_def delay_def)
          with costs_trans [OF c3 costs_beat] show ?thesis by (auto intro: costs_mono)
        next
          case (ExecLost e)
          with None Returns Inr ex 2(3) have run: "recover gw w is_oom batch left (attempt + 1) wk3 = (res, wk')"
            by (simp add: Let_def wk1_def wk2_def delay_def)
          from "2.IH"(2) [OF None refl refl refl refl, folded delay_def, folded wk1_def, OF Returns Inr, folded wk2_def,
              OF ex [symmetric] ExecLost run] c3
          show ?thesis by (auto dest: costs_trans intro: costs_mono)
        next
          case (ExecPanicked msg)
          with None Returns Inr ex 2(3) have "wk' = wk3"
            by (auto simp: Let_def wk1_def wk2_def delay_def)
          with c3 show ?thesis by (auto intro: costs_mono)
        qed
      qed
    qed
  qed
qed

lemma costs_recover_request:
  assumes "recover_request gw retry_limit w e wk = (panic, wk')"
  shows "costs_at_most (unat retry_limit) (unat retry_limit) wk wk'"
proof -
  have sent: "costs_at_most (unat retry_limit) (unat retry_limit) wk (send_error_to_request w msg wk1)"
    if "costs_at_most (unat retry_limit) (unat retry_limit) wk wk1" for msg wk1
    using costs_trans [OF that costs_send] by simp
  have start: "costs_at_most 0 0 wk (wk\<lparr>wk_reductions := rs\<rparr>)" "costs_at_most 0 0 wk wk" for rs
    by (simp_all add: costs_log)
  have run: "costs_at_most n n wk wk2"
    if "recover gw w is_oom batch n a wk1 = (res, wk2)" "wk1 = wk \<or> (\<exists>rs. wk1 = wk\<lparr>wk_reductions := rs\<rparr>)"
    for is_oom batch n a wk1 res wk2
    using costs_recover [OF that(1)] that(2) costs_trans [OF start(1), of n n] costs_trans [OF start(2), of n n]
    by auto
  have "costs_at_most (unat retry_limit) (unat retry_limit) wk wk"
    by (rule costs_mono [OF costs_log]) simp_all
  with assms show ?thesis
    by (auto simp: recover_request_def Let_def split: if_splits prod.splits recovery_result.splits intro: run sent)
qed

lemma costs_process:
  assumes "process_request gw retry_limit w wk = (panic, wk')"
  shows "costs_at_most (Suc (unat retry_limit)) (unat retry_limit) wk wk'"
proof -
  let ?wk1 = "observe [] (beat ''request_dequeued'' wk)"
  have c1: "costs_at_most 0 0 wk ?wk1" using costs_trans [OF costs_beat costs_observe] by simp
  have skip: "costs_at_most 0 0 ?wk1 (skip_stale_request w reason ?wk1)" for reason
    using costs_trans [OF costs_log costs_send, of "?wk1\<lparr>wk_stale_skips := wk_stale_skips ?wk1 + 1\<rparr>" ?wk1 w queued_too_long_message]
    by (auto simp: skip_stale_request_def Let_def intro: costs_log)
  obtain er wk2 where ex: "execute_request gw w ?wk1 = (er, wk2)" by force
  have c2: "costs_at_most 1 0 wk wk2" using costs_trans [OF c1 costs_execute [OF ex]] by simp
  have done1: "costs_at_most 1 0 wk ((beat ''request_completed'' wk2)\<lparr>wk_completed := n\<rparr>)" for n
    using costs_trans [OF c2 costs_trans [OF costs_beat costs_log]] by simp
  show ?thesis
  proof (cases "stale_reason gw w (wk_tick (beat ''request_dequeued'' wk))")
    case (Some reason)
    with assms costs_trans [OF c1 skip] show ?thesis
      by (auto simp: process_request_def Let_def intro: costs_mono)
  next
    case None
    show ?thesis
    proof (cases er)
      case (ExecLost e)
      with None ex assms have "recover_request gw retry_limit w e wk2 = (panic, wk')"
        by (simp add: process_request_def Let_def)
      from costs_trans [OF c2 costs_recover_request [OF this]] show ?thesis by simp
    qed (use None ex assms c2 done1 in \<open>auto simp: process_request_def Let_def intro: costs_mono\<close>)
  qed
qed


lemma subseq_distinct: "subseq xs ys \<Longrightarrow> distinct ys \<Longrightarrow> distinct xs"
  by (metis distinct_nthsI subseq_conv_nths)

section \<open>Properties\<close>

definition example_work :: "nat \<Rightarrow> unit gpu_work" where
  "example_work i = ReluEval [()] 0 \<lparr>rq_id = i, rq_budget = unbounded\<rparr>"

text \<open>A world whose evaluator panics on request 1 and answers every other request.\<close>

definition example_world :: "(unit, unit, nat) gpu_world" where
  "example_world =
     \<lparr>gw_now = (\<lambda>t. t), gw_live = (\<lambda>i t. True),
      gw_evaluate = (\<lambda>a w t. if map_option rq_id (work_ref w) = Some 1 then Panics ''boom'' else Returns (Inr t)),
      gw_device_lost = (\<lambda>a t. False), gw_create = (\<lambda>n t. Returns (Inr ())), gw_batch_size = (\<lambda>a. 64)\<rparr>"

definition example_worker :: "(unit, nat) worker" where
  "example_worker =
     \<lparr>wk_analyzer = (), wk_tick = 0, wk_answers = [], wk_completed = 0, wk_stale_skips = 0,
      wk_reductions = [], wk_log = []\<rparr>"

text \<open>
  C14. The GPU thread answers in order and never twice. Over any trace of requests with distinct
  channels, idle wake-ups, shutdown and disconnection, and whatever the device, the evaluator, the
  clock and the callers do, the answered channels form a subsequence of the requests; every request
  the loop took was answered unless its caller was gone at some point; and when an evaluation
  panics, only that request goes without an answer: all before it and all still queued get one.
\<close>

theorem gpu_requests_answered_once:
  assumes "distinct (request_ids trace)" "wk_answers wk = []"
    and "run_work_loop gw retry_limit trace wk = (ex, wk1, rest)"
    and "run_guarded_gpu_thread gw retry_limit trace b wk = (b', wk', rest')"
  shows "distinct (map fst (wk_answers wk')) \<and> subseq (map fst (wk_answers wk')) (request_ids trace) \<and>
    (\<exists>pre. trace = pre @ rest \<and>
      (case ex of
         Some (ThreadPanicked msg) \<Rightarrow>
           set (request_ids (butlast pre)) \<union> set (request_ids rest) \<subseteq> fst ` set (wk_answers wk') \<union> gone_ids gw \<and>
           length (request_ids pre) = Suc (length (request_ids (butlast pre))) \<and> is_tripped b'
       | _ \<Rightarrow> set (request_ids pre) \<subseteq> fst ` set (wk_answers wk') \<union> gone_ids gw \<and> b' = b))"
proof -
  from loop_answers [OF assms(3)] assms(2) obtain pre new where
    pre: "trace = pre @ rest" "wk_answers wk1 = new" "served gw ex pre (map fst new)" by auto
  show ?thesis
  proof (cases "\<exists>msg. ex = Some (ThreadPanicked msg)")
    case True
    then obtain msg where msg: "ex = Some (ThreadPanicked msg)" by blast
    have out: "b' = trip WorkerPanicked b" "map fst (wk_answers wk') = map fst new @ request_ids rest"
      using assms(3,4) msg pre(2)
      by (auto simp: run_guarded_gpu_thread_def fail_all_answers)
    from pre(3) msg obtain i where s: "subseq (map fst new) (request_ids (butlast pre))"
      "set (request_ids (butlast pre)) \<subseteq> set (map fst new) \<union> gone_ids gw"
      "request_ids pre = request_ids (butlast pre) @ [i]" by (auto simp: served_def)
    from list_emb_append_mono [OF list_emb_append_mono [OF s(1) list_emb_Nil, of "[i]"] subseq_order.order_refl, of "request_ids rest"]
    have "subseq (map fst new @ request_ids rest) (request_ids trace)"
      using s(3) by (simp add: pre(1))
    then have sub: "subseq (map fst (wk_answers wk')) (request_ids trace)" by (simp add: out(2))
    have "fst ` set (wk_answers wk') = set (map fst new) \<union> set (request_ids rest)"
      by (metis list.set_map out(2) set_append)
    moreover have "is_tripped b'" by (simp add: out(1) trip_def is_tripped_def)
    ultimately show ?thesis
      using s(2,3) msg pre(1) sub subseq_distinct [OF sub assms(1)] by auto
  next
    case False
    then have out: "wk' = wk1" "b' = b"
      using assms(3,4) by (auto simp: run_guarded_gpu_thread_def split: option.splits worker_exit.splits)
    from False pre(3) have s: "subseq (map fst new) (request_ids pre)"
      "set (request_ids pre) \<subseteq> set (map fst new) \<union> gone_ids gw"
      by (auto simp: served_def split: option.splits worker_exit.splits)
    then have sub: "subseq (map fst (wk_answers wk')) (request_ids trace)"
      using list_emb_append_mono [OF s(1) list_emb_Nil, of "request_ids rest"] by (simp add: out pre(1,2))
    then show ?thesis
      using False s(2) pre out subseq_distinct [OF sub assms(1)]
      by (auto split: option.splits worker_exit.splits)
  qed
qed


definition panic_trace :: "unit received list" where
  "panic_trace = [IdleWakeup False, Request (example_work 7), Request (example_work 1), Request (example_work 2)]"

theorem gpu_requests_answered_once_witness:
  "\<exists>b' wk'. run_guarded_gpu_thread example_world 3 panic_trace breaker_new example_worker =
      (b', wk', [Request (example_work 2)]) \<and> map fst (wk_answers wk') = [7, 2] \<and> is_tripped b'"
proof -
  obtain b' wk' where run: "run_guarded_gpu_thread example_world 3 panic_trace breaker_new example_worker =
      (b', wk', [Request (example_work 2)])"
    and ids: "map fst (wk_answers wk') = [7, 2]"
    by (simp add: run_guarded_gpu_thread_def panic_trace_def example_work_def example_world_def example_worker_def
        process_request_def stale_reason_def has_live_receiver_def budget_is_expired_def is_bounded_def unbounded_def
        execute_request_def observe_def beat_def send_response_def reclassify_budget_timeout_def
        send_error_to_request_def Let_def)
  have loop: "run_work_loop example_world 3 panic_trace example_worker =
      (Some (ThreadPanicked ''boom''), snd (process_request example_world 3 (example_work 1)
         (snd (process_request example_world 3 (example_work 7) example_worker))), [Request (example_work 2)])"
    by (simp add: panic_trace_def example_work_def example_world_def example_worker_def
        process_request_def stale_reason_def has_live_receiver_def budget_is_expired_def is_bounded_def unbounded_def
        execute_request_def observe_def beat_def send_response_def reclassify_budget_timeout_def Let_def)
  have "distinct (request_ids panic_trace)" by (simp add: panic_trace_def example_work_def)
  from gpu_requests_answered_once [OF this _ loop run] have "is_tripped b'" by (auto simp: example_worker_def)
  with run ids show ?thesis by (intro exI conjI)
qed

text \<open>
  Device recovery is bounded: whatever the evaluator, the factory and the clock do, one request
  is evaluated at most \<open>1 + retry_limit\<close> times, the device is re-created at most \<open>retry_limit\<close> times,
  and the thread sleeps at most \<open>retry_limit\<close> seconds for it; the delay before attempt \<open>n\<close> is exactly
  \<open>min (10 * 2 ^ (n - 1)) 1000\<close> milliseconds, also where the shift or the product would overflow.
\<close>

theorem gpu_recovery_bounded:
  "(case process_request gw retry_limit w wk of
      (_, wk') \<Rightarrow> evaluations wk' \<le> evaluations wk + 1 + unat retry_limit \<and>
        recreations wk' \<le> recreations wk + unat retry_limit \<and>
        slept_ms wk' \<le> slept_ms wk + 1000 * unat retry_limit) \<and>
   unat (backoff_delay_ms attempt default_backoff_initial_ms default_backoff_max_ms) =
     min (10 * 2 ^ (unat attempt - 1)) 1000"
proof -
  obtain p wk' where run: "process_request gw retry_limit w wk = (p, wk')" by force
  from costs_process [OF run] run show ?thesis
    by (simp add: costs_at_most_def backoff_exact default_backoff_initial_ms_def default_backoff_max_ms_def)
qed

lemma submit_tripped:
  assumes "breaker_trip_reason (gc_breaker c) = Some r"
  shows "submit_and_wait operation immediate c =
    Some (Inl (GpuError (GpuWedged (BreakerTripped r) (br_abandoned (gc_breaker c)))), gc_breaker c)"
  using assms by (simp add: submit_and_wait_def breaker_check_def gpu_wedged_error_def)

text \<open>
  The circuit breaker latches its first reason: from an untripped breaker, after any
  interleaving of trips, abandoned threads and skip warnings, its reason is that of the first trip;
  once it is tripped, every submission, also of an empty batch, and every attempt to create a queue
  is refused at once with that reason and the count of abandoned threads.
\<close>

theorem breaker_latches_and_refuses:
  assumes "breaker_trip_reason (fold breaker_step ops breaker_new) = Some r"
    and "gc_breaker c1 = fold breaker_step (ops @ later) breaker_new"
    and "gc_breaker c2 = gc_breaker c1" "gc_breaker c3 = gc_breaker c1"
    and "gc_breaker c4 = gc_breaker c1" "gc_breaker c5 = gc_breaker c1"
  shows "hd (List.map_filter breaker_op_reason ops) = r \<and>
    (let refusal = GpuWedged (BreakerTripped r) (length (filter (\<lambda>op. op = Abandon) (ops @ later))) in
     evaluate_helpful_batch samples1 c1 = Some (Inl (GpuError refusal), gc_breaker c1) \<and>
     evaluate_harmful_batch samples2 c2 = Some (Inl (GpuError refusal), gc_breaker c1) \<and>
     evaluate_relu_gpu empty_relu samples3 c3 = Some (Inl (GpuError refusal), gc_breaker c1) \<and>
     evaluate_activation_gpu samples4 c4 = Some (Inl (GpuError refusal), gc_breaker c1) \<and>
     evaluate_activations_batched_gpu samples5 configs c5 = Some (Inl (GpuError refusal), gc_breaker c1) \<and>
     queue_new signal (gc_breaker c1) = (Inl refusal, gc_breaker c1))"
proof -
  let ?b = "fold breaker_step ops breaker_new"
  have new: "\<not> is_tripped breaker_new" by (simp add: is_tripped_def breaker_new_def)
  have first: "hd (List.map_filter breaker_op_reason ops) = r"
    using assms(1) breaker_first_reason [OF new, of ops] by (auto split: list.splits)
  have "is_tripped ?b" using assms(1) by (auto simp: breaker_trip_reason_def is_tripped_def)
  from breaker_latched [OF this, of later] have "breaker_trip_reason (gc_breaker c1) = Some r"
    using assms(1,2) by (simp add: breaker_trip_reason_def)
  moreover have "br_abandoned (gc_breaker c1) = length (filter (\<lambda>op. op = Abandon) (ops @ later))"
    unfolding assms(2) abandoned_count by (simp add: breaker_new_def)
  ultimately show ?thesis
    using first assms(3-6)
    by (simp add: Let_def evaluate_helpful_batch_def evaluate_harmful_batch_def evaluate_relu_gpu_def
        evaluate_activation_gpu_def evaluate_activations_batched_gpu_def submit_tripped queue_new_def
        breaker_check_def gpu_wedged_error_def)
qed

definition example_call :: "breaker \<Rightarrow> 'r gpu_call" where
  "example_call b =
     \<lparr>gc_breaker = b, gc_start = 0, gc_deadline = None, gc_window = 0, gc_send_ticks = 0, gc_send = [],
      gc_wait_start = 0, gc_wait_ticks = 0, gc_wait = [], gc_breaker_after = b\<rparr>"

theorem breaker_latches_and_refuses_witness:
  "evaluate_relu_gpu (0 :: nat) ([] :: unit list) (example_call (fold breaker_step [SkipReason, Trip InitTimeout, Abandon] breaker_new)) =
     Some (Inl (GpuError (GpuWedged (BreakerTripped InitTimeout) 1)), fold breaker_step [SkipReason, Trip InitTimeout, Abandon] breaker_new)"
proof -
  let ?b = "fold breaker_step ([SkipReason, Trip InitTimeout] @ [Abandon]) breaker_new"
  have "breaker_trip_reason (fold breaker_step [SkipReason, Trip InitTimeout] breaker_new) = Some InitTimeout"
    by code_simp
  note refused = breaker_latches_and_refuses [OF this, where later = "[Abandon]" and ?c1.0 = "example_call ?b" and
      ?c2.0 = "example_call ?b" and ?c3.0 = "example_call ?b" and ?c4.0 = "example_call ?b" and
      ?c5.0 = "example_call ?b" and empty_relu = "0 :: nat" and ?samples3.0 = "[] :: unit list",
      THEN conjunct2, unfolded Let_def, THEN conjunct2, THEN conjunct2, THEN conjunct1]
  have "gc_breaker (example_call ?b) = ?b" by (simp add: example_call_def)
  with refused show ?thesis by (simp add: example_call_def)
qed

text \<open>
  C15. Waiting for a GPU response ends, with the right outcome: where every timed-out receive takes
  the time it was given, as the channel documents, the loop returns by the time it has polled
  \<open>timeout div interval + 2\<close> times, whatever the heartbeat does. It returns at the first poll with
  something to return: an answer, a disconnect or the deadline's timeout as the channel gave it, or a
  stall when the GPU thread's tick count has stood still for at least the window (which is not zero),
  counted from the reading that first showed it. A heartbeat that keeps ticking is never a stall, and
  a stall is never passed over.
\<close>

theorem gpu_wait_terminates:
  assumes "timely deadline (poll_interval w) now"
    and "map wo_now os = map now [0..<length os]"
    and "(deadline - now 0) div poll_interval w + 2 \<le> length os"
  shows "\<exists>r m. wait_for_gpu_response deadline w os = Some r \<and>
    m \<le> (deadline - now 0) div poll_interval w + 1 \<and>
    polled deadline w os m \<and> outcome_at deadline w os m r"
proof -
  let ?i = "poll_interval w"
  let ?k = "Suc ((deadline - now 0) div ?i)"
  have i: "0 < ?i" using poll_interval_bounds [of w] by (simp add: ns_per_ms_def)
  have k: "?k < length os" using assms(3) by simp
  have "deadline - now 0 < ?k * ?i"
    using i by (metis dividend_less_times_div mult.commute mult_Suc_right)
  then have "deadline \<le> now 0 + ?k * ?i" by linarith
  with timely_progress [OF assms(1), of ?k] have "deadline \<le> now ?k" by simp
  moreover have "wo_now (os ! ?k) = now ?k"
    using assms(2) k by (metis (no_types, lifting) add_0 length_map nth_map nth_upt)
  ultimately have late: "deadline \<le> wo_now (os ! ?k)" by simp
  then obtain r where r: "wait_for_gpu_response deadline w os = Some r"
    using wait_returns_at [OF k] by blast
  from wait_outcome [OF r] obtain m where m: "polled deadline w os m" "outcome_at deadline w os m r"
    by blast
  have "m \<le> ?k"
  proof (rule ccontr)
    assume "\<not> m \<le> ?k"
    with k have "os ! ?k \<in> set (take m os)" by (auto simp: in_set_conv_nth intro!: exI [of _ ?k])
    with m(1) late show False by (auto simp: polled_def still_waiting_def)
  qed
  with r m show ?thesis by auto
qed

theorem gpu_wait_terminates_witness:
  "wait_for_gpu_response 20000000 (watch_new 0 50000000 0)
     (map (\<lambda>i. \<lparr>wo_now = i * 10000000, wo_result = RecvTimedOut :: nat recv_result, wo_ticks = 0,
                wo_after = i * 10000000\<rparr>) [0..<4]) \<noteq> None"
proof -
  let ?w = "watch_new 0 50000000 0"
  let ?now = "\<lambda>i. i * 10000000 :: nat"
  have w: "poll_interval ?w = 10000000" by (simp add: poll_interval_def watch_new_def ns_per_sec_def ns_per_ms_def)
  have "timely 20000000 (poll_interval ?w) ?now" by (simp add: timely_def w)
  from gpu_wait_terminates [OF this, of "map (\<lambda>i. \<lparr>wo_now = i * 10000000, wo_result = RecvTimedOut :: nat recv_result,
      wo_ticks = 0, wo_after = i * 10000000\<rparr>) [0..<4]"]
  show ?thesis by (auto simp: w comp_def split: option.splits)
qed

text \<open>
  The breaker cannot prevent a second abandoned thread: queues created before the first trip are
  abandoned one by one when they are dropped.
\<close>

lemma two_queues_abandon_two_threads:
  assumes "queue_new InitOk breaker_new = (r1, b1)" "queue_new InitOk b1 = (r2, b2)"
  shows "r1 = Inr () \<and> r2 = Inr () \<and> br_abandoned (queue_drop ExitTimeout (queue_drop ExitTimeout b2)) = 2"
  using assms
  by (auto simp: queue_new_def breaker_check_def breaker_trip_reason_def breaker_new_def queue_drop_def
      record_abandoned_thread_def trip_def)

end
