(* ===== verification/Rejections.thy ===== *)
theory Rejections
  imports Prelude "HOL-Library.List_Lexorder" "HOL-Library.Char_ord" "HOL-Library.Multiset"
begin

text \<open>
  Why candidates were dropped, and whether every one is accounted for: the rejection breakdown
  and its reasons (\<open>diagnostics/rejection_reasons.rs\<close>), the per-surface candidate ledger and its
  reconciliation (\<open>candidate_reconciliation.rs\<close>), the classification of a pass as starved or
  over-rejected (\<open>candidate_starvation.rs\<close>) and the suppression of candidates by the failure
  cache (\<open>failure_cache_handshake.rs\<close>).

  A \<open>HashMap<String, u32>\<close> is an association list with distinct keys; its order stands for the
  unspecified iteration order, so a result that does not depend on that order is proved not to.
  Strings compare by their characters, as \<open>str\<close> does by its bytes. The \<open>u32\<close> additions of
  the breakdown wrap, as they do in the release profile.
\<close>

section \<open>Reasons\<close>

definition rejection_below_expected_gain_floor :: string where "rejection_below_expected_gain_floor = ''below_expected_gain_floor''"
definition rejection_below_multi_op_floor :: string where "rejection_below_multi_op_floor = ''below_multi_op_floor''"
definition rejection_non_positive_gain :: string where "rejection_non_positive_gain = ''non_positive_gain''"
definition rejection_non_finite_gain :: string where "rejection_non_finite_gain = ''non_finite_gain''"
definition rejection_non_finite_operation :: string where "rejection_non_finite_operation = ''non_finite_operation''"
definition rejection_saturation_discounted_to_zero :: string where "rejection_saturation_discounted_to_zero = ''saturation_discounted_to_zero''"
definition rejection_pessimism_discounted_to_zero :: string where "rejection_pessimism_discounted_to_zero = ''pessimism_discounted_to_zero''"
definition rejection_interference_filtered :: string where "rejection_interference_filtered = ''interference_filtered''"
definition rejection_below_improved_ratio :: string where "rejection_below_improved_ratio = ''below_improved_ratio''"
definition rejection_duplicate_of_failure_cache :: string where "rejection_duplicate_of_failure_cache = ''duplicate_of_failure_cache''"
definition rejection_add_synapse_gated :: string where "rejection_add_synapse_gated = ''add_synapse_gated''"
definition rejection_budget_truncated :: string where "rejection_budget_truncated = ''budget_truncated''"
definition rejection_per_target_cap :: string where "rejection_per_target_cap = ''per_target_cap''"
definition rejection_same_target_squash_duplicate :: string where "rejection_same_target_squash_duplicate = ''same_target_squash_duplicate''"
definition rejection_coordinated_target_cap_exceeded :: string where "rejection_coordinated_target_cap_exceeded = ''coordinated_target_cap_exceeded''"
definition rejection_coordinated_collapse_bypass_weight_below_floor :: string where "rejection_coordinated_collapse_bypass_weight_below_floor = ''coordinated_collapse_bypass_weight_below_floor''"
definition rejection_cpu_pre_reject_no_signal :: string where "rejection_cpu_pre_reject_no_signal = ''cpu_pre_reject_no_signal''"
definition rejection_no_samples :: string where "rejection_no_samples = ''no_samples''"
definition rejection_zero_source_variance :: string where "rejection_zero_source_variance = ''zero_source_variance''"
definition rejection_zero_improvement :: string where "rejection_zero_improvement = ''zero_improvement''"
definition rejection_below_threshold :: string where "rejection_below_threshold = ''below_threshold''"
definition rejection_no_target_records :: string where "rejection_no_target_records = ''no_target_records''"
definition rejection_insufficient_recording :: string where "rejection_insufficient_recording = ''insufficient_recording''"
definition rejection_gpu_wedged :: string where "rejection_gpu_wedged = ''gpu_wedged''"
definition rejection_no_eligible_sources :: string where "rejection_no_eligible_sources = ''no_eligible_sources''"
definition rejection_input_neuron_filtered :: string where "rejection_input_neuron_filtered = ''input_neuron_filtered''"
definition rejection_hidden_neuron_filtered :: string where "rejection_hidden_neuron_filtered = ''hidden_neuron_filtered''"
definition rejection_constant_neuron_filtered :: string where "rejection_constant_neuron_filtered = ''constant_neuron_filtered''"
definition rejection_target_record_load_failed :: string where "rejection_target_record_load_failed = ''target_record_load_failed''"
definition rejection_no_diagnostics :: string where "rejection_no_diagnostics = ''no_diagnostics''"
definition rejection_target_saturated :: string where "rejection_target_saturated = ''target_saturated''"
definition rejection_removal_below_noise_floor :: string where "rejection_removal_below_noise_floor = ''removal_below_noise_floor''"
definition rejection_removal_savings_below_impact :: string where "rejection_removal_savings_below_impact = ''removal_savings_below_impact''"
definition rejection_removal_active_neuron :: string where "rejection_removal_active_neuron = ''removal_active_neuron''"
definition rejection_remove_neuron_drought_deprioritised :: string where "rejection_remove_neuron_drought_deprioritised = ''remove_neuron_drought_deprioritised''"
definition rejection_removal_loss_exceeds_saving :: string where "rejection_removal_loss_exceeds_saving = ''removal_loss_exceeds_saving''"
definition rejection_fingerprint_unchanged :: string where "rejection_fingerprint_unchanged = ''fingerprint_unchanged''"
definition rejection_within_batch_target_short_circuit :: string where "rejection_within_batch_target_short_circuit = ''within_batch_target_short_circuit''"
definition rejection_target_cooldown_skipped :: string where "rejection_target_cooldown_skipped = ''target_cooldown_skipped''"
definition rejection_module_skipped_quality_satisfied :: string where "rejection_module_skipped_quality_satisfied = ''module_skipped_quality_satisfied''"
definition rejection_degenerate_weight_update :: string where "rejection_degenerate_weight_update = ''degenerate_weight_update''"
definition rejection_module_gated_low_success :: string where "rejection_module_gated_low_success = ''module_gated_low_success''"
definition rejection_module_deadline_skipped :: string where "rejection_module_deadline_skipped = ''module_deadline_skipped''"
definition rejection_module_panicked :: string where "rejection_module_panicked = ''module_panicked''"
definition rejection_module_tiered_out :: string where "rejection_module_tiered_out = ''module_tiered_out''"
definition rejection_unaccounted_drop :: string where "rejection_unaccounted_drop = ''unaccounted_drop''"

lemmas reason_defs =
  rejection_below_expected_gain_floor_def rejection_below_multi_op_floor_def rejection_non_positive_gain_def rejection_non_finite_gain_def rejection_non_finite_operation_def rejection_saturation_discounted_to_zero_def rejection_pessimism_discounted_to_zero_def rejection_interference_filtered_def rejection_below_improved_ratio_def rejection_duplicate_of_failure_cache_def rejection_add_synapse_gated_def rejection_budget_truncated_def rejection_per_target_cap_def rejection_same_target_squash_duplicate_def rejection_coordinated_target_cap_exceeded_def rejection_coordinated_collapse_bypass_weight_below_floor_def rejection_cpu_pre_reject_no_signal_def rejection_no_samples_def rejection_zero_source_variance_def rejection_zero_improvement_def rejection_below_threshold_def rejection_no_target_records_def rejection_insufficient_recording_def rejection_gpu_wedged_def rejection_no_eligible_sources_def rejection_input_neuron_filtered_def rejection_hidden_neuron_filtered_def rejection_constant_neuron_filtered_def rejection_target_record_load_failed_def rejection_no_diagnostics_def rejection_target_saturated_def rejection_removal_below_noise_floor_def rejection_removal_savings_below_impact_def rejection_removal_active_neuron_def rejection_remove_neuron_drought_deprioritised_def rejection_removal_loss_exceeds_saving_def rejection_fingerprint_unchanged_def rejection_within_batch_target_short_circuit_def rejection_target_cooldown_skipped_def rejection_module_skipped_quality_satisfied_def rejection_degenerate_weight_update_def rejection_module_gated_low_success_def rejection_module_deadline_skipped_def rejection_module_panicked_def rejection_module_tiered_out_def rejection_unaccounted_drop_def

definition all_rejection_reasons :: "string list" where
  "all_rejection_reasons = [rejection_below_expected_gain_floor, rejection_below_multi_op_floor, rejection_non_positive_gain, rejection_non_finite_gain, rejection_non_finite_operation, rejection_saturation_discounted_to_zero, rejection_pessimism_discounted_to_zero, rejection_interference_filtered, rejection_below_improved_ratio, rejection_duplicate_of_failure_cache, rejection_add_synapse_gated, rejection_budget_truncated, rejection_per_target_cap, rejection_same_target_squash_duplicate, rejection_coordinated_target_cap_exceeded, rejection_coordinated_collapse_bypass_weight_below_floor, rejection_cpu_pre_reject_no_signal, rejection_no_samples, rejection_zero_source_variance, rejection_zero_improvement, rejection_below_threshold, rejection_no_target_records, rejection_insufficient_recording, rejection_gpu_wedged, rejection_no_eligible_sources, rejection_input_neuron_filtered, rejection_hidden_neuron_filtered, rejection_constant_neuron_filtered, rejection_target_record_load_failed, rejection_no_diagnostics, rejection_target_saturated, rejection_removal_below_noise_floor, rejection_removal_savings_below_impact, rejection_removal_active_neuron, rejection_remove_neuron_drought_deprioritised, rejection_removal_loss_exceeds_saving, rejection_fingerprint_unchanged, rejection_within_batch_target_short_circuit, rejection_target_cooldown_skipped, rejection_module_skipped_quality_satisfied, rejection_degenerate_weight_update, rejection_module_gated_low_success, rejection_module_deadline_skipped, rejection_module_panicked, rejection_module_tiered_out, rejection_unaccounted_drop]"

definition gate_side_rejection_reasons :: "string list" where
  "gate_side_rejection_reasons = [rejection_below_expected_gain_floor, rejection_below_multi_op_floor, rejection_non_positive_gain, rejection_non_finite_gain, rejection_saturation_discounted_to_zero, rejection_pessimism_discounted_to_zero, rejection_interference_filtered, rejection_below_improved_ratio, rejection_zero_improvement, rejection_below_threshold, rejection_removal_below_noise_floor, rejection_removal_savings_below_impact, rejection_removal_active_neuron, rejection_remove_neuron_drought_deprioritised, rejection_removal_loss_exceeds_saving, rejection_degenerate_weight_update]"

definition upstream_rejection_reasons :: "string list" where
  "upstream_rejection_reasons = [rejection_non_finite_operation, rejection_duplicate_of_failure_cache, rejection_add_synapse_gated, rejection_cpu_pre_reject_no_signal, rejection_no_samples, rejection_zero_source_variance, rejection_no_target_records, rejection_insufficient_recording, rejection_gpu_wedged, rejection_no_eligible_sources, rejection_input_neuron_filtered, rejection_hidden_neuron_filtered, rejection_constant_neuron_filtered, rejection_target_record_load_failed, rejection_no_diagnostics, rejection_target_saturated, rejection_fingerprint_unchanged, rejection_within_batch_target_short_circuit, rejection_target_cooldown_skipped, rejection_module_gated_low_success, rejection_module_deadline_skipped, rejection_module_panicked, rejection_module_tiered_out, rejection_unaccounted_drop]"

definition abundance_rejection_reasons :: "string list" where
  "abundance_rejection_reasons = [rejection_budget_truncated, rejection_per_target_cap, rejection_same_target_squash_duplicate, rejection_coordinated_target_cap_exceeded, rejection_coordinated_collapse_bypass_weight_below_floor, rejection_module_skipped_quality_satisfied]"


section \<open>The rejection breakdown\<close>

type_synonym breakdown = "(string \<times> u32) list"

definition breakdown_ok :: "breakdown \<Rightarrow> bool" where
  "breakdown_ok b \<longleftrightarrow> distinct (map fst b)"

definition count_of :: "breakdown \<Rightarrow> string \<Rightarrow> u32" where
  "count_of b reason = (case map_of b reason of None \<Rightarrow> 0 | Some c \<Rightarrow> c)"

definition record_many :: "string \<Rightarrow> u32 \<Rightarrow> breakdown \<Rightarrow> breakdown" where
  "record_many reason n b =
     (if n = 0 then b else AList.update reason (count_of b reason + n) b)"

definition record_many_u32 :: "string \<Rightarrow> u32 \<Rightarrow> breakdown \<Rightarrow> breakdown" where
  "record_many_u32 reason n b = record_many reason n b"

definition record_reason :: "string \<Rightarrow> breakdown \<Rightarrow> breakdown" where
  "record_reason reason b = record_many reason 1 b"

definition merge_from :: "(string \<times> u32) list \<Rightarrow> breakdown \<Rightarrow> breakdown" where
  "merge_from other b =
     fold (\<lambda>(reason, n) b.
       if n = 0 then b else AList.update reason (count_of b reason + n) b) other b"

definition breakdown_total :: "breakdown \<Rightarrow> u32" where
  "breakdown_total b = sum_list (map snd b)"

definition breakdown_is_empty :: "breakdown \<Rightarrow> bool" where
  "breakdown_is_empty b \<longleftrightarrow> list_all (\<lambda>p. snd p = 0) b"

text \<open>
  \<open>max_by\<close> keeps the later element unless the earlier compares greater. The comparator orders by
  count, and by the reversed name where counts agree.
\<close>

definition dominates :: "string \<times> u32 \<Rightarrow> string \<times> u32 \<Rightarrow> bool" where
  "dominates p q \<longleftrightarrow> snd q < snd p \<or> (snd p = snd q \<and> fst p < fst q)"

definition max_step :: "(string \<times> u32) option \<Rightarrow> string \<times> u32 \<Rightarrow> (string \<times> u32) option" where
  "max_step acc q = (case acc of None \<Rightarrow> Some q | Some p \<Rightarrow> if dominates p q then Some p else Some q)"

definition dominant_reason :: "breakdown \<Rightarrow> (string \<times> u32) option" where
  "dominant_reason b = foldl max_step None (filter (\<lambda>p. 0 < snd p) b)"

subsection \<open>Recording\<close>

lemma count_of_record_many:
  "count_of (record_many r c b) s = (if r = s then count_of b s + c else count_of b s)"
  by (simp add: record_many_def count_of_def update_conv)

lemma record_many_ok [intro]: "breakdown_ok b \<Longrightarrow> breakdown_ok (record_many r c b)"
  by (simp add: breakdown_ok_def record_many_def distinct_update)

lemmas recording =
  count_of_record_many record_many_u32_def record_reason_def

lemma merge_from_fold: "merge_from other b = fold (\<lambda>(r, c). record_many r c) other b"
  unfolding merge_from_def record_many_def by (rule fold_cong) auto

lemma merge_from_ok: "breakdown_ok b \<Longrightarrow> breakdown_ok (merge_from other b)"
  by (induction other arbitrary: b) (auto simp: merge_from_fold)

text \<open>Merging adds, count by count, whatever the order in which the other map is visited.\<close>

lemma count_of_fold:
  "count_of (fold (\<lambda>(r, c). record_many r c) other b) s =
     count_of b s + sum_list (map snd (filter (\<lambda>p. fst p = s) other))"
  by (induction other arbitrary: b) (auto simp: count_of_record_many)

lemma sum_filter_map_of:
  "distinct (map fst xs) \<Longrightarrow>
     sum_list (map snd (filter (\<lambda>p. fst p = s) xs)) = (case map_of xs s of None \<Rightarrow> 0 | Some c \<Rightarrow> c)"
  for xs :: "(string \<times> u32) list"
proof (induction xs)
  case (Cons p xs)
  show ?case
  proof (cases "fst p = s")
    case True
    with Cons.prems have "filter (\<lambda>p. fst p = s) xs = []"
      by (simp add: filter_empty_conv image_iff) metis
    with True show ?thesis by (cases p) simp
  next
    case False
    with Cons show ?thesis by (cases p) simp
  qed
qed simp

lemma count_of_merge:
  "breakdown_ok other \<Longrightarrow> count_of (merge_from other b) s = count_of b s + count_of other s"
  unfolding merge_from_fold count_of_fold breakdown_ok_def
  by (simp add: sum_filter_map_of count_of_def)

lemma breakdown_is_empty_iff: "breakdown_ok b \<Longrightarrow> breakdown_is_empty b \<longleftrightarrow> (\<forall>r. count_of b r = 0)"
  by (auto simp: breakdown_is_empty_def count_of_def breakdown_ok_def list_all_iff split: option.splits
      dest: map_of_SomeD)

subsection \<open>The dominant reason\<close>

lemma dominates_total: "fst p \<noteq> fst q \<Longrightarrow> dominates p q \<or> dominates q p"
  by (auto simp: dominates_def)

lemma dominates_trans: "dominates p q \<Longrightarrow> dominates q r \<Longrightarrow> dominates p r"
  by (auto simp: dominates_def)

lemma dominates_asym: "dominates p q \<Longrightarrow> \<not> dominates q p"
  by (auto simp: dominates_def)

lemma dominates_irrefl [simp]: "\<not> dominates p p"
  by (simp add: dominates_def)

text \<open>What \<open>max_by\<close> returns: the element that dominates all others.\<close>

definition is_dominant :: "string \<times> u32 \<Rightarrow> (string \<times> u32) set \<Rightarrow> bool" where
  "is_dominant p S \<longleftrightarrow> p \<in> S \<and> (\<forall>q \<in> S. q = p \<or> dominates p q)"

lemma is_dominant_unique: "is_dominant p S \<Longrightarrow> is_dominant q S \<Longrightarrow> p = q"
  unfolding is_dominant_def by (metis dominates_asym)

lemma foldl_max_step:
  assumes "distinct (map fst (p # xs))"
  shows "\<exists>q. foldl max_step (Some p) xs = Some q \<and> is_dominant q (set (p # xs))"
  using assms
proof (induction xs arbitrary: p)
  case Nil
  then show ?case by (simp add: is_dominant_def)
next
  case (Cons x xs)
  let ?p = "if dominates p x then p else x"
  from Cons.prems have "distinct (map fst (?p # xs))" by auto
  from Cons.IH [OF this] obtain q
    where q: "foldl max_step (Some ?p) xs = Some q" "is_dominant q (set (?p # xs))" by blast
  have "fst p \<noteq> fst x" using Cons.prems by auto
  then have "is_dominant q (set (p # x # xs))"
    using q(2) dominates_total [of p x] dominates_trans [of q p x] dominates_trans [of q x p]
    unfolding is_dominant_def by (cases "dominates p x") (fastforce+)
  moreover have "foldl max_step (Some p) (x # xs) = Some q"
    using q(1) by (simp add: max_step_def if_distrib cong: if_cong)
  ultimately show ?case by blast
qed

lemma dominant_reason_characterised:
  assumes "breakdown_ok b"
  shows "case dominant_reason b of
      None \<Rightarrow> breakdown_is_empty b
    | Some p \<Rightarrow> is_dominant p {q \<in> set b. 0 < snd q}"
proof -
  have d: "distinct (map fst (filter (\<lambda>p. 0 < snd p) b))"
    using assms by (simp add: breakdown_ok_def distinct_map_filter)
  show ?thesis
  proof (cases "filter (\<lambda>p. 0 < snd p) b")
    case Nil
    then show ?thesis
      by (simp add: dominant_reason_def breakdown_is_empty_def list_all_iff filter_empty_conv
          word_neq_0_conv [symmetric])
  next
    case (Cons p xs)
    with d foldl_max_step [of p xs] obtain q
      where "foldl max_step (Some p) xs = Some q" "is_dominant q (set (p # xs))" by auto
    moreover have "set (p # xs) = {q \<in> set b. 0 < snd q}"
      using Cons by (metis set_filter)
    ultimately show ?thesis
      using Cons by (simp add: dominant_reason_def max_step_def)
  qed
qed

section \<open>Grouping the reasons\<close>

text \<open>
  The three groups partition the documented reasons: a reason that no group names, or that two
  name, would make the signals of a pass miss rejections or count them twice.
\<close>

lemma reasons_distinct: "distinct all_rejection_reasons"
  unfolding all_rejection_reasons_def reason_defs by simp

lemma groups_partition:
  "mset (gate_side_rejection_reasons @ upstream_rejection_reasons @ abundance_rejection_reasons) =
     mset all_rejection_reasons"
  unfolding gate_side_rejection_reasons_def upstream_rejection_reasons_def
    abundance_rejection_reasons_def all_rejection_reasons_def
  by simp

record starvation_config =
  min_formed_proposals :: u32
  healthy_accept_rate :: f32

record generation_signals =
  gs_accepted :: u32
  gs_gate_side :: u32
  gs_upstream :: u32
  gs_abundance :: u32

definition reaching_gate :: "generation_signals \<Rightarrow> u32" where
  "reaching_gate s = sat_add (gs_accepted s) (gs_gate_side s)"

definition proposals_formed :: "generation_signals \<Rightarrow> u32" where
  "proposals_formed s = sat_add (reaching_gate s) (gs_abundance s)"

definition group_sum :: "breakdown \<Rightarrow> string list \<Rightarrow> u32" where
  "group_sum b grp = foldl sat_add 0 (map (count_of b) grp)"

definition signals_from_breakdown :: "breakdown \<Rightarrow> u32 \<Rightarrow> generation_signals" where
  "signals_from_breakdown b accepted =
     \<lparr>gs_accepted = accepted,
      gs_gate_side = group_sum b gate_side_rejection_reasons,
      gs_upstream = group_sum b upstream_rejection_reasons,
      gs_abundance = group_sum b abundance_rejection_reasons\<rparr>"

datatype starvation_class = Healthy | Candidate_Starved | Proposal_Rich_Over_Rejected

text \<open>
  \<open>rate_ge a n r\<close> stands for \<open>f64::from(a) / f64::from(n) >= f64::from(r)\<close>: double-precision
  division is the hardware's.
\<close>

definition classify ::
  "(u32 \<Rightarrow> u32 \<Rightarrow> f32 \<Rightarrow> bool) \<Rightarrow> generation_signals \<Rightarrow> starvation_config \<Rightarrow> starvation_class" where
  "classify rate_ge s cfg =
     (if 0 < gs_accepted s \<and> 0 < reaching_gate s
         \<and> rate_ge (gs_accepted s) (reaching_gate s) (healthy_accept_rate cfg) then Healthy
      else if proposals_formed s < gs_upstream s then Candidate_Starved
      else if min_formed_proposals cfg \<le> proposals_formed s then Proposal_Rich_Over_Rejected
      else Candidate_Starved)"

definition recommend_widening :: "starvation_class \<Rightarrow> bool" where
  "recommend_widening c \<longleftrightarrow> c = Candidate_Starved"

definition gate_escalation :: "bool \<Rightarrow> starvation_class \<Rightarrow> bool" where
  "gate_escalation engaged c \<longleftrightarrow> engaged \<and> recommend_widening c"

lemma unat_foldl_sat_add:
  "unat (foldl sat_add a xs) = min (unat a + (\<Sum>x\<leftarrow>xs. unat x)) (2 ^ LENGTH('a) - 1)"
  for a :: "'a::len word"
proof (induction xs arbitrary: a)
  case Nil
  then show ?case using unat_le_max [of a] by simp
next
  case (Cons x xs)
  then show ?case by (simp add: unat_sat_add min_def) linarith
qed

lemma unat_group_sum: "unat (group_sum b grp) = min (\<Sum>r\<leftarrow>grp. unat (count_of b r)) (2 ^ 32 - 1)"
  by (simp add: group_sum_def unat_foldl_sat_add o_def)

lemma sum_over_keys:
  assumes "distinct (map fst b)" "fst ` set b \<subseteq> set ks" "distinct ks"
  shows "(\<Sum>r\<leftarrow>ks. unat (count_of b r)) = (\<Sum>p\<leftarrow>b. unat (snd p))"
proof -
  have "(\<Sum>r\<leftarrow>ks. unat (count_of b r)) = (\<Sum>r\<in>set ks. unat (count_of b r))"
    using assms(3) by (simp add: sum_list_distinct_conv_sum_set)
  also have "\<dots> = (\<Sum>r\<in>fst ` set b. unat (count_of b r))"
    using assms(2) by (intro sum.mono_neutral_right)
      (auto simp: count_of_def split: option.splits dest: map_of_SomeD intro: rev_image_eqI)
  also have "\<dots> = (\<Sum>p\<in>set b. unat (count_of b (fst p)))"
    using assms(1) by (simp add: sum.reindex distinct_map)
  also have "\<dots> = (\<Sum>p\<in>set b. unat (snd p))"
    using assms(1) by (intro sum.cong) (auto simp: count_of_def)
  also have "\<dots> = (\<Sum>p\<leftarrow>b. unat (snd p))"
    using assms(1) by (simp add: sum_list_distinct_conv_sum_set distinct_map)
  finally show ?thesis .
qed

section \<open>The candidate ledger\<close>

text \<open>
  Both counters are atomics that \<open>fetch_add\<close> increments, so they wrap; only the increment is
  clamped. Increments from concurrent workers commute.
\<close>

record ledger =
  lg_considered :: u32
  lg_accounted :: u32

definition ledger_new :: ledger where
  "ledger_new = \<lparr>lg_considered = 0, lg_accounted = 0\<rparr>"

definition add_saturating :: "u32 \<Rightarrow> nat \<Rightarrow> u32" where
  "add_saturating c n = (if n = 0 then c else c + clamp_word n)"

definition record_considered :: "nat \<Rightarrow> ledger \<Rightarrow> ledger" where
  "record_considered n l = l\<lparr>lg_considered := add_saturating (lg_considered l) n\<rparr>"

definition record_accounted :: "nat \<Rightarrow> ledger \<Rightarrow> ledger" where
  "record_accounted n l = l\<lparr>lg_accounted := add_saturating (lg_accounted l) n\<rparr>"

record reconciliation =
  rc_surface :: string
  rc_considered :: u32
  rc_accounted :: u32
  rc_unaccounted :: u32
  rc_over_accounted :: u32

definition surface_neuron :: string where "surface_neuron = ''neuron''"
definition surface_synapse :: string where "surface_synapse = ''synapse''"

definition reconciliation_new :: "string \<Rightarrow> u32 \<Rightarrow> u32 \<Rightarrow> reconciliation" where
  "reconciliation_new surface considered accounted =
     \<lparr>rc_surface = surface, rc_considered = considered, rc_accounted = accounted,
      rc_unaccounted = sat_sub considered accounted,
      rc_over_accounted = sat_sub accounted considered\<rparr>"

definition balanced :: "reconciliation \<Rightarrow> bool" where
  "balanced r \<longleftrightarrow> rc_unaccounted r = 0 \<and> rc_over_accounted r = 0"

definition signed_delta :: "reconciliation \<Rightarrow> int" where
  "signed_delta r = uint (rc_accounted r) - uint (rc_considered r)"

text \<open>
  The strict-mode override: a forced value wins over the environment, and a guard restores what
  it found. \<open>debug\<close> says whether debug assertions are compiled in; a tripped one is \<open>Inl\<close>, with
  the breakdown entry already recorded.
\<close>

definition strict_from_env :: u8 where "strict_from_env = 0"
definition strict_forced_off :: u8 where "strict_forced_off = 1"
definition strict_forced_on :: u8 where "strict_forced_on = 2"

definition strict_mode :: "bool \<Rightarrow> u8 \<Rightarrow> bool" where
  "strict_mode env override =
     (if override = strict_forced_on then True
      else if override = strict_forced_off then False else env)"

definition set_strict_mode_override :: "bool option \<Rightarrow> u8" where
  "set_strict_mode_override forced =
     (case forced of Some True \<Rightarrow> strict_forced_on | Some False \<Rightarrow> strict_forced_off
      | None \<Rightarrow> strict_from_env)"

text \<open>The guard's \<open>(previous, new override)\<close>; dropping it stores the previous value back.\<close>

definition strict_guard_new :: "bool \<Rightarrow> u8 \<Rightarrow> u8 \<times> u8" where
  "strict_guard_new strict override = (override, set_strict_mode_override (Some strict))"

definition reconcile ::
  "bool \<Rightarrow> bool \<Rightarrow> string \<Rightarrow> ledger \<Rightarrow> breakdown \<Rightarrow> (reconciliation + reconciliation) \<times> breakdown" where
  "reconcile debug strict surface l b =
     (let r = reconciliation_new surface (lg_considered l) (lg_accounted l);
          b' = (if balanced r then b else record_many_u32 rejection_unaccounted_drop (rc_unaccounted r) b)
      in if strict \<and> debug \<and> \<not> balanced r then (Inl r, b') else (Inr r, b'))"

lemma balanced_new: "balanced (reconciliation_new s c a) \<longleftrightarrow> c = a"
  by (auto simp: balanced_def reconciliation_new_def sat_sub_def split: if_splits)

lemma strict_mode_forced [simp]:
  "strict_mode env (set_strict_mode_override (Some s)) = s"
  "strict_mode env (set_strict_mode_override None) = env"
  by (cases s; simp add: strict_mode_def set_strict_mode_override_def strict_forced_on_def
        strict_forced_off_def strict_from_env_def)+

lemma add_saturating_word: "n < 2 ^ 32 \<Longrightarrow> add_saturating c n = c + word_of_nat n"
  by (simp add: add_saturating_def clamp_word_def)

text \<open>A surface's pass: batches enter disposition and verdicts are recorded, in any order.\<close>

datatype ledger_event = Considered nat | Accounted nat

fun ledger_step :: "ledger \<Rightarrow> ledger_event \<Rightarrow> ledger" where
  "ledger_step l (Considered n) = record_considered n l"
| "ledger_step l (Accounted n) = record_accounted n l"

fun considered_in :: "ledger_event list \<Rightarrow> nat" where
  "considered_in [] = 0"
| "considered_in (Considered n # es) = n + considered_in es"
| "considered_in (Accounted n # es) = considered_in es"

fun accounted_in :: "ledger_event list \<Rightarrow> nat" where
  "accounted_in [] = 0"
| "accounted_in (Accounted n # es) = n + accounted_in es"
| "accounted_in (Considered n # es) = accounted_in es"

lemma ledger_run:
  assumes "considered_in es < 2 ^ 32" "accounted_in es < 2 ^ 32"
  shows "foldl ledger_step l es =
    \<lparr>lg_considered = lg_considered l + word_of_nat (considered_in es),
     lg_accounted = lg_accounted l + word_of_nat (accounted_in es)\<rparr>"
  using assms
proof (induction es arbitrary: l)
  case (Cons e es)
  then show ?case
    by (cases e) (simp_all add: record_considered_def record_accounted_def add_saturating_word ac_simps)
qed simp

section \<open>Suppression by the failure cache\<close>

record failure_cache_entry =
  fc_change_type :: string
  fc_expected_error_reduction :: f32
  fc_actual_error_reduction :: f32
  fc_target_squash :: "string option"
  fc_variant_key :: "string option"
  fc_target_uuid :: "string option"
  fc_improved_count :: "u32 option"
  fc_total_count :: "u32 option"
  fc_age_epochs :: "u32 option"

record candidate_identity =
  ci_change_type :: string
  ci_target_uuid :: "string option"
  ci_target_squash :: "string option"

definition failure_cache_max_age_epochs :: u32 where "failure_cache_max_age_epochs = 20"
definition wildcard_failure_cache_max_age_epochs :: u32 where
  "wildcard_failure_cache_max_age_epochs = 5"

definition entry_is_expired :: "failure_cache_entry \<Rightarrow> bool" where
  "entry_is_expired e =
     (case fc_age_epochs e of None \<Rightarrow> False | Some age \<Rightarrow> failure_cache_max_age_epochs \<le> age)"

definition wildcard_reach_active :: "failure_cache_entry \<Rightarrow> bool" where
  "wildcard_reach_active e =
     (case fc_age_epochs e of None \<Rightarrow> False | Some age \<Rightarrow> age < wildcard_failure_cache_max_age_epochs)"

definition field_matches :: "string option \<Rightarrow> string option \<Rightarrow> failure_cache_entry \<Rightarrow> bool" where
  "field_matches entry_field candidate_field e =
     (case entry_field of
        Some v \<Rightarrow> candidate_field = Some v
      | None \<Rightarrow> candidate_field = None \<or> wildcard_reach_active e)"

definition entry_matches :: "failure_cache_entry \<Rightarrow> candidate_identity \<Rightarrow> bool" where
  "entry_matches e c \<longleftrightarrow>
     fc_change_type e = ci_change_type c \<and> \<not> entry_is_expired e
     \<and> field_matches (fc_target_uuid e) (ci_target_uuid c) e
     \<and> field_matches (fc_target_squash e) (ci_target_squash c) e"

definition count_suppressed :: "candidate_identity list \<Rightarrow> failure_cache_entry list \<Rightarrow> nat" where
  "count_suppressed candidates cache =
     (if cache = [] then 0
      else length (filter (\<lambda>c. list_ex (\<lambda>e. entry_matches e c) cache) candidates))"

text \<open>
  An entry without a target or a squash is a wildcard that may reach any candidate, but only
  while it is younger than 5 epochs; one of unknown age reaches nothing but candidates with the
  same gaps. Any entry stops suppressing at 20 epochs.
\<close>

lemma expired_entries_suppress_nothing:
  "list_all entry_is_expired cache \<Longrightarrow> count_suppressed cs cache = 0"
  by (auto simp: count_suppressed_def entry_matches_def list_all_iff list_ex_iff filter_empty_conv)

lemma old_entries_match_exactly:
  "wildcard_failure_cache_max_age_epochs \<le> age \<Longrightarrow> fc_age_epochs e = Some age \<Longrightarrow>
     entry_matches e c \<Longrightarrow>
     fc_target_uuid e = ci_target_uuid c \<and> fc_target_squash e = ci_target_squash c"
  by (auto simp: entry_matches_def field_matches_def wildcard_reach_active_def split: option.splits)

lemma length_filter_implies: "(\<And>x. P x \<Longrightarrow> Q x) \<Longrightarrow> length (filter P xs) \<le> length (filter Q xs)"
  by (induction xs) auto

lemma suppression_is_monotone:
  "set cache \<subseteq> set cache' \<Longrightarrow> count_suppressed cs cache \<le> count_suppressed cs cache'"
  unfolding count_suppressed_def by (auto simp: list_ex_iff intro!: length_filter_implies)

section \<open>Properties\<close>

text \<open>
  The dominant rejection reason of a pass does not depend on the iteration order of the hash map
  that holds the counts, although \<open>max_by\<close> keeps a later element on a tie: whatever order the
  same counts come in, the result is the same, it has the greatest count, and among equal counts
  the smallest name.
\<close>

theorem dominant_reason_deterministic:
  assumes "breakdown_ok b" "mset b' = mset b"
  shows "dominant_reason b' = dominant_reason b
    \<and> (case dominant_reason b of
         None \<Rightarrow> breakdown_is_empty b
       | Some (r, n) \<Rightarrow> count_of b r = n \<and> 0 < n
           \<and> list_all (\<lambda>(s, m). m < n \<or> (m = n \<and> (s = r \<or> r < s))) b)"
proof -
  have ok': "breakdown_ok b'"
    using assms by (metis breakdown_ok_def mset_eq_imp_distinct_iff mset_map)
  have sets: "set b' = set b" using assms(2) by (metis set_mset_mset)
  have "dominant_reason b' = dominant_reason b"
  proof (cases "breakdown_is_empty b")
    case True
    then have "filter (\<lambda>p. 0 < snd p) b = []" "filter (\<lambda>p. 0 < snd p) b' = []"
      using sets by (auto simp: breakdown_is_empty_def list_all_iff filter_empty_conv)
    then show ?thesis by (simp add: dominant_reason_def)
  next
    case False
    then have "\<not> breakdown_is_empty b'" using sets by (simp add: breakdown_is_empty_def list_all_iff)
    with False obtain p q where "dominant_reason b = Some p" "dominant_reason b' = Some q"
      using dominant_reason_characterised [OF assms(1)] dominant_reason_characterised [OF ok']
      by (auto split: option.splits)
    then show ?thesis
      using dominant_reason_characterised [OF assms(1)] dominant_reason_characterised [OF ok'] sets
      by (simp add: is_dominant_unique)
  qed
  moreover have "case dominant_reason b of
         None \<Rightarrow> breakdown_is_empty b
       | Some (r, n) \<Rightarrow> count_of b r = n \<and> 0 < n
           \<and> list_all (\<lambda>(s, m). m < n \<or> (m = n \<and> (s = r \<or> r < s))) b"
  proof (cases "dominant_reason b")
    case None
    then show ?thesis using dominant_reason_characterised [OF assms(1)] by simp
  next
    case (Some p)
    then have "is_dominant p {q \<in> set b. 0 < snd q}"
      using dominant_reason_characterised [OF assms(1)] by simp
    then have p: "p \<in> set b" "0 < snd p" "\<forall>q \<in> set b. 0 < snd q \<longrightarrow> q = p \<or> dominates p q"
      unfolding is_dominant_def by blast+
    have "snd q < snd p \<or> (snd q = snd p \<and> (fst q = fst p \<or> fst p < fst q))" if "q \<in> set b" for q
      using p(2,3) that by (cases "snd q = 0") (auto simp: dominates_def word_neq_0_conv [symmetric])
    then show ?thesis
      using Some p(1,2) assms(1)
      by (cases p) (simp add: count_of_def breakdown_ok_def list_all_iff, fastforce)
  qed
  ultimately show ?thesis by blast
qed

theorem dominant_reason_deterministic_witness:
  "dominant_reason [(''b'', 2), (''a'', 2), (''c'', 1)] = dominant_reason [(''c'', 1), (''a'', 2), (''b'', 2)]"
  using dominant_reason_deterministic
    [of "[(''c'', 1), (''a'', 2), (''b'', 2)]" "[(''b'', 2), (''a'', 2), (''c'', 1)]"]
  by (simp add: breakdown_ok_def)

text \<open>
  Every documented rejection is counted in exactly one signal: when the breakdown holds only
  documented reasons and fewer than \<open>2 ^ 32\<close> rejections, the gate-side, upstream and abundance
  signals add up to the total: none is missed and none is counted twice.
\<close>

theorem signals_account_for_every_rejection:
  assumes "breakdown_ok b" "fst ` set b \<subseteq> set all_rejection_reasons"
    and "(\<Sum>p\<leftarrow>b. unat (snd p)) < 2 ^ 32"
  shows "unat (gs_gate_side (signals_from_breakdown b acc))
       + unat (gs_upstream (signals_from_breakdown b acc))
       + unat (gs_abundance (signals_from_breakdown b acc)) = unat (breakdown_total b)"
proof -
  let ?s = "\<lambda>grp. \<Sum>r\<leftarrow>grp. unat (count_of b r)"
  have "?s (gate_side_rejection_reasons @ upstream_rejection_reasons @ abundance_rejection_reasons)
      = ?s all_rejection_reasons"
    using arg_cong [OF groups_partition, of "\<lambda>M. sum_mset (image_mset (\<lambda>r. unat (count_of b r)) M)"]
    by (simp only: mset_map [symmetric] sum_mset_sum_list)
  also have "\<dots> = (\<Sum>p\<leftarrow>b. unat (snd p))"
    using assms(1,2) by (intro sum_over_keys reasons_distinct) (simp_all add: breakdown_ok_def)
  finally have sum: "?s gate_side_rejection_reasons + ?s upstream_rejection_reasons
      + ?s abundance_rejection_reasons = (\<Sum>p\<leftarrow>b. unat (snd p))" by simp
  have "unat (breakdown_total b) = (\<Sum>p\<leftarrow>b. unat (snd p))"
    using assms(3) unfolding breakdown_total_def
    by (induction b) (simp_all add: unat_word_ariths)
  with sum assms(3) show ?thesis
    by (simp add: signals_from_breakdown_def unat_group_sum min_def)
qed

theorem signals_account_for_every_rejection_witness:
  "unat (gs_gate_side (signals_from_breakdown [(''no_samples'', 3), (''per_target_cap'', 4)] 0))
   + unat (gs_upstream (signals_from_breakdown [(''no_samples'', 3), (''per_target_cap'', 4)] 0))
   + unat (gs_abundance (signals_from_breakdown [(''no_samples'', 3), (''per_target_cap'', 4)] 0)) = 7"
proof -
  let ?b = "[(''no_samples'', 3), (''per_target_cap'', 4)] :: breakdown"
  have ok: "breakdown_ok ?b" by (simp add: breakdown_ok_def)
  have keys: "fst ` set ?b \<subseteq> set all_rejection_reasons"
    unfolding all_rejection_reasons_def reason_defs by simp
  have bound: "(\<Sum>p\<leftarrow>?b. unat (snd p)) < 2 ^ 32" by simp
  have "unat (breakdown_total ?b) = 7" by (simp add: breakdown_total_def)
  then show ?thesis
    using signals_account_for_every_rejection [OF ok keys bound, of 0] by (rule trans [rotated])
qed

text \<open>
  Reconciling a surface is exact while a pass handles fewer than \<open>2 ^ 32\<close> candidates: whatever
  the interleaving of the workers' increments, the pass is balanced if and only if as many
  verdicts were recorded as candidates entered. A balanced pass leaves the breakdown alone, an
  unbalanced one adds exactly the missing verdicts under \<open>unaccounted_drop\<close>, and only a debug
  build in strict mode stops on it.
\<close>

theorem reconciliation_exact:
  assumes "considered_in es < 2 ^ 32" "accounted_in es < 2 ^ 32"
    and "reconcile debug strict surface (foldl ledger_step ledger_new es) b = (outcome, b')"
  shows "(if considered_in es = accounted_in es then is_ok outcome \<and> b' = b
      else is_ok outcome = (\<not> (debug \<and> strict))
        \<and> count_of b' rejection_unaccounted_drop
           = count_of b rejection_unaccounted_drop + word_of_nat (considered_in es - accounted_in es))
    \<and> (case outcome of Inl r \<Rightarrow> signed_delta r | Inr r \<Rightarrow> signed_delta r)
        = int (accounted_in es) - int (considered_in es)"
proof -
  let ?l = "foldl ledger_step ledger_new es"
  let ?r = "reconciliation_new surface (lg_considered ?l) (lg_accounted ?l)"
  have l: "unat (lg_considered ?l) = considered_in es" "unat (lg_accounted ?l) = accounted_in es"
    using assms(1,2) by (simp_all add: ledger_run ledger_new_def unat_of_nat take_bit_nat_eq_self)
  have bal: "balanced ?r \<longleftrightarrow> considered_in es = accounted_in es"
    unfolding balanced_new using l by (metis word_unat_eq_iff)
  have un: "rc_unaccounted ?r = word_of_nat (considered_in es - accounted_in es)"
    using l assms(1) by (intro word_unat_eq_iff [THEN iffD2])
      (simp add: reconciliation_new_def unat_sat_sub unat_of_nat take_bit_nat_eq_self)
  have delta: "signed_delta ?r = int (accounted_in es) - int (considered_in es)"
    using l by (simp add: signed_delta_def reconciliation_new_def uint_nat)
  show ?thesis
    using assms(3) bal un delta
    by (auto simp: reconcile_def Let_def recording split: if_splits)
qed

theorem reconciliation_exact_witness:
  "count_of (snd (reconcile False True surface_neuron
      (foldl ledger_step ledger_new [Considered 5, Accounted 3]) [])) rejection_unaccounted_drop = 2"
proof -
  obtain out b' where r: "reconcile False True surface_neuron
      (foldl ledger_step ledger_new [Considered 5, Accounted 3]) [] = (out, b')" by fastforce
  show ?thesis
    using reconciliation_exact [OF _ _ r] unfolding r by (simp add: count_of_def)
qed

text \<open>
  The counters themselves wrap: a surface that considered \<open>2 ^ 32\<close> candidates in two batches and
  recorded no verdict reconciles as balanced.
\<close>

lemma ledger_wraps:
  "balanced (case reconcile debug strict surface
     (foldl ledger_step ledger_new [Considered (2 ^ 31), Considered (2 ^ 31)]) b of
       (Inl r, _) \<Rightarrow> r | (Inr r, _) \<Rightarrow> r)"
  by (simp add: ledger_new_def record_considered_def add_saturating_def clamp_word_def
      reconcile_def balanced_new)

end
