(* ===== verification/Floats.thy ===== *)
theory Floats
  imports Prelude
begin

text \<open>
  The comparisons of \<open>f32\<close> that the sources use, on the IEEE-754 bit pattern: the partial order
  behind \<open><\<close>, \<open>>=\<close> and \<open>>\<close>, and the total order of \<open>f32::total_cmp\<close>, which the sources
  sort candidates by. Arithmetic on floats is a parameter of the models that need it.
\<close>

section \<open>Classification\<close>

definition f32_mantissa :: "f32 \<Rightarrow> u32" where
  "f32_mantissa x = x AND 0x7FFFFF"

definition f32_magnitude :: "f32 \<Rightarrow> u32" where
  "f32_magnitude x = x AND 0x7FFFFFFF"

definition f32_negative :: "f32 \<Rightarrow> bool" where
  "f32_negative x \<longleftrightarrow> bit x 31"

definition f32_is_nan :: "f32 \<Rightarrow> bool" where
  "f32_is_nan x \<longleftrightarrow> 0x7F800000 < f32_magnitude x"

definition f32_is_zero :: "f32 \<Rightarrow> bool" where
  "f32_is_zero x \<longleftrightarrow> f32_magnitude x = 0"

section \<open>The partial order of the comparison operators\<close>

text \<open>
  The rank of a value that is no NaN: its magnitude, negated by the sign. The two zeros share
  rank 0, which is why they compare equal.
\<close>

definition f32_rank :: "f32 \<Rightarrow> int" where
  "f32_rank x = (if f32_negative x then - uint (f32_magnitude x) else uint (f32_magnitude x))"

definition f32_less :: "f32 \<Rightarrow> f32 \<Rightarrow> bool" where
  "f32_less a b \<longleftrightarrow> \<not> f32_is_nan a \<and> \<not> f32_is_nan b \<and> f32_rank a < f32_rank b"

definition f32_greater_eq :: "f32 \<Rightarrow> f32 \<Rightarrow> bool" where
  "f32_greater_eq a b \<longleftrightarrow> \<not> f32_is_nan a \<and> \<not> f32_is_nan b \<and> f32_rank b \<le> f32_rank a"

definition f32_positive :: "f32 \<Rightarrow> bool" where
  "f32_positive x \<longleftrightarrow> f32_less f32_zero x"

definition f32_one :: f32 where "f32_one = 0x3F800000"

lemma f32_zero_rank [simp]: "f32_rank f32_zero = 0" "\<not> f32_is_nan f32_zero"
  by (simp_all add: f32_rank_def f32_zero_def f32_magnitude_def f32_is_nan_def)

lemma f32_nan_unordered [simp]:
  "f32_is_nan a \<Longrightarrow> \<not> f32_less a b" "f32_is_nan b \<Longrightarrow> \<not> f32_less a b"
  "f32_is_nan a \<Longrightarrow> \<not> f32_greater_eq a b" "f32_is_nan b \<Longrightarrow> \<not> f32_greater_eq a b"
  by (simp_all add: f32_less_def f32_greater_eq_def)

lemma f32_not_less_iff:
  "\<not> f32_is_nan a \<Longrightarrow> \<not> f32_is_nan b \<Longrightarrow> \<not> f32_less a b \<longleftrightarrow> f32_greater_eq a b"
  by (auto simp: f32_less_def f32_greater_eq_def)

lemma f32_less_trans: "f32_less a b \<Longrightarrow> f32_less b c \<Longrightarrow> f32_less a c"
  by (simp add: f32_less_def)

lemma f32_less_greater_eq_trans: "f32_less a b \<Longrightarrow> f32_greater_eq c b \<Longrightarrow> f32_less a c"
  by (simp add: f32_less_def f32_greater_eq_def)

section \<open>The total order\<close>

text \<open>
  \<open>f32::total_cmp\<close> compares the bits as signed integers after flipping the magnitude bits of
  negative values: \<open>left ^= (((left >> 31) as u32) >> 1) as i32\<close>.
\<close>

definition total_flip :: "f32 \<Rightarrow> u32" where
  "total_flip x = (if f32_negative x then x XOR 0x7FFFFFFF else x)"

definition total_key :: "f32 \<Rightarrow> int" where
  "total_key x = sint (total_flip x)"

lemma f32_negative_flip: "f32_negative (total_flip x) = f32_negative x"
  by (simp add: total_flip_def f32_negative_def bit_simps bit_numeral_rec)

lemma total_flip_flip [simp]: "total_flip (total_flip x) = x"
proof (cases "f32_negative x")
  case True
  then have "f32_negative (x XOR 0x7FFFFFFF)" using f32_negative_flip [of x]
    by (simp add: total_flip_def)
  then show ?thesis using True by (simp add: total_flip_def xor.assoc)
qed (simp add: total_flip_def)

lemma total_key_inject [simp]: "total_key a = total_key b \<longleftrightarrow> a = b"
proof
  assume "total_key a = total_key b"
  then have "total_flip a = total_flip b" unfolding total_key_def by (rule signed_word_eqI)
  then show "a = b" by (metis total_flip_flip)
qed simp

lemma magnitude_take_bit: "f32_magnitude x = take_bit 31 x"
  by (simp add: f32_magnitude_def take_bit_eq_mask mask_numeral)

lemma sint_split_sign:
  "sint x = uint (f32_magnitude x) - (if f32_negative x then 2 ^ 31 else 0)"
proof -
  have "take_bit 32 (uint x) = uint x"
    by (rule take_bit_int_eq_self) (use uint_lt2p [of x] in simp_all)
  moreover have "take_bit (Suc 31) (uint x) = uint (f32_magnitude x) + 2 ^ 31 * of_bool (f32_negative x)"
    unfolding take_bit_Suc_from_most
    by (simp add: magnitude_take_bit unsigned_take_bit_eq bit_unsigned_iff f32_negative_def)
  moreover have "sint x = take_bit (Suc 31) (uint x) - 2 ^ Suc 31 * of_bool (f32_negative x)"
    by (simp add: sint_uint signed_take_bit_eq_take_bit_minus bit_unsigned_iff f32_negative_def)
  ultimately show ?thesis by simp
qed

lemma magnitude_flip:
  assumes "f32_negative x"
  shows "uint (f32_magnitude (total_flip x)) = 2 ^ 31 - 1 - uint (f32_magnitude x)"
proof -
  have "total_flip x = x XOR mask 31"
    using assms by (simp add: total_flip_def mask_numeral)
  then have "f32_magnitude (total_flip x) = take_bit 31 (NOT x)"
    unfolding magnitude_take_bit by (intro bit_word_eqI) (auto simp: bit_simps)
  also have "\<dots> = mask 31 - f32_magnitude x"
    by (simp add: magnitude_take_bit take_bit_not_eq_mask_diff)
  moreover have "f32_magnitude x \<le> mask 31"
    by (simp add: f32_magnitude_def mask_numeral word_and_le1)
  ultimately show ?thesis
    by (simp add: uint_sub_lem [THEN iffD1] word_le_def mask_numeral)
qed

lemma total_key_rank:
  "total_key x = (if f32_negative x then - 1 - uint (f32_magnitude x) else uint (f32_magnitude x))"
  by (simp add: total_key_def sint_split_sign f32_negative_flip magnitude_flip)
    (simp add: total_flip_def)

text \<open>On the values that compare, the total order extends the partial one.\<close>

lemma f32_less_total_key: "f32_less a b \<Longrightarrow> total_key a < total_key b"
  by (auto simp: f32_less_def f32_rank_def total_key_rank split: if_splits
      dest: order.strict_trans1 [OF unsigned_greater_eq])

text \<open>
  \<open>candidates.sort_by(|a, b| b.gain.total_cmp(&a.gain))\<close> is a stable sort by the reversed total
  order. The key type carries that order, so that the library's stable \<open>sort_key\<close> is the sort
  of the code.
\<close>

datatype descending = Descending (descending_bits: f32)

instantiation descending :: linorder
begin

definition less_eq_descending :: "descending \<Rightarrow> descending \<Rightarrow> bool" where
  "less_eq_descending a b \<longleftrightarrow> total_key (descending_bits b) \<le> total_key (descending_bits a)"

definition less_descending :: "descending \<Rightarrow> descending \<Rightarrow> bool" where
  "less_descending a b \<longleftrightarrow> total_key (descending_bits b) < total_key (descending_bits a)"

instance
  by standard
    (auto simp: less_eq_descending_def less_descending_def intro: descending.expand)

end

lemmas descending_defs = less_eq_descending_def less_descending_def

section \<open>Double precision\<close>

text \<open>The same partial order on the bit patterns of \<open>f64\<close>.\<close>

type_synonym f64 = "64 word"

definition f64_one :: f64 where "f64_one = 0x3FF0000000000000"

definition f64_magnitude :: "f64 \<Rightarrow> u64" where
  "f64_magnitude x = x AND 0x7FFFFFFFFFFFFFFF"

definition f64_is_finite :: "f64 \<Rightarrow> bool" where
  "f64_is_finite x \<longleftrightarrow> f64_magnitude x < 0x7FF0000000000000"

definition f64_is_zero :: "f64 \<Rightarrow> bool" where
  "f64_is_zero x \<longleftrightarrow> f64_magnitude x = 0"

definition f64_rank :: "f64 \<Rightarrow> int" where
  "f64_rank x = (if bit x 63 then - uint (f64_magnitude x) else uint (f64_magnitude x))"

definition f64_less :: "f64 \<Rightarrow> f64 \<Rightarrow> bool" where
  "f64_less a b \<longleftrightarrow> f64_magnitude a \<le> 0x7FF0000000000000 \<and> f64_magnitude b \<le> 0x7FF0000000000000 \<and>
     f64_rank a < f64_rank b"

definition f64_less_eq :: "f64 \<Rightarrow> f64 \<Rightarrow> bool" where
  "f64_less_eq a b \<longleftrightarrow> f64_magnitude a \<le> 0x7FF0000000000000 \<and> f64_magnitude b \<le> 0x7FF0000000000000 \<and>
     f64_rank a \<le> f64_rank b"

end
