(* ===== verification/Cooldown.thy ===== *)
theory Cooldown
  imports Rejections Floats
begin

text \<open>
  Parking targets that keep failing: the outcome of a pass (\<open>analysis_outcome.rs\<close>), the outcome
  log and its trailing failures (\<open>discovery_mode.rs\<close>), the per-target failure tracker with its
  cooldown windows (\<open>target_failure_tracker.rs\<close>), the merge and flush of a pass's per-target
  outcomes (\<open>target_pass_outcomes.rs\<close>), the within-batch short circuit
  (\<open>within_batch_failures.rs\<close>), the drought diagnostic, alarm and one-shot reset
  (\<open>drought_diagnostic.rs\<close>, \<open>creature_drought_alarm.rs\<close>, \<open>drought_reset.rs\<close>) and the way one pass
  of \<open>analyze_all\<close> drives them.

  The environment overrides of the thresholds are arguments. The tracker is the value behind its
  mutex: the sources recover a poisoned lock, so every locked operation is the operation.
\<close>

section \<open>Outcome of a pass\<close>

datatype disable_reason = Memory_Gated | Memory_Pressure | Gpu_Unavailable | Gpu_Wedged

datatype analysis_outcome =
    Completed nat
  | Environmentally_Disabled disable_reason

definition from_pass_flags :: "bool \<Rightarrow> bool \<Rightarrow> nat \<Rightarrow> analysis_outcome" where
  "from_pass_flags budget_exceeded pressure_cancelled candidates =
     (if budget_exceeded then Environmentally_Disabled Memory_Gated
      else if pressure_cancelled then Environmentally_Disabled Memory_Pressure
      else Completed candidates)"

definition outcome_from_result :: "bool \<Rightarrow> bool \<Rightarrow> bool \<Rightarrow> nat \<Rightarrow> analysis_outcome" where
  "outcome_from_result wedged budget_exceeded pressure_cancelled candidates =
     (if wedged then Environmentally_Disabled Gpu_Wedged
      else from_pass_flags budget_exceeded pressure_cancelled candidates)"

fun is_environmentally_disabled :: "analysis_outcome \<Rightarrow> bool" where
  "is_environmentally_disabled (Environmentally_Disabled r) = True"
| "is_environmentally_disabled (Completed n) = False"

fun is_genuinely_empty :: "analysis_outcome \<Rightarrow> bool" where
  "is_genuinely_empty (Completed n) = (n = 0)"
| "is_genuinely_empty (Environmentally_Disabled r) = False"

fun is_productive :: "analysis_outcome \<Rightarrow> bool" where
  "is_productive (Completed n) = (0 < n)"
| "is_productive (Environmentally_Disabled r) = False"

fun disable_reason_of :: "analysis_outcome \<Rightarrow> disable_reason option" where
  "disable_reason_of (Environmentally_Disabled r) = Some r"
| "disable_reason_of (Completed n) = None"

record pass_outcome_counts =
  pc_productive :: u32
  pc_genuinely_empty :: u32
  pc_environmentally_disabled :: u32

definition counts_record :: "analysis_outcome \<Rightarrow> pass_outcome_counts \<Rightarrow> pass_outcome_counts" where
  "counts_record outcome c = (case outcome of
      Completed n \<Rightarrow> if 0 < n then c\<lparr>pc_productive := sat_add (pc_productive c) 1\<rparr>
        else c\<lparr>pc_genuinely_empty := sat_add (pc_genuinely_empty c) 1\<rparr>
    | Environmentally_Disabled _ \<Rightarrow>
        c\<lparr>pc_environmentally_disabled := sat_add (pc_environmentally_disabled c) 1\<rparr>)"

definition counts_total :: "pass_outcome_counts \<Rightarrow> u32" where
  "counts_total c =
     sat_add (sat_add (pc_productive c) (pc_genuinely_empty c)) (pc_environmentally_disabled c)"

text \<open>Exactly one of the three classes holds of an outcome.\<close>

lemma outcome_classes:
  "is_productive x = (\<not> is_genuinely_empty x \<and> \<not> is_environmentally_disabled x)"
  "is_environmentally_disabled x \<longleftrightarrow> disable_reason_of x \<noteq> None"
  by (cases x; simp)+

section \<open>The outcome log\<close>

datatype discovery_mode = Normal | Conservative

record outcome_log =
  ol_outcomes :: "bool list"
  ol_environmentally_disabled :: u32

definition log_record_outcome :: "analysis_outcome \<Rightarrow> outcome_log \<Rightarrow> outcome_log" where
  "log_record_outcome outcome l = (case outcome of
      Completed n \<Rightarrow> l\<lparr>ol_outcomes := ol_outcomes l @ [0 < n]\<rparr>
    | Environmentally_Disabled _ \<Rightarrow>
        l\<lparr>ol_environmentally_disabled := sat_add (ol_environmentally_disabled l) 1\<rparr>)"

definition genuinely_empty_passes :: "outcome_log \<Rightarrow> nat" where
  "genuinely_empty_passes l = length (filter (\<lambda>ok. \<not> ok) (ol_outcomes l))"

text \<open>The loop over the reversed outcomes, with its early exit.\<close>

fun trailing_loop :: "u32 \<Rightarrow> bool list \<Rightarrow> u32" where
  "trailing_loop n [] = n"
| "trailing_loop n (ok # oks) = (if ok then n else trailing_loop (sat_add n 1) oks)"

definition consecutive_trailing_failures :: "outcome_log \<Rightarrow> u32" where
  "consecutive_trailing_failures l = trailing_loop 0 (rev (ol_outcomes l))"

definition rolling_window :: nat where "rolling_window = 10"

definition log_window :: "outcome_log \<Rightarrow> bool list" where
  "log_window l = drop (length (ol_outcomes l) - rolling_window) (ol_outcomes l)"

record mode_decision =
  md_mode :: discovery_mode
  md_escalation :: bool
  md_streak :: u32
  md_rate :: f32

text \<open>\<open>ratio k n\<close> stands for the single-precision \<open>k as f32 / n as f32\<close>.\<close>

definition rolling_success_rate :: "(nat \<Rightarrow> nat \<Rightarrow> f32) \<Rightarrow> outcome_log \<Rightarrow> f32" where
  "rolling_success_rate ratio l =
     (if ol_outcomes l = [] then f32_one
      else let w = log_window l in ratio (length (filter (\<lambda>ok. ok) w)) (length w))"

definition decide_mode_with_escalation ::
  "(nat \<Rightarrow> nat \<Rightarrow> f32) \<Rightarrow> outcome_log \<Rightarrow> f32 \<Rightarrow> u32 \<Rightarrow> mode_decision" where
  "decide_mode_with_escalation ratio l threshold max_conservative =
     (let rate = rolling_success_rate ratio l;
          streak = consecutive_trailing_failures l;
          low_success = (ol_outcomes l \<noteq> [] \<and> f32_less rate threshold)
      in \<lparr>md_mode = (if low_success \<and> streak \<le> max_conservative then Conservative else Normal),
          md_escalation = low_success, md_streak = streak, md_rate = rate\<rparr>)"

definition decide_mode ::
  "(nat \<Rightarrow> nat \<Rightarrow> f32) \<Rightarrow> outcome_log \<Rightarrow> f32 \<Rightarrow> u32 \<Rightarrow> discovery_mode" where
  "decide_mode ratio l threshold max_conservative =
     md_mode (decide_mode_with_escalation ratio l threshold max_conservative)"

definition is_extended_drought :: "mode_decision \<Rightarrow> bool" where
  "is_extended_drought d \<longleftrightarrow> md_mode d = Normal \<and> md_escalation d"

lemma unat_trailing_loop:
  "unat (trailing_loop n oks) = min (unat n + length (takeWhile (\<lambda>ok. \<not> ok) oks)) (2 ^ 32 - 1)"
proof (induction oks arbitrary: n)
  case Nil
  then show ?case using unat_le_max [of n] by simp
next
  case (Cons ok oks)
  then show ?case using unat_le_max [of n] by (simp add: unat_sat_add min_def)
qed

lemma trailing_failures_exact:
  "unat (consecutive_trailing_failures l) =
     min (length (takeWhile (\<lambda>ok. \<not> ok) (rev (ol_outcomes l)))) (2 ^ 32 - 1)"
  by (simp add: consecutive_trailing_failures_def unat_trailing_loop)

text \<open>
  A pass that the host disabled leaves the streak as it was; a genuinely empty one extends it and
  a productive one ends it.
\<close>

lemma trailing_failures_record:
  "consecutive_trailing_failures (log_record_outcome outcome l) =
     (case outcome of
        Environmentally_Disabled _ \<Rightarrow> consecutive_trailing_failures l
      | Completed n \<Rightarrow> if 0 < n then 0 else trailing_loop 1 (rev (ol_outcomes l)))"
  by (auto simp: log_record_outcome_def consecutive_trailing_failures_def sat_add_def
      split: analysis_outcome.split)

section \<open>The failure tracker\<close>

record target_state =
  ts_consecutive_failures :: u32
  ts_last_failure_epoch :: "u64 option"
  ts_last_improvement_epoch :: "u64 option"

definition target_state_default :: target_state where
  "target_state_default =
     \<lparr>ts_consecutive_failures = 0, ts_last_failure_epoch = None, ts_last_improvement_epoch = None\<rparr>"

record failure_tracker =
  ft_states :: "(string \<times> target_state) list"
  ft_threshold :: u32
  ft_cooldown_epochs :: u64
  ft_current_epoch :: u64
  ft_tombstone :: "u64 option"

definition default_target_cooldown_failures :: u32 where "default_target_cooldown_failures = 3"
definition default_target_cooldown_epochs :: u64 where "default_target_cooldown_epochs = 10"

definition with_thresholds :: "u32 \<Rightarrow> u64 \<Rightarrow> failure_tracker" where
  "with_thresholds failures epochs =
     \<lparr>ft_states = [], ft_threshold = failures, ft_cooldown_epochs = epochs,
      ft_current_epoch = 0, ft_tombstone = None\<rparr>"

definition tracker_new :: "u32 option \<Rightarrow> u64 option \<Rightarrow> failure_tracker" where
  "tracker_new failures_env epochs_env =
     with_thresholds (case failures_env of None \<Rightarrow> default_target_cooldown_failures | Some n \<Rightarrow> n)
       (case epochs_env of None \<Rightarrow> default_target_cooldown_epochs | Some n \<Rightarrow> n)"

definition advance_epoch :: "failure_tracker \<Rightarrow> failure_tracker" where
  "advance_epoch t = t\<lparr>ft_current_epoch := sat_add (ft_current_epoch t) 1\<rparr>"

definition state_entry :: "failure_tracker \<Rightarrow> string \<Rightarrow> target_state" where
  "state_entry t u = (case map_of (ft_states t) u of None \<Rightarrow> target_state_default | Some s \<Rightarrow> s)"

definition record_failure :: "string \<Rightarrow> u64 \<Rightarrow> failure_tracker \<Rightarrow> failure_tracker" where
  "record_failure u epoch t =
     (let entry = state_entry t u in
      t\<lparr>ft_states := AList.update u
          (entry\<lparr>ts_consecutive_failures := sat_add (ts_consecutive_failures entry) 1,
                 ts_last_failure_epoch := Some epoch\<rparr>) (ft_states t)\<rparr>)"

definition record_failure_now :: "string \<Rightarrow> failure_tracker \<Rightarrow> failure_tracker" where
  "record_failure_now u t = record_failure u (ft_current_epoch t) t"

definition record_failure_unless_disabled ::
  "string \<Rightarrow> u64 \<Rightarrow> analysis_outcome \<Rightarrow> failure_tracker \<Rightarrow> bool \<times> failure_tracker" where
  "record_failure_unless_disabled u epoch outcome t =
     (if is_environmentally_disabled outcome then (False, t) else (True, record_failure u epoch t))"

definition record_success :: "string \<Rightarrow> u64 \<Rightarrow> failure_tracker \<Rightarrow> failure_tracker" where
  "record_success u epoch t =
     (let entry = state_entry t u in
      t\<lparr>ft_states := AList.update u
          (entry\<lparr>ts_consecutive_failures := 0, ts_last_improvement_epoch := Some epoch\<rparr>) (ft_states t),
        ft_tombstone := None\<rparr>)"

definition record_success_now :: "string \<Rightarrow> failure_tracker \<Rightarrow> failure_tracker" where
  "record_success_now u t = record_success u (ft_current_epoch t) t"

text \<open>The check of one entry against a trigger and a window.\<close>

definition entry_cooling :: "u32 \<Rightarrow> u64 \<Rightarrow> u64 \<Rightarrow> target_state \<Rightarrow> bool" where
  "entry_cooling threshold window now s =
     (if ts_consecutive_failures s < threshold then False
      else case ts_last_failure_epoch s of
        None \<Rightarrow> False
      | Some epoch \<Rightarrow> now < sat_add epoch window)"

definition is_in_cooldown :: "failure_tracker \<Rightarrow> string \<Rightarrow> u64 \<Rightarrow> bool" where
  "is_in_cooldown t u now =
     (case map_of (ft_states t) u of
        None \<Rightarrow> False
      | Some s \<Rightarrow> entry_cooling (ft_threshold t) (ft_cooldown_epochs t) now s)"

definition is_in_cooldown_now :: "failure_tracker \<Rightarrow> string \<Rightarrow> bool" where
  "is_in_cooldown_now t u = is_in_cooldown t u (ft_current_epoch t)"

definition default_conservative_mode_max_epochs :: u32 where
  "default_conservative_mode_max_epochs = 20"
definition cooldown_epochs_floor :: u64 where "cooldown_epochs_floor = 2"
definition cooldown_divisor_floor :: u64 where "cooldown_divisor_floor = 1"
definition cooldown_divisor_ceiling :: u64 where "cooldown_divisor_ceiling = 64"
definition default_conservative_divisor :: u64 where "default_conservative_divisor = 2"
definition default_extended_drought_divisor :: u64 where "default_extended_drought_divisor = 4"

definition clamp_divisor :: "u64 \<Rightarrow> u64" where
  "clamp_divisor d = min (max d cooldown_divisor_floor) cooldown_divisor_ceiling"

definition cooldown_conservative_divisor :: "u64 option \<Rightarrow> u64" where
  "cooldown_conservative_divisor env =
     clamp_divisor (case env of None \<Rightarrow> default_conservative_divisor | Some d \<Rightarrow> d)"

definition cooldown_extended_drought_divisor :: "u64 option \<Rightarrow> u64" where
  "cooldown_extended_drought_divisor env =
     clamp_divisor (case env of None \<Rightarrow> default_extended_drought_divisor | Some d \<Rightarrow> d)"

text \<open>The two environment overrides of the divisors.\<close>

type_synonym divisor_env = "u64 option \<times> u64 option"

definition effective_cooldown_epochs ::
  "divisor_env \<Rightarrow> failure_tracker \<Rightarrow> discovery_mode \<Rightarrow> u32 \<Rightarrow> u64" where
  "effective_cooldown_epochs env t mode drought =
     (let divisor = max 1
        (if default_conservative_mode_max_epochs \<le> drought
         then cooldown_extended_drought_divisor (snd env)
         else if mode = Conservative then cooldown_conservative_divisor (fst env) else 1)
      in max (ft_cooldown_epochs t div divisor) cooldown_epochs_floor)"

definition effective_consecutive_failures ::
  "failure_tracker \<Rightarrow> discovery_mode \<Rightarrow> u32 \<Rightarrow> u32" where
  "effective_consecutive_failures t mode drought =
     (let bump = (if default_conservative_mode_max_epochs \<le> drought then 2
                  else if mode = Conservative then 1 else 0)
      in sat_add (ft_threshold t) bump)"

definition is_in_cooldown_adaptive ::
  "divisor_env \<Rightarrow> failure_tracker \<Rightarrow> string \<Rightarrow> u64 \<Rightarrow> discovery_mode \<Rightarrow> u32 \<Rightarrow> bool" where
  "is_in_cooldown_adaptive env t u now mode drought =
     (case map_of (ft_states t) u of
        None \<Rightarrow> False
      | Some s \<Rightarrow> entry_cooling (effective_consecutive_failures t mode drought)
          (effective_cooldown_epochs env t mode drought) now s)"

definition active_cooldown_count :: "failure_tracker \<Rightarrow> u64 \<Rightarrow> nat" where
  "active_cooldown_count t now =
     length (filter (\<lambda>p. entry_cooling (ft_threshold t) (ft_cooldown_epochs t) now (snd p)) (ft_states t))"

definition clear_drought_reset_tombstone :: "failure_tracker \<Rightarrow> failure_tracker" where
  "clear_drought_reset_tombstone t = t\<lparr>ft_tombstone := None\<rparr>"

definition clear_cooldown_entries :: "u64 \<Rightarrow> failure_tracker \<Rightarrow> nat \<times> failure_tracker" where
  "clear_cooldown_entries now t =
     (let kept = filter (\<lambda>(_, s).
            if ts_consecutive_failures s < ft_threshold t then True
            else case ts_last_failure_epoch s of
                None \<Rightarrow> True
              | Some epoch \<Rightarrow> sat_add epoch (ft_cooldown_epochs t) \<le> now) (ft_states t)
      in (length (ft_states t) - length kept,
          t\<lparr>ft_states := kept, ft_tombstone := Some now\<rparr>))"

definition fold_target_cooldown_skips :: "u32 \<Rightarrow> breakdown \<Rightarrow> u32 \<times> breakdown" where
  "fold_target_cooldown_skips skipped b =
     (skipped, record_many_u32 rejection_target_cooldown_skipped skipped b)"

definition filter_cooldown_targets ::
  "string list \<Rightarrow> failure_tracker \<Rightarrow> u64 \<Rightarrow> u32 \<times> string list" where
  "filter_cooldown_targets focus t now =
     (let kept = filter (\<lambda>u. \<not> is_in_cooldown t u now) focus
      in (clamp_word (length focus - length kept), kept))"

definition filter_cooldown_targets_adaptive ::
  "divisor_env \<Rightarrow> string list \<Rightarrow> failure_tracker \<Rightarrow> u64 \<Rightarrow> discovery_mode \<Rightarrow> u32 \<Rightarrow> u32 \<times> string list" where
  "filter_cooldown_targets_adaptive env focus t now mode drought =
     (let kept = filter (\<lambda>u. \<not> is_in_cooldown_adaptive env t u now mode drought) focus
      in (clamp_word (length focus - length kept), kept))"

definition reset_global_tracker :: "failure_tracker \<Rightarrow> nat \<times> failure_tracker" where
  "reset_global_tracker t = (length (ft_states t), t\<lparr>ft_states := [], ft_tombstone := None\<rparr>)"

text \<open>
  The filter of a phase (\<open>apply_target_cooldown\<close>): adaptive when the caller supplied a log with
  outcomes, plain otherwise.
\<close>

definition apply_target_cooldown ::
  "divisor_env \<Rightarrow> (outcome_log \<Rightarrow> discovery_mode) \<Rightarrow> string list \<Rightarrow> outcome_log option
     \<Rightarrow> failure_tracker \<Rightarrow> u32 \<times> string list" where
  "apply_target_cooldown env decide focus log t =
     (if ft_states t = [] then (0, focus)
      else case log of
        Some l \<Rightarrow>
          if ol_outcomes l \<noteq> [] then
            filter_cooldown_targets_adaptive env focus t (ft_current_epoch t) (decide l)
              (consecutive_trailing_failures l)
          else filter_cooldown_targets focus t (ft_current_epoch t)
      | None \<Rightarrow> filter_cooldown_targets focus t (ft_current_epoch t))"

subsection \<open>Invariant and entries\<close>

definition tracker_ok :: "failure_tracker \<Rightarrow> bool" where
  "tracker_ok t \<longleftrightarrow> distinct (map fst (ft_states t))
     \<and> (\<forall>(u, s) \<in> set (ft_states t). \<forall>e. ts_last_failure_epoch s = Some e \<longrightarrow> e \<le> ft_current_epoch t)"

lemma state_entry_update:
  "state_entry (record_failure u e t) v =
     (if u = v then (state_entry t u)\<lparr>ts_consecutive_failures :=
          sat_add (ts_consecutive_failures (state_entry t u)) 1, ts_last_failure_epoch := Some e\<rparr>
      else state_entry t v)"
  "state_entry (record_success u e t) v =
     (if u = v then (state_entry t u)\<lparr>ts_consecutive_failures := 0,
          ts_last_improvement_epoch := Some e\<rparr>
      else state_entry t v)"
  "state_entry (advance_epoch t) v = state_entry t v"
  "state_entry (clear_drought_reset_tombstone t) v = state_entry t v"
  by (simp_all add: state_entry_def record_failure_def record_success_def advance_epoch_def
      clear_drought_reset_tombstone_def Let_def update_conv)

text \<open>A target without an entry is a target with the default entry: it is never cooling.\<close>

lemma default_not_cooling [simp]: "\<not> entry_cooling th w now target_state_default"
  by (simp add: entry_cooling_def target_state_default_def)

lemma is_in_cooldown_entry:
  "is_in_cooldown t u now = entry_cooling (ft_threshold t) (ft_cooldown_epochs t) now (state_entry t u)"
  by (simp add: is_in_cooldown_def state_entry_def split: option.split)

lemma is_in_cooldown_adaptive_entry:
  "is_in_cooldown_adaptive env t u now mode drought =
     entry_cooling (effective_consecutive_failures t mode drought)
       (effective_cooldown_epochs env t mode drought) now (state_entry t u)"
  by (simp add: is_in_cooldown_adaptive_def state_entry_def split: option.split)

lemma clear_kept:
  "ft_states (snd (clear_cooldown_entries now t)) =
     filter (\<lambda>p. \<not> entry_cooling (ft_threshold t) (ft_cooldown_epochs t) now (snd p)) (ft_states t)"
  by (auto simp: clear_cooldown_entries_def Let_def entry_cooling_def not_less intro!: filter_cong
      split: option.splits)

lemma clear_cooldown_entries_count:
  "fst (clear_cooldown_entries now t) = active_cooldown_count t now"
proof -
  have "fst (clear_cooldown_entries now t) =
      length (ft_states t) - length (ft_states (snd (clear_cooldown_entries now t)))"
    by (simp add: clear_cooldown_entries_def Let_def)
  then show ?thesis
    unfolding clear_kept active_cooldown_count_def
    using length_filter_split [of "ft_states t"
        "\<lambda>p. entry_cooling (ft_threshold t) (ft_cooldown_epochs t) now (snd p)"] by simp
qed

lemma map_of_filter_distinct:
  "distinct (map fst xs) \<Longrightarrow>
     map_of (filter (\<lambda>p. P (snd p)) xs) k =
       (case map_of xs k of None \<Rightarrow> None | Some v \<Rightarrow> if P v then Some v else None)"
proof (induction xs)
  case (Cons p xs)
  then have "k = fst p \<Longrightarrow> map_of xs k = None"
    by (auto simp: map_of_eq_None_iff)
  with Cons show ?case by (cases p) (auto split: option.splits)
qed simp

lemma state_entry_clear:
  assumes "tracker_ok t"
  shows "state_entry (snd (clear_cooldown_entries now t)) u =
     (if is_in_cooldown t u now then target_state_default else state_entry t u)"
  using assms map_of_filter_distinct [of "ft_states t"
      "\<lambda>s. \<not> entry_cooling (ft_threshold t) (ft_cooldown_epochs t) now s" u]
  by (simp add: state_entry_def is_in_cooldown_def clear_kept tracker_ok_def split: option.splits)

subsection \<open>What the tracker promises: a history\<close>

text \<open>
  The tracker is driven by the epochs, the failures and the successes of targets, the clearing of
  a drought reset, the re-arming, and the reset of the whole process.
\<close>

datatype tracker_event =
    Advance | Fail string | Succeed string | Clear | Rearm | Reset_All

fun tracker_step :: "failure_tracker \<Rightarrow> tracker_event \<Rightarrow> failure_tracker" where
  "tracker_step t Advance = advance_epoch t"
| "tracker_step t (Fail u) = record_failure_now u t"
| "tracker_step t (Succeed u) = record_success_now u t"
| "tracker_step t Clear = snd (clear_cooldown_entries (ft_current_epoch t) t)"
| "tracker_step t Rearm = clear_drought_reset_tombstone t"
| "tracker_step t Reset_All = snd (reset_global_tracker t)"

text \<open>
  Specification: the number of failures of each target since its last success, the epoch of its
  last failure, and the epoch now, on unbounded numbers. A target is parked when the streak has
  reached the trigger and the window after the last failure is still open.
\<close>

record history =
  hi_epoch :: nat
  hi_streak :: "string \<Rightarrow> nat"
  hi_last :: "string \<Rightarrow> nat option"

definition parked :: "nat \<Rightarrow> nat \<Rightarrow> history \<Rightarrow> string \<Rightarrow> bool" where
  "parked trigger window h u \<longleftrightarrow> trigger \<le> hi_streak h u
     \<and> (case hi_last h u of None \<Rightarrow> False | Some e \<Rightarrow> hi_epoch h < e + window)"

definition history_start :: history where
  "history_start = \<lparr>hi_epoch = 0, hi_streak = (\<lambda>_. 0), hi_last = (\<lambda>_. None)\<rparr>"

fun history_step :: "nat \<Rightarrow> nat \<Rightarrow> history \<Rightarrow> tracker_event \<Rightarrow> history" where
  "history_step g w h Advance = h\<lparr>hi_epoch := hi_epoch h + 1\<rparr>"
| "history_step g w h (Fail u) =
     h\<lparr>hi_streak := (hi_streak h)(u := hi_streak h u + 1), hi_last := (hi_last h)(u := Some (hi_epoch h))\<rparr>"
| "history_step g w h (Succeed u) = h\<lparr>hi_streak := (hi_streak h)(u := 0)\<rparr>"
| "history_step g w h Clear =
     h\<lparr>hi_streak := (\<lambda>u. if parked g w h u then 0 else hi_streak h u),
       hi_last := (\<lambda>u. if parked g w h u then None else hi_last h u)\<rparr>"
| "history_step g w h Rearm = h"
| "history_step g w h Reset_All = h\<lparr>hi_streak := (\<lambda>_. 0), hi_last := (\<lambda>_. None)\<rparr>"

definition advances :: "tracker_event list \<Rightarrow> nat" where
  "advances es = length (filter (\<lambda>e. e = Advance) es)"

lemma advances_simps [simp]: "advances [] = 0"
  "advances (e # es) = (if e = Advance then 1 else 0) + advances es"
  by (simp_all add: advances_def)

definition tracker_refines :: "failure_tracker \<Rightarrow> history \<Rightarrow> bool" where
  "tracker_refines t h \<longleftrightarrow> distinct (map fst (ft_states t))
     \<and> unat (ft_current_epoch t) = hi_epoch h
     \<and> (\<forall>u. unat (ts_consecutive_failures (state_entry t u)) = min (hi_streak h u) (2 ^ 32 - 1)
          \<and> map_option unat (ts_last_failure_epoch (state_entry t u)) = hi_last h u
          \<and> (\<forall>e. hi_last h u = Some e \<longrightarrow> e \<le> hi_epoch h))"

lemma tracker_refines_start: "tracker_refines (with_thresholds g w) history_start"
  by (simp add: tracker_refines_def with_thresholds_def history_start_def state_entry_def
      target_state_default_def)

lemma cooling_parked:
  assumes "tracker_refines t h" "hi_epoch h + unat (ft_cooldown_epochs t) < 2 ^ 64"
  shows "is_in_cooldown_now t u = parked (unat (ft_threshold t)) (unat (ft_cooldown_epochs t)) h u"
proof -
  let ?s = "state_entry t u"
  have streak: "ts_consecutive_failures ?s < ft_threshold t \<longleftrightarrow> hi_streak h u < unat (ft_threshold t)"
    using assms(1) unat_le_max [of "ft_threshold t"]
    by (auto simp: tracker_refines_def word_less_nat_alt min_def split: if_splits)
  show ?thesis
  proof (cases "ts_last_failure_epoch ?s")
    case None
    then have "hi_last h u = None" using assms(1) by (auto simp: tracker_refines_def dest!: spec [of _ u])
    with None show ?thesis
      by (simp add: is_in_cooldown_now_def is_in_cooldown_entry entry_cooling_def parked_def)
  next
    case (Some e)
    then have last: "hi_last h u = Some (unat e)"
      using assms(1) by (metis option.simps(9) tracker_refines_def)
    then have "unat e \<le> hi_epoch h" using assms(1) by (simp add: tracker_refines_def)
    then have "unat (sat_add e (ft_cooldown_epochs t)) = unat e + unat (ft_cooldown_epochs t)"
      using assms(2) by (simp add: unat_sat_add)
    then show ?thesis
      using Some last streak assms(1)
      by (auto simp: is_in_cooldown_now_def is_in_cooldown_entry entry_cooling_def parked_def
          word_less_nat_alt tracker_refines_def not_less)
  qed
qed

lemma tracker_params:
  "ft_threshold (tracker_step t e) = ft_threshold t"
  "ft_cooldown_epochs (tracker_step t e) = ft_cooldown_epochs t"
  by (cases e; simp add: advance_epoch_def record_failure_now_def record_failure_def Let_def
      record_success_now_def record_success_def clear_cooldown_entries_def
      clear_drought_reset_tombstone_def reset_global_tracker_def)+

lemma tracker_step_distinct:
  "distinct (map fst (ft_states t)) \<Longrightarrow> distinct (map fst (ft_states (tracker_step t e)))"
  by (cases e; simp add: advance_epoch_def record_failure_now_def record_failure_def Let_def
      record_success_now_def record_success_def clear_kept distinct_update distinct_map_filter
      clear_drought_reset_tombstone_def reset_global_tracker_def)

lemma tracker_step_epoch:
  "ft_current_epoch (tracker_step t e) =
     (if e = Advance then sat_add (ft_current_epoch t) 1 else ft_current_epoch t)"
  by (cases e; simp add: advance_epoch_def record_failure_now_def record_failure_def Let_def
      record_success_now_def record_success_def clear_cooldown_entries_def
      clear_drought_reset_tombstone_def reset_global_tracker_def)

lemma advance_epoch_now [simp]: "ft_current_epoch (advance_epoch t) = sat_add (ft_current_epoch t) 1"
  by (simp add: advance_epoch_def)

lemma epoch_frame [simp]:
  "ft_current_epoch (record_failure u e t) = ft_current_epoch t"
  "ft_current_epoch (record_success u e t) = ft_current_epoch t"
  "ft_current_epoch (clear_drought_reset_tombstone t) = ft_current_epoch t"
  by (simp_all add: record_failure_def record_success_def clear_drought_reset_tombstone_def Let_def)

lemma tracker_refines_last:
  assumes "tracker_refines t h" "ts_last_failure_epoch (state_entry t u) = Some e"
  shows "e \<le> ft_current_epoch t"
proof -
  have "hi_last h u = Some (unat e)"
    using assms by (metis option.simps(9) tracker_refines_def)
  then show ?thesis using assms(1) by (simp add: tracker_refines_def word_le_nat_alt)
qed

lemma tracker_refines_ok:
  assumes "tracker_refines t h"
  shows "tracker_ok t"
proof -
  have d: "distinct (map fst (ft_states t))" using assms by (simp add: tracker_refines_def)
  then have "state_entry t u = s" if "(u, s) \<in> set (ft_states t)" for u s
    using that by (simp add: state_entry_def)
  with d tracker_refines_last [OF assms] show ?thesis by (auto simp: tracker_ok_def)
qed

lemma tracker_refines_step:
  assumes "tracker_refines t h" "hi_epoch (history_step g w h e) + w < 2 ^ 64"
    and g: "g = unat (ft_threshold t)" "w = unat (ft_cooldown_epochs t)"
  shows "tracker_refines (tracker_step t e) (history_step g w h e)"
proof (cases e)
  case Advance
  then show ?thesis
    using assms by (auto simp: tracker_refines_def advance_epoch_def state_entry_def unat_sat_add
        dest: le_SucI)
next
  case (Fail u)
  have "distinct (map fst (ft_states (tracker_step t e)))" "ft_current_epoch (tracker_step t e) = ft_current_epoch t"
    using assms(1) Fail tracker_step_distinct [of t e] tracker_step_epoch [of t e]
    by (auto simp: tracker_refines_def)
  then show ?thesis
    using Fail assms(1) by (auto simp: tracker_refines_def record_failure_now_def state_entry_update unat_sat_add)
next
  case (Succeed u)
  have "distinct (map fst (ft_states (tracker_step t e)))" "ft_current_epoch (tracker_step t e) = ft_current_epoch t"
    using assms(1) Succeed tracker_step_distinct [of t e] tracker_step_epoch [of t e]
    by (auto simp: tracker_refines_def)
  then show ?thesis
    using Succeed assms(1) by (auto simp: tracker_refines_def record_success_now_def state_entry_update)
next
  case Clear
  have d: "distinct (map fst (ft_states (tracker_step t e)))" "ft_current_epoch (tracker_step t e) = ft_current_epoch t"
    using assms(1) Clear tracker_step_distinct [of t e] tracker_step_epoch [of t e]
    by (auto simp: tracker_refines_def)
  have p: "is_in_cooldown t u (ft_current_epoch t) = parked g w h u" for u
    using cooling_parked [OF assms(1), of u] assms(2) g Clear by (simp add: is_in_cooldown_now_def)
  show ?thesis
    using d Clear assms(1) state_entry_clear [OF tracker_refines_ok [OF assms(1)], of "ft_current_epoch t"]
    by (auto simp: tracker_refines_def p target_state_default_def)
next
  case Rearm
  then show ?thesis using assms(1)
    by (auto simp: tracker_refines_def state_entry_update) (simp_all add: clear_drought_reset_tombstone_def)
next
  case Reset_All
  then show ?thesis using assms(1)
    by (auto simp: tracker_refines_def reset_global_tracker_def state_entry_def target_state_default_def)
qed

lemma history_epoch: "hi_epoch (foldl (history_step g w) h es) = hi_epoch h + advances es"
proof (induction es arbitrary: h)
  case (Cons e es)
  then show ?case by (cases e) simp_all
qed simp

lemma tracker_refines_run:
  assumes "tracker_refines t h" "hi_epoch h + advances es + w < 2 ^ 64"
    and "g = unat (ft_threshold t)" "w = unat (ft_cooldown_epochs t)"
  shows "tracker_refines (foldl tracker_step t es) (foldl (history_step g w) h es)"
  using assms
proof (induction es arbitrary: t h)
  case (Cons e es)
  have "hi_epoch (history_step g w h e) = hi_epoch h + (if e = Advance then 1 else 0)"
    by (cases e) simp_all
  with Cons.prems have "tracker_refines (tracker_step t e) (history_step g w h e)"
    "hi_epoch (history_step g w h e) + advances es + w < 2 ^ 64"
    by (auto intro!: tracker_refines_step)
  then show ?case
    using Cons.IH [of "tracker_step t e" "history_step g w h e"] Cons.prems(3,4)
    by (simp add: tracker_params)
qed simp

lemma tracker_run_params:
  "ft_threshold (foldl tracker_step t es) = ft_threshold t"
  "ft_cooldown_epochs (foldl tracker_step t es) = ft_cooldown_epochs t"
  by (induction es arbitrary: t) (simp_all add: tracker_params)

subsection \<open>Every cooldown ends\<close>

lemma tracker_ok_entry:
  "tracker_ok t \<Longrightarrow> ts_last_failure_epoch (state_entry t u) = Some e \<Longrightarrow> e \<le> ft_current_epoch t"
  by (force simp: tracker_ok_def state_entry_def target_state_default_def split: option.splits
      dest: map_of_SomeD)

text \<open>
  While a target does not fail, its last failure stays where it was, and once the window has
  passed the target is free again, also when the epoch counter saturates.
\<close>

definition released :: "u64 \<Rightarrow> failure_tracker \<Rightarrow> string \<Rightarrow> nat \<Rightarrow> bool" where
  "released w t u n \<longleftrightarrow> (\<forall>e. ts_last_failure_epoch (state_entry t u) = Some e \<longrightarrow>
     min (unat e + unat w) (2 ^ 64 - 1) \<le> unat (ft_current_epoch t) + n)"

lemma released_step:
  assumes "released w t u (advances (e # es))" "e \<noteq> Fail u" "tracker_ok t"
  shows "released w (tracker_step t e) u (advances es)"
proof (cases e)
  case Advance
  then show ?thesis using assms(1) by (auto simp: released_def state_entry_update tracker_step_epoch unat_sat_add)
next
  case Clear
  then show ?thesis
    using assms(1) state_entry_clear [OF assms(3), of "ft_current_epoch t" u]
    by (auto simp: released_def target_state_default_def tracker_step_epoch
        simp del: tracker_step.simps simp flip: tracker_step.simps(4))
next
  case Reset_All
  then show ?thesis
    by (simp add: released_def reset_global_tracker_def state_entry_def target_state_default_def)
qed (use assms in \<open>auto simp: released_def state_entry_update record_failure_now_def record_success_now_def\<close>)

lemma tracker_step_ok: "tracker_ok t \<Longrightarrow> tracker_ok (tracker_step t e)"
proof -
  assume t: "tracker_ok t"
  have d: "distinct (map fst (ft_states (tracker_step t e)))"
    using t tracker_step_distinct by (simp add: tracker_ok_def)
  have "x \<le> ft_current_epoch (tracker_step t e)"
    if "ts_last_failure_epoch (state_entry (tracker_step t e) u) = Some x" for u x
  proof (cases e)
    case Advance
    with that show ?thesis
      using tracker_ok_entry [OF t, of u x] sat_add_ge [of "ft_current_epoch t" 1]
      by (auto simp: state_entry_update)
  next
    case Clear
    with that show ?thesis
      using tracker_ok_entry [OF t, of u x] state_entry_clear [OF t, of "ft_current_epoch t" u]
        tracker_step_epoch [of t e]
      by (auto simp: target_state_default_def split: if_splits)
  next
    case Reset_All
    with that show ?thesis
      by (simp add: reset_global_tracker_def state_entry_def target_state_default_def)
  qed (use that tracker_ok_entry [OF t, of u x] in
       \<open>auto simp: state_entry_update record_failure_now_def record_success_now_def split: if_splits\<close>)
  moreover have "state_entry (tracker_step t e) u = s" if "(u, s) \<in> set (ft_states (tracker_step t e))" for u s
    using that d by (simp add: state_entry_def)
  ultimately show ?thesis using d by (auto simp: tracker_ok_def)
qed

lemma released_run:
  "released w t u (advances es) \<Longrightarrow> tracker_ok t \<Longrightarrow> Fail u \<notin> set es \<Longrightarrow>
     released w (foldl tracker_step t es) u 0"
proof (induction es arbitrary: t)
  case (Cons e es)
  then have "released w (tracker_step t e) u (advances es)" "tracker_ok (tracker_step t e)"
    by (auto intro!: released_step tracker_step_ok)
  with Cons show ?case by simp
qed simp

lemma released_not_cooling:
  "released (ft_cooldown_epochs t) t u 0 \<Longrightarrow> \<not> is_in_cooldown_now t u"
  by (auto simp: released_def is_in_cooldown_now_def is_in_cooldown_entry entry_cooling_def
      word_less_nat_alt unat_sat_add split: option.splits)

section \<open>Per-target outcomes of a pass\<close>

record target_pass_outcome =
  tp_target :: string
  tp_had_candidate :: bool
  tp_evaluated :: bool

record flush_summary =
  fs_successes :: nat
  fs_failures :: nat
  fs_skipped :: nat

text \<open>
  \<open>merged.entry(uuid).or_insert((false, false))\<close> of a \<open>BTreeMap\<close>, kept as a list in key order.
\<close>

fun merge_outcome ::
  "target_pass_outcome \<Rightarrow> (string \<times> bool \<times> bool) list \<Rightarrow> (string \<times> bool \<times> bool) list" where
  "merge_outcome x [] = [(tp_target x, tp_had_candidate x, tp_evaluated x)]"
| "merge_outcome x ((u, had, ev) # rest) =
     (if tp_target x < u then (tp_target x, tp_had_candidate x, tp_evaluated x) # (u, had, ev) # rest
      else if tp_target x = u then (u, had \<or> tp_had_candidate x, ev \<or> tp_evaluated x) # rest
      else (u, had, ev) # merge_outcome x rest)"

definition merge_target_pass_outcomes :: "target_pass_outcome list \<Rightarrow> target_pass_outcome list" where
  "merge_target_pass_outcomes outcomes =
     map (\<lambda>(u, had, ev). \<lparr>tp_target = u, tp_had_candidate = had, tp_evaluated = ev\<rparr>)
       (fold merge_outcome outcomes [])"

fun flush_loop ::
  "u64 \<Rightarrow> analysis_outcome \<Rightarrow> target_pass_outcome list \<Rightarrow> flush_summary \<times> failure_tracker
     \<Rightarrow> flush_summary \<times> failure_tracker" where
  "flush_loop epoch outcome [] st = st"
| "flush_loop epoch outcome (x # xs) (s, t) =
     flush_loop epoch outcome xs
       (if tp_had_candidate x then
          (s\<lparr>fs_successes := fs_successes s + 1\<rparr>, record_success (tp_target x) epoch t)
        else if tp_evaluated x then
          case record_failure_unless_disabled (tp_target x) epoch outcome t of
            (True, t') \<Rightarrow> (s\<lparr>fs_failures := fs_failures s + 1\<rparr>, t')
          | (False, t') \<Rightarrow> (s\<lparr>fs_skipped := fs_skipped s + 1\<rparr>, t')
        else (s\<lparr>fs_skipped := fs_skipped s + 1\<rparr>, t))"

definition flush_summary_default :: flush_summary where
  "flush_summary_default = \<lparr>fs_successes = 0, fs_failures = 0, fs_skipped = 0\<rparr>"

definition flush_target_pass_outcomes ::
  "target_pass_outcome list \<Rightarrow> analysis_outcome \<Rightarrow> failure_tracker \<Rightarrow> flush_summary \<times> failure_tracker" where
  "flush_target_pass_outcomes outcomes outcome t =
     (let merged = merge_target_pass_outcomes outcomes in
      if merged = [] then (flush_summary_default, t)
      else flush_loop (ft_current_epoch t) outcome merged (flush_summary_default, t))"

definition had_in :: "target_pass_outcome list \<Rightarrow> string \<Rightarrow> bool" where
  "had_in xs u \<longleftrightarrow> list_ex (\<lambda>x. tp_target x = u \<and> tp_had_candidate x) xs"

definition evaluated_in :: "target_pass_outcome list \<Rightarrow> string \<Rightarrow> bool" where
  "evaluated_in xs u \<longleftrightarrow> list_ex (\<lambda>x. tp_target x = u \<and> tp_evaluated x) xs"

text \<open>Merging sorts the targets, keeps each once, and takes the disjunction of what was seen.\<close>

lemma merge_outcome_sorted:
  "sorted_wrt (<) (map fst m) \<Longrightarrow>
     sorted_wrt (<) (map fst (merge_outcome x m)) \<and> fst ` set (merge_outcome x m) = insert (tp_target x) (fst ` set m)"
proof (induction x m rule: merge_outcome.induct)
  case (2 x u had ev rest)
  then show ?case by (auto simp: not_less order.order_iff_strict)
qed simp

lemma merge_outcome_map_of:
  "sorted_wrt (<) (map fst m) \<Longrightarrow>
     map_of (merge_outcome x m) u =
       (if u = tp_target x then
          (case map_of m u of None \<Rightarrow> Some (tp_had_candidate x, tp_evaluated x)
           | Some (had, ev) \<Rightarrow> Some (had \<or> tp_had_candidate x, ev \<or> tp_evaluated x))
        else map_of m u)"
proof (induction x m rule: merge_outcome.induct)
  case (2 x v had ev rest)
  have "map_of rest (tp_target x) = None" if "tp_target x < v"
    using 2(2) that by (force simp: map_of_eq_None_iff)
  with 2 show ?case by (auto split: option.splits)
qed simp

lemma fold_merge:
  "sorted_wrt (<) (map fst m) \<Longrightarrow>
     sorted_wrt (<) (map fst (fold merge_outcome xs m))
     \<and> map_of (fold merge_outcome xs m) u =
         (case map_of m u of
            None \<Rightarrow> if list_ex (\<lambda>x. tp_target x = u) xs then Some (had_in xs u, evaluated_in xs u) else None
          | Some (had, ev) \<Rightarrow> Some (had \<or> had_in xs u, ev \<or> evaluated_in xs u))"
proof (induction xs arbitrary: m)
  case Nil
  then show ?case by (simp add: had_in_def evaluated_in_def split: option.splits)
next
  case (Cons x xs)
  have s: "sorted_wrt (<) (map fst (merge_outcome x m))"
    using merge_outcome_sorted [OF Cons.prems] by blast
  show ?case
    using Cons.IH [OF s] merge_outcome_map_of [OF Cons.prems, of x u]
    by (auto simp: had_in_def evaluated_in_def split: option.splits)
qed

text \<open>What flushing does to the entry of one target.\<close>

definition flushed_entry :: "u64 \<Rightarrow> bool \<Rightarrow> bool \<Rightarrow> target_state \<Rightarrow> target_state" where
  "flushed_entry epoch had failed s =
     (if had then s\<lparr>ts_consecutive_failures := 0, ts_last_improvement_epoch := Some epoch\<rparr>
      else if failed then
        s\<lparr>ts_consecutive_failures := sat_add (ts_consecutive_failures s) 1, ts_last_failure_epoch := Some epoch\<rparr>
      else s)"

lemma flushed_entry_none [simp]: "flushed_entry epoch False False s = s"
  by (simp add: flushed_entry_def)

lemma flush_loop_entry:
  "distinct (map tp_target xs) \<Longrightarrow>
     state_entry (snd (flush_loop ep oc xs (s, t))) u =
       flushed_entry ep (had_in xs u) (evaluated_in xs u \<and> \<not> is_environmentally_disabled oc) (state_entry t u)"
proof (induction xs arbitrary: s t)
  case Nil
  then show ?case by (simp add: had_in_def evaluated_in_def)
next
  case (Cons x xs)
  have none: "\<not> had_in xs (tp_target x)" "\<not> evaluated_in xs (tp_target x)"
    using Cons.prems by (simp_all add: had_in_def evaluated_in_def list_ex_iff image_iff) metis+
  have other: "had_in (x # xs) u = (tp_target x = u \<and> tp_had_candidate x \<or> had_in xs u)"
    "evaluated_in (x # xs) u = (tp_target x = u \<and> tp_evaluated x \<or> evaluated_in xs u)"
    by (simp_all add: had_in_def evaluated_in_def)
  have IH: "state_entry (snd (flush_loop ep oc xs (s, t))) u =
       flushed_entry ep (had_in xs u) (evaluated_in xs u \<and> \<not> is_environmentally_disabled oc) (state_entry t u)"
    for s t using Cons by simp
  show ?case
    using none unfolding other
    by (cases "tp_target x = u")
      (auto simp: IH record_failure_unless_disabled_def state_entry_update flushed_entry_def)
qed

lemma flush_loop_counts:
  "fs_successes (fst (flush_loop ep oc xs (s, t))) = fs_successes s + length (filter tp_had_candidate xs)"
  "fs_failures (fst (flush_loop ep oc xs (s, t))) = fs_failures s + (if is_environmentally_disabled oc then 0
     else length (filter (\<lambda>x. \<not> tp_had_candidate x \<and> tp_evaluated x) xs))"
  "fs_skipped (fst (flush_loop ep oc xs (s, t))) = fs_skipped s + (if is_environmentally_disabled oc
     then length (filter (\<lambda>x. \<not> tp_had_candidate x) xs)
     else length (filter (\<lambda>x. \<not> tp_had_candidate x \<and> \<not> tp_evaluated x) xs))"
  by (induction xs arbitrary: s t) (simp_all add: record_failure_unless_disabled_def)

lemma merged_targets:
  "map tp_target (merge_target_pass_outcomes xs) = map fst (fold merge_outcome xs [])"
  by (simp add: merge_target_pass_outcomes_def case_prod_unfold o_def)

lemma merged_sorted: "sorted_wrt (<) (map tp_target (merge_target_pass_outcomes xs))"
  using fold_merge [of "[]" xs] by (simp add: merged_targets)

lemma merged_distinct: "distinct (map tp_target (merge_target_pass_outcomes xs))"
  using merged_sorted [of xs] by (simp add: strict_sorted_iff)

lemma in_merged:
  "x \<in> set (merge_target_pass_outcomes xs) \<longleftrightarrow>
     map_of (fold merge_outcome xs []) (tp_target x) = Some (tp_had_candidate x, tp_evaluated x)"
proof -
  have "distinct (map fst (fold merge_outcome xs []))"
    using merged_distinct [of xs] by (simp add: merged_targets)
  then show ?thesis
    by (force simp: merge_target_pass_outcomes_def case_prod_unfold image_iff)
qed

lemma merged_in:
  "had_in (merge_target_pass_outcomes xs) u = had_in xs u"
  "evaluated_in (merge_target_pass_outcomes xs) u = evaluated_in xs u"
proof -
  have *: "x \<in> set (merge_target_pass_outcomes xs) \<longleftrightarrow>
      list_ex (\<lambda>y. tp_target y = tp_target x) xs \<and> tp_had_candidate x = had_in xs (tp_target x)
      \<and> tp_evaluated x = evaluated_in xs (tp_target x)" for x
    using fold_merge [of "[]" xs "tp_target x"] by (auto simp: in_merged)
  have w: "\<lparr>tp_target = u, tp_had_candidate = had_in xs u, tp_evaluated = evaluated_in xs u\<rparr>
      \<in> set (merge_target_pass_outcomes xs)" if "list_ex (\<lambda>y. tp_target y = u) xs"
    using that by (simp add: *)
  show "had_in (merge_target_pass_outcomes xs) u = had_in xs u"
    unfolding had_in_def [of "merge_target_pass_outcomes xs"] list_ex_iff
  proof
    assume "\<exists>x\<in>set (merge_target_pass_outcomes xs). tp_target x = u \<and> tp_had_candidate x"
    then show "had_in xs u" by (auto simp: *)
  next
    assume h: "had_in xs u"
    then have "list_ex (\<lambda>y. tp_target y = u) xs" by (auto simp: had_in_def list_ex_iff)
    from w [OF this] h show "\<exists>x\<in>set (merge_target_pass_outcomes xs). tp_target x = u \<and> tp_had_candidate x"
      by (metis target_pass_outcome.select_convs(1,2))
  qed
  show "evaluated_in (merge_target_pass_outcomes xs) u = evaluated_in xs u"
    unfolding evaluated_in_def [of "merge_target_pass_outcomes xs"] list_ex_iff
  proof
    assume "\<exists>x\<in>set (merge_target_pass_outcomes xs). tp_target x = u \<and> tp_evaluated x"
    then show "evaluated_in xs u" by (auto simp: *)
  next
    assume h: "evaluated_in xs u"
    then have "list_ex (\<lambda>y. tp_target y = u) xs" by (auto simp: evaluated_in_def list_ex_iff)
    from w [OF this] h show "\<exists>x\<in>set (merge_target_pass_outcomes xs). tp_target x = u \<and> tp_evaluated x"
      by (metis target_pass_outcome.select_convs(1,3))
  qed
qed

lemma merged_target_set: "tp_target ` set (merge_target_pass_outcomes xs) = tp_target ` set xs"
proof -
  have "u \<in> tp_target ` set (merge_target_pass_outcomes xs) \<longleftrightarrow> list_ex (\<lambda>x. tp_target x = u) xs" for u
  proof -
    have "u \<in> tp_target ` set (merge_target_pass_outcomes xs) \<longleftrightarrow> map_of (fold merge_outcome xs []) u \<noteq> None"
      by (metis list.set_map map_of_eq_None_iff merged_targets)
    then show ?thesis using fold_merge [of "[]" xs u] by auto
  qed
  then show ?thesis by (intro set_eqI) (auto simp: list_ex_iff)
qed

section \<open>Within one batch\<close>

record batch_tracker =
  bt_failures :: "(string \<times> u32) list"
  bt_skip_count :: u32
  bt_failure_limit :: u32

definition within_batch_target_failure_limit :: u32 where "within_batch_target_failure_limit = 1"

definition batch_with_threshold :: "u32 \<Rightarrow> batch_tracker" where
  "batch_with_threshold limit = \<lparr>bt_failures = [], bt_skip_count = 0, bt_failure_limit = max limit 1\<rparr>"

definition batch_new :: "u32 option \<Rightarrow> batch_tracker" where
  "batch_new env =
     batch_with_threshold (case env of None \<Rightarrow> within_batch_target_failure_limit | Some n \<Rightarrow> n)"

definition batch_failure_count :: "batch_tracker \<Rightarrow> string \<Rightarrow> u32" where
  "batch_failure_count t u = (case map_of (bt_failures t) u of None \<Rightarrow> 0 | Some n \<Rightarrow> n)"

definition batch_record_failure :: "string \<Rightarrow> batch_tracker \<Rightarrow> batch_tracker" where
  "batch_record_failure u t =
     t\<lparr>bt_failures := AList.update u (sat_add (batch_failure_count t u) 1) (bt_failures t)\<rparr>"

definition should_skip :: "batch_tracker \<Rightarrow> string \<Rightarrow> bool" where
  "should_skip t u \<longleftrightarrow>
     bt_failure_limit t \<le> (case map_of (bt_failures t) u of None \<Rightarrow> 0 | Some n \<Rightarrow> n)"

definition batch_record_skip :: "batch_tracker \<Rightarrow> batch_tracker" where
  "batch_record_skip t = t\<lparr>bt_skip_count := sat_add (bt_skip_count t) 1\<rparr>"

definition failed_target_count :: "batch_tracker \<Rightarrow> nat" where
  "failed_target_count t = length (bt_failures t)"

definition fold_within_batch_skips :: "batch_tracker \<Rightarrow> breakdown \<Rightarrow> u32 \<times> breakdown" where
  "fold_within_batch_skips t b =
     (bt_skip_count t,
      record_many_u32 rejection_within_batch_target_short_circuit (bt_skip_count t) b)"

lemma batch_failures_exact:
  "unat (batch_failure_count (fold batch_record_failure us t) u) =
     min (unat (batch_failure_count t u) + length (filter (\<lambda>v. v = u) us)) (2 ^ 32 - 1)"
proof (induction us arbitrary: t)
  case Nil
  then show ?case using unat_le_max [of "batch_failure_count t u"] by simp
next
  case (Cons v us)
  have "batch_failure_count (batch_record_failure v t) u =
      (if v = u then sat_add (batch_failure_count t u) 1 else batch_failure_count t u)"
    by (simp add: batch_failure_count_def batch_record_failure_def update_conv)
  with Cons show ?case by (auto simp: unat_sat_add min_def)
qed

text \<open>A target is skipped exactly when its failures in the batch have reached the limit.\<close>

lemma should_skip_exact:
  "should_skip (fold batch_record_failure us (batch_with_threshold limit)) u \<longleftrightarrow>
     max (unat limit) 1 \<le> length (filter (\<lambda>v. v = u) us)"
proof -
  let ?t = "batch_with_threshold limit"
  have "bt_failure_limit (fold batch_record_failure us t) = bt_failure_limit t" for t
    by (induction us arbitrary: t) (simp_all add: batch_record_failure_def)
  then have "should_skip (fold batch_record_failure us ?t) u \<longleftrightarrow>
      unat (max limit 1) \<le> unat (batch_failure_count (fold batch_record_failure us ?t) u)"
    by (simp add: should_skip_def batch_failure_count_def word_le_nat_alt batch_with_threshold_def)
  moreover have "unat (max limit 1) = max (unat limit) 1"
    by (simp add: max_def word_le_nat_alt)
  moreover have "max (unat limit) 1 \<le> 2 ^ 32 - 1" using unat_le_max [of limit] by simp
  ultimately show ?thesis
    by (simp add: batch_failures_exact) (simp add: batch_failure_count_def batch_with_threshold_def)
qed

section \<open>Droughts\<close>

datatype drought_input = Unwired | Wired_Empty | Cleared

record drought_reset_outcome =
  dr_cleared :: nat
  dr_input :: drought_input
  dr_reset_epoch :: u64
  dr_reset_after :: u32

definition drought_is_noop :: "drought_reset_outcome \<Rightarrow> bool" where
  "drought_is_noop r \<longleftrightarrow> dr_cleared r = 0"

definition maybe_perform_drought_reset ::
  "failure_tracker option \<Rightarrow> u32 \<Rightarrow> u32 \<Rightarrow> u64 \<Rightarrow> drought_reset_outcome option \<times> failure_tracker option" where
  "maybe_perform_drought_reset tracker failures after now =
     (if after = 0 \<or> failures < after then (None, tracker)
      else if (case tracker of None \<Rightarrow> False | Some t \<Rightarrow> ft_tombstone t \<noteq> None) then (None, tracker)
      else case tracker of
          None \<Rightarrow> (Some \<lparr>dr_cleared = 0, dr_input = Unwired, dr_reset_epoch = now, dr_reset_after = after\<rparr>, None)
        | Some t \<Rightarrow>
            let (cleared, t') = clear_cooldown_entries now t in
            if cleared = 0 then
              (Some \<lparr>dr_cleared = 0, dr_input = Wired_Empty, dr_reset_epoch = now, dr_reset_after = after\<rparr>,
               Some (clear_drought_reset_tombstone t'))
            else
              (Some \<lparr>dr_cleared = cleared, dr_input = Cleared, dr_reset_epoch = now, dr_reset_after = after\<rparr>,
               Some t'))"

definition maybe_perform_drought_reset_locked ::
  "u32 \<Rightarrow> u32 \<Rightarrow> failure_tracker \<Rightarrow> drought_reset_outcome option \<times> failure_tracker" where
  "maybe_perform_drought_reset_locked failures after t =
     (case maybe_perform_drought_reset (Some t) failures after (ft_current_epoch t) of
        (r, Some t') \<Rightarrow> (r, t')
      | (r, None) \<Rightarrow> (r, t))"

definition rearm_drought_reset :: "failure_tracker option \<Rightarrow> failure_tracker option" where
  "rearm_drought_reset tracker = map_option clear_drought_reset_tombstone tracker"

datatype drought_classification = Environmental | Search_Exhaustion

definition classify_drought :: "u32 \<Rightarrow> u32 \<Rightarrow> drought_classification" where
  "classify_drought empty_passes disabled_passes =
     (if empty_passes < disabled_passes then Environmental else Search_Exhaustion)"

record drought_alarm =
  da_creature_uuid :: string
  da_epochs_since_last_accepted :: u32
  da_genuinely_empty_passes :: u32
  da_environmentally_disabled_passes :: u32
  da_classification :: drought_classification

definition emit_creature_drought_alarm ::
  "string \<Rightarrow> u32 \<Rightarrow> u32 \<Rightarrow> u32 \<Rightarrow> u32 \<Rightarrow> drought_alarm option" where
  "emit_creature_drought_alarm creature epochs empty_passes disabled_passes threshold =
     (if epochs \<noteq> threshold then None
      else Some \<lparr>da_creature_uuid = creature, da_epochs_since_last_accepted = epochs,
        da_genuinely_empty_passes = empty_passes,
        da_environmentally_disabled_passes = disabled_passes,
        da_classification = classify_drought empty_passes disabled_passes\<rparr>)"

definition is_search_exhaustion_drought :: "u32 \<Rightarrow> u32 \<Rightarrow> u32 \<Rightarrow> bool" where
  "is_search_exhaustion_drought failures disabled_passes threshold =
     (if threshold = 0 \<or> failures < threshold then False
      else classify_drought failures disabled_passes = Search_Exhaustion)"

record drought_diagnostic =
  dd_consecutive_failures :: u32
  dd_rolling_success_rate :: f32
  dd_mode :: discovery_mode
  dd_active_count :: nat
  dd_skipped :: u32
  dd_dominant_reason :: "string option"
  dd_dominant_count :: u32
  dd_total_considered :: u32
  dd_total_rejected :: u32

definition emit_drought_diagnostic ::
  "u32 \<Rightarrow> f32 \<Rightarrow> discovery_mode \<Rightarrow> failure_tracker option \<Rightarrow> u64 \<Rightarrow> u32 \<Rightarrow> breakdown \<Rightarrow> u32 \<Rightarrow> u32
     \<Rightarrow> drought_diagnostic option" where
  "emit_drought_diagnostic failures rate mode tracker now skipped b returned threshold =
     (if failures < threshold then None
      else
        let rejected = breakdown_total b in
        Some \<lparr>dd_consecutive_failures = failures, dd_rolling_success_rate = rate, dd_mode = mode,
          dd_active_count = (case tracker of None \<Rightarrow> 0 | Some t \<Rightarrow> active_cooldown_count t now),
          dd_skipped = skipped,
          dd_dominant_reason = map_option fst (dominant_reason b),
          dd_dominant_count = (case dominant_reason b of None \<Rightarrow> 0 | Some p \<Rightarrow> snd p),
          dd_total_considered = sat_add rejected returned,
          dd_total_rejected = rejected\<rparr>)"

datatype target_topology = One_Hot | Simplex | Margin | Independent | Unknown_Topology

definition classification_drought_multiplier :: u32 where "classification_drought_multiplier = 2"

definition drought_threshold_for_task :: "u32 \<Rightarrow> target_topology \<Rightarrow> u32" where
  "drought_threshold_for_task base topology =
     (case topology of
        One_Hot \<Rightarrow> sat_mul base classification_drought_multiplier
      | Simplex \<Rightarrow> sat_mul base classification_drought_multiplier
      | Margin \<Rightarrow> sat_mul base classification_drought_multiplier
      | Independent \<Rightarrow> base
      | Unknown_Topology \<Rightarrow> base)"

definition should_bypass_fingerprint_cache :: "outcome_log option \<Rightarrow> u32 \<Rightarrow> bool" where
  "should_bypass_fingerprint_cache log epochs =
     (if epochs = 0 then False
      else case log of None \<Rightarrow> False | Some l \<Rightarrow> epochs \<le> consecutive_trailing_failures l)"

section \<open>One pass\<close>

text \<open>
  The parts of one \<open>analyze_all\<close> call that touch the tracker, in their order: the epoch advances
  at the head, the pass's outcomes are flushed, then the drought decision reads the streak of the
  caller's log.
\<close>

definition drought_phase ::
  "u32 \<Rightarrow> u32 option \<Rightarrow> u32 \<Rightarrow> failure_tracker \<Rightarrow> drought_reset_outcome option \<times> failure_tracker" where
  "drought_phase threshold reset_after failures t =
     (if threshold \<le> failures then
        case reset_after of
          Some after \<Rightarrow> maybe_perform_drought_reset_locked failures after t
        | None \<Rightarrow> (None, t)
      else case reset_after of
          Some _ \<Rightarrow> if failures = 0 then (None, clear_drought_reset_tombstone t) else (None, t)
        | None \<Rightarrow> (None, t))"

record pass =
  ps_outcomes :: "target_pass_outcome list"
  ps_outcome :: analysis_outcome
  ps_failures :: u32

definition discovery_pass ::
  "u32 \<Rightarrow> u32 option \<Rightarrow> failure_tracker \<Rightarrow> pass \<Rightarrow> drought_reset_outcome option \<times> failure_tracker" where
  "discovery_pass threshold reset_after t p =
     drought_phase threshold reset_after (ps_failures p)
       (snd (flush_target_pass_outcomes (ps_outcomes p) (ps_outcome p) (advance_epoch t)))"

fun run_passes ::
  "u32 \<Rightarrow> u32 option \<Rightarrow> failure_tracker \<Rightarrow> pass list \<Rightarrow> drought_reset_outcome option list \<times> failure_tracker" where
  "run_passes threshold reset_after t [] = ([], t)"
| "run_passes threshold reset_after t (p # ps) =
     (let (r, t') = discovery_pass threshold reset_after t p;
          (rs, t'') = run_passes threshold reset_after t' ps
      in (r # rs, t''))"

text \<open>A pass that neither improved a target nor ended the streak.\<close>

definition dry :: "pass \<Rightarrow> bool" where
  "dry p \<longleftrightarrow> list_all (\<lambda>x. \<not> tp_had_candidate x) (ps_outcomes p) \<and> ps_failures p \<noteq> 0"

definition fired :: "drought_reset_outcome option \<Rightarrow> bool" where
  "fired r \<longleftrightarrow> (case r of None \<Rightarrow> False | Some x \<Rightarrow> \<not> drought_is_noop x)"

lemma flush_loop_tombstone:
  "list_all (\<lambda>x. \<not> tp_had_candidate x) xs \<Longrightarrow>
     ft_tombstone (snd (flush_loop ep oc xs (s, t))) = ft_tombstone t"
  by (induction xs arbitrary: s t)
    (auto simp: record_failure_unless_disabled_def record_failure_def Let_def)

lemma merged_dry:
  "list_all (\<lambda>x. \<not> tp_had_candidate x) xs \<Longrightarrow>
     list_all (\<lambda>x. \<not> tp_had_candidate x) (merge_target_pass_outcomes xs)"
  using merged_in(1) [of xs] by (force simp: had_in_def list_ex_iff list_all_iff)

lemma flush_tombstone:
  "list_all (\<lambda>x. \<not> tp_had_candidate x) xs \<Longrightarrow>
     ft_tombstone (snd (flush_target_pass_outcomes xs oc t)) = ft_tombstone t"
  using flush_loop_tombstone [OF merged_dry [of xs]]
  by (simp add: flush_target_pass_outcomes_def Let_def)

lemma dry_pass_tombstoned:
  assumes "dry p" "ft_tombstone t \<noteq> None"
  shows "\<not> fired (fst (discovery_pass th ra t p)) \<and> ft_tombstone (snd (discovery_pass th ra t p)) \<noteq> None"
proof -
  let ?t = "snd (flush_target_pass_outcomes (ps_outcomes p) (ps_outcome p) (advance_epoch t))"
  have "ft_tombstone ?t \<noteq> None"
    using assms by (simp add: dry_def flush_tombstone advance_epoch_def)
  then show ?thesis
    using assms(1)
    by (auto simp: discovery_pass_def drought_phase_def maybe_perform_drought_reset_locked_def
        maybe_perform_drought_reset_def fired_def dry_def split: option.splits)
qed

lemma clear_stamps: "ft_tombstone (snd (clear_cooldown_entries now t)) = Some now"
  by (simp add: clear_cooldown_entries_def Let_def)

lemma reset_fired_stamps:
  assumes "fired (fst (maybe_perform_drought_reset_locked f a t))"
  shows "ft_tombstone (snd (maybe_perform_drought_reset_locked f a t)) \<noteq> None"
proof -
  obtain c t' where ct: "clear_cooldown_entries (ft_current_epoch t) t = (c, t')" by fastforce
  then have "ft_tombstone t' \<noteq> None" using clear_stamps [of "ft_current_epoch t" t] by simp
  with assms ct show ?thesis
    by (cases "c = 0") (auto simp: maybe_perform_drought_reset_locked_def
        maybe_perform_drought_reset_def fired_def drought_is_noop_def split: if_splits)
qed

lemma fired_stamps:
  assumes "fired (fst (discovery_pass th ra t p))"
  shows "ft_tombstone (snd (discovery_pass th ra t p)) \<noteq> None"
proof -
  have none: "\<not> fired None" by (simp add: fired_def)
  show ?thesis
    using assms none reset_fired_stamps
    by (auto simp: discovery_pass_def drought_phase_def split: option.splits if_splits)
qed

lemma tombstoned_run:
  "list_all dry ps \<Longrightarrow> ft_tombstone t \<noteq> None \<Longrightarrow>
     filter fired (fst (run_passes th ra t ps)) = []"
proof (induction ps arbitrary: t)
  case (Cons p ps)
  then show ?case using dry_pass_tombstoned [of p t th ra] by (simp add: case_prod_unfold Let_def)
qed simp

text \<open>
  The creature-level alarm at the end of a pass: the orchestrator adds the trailing failures and
  the disabled passes of the log.
\<close>

definition creature_alarm_phase :: "u32 option \<Rightarrow> string \<Rightarrow> outcome_log \<Rightarrow> drought_alarm option" where
  "creature_alarm_phase alarm_epochs creature l =
     (case alarm_epochs of
        None \<Rightarrow> None
      | Some threshold \<Rightarrow>
          let empty_passes = consecutive_trailing_failures l;
              disabled_passes = ol_environmentally_disabled l
          in emit_creature_drought_alarm creature (sat_add empty_passes disabled_passes)
               empty_passes disabled_passes threshold)"

section \<open>Properties\<close>

text \<open>
  C16. The failure tracker implements its history: after any sequence of passes, failures,
  successes, clearings and resets, and while the epochs stay below \<open>2 ^ 64\<close>, a target is in cooldown if and
  only if at least \<open>failures\<close> failures were recorded since its last success (and since its entry was
  last cleared) and fewer than \<open>epochs\<close> epochs have passed since the last of them. No saturation
  of a counter changes the answer, and filtering a focus list keeps exactly the targets that are
  not parked, in order, and counts the others.
\<close>

theorem cooldown_refines_history:
  assumes "advances es + unat epochs < 2 ^ 64"
  shows "is_in_cooldown_now (foldl tracker_step (with_thresholds failures epochs) es) u
      = parked (unat failures) (unat epochs)
          (foldl (history_step (unat failures) (unat epochs)) history_start es) u
    \<and> (let t = foldl tracker_step (with_thresholds failures epochs) es;
           h = foldl (history_step (unat failures) (unat epochs)) history_start es;
           (skipped, kept) = filter_cooldown_targets focus t (ft_current_epoch t)
       in kept = filter (\<lambda>u. \<not> parked (unat failures) (unat epochs) h u) focus
          \<and> unat skipped = min (length (filter (parked (unat failures) (unat epochs) h) focus)) (2 ^ 32 - 1))"
proof -
  let ?t = "foldl tracker_step (with_thresholds failures epochs) es"
  let ?h = "foldl (history_step (unat failures) (unat epochs)) history_start es"
  have params: "ft_threshold ?t = failures" "ft_cooldown_epochs ?t = epochs"
    by (simp_all add: tracker_run_params) (simp_all add: with_thresholds_def)
  have ref: "tracker_refines ?t ?h"
    using assms tracker_refines_start [of failures epochs]
    by (intro tracker_refines_run) (simp_all add: history_start_def with_thresholds_def)
  have epoch: "hi_epoch ?h + unat (ft_cooldown_epochs ?t) < 2 ^ 64"
    using assms by (simp add: params history_epoch) (simp add: history_start_def)
  have cool: "is_in_cooldown_now ?t v = parked (unat failures) (unat epochs) ?h v" for v
    using cooling_parked [OF ref epoch, of v] by (simp add: params)
  have "length focus - length (filter (\<lambda>v. \<not> parked (unat failures) (unat epochs) ?h v) focus)
      = length (filter (parked (unat failures) (unat epochs) ?h) focus)"
    using length_filter_split [of focus "parked (unat failures) (unat epochs) ?h"] by simp
  with cool show ?thesis
    by (simp add: filter_cooldown_targets_def Let_def is_in_cooldown_now_def unat_clamp_word)
qed

theorem cooldown_refines_history_witness:
  "is_in_cooldown_now (foldl tracker_step (with_thresholds 2 3)
     [Advance, Fail ''a'', Advance, Fail ''a'', Advance]) ''a''"
  using cooldown_refines_history [of "[Advance, Fail ''a'', Advance, Fail ''a'', Advance]" 3 2 "''a''" "[]"]
  by (simp add: parked_def history_start_def)

text \<open>
  Every cooldown ends: from any consistent tracker, if a target records no further failure, it is
  free once as many passes as the window have begun, whatever else happens to it and to other
  targets meanwhile, and also when the epoch counter saturates.
\<close>

theorem cooldown_always_ends:
  assumes "tracker_ok t" "Fail u \<notin> set es" "unat (ft_cooldown_epochs t) \<le> advances es"
  shows "\<not> is_in_cooldown_now (foldl tracker_step t es) u"
proof -
  have "released (ft_cooldown_epochs t) t u (advances es)"
    using assms(1,3) tracker_ok_entry [OF assms(1), of u]
    by (force simp: released_def word_le_nat_alt)
  then have "released (ft_cooldown_epochs t) (foldl tracker_step t es) u 0"
    using assms(1,2) by (intro released_run)
  then show ?thesis
    by (intro released_not_cooling) (simp add: tracker_run_params)
qed

theorem cooldown_always_ends_witness:
  "\<not> is_in_cooldown_now (foldl tracker_step (with_thresholds 1 2)
     [Fail ''b'', Advance, Fail ''b'', Succeed ''a'', Advance]) ''a''"
  using cooldown_always_ends [of "with_thresholds 1 2" "''a''"
      "[Fail ''b'', Advance, Fail ''b'', Succeed ''a'', Advance]"]
  by (simp add: tracker_ok_def with_thresholds_def)

text \<open>
  Flushing a pass records each target once, whatever the order and number of the outcomes that
  the two phases reported for it: a target with a candidate in any of them succeeds, one that was
  only evaluated fails unless the pass was disabled by its environment, and any other keeps its
  entry. The summary counts every distinct target in exactly one class.
\<close>

theorem flush_records_each_target_once:
  "(let (s, t') = flush_target_pass_outcomes xs outcome t in
      state_entry t' u = flushed_entry (ft_current_epoch t) (had_in xs u)
        (evaluated_in xs u \<and> \<not> is_environmentally_disabled outcome) (state_entry t u)
      \<and> fs_successes s + fs_failures s + fs_skipped s = card (tp_target ` set xs)
      \<and> fs_successes s = card {u. had_in xs u}
      \<and> (is_environmentally_disabled outcome \<longrightarrow> fs_failures s = 0))"
proof -
  let ?m = "merge_target_pass_outcomes xs"
  obtain s t' where st: "flush_target_pass_outcomes xs outcome t = (s, t')" by fastforce
  have loop: "flush_loop (ft_current_epoch t) outcome ?m (flush_summary_default, t) = (s, t')"
    using st by (auto simp: flush_target_pass_outcomes_def Let_def split: if_splits)
  have "state_entry t' u = flushed_entry (ft_current_epoch t) (had_in xs u)
        (evaluated_in xs u \<and> \<not> is_environmentally_disabled outcome) (state_entry t u)"
    using flush_loop_entry [OF merged_distinct, of "ft_current_epoch t" outcome xs flush_summary_default t u]
    by (simp add: merged_in loop)
  moreover have counts: "fs_successes s = length (filter tp_had_candidate ?m)"
    "fs_failures s = (if is_environmentally_disabled outcome then 0
       else length (filter (\<lambda>x. \<not> tp_had_candidate x \<and> tp_evaluated x) ?m))"
    "fs_skipped s = (if is_environmentally_disabled outcome
       then length (filter (\<lambda>x. \<not> tp_had_candidate x) ?m)
       else length (filter (\<lambda>x. \<not> tp_had_candidate x \<and> \<not> tp_evaluated x) ?m))"
    using flush_loop_counts [of "ft_current_epoch t" outcome ?m flush_summary_default t] loop
    by (simp_all add: flush_summary_default_def)
  moreover have "fs_successes s + fs_failures s + fs_skipped s = card (tp_target ` set xs)"
  proof -
    have "length (filter (\<lambda>x. \<not> tp_had_candidate x) ?m) =
        length (filter (\<lambda>x. \<not> tp_had_candidate x \<and> tp_evaluated x) ?m)
        + length (filter (\<lambda>x. \<not> tp_had_candidate x \<and> \<not> tp_evaluated x) ?m)"
      using length_filter_split [of "filter (\<lambda>x. \<not> tp_had_candidate x) ?m" tp_evaluated]
      by (simp add: conj_commute)
    then have "fs_successes s + fs_failures s + fs_skipped s = length ?m"
      using counts length_filter_split [of ?m tp_had_candidate] by simp
    also have "\<dots> = card (set (map tp_target ?m))"
      using distinct_card [OF merged_distinct [of xs]] by simp
    finally show ?thesis by (simp add: merged_target_set)
  qed
  moreover have "fs_successes s = card {u. had_in xs u}"
  proof -
    have d: "distinct (map tp_target (filter tp_had_candidate ?m))"
      using merged_distinct by (rule distinct_map_filter)
    have "set (map tp_target (filter tp_had_candidate ?m)) = {u. had_in ?m u}"
      by (auto simp: had_in_def list_ex_iff)
    with distinct_card [OF d] counts(1) show ?thesis by (simp add: merged_in)
  qed
  ultimately show ?thesis by (simp add: st)
qed

theorem flush_records_each_target_once_witness:
  "fs_failures (fst (flush_target_pass_outcomes
      [\<lparr>tp_target = ''a'', tp_had_candidate = False, tp_evaluated = True\<rparr>]
      (Environmentally_Disabled Gpu_Wedged) (with_thresholds 1 2))) = 0"
  using flush_records_each_target_once
    [of "[\<lparr>tp_target = ''a'', tp_had_candidate = False, tp_evaluated = True\<rparr>]"
      "Environmentally_Disabled Gpu_Wedged" "with_thresholds 1 2"]
  by (simp add: case_prod_unfold Let_def)

text \<open>
  The drought reset is one-shot: over any run of passes in which no target improves and the streak
  is not broken, the reset clears cooldowns at most once, however long the drought lasts and
  whatever fails meanwhile. A reset that found nothing to clear does not use the shot up.
\<close>

theorem drought_reset_one_shot:
  assumes "list_all dry ps"
  shows "length (filter fired (fst (run_passes threshold reset_after t ps))) \<le> 1"
  using assms
proof (induction ps arbitrary: t)
  case (Cons p ps)
  let ?r = "discovery_pass threshold reset_after t p"
  show ?case
  proof (cases "fired (fst ?r)")
    case True
    then have "filter fired (fst (run_passes threshold reset_after (snd ?r) ps)) = []"
      using Cons.prems fired_stamps [of threshold reset_after t p] by (intro tombstoned_run) auto
    with True show ?thesis by (simp add: case_prod_unfold Let_def)
  next
    case False
    then show ?thesis using Cons by (simp add: case_prod_unfold Let_def)
  qed
qed simp

theorem drought_reset_one_shot_witness:
  "length (filter fired (fst (run_passes 1 (Some 1) (foldl tracker_step (with_thresholds 1 9) [Fail ''a''])
     [\<lparr>ps_outcomes = [], ps_outcome = Completed 0, ps_failures = 3\<rparr>,
      \<lparr>ps_outcomes = [\<lparr>tp_target = ''a'', tp_had_candidate = False, tp_evaluated = True\<rparr>],
       ps_outcome = Completed 0, ps_failures = 4\<rparr>]))) \<le> 1"
  by (rule drought_reset_one_shot) (simp add: dry_def)

text \<open>
  The creature-level alarm counts disabled passes from before the last success: a creature that
  has just accepted a candidate after \<open>k\<close> disabled passes is reported as \<open>k\<close> epochs without one,
  and when \<open>k\<close> exceeds the alarm threshold no later drought, however long, raises the alarm.
\<close>

theorem alarm_counts_passes_before_success:
  assumes "ol_environmentally_disabled l = k" "0 < n"
  shows "creature_alarm_phase (Some k) creature (log_record_outcome (Completed n) l) \<noteq> None
    \<and> (\<forall>threshold < k. \<forall>m.
         creature_alarm_phase (Some threshold) creature
           (foldl (\<lambda>l _. log_record_outcome (Completed 0) l) (log_record_outcome (Completed n) l) [0..<m]) = None)"
proof -
  let ?l = "log_record_outcome (Completed n) l"
  have dis: "ol_environmentally_disabled (foldl (\<lambda>l _. log_record_outcome (Completed 0) l) ?l xs) = k" for xs
    using assms(1) by (induction xs rule: rev_induct) (simp_all add: log_record_outcome_def)
  have "sat_add a k \<noteq> threshold" if "threshold < k" for a threshold
  proof -
    have "unat k \<le> unat (sat_add a k)" using unat_le_max [of k] by (simp add: unat_sat_add)
    with that show ?thesis by (auto simp: word_less_nat_alt)
  qed
  moreover have sat_add_zero: "sat_add 0 k = k"
    using unat_lt_length [of k] by (simp add: sat_add_def)
  moreover have "consecutive_trailing_failures ?l = 0" "ol_environmentally_disabled ?l = k"
    using assms dis [of "[]"] by (simp_all add: trailing_failures_record)
  ultimately show ?thesis
    by (simp add: creature_alarm_phase_def emit_creature_drought_alarm_def Let_def dis sat_add_zero)
qed

theorem alarm_counts_passes_before_success_witness:
  "creature_alarm_phase (Some 100) ''creature''
     (log_record_outcome (Completed 3) \<lparr>ol_outcomes = [False], ol_environmentally_disabled = 100\<rparr>) \<noteq> None"
  using alarm_counts_passes_before_success
    [of "\<lparr>ol_outcomes = [False], ol_environmentally_disabled = 100\<rparr>" 100 3 "''creature''"] by simp

end
