(* ===== verification/Cleanup.thy ===== *)
theory Cleanup
  imports Prelude
begin

text \<open>
  Removing discovery directories (\<open>discovery_cleanup.rs\<close>): the gate on what may be removed at
  all, the removal of one directory with its last-moment lock check, and the sweep for orphans.

  Other processes act between any two system calls, so the file system is a sequence of worlds:
  \<open>ws n\<close> is what the \<open>n\<close>-th system call of the run sees. Nothing is assumed of how one world
  follows from another. A call that the code skips leaves its slot unused. The removal calls a
  run makes are returned with their slots; whether such a call succeeds is the world's answer.
\<close>

section \<open>Paths and worlds\<close>

datatype component =
    Prefix string | Root_Dir | Cur_Dir | Parent_Dir | Normal string | Normal_Other "u8 list"

type_synonym path = "component list"

datatype io_error = Not_Found | Io_Error string

datatype node_kind = Symlink | Directory | Other_File

record metadata =
  md_kind :: node_kind
  md_modified :: "io_error + nat"

record world =
  w_symlink_metadata :: "path \<Rightarrow> io_error + metadata"
  w_exists :: "path \<Rightarrow> bool"
  w_is_dir :: "path \<Rightarrow> bool"
  w_read_dir :: "path \<Rightarrow> io_error + (io_error + component) list"
  w_file_type :: "path \<Rightarrow> io_error + node_kind"
  w_remove_dir_all :: "path \<Rightarrow> io_error option"

type_synonym worlds = "nat \<Rightarrow> world"

definition lock_file_name :: string where "lock_file_name = ''discovery.lock''"
definition host_lock_file_name :: string where "host_lock_file_name = ''.discovery.lock''"
definition lock_file_names :: "string list" where
  "lock_file_names = [lock_file_name, host_lock_file_name]"
definition discovery_data_file_name :: string where
  "discovery_data_file_name = ''discovery_data.parquet''"
definition discovery_dir_marker :: string where "discovery_dir_marker = ''.discovery''"

datatype cleanup_outcome = Removed | Already_Gone | Claimed

datatype lock_recheck = Skip | Enforce

text \<open>Errors, with the path that the message shows.\<close>

datatype cleanup_error =
    Empty_Path
  | Parent_Component path
  | Not_A_Discovery_Dir path
  | Refusing_Symlink path
  | Not_A_Directory path
  | Io io_error

section \<open>The gate\<close>

definition marked_component :: "component \<Rightarrow> bool" where
  "marked_component c = (case c of Normal name \<Rightarrow> contains discovery_dir_marker name | _ \<Rightarrow> False)"

text \<open>The three \<open>exists\<close> probes use the slots \<open>n\<close>, \<open>n + 1\<close> and \<open>n + 2\<close>.\<close>

definition assert_is_discovery_dir :: "worlds \<Rightarrow> nat \<Rightarrow> path \<Rightarrow> cleanup_error option" where
  "assert_is_discovery_dir ws n path =
     (if path = [] then Some Empty_Path
      else if list_ex (\<lambda>c. c = Parent_Dir) path then Some (Parent_Component path)
      else
        let has_marker = list_ex marked_component path;
            has_contents = list_ex (\<lambda>(i, name). w_exists (ws (n + i)) (path @ [Normal name]))
              (enumerate 0 (lock_file_names @ [discovery_data_file_name]))
        in if has_marker \<or> has_contents then None else Some (Not_A_Discovery_Dir path))"

text \<open>The lock probes fail closed: any error but \<open>NotFound\<close> counts as a lock.\<close>

definition is_directory_orphaned :: "worlds \<Rightarrow> nat \<Rightarrow> path \<Rightarrow> bool" where
  "is_directory_orphaned ws n dir =
     list_all (\<lambda>(i, name).
         case w_symlink_metadata (ws (n + i)) (dir @ [Normal name]) of
           Inr _ \<Rightarrow> False
         | Inl Not_Found \<Rightarrow> True
         | Inl (Io_Error _) \<Rightarrow> False)
       (enumerate 0 lock_file_names)"

definition directory_touched_since :: "world \<Rightarrow> path \<Rightarrow> nat \<Rightarrow> io_error + bool" where
  "directory_touched_since w dir scan_started =
     and_then (w_symlink_metadata w dir) (\<lambda>m. and_then (md_modified m) (\<lambda>t. Inr (scan_started \<le> t)))"

section \<open>Removing one directory\<close>

text \<open>Slots: the gate 0 to 2, the metadata 3, the lock probes 4 and 5, the removal 7.\<close>

definition remove_discovery_dir ::
  "worlds \<Rightarrow> nat \<Rightarrow> path \<Rightarrow> lock_recheck \<Rightarrow> (cleanup_error + cleanup_outcome) \<times> (nat \<times> path) list" where
  "remove_discovery_dir ws n path recheck =
     (case assert_is_discovery_dir ws n path of
        Some e \<Rightarrow> (Inl e, [])
      | None \<Rightarrow>
          case w_symlink_metadata (ws (n + 3)) path of
            Inl Not_Found \<Rightarrow> (Inr Already_Gone, [])
          | Inl (Io_Error e) \<Rightarrow> (Inl (Io (Io_Error e)), [])
          | Inr m \<Rightarrow>
              if md_kind m = Symlink then (Inl (Refusing_Symlink path), [])
              else if md_kind m \<noteq> Directory then (Inl (Not_A_Directory path), [])
              else if recheck = Enforce \<and> \<not> is_directory_orphaned ws (n + 4) path then (Inr Claimed, [])
              else (case w_remove_dir_all (ws (n + 7)) path of
                      None \<Rightarrow> Inr Removed
                    | Some Not_Found \<Rightarrow> Inr Already_Gone
                    | Some (Io_Error e) \<Rightarrow> Inl (Io (Io_Error e)), [(n + 7, path)]))"

definition cleanup_discovery_dir ::
  "worlds \<Rightarrow> nat \<Rightarrow> path \<Rightarrow> (cleanup_error + cleanup_outcome) \<times> (nat \<times> path) list" where
  "cleanup_discovery_dir ws n path = remove_discovery_dir ws n path Skip"

definition cleanup_orphaned_discovery_dir ::
  "worlds \<Rightarrow> nat \<Rightarrow> path \<Rightarrow> (cleanup_error + cleanup_outcome) \<times> (nat \<times> path) list" where
  "cleanup_orphaned_discovery_dir ws n path = remove_discovery_dir ws n path Enforce"

section \<open>The sweep\<close>

datatype sweep_error =
    Entry_Failed io_error
  | File_Type_Failed path io_error
  | Modified_Failed path io_error
  | Remove_Failed path cleanup_error

record orphan_cleanup_result =
  oc_removed :: u32
  oc_already_gone :: u32
  oc_claimed :: u32
  oc_errors :: "sweep_error list"

definition orphan_result_default :: orphan_cleanup_result where
  "orphan_result_default = \<lparr>oc_removed = 0, oc_already_gone = 0, oc_claimed = 0, oc_errors = []\<rparr>"

text \<open>
  One directory entry, from slot \<open>n\<close>: the file type, \<open>is_dir\<close> at 1, the lock probes 2 and 3, the
  modification time at 4 and the removal from 5 on. \<open>entry_slots\<close> slots per entry.
\<close>

definition entry_slots :: nat where "entry_slots = 13"

definition sweep_entry ::
  "worlds \<Rightarrow> nat \<Rightarrow> nat \<Rightarrow> path \<Rightarrow> io_error + component \<Rightarrow> orphan_cleanup_result
     \<Rightarrow> orphan_cleanup_result \<times> (nat \<times> path) list" where
  "sweep_entry ws n scan_started base entry r =
     (case entry of
        Inl e \<Rightarrow> (r\<lparr>oc_errors := oc_errors r @ [Entry_Failed e]\<rparr>, [])
      | Inr name \<Rightarrow>
          let path = base @ [name] in
          case w_file_type (ws n) path of
            Inl e \<Rightarrow> (r\<lparr>oc_errors := oc_errors r @ [File_Type_Failed path e]\<rparr>, [])
          | Inr ft \<Rightarrow>
              if ft = Symlink then (r, [])
              else if \<not> w_is_dir (ws (n + 1)) path then (r, [])
              else if \<not> is_directory_orphaned ws (n + 2) path then (r, [])
              else case directory_touched_since (ws (n + 4)) path scan_started of
                  Inl e \<Rightarrow> (r\<lparr>oc_errors := oc_errors r @ [Modified_Failed path e]\<rparr>, [])
                | Inr True \<Rightarrow> (r\<lparr>oc_claimed := oc_claimed r + 1\<rparr>, [])
                | Inr False \<Rightarrow>
                    let (outcome, calls) = remove_discovery_dir ws (n + 5) path Enforce in
                    (case outcome of
                       Inr Removed \<Rightarrow> r\<lparr>oc_removed := oc_removed r + 1\<rparr>
                     | Inr Already_Gone \<Rightarrow> r\<lparr>oc_already_gone := oc_already_gone r + 1\<rparr>
                     | Inr Claimed \<Rightarrow> r\<lparr>oc_claimed := oc_claimed r + 1\<rparr>
                     | Inl e \<Rightarrow> r\<lparr>oc_errors := oc_errors r @ [Remove_Failed path e]\<rparr>, calls))"

fun sweep_loop ::
  "worlds \<Rightarrow> nat \<Rightarrow> nat \<Rightarrow> path \<Rightarrow> (io_error + component) list \<Rightarrow> orphan_cleanup_result
     \<Rightarrow> orphan_cleanup_result \<times> (nat \<times> path) list" where
  "sweep_loop ws n scan_started base [] r = (r, [])"
| "sweep_loop ws n scan_started base (entry # rest) r =
     (let (r', calls) = sweep_entry ws n scan_started base entry r;
          (r'', calls') = sweep_loop ws (n + entry_slots) scan_started base rest r'
      in (r'', calls @ calls'))"

definition clean_orphaned_discovery_dirs_since ::
  "worlds \<Rightarrow> path \<Rightarrow> nat \<Rightarrow> (cleanup_error + orphan_cleanup_result) \<times> (nat \<times> path) list" where
  "clean_orphaned_discovery_dirs_since ws base scan_started =
     (if base = [] \<or> \<not> marked_component (last base) then (Inl (Not_A_Discovery_Dir base), [])
      else if \<not> w_exists (ws 0) base then (Inr orphan_result_default, [])
      else if \<not> w_is_dir (ws 1) base then (Inl (Not_A_Directory base), [])
      else case w_read_dir (ws 2) base of
          Inl Not_Found \<Rightarrow> (Inr orphan_result_default, [])
        | Inl (Io_Error e) \<Rightarrow> (Inl (Io (Io_Error e)), [])
        | Inr entries \<Rightarrow>
            let (r, calls) = sweep_loop ws 3 scan_started base entries orphan_result_default
            in (Inr r, calls))"

section \<open>What a removal call rests on\<close>

text \<open>What the run saw of a path just before it called \<open>remove_dir_all\<close> on it in slot \<open>i\<close>.\<close>

definition seen_directory :: "worlds \<Rightarrow> nat \<Rightarrow> path \<Rightarrow> bool" where
  "seen_directory ws i path =
     (case w_symlink_metadata (ws i) path of Inr m \<Rightarrow> md_kind m = Directory | Inl _ \<Rightarrow> False)"

definition seen_unlocked :: "worlds \<Rightarrow> nat \<Rightarrow> path \<Rightarrow> bool" where
  "seen_unlocked ws i path \<longleftrightarrow>
     w_symlink_metadata (ws i) (path @ [Normal lock_file_name]) = Inl Not_Found
     \<and> w_symlink_metadata (ws (i + 1)) (path @ [Normal host_lock_file_name]) = Inl Not_Found"

definition seen_older :: "worlds \<Rightarrow> nat \<Rightarrow> path \<Rightarrow> nat \<Rightarrow> bool" where
  "seen_older ws i path bound =
     (case w_symlink_metadata (ws i) path of
        Inr m \<Rightarrow> (case md_modified m of Inr t \<Rightarrow> t < bound | Inl _ \<Rightarrow> False)
      | Inl _ \<Rightarrow> False)"

lemma orphaned_unlocked: "is_directory_orphaned ws n dir \<longleftrightarrow> seen_unlocked ws n dir"
  by (auto simp: is_directory_orphaned_def seen_unlocked_def lock_file_names_def
      split: sum.splits io_error.splits)

lemma touched_older:
  "directory_touched_since w dir b = Inr False \<Longrightarrow> w = ws n \<Longrightarrow> seen_older ws n dir b"
  by (auto simp: directory_touched_since_def seen_older_def and_then_def split: sum.splits)

text \<open>A path that the gate lets through.\<close>

definition recognised :: "worlds \<Rightarrow> nat \<Rightarrow> path \<Rightarrow> bool" where
  "recognised ws n path \<longleftrightarrow> path \<noteq> [] \<and> \<not> list_ex (\<lambda>c. c = Parent_Dir) path
     \<and> (list_ex marked_component path
        \<or> w_exists (ws n) (path @ [Normal lock_file_name])
        \<or> w_exists (ws (n + 1)) (path @ [Normal host_lock_file_name])
        \<or> w_exists (ws (n + 2)) (path @ [Normal discovery_data_file_name]))"

lemma assert_recognised: "assert_is_discovery_dir ws n path = None \<longleftrightarrow> recognised ws n path"
  by (auto simp: assert_is_discovery_dir_def recognised_def lock_file_names_def Let_def
      numeral_2_eq_2)

lemma removal_calls:
  assumes "(i, p) \<in> set (snd (remove_discovery_dir ws n path recheck))"
  shows "p = path \<and> i = n + 7 \<and> recognised ws n path \<and> seen_directory ws (n + 3) path
    \<and> (recheck = Enforce \<longrightarrow> seen_unlocked ws (n + 4) path)"
  using assms
  by (auto simp: remove_discovery_dir_def assert_recognised seen_directory_def orphaned_unlocked
      split: option.splits sum.splits io_error.splits if_splits)

lemma removed_calls:
  "fst (remove_discovery_dir ws n path recheck) = Inr Removed \<longleftrightarrow>
     (\<exists>i p. snd (remove_discovery_dir ws n path recheck) = [(i, p)] \<and> w_remove_dir_all (ws i) p = None)"
  by (auto simp: remove_discovery_dir_def split: option.splits sum.splits io_error.splits)

lemma sweep_entry_calls:
  assumes "(i, p) \<in> set (snd (sweep_entry ws n since base entry r))"
  shows "i = n + 12 \<and> (\<exists>name. entry = Inr name \<and> p = base @ [name])
    \<and> w_file_type (ws n) p \<noteq> Inr Symlink \<and> seen_unlocked ws (n + 2) p \<and> seen_older ws (n + 4) p since
    \<and> recognised ws (n + 5) p \<and> seen_directory ws (n + 8) p \<and> seen_unlocked ws (n + 9) p"
proof (cases entry)
  case (Inl e)
  with assms show ?thesis by (simp add: sweep_entry_def)
next
  case (Inr name)
  let ?p = "base @ [name]"
  from assms Inr have call: "(i, p) \<in> set (snd (remove_discovery_dir ws (n + 5) ?p Enforce))"
    and guards: "w_file_type (ws n) ?p \<noteq> Inr Symlink" "is_directory_orphaned ws (n + 2) ?p"
      "directory_touched_since (ws (n + 4)) ?p since = Inr False"
    by (auto simp: sweep_entry_def Let_def case_prod_unfold split: sum.splits if_splits bool.splits)
  from removal_calls [OF call] guards Inr show ?thesis
    by (auto simp: orphaned_unlocked touched_older add.commute [of _ n])
qed

lemma sweep_loop_calls:
  "(i, p) \<in> set (snd (sweep_loop ws n since base entries r)) \<Longrightarrow>
     \<exists>m r'. n \<le> m \<and> (\<exists>entry \<in> set entries. (i, p) \<in> set (snd (sweep_entry ws m since base entry r')))"
proof (induction entries arbitrary: n r)
  case (Cons entry rest)
  let ?e = "sweep_entry ws n since base entry r"
  from Cons.prems consider "(i, p) \<in> set (snd ?e)"
    | "(i, p) \<in> set (snd (sweep_loop ws (n + entry_slots) since base rest (fst ?e)))"
    by (auto simp: Let_def case_prod_unfold)
  then show ?case
  proof cases
    case 1
    then show ?thesis by (intro exI [of _ n] exI [of _ r]) auto
  next
    case 2
    from Cons.IH [OF this] obtain m r' entry' where "n + entry_slots \<le> m" "entry' \<in> set rest"
      "(i, p) \<in> set (snd (sweep_entry ws m since base entry' r'))" by blast
    then show ?thesis by (intro exI [of _ m] exI [of _ r']) auto
  qed
qed simp

text \<open>The counts of a sweep, against the calls it made.\<close>

definition succeeded :: "worlds \<Rightarrow> nat \<times> path \<Rightarrow> bool" where
  "succeeded ws = (\<lambda>(i, p). w_remove_dir_all (ws i) p = None)"

lemma remove_calls_succeeded:
  "length (filter (succeeded ws) (snd (remove_discovery_dir ws n path recheck))) =
     (if fst (remove_discovery_dir ws n path recheck) = Inr Removed then 1 else 0)"
  by (auto simp: remove_discovery_dir_def succeeded_def split: option.splits sum.splits io_error.splits)

lemma sweep_entry_count:
  "oc_removed (fst (sweep_entry ws n since base entry r)) =
     oc_removed r + word_of_nat (length (filter (succeeded ws) (snd (sweep_entry ws n since base entry r))))"
proof (cases entry)
  case (Inr name)
  have "length (filter (succeeded ws) (snd (remove_discovery_dir ws (n + 5) (base @ [name]) Enforce))) =
      (if fst (remove_discovery_dir ws (n + 5) (base @ [name]) Enforce) = Inr Removed then 1 else 0)"
    by (rule remove_calls_succeeded)
  with Inr show ?thesis
    by (auto simp: sweep_entry_def Let_def case_prod_unfold
        split: sum.splits bool.splits cleanup_outcome.splits if_splits)
qed (simp add: sweep_entry_def)

lemma sweep_loop_count:
  "oc_removed (fst (sweep_loop ws n since base entries r)) =
     oc_removed r + word_of_nat (length (filter (succeeded ws) (snd (sweep_loop ws n since base entries r))))"
proof (induction entries arbitrary: n r)
  case (Cons entry rest)
  show ?case
    using Cons.IH [of "n + entry_slots" "fst (sweep_entry ws n since base entry r)"]
      sweep_entry_count [of ws n since base entry r]
    by (simp add: Let_def case_prod_unfold ac_simps)
qed simp

section \<open>Properties\<close>

text \<open>
  C17. The sweep never removes a directory that is in use, as far as it can be seen: whatever other
  processes do between the system calls, every removal call is on an entry of the base
  directory, which carries the discovery marker; the entry was a real directory and no symbolic
  link, was last modified before the scan started, and both spellings of its lock were reported
  absent, with no other error, once before the age check and again in the last probes before the
  call. The result counts exactly the calls that succeeded.
\<close>

theorem orphan_sweep_spares_claimed:
  assumes "(i, p) \<in> set (snd (clean_orphaned_discovery_dirs_since ws base since))"
  shows "\<exists>n name. i = n + 12 \<and> p = base @ [name] \<and> marked_component (last base)
    \<and> \<not> list_ex (\<lambda>c. c = Parent_Dir) p
    \<and> w_file_type (ws n) p \<noteq> Inr Symlink \<and> seen_unlocked ws (n + 2) p \<and> seen_older ws (n + 4) p since
    \<and> seen_directory ws (n + 8) p \<and> seen_unlocked ws (n + 9) p
    \<and> (case fst (clean_orphaned_discovery_dirs_since ws base since) of
         Inl _ \<Rightarrow> False
       | Inr r \<Rightarrow> oc_removed r = word_of_nat (length
           (filter (succeeded ws) (snd (clean_orphaned_discovery_dirs_since ws base since)))))"
proof -
  from assms obtain entries where read: "w_read_dir (ws 2) base = Inr entries"
    and gates: "base \<noteq> []" "marked_component (last base)" "w_exists (ws 0) base" "w_is_dir (ws 1) base"
    by (auto simp: clean_orphaned_discovery_dirs_since_def split: if_splits sum.splits io_error.splits)
  then have eq: "clean_orphaned_discovery_dirs_since ws base since =
      (Inr (fst (sweep_loop ws 3 since base entries orphan_result_default)),
       snd (sweep_loop ws 3 since base entries orphan_result_default))"
    by (simp add: clean_orphaned_discovery_dirs_since_def Let_def case_prod_unfold)
  from assms eq have "(i, p) \<in> set (snd (sweep_loop ws 3 since base entries orphan_result_default))" by simp
  from sweep_loop_calls [OF this] obtain m r' entry
    where "(i, p) \<in> set (snd (sweep_entry ws m since base entry r'))" by blast
  from sweep_entry_calls [OF this] gates(2) sweep_loop_count [of ws 3 since base entries orphan_result_default]
  show ?thesis by (intro exI [of _ m]) (auto simp: eq recognised_def orphan_result_default_def)
qed

text \<open>A world with one abandoned directory under a discovery root.\<close>

definition example_base :: path where "example_base = [Root_Dir, Normal ''.discovery'']"

definition example_world :: world where
  "example_world = \<lparr>
     w_symlink_metadata = (\<lambda>p. if length p = 3 then Inr \<lparr>md_kind = Directory, md_modified = Inr 5\<rparr> else Inl Not_Found),
     w_exists = (\<lambda>p. length p \<le> 3), w_is_dir = (\<lambda>p. length p \<le> 3),
     w_read_dir = (\<lambda>p. Inr [Inr (Normal ''run-1'')]), w_file_type = (\<lambda>p. Inr Directory),
     w_remove_dir_all = (\<lambda>p. None)\<rparr>"

lemma example_sweep:
  "snd (clean_orphaned_discovery_dirs_since (\<lambda>_. example_world) example_base 9) =
     [(15, example_base @ [Normal ''run-1''])]"
  by (simp add: clean_orphaned_discovery_dirs_since_def example_world_def example_base_def
      sweep_entry_def remove_discovery_dir_def assert_is_discovery_dir_def marked_component_def
      discovery_dir_marker_def is_directory_orphaned_def lock_file_names_def
      directory_touched_since_def Let_def case_prod_unfold)

theorem orphan_sweep_spares_claimed_witness:
  "seen_older (\<lambda>_. example_world) 7 (example_base @ [Normal ''run-1'']) 9"
  using orphan_sweep_spares_claimed
    [of 15 "example_base @ [Normal ''run-1'']" "\<lambda>_. example_world" example_base 9]
  by (auto simp: example_sweep seen_older_def)

text \<open>
  The guarantee ends with the last probe, as the code's comment says: a lock that appears in the
  two slots between it and the call does not stop the removal.
\<close>

definition late_claim :: "path \<Rightarrow> worlds" where
  "late_claim p n = (if n < 14 then example_world
     else example_world\<lparr>w_symlink_metadata := (\<lambda>q. Inr \<lparr>md_kind = Other_File, md_modified = Inr 10\<rparr>)\<rparr>)"

lemma late_claim_is_lost:
  "snd (clean_orphaned_discovery_dirs_since (late_claim p) example_base 9) =
     [(15, example_base @ [Normal ''run-1''])]"
  by (simp add: clean_orphaned_discovery_dirs_since_def late_claim_def example_world_def example_base_def
      sweep_entry_def remove_discovery_dir_def assert_is_discovery_dir_def marked_component_def
      discovery_dir_marker_def is_directory_orphaned_def lock_file_names_def
      directory_touched_since_def Let_def case_prod_unfold)

end
