(* ===== verification/Candidates.thy ===== *)
theory Candidates
  imports Rejections Floats
begin

text \<open>
  Candidates and their filters: the coordinated structural operations and candidates
  (\<open>ffi_types/candidates.rs\<close>), the per-final-target cap (\<open>discovery_dispatch.rs\<close>), the
  non-finite, non-positive and multi-operation filters and the merge into a result
  (\<open>candidate_aggregation.rs\<close>), and the truncation of the combined candidate sets
  (\<open>synapse/filtering.rs\<close>).

  Gains, weights and biases are \<open>f32\<close> bit patterns, compared as in \<open>Floats\<close>; the product of two
  of them is the hardware's and a parameter (\<open>mul\<close>). Of the result's metadata only what these
  operations read or write is kept.
\<close>

section \<open>Data\<close>

datatype structural_op =
    Remove_Synapse string string
  | Add_Synapse string string f32
  | Add_Neuron string string string f32 "string option"
  | Remove_Neuron string
  | Change_Squash string string
  | Set_Bias string f32
  | Set_Weight string string f32

record compensation =
  cm_target_neuron_uuid :: string
  cm_survivor_neuron_uuid :: string
  cm_delta_weight :: f32
  cm_sample_count :: u64
  cm_candidate_variance :: f32
  cm_survivor_variance :: f32
  cm_covariance :: f32
  cm_correlation :: f32
  cm_bias_only_residual_variance :: f32
  cm_redistributed_residual_variance :: f32
  cm_variance_recovered :: f32
  cm_fully_compensable :: bool

record folded_bias_delta =
  fb_target_neuron_uuid :: string
  fb_bias_delta :: f32

record bias_fold =
  bf_constant_activation :: f32
  bf_activation_variance :: f32
  bf_max_residual :: f32
  bf_folded_targets :: "folded_bias_delta list"

record candidate =
  cd_operations :: "structural_op list"
  cd_gain :: f32
  cd_comment :: "string option"
  cd_compensation :: "compensation option"
  cd_bias_fold :: "bias_fold option"

text \<open>A plain synapse candidate, reduced to its synapse and its gain.\<close>

record synapse_candidate =
  sc_from :: string
  sc_to :: string
  sc_weight :: f32
  sc_gain :: f32

record module_stats_json =
  mj_module_name :: string
  mj_candidates_produced :: nat
  mj_attempts :: u32
  mj_successes :: u32
  mj_gated :: bool
  mj_skipped :: "string option"

record synapse_result =
  sr_helpful :: "synapse_candidate list"
  sr_harmful :: "synapse_candidate list"
  sr_coordinated :: "candidate list"
  sr_breakdown :: breakdown
  sr_module_stats :: "module_stats_json list"
  sr_returned :: nat

definition reject_result :: "string \<Rightarrow> u32 \<Rightarrow> synapse_result \<Rightarrow> synapse_result" where
  "reject_result reason n r = r\<lparr>sr_breakdown := record_many_u32 reason n (sr_breakdown r)\<rparr>"

definition coordinated_min_expected_gain :: f32 where "coordinated_min_expected_gain = 0x3727C5AC"
definition min_coordinated_multi_op_gain :: f32 where "min_coordinated_multi_op_gain = 0x3727C5AC"
definition quality_skip_gain_threshold :: f32 where "quality_skip_gain_threshold = 0x3C23D70A"
definition quality_skip_min_candidates :: nat where "quality_skip_min_candidates = 15"

section \<open>Filters\<close>

text \<open>
  Every filter is a \<open>retain\<close> that reports how many candidates it dropped, clamped to \<open>u32\<close>.
\<close>

definition retain_count :: "('a \<Rightarrow> bool) \<Rightarrow> 'a list \<Rightarrow> u32 \<times> 'a list" where
  "retain_count P xs = (let kept = filter P xs in (clamp_word (length xs - length kept), kept))"

fun op_is_finite :: "structural_op \<Rightarrow> bool" where
  "op_is_finite (Add_Synapse _ _ weight) = f32_is_finite weight"
| "op_is_finite (Set_Weight _ _ weight) = f32_is_finite weight"
| "op_is_finite (Add_Neuron _ _ _ bias _) = f32_is_finite bias"
| "op_is_finite (Set_Bias _ bias) = f32_is_finite bias"
| "op_is_finite (Remove_Synapse _ _) = True"
| "op_is_finite (Remove_Neuron _) = True"
| "op_is_finite (Change_Squash _ _) = True"

definition reject_non_finite_operations :: "candidate list \<Rightarrow> u32 \<times> candidate list" where
  "reject_non_finite_operations cs = retain_count (\<lambda>c. list_all op_is_finite (cd_operations c)) cs"

definition reject_non_finite_gains :: "candidate list \<Rightarrow> u32 \<times> candidate list" where
  "reject_non_finite_gains cs = retain_count (\<lambda>c. f32_is_finite (cd_gain c)) cs"

fun op_target_uuid :: "structural_op \<Rightarrow> string" where
  "op_target_uuid (Remove_Synapse _ to) = to"
| "op_target_uuid (Add_Synapse _ to _) = to"
| "op_target_uuid (Set_Weight _ to _) = to"
| "op_target_uuid (Add_Neuron neuron _ _ _ _) = neuron"
| "op_target_uuid (Remove_Neuron neuron) = neuron"
| "op_target_uuid (Change_Squash neuron _) = neuron"
| "op_target_uuid (Set_Bias neuron _) = neuron"

definition max_coordinated_per_target :: "nat option \<Rightarrow> nat" where
  "max_coordinated_per_target env = min (max (case env of None \<Rightarrow> 3 | Some n \<Rightarrow> n) 1) 32"

definition final_target :: "candidate \<Rightarrow> string option" where
  "final_target c = (if cd_operations c = [] then None else Some (op_target_uuid (last (cd_operations c))))"

fun cap_retain :: "nat \<Rightarrow> (string \<Rightarrow> nat) \<Rightarrow> candidate list \<Rightarrow> candidate list" where
  "cap_retain cap per_target [] = []"
| "cap_retain cap per_target (c # cs) =
     (case final_target c of
        None \<Rightarrow> c # cap_retain cap per_target cs
      | Some t \<Rightarrow>
          if per_target t < cap then c # cap_retain cap (per_target(t := per_target t + 1)) cs
          else cap_retain cap per_target cs)"

definition sort_by_gain :: "candidate list \<Rightarrow> candidate list" where
  "sort_by_gain cs = sort_key (\<lambda>c. Descending (cd_gain c)) cs"

definition apply_coordinated_per_target_cap :: "nat \<Rightarrow> candidate list \<Rightarrow> nat \<times> candidate list" where
  "apply_coordinated_per_target_cap cap cs =
     (if cs = [] \<or> cap = 0 then (0, cs)
      else
        let sorted = sort_by_gain cs;
            kept = cap_retain cap (\<lambda>_. 0) sorted
        in (length sorted - length kept, kept))"

section \<open>Truncating the combined sets\<close>

text \<open>
  The round robin takes one candidate of each kind in turn and stops the moment the limit is
  reached. One pop: whether to stop, the number returned, whether the round progressed, the queue
  and the output.
\<close>

definition rr_pop :: "nat \<Rightarrow> bool \<times> nat \<times> bool \<Rightarrow> 'a list \<times> 'a list \<Rightarrow> (bool \<times> nat \<times> bool) \<times> 'a list \<times> 'a list" where
  "rr_pop limit ctl qo =
     (let (stop, returned, progressed) = ctl; (q, out) = qo in
      if stop then (ctl, qo)
      else case q of
          [] \<Rightarrow> (ctl, qo)
        | c # q' \<Rightarrow> ((limit \<le> returned + 1, returned + 1, True), q', out @ [c]))"

definition rr_round ::
  "nat \<Rightarrow> nat \<Rightarrow> ('a list \<times> 'a list) \<times> ('b list \<times> 'b list) \<times> ('c list \<times> 'c list)
     \<Rightarrow> (bool \<times> nat \<times> bool) \<times> ('a list \<times> 'a list) \<times> ('b list \<times> 'b list) \<times> ('c list \<times> 'c list)" where
  "rr_round limit returned s =
     (let (a, b, c) = s;
          (ctl1, a') = rr_pop limit (False, returned, False) a;
          (ctl2, b') = rr_pop limit ctl1 b;
          (ctl3, c') = rr_pop limit ctl2 c
      in (ctl3, a', b', c'))"

definition queued :: "('a list \<times> 'a list) \<times> ('b list \<times> 'b list) \<times> ('c list \<times> 'c list) \<Rightarrow> nat" where
  "queued s = (case s of (a, b, c) \<Rightarrow> length (fst a) + length (fst b) + length (fst c))"

lemma rr_pop_lengths:
  "rr_pop limit ctl qo = (ctl', qo') \<Longrightarrow>
     length (fst qo') + fst (snd ctl') = length (fst qo) + fst (snd ctl)
     \<and> length (snd qo') + fst (snd ctl) = length (snd qo) + fst (snd ctl')
     \<and> fst (snd ctl) \<le> fst (snd ctl')
     \<and> (snd (snd ctl') \<longleftrightarrow> snd (snd ctl) \<or> fst (snd ctl) < fst (snd ctl'))
     \<and> snd qo' @ fst qo' = snd qo @ fst qo"
  by (auto simp: rr_pop_def Let_def split: prod.splits if_splits list.splits)

lemma rr_round_queued:
  assumes "rr_round limit returned s = ((stop, returned', progressed), s')"
  shows "queued s' + returned' = queued s + returned \<and> returned \<le> returned'
    \<and> (progressed \<longleftrightarrow> returned < returned')"
  using assms
  by (auto simp: rr_round_def queued_def Let_def split: prod.splits dest!: rr_pop_lengths)

function round_robin ::
  "nat \<Rightarrow> nat \<Rightarrow> ('a list \<times> 'a list) \<times> ('b list \<times> 'b list) \<times> ('c list \<times> 'c list)
     \<Rightarrow> 'a list \<times> 'b list \<times> 'c list" where
  "round_robin limit returned s =
     (if limit \<le> returned then (snd (fst s), snd (fst (snd s)), snd (snd (snd s)))
      else case rr_round limit returned s of
          ((stop, returned', progressed), s') \<Rightarrow>
            if stop \<or> \<not> progressed then (snd (fst s'), snd (fst (snd s')), snd (snd (snd s')))
            else round_robin limit returned' s')"
  by auto

termination round_robin
  by (relation "measure (\<lambda>(limit, returned, s). queued s)") (auto dest!: rr_round_queued [OF sym])

declare round_robin.simps [simp del]

datatype any_candidate = Any_Helpful synapse_candidate | Any_Harmful synapse_candidate | Any_Coordinated candidate

fun any_score :: "any_candidate \<Rightarrow> f32" where
  "any_score (Any_Helpful c) = sc_gain c"
| "any_score (Any_Harmful c) = sc_gain c"
| "any_score (Any_Coordinated c) = cd_gain c"

fun split_any :: "any_candidate list \<Rightarrow> synapse_candidate list \<times> synapse_candidate list \<times> candidate list" where
  "split_any [] = ([], [], [])"
| "split_any (x # xs) =
     (let (h, a, c) = split_any xs in
      case x of
        Any_Helpful y \<Rightarrow> (y # h, a, c)
      | Any_Harmful y \<Rightarrow> (h, y # a, c)
      | Any_Coordinated y \<Rightarrow> (h, a, y # c))"

definition truncate_combined ::
  "synapse_candidate list \<Rightarrow> synapse_candidate list \<Rightarrow> candidate list \<Rightarrow> nat \<Rightarrow> bool
     \<Rightarrow> synapse_candidate list \<times> synapse_candidate list \<times> candidate list" where
  "truncate_combined helpful harmful coordinated limit diversify =
     (if limit = 0 then ([], [], [])
      else if length helpful + length harmful + length coordinated \<le> limit
        then (helpful, harmful, coordinated)
      else if diversify
        then round_robin limit 0 ((helpful, []), (harmful, []), (coordinated, []))
      else split_any (take limit (sort_key (\<lambda>x. Descending (any_score x))
             (map Any_Helpful helpful @ map Any_Harmful harmful @ map Any_Coordinated coordinated))))"

section \<open>Merging into a result\<close>

definition empirical_discount :: "nat \<Rightarrow> f32" where
  "empirical_discount op_count =
     (if op_count \<le> 1 then 0x3F800000
      else if op_count = 2 then 0x3F000000
      else if op_count = 3 then 0x3E4CCCCD
      else 0x3DCCCCCD)"

definition apply_operation_count_discount :: "(f32 \<Rightarrow> f32 \<Rightarrow> f32) \<Rightarrow> candidate \<Rightarrow> f32" where
  "apply_operation_count_discount mul c = mul (cd_gain c) (empirical_discount (length (cd_operations c)))"

definition discounted :: "(f32 \<Rightarrow> f32 \<Rightarrow> f32) \<Rightarrow> candidate \<Rightarrow> candidate" where
  "discounted mul c =
     (if 1 < length (cd_operations c) then c\<lparr>cd_gain := apply_operation_count_discount mul c\<rparr> else c)"

definition passes_multi_op_floor :: "candidate \<Rightarrow> bool" where
  "passes_multi_op_floor c =
     (if length (cd_operations c) \<le> 1 then f32_positive (cd_gain c)
      else f32_less min_coordinated_multi_op_gain (cd_gain c))"

definition validate_coordinated_candidate_gain :: "(f32 \<Rightarrow> f32 \<Rightarrow> f32) \<Rightarrow> candidate \<Rightarrow> bool" where
  "validate_coordinated_candidate_gain mul c =
     (if length (cd_operations c) \<le> 1 then f32_positive (cd_gain c)
      else f32_less min_coordinated_multi_op_gain (apply_operation_count_discount mul c))"

definition count_returned :: "synapse_result \<Rightarrow> synapse_result" where
  "count_returned r =
     r\<lparr>sr_returned := length (sr_helpful r) + length (sr_harmful r) + length (sr_coordinated r)\<rparr>"

definition merge_coordinated ::
  "(f32 \<Rightarrow> f32 \<Rightarrow> f32) \<Rightarrow> synapse_result \<Rightarrow> candidate list \<Rightarrow> nat option \<Rightarrow> bool \<Rightarrow> synapse_result" where
  "merge_coordinated mul r replacements max_candidates diversify =
     (if replacements = [] then r
      else
        let (invalid, c1) = reject_non_finite_operations replacements;
            r1 = reject_result rejection_non_finite_operation invalid r;
            (non_finite, c2) = reject_non_finite_gains c1;
            r2 = reject_result rejection_non_finite_gain non_finite r1
        in if c2 = [] then r2
        else
          let (non_positive, c3) = retain_count (\<lambda>c. f32_positive (cd_gain c)) c2;
              r3 = reject_result rejection_non_positive_gain non_positive r2
          in if c3 = [] then r3
          else
            let (multi, c4) = retain_count passes_multi_op_floor (map (discounted mul) c3);
                r4 = reject_result rejection_below_multi_op_floor multi r3
            in if c4 = [] then r4
            else
              let all = sr_coordinated r4 @ c4;
                  sorted = (if diversify then all else sort_by_gain all);
                  r5 = (case max_candidates of
                          None \<Rightarrow> r4\<lparr>sr_coordinated := sorted\<rparr>
                        | Some limit \<Rightarrow>
                            let (h, a, c) = truncate_combined (sr_helpful r4) (sr_harmful r4) sorted limit diversify
                            in r4\<lparr>sr_helpful := h, sr_harmful := a, sr_coordinated := c\<rparr>)
              in count_returned r5)"

section \<open>Sorting and capping\<close>

lemma sort_by_gain_props [simp]:
  "mset (sort_by_gain cs) = mset cs" "set (sort_by_gain cs) = set cs"
  "length (sort_by_gain cs) = length cs" "sort_by_gain [] = []"
  by (simp_all add: sort_by_gain_def)

lemma sorted_descending:
  "sorted (map (\<lambda>c. Descending (f c)) xs) \<longleftrightarrow> sorted_wrt (\<lambda>c d. total_key (f d) \<le> total_key (f c)) xs"
  by (simp add: sorted_map less_eq_descending_def)

lemma sort_by_gain_sorted: "sorted_wrt (\<lambda>c d. total_key (cd_gain d) \<le> total_key (cd_gain c)) (sort_by_gain cs)"
  using sorted_descending [of cd_gain "sort_by_gain cs"] by (simp add: sort_by_gain_def)

lemma cap_retain_target:
  "filter (\<lambda>c. final_target c = Some t) (cap_retain cap m cs) =
     take (cap - m t) (filter (\<lambda>c. final_target c = Some t) cs)"
proof (induction cs arbitrary: m)
  case (Cons c cs)
  show ?case
  proof (cases "final_target c")
    case None
    then show ?thesis using Cons by simp
  next
    case (Some u)
    show ?thesis
    proof (cases "m u < cap")
      case True
      then have "u = t \<Longrightarrow> cap - m t = Suc (cap - Suc (m t))" by simp
      with True Some Cons show ?thesis by (cases "u = t") simp_all
    next
      case False
      with Some Cons show ?thesis by (cases "u = t") simp_all
    qed
  qed
qed simp

lemma cap_retain_free:
  "filter (\<lambda>c. final_target c = None) (cap_retain cap m cs) = filter (\<lambda>c. final_target c = None) cs"
  by (induction cs arbitrary: m) (auto split: option.split)

lemma cap_retain_subset: "set (cap_retain cap m cs) \<subseteq> set cs"
  by (induction cs arbitrary: m) (auto split: option.splits)

lemma cap_retain_length: "length (cap_retain cap m cs) \<le> length cs"
  by (induction cs arbitrary: m) (auto split: option.split intro: le_SucI)

lemma cap_retain_sorted: "sorted_wrt P cs \<Longrightarrow> sorted_wrt P (cap_retain cap m cs)"
  by (induction cs arbitrary: m) (use cap_retain_subset in \<open>fastforce split: option.split\<close>)+

text \<open>The targets of a list, each with at most \<open>cap\<close> candidates.\<close>

definition of_target :: "string \<Rightarrow> candidate list \<Rightarrow> candidate list" where
  "of_target t cs = filter (\<lambda>c. final_target c = Some t) cs"

lemma cap_targets:
  assumes "0 < cap"
  shows "of_target t (snd (apply_coordinated_per_target_cap cap cs)) = take cap (of_target t (sort_by_gain cs))"
  using assms cap_retain_target [of t cap "\<lambda>_. 0" "sort_by_gain cs"]
  by (auto simp: apply_coordinated_per_target_cap_def of_target_def Let_def)

section \<open>The round robin\<close>

definition whole :: "'a list \<times> 'a list \<Rightarrow> 'a list" where
  "whole qo = snd qo @ fst qo"

lemma whole_prefix [simp]: "take (length (snd qo)) (whole qo) = snd qo"
  by (simp add: whole_def)

lemma rr_round_end:
  assumes "returned < limit" "rr_round limit returned s = ((stop, returned', progressed), s')"
  shows "returned' \<le> limit \<and> (stop \<longleftrightarrow> returned' = limit) \<and> (\<not> progressed \<longrightarrow> queued s = 0)
    \<and> whole (fst s') = whole (fst s) \<and> whole (fst (snd s')) = whole (fst (snd s))
    \<and> whole (snd (snd s')) = whole (snd (snd s))"
proof -
  obtain a ao b bo c co where s: "s = ((a, ao), (b, bo), (c, co))" by (metis surj_pair)
  show ?thesis
    using assms unfolding s rr_round_def rr_pop_def queued_def whole_def
    by (cases a; cases b; cases c) (auto simp: Let_def split: if_splits)
qed

definition outs :: "('a list \<times> 'a list) \<times> ('b list \<times> 'b list) \<times> ('c list \<times> 'c list) \<Rightarrow> nat" where
  "outs s = (case s of (a, b, c) \<Rightarrow> length (snd a) + length (snd b) + length (snd c))"

lemma rr_round_outs:
  "rr_round limit returned s = ((stop, returned', progressed), s') \<Longrightarrow> outs s' + returned = outs s + returned'"
  by (auto simp: rr_round_def outs_def Let_def split: prod.splits dest!: rr_pop_lengths)

lemma round_robin_exact:
  assumes "returned \<le> limit" "round_robin limit returned s = (h, a, c)"
  shows "length h + length a + length c = outs s + min (limit - returned) (queued s)
    \<and> take (length h) (whole (fst s)) = h \<and> take (length a) (whole (fst (snd s))) = a
    \<and> take (length c) (whole (snd (snd s))) = c"
  using assms
proof (induction limit returned s rule: round_robin.induct)
  case (1 limit returned s)
  have done_now: ?case if "h = snd (fst t)" "a = snd (fst (snd t))" "c = snd (snd (snd t))"
    "whole (fst t) = whole (fst s)" "whole (fst (snd t)) = whole (fst (snd s))"
    "whole (snd (snd t)) = whole (snd (snd s))" "outs t = outs s + min (limit - returned) (queued s)" for t
    using that(1-3,7) by (simp add: that(4-6) [symmetric] outs_def case_prod_unfold)
  show ?case
  proof (cases "limit \<le> returned")
    case True
    with "1.prems" show ?thesis by (intro done_now [of s]) (simp_all add: round_robin.simps)
  next
    case False
    obtain stop r' prog s' where round: "rr_round limit returned s = ((stop, r', prog), s')"
      by (metis surj_pair)
    note e = rr_round_end [OF _ round] and q = rr_round_queued [OF round] and o = rr_round_outs [OF round]
    show ?thesis
    proof (cases "stop \<or> \<not> prog")
      case True
      then have "outs s' = outs s + min (limit - returned) (queued s)"
        using e q o False by auto
      with "1.prems" False True round e show ?thesis
        by (intro done_now [of s']) (simp_all add: round_robin.simps [of limit returned s])
    next
      case stay: False
      with "1.prems"(2) False round have "round_robin limit r' s' = (h, a, c)"
        by (simp add: round_robin.simps [of limit returned s])
      with "1.IH" [OF False round [symmetric] refl refl stay] e False
      have "length h + length a + length c = outs s' + min (limit - r') (queued s')
        \<and> take (length h) (whole (fst s)) = h \<and> take (length a) (whole (fst (snd s))) = a
        \<and> take (length c) (whole (snd (snd s))) = c" by auto
      with q o False e show ?thesis by auto
    qed
  qed
qed

section \<open>The combined sets\<close>

definition any_of :: "synapse_candidate list \<times> synapse_candidate list \<times> candidate list \<Rightarrow> any_candidate list" where
  "any_of s = (case s of (h, a, c) \<Rightarrow> map Any_Helpful h @ map Any_Harmful a @ map Any_Coordinated c)"

lemma any_of_length [simp]: "length (any_of (h, a, c)) = length h + length a + length c"
  by (simp add: any_of_def)

lemma mset_split_any [simp]: "mset (any_of (split_any xs)) = mset xs"
  by (induction xs) (auto simp: any_of_def Let_def split: prod.splits any_candidate.splits)

text \<open>What sorting by descending score and cutting keeps outranks what it drops.\<close>

lemma take_sorted_outranks:
  assumes "x \<in> set (take k (sort_key (\<lambda>x. Descending (f x)) xs))"
    and "y \<in># mset xs - mset (take k (sort_key (\<lambda>x. Descending (f x)) xs))"
  shows "total_key (f y) \<le> total_key (f x)"
proof -
  let ?s = "sort_key (\<lambda>x. Descending (f x)) xs"
  have "mset xs = mset (take k ?s) + mset (drop k ?s)"
    by (metis append_take_drop_id mset_append mset_sort)
  then have "y \<in> set (drop k ?s)" using assms(2) by simp
  moreover have "sorted_wrt (\<lambda>c d. total_key (f d) \<le> total_key (f c)) (take k ?s @ drop k ?s)"
    using sorted_descending [of f ?s] by simp
  ultimately show ?thesis using assms(1) unfolding sorted_wrt_append by blast
qed

lemma prefix_mset: "take (length h) hs = h \<Longrightarrow> mset h \<subseteq># mset hs"
  by (metis append_take_drop_id mset_append mset_subset_eq_add_left)

lemma any_of_mono:
  "mset h \<subseteq># mset hs \<Longrightarrow> mset a \<subseteq># mset as \<Longrightarrow> mset c \<subseteq># mset cs \<Longrightarrow>
     mset (any_of (h, a, c)) \<subseteq># mset (any_of (hs, as, cs))"
  by (simp add: any_of_def image_mset_subseteq_mono subset_mset.add_mono)

section \<open>Accounting of the merge\<close>

definition merge_reasons :: "string list" where
  "merge_reasons =
     [rejection_non_finite_operation, rejection_non_finite_gain, rejection_non_positive_gain,
      rejection_below_multi_op_floor]"

text \<open>What a breakdown holds under a list of reasons, as a \<open>u32\<close>.\<close>

definition held :: "string list \<Rightarrow> breakdown \<Rightarrow> u32" where
  "held rs b = (\<Sum>r\<leftarrow>rs. count_of b r)"

lemma held_record:
  "distinct rs \<Longrightarrow> held rs (record_many r n b) = held rs b + (if r \<in> set rs then n else 0)"
  unfolding held_def by (induction rs) (auto simp: count_of_record_many)

lemma retain_count_conserves:
  "length xs < 2 ^ 32 \<Longrightarrow> retain_count P xs = (n, ys) \<Longrightarrow>
     n + word_of_nat (length ys) = word_of_nat (length xs) \<and> ys = filter P xs \<and> length ys \<le> length xs"
  using length_filter_le [of P xs]
  by (auto simp: retain_count_def Let_def clamp_word_def of_nat_diff)

lemmas rejections =
  reject_non_finite_operations_def reject_non_finite_gains_def

lemma merge_reasons_distinct: "distinct merge_reasons"
  unfolding merge_reasons_def reason_defs by simp

text \<open>
  Without a limit, every replacement is either appended to the result or counted under one of
  the four reasons of the merge.
\<close>

lemma merge_conserves:
  assumes "length replacements < 2 ^ 32" "distinct rs" "set merge_reasons \<subseteq> set rs"
    and "merge_coordinated mul r replacements None diversify = r'"
  shows "held rs (sr_breakdown r') + word_of_nat (length (sr_coordinated r'))
      = held rs (sr_breakdown r) + word_of_nat (length (sr_coordinated r)) + word_of_nat (length replacements)
    \<and> sr_helpful r' = sr_helpful r \<and> sr_harmful r' = sr_harmful r"
proof -
  obtain n1 c1 where 1: "reject_non_finite_operations replacements = (n1, c1)" by fastforce
  obtain n2 c2 where 2: "reject_non_finite_gains c1 = (n2, c2)" by fastforce
  obtain n3 c3 where 3: "retain_count (\<lambda>c. f32_positive (cd_gain c)) c2 = (n3, c3)" by fastforce
  obtain n4 c4 where 4: "retain_count passes_multi_op_floor (map (discounted mul) c3) = (n4, c4)" by fastforce
  note k1 = retain_count_conserves [OF assms(1) 1 [unfolded rejections]]
  then have l1: "length c1 < 2 ^ 32" using assms(1) le_less_trans by blast
  note k2 = retain_count_conserves [OF l1 2 [unfolded rejections]]
  then have l2: "length c2 < 2 ^ 32" using l1 le_less_trans by blast
  note k3 = retain_count_conserves [OF l2 3]
  then have l3: "length (map (discounted mul) c3) < 2 ^ 32" using l2 le_less_trans unfolding length_map by blast
  note k4 = retain_count_conserves [OF l3 4]
  have mem: "rejection_non_finite_operation \<in> set rs" "rejection_non_finite_gain \<in> set rs"
    "rejection_non_positive_gain \<in> set rs" "rejection_below_multi_op_floor \<in> set rs"
    using assms(3) by (simp_all add: merge_reasons_def)
  have e: "word_of_nat (length replacements) = n1 + word_of_nat (length c1)"
    "word_of_nat (length c1) = n2 + word_of_nat (length c2)"
    "word_of_nat (length c2) = n3 + word_of_nat (length c3)"
    "word_of_nat (length c3) = n4 + word_of_nat (length c4)"
    using k1 [THEN conjunct1] k2 [THEN conjunct1] k3 [THEN conjunct1] k4 [THEN conjunct1]
    by (simp_all del: length_map add: length_map [of "discounted mul" c3])
  show ?thesis
    unfolding assms(4) [symmetric] merge_coordinated_def Let_def 1 2 3 4 prod.case
    by (cases "replacements = []"; cases "c2 = []"; cases "c3 = []"; cases "c4 = []")
      (use e in \<open>simp_all add: reject_result_def record_many_u32_def count_returned_def
         held_record [OF assms(2)] mem eq_commute [of 0]\<close>)
qed

section \<open>Properties\<close>

text \<open>
  The per-target cap keeps, of every final target, exactly its \<open>cap\<close> best candidates by gain in the
  total order, ties in their original order; candidates without operations are all kept, the
  result is in descending order of gain, and the count is the number dropped.
\<close>

theorem per_target_cap_keeps_best:
  assumes "0 < cap" "apply_coordinated_per_target_cap cap cs = (dropped, kept)"
  shows "of_target t kept = take cap (of_target t (sort_by_gain cs))
    \<and> filter (\<lambda>c. final_target c = None) kept = filter (\<lambda>c. final_target c = None) (sort_by_gain cs)
    \<and> sorted_wrt (\<lambda>c d. total_key (cd_gain d) \<le> total_key (cd_gain c)) kept
    \<and> filter (\<lambda>c. cd_gain c = g) (sort_by_gain cs) = filter (\<lambda>c. cd_gain c = g) cs
    \<and> dropped + length kept = length cs"
proof -
  have kept: "kept = cap_retain cap (\<lambda>_. 0) (sort_by_gain cs)"
    "dropped = length cs - length kept"
    using assms by (auto simp: apply_coordinated_per_target_cap_def Let_def split: if_splits)
  moreover have "filter (\<lambda>c. cd_gain c = g) (sort_by_gain cs) = filter (\<lambda>c. cd_gain c = g) cs"
    using sort_key_stable [of "\<lambda>c. Descending (cd_gain c)" "Descending g" cs] by (simp add: sort_by_gain_def)
  ultimately show ?thesis
    using cap_targets [OF assms(1), of t cs] assms(2) sort_by_gain_sorted [of cs]
      cap_retain_length [of cap "\<lambda>_. 0" "sort_by_gain cs"]
    by (simp add: cap_retain_free cap_retain_sorted)
qed

definition example_candidate :: "string \<Rightarrow> f32 \<Rightarrow> candidate" where
  "example_candidate t g = \<lparr>cd_operations = [Remove_Neuron t], cd_gain = g, cd_comment = None,
     cd_compensation = None, cd_bias_fold = None\<rparr>"

theorem per_target_cap_keeps_best_witness:
  "length (snd (apply_coordinated_per_target_cap 1
      [example_candidate ''a'' 0x3F000000, example_candidate ''a'' 0x3F800000])) \<le> 2"
proof -
  obtain n k where nk: "apply_coordinated_per_target_cap 1
      [example_candidate ''a'' 0x3F000000, example_candidate ''a'' 0x3F800000] = (n, k)" by fastforce
  from per_target_cap_keeps_best [OF _ nk, of "''a''" 0] show ?thesis unfolding nk by simp
qed

text \<open>
  Truncating the combined sets returns exactly \<open>limit\<close> candidates, or all of them when there are
  fewer, each one of the input and none twice. In round-robin mode every kind keeps a prefix of
  its own ranking; in ranked mode no dropped candidate outranks a kept one.
\<close>

theorem truncation_exact:
  assumes "truncate_combined helpful harmful coordinated limit diversify = (h, a, c)"
  shows "length h + length a + length c = min limit (length helpful + length harmful + length coordinated)
    \<and> mset (any_of (h, a, c)) \<subseteq># mset (any_of (helpful, harmful, coordinated))
    \<and> (if diversify then take (length h) helpful = h \<and> take (length a) harmful = a
          \<and> take (length c) coordinated = c
       else list_all (\<lambda>x. \<forall>y \<in># mset (any_of (helpful, harmful, coordinated)) - mset (any_of (h, a, c)).
              total_key (any_score y) \<le> total_key (any_score x)) (any_of (h, a, c)))"
proof -
  let ?all = "any_of (helpful, harmful, coordinated)"
  let ?total = "length helpful + length harmful + length coordinated"
  consider "limit = 0" | "limit \<noteq> 0" "?total \<le> limit" | "limit \<noteq> 0" "limit < ?total" "diversify"
    | "limit \<noteq> 0" "limit < ?total" "\<not> diversify" by linarith
  then show ?thesis
  proof cases
    case 1
    with assms show ?thesis by (auto simp: truncate_combined_def any_of_def)
  next
    case 2
    with assms show ?thesis by (auto simp: truncate_combined_def list_all_iff)
  next
    case 3
    with assms have "round_robin limit 0 ((helpful, []), (harmful, []), (coordinated, [])) = (h, a, c)"
      by (simp add: truncate_combined_def)
    from round_robin_exact [OF _ this] 3 show ?thesis
      by (simp add: outs_def queued_def whole_def any_of_mono prefix_mset)
  next
    case 4
    let ?s = "sort_key (\<lambda>x. Descending (any_score x)) ?all"
    have out: "split_any (take limit ?s) = (h, a, c)"
      using 4 assms by (simp add: truncate_combined_def any_of_def)
    then have mset: "mset (any_of (h, a, c)) = mset (take limit ?s)"
      by (metis mset_split_any)
    then have set: "set (any_of (h, a, c)) = set (take limit ?s)"
      by (metis set_mset_mset)
    have "length (any_of (h, a, c)) = min limit ?total"
      using mset_eq_length [OF mset] 4 by simp
    moreover have "mset (take limit ?s) \<subseteq># mset ?all"
      by (metis append_take_drop_id mset_append mset_sort mset_subset_eq_add_left)
    ultimately show ?thesis
      using 4 take_sorted_outranks [of _ limit any_score ?all]
      by (simp add: mset list_all_iff set)
  qed
qed

theorem truncation_exact_witness:
  "case truncate_combined [] [] [example_candidate ''a'' 1, example_candidate ''b'' 2] 1 True of
     (h, a, c) \<Rightarrow> length h + length a + length c = 1"
proof -
  obtain h a c where t: "truncate_combined [] []
      [example_candidate ''a'' 1, example_candidate ''b'' 2] 1 True = (h, a, c)" by (metis surj_pair)
  from truncation_exact [OF t] show ?thesis unfolding t by auto
qed

end
