(* ===== verification/Dispatch.thy ===== *)
theory Dispatch
  imports Candidates
begin

text \<open>
  Running the discovery modules: their success statistics and gating (\<open>module_weights.rs\<close>),
  the creature-scale tiers (\<open>module_tiering.rs\<close>), the parallel detection with its gate, deadline
  and panic isolation, and the sequential merge with its budgets, floors and caps
  (\<open>discovery_dispatch.rs\<close>).

  Double-precision arithmetic is a parameter (\<open>'d f64_ops\<close>): the hardware's. A module's detection
  function is its outcome, \<open>Inl\<close> a panic. The two double-precision fields of a module's reported
  statistics (its rate and its soft failures) are left out.
\<close>

section \<open>Module statistics\<close>

record 'd f64_ops =
  f_zero :: 'd
  f_one :: 'd
  f_half :: 'd
  f_of_u32 :: "u32 \<Rightarrow> 'd"
  f_of_usize :: "nat \<Rightarrow> 'd"
  f_add :: "'d \<Rightarrow> 'd \<Rightarrow> 'd"
  f_mul :: "'d \<Rightarrow> 'd \<Rightarrow> 'd"
  f_div :: "'d \<Rightarrow> 'd \<Rightarrow> 'd"
  f_less :: "'d \<Rightarrow> 'd \<Rightarrow> bool"
  f_less_eq :: "'d \<Rightarrow> 'd \<Rightarrow> bool"
  f_eq :: "'d \<Rightarrow> 'd \<Rightarrow> bool"
  f_is_finite :: "'d \<Rightarrow> bool"

record 'd module_stats =
  ms_attempts :: u32
  ms_successes :: u32
  ms_candidates_produced :: u32
  ms_soft_failures :: 'd

definition module_stats_default :: "'d f64_ops \<Rightarrow> 'd module_stats" where
  "module_stats_default ops =
     \<lparr>ms_attempts = 0, ms_successes = 0, ms_candidates_produced = 0, ms_soft_failures = f_zero ops\<rparr>"

definition success_rate :: "'d f64_ops \<Rightarrow> 'd module_stats \<Rightarrow> 'd" where
  "success_rate ops s =
     (let soft = (if f_is_finite ops (ms_soft_failures s) \<and> f_less ops (f_zero ops) (ms_soft_failures s)
                  then ms_soft_failures s else f_zero ops)
      in if ms_attempts s = 0 \<and> f_eq ops soft (f_zero ops) then f_half ops
         else
           let successes = min (ms_successes s) (ms_attempts s);
               alpha = f_add ops (f_of_u32 ops successes) (f_one ops);
               real_failures = f_of_u32 ops (ms_attempts s - successes);
               beta = f_add ops (f_add ops real_failures soft) (f_one ops)
           in f_div ops alpha (f_add ops alpha beta))"

type_synonym 'd outcome_tracker = "(string \<times> 'd module_stats) list"

definition stats_of :: "'d f64_ops \<Rightarrow> 'd outcome_tracker \<Rightarrow> string \<Rightarrow> 'd module_stats" where
  "stats_of ops t name = (case map_of t name of None \<Rightarrow> module_stats_default ops | Some s \<Rightarrow> s)"

definition record_module :: "'d f64_ops \<Rightarrow> string \<Rightarrow> bool \<Rightarrow> 'd outcome_tracker \<Rightarrow> 'd outcome_tracker" where
  "record_module ops name succeeded t =
     (let s = stats_of ops t name;
          s' = s\<lparr>ms_attempts := ms_attempts s + 1\<rparr>
      in AList.update name (if succeeded then s'\<lparr>ms_successes := ms_successes s' + 1\<rparr> else s') t)"

definition record_candidates :: "'d f64_ops \<Rightarrow> string \<Rightarrow> nat \<Rightarrow> 'd outcome_tracker \<Rightarrow> 'd outcome_tracker" where
  "record_candidates ops name n t =
     (let s = stats_of ops t name in
      AList.update name (s\<lparr>ms_candidates_produced := ms_candidates_produced s + word_of_nat n\<rparr>) t)"

definition clamp_unit :: "'d f64_ops \<Rightarrow> 'd \<Rightarrow> 'd" where
  "clamp_unit ops x =
     (if f_less ops x (f_zero ops) then f_zero ops else if f_less ops (f_one ops) x then f_one ops else x)"

definition record_soft_failures ::
  "'d f64_ops \<Rightarrow> string \<Rightarrow> nat \<Rightarrow> 'd \<Rightarrow> 'd outcome_tracker \<Rightarrow> 'd outcome_tracker" where
  "record_soft_failures ops name n weight t =
     (if n = 0 \<or> f_less_eq ops weight (f_zero ops) then t
      else
        let s = stats_of ops t name in
        AList.update name
          (s\<lparr>ms_soft_failures := f_add ops (ms_soft_failures s) (f_mul ops (f_of_usize ops n) (clamp_unit ops weight))\<rparr>) t)"

definition min_boost_samples :: nat where "min_boost_samples = 10"

definition is_gated :: "'d f64_ops \<Rightarrow> 'd outcome_tracker \<Rightarrow> string \<Rightarrow> 'd \<Rightarrow> bool" where
  "is_gated ops t name threshold =
     (case map_of t name of
        None \<Rightarrow> False
      | Some s \<Rightarrow>
          if unat (ms_attempts s) < min_boost_samples then False
          else f_less ops (success_rate ops s) threshold)"

text \<open>Statistics that only grow by recording keep successes within attempts, until a counter wraps.\<close>

lemma stats_record_module:
  "stats_of ops (record_module ops n ok t) m =
     (if n = m then (let s = stats_of ops t n in
        s\<lparr>ms_attempts := ms_attempts s + 1, ms_successes := ms_successes s + (if ok then 1 else 0)\<rparr>)
      else stats_of ops t m)"
  by (simp add: stats_of_def record_module_def Let_def update_conv)

lemma module_runs_counted:
  "ms_attempts (stats_of ops (fold (\<lambda>(n, ok). record_module ops n ok) runs t) m) =
     ms_attempts (stats_of ops t m) + word_of_nat (length (filter (\<lambda>r. fst r = m) runs))
   \<and> ms_successes (stats_of ops (fold (\<lambda>(n, ok). record_module ops n ok) runs t) m) =
     ms_successes (stats_of ops t m) + word_of_nat (length (filter (\<lambda>r. fst r = m \<and> snd r) runs))"
  by (induction runs arbitrary: t) (auto simp: stats_record_module Let_def)

section \<open>Tiers\<close>

datatype module_tier = Always | Standard | Expensive

definition default_module_tiering_hidden_threshold :: nat where
  "default_module_tiering_hidden_threshold = 1000"

definition expensive_modules :: "string list" where
  "expensive_modules =
     [''multi-hop analysis'', ''topology structure analysis'', ''topology diversification detection'',
      ''co-adaptation detection'', ''merge redundant neuron detection'',
      ''weight coherence ratio detection'', ''skip connection discovery'']"

definition always_modules :: "string list" where
  "always_modules = [''correlated error detection'']"

definition classify_module :: "string \<Rightarrow> module_tier" where
  "classify_module name =
     (if name \<in> set expensive_modules then Expensive
      else if name \<in> set always_modules then Always else Standard)"

definition tiering_applies :: "nat \<Rightarrow> nat \<Rightarrow> bool \<Rightarrow> bool" where
  "tiering_applies hidden threshold escalation \<longleftrightarrow> 0 < threshold \<and> \<not> escalation \<and> threshold < hidden"

definition should_skip_module :: "string \<Rightarrow> nat \<Rightarrow> nat \<Rightarrow> bool \<Rightarrow> bool" where
  "should_skip_module name hidden threshold escalation \<longleftrightarrow>
     tiering_applies hidden threshold escalation \<and> classify_module name = Expensive"

section \<open>Detection\<close>

record detection_result =
  dr_detected_count :: nat
  dr_candidates :: "candidate list"

record module_spec =
  sp_module_name :: string
  sp_phase_name :: string
  sp_max_candidates :: nat
  sp_detect :: "string + detection_result option"

datatype module_skip_reason = Gated_Low_Success | Deadline_Passed | Panicked | Tiered_Out

fun skip_rejection_reason :: "module_skip_reason \<Rightarrow> string" where
  "skip_rejection_reason Gated_Low_Success = rejection_module_gated_low_success"
| "skip_rejection_reason Deadline_Passed = rejection_module_deadline_skipped"
| "skip_rejection_reason Panicked = rejection_module_panicked"
| "skip_rejection_reason Tiered_Out = rejection_module_tiered_out"

record detection_entry =
  en_module_name :: string
  en_phase_name :: string
  en_max_candidates :: nat
  en_result :: "detection_result option"
  en_skip_reason :: "module_skip_reason option"

definition entry_skipped :: "string \<Rightarrow> string \<Rightarrow> module_skip_reason \<Rightarrow> detection_entry" where
  "entry_skipped name phase reason =
     \<lparr>en_module_name = name, en_phase_name = phase, en_max_candidates = 0, en_result = None,
      en_skip_reason = Some reason\<rparr>"

definition entry_of ::
  "module_spec \<Rightarrow> detection_result option \<Rightarrow> module_skip_reason option \<Rightarrow> detection_entry" where
  "entry_of sp result reason =
     \<lparr>en_module_name = sp_module_name sp, en_phase_name = sp_phase_name sp,
      en_max_candidates = sp_max_candidates sp, en_result = result, en_skip_reason = reason\<rparr>"

text \<open>
  One task of the parallel map, with the shared \<open>timed_out\<close> flag it reads and sets and the reading
  of the deadline at that moment.
\<close>

definition detect_task ::
  "(string \<Rightarrow> bool) \<Rightarrow> bool \<Rightarrow> module_spec \<Rightarrow> bool \<Rightarrow> detection_entry \<times> bool" where
  "detect_task gated passed sp timed_out =
     (if gated (sp_module_name sp) then (entry_of sp None (Some Gated_Low_Success), timed_out)
      else if timed_out \<or> passed then (entry_of sp None (Some Deadline_Passed), True)
      else case sp_detect sp of
          Inr r \<Rightarrow> (entry_of sp r None, timed_out)
        | Inl _ \<Rightarrow> (entry_of sp None (Some Panicked), timed_out))"

text \<open>
  The thread pool runs the tasks in any order, given as a list of module positions with the
  deadline readings of their checks; the results are collected by position.
\<close>

fun run_tasks ::
  "(string \<Rightarrow> bool) \<Rightarrow> module_spec list \<Rightarrow> (nat \<times> bool) list \<Rightarrow> bool \<Rightarrow> (nat \<times> detection_entry) list \<times> bool" where
  "run_tasks gated modules [] flag = ([], flag)"
| "run_tasks gated modules ((i, passed) # order) flag =
     (let (entry, flag') = detect_task gated passed (modules ! i) flag;
          (rest, flag'') = run_tasks gated modules order flag'
      in ((i, entry) # rest, flag''))"

definition detect_modules_parallel ::
  "(string \<Rightarrow> bool) \<Rightarrow> module_spec list \<Rightarrow> (nat \<times> bool) list \<Rightarrow> detection_entry list" where
  "detect_modules_parallel gated modules order =
     (if modules = [] then []
      else
        let (done, _) = run_tasks gated modules order False
        in map (\<lambda>i. the (map_of done i)) [0..<length modules])"

section \<open>Merging the detections\<close>

definition count_high_quality :: "synapse_result \<Rightarrow> f32 \<Rightarrow> nat" where
  "count_high_quality r threshold =
     length (filter (\<lambda>c. f32_greater_eq (cd_gain c) threshold) (sr_coordinated r))"

record ('d) merge_config =
  mc_ops :: "'d f64_ops"
  mc_mul :: "f32 \<Rightarrow> f32 \<Rightarrow> f32"
  mc_gate_threshold :: 'd
  mc_soft_weight :: 'd
  mc_cap :: nat
  mc_max_candidates :: "nat option"
  mc_diversify :: bool

text \<open>
  The candidates of one entry: the non-finite filters, the module budget, the gain floor and the
  per-target cap, with their counts recorded. Also returns how many were dropped after the
  non-finite filters.
\<close>

definition filter_entry ::
  "nat \<Rightarrow> nat \<Rightarrow> candidate list \<Rightarrow> synapse_result \<Rightarrow> synapse_result \<times> candidate list \<times> nat" where
  "filter_entry cap max_candidates candidates r =
     (let (invalid, c1) = reject_non_finite_operations candidates;
          r1 = reject_result rejection_non_finite_operation invalid r;
          (non_finite, c2) = reject_non_finite_gains c1;
          r2 = reject_result rejection_non_finite_gain non_finite r1;
          initial_count = length c2;
          (r3, c3) = (if 0 < max_candidates \<and> max_candidates < length c2 then
              (reject_result rejection_budget_truncated (clamp_word (length c2 - max_candidates)) r2,
               take max_candidates c2)
            else (r2, c2));
          (dropped_floor, c4) = retain_count (\<lambda>c. f32_greater_eq (cd_gain c) coordinated_min_expected_gain) c3;
          r4 = reject_result rejection_below_expected_gain_floor dropped_floor r3;
          (dropped_cap, c5) = apply_coordinated_per_target_cap cap c4;
          r5 = reject_result rejection_coordinated_target_cap_exceeded (clamp_word dropped_cap) r4
      in (r5, c5, initial_count - length c5))"

definition merge_entry ::
  "'d merge_config \<Rightarrow> detection_entry \<Rightarrow> bool \<times> synapse_result \<times> 'd outcome_tracker
     \<Rightarrow> bool \<times> synapse_result \<times> 'd outcome_tracker" where
  "merge_entry cfg en st =
     (let (quality_skip, r, t) = st;
          ops = mc_ops cfg;
          produced = (case en_result en of None \<Rightarrow> 0 | Some d \<Rightarrow> length (dr_candidates d));
          historical = stats_of ops t (en_module_name en);
          json = \<lparr>mj_module_name = en_module_name en, mj_candidates_produced = produced,
            mj_attempts = ms_attempts historical, mj_successes = ms_successes historical,
            mj_gated = is_gated ops t (en_module_name en) (mc_gate_threshold cfg),
            mj_skipped = map_option skip_rejection_reason (en_skip_reason en)\<rparr>;
          r1 = r\<lparr>sr_module_stats := sr_module_stats r @ [json]\<rparr>;
          r2 = (case en_skip_reason en of
                  None \<Rightarrow> r1
                | Some reason \<Rightarrow>
                    r1\<lparr>sr_breakdown := record_reason (skip_rejection_reason reason) (sr_breakdown r1)\<rparr>)
      in if quality_skip then
           (True, reject_result rejection_module_skipped_quality_satisfied (clamp_word produced) r2, t)
         else
           let (r4, t4) = (case en_result en of
                  None \<Rightarrow> (r2, t)
                | Some d \<Rightarrow>
                    if dr_candidates d = [] then (r2, t)
                    else
                      let (r3, kept, filtered) =
                            filter_entry (mc_cap cfg) (en_max_candidates en) (dr_candidates d) r2;
                          t3 = (if 0 < filtered
                                then record_soft_failures ops (en_module_name en) filtered (mc_soft_weight cfg) t
                                else t)
                      in (if kept = [] then r3
                          else merge_coordinated (mc_mul cfg) r3 kept (mc_max_candidates cfg) (mc_diversify cfg), t3))
           in (quality_skip_min_candidates \<le> count_high_quality r4 quality_skip_gain_threshold, r4, t4))"

definition merge_discovery_module_results ::
  "'d merge_config \<Rightarrow> detection_entry list \<Rightarrow> synapse_result \<Rightarrow> 'd outcome_tracker
     \<Rightarrow> synapse_result \<times> 'd outcome_tracker" where
  "merge_discovery_module_results cfg entries r t =
     snd (fold (merge_entry cfg) entries (False, r, t))"

text \<open>The single-module entry point, without budget, tracker or quality skip.\<close>

definition run_discovery_module ::
  "(f32 \<Rightarrow> f32 \<Rightarrow> f32) \<Rightarrow> nat \<Rightarrow> nat option \<Rightarrow> bool \<Rightarrow> detection_result option \<Rightarrow> synapse_result \<Rightarrow> synapse_result" where
  "run_discovery_module mul cap max_candidates diversify detected r =
     (case detected of
        None \<Rightarrow> r
      | Some d \<Rightarrow>
          if dr_candidates d = [] then r
          else
            let (r', kept, _) = filter_entry cap 0 (dr_candidates d) r
            in if kept = [] then r' else merge_coordinated mul r' kept max_candidates diversify)"

definition run_discovery_modules_parallel ::
  "'d merge_config \<Rightarrow> module_spec list \<Rightarrow> (nat \<times> bool) list \<Rightarrow> synapse_result \<Rightarrow> 'd outcome_tracker
     \<Rightarrow> synapse_result \<times> 'd outcome_tracker" where
  "run_discovery_modules_parallel cfg modules order r t =
     merge_discovery_module_results cfg
       (detect_modules_parallel (\<lambda>name. is_gated (mc_ops cfg) t name (mc_gate_threshold cfg)) modules order) r t"

section \<open>Detection of one module\<close>

text \<open>Whether a check before or at a module's own saw the deadline passed.\<close>

definition saw_deadline :: "(string \<Rightarrow> bool) \<Rightarrow> module_spec list \<Rightarrow> (nat \<times> bool) list \<Rightarrow> bool" where
  "saw_deadline gated modules order =
     list_ex (\<lambda>(j, passed). passed \<and> \<not> gated (sp_module_name (modules ! j))) order"

text \<open>The entry a module gets, given whether the deadline has been seen by then.\<close>

definition expected_entry :: "(string \<Rightarrow> bool) \<Rightarrow> module_spec \<Rightarrow> bool \<Rightarrow> detection_entry" where
  "expected_entry gated sp late =
     (if gated (sp_module_name sp) then entry_of sp None (Some Gated_Low_Success)
      else if late then entry_of sp None (Some Deadline_Passed)
      else case sp_detect sp of
          Inr r \<Rightarrow> entry_of sp r None
        | Inl _ \<Rightarrow> entry_of sp None (Some Panicked))"

lemma detect_task_expected:
  "detect_task gated passed sp flag =
     (expected_entry gated sp (flag \<or> passed), flag \<or> (passed \<and> \<not> gated (sp_module_name sp)))"
  by (auto simp: detect_task_def expected_entry_def split: sum.split)

lemma run_tasks_keys: "map fst (fst (run_tasks gated modules order flag)) = map fst order"
  by (induction order arbitrary: flag) (auto simp: Let_def case_prod_unfold)

lemma run_tasks_entry:
  "distinct (map fst (before @ (i, passed) # after)) \<Longrightarrow>
     map_of (fst (run_tasks gated modules (before @ (i, passed) # after) flag)) i =
       Some (expected_entry gated (modules ! i) (flag \<or> saw_deadline gated modules before \<or> passed))"
proof (induction before arbitrary: flag)
  case Nil
  then show ?case
    by (simp add: detect_task_expected saw_deadline_def Let_def case_prod_unfold)
next
  case (Cons q before)
  obtain j p where q: "q = (j, p)" by fastforce
  have "j \<noteq> i" using Cons.prems q by auto
  then show ?case
    using Cons q by (simp add: detect_task_expected saw_deadline_def Let_def case_prod_unfold disj_assoc)
qed

section \<open>Accounting of the dispatch\<close>

definition dispatch_reasons :: "string list" where
  "dispatch_reasons = merge_reasons @
     [rejection_budget_truncated, rejection_below_expected_gain_floor,
      rejection_coordinated_target_cap_exceeded, rejection_module_skipped_quality_satisfied]"

lemma dispatch_reasons_distinct: "distinct dispatch_reasons"
  unfolding dispatch_reasons_def merge_reasons_def reason_defs by simp

lemma dispatch_reasons_members:
  "rejection_non_finite_operation \<in> set dispatch_reasons" "rejection_non_finite_gain \<in> set dispatch_reasons"
  "rejection_budget_truncated \<in> set dispatch_reasons" "rejection_below_expected_gain_floor \<in> set dispatch_reasons"
  "rejection_coordinated_target_cap_exceeded \<in> set dispatch_reasons"
  "rejection_module_skipped_quality_satisfied \<in> set dispatch_reasons"
  "set merge_reasons \<subseteq> set dispatch_reasons"
  by (auto simp: dispatch_reasons_def merge_reasons_def)

lemma skip_reason_separate: "skip_rejection_reason k \<notin> set dispatch_reasons"
  by (cases k) (simp_all add: dispatch_reasons_def merge_reasons_def reason_defs)

abbreviation accounted :: "breakdown \<Rightarrow> u32" where
  "accounted \<equiv> held dispatch_reasons"

lemmas accounted_record = held_record [OF dispatch_reasons_distinct]

lemma cap_conserves:
  "apply_coordinated_per_target_cap cap cs = (n, kept) \<Longrightarrow> n + length kept = length cs"
  using cap_retain_length [of cap "\<lambda>_. 0" "sort_by_gain cs"]
  by (auto simp: apply_coordinated_per_target_cap_def Let_def split: if_splits)

lemma clamp_word_small: "n < 2 ^ 32 \<Longrightarrow> clamp_word n = (word_of_nat n :: u32)"
  by (simp add: clamp_word_def)

lemma filter_entry_conserves:
  assumes "length cs < 2 ^ 32" "filter_entry cap mx cs r = (r', kept, filtered)"
  shows "accounted (sr_breakdown r') + word_of_nat (length kept) = accounted (sr_breakdown r) + word_of_nat (length cs)
    \<and> sr_coordinated r' = sr_coordinated r \<and> sr_module_stats r' = sr_module_stats r
    \<and> length kept \<le> length cs"
proof -
  obtain n1 c1 where 1: "reject_non_finite_operations cs = (n1, c1)" by fastforce
  obtain n2 c2 where 2: "reject_non_finite_gains c1 = (n2, c2)" by fastforce
  define n3 :: nat where "n3 = (if 0 < mx \<and> mx < length c2 then length c2 - mx else 0)"
  define c3 where "c3 = (if 0 < mx \<and> mx < length c2 then take mx c2 else c2)"
  obtain n4 c4 where 4: "retain_count (\<lambda>c. f32_greater_eq (cd_gain c) coordinated_min_expected_gain) c3 = (n4, c4)"
    by fastforce
  obtain n5 c5 where 5: "apply_coordinated_per_target_cap cap c4 = (n5, c5)" by fastforce
  note k1 = retain_count_conserves [OF assms(1) 1 [unfolded rejections]]
  then have l1: "length c1 < 2 ^ 32" using assms(1) le_less_trans by blast
  note k2 = retain_count_conserves [OF l1 2 [unfolded rejections]]
  then have l2: "length c2 < 2 ^ 32" using l1 le_less_trans by blast
  have k3: "n3 + length c3 = length c2" by (simp add: n3_def c3_def)
  then have l3: "length c3 < 2 ^ 32" using l2 by linarith
  note k4 = retain_count_conserves [OF l3 4]
  note k5 = cap_conserves [OF 5]
  have e: "word_of_nat (length cs) = n1 + word_of_nat (length c1)"
    "word_of_nat (length c1) = n2 + word_of_nat (length c2)"
    "word_of_nat (length c2) = word_of_nat n3 + word_of_nat (length c3)"
    "word_of_nat (length c3) = n4 + word_of_nat (length c4)"
    "word_of_nat (length c4) = word_of_nat n5 + (word_of_nat (length c5) :: u32)"
    using k1 [THEN conjunct1] k2 [THEN conjunct1] k4 [THEN conjunct1]
    by (simp_all flip: k3 k5)
  have w: "clamp_word n3 = (word_of_nat n3 :: u32)" "clamp_word n5 = (word_of_nat n5 :: u32)"
    using k3 l2 k5 k4 [THEN conjunct2, THEN conjunct2] l3 by (linarith | intro clamp_word_small)+
  let ?rec = "record_many"
  have out: "kept = c5" "sr_coordinated r' = sr_coordinated r" "sr_module_stats r' = sr_module_stats r"
    "sr_breakdown r' = ?rec rejection_coordinated_target_cap_exceeded (clamp_word n5)
       (?rec rejection_below_expected_gain_floor n4
       (?rec rejection_budget_truncated (clamp_word n3)
       (?rec rejection_non_finite_gain n2 (?rec rejection_non_finite_operation n1 (sr_breakdown r)))))"
    using assms(2) 4 5 unfolding filter_entry_def Let_def 1 2 prod.case n3_def c3_def
    by (auto simp: reject_result_def record_many_u32_def record_many_def [of _ 0] clamp_word_def [of 0] split: if_splits)
  have "length c5 \<le> length cs" using k1 k2 k3 k4 k5 by linarith
  then show ?thesis
    using out by (simp add: accounted_record dispatch_reasons_members w e)
qed

definition produced_by :: "detection_entry \<Rightarrow> nat" where
  "produced_by en = (case en_result en of None \<Rightarrow> 0 | Some d \<Rightarrow> length (dr_candidates d))"

lemma accounted_skip: "accounted (record_reason (skip_rejection_reason k) b) = accounted b"
  using skip_reason_separate [of k] by (simp add: record_reason_def accounted_record)

lemma merge_entry_conserves:
  assumes "produced_by en < 2 ^ 32" "mc_max_candidates cfg = None"
    and "merge_entry cfg en (q, r, t) = (q', r', t')"
  shows "accounted (sr_breakdown r') + word_of_nat (length (sr_coordinated r'))
      = accounted (sr_breakdown r) + word_of_nat (length (sr_coordinated r)) + word_of_nat (produced_by en)"
proof -
  define r2 where "r2 = (let r1 = r\<lparr>sr_module_stats := sr_module_stats r @
      [\<lparr>mj_module_name = en_module_name en, mj_candidates_produced = produced_by en,
        mj_attempts = ms_attempts (stats_of (mc_ops cfg) t (en_module_name en)),
        mj_successes = ms_successes (stats_of (mc_ops cfg) t (en_module_name en)),
        mj_gated = is_gated (mc_ops cfg) t (en_module_name en) (mc_gate_threshold cfg),
        mj_skipped = map_option skip_rejection_reason (en_skip_reason en)\<rparr>]\<rparr>
    in case en_skip_reason en of None \<Rightarrow> r1
       | Some reason \<Rightarrow> r1\<lparr>sr_breakdown := record_reason (skip_rejection_reason reason) (sr_breakdown r1)\<rparr>)"
  have r2: "accounted (sr_breakdown r2) = accounted (sr_breakdown r)" "sr_coordinated r2 = sr_coordinated r"
    by (simp_all add: r2_def Let_def accounted_skip split: option.split)
  note unfold_entry = assms(3) [unfolded merge_entry_def Let_def prod.case, folded produced_by_def,
      folded r2_def [unfolded Let_def]]
  show ?thesis
  proof (cases q)
    case True
    then have "r' = reject_result rejection_module_skipped_quality_satisfied (clamp_word (produced_by en)) r2"
      using unfold_entry by simp
    then show ?thesis
      using assms(1) r2 by (simp add: reject_result_def record_many_u32_def accounted_record
          dispatch_reasons_members clamp_word_small)
  next
    case no_skip: False
    show ?thesis
    proof (cases "en_result en = None \<or> produced_by en = 0")
      case True
      then have "r' = r2" using unfold_entry no_skip
        by (auto simp: produced_by_def split: option.splits)
      then show ?thesis using True r2 by (auto simp: produced_by_def)
    next
      case False
      then obtain d where d: "en_result en = Some d" "dr_candidates d \<noteq> []"
        by (auto simp: produced_by_def split: option.splits)
      obtain r3 kept n where f: "filter_entry (mc_cap cfg) (en_max_candidates en) (dr_candidates d) r2 = (r3, kept, n)"
        by (metis surj_pair)
      have r': "r' = (if kept = [] then r3
          else merge_coordinated (mc_mul cfg) r3 kept (mc_max_candidates cfg) (mc_diversify cfg))"
        using unfold_entry no_skip d f by auto
      have len: "length (dr_candidates d) < 2 ^ 32" using assms(1) d by (simp add: produced_by_def)
      note c = filter_entry_conserves [OF len f]
      then have k: "length kept < 2 ^ 32" using len le_less_trans by blast
      have "accounted (sr_breakdown r') + word_of_nat (length (sr_coordinated r'))
          = accounted (sr_breakdown r3) + word_of_nat (length (sr_coordinated r3)) + word_of_nat (length kept)"
      proof (cases "kept = []")
        case False
        with r' assms(2) have "merge_coordinated (mc_mul cfg) r3 kept None (mc_diversify cfg) = r'" by simp
        from merge_conserves [OF k dispatch_reasons_distinct dispatch_reasons_members(7) this]
        show ?thesis by (rule conjunct1)
      qed (simp add: r')
      also have "\<dots> = (accounted (sr_breakdown r3) + word_of_nat (length kept)) + word_of_nat (length (sr_coordinated r3))"
        by (simp only: ac_simps)
      also have "\<dots> = accounted (sr_breakdown r) + word_of_nat (length (dr_candidates d)) + word_of_nat (length (sr_coordinated r))"
        using c r2 by (metis (no_types))
      finally show ?thesis using d by (simp add: produced_by_def ac_simps)
    qed
  qed
qed

lemma merge_fold_conserves:
  assumes "list_all (\<lambda>en. produced_by en < 2 ^ 32) entries" "mc_max_candidates cfg = None"
    and "fold (merge_entry cfg) entries (q, r, t) = (q', r', t')"
  shows "accounted (sr_breakdown r') + word_of_nat (length (sr_coordinated r'))
      = accounted (sr_breakdown r) + word_of_nat (length (sr_coordinated r))
        + word_of_nat (\<Sum>en\<leftarrow>entries. produced_by en)"
  using assms
proof (induction entries arbitrary: q r t)
  case (Cons en entries)
  obtain q1 r1 t1 where one: "merge_entry cfg en (q, r, t) = (q1, r1, t1)" by (metis surj_pair)
  have "accounted (sr_breakdown r') + word_of_nat (length (sr_coordinated r'))
      = accounted (sr_breakdown r1) + word_of_nat (length (sr_coordinated r1))
        + word_of_nat (\<Sum>en\<leftarrow>entries. produced_by en)"
    using Cons.IH [of q1 r1 t1] Cons.prems one by simp
  moreover have "accounted (sr_breakdown r1) + word_of_nat (length (sr_coordinated r1))
      = accounted (sr_breakdown r) + word_of_nat (length (sr_coordinated r)) + word_of_nat (produced_by en)"
    using Cons.prems(1,2) by (intro merge_entry_conserves [OF _ _ one]) simp_all
  ultimately show ?case by (simp add: algebra_simps)
qed simp

section \<open>Properties\<close>

text \<open>
  C18. Parallel detection isolates its modules: in whatever order the thread pool runs the tasks, the
  entries come back in module order, one per module, and the entry of a module is determined by
  its own gate and outcome and by whether some check up to its own saw the deadline. A gated
  module never runs, a panic turns into an empty result of that module only, and no module is
  reported as late before a check has seen the deadline pass.
\<close>

theorem detection_isolates_modules:
  assumes "order = before @ (i, passed) # after" "distinct (map fst order)"
    and "set (map fst order) = {0..<length modules}"
  shows "length (detect_modules_parallel gated modules order) = length modules
    \<and> detect_modules_parallel gated modules order ! i =
        expected_entry gated (modules ! i) (saw_deadline gated modules before \<or> passed)
    \<and> map en_module_name (detect_modules_parallel gated modules order) = map sp_module_name modules"
proof -
  let ?es = "detect_modules_parallel gated modules order"
  let ?done = "fst (run_tasks gated modules order False)"
  have ne: "modules \<noteq> []" using assms(1,3) by auto
  have es: "?es = map (\<lambda>i. the (map_of ?done i)) [0..<length modules]"
    using ne by (simp add: detect_modules_parallel_def case_prod_unfold)
  have entry: "the (map_of ?done j) = expected_entry gated (modules ! j) (saw_deadline gated modules b \<or> p)"
    if "order = b @ (j, p) # a" for b j p a
    using run_tasks_entry [of b j p a gated modules False] assms(2) that by simp
  have i: "i < length modules" using assms(1,3) by auto
  have name: "en_module_name (the (map_of ?done j)) = sp_module_name (modules ! j)" if "j < length modules" for j
  proof -
    have "j \<in> fst ` set order" using assms(3) that by simp
    then obtain p where "(j, p) \<in> set order" by auto
    then obtain b a where "order = b @ (j, p) # a" by (metis split_list)
    from entry [OF this] show ?thesis by (simp add: expected_entry_def entry_of_def split: sum.split)
  qed
  show ?thesis
    using entry [OF assms(1)] i name es
    by (auto intro!: nth_equalityI)
qed

theorem detection_isolates_modules_witness:
  "en_skip_reason (detect_modules_parallel (\<lambda>_. False)
      [\<lparr>sp_module_name = ''a'', sp_phase_name = ''p'', sp_max_candidates = 0, sp_detect = Inl ''boom''\<rparr>,
       \<lparr>sp_module_name = ''b'', sp_phase_name = ''p'', sp_max_candidates = 0, sp_detect = Inr None\<rparr>]
      [(1, False), (0, False)] ! 0) = Some Panicked"
  using detection_isolates_modules
    [of "[(1, False), (0, False)]" "[(1, False)]" 0 False "[]"
      "[\<lparr>sp_module_name = ''a'', sp_phase_name = ''p'', sp_max_candidates = 0, sp_detect = Inl ''boom''\<rparr>,
        \<lparr>sp_module_name = ''b'', sp_phase_name = ''p'', sp_max_candidates = 0, sp_detect = Inr None\<rparr>]"
      "\<lambda>_. False"]
  by (simp add: expected_entry_def entry_of_def saw_deadline_def insert_commute atLeast0_lessThan_Suc numeral_2_eq_2)

text \<open>
  No candidate vanishes in the merge: without an overall limit, every candidate that the modules
  produced is either among the result's coordinated candidates or counted in the rejection
  breakdown under exactly one of eight reasons, also those of modules whose results are
  discarded because enough good candidates were found. Skipped modules do not disturb the sum.
\<close>

theorem dispatch_accounts_for_candidates:
  assumes "list_all (\<lambda>en. produced_by en < 2 ^ 32) entries" "mc_max_candidates cfg = None"
    and "merge_discovery_module_results cfg entries r t = (r', t')"
  shows "held dispatch_reasons (sr_breakdown r') + word_of_nat (length (sr_coordinated r'))
      = held dispatch_reasons (sr_breakdown r) + word_of_nat (length (sr_coordinated r))
        + word_of_nat (\<Sum>en\<leftarrow>entries. produced_by en)"
proof -
  obtain q' where "fold (merge_entry cfg) entries (False, r, t) = (q', r', t')"
    using assms(3) by (metis merge_discovery_module_results_def prod.collapse snd_conv)
  then show ?thesis by (rule merge_fold_conserves [OF assms(1,2)])
qed

definition example_ops :: "nat f64_ops" where
  "example_ops = \<lparr>f_zero = 0, f_one = 1, f_half = 0, f_of_u32 = unat, f_of_usize = id, f_add = (+),
     f_mul = (*), f_div = (div), f_less = (<), f_less_eq = (\<le>), f_eq = (=), f_is_finite = (\<lambda>_. True)\<rparr>"

definition example_config :: "nat merge_config" where
  "example_config = \<lparr>mc_ops = example_ops, mc_mul = (\<lambda>a b. a), mc_gate_threshold = 0, mc_soft_weight = 1,
     mc_cap = 3, mc_max_candidates = None, mc_diversify = False\<rparr>"

definition empty_result :: synapse_result where
  "empty_result = \<lparr>sr_helpful = [], sr_harmful = [], sr_coordinated = [], sr_breakdown = [],
     sr_module_stats = [], sr_returned = 0\<rparr>"

definition example_entry :: detection_entry where
  "example_entry = \<lparr>en_module_name = ''m'', en_phase_name = ''p'', en_max_candidates = 0,
     en_result = Some \<lparr>dr_detected_count = 1, dr_candidates =
       [example_candidate ''a'' 0x7F800000, example_candidate ''b'' 0x3F800000]\<rparr>, en_skip_reason = None\<rparr>"

theorem dispatch_accounts_for_candidates_witness:
  "case merge_discovery_module_results example_config [example_entry] empty_result [] of (r', t') \<Rightarrow>
     held dispatch_reasons (sr_breakdown r') + word_of_nat (length (sr_coordinated r')) = 2"
proof -
  obtain r' t' where m: "merge_discovery_module_results example_config [example_entry] empty_result [] = (r', t')"
    by fastforce
  have "mc_max_candidates example_config = None" "list_all (\<lambda>en. produced_by en < 2 ^ 32) [example_entry]"
    by (simp_all add: example_config_def example_entry_def produced_by_def)
  moreover have "held dispatch_reasons [] = 0"
    by (simp add: held_def count_of_def)
  ultimately show ?thesis
    using dispatch_accounts_for_candidates [OF _ _ m] unfolding m
    by (simp add: empty_result_def example_entry_def produced_by_def)
qed

end
