(* ===== verification/Layers.thy ===== *)
theory Layers
  imports Network "HOL-Library.Multiset"
begin

text \<open>
  The layering of the network (\<open>src/focus/layers.rs\<close>): every neuron gets the length of the
  longest walk that reaches it from an input, by label correction over a work queue, and the
  neurons are grouped into layers by that depth. The interner of \<open>src/intern.rs\<close> is a bijection
  between identifiers and indices, so the model uses the identifiers themselves.
\<close>

section \<open>Data\<close>

record neuron_info =
  ni_uuid :: string
  ni_type :: string

record neuron_layer =
  l_depth :: nat
  l_neurons :: "neuron_info list"

type_synonym edges = "(string \<times> string) list"
type_synonym depth_map = "string \<rightharpoonup> nat"

text \<open>The adjacency map: the targets of a neuron, in the order of the synapses.\<close>

definition forward_edges :: "creature_json \<Rightarrow> edges" where
  "forward_edges c = map (\<lambda>s. (s_from s, s_to s)) (c_synapses c)"

definition targets_of :: "edges \<Rightarrow> string \<Rightarrow> string list" where
  "targets_of es u = map snd (filter (\<lambda>e. fst e = u) es)"

lemma set_targets_of [simp]: "v \<in> set (targets_of es u) \<longleftrightarrow> (u, v) \<in> set es"
  by (force simp: targets_of_def)

text \<open>The sources of synapses that are no listed neuron are the inputs.\<close>

definition input_sources :: "creature_json \<Rightarrow> string set" where
  "input_sources c = s_from ` set (c_synapses c) - n_uuid ` set (c_neurons c)"

section \<open>The relaxation loop\<close>

text \<open>One successor: deeper than before means recorded and queued again.\<close>

definition relax :: "nat \<Rightarrow> nat \<Rightarrow> string \<Rightarrow> depth_map \<times> string list \<Rightarrow> depth_map \<times> string list" where
  "relax max_depth new_depth v = (\<lambda>(depths, queue).
     if new_depth \<le> max_depth \<and>
        (case depths v of Some existing \<Rightarrow> existing < new_depth \<and> new_depth \<le> max_depth
          | None \<Rightarrow> True)
     then (depths(v \<mapsto> new_depth), queue @ [v])
     else (depths, queue))"

fun relax_all ::
  "nat \<Rightarrow> nat \<Rightarrow> string list \<Rightarrow> depth_map \<times> string list \<Rightarrow> depth_map \<times> string list" where
  "relax_all max_depth new_depth [] st = st"
| "relax_all max_depth new_depth (v # vs) st =
     relax_all max_depth new_depth vs (relax max_depth new_depth v st)"

text \<open>
  What the loop gains with every recorded depth: the room that is left above the depths of the
  nodes that synapses lead to.
\<close>

definition room :: "nat \<Rightarrow> depth_map \<Rightarrow> string \<Rightarrow> nat" where
  "room max_depth depths v =
     (case depths v of None \<Rightarrow> Suc max_depth | Some k \<Rightarrow> max_depth - k)"

definition total_room :: "nat \<Rightarrow> edges \<Rightarrow> depth_map \<Rightarrow> nat" where
  "total_room max_depth es depths = (\<Sum>v \<in> snd ` set es. room max_depth depths v)"

lemma relax_room:
  assumes "v \<in> snd ` set es"
  shows "relax m k v (d, q) = (d, q) \<or>
         relax m k v (d, q) = (d(v \<mapsto> k), q @ [v]) \<and> total_room m es (d(v \<mapsto> k)) < total_room m es d"
proof (cases "relax m k v (d, q) = (d, q)")
  case False
  then have k: "k \<le> m" "case d v of Some e \<Rightarrow> e < k | None \<Rightarrow> True"
    and r: "relax m k v (d, q) = (d(v \<mapsto> k), q @ [v])"
    by (auto simp: relax_def split: if_splits option.splits)
  have "total_room m es (d(v \<mapsto> k)) < total_room m es d"
    unfolding total_room_def
  proof (rule sum_strict_mono_ex1)
    show "\<forall>x \<in> snd ` set es. room m (d(v \<mapsto> k)) x \<le> room m d x"
      using k by (auto simp: room_def split: option.splits)
    show "\<exists>a \<in> snd ` set es. room m (d(v \<mapsto> k)) a < room m d a"
      using k assms by (intro bexI [of _ v]) (auto simp: room_def split: option.splits)
  qed simp
  with r show ?thesis by blast
qed simp

lemma relax_all_room:
  assumes "set vs \<subseteq> snd ` set es" "relax_all m k vs (d, q) = (d', q')"
  shows "(d', q') = (d, q) \<or> total_room m es d' < total_room m es d"
  using assms
proof (induction vs arbitrary: d q)
  case Nil
  then show ?case by simp
next
  case (Cons v vs)
  obtain d1 q1 where s: "relax m k v (d, q) = (d1, q1)" by fastforce
  with Cons have "(d', q') = (d1, q1) \<or> total_room m es d' < total_room m es d1" by simp
  with s relax_room [of v es m k d q] Cons.prems(1) show ?case by auto
qed

text \<open>
  The loop. \<open>depths[&idx]\<close> panics on a missing key; the panic is the value \<open>None\<close>.
\<close>

function depth_loop :: "nat \<Rightarrow> edges \<Rightarrow> depth_map \<Rightarrow> string list \<Rightarrow> depth_map option" where
  "depth_loop max_depth es depths [] = Some depths"
| "depth_loop max_depth es depths (u # queue) =
     (case depths u of
        None \<Rightarrow> None
      | Some current_depth \<Rightarrow>
          if max_depth \<le> current_depth then depth_loop max_depth es depths queue
          else (case relax_all max_depth (current_depth + 1) (targets_of es u) (depths, queue) of
              (depths', queue') \<Rightarrow> depth_loop max_depth es depths' queue'))"
  by pat_completeness auto

lemma relax_all_decreases:
  assumes "relax_all m k (targets_of es u) (d, q) = (d', q')"
  shows "total_room m es d' < total_room m es d \<or>
         total_room m es d' = total_room m es d \<and> length q' < Suc (length q)"
proof -
  have "set (targets_of es u) \<subseteq> snd ` set es" by force
  from relax_all_room [OF this assms] show ?thesis by auto
qed

termination depth_loop
  by (relation "measures [\<lambda>(m, es, d, q). total_room m es d, \<lambda>(m, es, d, q). length q]")
    (auto split: prod.split dest: relax_all_decreases)

declare depth_loop.simps [simp del]

fun seed_depths :: "string list \<Rightarrow> depth_map" where
  "seed_depths [] = Map.empty"
| "seed_depths (u # us) = (seed_depths us)(u \<mapsto> 0)"

lemma seed_depths_eq: "seed_depths us v = (if v \<in> set us then Some 0 else None)"
  by (induction us) auto

definition depth_bound :: "creature_json \<Rightarrow> nat" where
  "depth_bound c = length (c_neurons c) + c_input c + 1"

text \<open>\<open>seeds\<close> is the order in which the set of inputs is iterated.\<close>

definition compute_depths :: "string list \<Rightarrow> creature_json \<Rightarrow> depth_map option" where
  "compute_depths seeds c = depth_loop (depth_bound c) (forward_edges c) (seed_depths seeds) seeds"

section \<open>Layers\<close>

text \<open>
  \<open>depths.entry(idx).or_insert(usize::MAX)\<close> for every listed neuron, then the lookup with the
  same default.
\<close>

definition neuron_depth :: "depth_map \<Rightarrow> string \<Rightarrow> nat" where
  "neuron_depth depths u = (case depths u of Some k \<Rightarrow> k | None \<Rightarrow> usize_max)"

definition is_layered :: "neuron_json \<Rightarrow> bool" where
  "is_layered n \<longleftrightarrow> \<not> (n_type n = ''input'' \<or> n_type n = ''constant'')"

definition info_of :: "neuron_json \<Rightarrow> neuron_info" where
  "info_of n = \<lparr>ni_uuid = n_uuid n, ni_type = n_type n\<rparr>"

text \<open>\<open>layers_map.entry(depth).or_default().push(..)\<close>, the map as an association list.\<close>

fun push_layer :: "nat \<Rightarrow> neuron_info \<Rightarrow> (nat \<times> neuron_info list) list \<Rightarrow> (nat \<times> neuron_info list) list"
  where
  "push_layer k i [] = [(k, [i])]"
| "push_layer k i ((k', is) # ls) =
     (if k = k' then (k', is @ [i]) # ls else (k', is) # push_layer k i ls)"

fun group_layers ::
  "depth_map \<Rightarrow> neuron_json list \<Rightarrow> (nat \<times> neuron_info list) list \<Rightarrow> (nat \<times> neuron_info list) list"
  where
  "group_layers depths [] ls = ls"
| "group_layers depths (n # ns) ls =
     group_layers depths ns
       (if is_layered n then push_layer (neuron_depth depths (n_uuid n)) (info_of n) ls else ls)"

definition sort_layers :: "(nat \<times> neuron_info list) list \<Rightarrow> neuron_layer list" where
  "sort_layers ls = sort_key l_depth (map (\<lambda>(k, is). \<lparr>l_depth = k, l_neurons = is\<rparr>) ls)"

definition compute_network_layers :: "string list \<Rightarrow> creature_json \<Rightarrow> neuron_layer list option" where
  "compute_network_layers seeds c =
     (case compute_depths seeds c of
        None \<Rightarrow> None
      | Some depths \<Rightarrow> Some (sort_layers (group_layers depths (c_neurons c) [])))"

section \<open>Longest walks\<close>

inductive walk :: "edges \<Rightarrow> string set \<Rightarrow> nat \<Rightarrow> string \<Rightarrow> bool" for es I where
  walk_start: "u \<in> I \<Longrightarrow> walk es I 0 u"
| walk_step: "walk es I n u \<Longrightarrow> (u, v) \<in> set es \<Longrightarrow> walk es I (Suc n) v"

inductive_cases walk_SucE: "walk es I (Suc n) v"

text \<open>
  What the loop keeps: recorded depths are lengths of walks within the bound, queued nodes have a
  depth, and below the bound an edge out of a node that is not queued is already relaxed.
\<close>

definition depth_inv :: "edges \<Rightarrow> string set \<Rightarrow> nat \<Rightarrow> depth_map \<Rightarrow> string list \<Rightarrow> bool" where
  "depth_inv es I m d q \<longleftrightarrow>
     (\<forall>v k. d v = Some k \<longrightarrow> walk es I k v \<and> k \<le> m) \<and>
     (\<forall>u \<in> set q. d u \<noteq> None) \<and> (\<forall>u \<in> I. d u \<noteq> None) \<and>
     (\<forall>u v k. (u, v) \<in> set es \<longrightarrow> d u = Some k \<longrightarrow> k < m \<longrightarrow> u \<notin> set q \<longrightarrow>
        (\<exists>k'. d v = Some k' \<and> k < k'))"

lemma depth_invD:
  "depth_inv es I m d q \<Longrightarrow> (u, v) \<in> set es \<Longrightarrow> d u = Some k \<Longrightarrow> k < m \<Longrightarrow> u \<notin> set q \<Longrightarrow>
   \<exists>k'. d v = Some k' \<and> k < k'"
  by (simp add: depth_inv_def)

lemma relax_all_spec:
  assumes "relax_all m nd vs (d, q) = (d', q')" "nd \<le> m"
  shows "set q \<subseteq> set q' \<and>
    (\<forall>v k. d v = Some k \<longrightarrow> (\<exists>k' \<ge> k. d' v = Some k')) \<and>
    (\<forall>v. d' v \<noteq> d v \<longrightarrow> v \<in> set q' \<and> v \<in> set vs \<and> d' v = Some nd) \<and>
    (\<forall>v \<in> set vs. \<exists>k' \<ge> nd. d' v = Some k') \<and>
    set q' \<subseteq> set q \<union> set vs"
  using assms(1)
proof (induction vs arbitrary: d q)
  case Nil
  then show ?case by auto
next
  case (Cons w vs)
  obtain d1 q1 where s: "relax m nd w (d, q) = (d1, q1)" by fastforce
  with Cons.prems have "relax_all m nd vs (d1, q1) = (d', q')" by simp
  note IH = Cons.IH [OF this]
  have w: "\<exists>k \<ge> nd. d1 w = Some k" "\<forall>v. v \<noteq> w \<longrightarrow> d1 v = d v"
    "\<forall>k. d w = Some k \<longrightarrow> (\<exists>k' \<ge> k. d1 w = Some k')" "set q \<subseteq> set q1" "set q1 \<subseteq> insert w (set q)"
    "d1 w \<noteq> d w \<longrightarrow> w \<in> set q1 \<and> d1 w = Some nd"
    using s assms(2) by (auto simp: relax_def split: if_splits option.splits)
  show ?case
  proof (intro conjI allI ballI impI)
    show "set q \<subseteq> set q'" "set q' \<subseteq> set q \<union> set (w # vs)" using IH w(4,5) by auto
    show "\<exists>k' \<ge> k. d' v = Some k'" if "d v = Some k" for v k
      using that IH w(2,3) by (metis order_trans)
    show "\<exists>k' \<ge> nd. d' v = Some k'" if "v \<in> set (w # vs)" for v
      using that IH w(1) by (metis order_trans set_ConsD)
    fix v assume "d' v \<noteq> d v"
    then consider "d' v \<noteq> d1 v" | "d' v = d1 v" "v = w" "d1 w \<noteq> d w" using w(2) by metis
    then show "v \<in> set q'" "v \<in> set (w # vs)" "d' v = Some nd"
      using IH w(6) by (cases; fastforce)+
  qed
qed

lemma depth_inv_step:
  assumes inv: "depth_inv es I m d (u # q)" and u: "d u = Some k" "k < m"
    and r: "relax_all m (k + 1) (targets_of es u) (d, q) = (d', q')"
  shows "depth_inv es I m d' q'"
proof -
  note spec = relax_all_spec [OF r]
  have s: "set q \<subseteq> set q'" "\<And>v j. d v = Some j \<Longrightarrow> \<exists>j' \<ge> j. d' v = Some j'"
    "\<And>v. d' v \<noteq> d v \<Longrightarrow> v \<in> set q' \<and> (u, v) \<in> set es \<and> d' v = Some (Suc k)"
    "\<And>v. (u, v) \<in> set es \<Longrightarrow> \<exists>j \<ge> Suc k. d' v = Some j"
    "\<And>v. v \<in> set q' \<Longrightarrow> v \<in> set q \<or> (u, v) \<in> set es"
    using spec u(2) by auto
  have W: "walk es I k u" using inv u(1) by (auto simp: depth_inv_def)
  show ?thesis
    unfolding depth_inv_def
  proof (intro conjI allI ballI impI)
    fix v j assume j: "d' v = Some j"
    show "walk es I j v"
    proof (cases "d' v = d v")
      case True
      with inv j show ?thesis by (simp add: depth_inv_def)
    next
      case False
      with s(3) [of v] j have "(u, v) \<in> set es" "j = Suc k" by simp_all
      with W show ?thesis by (simp add: walk_step)
    qed
    show "j \<le> m"
      by (cases "d' v = d v") (use inv j u(2) s(3) [of v] in \<open>auto simp: depth_inv_def\<close>)
  next
    fix v assume "v \<in> set q'"
    then consider "d v \<noteq> None" | "(u, v) \<in> set es"
      using s(5) [of v] inv by (auto simp: depth_inv_def)
    then show "d' v \<noteq> None" by cases (use s(2,4) in force)+
  next
    fix v assume "v \<in> I"
    with inv obtain j where "d v = Some j" by (auto simp: depth_inv_def)
    then show "d' v \<noteq> None" using s(2) by force
  next
    fix a b j assume e: "(a, b) \<in> set es" and a: "d' a = Some j" "j < m" "a \<notin> set q'"
    then have "d a = Some j" "a \<notin> set q" using s(1,3) by (metis, blast)
    show "\<exists>k'. d' b = Some k' \<and> j < k'"
    proof (cases "a = u")
      case True
      then show ?thesis using s(4) e u(1) \<open>d a = Some j\<close> by (metis Suc_le_lessD option.inject)
    next
      case False
      with \<open>a \<notin> set q\<close> have "a \<notin> set (u # q)" by simp
      from depth_invD [OF inv e \<open>d a = Some j\<close> a(2) this]
      obtain b' where "d b = Some b'" "j < b'" by blast
      then show ?thesis using s(2) [of b b'] by (meson order_less_le_trans)
    qed
  qed
qed

lemma depth_loop_inv:
  "depth_inv es I m d q \<Longrightarrow> \<exists>d'. depth_loop m es d q = Some d' \<and> depth_inv es I m d' []"
proof (induction m es d q rule: depth_loop.induct)
  case (1 m es d)
  then show ?case by (simp add: depth_loop.simps)
next
  case (2 m es d u q)
  from 2(3) obtain k where u: "d u = Some k" by (auto simp: depth_inv_def)
  show ?case
  proof (cases "m \<le> k")
    case True
    then have "depth_inv es I m d q" using 2(3) u by (fastforce simp: depth_inv_def)
    then show ?thesis using 2(1) [OF u True] u True by (simp add: depth_loop.simps)
  next
    case False
    obtain d1 q1 where r: "relax_all m (k + 1) (targets_of es u) (d, q) = (d1, q1)" by fastforce
    have "depth_inv es I m d1 q1" using depth_inv_step [OF 2(3) u _ r] False by simp
    then show ?thesis using 2(2) [OF u False r [symmetric]] u False r
      by (simp add: depth_loop.simps)
  qed
qed

definition longest_walk :: "edges \<Rightarrow> string set \<Rightarrow> string \<Rightarrow> nat \<Rightarrow> bool" where
  "longest_walk es I v k \<longleftrightarrow> walk es I k v \<and> (\<forall>n. walk es I n v \<longrightarrow> n \<le> k)"

lemma depth_inv_longest:
  assumes inv: "depth_inv es I m d []" and bound: "\<And>n v. walk es I n v \<Longrightarrow> n \<le> m"
  shows "d v = Some k \<longleftrightarrow> longest_walk es I v k"
proof -
  have covers: "\<exists>j \<ge> n. d v = Some j" if "walk es I n v" for n v
    using that
  proof induction
    case (walk_start u)
    with inv show ?case by (auto simp: depth_inv_def)
  next
    case (walk_step n u v)
    then obtain j where j: "n \<le> j" "d u = Some j" by blast
    with inv have "walk es I j u" by (simp add: depth_inv_def)
    then have "Suc j \<le> m" using bound walk.walk_step walk_step.hyps(2) by blast
    then show ?case using depth_invD [OF inv walk_step.hyps(2) j(2)] j(1)
      by (metis Suc_le_eq le_trans list.set(1) empty_iff nat_less_le)
  qed
  show ?thesis
  proof
    assume "d v = Some k"
    then show "longest_walk es I v k"
      using inv covers by (fastforce simp: depth_inv_def longest_walk_def)
  next
    assume l: "longest_walk es I v k"
    then have "walk es I k v" by (simp add: longest_walk_def)
    from covers [OF this] obtain j where "k \<le> j" "d v = Some j" by blast
    moreover from this inv have "walk es I j v" by (simp add: depth_inv_def)
    ultimately show "d v = Some k" using l by (auto simp: longest_walk_def)
  qed
qed

lemma compute_depths_inv:
  assumes "set seeds = I"
  shows "\<exists>d. compute_depths seeds c = Some d \<and> depth_inv (forward_edges c) I (depth_bound c) d []"
  unfolding compute_depths_def
  by (rule depth_loop_inv) (auto simp: depth_inv_def seed_depths_eq assms walk_start split: if_splits)

section \<open>Grouping\<close>

definition layer_content :: "depth_map \<Rightarrow> nat \<Rightarrow> neuron_json list \<Rightarrow> neuron_info list" where
  "layer_content d k ns =
     map info_of (filter (\<lambda>n. is_layered n \<and> neuron_depth d (n_uuid n) = k) ns)"

lemma map_of_push_layer:
  "map_of (push_layer k i ls) =
     (map_of ls)(k \<mapsto> (case map_of ls k of None \<Rightarrow> [i] | Some is \<Rightarrow> is @ [i]))"
  by (induction k i ls rule: push_layer.induct) (auto simp: fun_eq_iff)

lemma keys_push_layer: "set (map fst (push_layer k i ls)) = insert k (set (map fst ls))"
  by (induction k i ls rule: push_layer.induct) auto

lemma distinct_push_layer: "distinct (map fst ls) \<Longrightarrow> distinct (map fst (push_layer k i ls))"
  using keys_push_layer by (induction k i ls rule: push_layer.induct) fastforce+

lemma distinct_group_layers:
  "distinct (map fst ls) \<Longrightarrow> distinct (map fst (group_layers d ns ls))"
  by (induction ns arbitrary: ls) (auto simp: distinct_push_layer)

lemma map_of_group_layers:
  "map_of (group_layers d ns ls) k =
     (case map_of ls k of
        None \<Rightarrow> if layer_content d k ns = [] then None else Some (layer_content d k ns)
      | Some is \<Rightarrow> Some (is @ layer_content d k ns))"
proof (induction ns arbitrary: ls)
  case Nil
  then show ?case by (simp add: layer_content_def split: option.split)
next
  case (Cons n ns)
  then show ?case by (auto simp: layer_content_def map_of_push_layer split: option.split)
qed

lemma sort_layers_strict:
  assumes "distinct (map fst ls)"
  shows "sorted_wrt (<) (map l_depth (sort_layers ls))"
    and "l \<in> set (sort_layers ls) \<longleftrightarrow> map_of ls (l_depth l) = Some (l_neurons l)"
proof -
  let ?f = "\<lambda>(k, is). \<lparr>l_depth = k, l_neurons = is\<rparr>"
  have "map l_depth (map ?f ls) = map fst ls" by (auto simp: case_prod_unfold)
  then have "distinct (map l_depth (map ?f ls))" using assms by metis
  moreover have "mset (sort_layers ls) = mset (map ?f ls)" by (simp add: sort_layers_def)
  ultimately have "distinct (map l_depth (sort_layers ls))" by (metis mset_eq_imp_distinct_iff mset_map)
  moreover have "sorted (map l_depth (sort_layers ls))" by (simp add: sort_layers_def)
  ultimately show "sorted_wrt (<) (map l_depth (sort_layers ls))" by (simp add: strict_sorted_iff)
  have "l \<in> set (sort_layers ls) \<longleftrightarrow> (l_depth l, l_neurons l) \<in> set ls"
    by (cases l) (force simp: sort_layers_def)
  then show "l \<in> set (sort_layers ls) \<longleftrightarrow> map_of ls (l_depth l) = Some (l_neurons l)"
    using assms by simp
qed

text \<open>
  The order in which the map of layers is iterated is irrelevant: its keys are distinct, so
  sorting by depth leaves one result.
\<close>

lemma sort_layers_any_order:
  assumes "distinct (map fst ls)" "mset ls' = mset ls"
  shows "sort_layers ls' = sort_layers ls"
proof -
  have "distinct (map fst ls')" using assms by (metis mset_eq_imp_distinct_iff mset_map)
  note s = sort_layers_strict [OF assms(1)] and s' = sort_layers_strict [OF this]
  have "map_of ls' = map_of ls" using assms by (metis mset_eq_setD map_of_inject_set
      \<open>distinct (map fst ls')\<close>)
  then have "set (sort_layers ls') = set (sort_layers ls)" using s(2) s'(2) by auto
  moreover have "inj_on l_depth (set (sort_layers ls))"
    using s(1) by (simp add: strict_sorted_iff distinct_map)
  ultimately show ?thesis
    using s(1) s'(1) by (metis map_sorted_distinct_set_unique strict_sorted_iff Un_absorb)
qed

section \<open>Layers of an accepted creature\<close>

text \<open>
  In an accepted creature whose synapses all lead to listed neurons, every synapse of a walk after
  the first leads to a later neuron, so no walk is longer than the list of neurons.
\<close>

lemma accepted_walk_position:
  assumes valid: "validate_creature c = Inr ()"
    and listed: "\<forall>s \<in> set (c_synapses c). s_to s \<in> n_uuid ` set (c_neurons c)"
    and "walk (forward_edges c) (input_sources c) n v"
  shows "n = 0 \<and> v \<in> input_sources c \<or>
         (\<exists>j < length (c_neurons c). n_uuid (c_neurons c ! j) = v \<and> n \<le> Suc j)"
  using assms(3)
proof induction
  case (walk_start u)
  then show ?case by simp
next
  case (walk_step n u v)
  from walk_step.hyps(2) obtain s where s: "s \<in> set (c_synapses c)" "s_from s = u" "s_to s = v"
    by (auto simp: forward_edges_def)
  with listed obtain j where j: "j < length (c_neurons c)" "n_uuid (c_neurons c ! j) = v"
    by (metis imageE in_set_conv_nth)
  have "synapse_forward c s"
    using valid s(1) by (simp add: validate_creature_def forward_only_ok_iff)
  then have "i < j" if "i < length (c_neurons c)" "n_uuid (c_neurons c ! i) = u" for i
    using that s j by (simp add: synapse_forward_def)
  then have "n \<le> j" using walk_step.IH by (metis Suc_leI le_trans le0)
  with j show ?case by auto
qed

lemma accepted_walk_bound:
  assumes "validate_creature c = Inr ()"
    and "\<forall>s \<in> set (c_synapses c). s_to s \<in> n_uuid ` set (c_neurons c)"
    and "walk (forward_edges c) (input_sources c) n v"
  shows "n \<le> depth_bound c"
  using accepted_walk_position [OF assms] by (auto simp: depth_bound_def)

text \<open>The depth a layering should give: the longest walk, or \<open>usize::MAX\<close> if there is none.\<close>

definition proper_depth :: "creature_json \<Rightarrow> string \<Rightarrow> nat \<Rightarrow> bool" where
  "proper_depth c u k \<longleftrightarrow>
     longest_walk (forward_edges c) (input_sources c) u k \<or>
     k = usize_max \<and> (\<forall>n. \<not> walk (forward_edges c) (input_sources c) n u)"

lemma compute_depths_proper:
  assumes "validate_creature c = Inr ()"
    and "\<forall>s \<in> set (c_synapses c). s_to s \<in> n_uuid ` set (c_neurons c)"
    and "set seeds = input_sources c"
  obtains d where "compute_depths seeds c = Some d"
    "\<And>u k. neuron_depth d u = k \<longleftrightarrow> proper_depth c u k"
proof -
  let ?W = "walk (forward_edges c) (input_sources c)"
  obtain d where d: "compute_depths seeds c = Some d"
    and inv: "depth_inv (forward_edges c) (input_sources c) (depth_bound c) d []"
    using compute_depths_inv [OF assms(3)] by blast
  have l: "d v = Some k \<longleftrightarrow> longest_walk (forward_edges c) (input_sources c) v k" for v k
    by (rule depth_inv_longest [OF inv accepted_walk_bound [OF assms(1,2)]])
  have no: "\<not> ?W n u" if "d u = None" for n u
  proof
    assume "?W n u"
    have "{n. ?W n u} \<subseteq> {..depth_bound c}"
      using accepted_walk_bound [OF assms(1,2)] by blast
    then have fin: "finite {n. ?W n u}" by (rule finite_subset) simp
    have "Max {n. ?W n u} \<in> {n. ?W n u}" by (rule Max_in [OF fin]) (use \<open>?W n u\<close> in blast)
    moreover have "m \<le> Max {n. ?W n u}" if "?W m u" for m using Max_ge [OF fin] that by blast
    ultimately have "longest_walk (forward_edges c) (input_sources c) u (Max {n. ?W n u})"
      by (simp add: longest_walk_def)
    with l [of u] that show False by simp
  qed
  show thesis
  proof
    show "compute_depths seeds c = Some d" by (rule d)
    show "neuron_depth d u = k \<longleftrightarrow> proper_depth c u k" for u k
    proof (cases "d u")
      case None
      with no have "\<not> ?W n u" for n by blast
      with None show ?thesis by (auto simp: neuron_depth_def proper_depth_def longest_walk_def)
    next
      case (Some j)
      then have "longest_walk (forward_edges c) (input_sources c) u i \<longleftrightarrow> i = j" for i
        using l [of u i] by auto
      moreover from this [of j] have "?W j u" by (simp add: longest_walk_def)
      ultimately show ?thesis using Some by (auto simp: neuron_depth_def proper_depth_def)
    qed
  qed
qed


lemma example_input_sources: "input_sources example_creature = {''input-0''}"
  by (auto simp: input_sources_def example_creature_def)


text \<open>
  On a cycle the depths are not those of the first path that reaches a node: they climb until the
  bound stops them. Here \<open>a\<close> and \<open>b\<close> feed each other; their shortest paths have lengths 1 and 2,
  and no simple path is longer.
\<close>

definition cyclic_creature :: creature_json where
  "cyclic_creature =
     \<lparr>c_neurons = [\<lparr>n_uuid = ''a'', n_type = ''hidden'', n_squash = ''TANH'', n_bias = 0\<rparr>,
                   \<lparr>n_uuid = ''b'', n_type = ''output'', n_squash = ''IDENTITY'', n_bias = 0\<rparr>],
      c_synapses = [\<lparr>s_from = ''i'', s_to = ''a'', s_weight = 0, s_type = None\<rparr>,
                    \<lparr>s_from = ''a'', s_to = ''b'', s_weight = 0, s_type = None\<rparr>,
                    \<lparr>s_from = ''b'', s_to = ''a'', s_weight = 0, s_type = None\<rparr>],
      c_input = 1, c_output = 1\<rparr>"

lemma cycle_depths_climb:
  "compute_depths [''i''] cyclic_creature = Some [''i'' \<mapsto> 0, ''a'' \<mapsto> 3, ''b'' \<mapsto> 4]"
  by (simp add: compute_depths_def cyclic_creature_def depth_bound_def forward_edges_def
      depth_loop.simps targets_of_def relax_def fun_upd_twist eval_nat_numeral)

end
