(* ===== verification/Focus.thy ===== *)
theory Focus
  imports Layers Floats "HOL-Library.Char_ord" "HOL-Library.List_Lexorder"
    "HOL-Library.Product_Lexorder"
begin

text \<open>
  Choosing the neurons to analyse: the budget of a layered creature and the selection within its
  layers (\<open>src/focus/allocation.rs\<close>), and the exploit/explore selection that rotates through
  the ranked list with the pass cursor (\<open>src/focus/selection.rs\<close>). Arithmetic on floats and the
  random number generator are parameters; comparisons of scores are those of theory Floats.
\<close>

section \<open>The budget of each layer\<close>

datatype allocation_strategy = Equal | Proportional | OutputFirst

text \<open>\<open>alloc[idx] += 1\<close> for every index in turn.\<close>

fun bump_all :: "nat list \<Rightarrow> nat list \<Rightarrow> nat list" where
  "bump_all alloc [] = alloc"
| "bump_all alloc (idx # idxs) = bump_all (alloc[idx := alloc ! idx + 1]) idxs"

definition equal_allocation :: "nat \<Rightarrow> nat \<Rightarrow> nat list" where
  "equal_allocation n_total n_layers =
     bump_all (replicate n_layers (n_total div n_layers))
       (map (\<lambda>i. n_layers - 1 - i) [0..<n_total mod n_layers])"

text \<open>The product wraps as in a release build.\<close>

definition proportional_allocation :: "nat \<Rightarrow> nat list \<Rightarrow> nat list" where
  "proportional_allocation n_total lens =
     (let total_neurons = sum_list lens in
      if total_neurons = 0 then replicate (length lens) 0
      else
        (let alloc = map (\<lambda>len. (n_total * len) mod 2 ^ 64 div total_neurons) lens;
             allocated = sum_list alloc;
             remainder = n_total - allocated
         in bump_all alloc (map (\<lambda>i. length lens - 1 - i mod length lens) [0..<remainder])))"

text \<open>
  The two passes of \<open>OutputFirst\<close> run from the deepest layer, so they take the sizes in reverse.
\<close>

fun take_half :: "nat \<Rightarrow> nat list \<Rightarrow> nat list \<times> nat" where
  "take_half remaining [] = ([], remaining)"
| "take_half remaining (len # lens) =
     (if remaining = 0 then (replicate (length (len # lens)) 0, 0)
      else
        (let taken = min (max (remaining div 2) 1) len;
             (alloc, rest) = take_half (remaining - taken) lens
         in (taken # alloc, rest)))"

fun fill_rest :: "nat \<Rightarrow> nat list \<Rightarrow> nat list \<Rightarrow> nat list" where
  "fill_rest remaining (len # lens) (a # as) =
     (if remaining = 0 then a # as
      else
        (let can_take = len - a; taken = min can_take remaining
         in (a + taken) # fill_rest (remaining - taken) lens as))"
| "fill_rest remaining _ as = as"

definition output_first_allocation :: "nat \<Rightarrow> nat list \<Rightarrow> nat list" where
  "output_first_allocation n_total lens =
     (case take_half n_total (rev lens) of
        (alloc, remaining) \<Rightarrow> rev (fill_rest remaining (rev lens) alloc))"

definition allocate_focus_budget ::
  "nat \<Rightarrow> neuron_layer list \<Rightarrow> allocation_strategy \<Rightarrow> nat list" where
  "allocate_focus_budget n_total layers strategy =
     (if layers = [] then []
      else
        (case strategy of
           Equal \<Rightarrow> equal_allocation n_total (length layers)
         | Proportional \<Rightarrow> proportional_allocation n_total (map (length \<circ> l_neurons) layers)
         | OutputFirst \<Rightarrow> output_first_allocation n_total (map (length \<circ> l_neurons) layers)))"

lemma length_bump_all [simp]: "length (bump_all alloc idxs) = length alloc"
  by (induction alloc idxs rule: bump_all.induct) simp_all

lemma sum_bump_all:
  "\<forall>i \<in> set idxs. i < length alloc \<Longrightarrow> sum_list (bump_all alloc idxs) = sum_list alloc + length idxs"
proof (induction alloc idxs rule: bump_all.induct)
  case (2 alloc idx idxs)
  then have "sum_list (alloc[idx := alloc ! idx + 1]) = sum_list alloc + 1"
    using member_le_sum_list [of "alloc ! idx" alloc] by (simp add: sum_list_update)
  with 2 show ?case by simp
qed simp

lemma equal_allocation_exact:
  assumes "0 < k"
  shows "sum_list (equal_allocation n k) = n \<and> length (equal_allocation n k) = k"
proof -
  have "sum_list (equal_allocation n k) = k * (n div k) + n mod k"
    unfolding equal_allocation_def using assms by (subst sum_bump_all) (auto simp: sum_list_replicate)
  then show ?thesis by (simp add: equal_allocation_def)
qed

lemma sum_div_le: "(\<Sum>x \<leftarrow> xs. f x div n) \<le> (\<Sum>x \<leftarrow> xs. f x) div (n :: nat)"
proof (induction xs)
  case (Cons x xs)
  have "f x div n + (\<Sum>x \<leftarrow> xs. f x) div n \<le> (f x + (\<Sum>x \<leftarrow> xs. f x)) div n"
    by (metis div_add1_eq le_add1)
  with Cons show ?case by simp
qed simp

lemma proportional_allocation_exact:
  "sum_list (proportional_allocation n lens) = (if sum_list lens = 0 then 0 else n)"
  "length (proportional_allocation n lens) = length lens"
proof -
  let ?N = "sum_list lens"
  let ?a = "map (\<lambda>len. (n * len) mod 2 ^ 64 div ?N) lens"
  have "sum_list ?a \<le> (\<Sum>len \<leftarrow> lens. n * len div ?N)"
    by (intro sum_list_mono div_le_mono) simp
  also have "\<dots> \<le> (\<Sum>len \<leftarrow> lens. n * len) div ?N" by (rule sum_div_le)
  also have "\<dots> \<le> n" by (simp add: sum_list_const_mult)
  finally have a: "sum_list ?a \<le> n" .
  show "sum_list (proportional_allocation n lens) = (if ?N = 0 then 0 else n)"
  proof (cases "?N = 0")
    case True
    then show ?thesis by (simp add: proportional_allocation_def sum_list_replicate)
  next
    case False
    then have "lens \<noteq> []" by auto
    then have "sum_list (bump_all ?a (map (\<lambda>i. length lens - 1 - i mod length lens)
        [0..<n - sum_list ?a])) = sum_list ?a + (n - sum_list ?a)"
      by (subst sum_bump_all) auto
    with False a show ?thesis by (simp add: proportional_allocation_def Let_def del: sum_list_eq_0_iff)
  qed
  show "length (proportional_allocation n lens) = length lens"
    by (simp add: proportional_allocation_def Let_def)
qed

lemma take_half_exact:
  "take_half r lens = (as, r') \<Longrightarrow>
   length as = length lens \<and> sum_list as + r' = r \<and> list_all2 (\<le>) as lens"
proof (induction r lens arbitrary: as r' rule: take_half.induct)
  case (2 r len lens)
  show ?case
  proof (cases "r = 0")
    case True
    with 2(2) show ?thesis by (auto simp: sum_list_replicate list_all2_conv_all_nth nth_Cons split: nat.split)
  next
    case False
    define t where "t = min (max (r div 2) 1) len"
    with False have t: "t \<le> r" "t \<le> len" by auto
    obtain bs s where b: "take_half (r - t) lens = (bs, s)" by fastforce
    have "take_half r (len # lens) = (t # bs, s)" using False b by (simp add: t_def Let_def)
    with 2(1) [OF False t_def b] 2(2) t show ?thesis by auto
  qed
qed simp

lemma fill_rest_exact:
  "list_all2 (\<le>) as lens \<Longrightarrow>
   length (fill_rest r lens as) = length lens \<and>
   sum_list (fill_rest r lens as) = min (sum_list as + r) (sum_list lens) \<and>
   list_all2 (\<le>) (fill_rest r lens as) lens"
proof (induction as lens arbitrary: r rule: list_all2_induct)
  case (Cons a as len lens)
  have le: "sum_list as \<le> sum_list lens" using Cons(2)
    by (induction rule: list_all2_induct) auto
  show ?case
  proof (cases "r = 0")
    case True
    with Cons(1,2) le show ?thesis by (simp add: list_all2_lengthD)
  next
    case False
    define t where "t = min (len - a) r"
    have f: "fill_rest r (len # lens) (a # as) = (a + t) # fill_rest (r - t) lens as"
      using False by (simp add: t_def Let_def)
    have "a + t + min (sum_list as + (r - t)) (sum_list lens) =
        min (a + sum_list as + r) (len + sum_list lens)"
      using Cons(1) le by (cases "len - a \<le> r") (simp_all add: t_def)
    moreover have "a + t \<le> len" using Cons(1) by (simp add: t_def)
    ultimately show ?thesis using Cons(3) [of "r - t"] unfolding f by simp
  qed
qed simp

lemma output_first_exact:
  "sum_list (output_first_allocation n lens) = min n (sum_list lens)"
  "length (output_first_allocation n lens) = length lens"
proof -
  obtain as r where t: "take_half n (rev lens) = (as, r)" by fastforce
  note h = take_half_exact [OF t]
  with fill_rest_exact [of as "rev lens" r]
  show "sum_list (output_first_allocation n lens) = min n (sum_list lens)"
    "length (output_first_allocation n lens) = length lens"
    by (auto simp: output_first_allocation_def t)
qed

abbreviation layer_total :: "neuron_layer list \<Rightarrow> nat" where
  "layer_total layers \<equiv> (\<Sum>l \<leftarrow> layers. length (l_neurons l))"

lemma allocation_exact:
  "length (allocate_focus_budget n layers strategy) = length layers" (is ?len)
  "min (sum_list (allocate_focus_budget n layers strategy)) (layer_total layers) =
     min n (layer_total layers)" (is ?sum)
proof -
  have "?len \<and> ?sum"
  proof (cases "layers = []")
    case True
    then show ?thesis by (simp add: allocate_focus_budget_def)
  next
    case False
    then have k: "0 < length layers" by simp
    show ?thesis
    proof (cases strategy)
      case Equal
      with False k show ?thesis by (simp add: allocate_focus_budget_def equal_allocation_exact)
    next
      case Proportional
      with False show ?thesis
        by (simp add: allocate_focus_budget_def proportional_allocation_exact comp_def
            del: sum_list_eq_0_iff)
    next
      case OutputFirst
      with False show ?thesis
        by (simp add: allocate_focus_budget_def output_first_exact comp_def)
    qed
  qed
  then show ?len ?sum by simp_all
qed

section \<open>Selecting within the layers\<close>

definition score_of :: "(string \<rightharpoonup> f32) \<Rightarrow> neuron_info \<Rightarrow> f32" where
  "score_of scores n = (case scores (ni_uuid n) of Some s \<Rightarrow> s | None \<Rightarrow> f32_zero)"

text \<open>Highest score first by the total order, ties by identifier; the sort is stable.\<close>

definition layer_order :: "(string \<rightharpoonup> f32) \<Rightarrow> neuron_info list \<Rightarrow> neuron_info list" where
  "layer_order scores ns =
     map fst (sort_key (\<lambda>(n, s). (Descending s, ni_uuid n)) (map (\<lambda>n. (n, score_of scores n)) ns))"

fun select_layers ::
  "(string \<rightharpoonup> f32) \<Rightarrow> nat list \<Rightarrow> neuron_layer list \<Rightarrow> nat \<Rightarrow> string list \<times> nat" where
  "select_layers scores (a # as) (l # ls) unused =
     (let allocation = a + unused in
      if allocation = 0 then select_layers scores as ls 0
      else
        (let ordered = layer_order scores (l_neurons l);
             to_select = min allocation (length ordered);
             (selected, rest) = select_layers scores as ls (allocation - to_select)
         in (map ni_uuid (take to_select ordered) @ selected, rest)))"
| "select_layers scores _ _ unused = ([], unused)"

fun backfill ::
  "(string \<rightharpoonup> f32) \<Rightarrow> string set \<Rightarrow> neuron_layer list \<Rightarrow> nat \<Rightarrow> string list" where
  "backfill scores already [] unused = []"
| "backfill scores already (l # ls) unused =
     (if unused = 0 then []
      else
        (let remaining = layer_order scores (filter (\<lambda>n. ni_uuid n \<notin> already) (l_neurons l));
             taken = take unused remaining
         in map ni_uuid taken @ backfill scores already ls (unused - length taken)))"

definition hierarchical_focus_selection ::
  "neuron_layer list \<Rightarrow> nat \<Rightarrow> allocation_strategy \<Rightarrow> (string \<rightharpoonup> f32) \<Rightarrow> string list" where
  "hierarchical_focus_selection layers max_focus strategy scores =
     (if layers = [] \<or> max_focus = 0 then []
      else
        (let allocations = allocate_focus_budget max_focus layers strategy;
             (selected, unused) = select_layers scores allocations layers 0;
             complete = (if length selected < max_focus \<and> 0 < unused
                         then selected @ backfill scores (set selected) (rev layers) unused
                         else selected)
         in take max_focus complete))"

abbreviation layer_uuids :: "neuron_layer \<Rightarrow> string list" where
  "layer_uuids l \<equiv> map ni_uuid (l_neurons l)"

lemma mset_layer_order [simp]: "mset (layer_order scores ns) = mset ns"
  by (simp add: layer_order_def multiset.map_comp comp_def)

lemma layer_order_facts [simp]:
  "length (layer_order scores ns) = length ns"
  "set (layer_order scores ns) = set ns"
  using mset_layer_order [of scores ns] by (metis size_mset, metis set_mset_mset)

lemma distinct_layer_order:
  "distinct (map ni_uuid (layer_order scores ns)) \<longleftrightarrow> distinct (map ni_uuid ns)"
  by (metis mset_layer_order mset_map mset_eq_imp_distinct_iff)

lemma layer_order_filter: "layer_order scores (filter P ns) = filter P (layer_order scores ns)"
proof -
  have "filter P (map fst xs) = map fst (filter (P \<circ> fst) xs)" for xs :: "(neuron_info \<times> f32) list"
    by (simp add: filter_map)
  moreover have "map (\<lambda>n. (n, score_of scores n)) (filter P ns) =
      filter (P \<circ> fst) (map (\<lambda>n. (n, score_of scores n)) ns)"
    by (simp add: filter_map comp_def)
  ultimately show ?thesis by (simp add: layer_order_def filter_sort)
qed

text \<open>A selection takes the best of a layer: a prefix of its order, and nothing else of it.\<close>

definition takes_best :: "(string \<rightharpoonup> f32) \<Rightarrow> string list \<Rightarrow> neuron_layer \<Rightarrow> bool" where
  "takes_best scores sel l \<longleftrightarrow>
     (\<exists>k. set sel \<inter> set (layer_uuids l) = set (map ni_uuid (take k (layer_order scores (l_neurons l)))))"

lemma layer_prefix_subset: "set (map ni_uuid (take k (layer_order scores (l_neurons l)))) \<subseteq> set (layer_uuids l)"
  using set_take_subset [of k "layer_order scores (l_neurons l)"] by auto

text \<open>A layer without allocation is the case of an empty prefix.\<close>

lemma select_layers_Cons:
  "select_layers scores (a # as) (l # ls) unused =
     (let k = min (a + unused) (length (l_neurons l));
          (selected, rest) = select_layers scores as ls (a + unused - k)
      in (map ni_uuid (take k (layer_order scores (l_neurons l))) @ selected, rest))"
  by (auto simp: Let_def split: prod.split)

lemma select_layers_exact:
  assumes "distinct (concat (map layer_uuids layers))" "length allocs = length layers"
    and "select_layers scores allocs layers unused = (sel, rest)"
  shows "distinct sel \<and> set sel \<subseteq> set (concat (map layer_uuids layers)) \<and>
    length sel + rest = sum_list allocs + unused \<and> (\<forall>l \<in> set layers. takes_best scores sel l)"
  using assms
proof (induction layers arbitrary: allocs unused sel rest)
  case Nil
  then show ?case by simp
next
  case (Cons l ls)
  then obtain a as where allocs: "allocs = a # as" "length as = length ls" by (cases allocs) auto
  let ?o = "layer_order scores (l_neurons l)" and ?k = "min (a + unused) (length (l_neurons l))"
  obtain sel' where r: "select_layers scores as ls (a + unused - ?k) = (sel', rest)"
    and eq: "sel = map ni_uuid (take ?k ?o) @ sel'"
    using Cons.prems(3) unfolding allocs select_layers_Cons Let_def by (auto split: prod.splits)
  have "distinct (concat (map layer_uuids ls))" using Cons.prems(1) by simp
  from Cons.IH [OF this allocs(2) r]
  have IH: "distinct sel'" "set sel' \<subseteq> set (concat (map layer_uuids ls))"
      "length sel' + rest = sum_list as + (a + unused - ?k)" "\<forall>l \<in> set ls. takes_best scores sel' l"
    by blast+
  let ?p = "map ni_uuid (take ?k ?o)"
  have p: "set ?p \<subseteq> set (layer_uuids l)" by (rule layer_prefix_subset)
  have dis: "set (layer_uuids l) \<inter> set (concat (map layer_uuids ls)) = {}" "distinct (layer_uuids l)"
    using Cons.prems(1) by auto
  have "distinct ?p" using dis(2)
    by (metis distinct_layer_order distinct_take take_map)
  moreover have "set ?p \<inter> set sel' = {}" using p dis(1) IH(2) by blast
  moreover have "takes_best scores sel l"
    unfolding takes_best_def
  proof (intro exI)
    have "set sel' \<inter> set (layer_uuids l) = {}" using dis(1) IH(2) by blast
    with p show "set sel \<inter> set (layer_uuids l) = set ?p" unfolding eq set_append by blast
  qed
  moreover have "takes_best scores sel l'" if "l' \<in> set ls" for l'
  proof -
    have "set (layer_uuids l') \<subseteq> set (concat (map layer_uuids ls))" using that by auto
    then have "set sel \<inter> set (layer_uuids l') = set sel' \<inter> set (layer_uuids l')"
      unfolding eq set_append using p dis(1) by blast
    with IH(4) that show ?thesis by (simp add: takes_best_def)
  qed
  moreover have "length sel + rest = sum_list allocs + unused" using IH(3) by (simp add: eq allocs)
  moreover have "set sel \<subseteq> set (concat (map layer_uuids (l # ls)))" using IH(2) p by (auto simp: eq)
  ultimately show ?case using IH(1) unfolding eq by simp
qed

text \<open>What is left of a layer for the backfill, and how many slots it can use.\<close>

definition open_slots :: "string set \<Rightarrow> neuron_layer list \<Rightarrow> nat" where
  "open_slots already ls = (\<Sum>l \<leftarrow> ls. length (filter (\<lambda>n. ni_uuid n \<notin> already) (l_neurons l)))"

definition takes_best_of_rest ::
  "(string \<rightharpoonup> f32) \<Rightarrow> string set \<Rightarrow> string list \<Rightarrow> neuron_layer \<Rightarrow> bool" where
  "takes_best_of_rest scores already sel l \<longleftrightarrow>
     (\<exists>k. set sel \<inter> set (layer_uuids l) = set (map ni_uuid
        (take k (filter (\<lambda>n. ni_uuid n \<notin> already) (layer_order scores (l_neurons l))))))"

lemma backfill_exact:
  assumes "distinct (concat (map layer_uuids ls))"
  shows "distinct (backfill scores already ls unused) \<and>
    set (backfill scores already ls unused) \<subseteq> set (concat (map layer_uuids ls)) - already \<and>
    length (backfill scores already ls unused) = min unused (open_slots already ls) \<and>
    (\<forall>l \<in> set ls. takes_best_of_rest scores already (backfill scores already ls unused) l)"
  using assms
proof (induction ls arbitrary: unused)
  case Nil
  then show ?case by (simp add: open_slots_def)
next
  case (Cons l ls)
  show ?case
  proof (cases "unused = 0")
    case True
    then show ?thesis by (auto simp: takes_best_of_rest_def intro: exI [of _ 0])
  next
    case False
    let ?r = "filter (\<lambda>n. ni_uuid n \<notin> already) (layer_order scores (l_neurons l))"
    let ?p = "map ni_uuid (take unused ?r)"
    let ?b = "backfill scores already ls (unused - length (take unused ?r))"
    have eq: "backfill scores already (l # ls) unused = ?p @ ?b"
      using False by (simp add: layer_order_filter Let_def)
    have "distinct (concat (map layer_uuids ls))" using Cons.prems by simp
    note IH = Cons.IH [OF this, of "unused - length (take unused ?r)"]
    have p: "set ?p \<subseteq> set (layer_uuids l) - already"
      using set_take_subset [of unused ?r] by auto
    have dis: "set (layer_uuids l) \<inter> set (concat (map layer_uuids ls)) = {}" "distinct (layer_uuids l)"
      using Cons.prems by auto
    have "distinct ?p" using dis(2)
      by (metis distinct_layer_order distinct_map_filter distinct_take take_map)
    moreover have "length ?r = length (filter (\<lambda>n. ni_uuid n \<notin> already) (l_neurons l))"
      by (metis layer_order_filter layer_order_facts(1))
    then have "length (?p @ ?b) = min unused (open_slots already (l # ls))"
      using IH by (simp add: open_slots_def)
    moreover have "takes_best_of_rest scores already (?p @ ?b) l"
      unfolding takes_best_of_rest_def
    proof (intro exI)
      have "set ?b \<inter> set (layer_uuids l) = {}" using dis(1) IH by blast
      with p show "set (?p @ ?b) \<inter> set (layer_uuids l) = set ?p" unfolding set_append by blast
    qed
    moreover have "takes_best_of_rest scores already (?p @ ?b) l'" if "l' \<in> set ls" for l'
    proof -
      have "set (layer_uuids l') \<subseteq> set (concat (map layer_uuids ls))" using that by auto
      then have "set (?p @ ?b) \<inter> set (layer_uuids l') = set ?b \<inter> set (layer_uuids l')"
        unfolding set_append using p dis(1) by blast
      with IH that show ?thesis by (simp add: takes_best_of_rest_def)
    qed
    moreover have "set ?p \<inter> set ?b = {}" using p dis(1) IH by blast
    moreover have "set (?p @ ?b) \<subseteq> set (concat (map layer_uuids (l # ls))) - already"
      using p IH by auto
    ultimately show ?thesis using IH unfolding eq by simp
  qed
qed

text \<open>A prefix of a layer's order and the best of the rest make a longer prefix.\<close>

lemma takes_best_append:
  assumes "takes_best scores sel l" "takes_best_of_rest scores (set sel) extra l"
    and "distinct (layer_uuids l)"
  shows "takes_best scores (sel @ extra) l"
proof -
  let ?o = "layer_order scores (l_neurons l)"
  from assms(1) obtain k where k:
    "set sel \<inter> set (layer_uuids l) = set (map ni_uuid (take k ?o))" by (auto simp: takes_best_def)
  have d: "distinct (map ni_uuid ?o)" using assms(3) by (simp add: distinct_layer_order)
  have in_sel: "ni_uuid n \<in> set sel \<longleftrightarrow> n \<in> set (take k ?o)" if "n \<in> set ?o" for n
  proof -
    have "ni_uuid n \<in> set (layer_uuids l)" using that by simp
    then have "ni_uuid n \<in> set sel \<longleftrightarrow> ni_uuid n \<in> set (map ni_uuid (take k ?o))" using k by blast
    also have "\<dots> \<longleftrightarrow> n \<in> set (take k ?o)"
    proof
      assume "ni_uuid n \<in> set (map ni_uuid (take k ?o))"
      then obtain x where x: "x \<in> set (take k ?o)" "ni_uuid n = ni_uuid x" by auto
      moreover have "inj_on ni_uuid (set ?o)" using d by (simp add: distinct_map)
      ultimately show "n \<in> set (take k ?o)" using that by (metis in_set_takeD inj_onD)
    qed simp
    finally show ?thesis .
  qed
  have "filter (\<lambda>n. ni_uuid n \<notin> set sel) ?o =
      filter (\<lambda>n. n \<notin> set (take k ?o)) (take k ?o @ drop k ?o)"
    unfolding append_take_drop_id by (rule filter_cong) (simp_all add: in_sel)
  also have "\<dots> = drop k ?o"
    using d by (subst filter_append) (auto simp: distinct_map filter_id_conv filter_empty_conv
        dest: set_take_disj_set_drop_if_distinct [of _ k k])
  finally have rest: "filter (\<lambda>n. ni_uuid n \<notin> set sel) ?o = drop k ?o" .
  from assms(2) obtain j where
    "set extra \<inter> set (layer_uuids l) = set (map ni_uuid (take j (drop k ?o)))"
    by (auto simp: takes_best_of_rest_def rest)
  with k have "set (sel @ extra) \<inter> set (layer_uuids l) = set (map ni_uuid (take (k + j) ?o))"
    unfolding take_add by auto
  then show ?thesis unfolding takes_best_def by blast
qed

lemma open_slots_complement:
  assumes "distinct (concat (map layer_uuids ls))" "distinct sel"
    and "set sel \<subseteq> set (concat (map layer_uuids ls))"
  shows "open_slots (set sel) ls = layer_total ls - length sel"
proof -
  let ?all = "concat (map layer_uuids ls)"
  have "open_slots (set sel) ls = length (filter (\<lambda>u. u \<notin> set sel) ?all)"
    by (induction ls) (simp_all add: open_slots_def filter_map comp_def)
  also have "\<dots> = card (set ?all - set sel)"
    using assms(1) by (simp add: set_diff_eq flip: distinct_card)
  also have "\<dots> = card (set ?all) - card (set sel)"
    using assms(3) by (rule card_Diff_subset [OF finite_set])
  also have "\<dots> = length ?all - length sel"
    by (simp only: distinct_card [OF assms(1)] distinct_card [OF assms(2)])
  also have "length ?all = layer_total ls" by (simp add: length_concat comp_def)
  finally show ?thesis .
qed

text \<open>
  C20. For layers without a repeated identifier, hierarchical selection fills the whole focus
  budget whenever there are enough neurons, under each of the three strategies: it selects
  exactly \<open>min max_focus total\<close> distinct neurons of the layers, and of every layer it selects the
  best by score.
\<close>

theorem hierarchical_selection_exact:
  assumes "distinct (concat (map layer_uuids layers))"
  shows "let sel = hierarchical_focus_selection layers max_focus strategy scores in
    length sel = min max_focus (layer_total layers) \<and> distinct sel \<and>
    set sel \<subseteq> set (concat (map layer_uuids layers)) \<and>
    (\<forall>l \<in> set layers. takes_best scores sel l)"
proof (cases "layers = [] \<or> max_focus = 0")
  case True
  then show ?thesis
    by (auto simp: hierarchical_focus_selection_def takes_best_def intro: exI [of _ 0])
next
  case False
  let ?a = "allocate_focus_budget max_focus layers strategy"
  obtain sel unused where r: "select_layers scores ?a layers 0 = (sel, unused)" by fastforce
  note S = select_layers_exact [OF assms allocation_exact(1) r]
  let ?b = "backfill scores (set sel) (rev layers) unused"
  have dr: "distinct (concat (map layer_uuids (rev layers)))"
    using assms by (simp flip: rev_map)
  note B = backfill_exact [OF dr, of scores "set sel" unused]
  have room: "open_slots (set sel) (rev layers) = layer_total layers - length sel"
    using open_slots_complement [OF assms, of sel] S by (simp add: open_slots_def rev_map [symmetric])
  have le: "length sel \<le> layer_total layers"
  proof -
    have "card (set sel) \<le> card (set (concat (map layer_uuids layers)))"
      using S by (intro card_mono) simp_all
    then have "length sel \<le> length (concat (map layer_uuids layers))"
      using S by (simp only: distinct_card [OF assms] distinct_card)
    then show ?thesis by (simp add: length_concat comp_def)
  qed
  note sum = allocation_exact(2) [of max_focus layers strategy]
  let ?all = "set (concat (map layer_uuids layers))"
  have "length full = min max_focus (layer_total layers) \<and> distinct full \<and> set full \<subseteq> ?all \<and>
      (\<forall>l \<in> set layers. takes_best scores full l)"
    if full: "full = (if length sel < max_focus \<and> 0 < unused then sel @ ?b else sel)" for full
  proof (cases "length sel < max_focus \<and> 0 < unused")
    case True
    have "length full = length sel + min unused (layer_total layers - length sel)"
      using B True room full by simp
    then have "length full = min max_focus (layer_total layers)" using S sum le by linarith
    moreover have "takes_best scores full l" if "l \<in> set layers" for l
    proof -
      have "distinct (layer_uuids l)" using assms that by (simp add: distinct_concat_iff)
      with takes_best_append [of scores sel l ?b] S B that True full show ?thesis by simp
    qed
    ultimately show ?thesis using S B True full by auto
  next
    case False
    then have "length sel = min max_focus (layer_total layers)" using S sum le by linarith
    with False S full show ?thesis by auto
  qed
  from this [OF refl] show ?thesis
    using False r by (simp add: hierarchical_focus_selection_def Let_def)
qed

definition example_layers :: "neuron_layer list" where
  "example_layers =
     [\<lparr>l_depth = 1, l_neurons = [\<lparr>ni_uuid = ''a'', ni_type = ''hidden''\<rparr>,
         \<lparr>ni_uuid = ''b'', ni_type = ''hidden''\<rparr>, \<lparr>ni_uuid = ''c'', ni_type = ''hidden''\<rparr>]\<rparr>,
      \<lparr>l_depth = 2, l_neurons = [\<lparr>ni_uuid = ''o'', ni_type = ''output''\<rparr>]\<rparr>]"

theorem hierarchical_selection_exact_witness:
  "length (hierarchical_focus_selection example_layers 3 Equal Map.empty) = 3"
proof -
  have "distinct (concat (map layer_uuids example_layers))" by (simp add: example_layers_def)
  from hierarchical_selection_exact [OF this, of 3 Equal Map.empty]
  show ?thesis by (simp add: example_layers_def Let_def)
qed

section \<open>Exploit and explore\<close>

record focus_candidate =
  fc_uuid :: string
  fc_weight :: f32

record focus_selection =
  fs_selected :: "string list"
  fs_raw_ratio :: f32
  fs_ratio :: f32
  fs_exploitation_count :: nat
  fs_exploration_count :: nat
  fs_exploration_cursor :: u64
  fs_eligible_pool_size :: nat
  fs_cumulative_coverage :: nat
  fs_drought_active :: bool
  fs_pool_size :: nat

text \<open>
  Single-precision addition and division, and the rounded share of a focus set,
  \<open>(n as f32 * fraction).round() as usize\<close>, whose fraction depends on the drought flag.
\<close>

record focus_arith =
  fa_add :: "f32 \<Rightarrow> f32 \<Rightarrow> f32"
  fa_div :: "f32 \<Rightarrow> f32 \<Rightarrow> f32"
  fa_share :: "bool \<Rightarrow> nat \<Rightarrow> nat"

definition clamp_weight :: "f32 \<Rightarrow> f32" where
  "clamp_weight w = (if f32_is_finite w \<and> f32_positive w then w else f32_zero)"

fun sum_and_max :: "focus_arith \<Rightarrow> f32 list \<Rightarrow> f32 \<times> f32 \<Rightarrow> f32 \<times> f32" where
  "sum_and_max fa [] acc = acc"
| "sum_and_max fa (w # ws) (acc, largest) =
     (let w' = clamp_weight w in
      sum_and_max fa ws (fa_add fa acc w', if f32_less largest w' then w' else largest))"

definition weight_concentration_ratio :: "focus_arith \<Rightarrow> f32 list \<Rightarrow> f32" where
  "weight_concentration_ratio fa weights =
     (case sum_and_max fa weights (f32_zero, f32_zero) of
        (acc, largest) \<Rightarrow> if f32_positive acc then fa_div fa largest acc else f32_zero)"

definition exploration_quota :: "focus_arith \<Rightarrow> nat \<Rightarrow> bool \<Rightarrow> nat" where
  "exploration_quota fa n drought =
     (let max_explore = (n - 1) div 2;
          explore = fa_share fa drought n;
          explore = (if 1 \<le> max_explore \<and> explore = 0 then 1 else explore)
      in min explore max_explore)"

definition exploration_indices :: "nat \<Rightarrow> nat \<Rightarrow> nat \<Rightarrow> u64 \<Rightarrow> nat list" where
  "exploration_indices pool_len exploit explore cursor =
     (if explore = 0 \<or> pool_len \<le> exploit then []
      else
        (let tail_len = pool_len - exploit;
             base = unat ((cursor * word_of_nat explore) mod word_of_nat tail_len)
         in map (\<lambda>k. exploit + (base + k) mod tail_len) [0..<explore]))"

definition select_focus_neurons ::
  "focus_arith \<Rightarrow> focus_candidate list \<Rightarrow> nat \<Rightarrow> bool \<Rightarrow> u64 \<Rightarrow> focus_selection" where
  "select_focus_neurons fa ranked target_n drought cursor =
     (let n = max target_n 1;
          weights = map (clamp_weight \<circ> fc_weight) ranked;
          raw_ratio = weight_concentration_ratio fa weights;
          pool_len = length ranked
      in if pool_len = 0 then
           \<lparr>fs_selected = [], fs_raw_ratio = f32_zero, fs_ratio = f32_zero,
            fs_exploitation_count = 0, fs_exploration_count = 0, fs_exploration_cursor = cursor,
            fs_eligible_pool_size = 0, fs_cumulative_coverage = 0, fs_drought_active = drought,
            fs_pool_size = 0\<rparr>
         else if pool_len \<le> n then
           \<lparr>fs_selected = map fc_uuid ranked, fs_raw_ratio = raw_ratio,
            fs_ratio = weight_concentration_ratio fa weights,
            fs_exploitation_count = pool_len, fs_exploration_count = 0,
            fs_exploration_cursor = cursor, fs_eligible_pool_size = pool_len,
            fs_cumulative_coverage = pool_len, fs_drought_active = drought, fs_pool_size = pool_len\<rparr>
         else
           (let explore = exploration_quota fa n drought;
                exploit = n - explore;
                explore_idx = exploration_indices pool_len exploit explore cursor;
                selected_indices = [0..<exploit] @ explore_idx;
                selected = map fc_uuid (take exploit ranked) @ map (\<lambda>i. fc_uuid (ranked ! i)) explore_idx;
                tail_len = pool_len - exploit;
                passes = sat_add cursor 1;
                tail_covered = min (unat (sat_mul passes (word_of_nat explore))) tail_len
            in \<lparr>fs_selected = selected, fs_raw_ratio = raw_ratio,
                fs_ratio = weight_concentration_ratio fa (map (\<lambda>i. weights ! i) selected_indices),
                fs_exploitation_count = exploit, fs_exploration_count = length explore_idx,
                fs_exploration_cursor = cursor, fs_eligible_pool_size = pool_len,
                fs_cumulative_coverage = min (exploit + tail_covered) pool_len,
                fs_drought_active = drought, fs_pool_size = pool_len\<rparr>))"

lemma exploration_quota_bound: "exploration_quota fa n drought \<le> (n - 1) div 2"
  by (simp add: exploration_quota_def Let_def)

lemma exploration_quota_positive: "3 \<le> n \<Longrightarrow> 0 < exploration_quota fa n drought"
  by (simp add: exploration_quota_def Let_def)

text \<open>While the product of cursor and quota fits, the window starts where the last one ended.\<close>

lemma exploration_window:
  assumes "exploit < pool" "pool < 2 ^ 64"
    and fits: "unat cursor * explore < 2 ^ 64" and e: "explore < 2 ^ 64"
  shows "exploration_indices pool exploit explore cursor =
    map (\<lambda>i. exploit + i mod (pool - exploit)) [unat cursor * explore..<(unat cursor + 1) * explore]"
proof -
  let ?T = "pool - exploit"
  have "unat (cursor * word_of_nat explore) = unat cursor * explore"
    using fits e by (simp add: unat_word_ariths unat_of_nat)
  moreover have "unat (word_of_nat ?T :: u64) = ?T" using assms(2) by (simp add: unat_of_nat)
  ultimately have base: "unat ((cursor * word_of_nat explore) mod word_of_nat ?T) =
      unat cursor * explore mod ?T"
    by (simp add: unat_mod_distrib)
  show ?thesis
    using assms(1) unfolding exploration_indices_def Let_def base
    by (simp add: mod_simps list_eq_iff_nth_eq)
qed

lemma inj_on_mod_interval:
  assumes "0 < (T::nat)"
  shows "inj_on (\<lambda>i. i mod T) {a..<a + T}"
proof (rule inj_onI)
  have eq: "x = y" if "x \<le> y" "y < x + T" "x mod T = y mod T" for x y :: nat
  proof -
    have "T dvd y - x" using mod_eq_dvd_iff_nat [of x y T] that by simp
    moreover have "y - x < T" using that assms by linarith
    ultimately have "y - x = 0" using nat_dvd_not_less [of "y - x" T] by blast
    with that show ?thesis by simp
  qed
  fix x y assume xy: "x \<in> {a..<a + T}" "y \<in> {a..<a + T}" "x mod T = y mod T"
  then have "y < x + T" "x < y + T" by simp_all
  with xy(3) eq [of x y] eq [of y x] show "x = y" by linarith
qed

lemma mod_interval_image:
  assumes "0 < (T::nat)"
  shows "(\<lambda>i. i mod T) ` {a..<a + T} = {0..<T}"
proof (rule card_seteq)
  show "(\<lambda>i. i mod T) ` {a..<a + T} \<subseteq> {0..<T}" using assms by auto
  show "card {0..<T} \<le> card ((\<lambda>i. i mod T) ` {a..<a + T})"
    by (simp add: card_image inj_on_mod_interval [OF assms])
qed simp

lemma card_mod_interval:
  assumes "0 < (T::nat)"
  shows "card ((\<lambda>i. i mod T) ` {0..<M}) = min M T"
proof (cases "M \<le> T")
  case True
  then have "inj_on (\<lambda>i. i mod T) {0..<M}"
    by (intro inj_on_subset [OF inj_on_mod_interval [OF assms, of 0]]) auto
  with True show ?thesis by (simp add: card_image)
next
  case False
  have "(\<lambda>i. i mod T) ` {0..<M} = {0..<T}"
  proof
    show "(\<lambda>i. i mod T) ` {0..<M} \<subseteq> {0..<T}" using assms by auto
    show "{0..<T} \<subseteq> (\<lambda>i. i mod T) ` {0..<M}"
    proof
      fix x assume "x \<in> {0..<T}"
      then have "x = x mod T" "x \<in> {0..<M}" using False by simp_all
      then show "x \<in> (\<lambda>i. i mod T) ` {0..<M}" by (rule image_eqI)
    qed
  qed
  with False show ?thesis by simp
qed

text \<open>The ranks a pass selects: the head, and a window of the tail that moves with the cursor.\<close>

lemma selected_ranks:
  assumes n: "n = max target_n 1" and e: "e = exploration_quota fa n drought"
    and pool: "n < length ranked" "length ranked < 2 ^ 64" and fits: "unat cursor * e < 2 ^ 64"
  shows "fs_selected (select_focus_neurons fa ranked target_n drought cursor) =
    map (\<lambda>i. fc_uuid (ranked ! i)) ([0..<n - e] @
      map (\<lambda>i. (n - e) + i mod (length ranked - (n - e))) [unat cursor * e..<(unat cursor + 1) * e])"
proof -
  have "e \<le> (n - 1) div 2" unfolding e by (rule exploration_quota_bound)
  then have le: "e < n" using n by linarith
  have "exploration_indices (length ranked) (n - e) e cursor =
      map (\<lambda>i. (n - e) + i mod (length ranked - (n - e))) [unat cursor * e..<(unat cursor + 1) * e]"
    by (rule exploration_window) (use pool le fits in \<open>linarith+\<close>)
  moreover have "take (n - e) ranked = map ((!) ranked) [0..<n - e]"
    using pool by (intro nth_equalityI) simp_all
  ultimately show ?thesis
    using pool unfolding select_focus_neurons_def Let_def n [symmetric] e [symmetric]
    by (auto simp: comp_def)
qed

lemma selected_rank_set:
  assumes "n = max target_n 1" "e = exploration_quota fa n drought"
    and "n < length ranked" "length ranked < 2 ^ 64" "unat cursor * e < 2 ^ 64"
  shows "set (fs_selected (select_focus_neurons fa ranked target_n drought cursor)) =
    (\<lambda>i. fc_uuid (ranked ! i)) ` ({0..<n - e} \<union>
      (\<lambda>i. (n - e) + i mod (length ranked - (n - e))) ` {unat cursor * e..<(unat cursor + 1) * e})"
  unfolding selected_ranks [OF assms] by (simp add: image_Un image_image add.commute)

lemma consecutive_windows: "(\<Union>j<k. {(c + j) * e..<(c + j + 1) * e}) = {c * e..<(c + k) * (e :: nat)}"
proof (induction k)
  case (Suc k)
  have "{c * e..<(c + k) * e} \<union> {(c + k) * e..<(c + k + 1) * e} = {c * e..<(c + Suc k) * e}"
    by (auto simp: algebra_simps)
  with Suc show ?case by (simp add: lessThan_Suc Un_commute)
qed simp

text \<open>
  C21. Eventual coverage: while the cursor times the quota fits its width, \<open>k\<close> consecutive passes
  over a pool larger than the focus set select every candidate of the pool, as soon as \<open>k\<close>
  quotas add up to the tail of the ranking. A focus set of at least three always has a quota.
\<close>

theorem exploration_covers_pool:
  assumes "n = max target_n 1" "e = exploration_quota fa n drought"
    and "3 \<le> n" "n < length ranked" "length ranked < 2 ^ 64"
    and "length ranked - (n - e) \<le> k * e" "(unat cursor + k) * e < 2 ^ 64"
  shows "0 < e \<and>
    (\<forall>i < length ranked. \<exists>j < k. fc_uuid (ranked ! i) \<in>
       set (fs_selected (select_focus_neurons fa ranked target_n drought (cursor + word_of_nat j))))"
proof -
  have pos: "0 < e" unfolding assms(2) by (rule exploration_quota_positive [OF assms(3)])
  have le: "e \<le> (n - 1) div 2" unfolding assms(2) by (rule exploration_quota_bound)
  let ?T = "length ranked - (n - e)"
  have T: "0 < ?T" using assms(4) by simp
  have cur: "unat (cursor + word_of_nat j) = unat cursor + j"
      "unat (cursor + word_of_nat j) * e < 2 ^ 64" if "j < k" for j
  proof -
    have "(unat cursor + j) * e \<le> (unat cursor + k) * e" using that by (intro mult_right_mono) auto
    with assms(7) have fit: "(unat cursor + j) * e < 2 ^ 64" by linarith
    moreover have "unat cursor + j \<le> (unat cursor + j) * e"
      using pos by (cases e) simp_all
    ultimately have "unat cursor + j < 2 ^ 64" by linarith
    then show "unat (cursor + word_of_nat j) = unat cursor + j"
      by (simp add: unat_word_ariths unat_of_nat)
    with fit show "unat (cursor + word_of_nat j) * e < 2 ^ 64" by simp
  qed
  note S = selected_rank_set [OF assms(1,2,4,5) cur(2)]
  have "\<exists>j < k. fc_uuid (ranked ! i) \<in>
      set (fs_selected (select_focus_neurons fa ranked target_n drought (cursor + word_of_nat j)))"
    if i: "i < length ranked" for i
  proof (cases "i < n - e")
    case True
    moreover have "0 < k" using assms(6) T by (cases k) auto
    moreover from True have "i \<in> {0..<n - e}" by simp
    ultimately show ?thesis using S [of 0] by blast
  next
    case False
    then have "i - (n - e) \<in> {0..<?T}" using i by auto
    also have "\<dots> = (\<lambda>x. x mod ?T) ` {unat cursor * e..<unat cursor * e + ?T}"
      using mod_interval_image [OF T] by simp
    finally obtain x where x: "i - (n - e) = x mod ?T" "unat cursor * e \<le> x"
        "x < unat cursor * e + ?T" by auto
    then have "x \<in> {unat cursor * e..<(unat cursor + k) * e}"
      using assms(6) by (simp add: algebra_simps)
    then have "x \<in> (\<Union>j<k. {(unat cursor + j) * e..<(unat cursor + j + 1) * e})"
      by (simp only: consecutive_windows)
    then obtain j where j: "j < k" "x \<in> {(unat cursor + j) * e..<(unat cursor + j + 1) * e}"
      by blast
    have "i = (n - e) + x mod ?T" using x(1) False by simp
    with j show ?thesis using S [OF j(1)] unfolding cur(1) [OF j(1)] by blast
  qed
  with pos show ?thesis by blast
qed

definition example_arith :: focus_arith where
  "example_arith = \<lparr>fa_add = (\<lambda>a b. a), fa_div = (\<lambda>a b. a), fa_share = (\<lambda>_ _. 1)\<rparr>"

definition example_ranked :: "focus_candidate list" where
  "example_ranked = map (\<lambda>u. \<lparr>fc_uuid = u, fc_weight = 0\<rparr>) [''a'', ''b'', ''c'', ''d'', ''e'']"

theorem exploration_covers_pool_witness:
  "\<exists>j < 3. ''e'' \<in> set (fs_selected
     (select_focus_neurons example_arith example_ranked 3 False (7 + word_of_nat j)))"
proof -
  have e: "(1::nat) = exploration_quota example_arith 3 False"
    by (simp add: exploration_quota_def example_arith_def)
  have n: "3 = max 3 (1::nat)" by simp
  have len: "length example_ranked = 5" and u: "fc_uuid (example_ranked ! 4) = ''e''"
    by (simp_all add: example_ranked_def)
  from exploration_covers_pool [OF n e, of example_ranked 3 7]
  have "\<forall>i < 5. \<exists>j < 3. fc_uuid (example_ranked ! i) \<in> set (fs_selected
     (select_focus_neurons example_arith example_ranked 3 False (7 + word_of_nat j)))"
    by (simp add: len)
  from this [rule_format, of 4] show ?thesis by (simp add: u)
qed

text \<open>Within one window the ranks differ, since the tail is longer than the quota.\<close>

lemma selected_ranks_distinct:
  assumes "n - e + e \<le> pool" "n - e < pool"
  shows "distinct ([0..<n - e] @ map (\<lambda>i. (n - e) + i mod (pool - (n - e))) [a..<a + e])"
    and "set ([0..<n - e] @ map (\<lambda>i. (n - e) + i mod (pool - (n - e))) [a..<a + e]) \<subseteq> {0..<pool}"
proof -
  let ?T = "pool - (n - e)"
  have T: "0 < ?T" "e \<le> ?T" using assms by linarith+
  have "inj_on (\<lambda>i. i mod ?T) {a..<a + e}"
    using T(2) by (intro inj_on_subset [OF inj_on_mod_interval [OF T(1), of a]]) auto
  then show "distinct ([0..<n - e] @ map (\<lambda>i. (n - e) + i mod ?T) [a..<a + e])"
    by (auto simp: distinct_map inj_on_def)
  have "(n - e) + i mod ?T < pool" for i using mod_less_divisor [OF T(1), of i] by linarith
  then show "set ([0..<n - e] @ map (\<lambda>i. (n - e) + i mod ?T) [a..<a + e]) \<subseteq> {0..<pool}"
    using assms by auto
qed

lemma distinct_map_nth:
  assumes "distinct (map f xs)" "distinct is" "set is \<subseteq> {0..<length xs}"
  shows "distinct (map (\<lambda>i. f (xs ! i)) is)"
proof -
  have "inj_on (\<lambda>i. f (xs ! i)) {0..<length xs}"
    using assms(1) by (auto simp: inj_on_def distinct_conv_nth) (metis linorder_neqE_nat)
  with assms(2,3) show ?thesis by (auto simp: distinct_map intro: inj_on_subset)
qed

lemma word_of_nat_unat_le:
  "c \<le> unat (cursor :: u64) \<Longrightarrow> unat (word_of_nat c :: u64) = c"
  using unat_lt_length [of cursor] by (simp add: unat_of_nat)

text \<open>The ranks reached by all passes up to a cursor: the head, and the tail up to the last window.\<close>

lemma coverage_card:
  fixes cursor :: u64
  assumes "distinct (map fc_uuid ranked)" "n = max target_n 1"
    and "e = exploration_quota fa n drought" "n < length ranked" "length ranked < 2 ^ 64"
    and fits: "(unat cursor + 1) * e < 2 ^ 64"
  shows "card (\<Union>c \<in> {0..unat cursor}. set (fs_selected
      (select_focus_neurons fa ranked target_n drought (word_of_nat c)))) =
    (n - e) + min ((unat cursor + 1) * e) (length ranked - (n - e))"
proof -
  let ?T = "length ranked - (n - e)" and ?M = "(unat cursor + 1) * e"
  let ?u = "\<lambda>i. fc_uuid (ranked ! i)" and ?t = "\<lambda>i. (n - e) + i mod ?T"
  have T: "0 < ?T" using assms(4) by linarith
  have sel: "set (fs_selected (select_focus_neurons fa ranked target_n drought (word_of_nat c))) =
      ?u ` ({0..<n - e} \<union> ?t ` {c * e..<(c + 1) * e})" if "c \<le> unat cursor" for c
  proof -
    have "c * e \<le> ?M" using that by (intro mult_right_mono) auto
    then have "unat (word_of_nat c :: u64) * e < 2 ^ 64"
      using fits word_of_nat_unat_le [OF that] by simp
    from selected_rank_set [OF assms(2-5) this] word_of_nat_unat_le [OF that] show ?thesis by simp
  qed
  have "(\<Union>c \<in> {0..unat cursor}. set (fs_selected
      (select_focus_neurons fa ranked target_n drought (word_of_nat c)))) =
      (\<Union>c<unat cursor + 1. ?u ` ({0..<n - e} \<union> ?t ` {c * e..<(c + 1) * e}))"
    using sel by (intro SUP_cong) auto
  also have "\<dots> = ?u ` ({0..<n - e} \<union> ?t ` (\<Union>c<unat cursor + 1. {c * e..<(c + 1) * e}))"
    by auto
  also have "(\<Union>c<unat cursor + 1. {c * e..<(c + 1) * e}) = {0..<?M}"
    using consecutive_windows [where c = 0 and k = "unat cursor + 1" and e = e] by simp
  finally have U: "(\<Union>c \<in> {0..unat cursor}. set (fs_selected
      (select_focus_neurons fa ranked target_n drought (word_of_nat c)))) =
      ?u ` ({0..<n - e} \<union> ?t ` {0..<?M})" .
  have tail: "?t ` {0..<?M} = (+) (n - e) ` (\<lambda>i. i mod ?T) ` {0..<?M}" by (simp add: image_image)
  have "card (?t ` {0..<?M}) = min ?M ?T"
    unfolding tail by (simp add: card_image card_mod_interval [OF T])
  moreover have "?t ` {0..<?M} \<subseteq> {n - e..<length ranked}"
    using mod_less_divisor [OF T] assms(4) by (auto simp: less_diff_conv add.commute)
  then have "{0..<n - e} \<inter> ?t ` {0..<?M} = {}" "{0..<n - e} \<union> ?t ` {0..<?M} \<subseteq> {0..<length ranked}"
    using assms(4) by auto
  moreover have "inj_on ?u {0..<length ranked}"
    using assms(1) by (auto simp: inj_on_def distinct_conv_nth) (metis linorder_neqE_nat)
  ultimately show ?thesis
    unfolding U by (simp add: card_image inj_on_subset card_Un_disjoint)
qed

lemma select_small_pool:
  assumes "length ranked \<le> max target_n 1"
  shows "fs_selected (select_focus_neurons fa ranked target_n drought cursor) = map fc_uuid ranked"
    "fs_exploitation_count (select_focus_neurons fa ranked target_n drought cursor) = length ranked"
    "fs_exploration_count (select_focus_neurons fa ranked target_n drought cursor) = 0"
    "fs_cumulative_coverage (select_focus_neurons fa ranked target_n drought cursor) = length ranked"
  using assms by (auto simp: select_focus_neurons_def Let_def)

lemma select_large_pool:
  assumes "n = max target_n 1" "e = exploration_quota fa n drought" "n < length ranked"
    and "length ranked < 2 ^ 64" "(unat cursor + 1) * e < 2 ^ 64"
  shows "fs_exploitation_count (select_focus_neurons fa ranked target_n drought cursor) = n - e"
    "fs_exploration_count (select_focus_neurons fa ranked target_n drought cursor) = e"
    "fs_cumulative_coverage (select_focus_neurons fa ranked target_n drought cursor) =
       (n - e) + min ((unat cursor + 1) * e) (length ranked - (n - e))"
proof -
  have "e \<le> (n - 1) div 2" unfolding assms(2) by (rule exploration_quota_bound)
  then have le: "e < n" using assms(1) by linarith
  have "e < 2 ^ 64" using le assms(3,4) by linarith
  then have u: "unat (word_of_nat e :: u64) = e" by (simp add: unat_of_nat)
  have "unat (sat_mul (sat_add cursor 1) (word_of_nat e)) = (unat cursor + 1) * e"
  proof (cases "e = 0")
    case False
    then have "unat cursor + 1 \<le> (unat cursor + 1) * e" by (cases e) simp_all
    then have "unat (sat_add cursor 1) = unat cursor + 1"
      using assms(5) by (simp add: unat_sat_add)
    then show ?thesis using assms(5) u by (simp add: unat_sat_mul)
  qed (simp add: unat_sat_mul)
  moreover have "n - e < length ranked" using assms(3) by linarith
  then have "length (exploration_indices (length ranked) (n - e) e cursor) = e"
    by (simp add: exploration_indices_def Let_def)
  ultimately show
    "fs_exploitation_count (select_focus_neurons fa ranked target_n drought cursor) = n - e"
    "fs_exploration_count (select_focus_neurons fa ranked target_n drought cursor) = e"
    "fs_cumulative_coverage (select_focus_neurons fa ranked target_n drought cursor) =
       (n - e) + min ((unat cursor + 1) * e) (length ranked - (n - e))"
    using assms(3) unfolding select_focus_neurons_def Let_def assms(1) [symmetric] assms(2) [symmetric]
    by (auto simp: min_def)
qed

text \<open>
  The exploit/explore selection over a ranking of distinct candidates: it selects
  \<open>min n pool\<close> distinct candidates, the exploitation slots hold the top of the ranking in order
  and are a strict majority, the two counts add up, and the reported cumulative coverage is
  exactly the number of candidates that the passes of all cursors up to this one select.
\<close>

theorem focus_selection_accounts:
  fixes cursor :: u64
  assumes "distinct (map fc_uuid ranked)" "n = max target_n 1" "e = exploration_quota fa n drought"
    and "length ranked < 2 ^ 64" "(unat cursor + 1) * e < 2 ^ 64"
    and sel: "sel = select_focus_neurons fa ranked target_n drought cursor"
  shows "length (fs_selected sel) = min n (length ranked) \<and> distinct (fs_selected sel) \<and>
    set (fs_selected sel) \<subseteq> fc_uuid ` set ranked \<and>
    fs_exploitation_count sel + fs_exploration_count sel = length (fs_selected sel) \<and>
    (ranked = [] \<or> length (fs_selected sel) < 2 * fs_exploitation_count sel) \<and>
    take (fs_exploitation_count sel) (fs_selected sel) =
      take (fs_exploitation_count sel) (map fc_uuid ranked) \<and>
    fs_cumulative_coverage sel = card (\<Union>c \<in> {0..unat cursor}. set (fs_selected
      (select_focus_neurons fa ranked target_n drought (word_of_nat c))))"
proof (cases "length ranked \<le> max target_n 1")
  case True
  then show ?thesis
    using assms(1,2) distinct_card [OF assms(1)] unfolding sel by (simp add: select_small_pool)
next
  case False
  with assms(2) have pool: "n < length ranked" by linarith
  have "e \<le> (n - 1) div 2" unfolding assms(3) by (rule exploration_quota_bound)
  then have le: "2 * e < n" "n - e + e \<le> length ranked" "n - e < length ranked"
    using assms(2) pool by linarith+
  have fits: "unat cursor * e < 2 ^ 64" using assms(5) by simp
  let ?is = "[0..<n - e] @ map (\<lambda>i. (n - e) + i mod (length ranked - (n - e)))
      [unat cursor * e..<unat cursor * e + e]"
  have sl: "fs_selected sel = map (\<lambda>i. fc_uuid (ranked ! i)) ?is"
    unfolding sel selected_ranks [OF assms(2,3) pool assms(4) fits] by (simp add: add.commute)
  note ranks = selected_ranks_distinct [OF le(2,3), of "unat cursor * e"]
  have "distinct (fs_selected sel)" unfolding sl by (rule distinct_map_nth [OF assms(1) ranks])
  moreover have "set (fs_selected sel) \<subseteq> fc_uuid ` set ranked"
    using ranks(2) unfolding sl by (auto simp: subset_iff)
  moreover have "take (n - e) (fs_selected sel) = take (n - e) (map fc_uuid ranked)"
    unfolding sl using pool by (intro nth_equalityI) simp_all
  moreover have "length (fs_selected sel) = n" unfolding sl using le(1) by simp
  moreover note large = select_large_pool [OF assms(2,3) pool assms(4,5), folded sel]
  moreover have "n < 2 * (n - e)" using le(1) by linarith
  ultimately show ?thesis
    using pool le(1) coverage_card [OF assms(1,2,3) pool assms(4,5)] by simp
qed

theorem focus_selection_accounts_witness:
  "length (fs_selected (select_focus_neurons example_arith example_ranked 3 False 7)) = 3"
proof -
  have d: "distinct (map fc_uuid example_ranked)" by (simp add: example_ranked_def)
  have n: "3 = max 3 (1::nat)" by simp
  have e: "1 = exploration_quota example_arith 3 False"
    by (simp add: exploration_quota_def example_arith_def)
  show ?thesis
    using focus_selection_accounts [OF d n e _ _ refl, of 7] by (simp add: example_ranked_def)
qed

section \<open>The structural draw\<close>

text \<open>Double-precision arithmetic and the seeded generator, whose state is threaded through.\<close>

record ('d, 'g) chance =
  ch_of :: "f32 \<Rightarrow> 'd"
  ch_zero :: 'd
  ch_add :: "'d \<Rightarrow> 'd \<Rightarrow> 'd"
  ch_less :: "'d \<Rightarrow> 'd \<Rightarrow> bool"
  ch_seed :: "u64 \<Rightarrow> 'g"
  ch_range_real :: "'g \<Rightarrow> 'd \<Rightarrow> 'd \<times> 'g"
  ch_range_nat :: "'g \<Rightarrow> nat \<Rightarrow> nat \<times> 'g"

definition draw_weight :: "('d, 'g) chance \<Rightarrow> f32 \<Rightarrow> 'd" where
  "draw_weight ch w = (if f32_is_finite w \<and> f32_positive w then ch_of ch w else ch_zero ch)"

fun find_hit ::
  "('d, 'g) chance \<Rightarrow> f32 list \<Rightarrow> 'd \<Rightarrow> 'd \<Rightarrow> nat \<Rightarrow> nat list \<Rightarrow> nat \<Rightarrow> nat" where
  "find_hit ch weights target cumulative p [] hit = hit"
| "find_hit ch weights target cumulative p (i # is) hit =
     (let cumulative = ch_add ch cumulative (draw_weight ch (weights ! i)) in
      if ch_less ch target cumulative then p
      else find_hit ch weights target cumulative (p + 1) is hit)"

definition draw_position ::
  "('d, 'g) chance \<Rightarrow> f32 list \<Rightarrow> nat list \<Rightarrow> 'g \<Rightarrow> nat \<times> 'g" where
  "draw_position ch weights remaining rng =
     (let mass = foldl (\<lambda>acc i. ch_add ch acc (draw_weight ch (weights ! i))) (ch_zero ch) remaining in
      if ch_less ch (ch_zero ch) mass then
        (case ch_range_real ch rng mass of
           (target, rng) \<Rightarrow> (find_hit ch weights target (ch_zero ch) 0 remaining (length remaining - 1), rng))
      else ch_range_nat ch rng (length remaining))"

text \<open>\<open>Vec::swap_remove\<close>: the last element takes the place of the removed one.\<close>

definition swap_remove :: "'a list \<Rightarrow> nat \<Rightarrow> 'a \<times> 'a list" where
  "swap_remove xs p = (xs ! p, butlast (xs[p := last xs]))"

text \<open>The first argument is \<open>count - chosen.len()\<close>, so the loop is structural.\<close>

fun draw_loop ::
  "nat \<Rightarrow> ('d, 'g) chance \<Rightarrow> f32 list \<Rightarrow> nat list \<Rightarrow> nat list \<Rightarrow> 'g \<Rightarrow> nat list" where
  "draw_loop 0 ch weights remaining chosen rng = chosen"
| "draw_loop (Suc k) ch weights remaining chosen rng =
     (if remaining = [] then chosen
      else
        (case draw_position ch weights remaining rng of
           (pos, rng) \<Rightarrow>
             (case swap_remove remaining pos of
                (i, remaining) \<Rightarrow> draw_loop k ch weights remaining (chosen @ [i]) rng)))"

definition weighted_draw_without_replacement ::
  "('d, 'g) chance \<Rightarrow> f32 list \<Rightarrow> nat \<Rightarrow> u64 \<Rightarrow> nat list" where
  "weighted_draw_without_replacement ch weights n_draws seed =
     draw_loop n_draws ch weights [0..<length weights] [] (ch_seed ch seed)"

definition is_selectable_type :: "string \<Rightarrow> bool" where
  "is_selectable_type t \<longleftrightarrow> t \<noteq> ''input'' \<and> t \<noteq> ''constant''"

definition rank_by_impact :: "(string \<rightharpoonup> f32) \<Rightarrow> creature_json \<Rightarrow> focus_candidate list" where
  "rank_by_impact impacts c =
     sort_key (\<lambda>f. (Descending (fc_weight f), fc_uuid f))
       (map (\<lambda>n. \<lparr>fc_uuid = n_uuid n,
            fc_weight = clamp_weight (case impacts (n_uuid n) of Some w \<Rightarrow> w | None \<Rightarrow> f32_zero)\<rparr>)
         (filter (\<lambda>n. is_selectable_type (n_type n)) (c_neurons c)))"

text \<open>The impacts are those of \<open>src/focus/impact.rs\<close>.\<close>

definition select_focus_by_structural_impact ::
  "focus_arith \<Rightarrow> ('d, 'g) chance \<Rightarrow> (string \<rightharpoonup> f32) \<Rightarrow> creature_json \<Rightarrow> nat \<Rightarrow> u64 \<Rightarrow>
     focus_selection \<times> focus_candidate list" where
  "select_focus_by_structural_impact fa ch impacts c target_n seed =
     (let ranked = rank_by_impact impacts c;
          pool_len = length ranked;
          weights = map fc_weight ranked;
          n = max target_n 1;
          selected_idx = weighted_draw_without_replacement ch weights (min n pool_len) seed;
          selected = map (\<lambda>i. fc_uuid (ranked ! i)) selected_idx;
          picked = length selected
      in (\<lparr>fs_selected = selected, fs_raw_ratio = weight_concentration_ratio fa weights,
           fs_ratio = weight_concentration_ratio fa (map (\<lambda>i. weights ! i) selected_idx),
           fs_exploitation_count = picked, fs_exploration_count = 0,
           fs_exploration_cursor = seed, fs_eligible_pool_size = pool_len,
           fs_cumulative_coverage = picked, fs_drought_active = False, fs_pool_size = pool_len\<rparr>,
          ranked))"

lemma find_hit_bound:
  "hit < p + length is \<Longrightarrow> find_hit ch weights t c p is hit < p + length is"
proof (induction "is" arbitrary: c p)
  case (Cons i "is")
  from Cons.IH [of "p + 1"] Cons.prems show ?case by (auto simp: Let_def)
qed simp

text \<open>\<open>random_range(0..n)\<close> draws from the range.\<close>

definition draws_in_range :: "('d, 'g) chance \<Rightarrow> bool" where
  "draws_in_range ch \<longleftrightarrow> (\<forall>rng n. 0 < n \<longrightarrow> fst (ch_range_nat ch rng n) < n)"

lemma draw_position_bound:
  assumes "draws_in_range ch" "remaining \<noteq> []" "draw_position ch weights remaining rng = (pos, rng')"
  shows "pos < length remaining"
proof -
  have hit: "find_hit ch weights t c 0 remaining (length remaining - 1) < length remaining" for t c
    using find_hit_bound [of "length remaining - 1" 0 remaining] assms(2) by simp
  have "fst (ch_range_nat ch rng (length remaining)) < length remaining"
    using assms(1,2) by (simp add: draws_in_range_def)
  then show ?thesis
    using assms(3) hit by (auto simp: draw_position_def Let_def split: if_splits prod.splits)
qed

lemma swap_remove_mset:
  assumes "p < length xs" "swap_remove xs p = (x, ys)"
  shows "mset xs = add_mset x (mset ys)" and "length xs = Suc (length ys)"
proof -
  have ne: "xs \<noteq> []" using assms(1) by auto
  have x: "x = xs ! p" "ys = butlast (xs[p := last xs])" using assms(2) by (simp_all add: swap_remove_def)
  have "mset (xs[p := last xs]) = add_mset (last xs) (mset xs - {#xs ! p#})"
    using assms(1) by (simp add: mset_update)
  moreover have "mset (xs[p := last xs]) = add_mset (last (xs[p := last xs])) (mset ys)"
    using ne by (simp add: x(2)) (metis append_butlast_last_id list_update_nonempty union_code
        mset.simps(1) mset_append mset_single_iff_right add_mset_add_single)
  moreover have "last (xs[p := last xs]) = last xs"
    using ne by (simp add: last_list_update)
  ultimately have "mset ys = mset xs - {#xs ! p#}" by simp
  then show "mset xs = add_mset x (mset ys)" using assms(1) by (simp add: x(1))
  then show "length xs = Suc (length ys)" by (metis size_mset size_add_mset)
qed

lemma draw_loop_exact:
  assumes "draws_in_range ch"
  shows "\<exists>drawn. draw_loop k ch weights remaining chosen rng = chosen @ drawn \<and>
    mset drawn \<subseteq># mset remaining \<and> length drawn = min k (length remaining)"
proof (induction k arbitrary: remaining chosen rng)
  case (Suc k)
  show ?case
  proof (cases "remaining = []")
    case False
    obtain pos rng' where p: "draw_position ch weights remaining rng = (pos, rng')" by fastforce
    obtain i rest where s: "swap_remove remaining pos = (i, rest)" by fastforce
    have pos: "pos < length remaining" by (rule draw_position_bound [OF assms False p])
    obtain drawn where d: "draw_loop k ch weights rest (chosen @ [i]) rng' = (chosen @ [i]) @ drawn"
      "mset drawn \<subseteq># mset rest" "length drawn = min k (length rest)"
      using Suc.IH by blast
    with False p s swap_remove_mset [OF pos s] show ?thesis
      by (intro exI [of _ "i # drawn"]) auto
  qed simp
qed simp

text \<open>The draw fills the set with distinct indices, or takes every index there is.\<close>

lemma weighted_draw_exact:
  assumes "draws_in_range ch"
  shows "distinct (weighted_draw_without_replacement ch weights k seed)"
    and "set (weighted_draw_without_replacement ch weights k seed) \<subseteq> {0..<length weights}"
    and "length (weighted_draw_without_replacement ch weights k seed) = min k (length weights)"
proof -
  obtain drawn where d: "weighted_draw_without_replacement ch weights k seed = drawn"
    "mset drawn \<subseteq># mset [0..<length weights]" "length drawn = min k (length weights)"
    using draw_loop_exact [OF assms, of k weights "[0..<length weights]" "[]"]
    by (auto simp: weighted_draw_without_replacement_def)
  from d(2) obtain rest where "mset [0..<length weights] = mset (drawn @ rest)"
    by (metis mset_subset_eq_exists_conv ex_mset mset_append)
  then have "distinct (drawn @ rest)" by (metis distinct_upt mset_eq_imp_distinct_iff)
  then have "distinct drawn" by simp
  with d set_mset_mono [OF d(2)]
  show "distinct (weighted_draw_without_replacement ch weights k seed)"
    "set (weighted_draw_without_replacement ch weights k seed) \<subseteq> {0..<length weights}"
    "length (weighted_draw_without_replacement ch weights k seed) = min k (length weights)"
    by simp_all
qed

end
