(* ===== verification/Deadline.thy ===== *)
theory Deadline
  imports Prelude "HOL-Library.Multiset" "HOL-Library.Sublist"
begin

text \<open>
  Deadlines and the order in which sources are tried before them
  (\<open>src/analysis/utils/deadline.rs\<close>). A \<open>SystemTime\<close> is a number of nanoseconds since the epoch,
  possibly negative, whose seconds fit 64 signed bits; every reading of the clock is an argument.
  The product of a window and a fraction in double precision, the shuffles of the generator and the
  weighted draw keys are parameters.
\<close>

section \<open>Times\<close>

type_synonym system_time = int

definition time_representable :: "int \<Rightarrow> bool" where
  "time_representable t \<longleftrightarrow> - (2 ^ 63) \<le> t div int ns_per_sec \<and> t div int ns_per_sec < 2 ^ 63"

definition time_checked_add :: "system_time \<Rightarrow> nat \<Rightarrow> system_time option" where
  "time_checked_add t d = (if time_representable (t + int d) then Some (t + int d) else None)"

definition time_checked_sub :: "system_time \<Rightarrow> nat \<Rightarrow> system_time option" where
  "time_checked_sub t d = (if time_representable (t - int d) then Some (t - int d) else None)"

text \<open>\<open>t.duration_since(s)\<close>: an error when \<open>s\<close> is later.\<close>

definition duration_since :: "system_time \<Rightarrow> system_time \<Rightarrow> nat option" where
  "duration_since t s = (if s \<le> t then Some (nat (t - s)) else None)"

text \<open>\<open>as_millis() as u64\<close>.\<close>

definition as_millis_u64 :: "nat \<Rightarrow> u64" where
  "as_millis_u64 d = word_of_nat (d div ns_per_ms)"

definition duration_from_millis :: "u64 \<Rightarrow> nat" where
  "duration_from_millis ms = unat ms * ns_per_ms"

section \<open>Effective timeouts\<close>

definition default_duration_ms :: u64 where "default_duration_ms = 600000"
definition year_2000_ms :: u64 where "year_2000_ms = 946684800000"
definition min_duration_ms :: u64 where "min_duration_ms = 3000"
definition max_duration_ms :: u64 where "max_duration_ms = 3600000"

definition clamp_duration_ms :: "u64 \<Rightarrow> u64 option" where
  "clamp_duration_ms relative_ms =
     (if relative_ms < min_duration_ms then None
      else if max_duration_ms < relative_ms then Some max_duration_ms
      else Some relative_ms)"

definition calculate_effective_timeout_ms :: "system_time \<Rightarrow> u64 option \<Rightarrow> u64 option" where
  "calculate_effective_timeout_ms now deadline_ms =
     (let target_ms = (case deadline_ms of Some ms \<Rightarrow> ms | None \<Rightarrow> default_duration_ms) in
      if target_ms < year_2000_ms then clamp_duration_ms target_ms
      else
        (case duration_since now 0 of
           None \<Rightarrow> None
         | Some d \<Rightarrow>
             (let now_ms = as_millis_u64 d in
              if target_ms \<le> now_ms then None else clamp_duration_ms (target_ms - now_ms))))"

definition deadline_too_short_to_analyse :: "system_time \<Rightarrow> u64 option \<Rightarrow> bool" where
  "deadline_too_short_to_analyse now deadline_ms \<longleftrightarrow>
     (case calculate_effective_timeout_ms now deadline_ms of Some _ \<Rightarrow> False | None \<Rightarrow> True)"

text \<open>The clock is read twice, once for the timeout and once for the deadline.\<close>

definition build_deadline :: "system_time \<Rightarrow> system_time \<Rightarrow> u64 option \<Rightarrow> system_time option" where
  "build_deadline now now' deadline_ms =
     (case calculate_effective_timeout_ms now deadline_ms of
        None \<Rightarrow> None
      | Some ms \<Rightarrow> time_checked_add now' (duration_from_millis ms))"

definition remaining_ms_until :: "u64 option \<Rightarrow> u64 \<Rightarrow> u64 option" where
  "remaining_ms_until deadline_ms now_ms =
     (case deadline_ms of
        None \<Rightarrow> None
      | Some target_ms \<Rightarrow>
          if target_ms < year_2000_ms then Some target_ms else Some (sat_sub target_ms now_ms))"

definition deadline_to_absolute_ms :: "system_time option \<Rightarrow> u64 option" where
  "deadline_to_absolute_ms deadline =
     (case deadline of
        None \<Rightarrow> None
      | Some t \<Rightarrow> map_option as_millis_u64 (duration_since t 0))"

definition checked_mul_u64 :: "u64 \<Rightarrow> u64 \<Rightarrow> u64 option" where
  "checked_mul_u64 a b = (if unat a * unat b < 2 ^ 64 then Some (a * b) else None)"

definition wall_clock_deadline :: "system_time \<Rightarrow> u64 option \<Rightarrow> system_time option" where
  "wall_clock_deadline discovery_start cap_minutes =
     (case cap_minutes of
        None \<Rightarrow> None
      | Some minutes \<Rightarrow>
          (case checked_mul_u64 minutes 60 of
             None \<Rightarrow> None
           | Some secs \<Rightarrow> time_checked_add discovery_start (unat secs * ns_per_sec)))"

definition cap_deadline_to_wall_clock ::
  "system_time option \<Rightarrow> system_time \<Rightarrow> u64 option \<Rightarrow> system_time option" where
  "cap_deadline_to_wall_clock analysis_deadline discovery_start cap_minutes =
     (case (analysis_deadline, wall_clock_deadline discovery_start cap_minutes) of
        (Some ad, Some wd) \<Rightarrow> Some (min ad wd)
      | (Some ad, None) \<Rightarrow> Some ad
      | (None, Some wd) \<Rightarrow> Some wd
      | (None, None) \<Rightarrow> None)"

section \<open>The reserved analysis window\<close>

definition analysis_reserve_hard_floor_ms :: u64 where "analysis_reserve_hard_floor_ms = 1000"

text \<open>
  \<open>share\<close> maps a window to \<open>(remaining_ms as f64 * fraction).floor() as u64\<close>, for the clamped
  fraction of the caller.
\<close>

definition effective_analysis_reserve_ms :: "(u64 \<Rightarrow> u64) \<Rightarrow> u64 \<Rightarrow> u64 \<Rightarrow> u64" where
  "effective_analysis_reserve_ms share remaining_ms reserve_ms =
     (if reserve_ms = 0 then 0 else min reserve_ms (share remaining_ms))"

definition loading_deadline_with_reserve_ms ::
  "(u64 \<Rightarrow> u64) \<Rightarrow> u64 option \<Rightarrow> u64 \<Rightarrow> u64 \<Rightarrow> u64 option" where
  "loading_deadline_with_reserve_ms share overall_deadline_ms now_ms reserve_ms =
     (case overall_deadline_ms of
        None \<Rightarrow> None
      | Some overall \<Rightarrow>
          (let remaining = sat_sub overall now_ms;
               reserve = effective_analysis_reserve_ms share remaining reserve_ms
           in Some (sat_sub overall reserve)))"

definition reserved_loading_deadline ::
  "(u64 \<Rightarrow> u64) \<Rightarrow> system_time option \<Rightarrow> system_time \<Rightarrow> u64 \<Rightarrow> system_time option" where
  "reserved_loading_deadline share overall_deadline now reserve_ms =
     (case overall_deadline of
        None \<Rightarrow> None
      | Some overall \<Rightarrow>
          if reserve_ms = 0 then Some overall
          else
            (let remaining_ms = (case duration_since overall now of
                   Some d \<Rightarrow> as_millis_u64 d | None \<Rightarrow> 0);
                 reserve = effective_analysis_reserve_ms share remaining_ms reserve_ms
             in Some (case time_checked_sub overall (duration_from_millis reserve) of
                  Some t \<Rightarrow> t | None \<Rightarrow> overall)))"

definition analysis_reserve_shortfall_ms ::
  "(u64 \<Rightarrow> u64) \<Rightarrow> u64 option \<Rightarrow> u64 \<Rightarrow> u64 \<Rightarrow> u64 option" where
  "analysis_reserve_shortfall_ms share overall_deadline_ms now_ms reserve_ms =
     (if reserve_ms = 0 then None
      else
        (case overall_deadline_ms of
           None \<Rightarrow> None
         | Some overall \<Rightarrow>
             (let remaining = sat_sub overall now_ms;
                  effective = effective_analysis_reserve_ms share remaining reserve_ms
              in if effective < analysis_reserve_hard_floor_ms then Some remaining else None)))"

text \<open>A cancellation counts as a passed deadline.\<close>

definition deadline_passed :: "bool \<Rightarrow> system_time \<Rightarrow> system_time option \<Rightarrow> bool" where
  "deadline_passed cancelled now deadline \<longleftrightarrow>
     cancelled \<or> (case deadline of Some limit \<Rightarrow> limit \<le> now | None \<Rightarrow> False)"

section \<open>Sources and their order\<close>

text \<open>
  \<open>str::parse\<close> of an unsigned type with the given largest value: an optional plus sign, then at
  least one decimal digit, refused on overflow.
\<close>

definition is_digit :: "char \<Rightarrow> bool" where
  "is_digit c \<longleftrightarrow> 48 \<le> (of_char c :: nat) \<and> (of_char c :: nat) \<le> 57"

fun parse_digits :: "nat \<Rightarrow> nat \<Rightarrow> string \<Rightarrow> nat option" where
  "parse_digits largest acc [] = Some acc"
| "parse_digits largest acc (c # cs) =
     (if is_digit c \<and> acc * 10 + digit_value c \<le> largest
      then parse_digits largest (acc * 10 + digit_value c) cs else None)"

definition parse_unsigned :: "nat \<Rightarrow> string \<Rightarrow> nat option" where
  "parse_unsigned largest s =
     (let digits = (case s of c # cs \<Rightarrow> if c = CHR ''+'' then cs else s | [] \<Rightarrow> s) in
      if digits = [] then None else parse_digits largest 0 digits)"

abbreviation parse_usize :: "string \<Rightarrow> nat option" where
  "parse_usize \<equiv> parse_unsigned usize_max"

definition strip_prefix_str :: "string \<Rightarrow> string \<Rightarrow> string option" where
  "strip_prefix_str pre s = (if prefix pre s then Some (drop (length pre) s) else None)"

definition parse_input_index :: "string \<Rightarrow> nat option" where
  "parse_input_index uuid = Option.bind (strip_prefix_str ''input-'' uuid) parse_usize"

text \<open>FNV-1a over the bytes of the context.\<close>

fun derive_bytes :: "u64 \<Rightarrow> u8 list \<Rightarrow> u64" where
  "derive_bytes h [] = h"
| "derive_bytes h (b # bs) = derive_bytes ((h XOR ucast b) * 0x100000001b3) bs"

definition derive_seed :: "u64 \<Rightarrow> string \<Rightarrow> u64 \<Rightarrow> u64" where
  "derive_seed base_seed ctxt salt =
     derive_bytes (0xcbf29ce484222325 XOR base_seed XOR salt) (map of_char ctxt)"

text \<open>
  The shuffles of the generator: from a seed, and from the generator of the thread, where the
  context tells the draws apart.
\<close>

record 'a shuffler =
  sh_seeded :: "u64 \<Rightarrow> 'a list \<Rightarrow> 'a list"
  sh_thread :: "string \<Rightarrow> 'a list \<Rightarrow> 'a list"

definition shuffle_slice :: "'a shuffler \<Rightarrow> 'a list \<Rightarrow> u64 option \<Rightarrow> string \<Rightarrow> 'a list" where
  "shuffle_slice sh items seed ctxt =
     (if length items \<le> 1 then items
      else
        (case seed of
           Some base \<Rightarrow> sh_seeded sh (derive_seed base ctxt 0x9e3779b97f4a7c15) items
         | None \<Rightarrow> sh_thread sh ctxt items))"

definition shuffle_within_top_k ::
  "'a shuffler \<Rightarrow> 'a list \<Rightarrow> u64 option \<Rightarrow> string \<Rightarrow> nat \<Rightarrow> 'a list" where
  "shuffle_within_top_k sh items seed ctxt top_k =
     (if length items \<le> 1 \<or> top_k \<le> 1 then items
      else
        (let k = min top_k (length items)
         in shuffle_slice sh (take k items) seed ctxt @ drop k items))"

record ordered_neuron =
  on_uuid :: string
  on_index :: nat

definition is_input_source :: "ordered_neuron \<Rightarrow> bool" where
  "is_input_source n \<longleftrightarrow> parse_input_index (on_uuid n) \<noteq> None"

definition hidden_source_interleave_interval :: nat where
  "hidden_source_interleave_interval = 3"

text \<open>The loop over the inputs, with the inputs since the last hidden source counted.\<close>

fun interleave_loop :: "nat \<Rightarrow> 'a list \<Rightarrow> 'a list \<Rightarrow> 'a list" where
  "interleave_loop c [] hidden = hidden"
| "interleave_loop c (i # inputs) hidden =
     (if hidden_source_interleave_interval \<le> c + 1
      then (case hidden of
              h # hs \<Rightarrow> i # h # interleave_loop 0 inputs hs
            | [] \<Rightarrow> i # interleave_loop 0 inputs [])
      else i # interleave_loop (c + 1) inputs hidden)"

definition interleave_sources :: "'a list \<Rightarrow> 'a list \<Rightarrow> 'a list \<Rightarrow> 'a list" where
  "interleave_sources eligible inputs hidden =
     (if hidden = [] then eligible @ inputs
      else if inputs = [] then eligible @ hidden
      else eligible @ interleave_loop 0 inputs hidden)"

text \<open>
  The ticket of an input in the biased order: from the seed of the generator, the number of the
  draw, the index of the input and the number of inputs. \<open>bias\<close> is \<open>None\<close> when it is not set.
\<close>

type_synonym 'k ticket = "u64 \<Rightarrow> nat \<Rightarrow> nat option \<Rightarrow> nat \<Rightarrow> 'k"

definition biased_inputs ::
  "'k::linorder ticket \<Rightarrow> u64 \<Rightarrow> nat \<Rightarrow> ordered_neuron list \<Rightarrow> ordered_neuron list" where
  "biased_inputs ticket rng_seed n_inputs inputs =
     map snd (sort_key fst (map (\<lambda>(k, n). (ticket rng_seed k (parse_input_index (on_uuid n)) n_inputs, n))
       (enumerate 0 inputs)))"

definition order_eligible_sources ::
  "ordered_neuron shuffler \<Rightarrow> bool \<Rightarrow> 'k::linorder ticket option \<Rightarrow> u64 \<Rightarrow> ordered_neuron list \<Rightarrow>
     u64 option \<Rightarrow> string \<Rightarrow> nat \<Rightarrow> string set option \<Rightarrow> ordered_neuron list" where
  "order_eligible_sources sh focus_unused bias entropy eligible seed ctxt n_inputs used_inputs =
     (if length eligible \<le> 1 then eligible
      else
        (case (focus_unused, used_inputs) of
           (True, Some used) \<Rightarrow>
             (let unused = filter (\<lambda>n. is_input_source n \<and> on_uuid n \<notin> used) eligible;
                  others = filter (\<lambda>n. \<not> (is_input_source n \<and> on_uuid n \<notin> used)) eligible;
                  used_vec = filter is_input_source others;
                  non_inputs = filter (\<lambda>n. \<not> is_input_source n) others;
                  unused = shuffle_slice sh unused seed (ctxt @ '':unused'');
                  used_vec = shuffle_slice sh used_vec seed (ctxt @ '':used_inputs'');
                  non_inputs = shuffle_slice sh non_inputs seed (ctxt @ '':non_inputs'')
              in interleave_sources [] (unused @ used_vec) non_inputs)
         | _ \<Rightarrow>
             (let inputs = filter is_input_source eligible;
                  non_inputs = filter (\<lambda>n. \<not> is_input_source n) eligible
              in case bias of
                   None \<Rightarrow>
                     interleave_sources [] (shuffle_slice sh inputs seed (ctxt @ '':inputs''))
                       (shuffle_slice sh non_inputs seed (ctxt @ '':non_inputs''))
                 | Some ticket \<Rightarrow>
                     (let rng_seed = (case seed of
                            Some base \<Rightarrow> derive_seed base ctxt 0x243f6a8885a308d3 | None \<Rightarrow> entropy)
                      in interleave_sources [] (biased_inputs ticket rng_seed n_inputs inputs)
                           (shuffle_slice sh non_inputs seed (ctxt @ '':non_inputs''))))))"

definition apply_source_budget :: "nat option \<Rightarrow> 'a list \<Rightarrow> nat \<times> 'a list" where
  "apply_source_budget max_sources eligible =
     (case max_sources of
        None \<Rightarrow> (0, eligible)
      | Some budget \<Rightarrow>
          if length eligible \<le> budget then (0, eligible)
          else (length eligible - budget, take budget eligible))"

definition order_focus_targets ::
  "string shuffler \<Rightarrow> string list \<Rightarrow> u64 option \<Rightarrow> (string \<rightharpoonup> string) \<Rightarrow> string list" where
  "order_focus_targets sh targets seed neuron_type_map =
     (if length targets \<le> 1 then targets
      else
        (let is_hidden = (\<lambda>u. neuron_type_map u = Some ''hidden'');
             hidden = filter is_hidden targets;
             others = filter (\<lambda>u. \<not> is_hidden u) targets
         in shuffle_slice sh hidden seed ''focus_targets:hidden'' @
            shuffle_slice sh others seed ''focus_targets:others''))"

section \<open>Interleaving\<close>

lemma interleave_loop_Nil [simp]: "interleave_loop c xs [] = xs"
  by (induction xs arbitrary: c) simp_all

lemma interleave_sources_eq:
  "interleave_sources [] inputs hidden = interleave_loop 0 inputs hidden"
  by (auto simp: interleave_sources_def)

lemma interleave_filter:
  assumes "\<forall>x \<in> set inputs. P x" "\<forall>x \<in> set hidden. \<not> P x"
  shows "filter P (interleave_loop c inputs hidden) = inputs"
    and "filter (\<lambda>x. \<not> P x) (interleave_loop c inputs hidden) = hidden"
  using assms by (induction c inputs hidden rule: interleave_loop.induct) (auto split: list.split)

lemma mset_interleave: "mset (interleave_loop c inputs hidden) = mset inputs + mset hidden"
  by (induction c inputs hidden rule: interleave_loop.induct) (auto split: list.split)

text \<open>Where the \<open>i\<close>-th input ends up, and the \<open>j\<close>-th hidden source while inputs last.\<close>

lemma interleave_input_position:
  "c < 3 \<Longrightarrow> i < length inputs \<Longrightarrow>
   interleave_loop c inputs hidden ! (i + min (length hidden) ((i + c) div 3)) = inputs ! i"
proof (induction c inputs hidden arbitrary: i rule: interleave_loop.induct)
  case (2 c x xs hidden)
  show ?case
  proof (cases i)
    case 0
    with 2 show ?thesis
      by (auto simp: hidden_source_interleave_interval_def split: list.split)
  next
    case (Suc k)
    show ?thesis
    proof (cases "c = 2")
      case True
      then have "(Suc k + c) div 3 = Suc (k div 3)" by simp
      with True Suc 2 show ?thesis
        by (cases hidden) (auto simp: hidden_source_interleave_interval_def)
    next
      case False
      with Suc 2 show ?thesis by (simp add: hidden_source_interleave_interval_def)
    qed
  qed
qed simp

lemma interleave_hidden_position:
  "c < 3 \<Longrightarrow> j < length hidden \<Longrightarrow> 3 * (j + 1) \<le> length inputs + c \<Longrightarrow>
   interleave_loop c inputs hidden ! (4 * j + 3 - c) = hidden ! j"
proof (induction c inputs hidden arbitrary: j rule: interleave_loop.induct)
  case (2 c x xs hidden)
  then have c: "c < 3" by simp
  show ?case
  proof (cases "c = 2")
    case True
    with 2 show ?thesis
      by (cases hidden; cases j) (auto simp: hidden_source_interleave_interval_def add.commute [of 3])
  next
    case False
    then have "4 * j + 3 - c = Suc (4 * j + 3 - (c + 1))" using c by linarith
    with False 2 show ?thesis by (simp add: hidden_source_interleave_interval_def)
  qed
qed simp

text \<open>What is relied on of the generator: a shuffle permutes.\<close>

definition permutes_lists :: "'a shuffler \<Rightarrow> bool" where
  "permutes_lists sh \<longleftrightarrow>
     (\<forall>seed xs. mset (sh_seeded sh seed xs) = mset xs) \<and> (\<forall>ctxt xs. mset (sh_thread sh ctxt xs) = mset xs)"

lemma mset_shuffle_slice:
  "permutes_lists sh \<Longrightarrow> mset (shuffle_slice sh xs seed ctxt) = mset xs"
  by (simp add: shuffle_slice_def permutes_lists_def split: option.split)

lemma set_shuffle_slice:
  "permutes_lists sh \<Longrightarrow> set (shuffle_slice sh xs seed ctxt) = set xs"
  by (metis mset_shuffle_slice set_mset_mset)

lemma mset_biased_inputs: "mset (biased_inputs ticket rng_seed k inputs) = mset inputs"
proof -
  have "map (snd \<circ> (\<lambda>(k, n). (f k n, n))) (enumerate 0 inputs) = inputs" for f :: "nat \<Rightarrow> ordered_neuron \<Rightarrow> 'a"
    by (auto simp: comp_def case_prod_unfold)
  moreover have "mset (map snd (sort_key fst zs)) = mset (map snd zs)" for zs :: "('a \<times> ordered_neuron) list"
    by simp
  ultimately show ?thesis by (simp only: biased_inputs_def map_map)
qed

text \<open>Unused inputs come first.\<close>

definition unused_first :: "string set \<Rightarrow> ordered_neuron list \<Rightarrow> bool" where
  "unused_first used ins \<longleftrightarrow>
     ins = filter (\<lambda>n. on_uuid n \<notin> used) ins @ filter (\<lambda>n. on_uuid n \<in> used) ins"

lemma order_eligible_sources_parts:
  assumes sh: "permutes_lists sh" and len: "1 < length eligible"
  obtains ins hid where
    "order_eligible_sources sh focus_unused bias entropy eligible seed ctxt k used_inputs =
       interleave_loop 0 ins hid"
    "mset ins = mset (filter is_input_source eligible)"
    "mset hid = mset (filter (\<lambda>n. \<not> is_input_source n) eligible)"
    "\<And>used. focus_unused \<Longrightarrow> used_inputs = Some used \<Longrightarrow> unused_first used ins"
proof (cases "focus_unused \<and> used_inputs \<noteq> None")
  case True
  then obtain used where u: "focus_unused" "used_inputs = Some used" by blast
  let ?P = "\<lambda>n. is_input_source n \<and> on_uuid n \<notin> used"
  let ?a = "shuffle_slice sh (filter ?P eligible) seed (ctxt @ '':unused'')"
  let ?b = "shuffle_slice sh (filter is_input_source (filter (\<lambda>n. \<not> ?P n) eligible)) seed
      (ctxt @ '':used_inputs'')"
  let ?h = "shuffle_slice sh (filter (\<lambda>n. \<not> is_input_source n) (filter (\<lambda>n. \<not> ?P n) eligible)) seed
      (ctxt @ '':non_inputs'')"
  show thesis
  proof
    show "order_eligible_sources sh focus_unused bias entropy eligible seed ctxt k used_inputs =
        interleave_loop 0 (?a @ ?b) ?h"
      using len by (simp add: order_eligible_sources_def u interleave_sources_eq Let_def)
    have "filter_mset is_input_source (mset eligible) =
        filter_mset ?P (mset eligible) + filter_mset is_input_source (filter_mset (\<lambda>n. \<not> ?P n) (mset eligible))"
      by (rule multiset_eqI) simp
    then show "mset (?a @ ?b) = mset (filter is_input_source eligible)"
      by (simp only: mset_append mset_shuffle_slice [OF sh] mset_filter)
    show "mset ?h = mset (filter (\<lambda>n. \<not> is_input_source n) eligible)"
      by (simp add: mset_shuffle_slice [OF sh]) (rule arg_cong2 [of _ _ _ _ filter_mset], auto)
    have "filter (\<lambda>n. on_uuid n \<notin> used) (?a @ ?b) = ?a" "filter (\<lambda>n. on_uuid n \<in> used) (?a @ ?b) = ?b"
      by (auto simp: filter_id_conv filter_empty_conv set_shuffle_slice [OF sh])
    then show "unused_first used' (?a @ ?b)" if "used_inputs = Some used'" for used'
      using that u by (simp add: unused_first_def)
  qed
next
  case False
  then have no: "\<not> (focus_unused \<and> used_inputs = Some used)" for used by auto
  let ?i = "filter is_input_source eligible"
  let ?h = "shuffle_slice sh (filter (\<lambda>n. \<not> is_input_source n) eligible) seed (ctxt @ '':non_inputs'')"
  show thesis
  proof (cases bias)
    case None
    show thesis
      by (rule that [of "shuffle_slice sh ?i seed (ctxt @ '':inputs'')" ?h])
        (use len False None no in \<open>auto simp: order_eligible_sources_def interleave_sources_eq
           mset_shuffle_slice [OF sh] split: bool.splits option.splits\<close>)
  next
    case (Some ticket)
    show thesis
      by (rule that [of "biased_inputs ticket (case seed of
              Some base \<Rightarrow> derive_seed base ctxt 0x243f6a8885a308d3 | None \<Rightarrow> entropy) k ?i" ?h])
        (use len False Some no in \<open>auto simp: order_eligible_sources_def interleave_sources_eq
           mset_shuffle_slice [OF sh] mset_biased_inputs Let_def split: bool.splits option.splits\<close>)
  qed
qed


definition identity_shuffler :: "'a shuffler" where
  "identity_shuffler = \<lparr>sh_seeded = \<lambda>_ xs. xs, sh_thread = \<lambda>_ xs. xs\<rparr>"

definition example_sources :: "ordered_neuron list" where
  "example_sources = map (\<lambda>u. \<lparr>on_uuid = u, on_index = 0\<rparr>)
     [''h'', ''input-0'', ''input-1'', ''input-2'', ''input-3'']"

lemma shuffle_identity: "shuffle_slice identity_shuffler xs seed ctxt = xs"
  by (simp add: shuffle_slice_def identity_shuffler_def split: option.split)

lemma input_names:
  "parse_input_index ''h'' = None" "parse_input_index ''input-0'' = Some 0"
  "parse_input_index ''input-1'' = Some 1" "parse_input_index ''input-2'' = Some 2"
  "parse_input_index ''input-3'' = Some 3"
  by (simp_all add: parse_input_index_def strip_prefix_str_def parse_unsigned_def is_digit_def
      digit_value_def usize_max_def)


section \<open>Input identifiers\<close>

lemma value_foldl_ge: "acc \<le> foldl (\<lambda>acc c. acc * 10 + digit_value c) acc s"
proof (induction s arbitrary: acc)
  case (Cons c s)
  have "acc \<le> acc * 10 + digit_value c" by simp
  with Cons [of "acc * 10 + digit_value c"] show ?case by simp
qed simp

lemma parse_digits_eq:
  "parse_digits largest acc s =
     (if list_all is_digit s \<and> (s = [] \<or> foldl (\<lambda>acc c. acc * 10 + digit_value c) acc s \<le> largest)
      then Some (foldl (\<lambda>acc c. acc * 10 + digit_value c) acc s) else None)"
proof (induction s arbitrary: acc)
  case (Cons c s)
  then show ?case using value_foldl_ge [of "acc * 10 + digit_value c" s] by (auto split: if_splits)
qed simp

lemma is_digit_char: "d < 10 \<Longrightarrow> is_digit (digit_char d)"
  by (simp add: is_digit_def digit_char_def of_char_of take_bit_nat_eq_self)

lemma dec_string_digits: "list_all is_digit (dec_string n)"
proof (induction n rule: dec_string.induct)
  case (1 n)
  then show ?case by (simp add: dec_string.simps [of n] is_digit_char)
qed

lemma plus_not_digit: "\<not> is_digit (CHR ''+'')"
  by (simp add: is_digit_def)

lemma parse_unsigned_Some:
  "parse_unsigned largest s = Some n \<longleftrightarrow>
     (\<exists>ds. (s = ds \<or> s = CHR ''+'' # ds) \<and> ds \<noteq> [] \<and> list_all is_digit ds \<and>
        dec_value ds = n \<and> n \<le> largest)"
proof (cases s)
  case Nil
  then show ?thesis by (simp add: parse_unsigned_def)
next
  case (Cons c cs)
  then show ?thesis
    using plus_not_digit
    by (auto simp: parse_unsigned_def Let_def parse_digits_eq dec_value_def)
qed

text \<open>
  An identifier names an input exactly when it is \<open>input-\<close>, an optional plus sign and decimal
  digits whose value fits a \<open>usize\<close>, and then the index is that value: rendering an index and
  parsing it gives it back, and leading zeros or a plus sign give a second name for it.
\<close>

theorem parse_input_index_exact:
  "(parse_input_index u = Some n \<longleftrightarrow>
     (\<exists>ds. (u = ''input-'' @ ds \<or> u = ''input-+'' @ ds) \<and> ds \<noteq> [] \<and> list_all is_digit ds \<and>
        dec_value ds = n) \<and> n \<le> usize_max) \<and>
   parse_input_index (''input-'' @ dec_string n) = (if n \<le> usize_max then Some n else None)"
proof -
  have strip: "strip_prefix_str ''input-'' v = Some r \<longleftrightarrow> v = ''input-'' @ r" for v r
    by (auto simp: strip_prefix_str_def prefix_def)
  have iff: "parse_input_index v = Some m \<longleftrightarrow>
     (\<exists>ds. (v = ''input-'' @ ds \<or> v = ''input-+'' @ ds) \<and> ds \<noteq> [] \<and> list_all is_digit ds \<and>
        dec_value ds = m) \<and> m \<le> usize_max" for v m
    unfolding parse_input_index_def bind_eq_Some_conv strip parse_unsigned_Some by auto
  have "parse_usize (dec_string n) = (if n \<le> usize_max then Some n else None)"
  proof -
    obtain c cs where d: "dec_string n = c # cs" by (metis dec_string_not_Nil list.exhaust)
    with dec_string_digits [of n] have "c \<noteq> CHR ''+''" using plus_not_digit by auto
    then show ?thesis
      using dec_string_digits [of n] dec_value_string [of n]
      by (simp add: parse_unsigned_def d parse_digits_eq dec_value_def)
  qed
  then have "parse_input_index (''input-'' @ dec_string n) = (if n \<le> usize_max then Some n else None)"
    by (simp add: parse_input_index_def strip_prefix_str_def)
  with iff show ?thesis by blast
qed

section \<open>Bounds of the deadlines\<close>

lemma clamp_duration_Some:
  "clamp_duration_ms r = Some v \<longleftrightarrow> 3000 \<le> unat r \<and> unat v = min (unat r) 3600000"
proof -
  have "v = max_duration_ms \<longleftrightarrow> unat v = 3600000"
    using word_unat_eq_iff [of v max_duration_ms] by (simp add: max_duration_ms_def)
  moreover have "v = r \<longleftrightarrow> unat v = unat r" by (rule word_unat_eq_iff)
  ultimately show ?thesis
    by (auto simp: clamp_duration_ms_def min_duration_ms_def max_duration_ms_def word_less_nat_alt
        not_less)
qed

lemma effective_timeout_bounds:
  assumes "calculate_effective_timeout_ms now deadline = Some v"
  shows "3000 \<le> unat v" and "unat v \<le> 3600000"
    and "deadline = Some target \<Longrightarrow> target < year_2000_ms \<Longrightarrow> unat v \<le> unat target"
    and "deadline = Some target \<Longrightarrow> year_2000_ms \<le> target \<Longrightarrow> now div int ns_per_ms < 2 ^ 64 \<Longrightarrow>
      int (unat v) + now div int ns_per_ms \<le> int (unat target)"
proof -
  show "3000 \<le> unat v" "unat v \<le> 3600000"
    "deadline = Some target \<Longrightarrow> target < year_2000_ms \<Longrightarrow> unat v \<le> unat target"
    using assms by (auto simp: calculate_effective_timeout_ms_def Let_def clamp_duration_Some
        split: if_splits option.splits)
  assume d: "deadline = Some target" "year_2000_ms \<le> target" and now: "now div int ns_per_ms < 2 ^ 64"
  with assms have n: "0 \<le> now" and c: "clamp_duration_ms (target - as_millis_u64 (nat now)) = Some v"
    and lt: "as_millis_u64 (nat now) < target"
    by (auto simp: calculate_effective_timeout_ms_def duration_since_def Let_def
        split: if_splits option.splits)
  obtain k where k: "now = int k" using n by (metis nonneg_int_cases)
  with now have "k div ns_per_ms < 2 ^ 64"
    by (metis of_nat_less_iff of_nat_numeral of_nat_power zdiv_int)
  then have m: "unat (as_millis_u64 k) = k div ns_per_ms"
    by (simp add: as_millis_u64_def unat_of_nat)
  have "unat v \<le> unat (target - as_millis_u64 k)"
    using c k by (simp add: clamp_duration_Some)
  also have "\<dots> = unat target - k div ns_per_ms"
    using lt k m by (simp add: unat_sub)
  finally have "unat v + k div ns_per_ms \<le> unat target"
    using lt k m by (simp add: word_less_nat_alt)
  then show "int (unat v) + now div int ns_per_ms \<le> int (unat target)"
    by (simp only: k zdiv_int [symmetric] of_nat_add [symmetric] of_nat_le_iff)
qed

lemma wall_clock_exact:
  "wall_clock_deadline start (Some m) =
     (if unat m * 60 < 2 ^ 64 \<and> time_representable (start + int (unat m) * 60 * int ns_per_sec)
      then Some (start + int (unat m) * 60 * int ns_per_sec) else None)"
proof (cases "unat m * 60 < 2 ^ 64")
  case True
  then have "unat (m * 60) = unat m * 60" by (simp add: unat_word_ariths)
  then have "int (unat (m * 60) * ns_per_sec) = int (unat m) * 60 * int ns_per_sec"
    by (simp only: of_nat_mult of_nat_numeral)
  with True show ?thesis
    by (simp only: wall_clock_deadline_def checked_mul_u64_def time_checked_add_def option.case
        unat_numeral if_True simp_thms) (simp add: unat_word_ariths)
next
  case False
  then show ?thesis by (simp add: wall_clock_deadline_def checked_mul_u64_def)
qed

text \<open>
  C23. A deadline that is built lies between three seconds and one hour after the clock reading,
  ten minutes after it when the caller gave none; for a duration it is never later than the
  duration says, and for an absolute target it is later by less than a millisecond and the time
  between the two clock readings. Capping it by the wall clock never moves it later, and brings
  it within the cap whenever the cap can be represented.
\<close>

theorem built_deadline_bounded:
  assumes "build_deadline now now' deadline = Some t"
  shows "now' + 3 * int ns_per_sec \<le> t \<and> t \<le> now' + 3600 * int ns_per_sec \<and>
    (case deadline of
       None \<Rightarrow> t = now' + 600 * int ns_per_sec
     | Some ms \<Rightarrow>
         if ms < year_2000_ms then t \<le> now' + int (unat ms) * int ns_per_ms
         else now div int ns_per_ms < 2 ^ 64 \<longrightarrow>
           t < int (unat ms) * int ns_per_ms + (now' - now) + int ns_per_ms) \<and>
    (\<forall>start cap. \<exists>t' \<le> t. cap_deadline_to_wall_clock (Some t) start cap = Some t' \<and>
       (\<forall>m. cap = Some m \<longrightarrow> unat m * 60 < 2 ^ 64 \<longrightarrow>
          time_representable (start + int (unat m) * 60 * int ns_per_sec) \<longrightarrow>
          t' \<le> start + int (unat m) * 60 * int ns_per_sec))"
proof -
  from assms obtain v where v: "calculate_effective_timeout_ms now deadline = Some v"
    and t: "t = now' + int (unat v) * int ns_per_ms"
    by (auto simp: build_deadline_def time_checked_add_def duration_from_millis_def
        split: option.splits if_splits)
  note b = effective_timeout_bounds [OF v]
  have "3000 \<le> int (unat v)" "int (unat v) \<le> 3600000" using b(1,2) by linarith+
  then have "now' + 3 * int ns_per_sec \<le> t \<and> t \<le> now' + 3600 * int ns_per_sec"
    by (simp add: t ns_per_sec_def ns_per_ms_def)
  moreover have "t = now' + 600 * int ns_per_sec" if "deadline = None"
  proof -
    have "default_duration_ms < year_2000_ms" "unat default_duration_ms = 600000"
      by (simp_all add: default_duration_ms_def year_2000_ms_def)
    then have "unat v = 600000"
      using v that by (simp add: calculate_effective_timeout_ms_def clamp_duration_Some)
    then show ?thesis by (simp add: t ns_per_sec_def ns_per_ms_def)
  qed
  moreover have "t \<le> now' + int (unat ms) * int ns_per_ms" if "deadline = Some ms" "ms < year_2000_ms" for ms
    using b(3) [OF that] unfolding t
    by (intro add_left_mono mult_right_mono) (simp_all only: of_nat_le_iff of_nat_0_le_iff)
  moreover have "t < int (unat ms) * int ns_per_ms + (now' - now) + int ns_per_ms"
    if "deadline = Some ms" "\<not> ms < year_2000_ms" "now div int ns_per_ms < 2 ^ 64" for ms
  proof -
    have "int (unat v) + now div int ns_per_ms \<le> int (unat ms)"
      using b(4) [OF that(1) _ that(3)] that(2) by simp
    then have "int (unat v) * int ns_per_ms + now div int ns_per_ms * int ns_per_ms
        \<le> int (unat ms) * int ns_per_ms"
      by (simp add: mult_right_mono flip: distrib_right)
    moreover have "now < now div int ns_per_ms * int ns_per_ms + int ns_per_ms"
      by (simp add: ns_per_ms_def)
    ultimately show ?thesis by (simp add: t)
  qed
  moreover have "\<exists>t' \<le> t. cap_deadline_to_wall_clock (Some t) start cap = Some t' \<and>
       (\<forall>m. cap = Some m \<longrightarrow> unat m * 60 < 2 ^ 64 \<longrightarrow>
          time_representable (start + int (unat m) * 60 * int ns_per_sec) \<longrightarrow>
          t' \<le> start + int (unat m) * 60 * int ns_per_sec)" for start cap
  proof (cases "wall_clock_deadline start cap")
    case None
    have False if "cap = Some m" "unat m * 60 < 2 ^ 64"
      "time_representable (start + int (unat m) * 60 * int ns_per_sec)" for m
      using None that by (simp only: wall_clock_exact) simp
    then show ?thesis by (intro exI [of _ t]) (auto simp: cap_deadline_to_wall_clock_def None)
  next
    case (Some w)
    then obtain m where m: "cap = Some m" by (cases cap) (auto simp: wall_clock_deadline_def)
    with Some have "w = start + int (unat m) * 60 * int ns_per_sec"
      by (simp add: wall_clock_exact split: if_splits)
    moreover have "cap_deadline_to_wall_clock (Some t) start cap = Some (min t w)"
      by (simp add: cap_deadline_to_wall_clock_def Some)
    ultimately show ?thesis using m by (intro exI [of _ "min t w"]) simp
  qed
  ultimately show ?thesis by (auto split: option.split)
qed

theorem built_deadline_bounded_witness:
  "build_deadline 0 0 None = Some (600 * int ns_per_sec) \<and>
   (\<exists>t' \<le> 600 * int ns_per_sec. cap_deadline_to_wall_clock (Some (600 * int ns_per_sec)) 0 (Some 5) = Some t' \<and>
      t' \<le> 300 * int ns_per_sec)"
proof -
  have d: "build_deadline 0 0 None = Some (600 * int ns_per_sec)"
    by (simp add: build_deadline_def calculate_effective_timeout_ms_def clamp_duration_ms_def
        default_duration_ms_def year_2000_ms_def min_duration_ms_def max_duration_ms_def
        duration_from_millis_def time_checked_add_def time_representable_def ns_per_sec_def ns_per_ms_def)
  have "time_representable (300 * int ns_per_sec)"
    by (simp add: time_representable_def ns_per_sec_def)
  with built_deadline_bounded [OF d, THEN conjunct2, THEN conjunct2, THEN conjunct2,
      THEN spec [of _ 0], THEN spec [of _ "Some 5"]] d
  show ?thesis by auto
qed

text \<open>The loading deadline keeps the reserve, but is past when the overall deadline is.\<close>

lemma loading_deadline_between:
  assumes "\<And>r. share r \<le> r" "now \<le> overall"
    and "loading_deadline_with_reserve_ms share (Some overall) now reserve = Some l"
  shows "now \<le> l \<and> l \<le> overall"
proof -
  let ?r = "effective_analysis_reserve_ms share (sat_sub overall now) reserve"
  have "?r \<le> sat_sub overall now"
    using assms(1) [of "sat_sub overall now"]
    by (auto simp: effective_analysis_reserve_ms_def min_def)
  then have "unat ?r \<le> unat overall - unat now" by (simp add: word_le_nat_alt unat_sat_sub)
  moreover have "l = sat_sub overall ?r"
    using assms(3) by (simp add: loading_deadline_with_reserve_ms_def Let_def)
  ultimately show ?thesis using assms(2) by (auto simp: word_le_nat_alt unat_sat_sub)
qed

lemma loading_deadline_past:
  assumes "share 0 = 0" "overall < now"
  shows "loading_deadline_with_reserve_ms share (Some overall) now reserve = Some overall"
  using assms(1) assms(2) [THEN less_le_not_le [THEN iffD1], THEN conjunct2]
  by (simp add: loading_deadline_with_reserve_ms_def effective_analysis_reserve_ms_def
      sat_sub_def Let_def)

end
