(* ===== verification/Timestamp.thy ===== *)
theory Timestamp
  imports Deadline "HOL-Library.Char_ord" "HOL-Library.List_Lexorder"
begin

text \<open>
  The timestamp of an exported snapshot (\<open>src/export/timestamp.rs\<close>): seconds since the epoch
  turned into a calendar date by subtracting whole years and months, and rendered in fixed-width
  fields, so that timestamps sort as text the way they sort in time.
\<close>

section \<open>The conversion\<close>

definition is_leap_year :: "int \<Rightarrow> bool" where
  "is_leap_year year \<longleftrightarrow> (year mod 4 = 0 \<and> year mod 100 \<noteq> 0) \<or> year mod 400 = 0"

definition days_in_year :: "int \<Rightarrow> int" where
  "days_in_year year = (if is_leap_year year then 366 else 365)"

function year_loop :: "int \<Rightarrow> int \<Rightarrow> int \<times> int" where
  "year_loop year remaining_days =
     (if remaining_days < days_in_year year then (year, remaining_days)
      else year_loop (year + 1) (remaining_days - days_in_year year))"
  by auto

termination
  by (relation "measure (\<lambda>(year, remaining_days). nat remaining_days)")
    (auto simp: days_in_year_def split: if_splits)

declare year_loop.simps [simp del]

definition days_in_months :: "int \<Rightarrow> int list" where
  "days_in_months year =
     (if is_leap_year year then [31, 29, 31, 30, 31, 30, 31, 31, 30, 31, 30, 31]
      else [31, 28, 31, 30, 31, 30, 31, 31, 30, 31, 30, 31])"

fun month_loop :: "nat \<Rightarrow> int \<Rightarrow> int list \<Rightarrow> nat \<times> int" where
  "month_loop month remaining_days [] = (month, remaining_days)"
| "month_loop month remaining_days (d # ds) =
     (if remaining_days < d then (month, remaining_days)
      else month_loop (month + 1) (remaining_days - d) ds)"

record calendar =
  cal_year :: int
  cal_month :: nat
  cal_day :: int
  cal_hours :: nat
  cal_minutes :: nat
  cal_seconds :: nat

definition calendar_of :: "nat \<Rightarrow> calendar" where
  "calendar_of secs =
     (let days = secs div 86400; time_secs = secs mod 86400;
          (year, remaining_days) = year_loop 1970 (int days);
          (month, remaining_days) = month_loop 1 remaining_days (days_in_months year)
      in \<lparr>cal_year = year, cal_month = month, cal_day = remaining_days + 1,
          cal_hours = time_secs div 3600, cal_minutes = (time_secs mod 3600) div 60,
          cal_seconds = time_secs mod 60\<rparr>)"

text \<open>\<open>{:0w}\<close> of a number that is not negative.\<close>

definition pad :: "nat \<Rightarrow> nat \<Rightarrow> string" where
  "pad w n = replicate (w - length (dec_string n)) CHR ''0'' @ dec_string n"

definition render_calendar :: "calendar \<Rightarrow> string" where
  "render_calendar c =
     pad 4 (nat (cal_year c)) @ pad 2 (cal_month c) @ pad 2 (nat (cal_day c)) @ ''T'' @
     pad 2 (cal_hours c) @ pad 2 (cal_minutes c) @ pad 2 (cal_seconds c) @ ''Z''"

definition unix_secs :: "system_time \<Rightarrow> nat" where
  "unix_secs now = (case duration_since now 0 of Some d \<Rightarrow> d | None \<Rightarrow> 0) div ns_per_sec"

definition chrono_lite_now :: "system_time \<Rightarrow> string" where
  "chrono_lite_now now = render_calendar (calendar_of (unix_secs now))"

section \<open>The civil calendar\<close>

text \<open>The days before a year, and before a month of a year.\<close>

definition days_before_year :: "int \<Rightarrow> int" where
  "days_before_year y = (\<Sum>i \<in> {1970..<y}. days_in_year i)"

definition days_before_month :: "int \<Rightarrow> nat \<Rightarrow> int" where
  "days_before_month y m = sum_list (take (m - 1) (days_in_months y))"

definition civil_days :: "int \<Rightarrow> nat \<Rightarrow> int \<Rightarrow> int" where
  "civil_days y m d = days_before_year y + days_before_month y m + (d - 1)"

definition valid_date :: "int \<Rightarrow> nat \<Rightarrow> int \<Rightarrow> bool" where
  "valid_date y m d \<longleftrightarrow>
     1970 \<le> y \<and> 1 \<le> m \<and> m \<le> 12 \<and> 1 \<le> d \<and> d \<le> days_in_months y ! (m - 1)"

definition calendar_secs :: "calendar \<Rightarrow> int" where
  "calendar_secs c = civil_days (cal_year c) (cal_month c) (cal_day c) * 86400 +
     int (cal_hours c) * 3600 + int (cal_minutes c) * 60 + int (cal_seconds c)"

definition valid_calendar :: "calendar \<Rightarrow> bool" where
  "valid_calendar c \<longleftrightarrow> valid_date (cal_year c) (cal_month c) (cal_day c) \<and>
     cal_hours c < 24 \<and> cal_minutes c < 60 \<and> cal_seconds c < 60"

lemma days_in_year_pos: "0 < days_in_year y"
  by (simp add: days_in_year_def)

lemma days_before_year_Suc:
  assumes "1970 \<le> y"
  shows "days_before_year (y + 1) = days_before_year y + days_in_year y"
proof -
  have "{1970..<y + 1} = insert y {1970..<y}" using assms by auto
  then show ?thesis by (simp add: days_before_year_def)
qed

lemma days_before_year_mono: "1970 \<le> y \<Longrightarrow> y < y' \<Longrightarrow> days_before_year y + days_in_year y \<le> days_before_year y'"
proof -
  assume y: "1970 \<le> y" "y < y'"
  have "days_before_year (y + 1) \<le> days_before_year y'"
    unfolding days_before_year_def
    by (rule sum_mono2) (use y in \<open>auto intro: less_imp_le [OF days_in_year_pos]\<close>)
  with days_before_year_Suc [OF y(1)] show ?thesis by simp
qed

lemma sum_days_in_months: "sum_list (days_in_months y) = days_in_year y" "length (days_in_months y) = 12"
  by (simp_all add: days_in_months_def days_in_year_def)

lemma days_in_months_nonneg: "d \<in> set (days_in_months y) \<Longrightarrow> 0 \<le> d"
  by (auto simp: days_in_months_def split: if_splits)

lemma year_loop_exact:
  "0 \<le> r \<Longrightarrow> 1970 \<le> y \<Longrightarrow> year_loop y r = (y', r') \<Longrightarrow>
   y \<le> y' \<and> 0 \<le> r' \<and> r' < days_in_year y' \<and> days_before_year y' + r' = days_before_year y + r"
proof (induction y r rule: year_loop.induct)
  case (1 y r)
  show ?case
  proof (cases "r < days_in_year y")
    case True
    with 1 show ?thesis by (simp add: year_loop.simps [of y r])
  next
    case False
    with 1 days_before_year_Suc [OF 1(3)] show ?thesis
      by (simp add: year_loop.simps [of y r])
  qed
qed

lemma month_loop_exact:
  "0 \<le> r \<Longrightarrow> r < sum_list ds \<Longrightarrow> month_loop m r ds = (m', r') \<Longrightarrow>
   \<exists>k < length ds. m' = m + k \<and> 0 \<le> r' \<and> r' < ds ! k \<and> sum_list (take k ds) + r' = r"
proof (induction m r ds rule: month_loop.induct)
  case (2 m r d ds)
  show ?case
  proof (cases "r < d")
    case True
    with 2 show ?thesis by (intro exI [of _ 0]) auto
  next
    case False
    with 2 obtain k where "k < length ds" "m' = m + 1 + k" "0 \<le> r'" "r' < ds ! k"
      "sum_list (take k ds) + r' = r - d" by auto
    then show ?thesis by (intro exI [of _ "Suc k"]) auto
  qed
qed simp

lemma clock_fields: "t div 3600 * 3600 + t mod 3600 div 60 * 60 + t mod 60 = (t :: nat)"
proof -
  have "t mod 3600 mod 60 = t mod 60" by (rule mod_mod_cancel) simp
  moreover have "t mod 3600 div 60 * 60 + t mod 3600 mod 60 = t mod 3600" by (rule div_mult_mod_eq)
  moreover have "t div 3600 * 3600 + t mod 3600 = t" by (rule div_mult_mod_eq)
  ultimately show ?thesis by linarith
qed

lemma calendar_of_exact:
  "valid_calendar (calendar_of secs) \<and> calendar_secs (calendar_of secs) = int secs"
proof -
  obtain y r where yl: "year_loop 1970 (int (secs div 86400)) = (y, r)" by fastforce
  have y: "1970 \<le> y" "0 \<le> r" "r < days_in_year y" "days_before_year y + r = int (secs div 86400)"
    using year_loop_exact [OF _ _ yl] by (simp_all add: days_before_year_def)
  obtain m r' where ml: "month_loop 1 r (days_in_months y) = (m, r')" by fastforce
  obtain k where k: "k < 12" "m = 1 + k" "0 \<le> r'" "r' < days_in_months y ! k"
      "sum_list (take k (days_in_months y)) + r' = r"
    using month_loop_exact [OF y(2) _ ml] y(3) by (auto simp: sum_days_in_months)
  have c: "calendar_of secs = \<lparr>cal_year = y, cal_month = m, cal_day = r' + 1,
      cal_hours = secs mod 86400 div 3600, cal_minutes = secs mod 86400 mod 3600 div 60,
      cal_seconds = secs mod 86400 mod 60\<rparr>"
    by (simp add: calendar_of_def yl ml [unfolded One_nat_def] Let_def)
  have "civil_days y m (r' + 1) = int (secs div 86400)"
    using k y(4) by (simp add: civil_days_def days_before_month_def)
  moreover have "secs mod 86400 div 3600 * 3600 + secs mod 86400 mod 3600 div 60 * 60 +
      secs mod 86400 mod 60 = secs mod 86400" by (rule clock_fields)
  then have "int (secs mod 86400 div 3600) * 3600 + int (secs mod 86400 mod 3600 div 60) * 60 +
      int (secs mod 86400 mod 60) = int (secs mod 86400)" by linarith
  moreover have "int (secs div 86400) * 86400 + int (secs mod 86400) = int secs"
    by (metis div_mult_mod_eq of_nat_add of_nat_mult of_nat_numeral)
  ultimately have "calendar_secs (calendar_of secs) = int secs" by (simp add: calendar_secs_def c)
  moreover have "valid_calendar (calendar_of secs)"
    using k y(1) by (simp add: valid_calendar_def valid_date_def c div_less_iff_less_mult)
  ultimately show ?thesis by blast
qed

section \<open>Order\<close>

text \<open>The fields compared one after the other.\<close>

definition calendar_less :: "calendar \<Rightarrow> calendar \<Rightarrow> bool" where
  "calendar_less c c' \<longleftrightarrow>
     cal_year c < cal_year c' \<or> cal_year c = cal_year c' \<and>
     (cal_month c < cal_month c' \<or> cal_month c = cal_month c' \<and>
     (cal_day c < cal_day c' \<or> cal_day c = cal_day c' \<and>
     (cal_hours c < cal_hours c' \<or> cal_hours c = cal_hours c' \<and>
     (cal_minutes c < cal_minutes c' \<or> cal_minutes c = cal_minutes c' \<and>
      cal_seconds c < cal_seconds c'))))"

lemma calendar_less_linear: "calendar_less c c' \<or> c = c' \<or> calendar_less c' c"
proof -
  have "c = c'" if "cal_year c = cal_year c'" "cal_month c = cal_month c'" "cal_day c = cal_day c'"
    "cal_hours c = cal_hours c'" "cal_minutes c = cal_minutes c'" "cal_seconds c = cal_seconds c'"
    using that by (cases c; cases c') simp
  then show ?thesis unfolding calendar_less_def by (metis linorder_less_linear)
qed

lemma days_before_month_mono:
  assumes "1 \<le> m" "m < m'" "m' \<le> 13"
  shows "days_before_month y m + days_in_months y ! (m - 1) \<le> days_before_month y m'"
proof -
  let ?ds = "days_in_months y"
  have len: "length ?ds = 12" by (rule sum_days_in_months)
  define j where "j = m' - 1 - m"
  with assms(2) have "m' - 1 = m + j" by simp
  then have "take (m' - 1) ?ds = take m ?ds @ take j (drop m ?ds)" by (simp only: take_add)
  moreover have "0 \<le> sum_list (take j (drop m ?ds))"
    by (rule sum_list_nonneg) (meson days_in_months_nonneg in_set_dropD in_set_takeD)
  moreover have "take m ?ds = take (m - 1) ?ds @ [?ds ! (m - 1)]"
    using assms len take_Suc_conv_app_nth [of "m - 1" ?ds] by simp
  ultimately show ?thesis by (simp add: days_before_month_def)
qed

lemma civil_days_less:
  assumes "valid_date y m d" "valid_date y' m' d'"
    and "y < y' \<or> y = y' \<and> (m < m' \<or> m = m' \<and> d < d')"
  shows "civil_days y m d < civil_days y' m' d'"
proof -
  have v: "1970 \<le> y" "1 \<le> m" "m \<le> 12" "d \<le> days_in_months y ! (m - 1)" "1 \<le> m'" "m' \<le> 12" "1 \<le> d'"
    using assms(1,2) by (simp_all add: valid_date_def)
  have nonneg: "0 \<le> days_before_month y' m'" unfolding days_before_month_def
    by (rule sum_list_nonneg) (meson days_in_months_nonneg in_set_takeD)
  consider "y < y'" | "y = y'" "m < m'" | "y = y'" "m = m'" "d < d'" using assms(3) by blast
  then show ?thesis
  proof cases
    case 1
    have "days_before_month y 13 = days_in_year y"
      by (simp add: days_before_month_def sum_days_in_months)
    then have "days_before_month y m + d \<le> days_in_year y"
      using days_before_month_mono [of m 13 y] v by simp
    then show ?thesis
      using days_before_year_mono [OF v(1) 1] nonneg v(7) by (simp add: civil_days_def)
  next
    case 2
    then show ?thesis
      using days_before_month_mono [of m m' y] v by (simp add: civil_days_def)
  qed (simp add: civil_days_def)
qed

lemma calendar_less_secs:
  assumes "valid_calendar c" "valid_calendar c'" "calendar_less c c'"
  shows "calendar_secs c < calendar_secs c'"
proof -
  let ?t = "\<lambda>c. int (cal_hours c) * 3600 + int (cal_minutes c) * 60 + int (cal_seconds c)"
  let ?d = "\<lambda>c. civil_days (cal_year c) (cal_month c) (cal_day c)"
  have t: "0 \<le> ?t c" "?t c < 86400" if "valid_calendar c" for c
    using that by (auto simp: valid_calendar_def)
  consider "?d c < ?d c'" | "?d c = ?d c'" "?t c < ?t c'"
  proof (cases "cal_year c = cal_year c' \<and> cal_month c = cal_month c' \<and> cal_day c = cal_day c'")
    case True
    then have "?t c < ?t c'"
      using assms by (auto simp: calendar_less_def valid_calendar_def)
    with True that(2) show thesis by simp
  next
    case False
    then have "cal_year c < cal_year c' \<or> cal_year c = cal_year c' \<and>
        (cal_month c < cal_month c' \<or> cal_month c = cal_month c' \<and> cal_day c < cal_day c')"
      using assms(3) unfolding calendar_less_def by blast
    with civil_days_less assms(1,2) that(1) show thesis by (simp add: valid_calendar_def)
  qed
  then show ?thesis
    using t [OF assms(1)] t [OF assms(2)] unfolding calendar_secs_def by cases linarith+
qed

lemma append_less_left: "length a = length b \<Longrightarrow> a < b \<Longrightarrow> a @ x < b @ y" for a b :: string
  by (induction a b rule: list_induct2) auto

lemma append_less_right: "x < y \<Longrightarrow> a @ x < a @ y" for x y :: string
  by (induction a) auto

text \<open>A number in exactly \<open>w\<close> digits.\<close>

fun fixed_digits :: "nat \<Rightarrow> nat \<Rightarrow> string" where
  "fixed_digits 0 n = []"
| "fixed_digits (Suc w) n = fixed_digits w (n div 10) @ [digit_char (n mod 10)]"

lemma length_fixed_digits [simp]: "length (fixed_digits w n) = w"
  by (induction w arbitrary: n) auto

lemma digit_char_0: "digit_char 0 = CHR ''0''"
  by code_simp

lemma fixed_digits_0: "fixed_digits w 0 = replicate w CHR ''0''"
  by (induction w) (simp_all add: digit_char_0 replicate_append_same)

lemma pad_fixed_digits: "0 < w \<Longrightarrow> n < 10 ^ w \<Longrightarrow> pad w n = fixed_digits w n"
proof (induction w arbitrary: n)
  case (Suc w)
  show ?case
  proof (cases "n < 10")
    case True
    then show ?thesis by (simp add: pad_def dec_string.simps [of n] fixed_digits_0)
  next
    case False
    with Suc.prems have "0 < w" by (cases w) auto
    with Suc have "pad w (n div 10) = fixed_digits w (n div 10)" by simp
    with False show ?thesis by (simp add: pad_def dec_string.simps [of n])
  qed
qed simp

lemma digit_char_less: "a < b \<Longrightarrow> b < 10 \<Longrightarrow> digit_char a < digit_char b"
  by (simp add: digit_char_def less_char_def of_char_of take_bit_nat_eq_self)

lemma fixed_digits_less: "n < n' \<Longrightarrow> n' < 10 ^ w \<Longrightarrow> fixed_digits w n < fixed_digits w n'"
proof (induction w arbitrary: n n')
  case (Suc w)
  show ?case
  proof (cases "n div 10 < n' div 10")
    case True
    with Suc have "fixed_digits w (n div 10) < fixed_digits w (n' div 10)" by simp
    then show ?thesis by (simp add: append_less_left)
  next
    case False
    then have d: "n div 10 = n' div 10" using Suc.prems(1) div_le_mono [of n n' 10] by simp
    then have "n mod 10 < n' mod 10"
      using Suc.prems(1) div_mult_mod_eq [of n 10] div_mult_mod_eq [of n' 10] by linarith
    from digit_char_less [OF this] have "[digit_char (n mod 10)] < [digit_char (n' mod 10)]" by simp
    then show ?thesis unfolding fixed_digits.simps d by (rule append_less_right)
  qed
qed simp

lemma pad_less: "n < n' \<Longrightarrow> n' < 10 ^ w \<Longrightarrow> 0 < w \<Longrightarrow> pad w n < pad w n'"
  by (metis fixed_digits_less order.strict_trans pad_fixed_digits)

lemma length_pad: "n < 10 ^ w \<Longrightarrow> 0 < w \<Longrightarrow> length (pad w n) = w"
  by (metis length_fixed_digits pad_fixed_digits)

lemma valid_calendar_widths:
  assumes "valid_calendar c" "cal_year c < 10000"
  shows "nat (cal_year c) < 10 ^ 4" "cal_month c < 10 ^ 2" "nat (cal_day c) < 10 ^ 2"
    "cal_hours c < 10 ^ 2" "cal_minutes c < 10 ^ 2" "cal_seconds c < 10 ^ 2"
proof -
  have "cal_month c - 1 < 12" using assms(1) by (auto simp: valid_calendar_def valid_date_def)
  then have "days_in_months (cal_year c) ! (cal_month c - 1) \<in> set (days_in_months (cal_year c))"
    using sum_days_in_months(2) by (metis nth_mem)
  then have "days_in_months (cal_year c) ! (cal_month c - 1) \<le> 31"
    by (auto simp: days_in_months_def split: if_splits)
  moreover have "cal_day c \<le> days_in_months (cal_year c) ! (cal_month c - 1)"
    using assms(1) by (simp add: valid_calendar_def valid_date_def)
  ultimately have "cal_day c \<le> 31" by linarith
  then show "nat (cal_day c) < 10 ^ 2" by simp
qed (use assms in \<open>auto simp: valid_calendar_def valid_date_def\<close>)

lemma render_length:
  "valid_calendar c \<Longrightarrow> cal_year c < 10000 \<Longrightarrow> length (render_calendar c) = 16"
  by (simp add: render_calendar_def length_pad [OF valid_calendar_widths(1)]
      length_pad [OF valid_calendar_widths(2)] length_pad [OF valid_calendar_widths(3)]
      length_pad [OF valid_calendar_widths(4)] length_pad [OF valid_calendar_widths(5)]
      length_pad [OF valid_calendar_widths(6)])

text \<open>One field decides, or the rest does.\<close>

lemma field_less:
  assumes "n < n' \<or> n = n' \<and> x < y" "n < 10 ^ w" "n' < 10 ^ w" "0 < w"
  shows "pad w n @ x < pad w n' @ y"
proof (cases "n < n'")
  case True
  have "length (pad w n) = length (pad w n')" using assms(2-4) by (simp only: length_pad)
  then show ?thesis using pad_less [OF True assms(3,4)] by (rule append_less_left)
next
  case False
  with assms(1) show ?thesis by (simp add: append_less_right)
qed

lemma render_less:
  assumes "valid_calendar c" "valid_calendar c'" "cal_year c' < 10000" "calendar_less c c'"
  shows "render_calendar c < render_calendar c'"
proof -
  have y: "cal_year c < 10000" using assms(3,4) by (auto simp: calendar_less_def)
  note w = valid_calendar_widths [OF assms(1) y] and w' = valid_calendar_widths [OF assms(2,3)]
  have pos: "0 \<le> cal_year c" "0 \<le> cal_day c"
    using assms(1) by (simp_all add: valid_calendar_def valid_date_def)
  let ?s = "\<lambda>c. pad 2 (cal_seconds c) @ ''Z''"
  let ?m = "\<lambda>c. pad 2 (cal_minutes c) @ ?s c"
  let ?h = "\<lambda>c. pad 2 (cal_hours c) @ ?m c"
  let ?d = "\<lambda>c. pad 2 (nat (cal_day c)) @ ''T'' @ ?h c"
  let ?mo = "\<lambda>c. pad 2 (cal_month c) @ ?d c"
  have s: "cal_seconds c < cal_seconds c' \<Longrightarrow> ?s c < ?s c'"
    by (rule field_less [OF _ w(6) w'(6)]) simp_all
  have m: "cal_minutes c < cal_minutes c' \<or> cal_minutes c = cal_minutes c' \<and> ?s c < ?s c' \<Longrightarrow> ?m c < ?m c'"
    by (erule field_less [OF _ w(5) w'(5)]) simp
  have h: "cal_hours c < cal_hours c' \<or> cal_hours c = cal_hours c' \<and> ?m c < ?m c' \<Longrightarrow> ?h c < ?h c'"
    by (erule field_less [OF _ w(4) w'(4)]) simp
  have d: "cal_day c < cal_day c' \<or> cal_day c = cal_day c' \<and> ?h c < ?h c' \<Longrightarrow> ?d c < ?d c'"
    by (rule field_less [OF _ w(3) w'(3)]) (use pos(2) in \<open>auto simp: append_less_right\<close>)
  have mo: "cal_month c < cal_month c' \<or> cal_month c = cal_month c' \<and> ?d c < ?d c' \<Longrightarrow> ?mo c < ?mo c'"
    by (erule field_less [OF _ w(2) w'(2)]) simp
  have "cal_year c < cal_year c' \<or> cal_year c = cal_year c' \<and> ?mo c < ?mo c'"
    using assms(4) s m h d mo unfolding calendar_less_def by argo
  then have "nat (cal_year c) < nat (cal_year c') \<or> nat (cal_year c) = nat (cal_year c') \<and> ?mo c < ?mo c'"
    using pos(1) by auto
  from field_less [OF this w(1) w'(1)] show ?thesis by (simp add: render_calendar_def)
qed

text \<open>
  Timestamps are exact and sort in time: the fields are a valid date of the Gregorian calendar
  and a time of day that count exactly the given seconds since the epoch; a clock before the epoch
  counts as the epoch; and up to the year 9999 a timestamp has 16 characters and a later second
  has a timestamp that is lexicographically greater.
\<close>

theorem timestamps_exact_and_ordered:
  "valid_calendar (calendar_of (unix_secs now)) \<and>
   calendar_secs (calendar_of (unix_secs now)) = max 0 (now div int ns_per_sec) \<and>
   (cal_year (calendar_of (unix_secs now)) < 10000 \<longrightarrow>
      length (chrono_lite_now now) = 16 \<and>
      (\<forall>earlier. unix_secs earlier < unix_secs now \<longrightarrow> chrono_lite_now earlier < chrono_lite_now now))"
proof -
  note exact = calendar_of_exact [of "unix_secs now"]
  have "int (unix_secs now) = max 0 (now div int ns_per_sec)"
  proof (cases "0 \<le> now")
    case True
    then obtain k where "now = int k" by (metis nonneg_int_cases)
    then show ?thesis by (simp add: unix_secs_def duration_since_def flip: zdiv_int)
  next
    case False
    then have "now div int ns_per_sec < 0" by (simp add: ns_per_sec_def)
    with False show ?thesis by (simp add: unix_secs_def duration_since_def)
  qed
  moreover have "chrono_lite_now earlier < chrono_lite_now now"
    if "cal_year (calendar_of (unix_secs now)) < 10000" "unix_secs earlier < unix_secs now" for earlier
  proof -
    let ?c = "calendar_of (unix_secs earlier)" and ?c' = "calendar_of (unix_secs now)"
    have v: "valid_calendar ?c" "calendar_secs ?c < calendar_secs ?c'"
      using calendar_of_exact [of "unix_secs earlier"] exact that(2) by simp_all
    then have "calendar_less ?c ?c'"
      using calendar_less_linear [of ?c ?c'] calendar_less_secs [of ?c' ?c] exact by auto
    then show ?thesis
      using render_less [OF v(1) _ that(1)] exact by (simp add: chrono_lite_now_def)
  qed
  ultimately show ?thesis
    using exact render_length by (simp add: chrono_lite_now_def)
qed

theorem timestamps_exact_and_ordered_witness:
  "chrono_lite_now 0 < chrono_lite_now (int ns_per_sec) \<and> length (chrono_lite_now (int ns_per_sec)) = 16"
proof -
  have u: "unix_secs (int ns_per_sec) = 1" "unix_secs 0 = 0"
    by (simp_all add: unix_secs_def duration_since_def ns_per_sec_def)
  have "cal_year (calendar_of 1) = 1970"
    by (simp add: calendar_of_def year_loop.simps days_in_year_def is_leap_year_def days_in_months_def)
  with timestamps_exact_and_ordered [of "int ns_per_sec"] u show ?thesis by simp
qed

end
