(* ===== verification/Watchdog.thy ===== *)
theory Watchdog
  imports Prelude
begin

text \<open>
  The process-wide signals around an analysis: the cancellation flags and the counter of active
  analyses (\<open>src/cancellation.rs\<close>), and the hang watchdog that aborts the process when no
  heartbeat arrives (\<open>src/watchdog.rs\<close>). Every atomic access is a step, so a list of events is an
  interleaving of the threads; \<open>beat\<close>, the start and the drop of a watchdog hold the global lock
  and are one step each, while the watchdog threads poll in between. Starting a watchdog from the
  environment is a start followed by a beat.
\<close>

section \<open>Cancellation\<close>

record cancellation =
  cancelled :: bool
  memory_pressure_cancelled :: bool
  analysis_active :: u64

definition initial_cancellation :: cancellation where
  "initial_cancellation =
     \<lparr>cancelled = False, memory_pressure_cancelled = False, analysis_active = 0\<rparr>"

definition request_cancellation :: "cancellation \<Rightarrow> cancellation" where
  "request_cancellation s = s\<lparr>cancelled := True\<rparr>"

text \<open>Two stores, in this order.\<close>

definition request_memory_pressure_1 :: "cancellation \<Rightarrow> cancellation" where
  "request_memory_pressure_1 s = s\<lparr>memory_pressure_cancelled := True\<rparr>"

definition request_cancellation_memory_pressure :: "cancellation \<Rightarrow> cancellation" where
  "request_cancellation_memory_pressure s = (request_memory_pressure_1 s)\<lparr>cancelled := True\<rparr>"

definition reset_cancellation :: "cancellation \<Rightarrow> cancellation" where
  "reset_cancellation s = s\<lparr>cancelled := False, memory_pressure_cancelled := False\<rparr>"

definition mark_analysis_started :: "cancellation \<Rightarrow> cancellation" where
  "mark_analysis_started s = s\<lparr>analysis_active := analysis_active s + 1\<rparr>"

text \<open>One read-modify-write: \<open>checked_sub(1)\<close>, and no store when the counter is zero.\<close>

definition mark_analysis_finished :: "cancellation \<Rightarrow> cancellation" where
  "mark_analysis_finished s =
     (if analysis_active s = 0 then s else s\<lparr>analysis_active := analysis_active s - 1\<rparr>)"

definition is_analysis_active :: "cancellation \<Rightarrow> bool" where
  "is_analysis_active s \<longleftrightarrow> 0 < analysis_active s"

text \<open>A guard marks the start when it is made and the end when it is dropped, panic or not.\<close>

datatype guard_event = GuardNew | GuardDrop | Request | RequestMemory | Reset

fun guard_step :: "guard_event \<Rightarrow> cancellation \<Rightarrow> cancellation" where
  "guard_step GuardNew s = mark_analysis_started s"
| "guard_step GuardDrop s = mark_analysis_finished s"
| "guard_step Request s = request_cancellation s"
| "guard_step RequestMemory s = request_cancellation_memory_pressure s"
| "guard_step Reset s = reset_cancellation s"

text \<open>The guards alive after a sequence; \<open>None\<close> when one is dropped that does not exist.\<close>

fun live_guards :: "nat \<Rightarrow> guard_event list \<Rightarrow> nat option" where
  "live_guards n [] = Some n"
| "live_guards n (GuardNew # es) = live_guards (n + 1) es"
| "live_guards n (GuardDrop # es) = (if n = 0 then None else live_guards (n - 1) es)"
| "live_guards n (_ # es) = live_guards n es"

lemma active_counter_exact:
  assumes "live_guards n es = Some k" "unat (analysis_active s) = n" "n + length es < 2 ^ 64"
  shows "unat (analysis_active (fold guard_step es s)) = k"
  using assms
proof (induction n es arbitrary: s rule: live_guards.induct)
  case (2 n es)
  then have "unat (analysis_active s + 1) = n + 1" by (simp add: unat_word_ariths)
  with 2 show ?case by (simp add: mark_analysis_started_def)
next
  case (3 n es)
  from "3.prems"(1) have n: "n \<noteq> 0" by (auto split: if_splits)
  then have nz: "analysis_active s \<noteq> 0" using "3.prems"(2) by auto
  then have "unat (analysis_active s - 1) = n - 1"
    using "3.prems"(2) by (simp add: unat_minus_one)
  with "3.IH" [OF n] "3.prems" n nz show ?case by (simp add: mark_analysis_finished_def)
qed (simp_all add: request_cancellation_def request_cancellation_memory_pressure_def
      request_memory_pressure_1_def reset_cancellation_def)

section \<open>Watchdogs\<close>

record beat_state =
  last_beat_ms :: nat
  stage :: string

record watchdog_config =
  stall_timeout :: nat
  abort_delay :: nat

datatype dog_thread = Polling | Dumping nat | Stopped

record watchdog =
  wd_config :: watchdog_config
  wd_stop :: bool
  wd_state :: beat_state
  wd_thread :: dog_thread

text \<open>
  The process: the monotonic clock in milliseconds, the watchdogs in the order they were started,
  the one the global \<open>ACTIVE\<close> points to, and whether \<open>abort\<close> has been called. A duration of the
  configuration is in milliseconds; it fits 64 bits since the configuration caps it at a day.
\<close>

record process =
  clock :: nat
  dogs :: "watchdog list"
  active_dog :: "nat option"
  aborted :: bool

definition initial_process :: process where
  "initial_process = \<lparr>clock = 0, dogs = [], active_dog = None, aborted = False\<rparr>"

definition watchdog_start :: "watchdog_config \<Rightarrow> process \<Rightarrow> process" where
  "watchdog_start config p =
     p\<lparr>dogs := dogs p @ [\<lparr>wd_config = config, wd_stop = False,
         wd_state = \<lparr>last_beat_ms = clock p, stage = ''initialising''\<rparr>, wd_thread = Polling\<rparr>],
       active_dog := Some (length (dogs p))\<rparr>"

definition beat_state_beat :: "nat \<Rightarrow> string \<Rightarrow> beat_state \<Rightarrow> beat_state" where
  "beat_state_beat now st b = b\<lparr>stage := st, last_beat_ms := now\<rparr>"

definition beat :: "string \<Rightarrow> process \<Rightarrow> process" where
  "beat st p =
     (case active_dog p of
        None \<Rightarrow> p
      | Some i \<Rightarrow> p\<lparr>dogs := (dogs p)[i := (dogs p ! i)\<lparr>wd_state :=
            beat_state_beat (clock p) st (wd_state (dogs p ! i))\<rparr>]\<rparr>)"

definition start_from_env :: "watchdog_config option \<Rightarrow> string \<Rightarrow> process \<Rightarrow> process" where
  "start_from_env config st p =
     (case config of None \<Rightarrow> p | Some c \<Rightarrow> beat st (watchdog_start c p))"

text \<open>Dropping a watchdog stops its thread, and clears the global only if it is still its own.\<close>

definition watchdog_drop :: "nat \<Rightarrow> process \<Rightarrow> process" where
  "watchdog_drop i p =
     p\<lparr>dogs := (dogs p)[i := (dogs p ! i)\<lparr>wd_stop := True\<rparr>],
       active_dog := (if active_dog p = Some i then None else active_dog p)\<rparr>"

text \<open>
  An iteration of the loop of a watchdog thread. A thread that has detected a stall dumps, sleeps
  and aborts; it does not look at the heartbeat or the stop flag again.
\<close>

definition poll_every :: "watchdog_config \<Rightarrow> nat" where
  "poll_every config = min 5000 (max (stall_timeout config) 1000)"

definition watchdog_poll :: "nat \<Rightarrow> process \<Rightarrow> process" where
  "watchdog_poll i p =
     (let d = dogs p ! i in
      case wd_thread d of
        Stopped \<Rightarrow> p
      | Dumping until \<Rightarrow> if until \<le> clock p then p\<lparr>aborted := True\<rparr> else p
      | Polling \<Rightarrow>
          if wd_stop d then p\<lparr>dogs := (dogs p)[i := d\<lparr>wd_thread := Stopped\<rparr>]\<rparr>
          else if stall_timeout (wd_config d) \<le> clock p - last_beat_ms (wd_state d)
          then p\<lparr>dogs := (dogs p)[i := d\<lparr>wd_thread := Dumping (clock p + abort_delay (wd_config d))\<rparr>]\<rparr>
          else p)"

datatype dog_event =
    Tick nat | DogStart watchdog_config | DogBeat string | DogDrop nat | DogPoll nat

fun dog_step :: "dog_event \<Rightarrow> process \<Rightarrow> process" where
  "dog_step (Tick ms) p = p\<lparr>clock := clock p + ms\<rparr>"
| "dog_step (DogStart config) p = watchdog_start config p"
| "dog_step (DogBeat st) p = beat st p"
| "dog_step (DogDrop i) p = (if i < length (dogs p) then watchdog_drop i p else p)"
| "dog_step (DogPoll i) p = (if i < length (dogs p) then watchdog_poll i p else p)"

text \<open>An aborted process takes no further step.\<close>

fun dog_run :: "dog_event list \<Rightarrow> process \<Rightarrow> process" where
  "dog_run [] p = p"
| "dog_run (e # es) p = (if aborted p then p else dog_run es (dog_step e p))"

text \<open>\<open>heartbeat_snapshot\<close>, when both locks are taken in time.\<close>

datatype heartbeat_snapshot = Active string nat | Inactive | Contended

definition heartbeat_snapshot_of :: "bool \<Rightarrow> bool \<Rightarrow> process \<Rightarrow> heartbeat_snapshot" where
  "heartbeat_snapshot_of got_active got_stage p =
     (if \<not> got_active then Contended
      else
        (case active_dog p of
           None \<Rightarrow> Inactive
         | Some i \<Rightarrow>
             if \<not> got_stage then Contended
             else Active (stage (wd_state (dogs p ! i))) (clock p - last_beat_ms (wd_state (dogs p ! i)))))"

section \<open>What the steps keep\<close>

lemma dog_run_append: "dog_run (es @ fs) p = dog_run fs (dog_run es p)"
proof (induction es arbitrary: p)
  case (Cons e es)
  have "dog_run fs p = p" if "aborted p" using that by (cases fs) simp_all
  with Cons show ?case by simp
qed simp

lemma dog_run_aborted [simp]: "aborted p \<Longrightarrow> dog_run es p = p"
  by (cases es) simp_all

lemma length_dogs_mono: "length (dogs p) \<le> length (dogs (dog_step e p))"
  by (cases e) (auto simp: watchdog_start_def beat_def watchdog_drop_def
      watchdog_poll_def Let_def split: option.split dog_thread.split)

text \<open>The global, when set, points to a watchdog that exists.\<close>

definition active_exists :: "process \<Rightarrow> bool" where
  "active_exists p \<longleftrightarrow> (\<forall>i. active_dog p = Some i \<longrightarrow> i < length (dogs p))"

lemma active_exists_step: "active_exists p \<Longrightarrow> active_exists (dog_step e p)"
  by (cases e) (auto simp: active_exists_def watchdog_start_def beat_def
      watchdog_drop_def watchdog_poll_def Let_def split: option.split dog_thread.split if_splits)

lemma active_exists_run: "active_exists p \<Longrightarrow> active_exists (dog_run es p)"
  by (induction es arbitrary: p) (auto intro: active_exists_step)

text \<open>Only a beat that the global routes to a watchdog changes its heartbeat.\<close>

lemma step_last_beat:
  assumes "active_exists p" "i < length (dogs p)" "\<And>st. e = DogBeat st \<Longrightarrow> active_dog p \<noteq> Some i"
  shows "last_beat_ms (wd_state (dogs (dog_step e p) ! i)) = last_beat_ms (wd_state (dogs p ! i))"
  using assms
  by (cases e) (auto simp: active_exists_def watchdog_start_def beat_def nth_append
      nth_list_update watchdog_drop_def watchdog_poll_def Let_def
      split: option.split dog_thread.split)

lemma step_beat_last:
  assumes "i < length (dogs p)" "active_dog p = Some i"
  shows "last_beat_ms (wd_state (dogs (dog_step (DogBeat st) p) ! i)) = clock p"
  using assms by (simp add: beat_def beat_state_beat_def)

lemma step_new_dog:
  assumes "active_exists p" "\<not> i < length (dogs p)" "i < length (dogs (dog_step e p))"
  shows "last_beat_ms (wd_state (dogs (dog_step e p) ! i)) = clock p \<and> clock (dog_step e p) = clock p"
  using assms
  by (cases e) (auto simp: active_exists_def watchdog_start_def beat_def nth_append
      beat_state_beat_def nth_list_update watchdog_drop_def watchdog_poll_def Let_def
      split: option.splits dog_thread.splits if_splits)

lemma clock_mono_step: "clock p \<le> clock (dog_step e p)"
  by (cases e) (auto simp: watchdog_start_def beat_def watchdog_drop_def
      watchdog_poll_def Let_def split: option.split dog_thread.split)

section \<open>No abort without a stall\<close>

text \<open>No beat reaches watchdog \<open>i\<close> in \<open>later\<close>, run after \<open>earlier\<close>.\<close>

definition unheard :: "nat \<Rightarrow> dog_event list \<Rightarrow> dog_event list \<Rightarrow> bool" where
  "unheard i earlier later \<longleftrightarrow>
     (\<forall>k < length later. \<forall>st. later ! k = DogBeat st \<longrightarrow>
        active_dog (dog_run (earlier @ take k later) initial_process) \<noteq> Some i)"

lemma unheard_Nil [simp]: "unheard i es []"
  by (simp add: unheard_def)

lemma unheard_snoc:
  "unheard i es (fs @ [e]) \<longleftrightarrow> unheard i es fs \<and>
     (\<forall>st. e = DogBeat st \<longrightarrow> active_dog (dog_run (es @ fs) initial_process) \<noteq> Some i)"
  by (auto simp: unheard_def nth_append less_Suc_eq split: if_splits)

lemma active_exists_reached: "active_exists (dog_run es initial_process)"
  by (rule active_exists_run) (simp add: active_exists_def initial_process_def)

text \<open>The recorded heartbeat is a moment after which nothing was heard.\<close>

lemma last_beat_history:
  assumes "\<not> aborted (dog_run es initial_process)" "i < length (dogs (dog_run es initial_process))"
  shows "\<exists>a b. es = a @ b \<and> i < length (dogs (dog_run a initial_process)) \<and>
    clock (dog_run a initial_process) =
      last_beat_ms (wd_state (dogs (dog_run es initial_process) ! i)) \<and> unheard i a b"
  using assms
proof (induction es rule: rev_induct)
  case Nil
  then show ?case by (simp add: initial_process_def)
next
  case (snoc e es)
  let ?p = "dog_run es initial_process"
  have alive: "\<not> aborted ?p" using snoc.prems(1) by (auto simp: dog_run_append)
  then have run: "dog_run (es @ [e]) initial_process = dog_step e ?p" by (simp add: dog_run_append)
  note act = active_exists_reached [of es]
  consider (new) "\<not> i < length (dogs ?p)"
    | (heard) st where "i < length (dogs ?p)" "e = DogBeat st" "active_dog ?p = Some i"
    | (quiet) "i < length (dogs ?p)" "\<And>st. e = DogBeat st \<Longrightarrow> active_dog ?p \<noteq> Some i" by blast
  then show ?case
  proof cases
    case new
    with snoc.prems(2) run step_new_dog [OF act, of i e] show ?thesis
      by (intro exI [of _ "es @ [e]"] exI [of _ "[]"]) simp
  next
    case heard
    then have "clock (dog_step e ?p) = clock ?p"
      by (simp add: beat_def)
    with heard snoc.prems(2) run step_beat_last [of i ?p] show ?thesis
      by (intro exI [of _ "es @ [e]"] exI [of _ "[]"]) simp
  next
    case quiet
    then obtain a b where ab: "es = a @ b" "i < length (dogs (dog_run a initial_process))"
      "clock (dog_run a initial_process) = last_beat_ms (wd_state (dogs ?p ! i))" "unheard i a b"
      using snoc.IH alive by blast
    with quiet run step_last_beat [OF act quiet(1,2)] show ?thesis
      by (intro exI [of _ a] exI [of _ "b @ [e]"]) (auto simp: unheard_snoc)
  qed
qed

lemma clock_mono_run: "clock p \<le> clock (dog_run es p)"
proof (induction es arbitrary: p)
  case (Cons e es)
  then show ?case using clock_mono_step [of p e] by (auto intro: order_trans)
qed simp

text \<open>A step changes a thread only by a poll of its own, and leaves the configuration alone.\<close>

lemma step_thread:
  assumes "active_exists p" "i < length (dogs p)" "e \<noteq> DogPoll i"
  shows "wd_thread (dogs (dog_step e p) ! i) = wd_thread (dogs p ! i)"
  using assms
  by (cases e) (auto simp: active_exists_def watchdog_start_def beat_def nth_append
      nth_list_update watchdog_drop_def watchdog_poll_def Let_def
      split: option.split dog_thread.split)

lemma step_new_thread:
  assumes "active_exists p" "\<not> i < length (dogs p)" "i < length (dogs (dog_step e p))"
  shows "wd_thread (dogs (dog_step e p) ! i) = Polling"
  using assms
  by (cases e) (auto simp: active_exists_def watchdog_start_def beat_def nth_append
      nth_list_update watchdog_drop_def watchdog_poll_def Let_def
      split: option.splits dog_thread.splits if_splits)

definition stall_seen :: "nat \<Rightarrow> process \<Rightarrow> bool" where
  "stall_seen i p \<longleftrightarrow> \<not> aborted p \<and> i < length (dogs p) \<and> \<not> wd_stop (dogs p ! i) \<and>
     stall_timeout (wd_config (dogs p ! i)) \<le> clock p - last_beat_ms (wd_state (dogs p ! i))"

lemma poll_dumps:
  assumes "i < length (dogs p)" "\<not> aborted p" "wd_thread (dogs (watchdog_poll i p) ! i) = Dumping u"
  shows "wd_thread (dogs p ! i) = Dumping u \<or>
    stall_seen i p \<and> u = clock p + abort_delay (wd_config (dogs p ! i))"
  using assms by (auto simp: watchdog_poll_def stall_seen_def Let_def split: dog_thread.splits if_splits)

lemma dumping_history:
  assumes "i < length (dogs (dog_run es initial_process))"
    and "wd_thread (dogs (dog_run es initial_process) ! i) = Dumping u"
  shows "\<exists>es1 es2. es = es1 @ DogPoll i # es2 \<and> stall_seen i (dog_run es1 initial_process) \<and>
    u = clock (dog_run es1 initial_process) +
      abort_delay (wd_config (dogs (dog_run es1 initial_process) ! i))"
  using assms
proof (induction es rule: rev_induct)
  case Nil
  then show ?case by (simp add: initial_process_def)
next
  case (snoc e es)
  let ?p = "dog_run es initial_process"
  note act = active_exists_reached [of es]
  consider "dog_run (es @ [e]) initial_process = ?p" | (live) "\<not> aborted ?p"
    "dog_run (es @ [e]) initial_process = dog_step e ?p" by (cases "aborted ?p") (simp_all add: dog_run_append)
  then show ?case
  proof cases
    case 1
    with snoc show ?thesis by fastforce
  next
    case live
    show ?thesis
    proof (cases "i < length (dogs ?p)")
      case False
      with step_new_thread [OF act] live snoc.prems show ?thesis by simp
    next
      case True
      consider "wd_thread (dogs ?p ! i) = Dumping u" | "e = DogPoll i" "stall_seen i ?p"
        "u = clock ?p + abort_delay (wd_config (dogs ?p ! i))"
      proof (cases "e = DogPoll i")
        case True
        with \<open>i < length (dogs ?p)\<close> poll_dumps [of i ?p u] live snoc.prems(2) that show thesis by auto
      next
        case False
        with step_thread [OF act True] live(2) snoc.prems(2) that(1) show thesis by simp
      qed
      then show ?thesis
      proof cases
        case 1
        with snoc.IH True show ?thesis by fastforce
      next
        case 2
        then show ?thesis by (intro exI [of _ es] exI [of _ "[]"]) simp
      qed
    qed
  qed
qed

lemma aborted_history:
  assumes "aborted (dog_run es initial_process)"
  shows "\<exists>i u. i < length (dogs (dog_run es initial_process)) \<and>
    wd_thread (dogs (dog_run es initial_process) ! i) = Dumping u \<and> u \<le> clock (dog_run es initial_process)"
  using assms
proof (induction es rule: rev_induct)
  case Nil
  then show ?case by (simp add: initial_process_def)
next
  case (snoc e es)
  let ?p = "dog_run es initial_process"
  show ?case
  proof (cases "aborted ?p")
    case True
    with snoc show ?thesis by (simp add: dog_run_append)
  next
    case False
    then have run: "dog_run (es @ [e]) initial_process = dog_step e ?p" by (simp add: dog_run_append)
    with snoc.prems False obtain i where "e = DogPoll i" "i < length (dogs ?p)"
      by (cases e) (auto simp: watchdog_start_def beat_def watchdog_drop_def
          split: option.splits if_splits)
    with snoc.prems False run show ?thesis
      by (auto simp: watchdog_poll_def Let_def split: dog_thread.splits if_splits)
  qed
qed

text \<open>
  C24. The watchdog aborts the process only after a stall: whenever it has aborted, some watchdog
  that was not dropped went through its whole stall timeout without a heartbeat reaching it before
  one of its polls, and the abort delay has passed since that poll.
\<close>

theorem watchdog_aborts_after_stall:
  assumes "aborted (dog_run es initial_process)"
  shows "\<exists>i a b c. es = a @ b @ DogPoll i # c \<and>
    (let p = dog_run a initial_process; q = dog_run (a @ b) initial_process in
       i < length (dogs p) \<and> unheard i a b \<and> \<not> wd_stop (dogs q ! i) \<and>
       clock p + stall_timeout (wd_config (dogs q ! i)) \<le> clock q \<and>
       clock q + abort_delay (wd_config (dogs q ! i)) \<le> clock (dog_run es initial_process))"
proof -
  obtain i u where i: "i < length (dogs (dog_run es initial_process))"
    "wd_thread (dogs (dog_run es initial_process) ! i) = Dumping u" "u \<le> clock (dog_run es initial_process)"
    using aborted_history [OF assms] by blast
  obtain es1 c where c: "es = es1 @ DogPoll i # c" and st: "stall_seen i (dog_run es1 initial_process)"
    and u: "u = clock (dog_run es1 initial_process) +
      abort_delay (wd_config (dogs (dog_run es1 initial_process) ! i))"
    using dumping_history [OF i(1,2)] by blast
  from st obtain a b where ab: "es1 = a @ b" "i < length (dogs (dog_run a initial_process))"
    "clock (dog_run a initial_process) =
       last_beat_ms (wd_state (dogs (dog_run es1 initial_process) ! i))" "unheard i a b"
    using last_beat_history [of es1 i] by (auto simp: stall_seen_def)
  have "clock (dog_run a initial_process) \<le> clock (dog_run es1 initial_process)"
    using clock_mono_run by (simp add: ab(1) dog_run_append)
  then have "clock (dog_run a initial_process) +
      stall_timeout (wd_config (dogs (dog_run es1 initial_process) ! i)) \<le> clock (dog_run es1 initial_process)"
    using st ab(3) unfolding stall_seen_def by linarith
  with c st u i(3) ab have "es = a @ b @ DogPoll i # c \<and>
    (let p = dog_run a initial_process; q = dog_run (a @ b) initial_process in
       i < length (dogs p) \<and> unheard i a b \<and> \<not> wd_stop (dogs q ! i) \<and>
       clock p + stall_timeout (wd_config (dogs q ! i)) \<le> clock q \<and>
       clock q + abort_delay (wd_config (dogs q ! i)) \<le> clock (dog_run es initial_process))"
    by (simp add: stall_seen_def Let_def)
  then show ?thesis by blast
qed

section \<open>Overlapping analyses\<close>

text \<open>
  A watchdog that the global no longer points to never hears a beat again: every beat goes to the
  watchdog that was started last.
\<close>

lemma superseded_step:
  assumes "active_exists p" "i < length (dogs p)" "active_dog p \<noteq> Some i"
    and "e \<noteq> DogPoll i" "e \<noteq> DogDrop i"
  shows "active_dog (dog_step e p) \<noteq> Some i \<and> i < length (dogs (dog_step e p)) \<and>
    dogs (dog_step e p) ! i = dogs p ! i"
  using assms
  by (cases e) (auto simp: active_exists_def watchdog_start_def beat_def nth_append
      nth_list_update watchdog_drop_def watchdog_poll_def Let_def
      split: option.split dog_thread.split if_splits)

lemma superseded_run:
  assumes "active_exists p" "i < length (dogs p)" "active_dog p \<noteq> Some i"
    and "DogPoll i \<notin> set es" "DogDrop i \<notin> set es"
  shows "i < length (dogs (dog_run es p)) \<and> dogs (dog_run es p) ! i = dogs p ! i"
  using assms
proof (induction es arbitrary: p)
  case (Cons e es)
  then show ?case
    using superseded_step [of p i e] active_exists_step [of p e] by (cases "aborted p") auto
qed simp

text \<open>
  Overlapping analyses: once a second watchdog has been started (or the second analysis has
  ended and cleared the global), the heartbeats of the first analysis no longer reach its own
  watchdog. Whatever both analyses report, as soon as the stall timeout has passed on the clock
  the next polls of the first watchdog abort the process.
\<close>

theorem superseded_watchdog_aborts:
  assumes "q = dog_run es p" "p = dog_run before initial_process"
    and "i < length (dogs p)" "active_dog p \<noteq> Some i"
    and "wd_thread (dogs p ! i) = Polling" "\<not> wd_stop (dogs p ! i)"
    and "DogPoll i \<notin> set es" "DogDrop i \<notin> set es" "\<not> aborted q"
    and "stall_timeout (wd_config (dogs p ! i)) \<le> clock q - last_beat_ms (wd_state (dogs p ! i))"
  shows "aborted (dog_run [DogPoll i, Tick (abort_delay (wd_config (dogs p ! i))), DogPoll i] q)"
proof -
  have act: "active_exists p" unfolding assms(2) by (rule active_exists_reached)
  have q: "i < length (dogs q)" "dogs q ! i = dogs p ! i"
    using superseded_run [OF act assms(3,4,7,8)] by (simp_all add: assms(1))
  then show ?thesis using assms(5,6,9,10) by (simp add: watchdog_poll_def Let_def)
qed

definition overlapping_run :: "dog_event list" where
  "overlapping_run = [DogStart \<lparr>stall_timeout = 10, abort_delay = 2\<rparr>, DogBeat ''first'',
     DogStart \<lparr>stall_timeout = 10, abort_delay = 2\<rparr>, DogBeat ''second'']"

definition healthy_beats :: "dog_event list" where
  "healthy_beats = [Tick 5, DogBeat ''first'', DogBeat ''second'', Tick 5, DogBeat ''first'',
     DogBeat ''second'']"

theorem superseded_watchdog_aborts_witness:
  "aborted (dog_run (overlapping_run @ healthy_beats @ [DogPoll 0, Tick 2, DogPoll 0]) initial_process)"
proof -
  let ?p = "dog_run overlapping_run initial_process"
  have p: "length (dogs ?p) = 2" "active_dog ?p = Some 1" "wd_thread (dogs ?p ! 0) = Polling"
    "\<not> wd_stop (dogs ?p ! 0)" "wd_config (dogs ?p ! 0) = \<lparr>stall_timeout = 10, abort_delay = 2\<rparr>"
    "last_beat_ms (wd_state (dogs ?p ! 0)) = 0"
    by (simp_all add: overlapping_run_def initial_process_def watchdog_start_def
        beat_def beat_state_beat_def)
  have q: "\<not> aborted (dog_run healthy_beats ?p)" "clock (dog_run healthy_beats ?p) = 10"
    by (simp_all add: healthy_beats_def overlapping_run_def initial_process_def start_from_env_def
        watchdog_start_def beat_def beat_state_beat_def)
  from superseded_watchdog_aborts [OF refl refl, of 0 overlapping_run healthy_beats] p q
  have "aborted (dog_run [DogPoll 0, Tick 2, DogPoll 0] (dog_run healthy_beats ?p))"
    by (simp add: healthy_beats_def)
  then show ?thesis by (simp only: dog_run_append)
qed

theorem watchdog_aborts_after_stall_witness:
  "\<exists>i a b c. overlapping_run @ healthy_beats @ [DogPoll 0, Tick 2, DogPoll 0] = a @ b @ DogPoll i # c \<and>
     i < length (dogs (dog_run a initial_process)) \<and> unheard i a b"
proof -
  have "aborted (dog_run (overlapping_run @ healthy_beats @ [DogPoll 0, Tick 2, DogPoll 0]) initial_process)"
    by (simp add: healthy_beats_def overlapping_run_def initial_process_def start_from_env_def
        watchdog_start_def beat_def beat_state_beat_def watchdog_poll_def)
  from watchdog_aborts_after_stall [OF this] show ?thesis by (simp only: Let_def) blast
qed

end
