(* ===== verification/Ieee.thy ===== *)
theory Ieee
  imports Floats
begin

text \<open>
  The arithmetic of \<open>f32\<close> and \<open>f64\<close>: addition, subtraction, multiplication, division, negation,
  absolute value, \<open>min\<close>, \<open>max\<close>, \<open>clamp\<close> and the \<open>as\<close> casts of Rust, executable on the IEEE-754 bit
  patterns. A finite value is an integer number of units, the unit being the least subnormal
  (\<open>2 ^ -149\<close> and \<open>2 ^ -1074\<close>), so that the exact result of an operation is a quotient of naturals
  with a sign, and rounding to nearest with ties to even is integer arithmetic. The lemmas show
  that rounding is monotone and leaves representable values alone, from which every range of the
  programs' formulas follows. The payload of a NaN result is fixed here; the sources never read it.
\<close>

section \<open>Rounding\<close>

definition round_div :: "nat \<Rightarrow> nat \<Rightarrow> nat" where
  "round_div n d =
     (let q = n div d; r = n mod d in if 2 * r < d \<or> (2 * r = d \<and> even q) then q else Suc q)"

text \<open>The number of binary digits of \<open>q\<close> beyond the \<open>p + 1\<close> that a significand holds.\<close>

function shift_of :: "nat \<Rightarrow> nat \<Rightarrow> nat" where
  "shift_of p q =
     (if q < 2 ^ Suc p then 0
      else if 2 ^ (Suc p + 64) \<le> q then 64 + shift_of p (q div 2 ^ 64)
      else Suc (shift_of p (q div 2)))"
  by auto
termination
proof (relation "measure snd")
  fix p q :: nat
  assume "\<not> q < 2 ^ Suc p"
  then have "0 < q" using gr0I by fastforce
  then show "((p, q div 2 ^ 64), p, q) \<in> measure snd" "((p, q div 2), p, q) \<in> measure snd"
    by simp_all
qed simp

declare shift_of.simps [simp del]

text \<open>
  The bits below the sign of the value nearest to \<open>n / d\<close> units: the exponent field and the
  fraction are one number, so that a carry out of the fraction moves to the next exponent.
\<close>

definition round_bits :: "nat \<Rightarrow> nat \<Rightarrow> nat \<Rightarrow> nat \<Rightarrow> nat" where
  "round_bits p infb n d =
     (let k = shift_of p (n div d) in min infb (k * 2 ^ p + round_div n (d * 2 ^ k)))"

text \<open>The number of units of a magnitude.\<close>

definition units :: "nat \<Rightarrow> nat \<Rightarrow> nat" where
  "units p b =
     (let e = b div 2 ^ p; f = b mod 2 ^ p in if e = 0 then f else (2 ^ p + f) * 2 ^ (e - 1))"

lemma shift_of_spec:
  "q < 2 ^ (Suc p + shift_of p q) \<and> (0 < shift_of p q \<longrightarrow> 2 ^ (p + shift_of p q) \<le> q)"
proof (induction p q rule: shift_of.induct)
  case (1 p q)
  show ?case
  proof (cases "q < 2 ^ Suc p")
    case True then show ?thesis by (simp add: shift_of.simps [of p q])
  next
    case small: False
    show ?thesis
    proof (cases "2 ^ (Suc p + 64) \<le> q")
      case True
      let ?s = "shift_of p (q div 2 ^ 64)"
      have s: "shift_of p q = 64 + ?s" using small True by (simp add: shift_of.simps [of p q])
      have IH: "q div 2 ^ 64 < 2 ^ (Suc p + ?s)" "0 < ?s \<Longrightarrow> 2 ^ (p + ?s) \<le> q div 2 ^ 64"
        using "1.IH"(1) small True by blast+
      have "q < 2 ^ (Suc p + ?s) * 2 ^ 64" using IH(1) div_less_iff_less_mult [of "2 ^ 64" q] by simp
      moreover have "2 ^ (p + ?s) * 2 ^ 64 \<le> q"
      proof (cases "?s = 0")
        case True
        have "(2::nat) ^ p * 2 ^ 64 \<le> 2 ^ (Suc p + 64)" by (simp add: power_add)
        then show ?thesis using \<open>2 ^ (Suc p + 64) \<le> q\<close> True by simp
      next
        case False then show ?thesis using IH(2) less_eq_div_iff_mult_less_eq [of "2 ^ 64" _ q] by simp
      qed
      ultimately show ?thesis by (simp add: s power_add mult.assoc mult.commute mult.left_commute)
    next
      case False
      let ?s = "shift_of p (q div 2)"
      have s: "shift_of p q = Suc ?s" using small False by (simp add: shift_of.simps [of p q])
      have IH: "q div 2 < 2 ^ (Suc p + ?s)" "0 < ?s \<Longrightarrow> 2 ^ (p + ?s) \<le> q div 2"
        using "1.IH"(2) small False by blast+
      have "q < 2 ^ (Suc p + ?s) * 2" using IH(1) div_less_iff_less_mult [of 2 q] by simp
      moreover have "2 ^ (p + ?s) * 2 \<le> q"
        using IH(2) small by (cases "?s = 0") (auto simp: less_eq_div_iff_mult_less_eq)
      ultimately show ?thesis by (simp add: s mult.commute)
    qed
  qed
qed

lemma shift_of_less: "q < 2 ^ (Suc p + shift_of p q)"
  and shift_of_ge: "0 < shift_of p q \<Longrightarrow> 2 ^ (p + shift_of p q) \<le> q"
  using shift_of_spec by blast+

lemma shift_of_mono: "q \<le> q' \<Longrightarrow> shift_of p q \<le> shift_of p q'"
proof (rule ccontr)
  assume le: "q \<le> q'" and "\<not> shift_of p q \<le> shift_of p q'"
  then have lt: "shift_of p q' < shift_of p q" by simp
  then have "2 ^ (p + shift_of p q) \<le> q'" using shift_of_ge [of p q] le by simp
  moreover have "q' < 2 ^ (Suc p + shift_of p q')" by (rule shift_of_less)
  moreover have "(2::nat) ^ (Suc p + shift_of p q') \<le> 2 ^ (p + shift_of p q)"
    using lt by (intro power_increasing) auto
  ultimately show False by linarith
qed

lemma shift_of_unique:
  assumes "2 ^ (p + k) \<le> q" "q < 2 ^ (Suc p + k)"
  shows "shift_of p q = k"
proof (rule ccontr)
  assume "shift_of p q \<noteq> k"
  then consider "shift_of p q < k" | "k < shift_of p q" by linarith
  then show False
  proof cases
    case 1
    then have "(2::nat) ^ (Suc p + shift_of p q) \<le> 2 ^ (p + k)" by (intro power_increasing) auto
    then show ?thesis using assms shift_of_less [of q p] by linarith
  next
    case 2
    then have "(2::nat) ^ (Suc p + k) \<le> 2 ^ (p + shift_of p q)" by (intro power_increasing) auto
    then show ?thesis using assms shift_of_ge [of p q] 2 by linarith
  qed
qed

lemma div_cross_mono:
  fixes n n' d d' :: nat
  assumes "0 < d" "0 < d'" "n * d' \<le> n' * d"
  shows "n div d \<le> n' div d'"
proof -
  have "n div d * d * d' \<le> n * d'" by simp
  also have "\<dots> \<le> n' * d" by (rule assms(3))
  finally have "n div d * d' * d \<le> n' * d" by (simp add: ac_simps)
  then have "n div d * d' \<le> n'" using assms(1) by simp
  then show ?thesis using assms(2) by (simp add: less_eq_div_iff_mult_less_eq)
qed

lemma round_div_bounds: "n div d \<le> round_div n d \<and> round_div n d \<le> Suc (n div d)"
  by (simp add: round_div_def Let_def)

lemma round_div_mono:
  assumes pos: "0 < d" "0 < d'" and le: "n * d' \<le> n' * d"
  shows "round_div n d \<le> round_div n' d'"
proof (cases "n div d = n' div d'")
  case False
  then have "Suc (n div d) \<le> n' div d'" using div_cross_mono [OF pos le] by simp
  then show ?thesis using round_div_bounds [of n d] round_div_bounds [of n' d'] by linarith
next
  case q: True
  define r r' where "r = n mod d" and "r' = n' mod d'"
  have n: "n = n div d * d + r" "n' = n div d * d' + r'"
    by (metis r_def div_mult_mod_eq) (metis r'_def q div_mult_mod_eq)
  have "(n div d * d + r) * d' \<le> (n div d * d' + r') * d" using le n by metis
  then have le': "r * d' \<le> r' * d" by (simp add: algebra_simps)
  have up: "\<not> 2 * r' < d' \<and> (2 * r' = d' \<longrightarrow> 2 * r = d)" if "d \<le> 2 * r"
  proof (intro conjI impI)
    show "\<not> 2 * r' < d'"
    proof
      assume "2 * r' < d'"
      then have "2 * r' * d < d' * d" using pos by simp
      also have "\<dots> \<le> d' * (2 * r)" using that by simp
      finally have "r' * d < r * d'" by (simp add: ac_simps)
      then show False using le' by simp
    qed
    assume tie: "2 * r' = d'"
    have "2 * (r * d') \<le> 2 * (r' * d)" using le' by simp
    then have "d' * (2 * r) \<le> (2 * r') * d" by (simp add: ac_simps)
    then have "d' * (2 * r) \<le> d' * d" unfolding tie .
    then have "2 * r \<le> d" using pos(2) by simp
    then show "2 * r = d" using that by (rule order.antisym)
  qed
  have "round_div n d = (if 2 * r < d \<or> 2 * r = d \<and> even (n div d) then n div d else Suc (n div d))"
    unfolding round_div_def r_def Let_def ..
  moreover have "round_div n' d' =
      (if 2 * r' < d' \<or> 2 * r' = d' \<and> even (n div d) then n div d else Suc (n div d))"
    unfolding round_div_def r'_def Let_def q ..
  ultimately show ?thesis using up by (cases "d \<le> 2 * r") auto
qed

lemma round_div_mult [simp]: "0 < d \<Longrightarrow> round_div (c * d) d = c"
  by (simp add: round_div_def)

lemma round_div_one [simp]: "round_div n (Suc 0) = n" "round_div n 1 = n"
  by (simp_all add: round_div_def)

lemma round_div_le: "0 < d \<Longrightarrow> n \<le> c * d \<Longrightarrow> round_div n d \<le> c"
  using round_div_mono [of d d n "c * d"] by simp

lemma round_div_ge: "0 < d \<Longrightarrow> c * d \<le> n \<Longrightarrow> c \<le> round_div n d"
  using round_div_mono [of d d "c * d" n] by simp

text \<open>A shifted significand stays within its digits, up to the carry.\<close>

lemma significand_bounds:
  assumes "0 < d" and k: "k = shift_of p (n div d)"
  shows "round_div n (d * 2 ^ k) \<le> 2 ^ Suc p" "0 < k \<Longrightarrow> 2 ^ p \<le> round_div n (d * 2 ^ k)"
proof -
  have "n div d < 2 ^ (Suc p + k)" using shift_of_less k by simp
  then have "n < 2 ^ (Suc p + k) * d" using assms(1) by (simp add: div_less_iff_less_mult)
  then show "round_div n (d * 2 ^ k) \<le> 2 ^ Suc p"
    using assms(1) by (intro round_div_le) (simp_all add: power_add ac_simps)
  show "2 ^ p \<le> round_div n (d * 2 ^ k)" if "0 < k"
  proof -
    have "2 ^ (p + k) \<le> n div d" using shift_of_ge that k by simp
    then have "2 ^ (p + k) * d \<le> n" using assms(1) by (simp add: less_eq_div_iff_mult_less_eq)
    then show ?thesis using assms(1) by (intro round_div_ge) (simp_all add: power_add ac_simps)
  qed
qed

text \<open>Rounding is monotone.\<close>

lemma round_bits_mono:
  assumes pos: "0 < d" "0 < d'" and le: "n * d' \<le> n' * d"
  shows "round_bits p infb n d \<le> round_bits p infb n' d'"
proof -
  define k k' where "k = shift_of p (n div d)" and "k' = shift_of p (n' div d')"
  have "k \<le> k'" unfolding k_def k'_def by (intro shift_of_mono div_cross_mono pos le)
  moreover have "k * 2 ^ p + round_div n (d * 2 ^ k) \<le> k' * 2 ^ p + round_div n' (d' * 2 ^ k')"
  proof (cases "k = k'")
    case True
    have "n * (d' * 2 ^ k) \<le> n' * (d * 2 ^ k)" using le by (simp add: mult.assoc [symmetric])
    then show ?thesis using True pos by (simp add: round_div_mono)
  next
    case False
    with \<open>k \<le> k'\<close> obtain j where k': "k' = Suc (k + j)" using less_imp_Suc_add by (metis nat_less_le)
    have "round_div n (d * 2 ^ k) \<le> 2 * 2 ^ p" "2 ^ p \<le> round_div n' (d' * 2 ^ k')"
      using significand_bounds(1) [OF pos(1) k_def] significand_bounds(2) [OF pos(2) k'_def] k' by auto
    then show ?thesis unfolding k' by (simp add: algebra_simps)
  qed
  ultimately show ?thesis unfolding round_bits_def Let_def k_def k'_def by (simp add: min.coboundedI2 min_def)
qed

text \<open>A magnitude has as many units as its bits say, and rounding them gives the bits back.\<close>

lemma round_bits_units: "round_bits p infb (units p b) (Suc 0) = min infb b"
proof -
  define e f where "e = b div 2 ^ p" and "f = b mod 2 ^ p"
  have b: "b = e * 2 ^ p + f" and f: "f < 2 ^ p"
    by (metis e_def f_def div_mult_mod_eq) (simp add: f_def)
  show ?thesis
  proof (cases "e \<le> 1")
    case True
    have "units p b = (if e = 0 then f else (2 ^ p + f) * 2 ^ (e - 1))"
      by (simp add: units_def e_def f_def Let_def)
    moreover have "e = 0 \<or> e = 1" using True by linarith
    ultimately have u: "units p b = b" using b by auto
    have "e * 2 ^ p \<le> 1 * 2 ^ p" using True by (intro mult_le_mono1)
    then have "b < 2 ^ Suc p" unfolding power_Suc using b f by linarith
    then have "shift_of p b = 0" by (subst shift_of.simps) simp
    then show ?thesis by (simp add: round_bits_def u)
  next
    case False
    define k where "k = e - 1"
    have k: "0 < k" "e = Suc k" using False by (simp_all add: k_def)
    have u: "units p b = (2 ^ p + f) * 2 ^ k"
      using k by (simp add: units_def Let_def e_def [symmetric] f_def [symmetric])
    have "2 ^ (p + k) \<le> (2 ^ p + f) * 2 ^ k" by (simp add: power_add)
    moreover have "(2 ^ p + f) * 2 ^ k < 2 ^ (Suc p + k)" using f by (simp add: power_add)
    ultimately have "shift_of p (units p b) = k" unfolding u by (rule shift_of_unique)
    then have "round_bits p infb (units p b) (Suc 0) = min infb (k * 2 ^ p + (2 ^ p + f))"
      by (simp add: round_bits_def u)
    also have "k * 2 ^ p + (2 ^ p + f) = b" by (simp add: b k(2))
    finally show ?thesis .
  qed
qed

lemma units_less_iff [simp]: "units p a < units p b \<longleftrightarrow> a < b"
proof -
  have mono: "a \<le> b" if "units p a \<le> units p b" for a b
    using round_bits_mono [of 1 1 "units p a" "units p b" p "max a b"] that
    by (simp add: round_bits_units)
  then show ?thesis by (metis leD leI nle_le)
qed

lemma units_le_iff [simp]: "units p a \<le> units p b \<longleftrightarrow> a \<le> b"
  by (metis linorder_not_le units_less_iff)

lemma units_0 [simp]: "units p 0 = 0" by (simp add: units_def)

lemma round_bits_bounds:
  assumes "0 < d"
  shows "units p a * d \<le> n \<Longrightarrow> min infb a \<le> round_bits p infb n d"
    and "n \<le> units p a * d \<Longrightarrow> round_bits p infb n d \<le> min infb a"
  using round_bits_mono [of 1 d "units p a" n p infb] round_bits_mono [of d 1 n "units p a" p infb] assms
  by (simp_all add: round_bits_units)

lemma round_bits_exact:
  assumes "0 < d"
  shows "round_bits p infb (units p b * d) d = min infb b"
  by (rule antisym [OF round_bits_bounds(2) round_bits_bounds(1)]) (use assms in simp_all)

lemma round_bits_le_top: "round_bits p infb n d \<le> infb"
  by (simp add: round_bits_def Let_def)

section \<open>Exact results\<close>

datatype number = Nan | Infinite bool | Finite bool nat

datatype exact = Exact_nan | Exact_infinite bool | Exact bool nat nat

definition signed_units :: "bool \<Rightarrow> nat \<Rightarrow> int" where
  "signed_units s m = (if s then - int m else int m)"

fun exact_add :: "number \<Rightarrow> number \<Rightarrow> exact" where
  "exact_add Nan y = Exact_nan"
| "exact_add (Infinite s) Nan = Exact_nan"
| "exact_add (Infinite s) (Infinite t) = (if s = t then Exact_infinite s else Exact_nan)"
| "exact_add (Infinite s) (Finite t n) = Exact_infinite s"
| "exact_add (Finite s m) Nan = Exact_nan"
| "exact_add (Finite s m) (Infinite t) = Exact_infinite t"
| "exact_add (Finite s m) (Finite t n) =
     (let v = signed_units s m + signed_units t n in
      Exact (if v = 0 then s \<and> t else v < 0) (nat \<bar>v\<bar>) 1)"

text \<open>\<open>one\<close> is the number of units of 1.\<close>

fun exact_mul :: "nat \<Rightarrow> number \<Rightarrow> number \<Rightarrow> exact" where
  "exact_mul one Nan y = Exact_nan"
| "exact_mul one (Infinite s) Nan = Exact_nan"
| "exact_mul one (Infinite s) (Infinite t) = Exact_infinite (s \<noteq> t)"
| "exact_mul one (Infinite s) (Finite t n) = (if n = 0 then Exact_nan else Exact_infinite (s \<noteq> t))"
| "exact_mul one (Finite s m) Nan = Exact_nan"
| "exact_mul one (Finite s m) (Infinite t) = (if m = 0 then Exact_nan else Exact_infinite (s \<noteq> t))"
| "exact_mul one (Finite s m) (Finite t n) = Exact (s \<noteq> t) (m * n) one"

fun exact_div :: "nat \<Rightarrow> number \<Rightarrow> number \<Rightarrow> exact" where
  "exact_div one Nan y = Exact_nan"
| "exact_div one (Infinite s) Nan = Exact_nan"
| "exact_div one (Infinite s) (Infinite t) = Exact_nan"
| "exact_div one (Infinite s) (Finite t n) = Exact_infinite (s \<noteq> t)"
| "exact_div one (Finite s m) Nan = Exact_nan"
| "exact_div one (Finite s m) (Infinite t) = Exact (s \<noteq> t) 0 1"
| "exact_div one (Finite s m) (Finite t n) =
     (if n = 0 then (if m = 0 then Exact_nan else Exact_infinite (s \<noteq> t))
      else Exact (s \<noteq> t) (m * one) n)"

definition number_of_bits :: "nat \<Rightarrow> nat \<Rightarrow> bool \<Rightarrow> nat \<Rightarrow> number" where
  "number_of_bits p infb s b =
     (if infb < b then Nan else if b = infb then Infinite s else Finite s (units p b))"

section \<open>Single precision\<close>

abbreviation (input) f32_infinity_bits :: nat where "f32_infinity_bits \<equiv> 0x7F800000"

definition f32_number :: "f32 \<Rightarrow> number" where
  "f32_number x = number_of_bits 23 f32_infinity_bits (f32_negative x) (unat (f32_magnitude x))"

definition f32_pack :: "bool \<Rightarrow> nat \<Rightarrow> f32" where
  "f32_pack s b = word_of_nat (if s then 2 ^ 31 + b else b)"

definition f32_nan :: f32 where "f32_nan = 0x7FC00000"

fun f32_round :: "exact \<Rightarrow> f32" where
  "f32_round Exact_nan = f32_nan"
| "f32_round (Exact_infinite s) = f32_pack s f32_infinity_bits"
| "f32_round (Exact s n d) = f32_pack s (round_bits 23 f32_infinity_bits n d)"

definition f32_neg :: "f32 \<Rightarrow> f32" where "f32_neg x = x XOR 0x80000000"

definition f32_abs :: "f32 \<Rightarrow> f32" where "f32_abs x = f32_magnitude x"

abbreviation (input) f32_units_of_one :: nat where "f32_units_of_one \<equiv> 2 ^ 149"

definition f32_add :: "f32 \<Rightarrow> f32 \<Rightarrow> f32" where
  "f32_add a b = f32_round (exact_add (f32_number a) (f32_number b))"

definition f32_sub :: "f32 \<Rightarrow> f32 \<Rightarrow> f32" where
  "f32_sub a b = f32_add a (f32_neg b)"

definition f32_mul :: "f32 \<Rightarrow> f32 \<Rightarrow> f32" where
  "f32_mul a b = f32_round (exact_mul f32_units_of_one (f32_number a) (f32_number b))"

definition f32_div :: "f32 \<Rightarrow> f32 \<Rightarrow> f32" where
  "f32_div a b = f32_round (exact_div f32_units_of_one (f32_number a) (f32_number b))"

definition f32_of_nat :: "nat \<Rightarrow> f32" where
  "f32_of_nat n = f32_round (Exact False (n * f32_units_of_one) 1)"

definition f32_max :: "f32 \<Rightarrow> f32 \<Rightarrow> f32" where
  "f32_max a b = (if f32_is_nan a then b else if f32_is_nan b then a else if f32_less a b then b else a)"

definition f32_min :: "f32 \<Rightarrow> f32 \<Rightarrow> f32" where
  "f32_min a b = (if f32_is_nan a then b else if f32_is_nan b then a else if f32_less b a then b else a)"

definition f32_clamp :: "f32 \<Rightarrow> f32 \<Rightarrow> f32 \<Rightarrow> f32" where
  "f32_clamp lo hi v = (if f32_less v lo then lo else if f32_less hi v then hi else v)"

section \<open>Double precision\<close>

definition f64_is_nan :: "f64 \<Rightarrow> bool" where
  "f64_is_nan x \<longleftrightarrow> 0x7FF0000000000000 < f64_magnitude x"

abbreviation (input) f64_infinity_bits :: nat where "f64_infinity_bits \<equiv> 0x7FF0000000000000"

definition f64_number :: "f64 \<Rightarrow> number" where
  "f64_number x = number_of_bits 52 f64_infinity_bits (bit x 63) (unat (f64_magnitude x))"

definition f64_pack :: "bool \<Rightarrow> nat \<Rightarrow> f64" where
  "f64_pack s b = word_of_nat (if s then 2 ^ 63 + b else b)"

definition f64_nan :: f64 where "f64_nan = 0x7FF8000000000000"

fun f64_round :: "exact \<Rightarrow> f64" where
  "f64_round Exact_nan = f64_nan"
| "f64_round (Exact_infinite s) = f64_pack s f64_infinity_bits"
| "f64_round (Exact s n d) = f64_pack s (round_bits 52 f64_infinity_bits n d)"

definition f64_neg :: "f64 \<Rightarrow> f64" where "f64_neg x = x XOR 0x8000000000000000"

definition f64_abs :: "f64 \<Rightarrow> f64" where "f64_abs x = f64_magnitude x"

abbreviation (input) f64_units_of_one :: nat where "f64_units_of_one \<equiv> 2 ^ 1074"

definition f64_add :: "f64 \<Rightarrow> f64 \<Rightarrow> f64" where
  "f64_add a b = f64_round (exact_add (f64_number a) (f64_number b))"

definition f64_sub :: "f64 \<Rightarrow> f64 \<Rightarrow> f64" where
  "f64_sub a b = f64_add a (f64_neg b)"

definition f64_mul :: "f64 \<Rightarrow> f64 \<Rightarrow> f64" where
  "f64_mul a b = f64_round (exact_mul f64_units_of_one (f64_number a) (f64_number b))"

definition f64_div :: "f64 \<Rightarrow> f64 \<Rightarrow> f64" where
  "f64_div a b = f64_round (exact_div f64_units_of_one (f64_number a) (f64_number b))"

definition f64_of_nat :: "nat \<Rightarrow> f64" where
  "f64_of_nat n = f64_round (Exact False (n * f64_units_of_one) 1)"

definition f64_max :: "f64 \<Rightarrow> f64 \<Rightarrow> f64" where
  "f64_max a b = (if f64_is_nan a then b else if f64_is_nan b then a else if f64_less a b then b else a)"

definition f64_min :: "f64 \<Rightarrow> f64 \<Rightarrow> f64" where
  "f64_min a b = (if f64_is_nan a then b else if f64_is_nan b then a else if f64_less b a then b else a)"

definition f64_clamp :: "f64 \<Rightarrow> f64 \<Rightarrow> f64 \<Rightarrow> f64" where
  "f64_clamp lo hi v = (if f64_less v lo then lo else if f64_less hi v then hi else v)"

text \<open>The casts \<open>f32 as f64\<close> (exact) and \<open>f64 as f32\<close> (rounding): units differ by a power of two.\<close>

definition f64_of_f32 :: "f32 \<Rightarrow> f64" where
  "f64_of_f32 x =
     (case f32_number x of
        Nan \<Rightarrow> f64_nan
      | Infinite s \<Rightarrow> f64_round (Exact_infinite s)
      | Finite s m \<Rightarrow> f64_round (Exact s (m * 2 ^ 925) 1))"

definition f32_of_f64 :: "f64 \<Rightarrow> f32" where
  "f32_of_f64 x =
     (case f64_number x of
        Nan \<Rightarrow> f32_nan
      | Infinite s \<Rightarrow> f32_round (Exact_infinite s)
      | Finite s m \<Rightarrow> f32_round (Exact s m (2 ^ 925)))"

text \<open>The casts \<open>f64 as u64\<close> and \<open>f64 as usize\<close>: truncation towards zero, saturating, 0 for a NaN.\<close>

definition nat_of_f64 :: "nat \<Rightarrow> f64 \<Rightarrow> nat" where
  "nat_of_f64 most x =
     (case f64_number x of
        Nan \<Rightarrow> 0
      | Infinite s \<Rightarrow> if s then 0 else most
      | Finite s m \<Rightarrow> if s then 0 else min most (m div f64_units_of_one))"

section \<open>Bits of a packed value\<close>

lemma f32_pack_magnitude: "b < 2 ^ 31 \<Longrightarrow> unat (f32_magnitude (f32_pack s b)) = b"
  unfolding magnitude_take_bit f32_pack_def unsigned_take_bit_eq unsigned_of_nat
  by (simp add: take_bit_eq_mod)

lemma bit_word_of_nat: "bit (word_of_nat n :: 'a::len word) k \<longleftrightarrow> k < LENGTH('a) \<and> bit n k"
  by transfer (simp add: bit_take_bit_iff bit_of_nat_iff_bit)

lemma f32_pack_negative [simp]: "b < 2 ^ 31 \<Longrightarrow> f32_negative (f32_pack s b) = s"
  unfolding f32_pack_def f32_negative_def bit_word_of_nat by (simp add: bit_iff_odd div_add_self1)

lemma f64_magnitude_take_bit: "f64_magnitude x = take_bit 63 x"
  by (simp add: f64_magnitude_def take_bit_eq_mask mask_numeral)

lemma f64_pack_magnitude: "b < 2 ^ 63 \<Longrightarrow> unat (f64_magnitude (f64_pack s b)) = b"
  unfolding f64_magnitude_take_bit f64_pack_def unsigned_take_bit_eq unsigned_of_nat
  by (simp add: take_bit_eq_mod)

lemma f64_pack_negative [simp]: "b < 2 ^ 63 \<Longrightarrow> bit (f64_pack s b) 63 = s"
  unfolding f64_pack_def bit_word_of_nat by (simp add: bit_iff_odd div_add_self1)

section \<open>What the operations return\<close>

lemma units_eq_0_iff [simp]: "units p b = 0 \<longleftrightarrow> b = 0"
  using units_less_iff [of p 0 b] by auto

lemma signed_units_less_iff:
  "signed_units s (units p a) < signed_units t (units p b) \<longleftrightarrow> signed_units s a < signed_units t b"
proof -
  have "0 < units p b \<longleftrightarrow> 0 < b" "0 < units p a \<longleftrightarrow> 0 < a"
    using units_less_iff [of p 0] by simp_all
  then have "- int (units p a) < int (units p b) \<longleftrightarrow> - int a < int b" by linarith
  then show ?thesis by (simp add: signed_units_def)
qed

lemma top_bits: "round_bits 23 f32_infinity_bits n d < 2 ^ 31"
    "round_bits 52 f64_infinity_bits n d < 2 ^ 63"
  using round_bits_le_top [of 23 f32_infinity_bits n d] round_bits_le_top [of 52 f64_infinity_bits n d]
  by simp_all

subsection \<open>Single precision\<close>

lemma f32_pack_rank: "b < 2 ^ 31 \<Longrightarrow> f32_rank (f32_pack s b) = signed_units s b"
  using f32_pack_magnitude [of b s] unfolding f32_rank_def signed_units_def
  by (metis f32_pack_negative int_eq_iff of_nat_unat)

lemma f32_nan_iff: "f32_is_nan x \<longleftrightarrow> f32_infinity_bits < unat (f32_magnitude x)"
  by (simp add: f32_is_nan_def word_less_nat_alt)

lemma f32_pack_nan_iff: "b < 2 ^ 31 \<Longrightarrow> f32_is_nan (f32_pack s b) \<longleftrightarrow> f32_infinity_bits < b"
  using f32_pack_magnitude [of b s] by (simp add: f32_nan_iff)

lemma f32_number_nan_iff: "f32_number x = Nan \<longleftrightarrow> f32_is_nan x"
  by (simp add: f32_number_def number_of_bits_def f32_nan_iff)

lemma f32_round_nan_iff [simp]: "f32_is_nan (f32_round e) \<longleftrightarrow> e = Exact_nan"
  using top_bits(1) round_bits_le_top [of 23 f32_infinity_bits]
  by (cases e) (simp_all add: f32_pack_nan_iff not_less, simp add: f32_nan_def f32_is_nan_def f32_magnitude_def)

lemma f32_round_rank:
  "f32_rank (f32_round (Exact s n d)) = signed_units s (round_bits 23 f32_infinity_bits n d)"
  using f32_pack_rank [OF top_bits(1)] by simp

lemma f32_rank_units: "f32_rank x = signed_units (f32_negative x) (unat (f32_magnitude x))"
  by (simp add: f32_rank_def signed_units_def)

lemma f32_finiteD:
  assumes "f32_number x = Finite s m"
  shows "\<not> f32_is_nan x" "s = f32_negative x" "m = units 23 (unat (f32_magnitude x))"
    "unat (f32_magnitude x) < f32_infinity_bits"
  using assms by (auto simp: f32_number_def number_of_bits_def f32_nan_iff split: if_splits)

lemma f32_less_units:
  assumes "f32_number a = Finite s m" "f32_number b = Finite t n"
  shows "f32_less a b \<longleftrightarrow> signed_units s m < signed_units t n"
  using f32_finiteD [OF assms(1)] f32_finiteD [OF assms(2)]
  by (simp add: f32_less_def f32_rank_units signed_units_less_iff)

lemma f32_finite_number: "f32_is_finite x \<longleftrightarrow> (\<exists>s m. f32_number x = Finite s m)"
proof -
  have "f32_exponent x = drop_bit 23 (f32_magnitude x)"
    by (rule bit_word_eqI) (auto simp: f32_magnitude_def f32_exponent_def bit_simps bit_numeral_rec)
  then have e: "unat (f32_exponent x) = unat (f32_magnitude x) div 2 ^ 23"
    by (simp add: drop_bit_eq_div unat_div_distrib)
  have "unat (f32_magnitude x) < 2 ^ 31"
    unfolding magnitude_take_bit unsigned_take_bit_eq by (simp add: take_bit_eq_mod)
  then have "unat (f32_magnitude x) < f32_infinity_bits \<longleftrightarrow> unat (f32_magnitude x) div 2 ^ 23 \<noteq> 255"
    by auto
  moreover have "f32_is_finite x \<longleftrightarrow> unat (f32_exponent x) \<noteq> 255"
    by (simp add: f32_is_finite_def word_unat_eq_iff)
  ultimately show ?thesis by (auto simp: e f32_number_def number_of_bits_def split: if_splits)
qed

lemma exact_add_nan_iff:
  "exact_add x y = Exact_nan \<longleftrightarrow> x = Nan \<or> y = Nan \<or> (\<exists>s. x = Infinite s \<and> y = Infinite (\<not> s))"
  by (cases x; cases y) (auto simp: Let_def)

lemma exact_mul_nan_iff:
  "exact_mul one x y = Exact_nan \<longleftrightarrow> x = Nan \<or> y = Nan \<or>
     (\<exists>s t. (x = Infinite s \<and> y = Finite t 0) \<or> (x = Finite t 0 \<and> y = Infinite s))"
  by (cases x; cases y) auto

lemma f32_add_nan_iff:
  "f32_is_nan (f32_add a b) \<longleftrightarrow> f32_is_nan a \<or> f32_is_nan b \<or>
     (\<exists>s. f32_number a = Infinite s \<and> f32_number b = Infinite (\<not> s))"
  by (simp add: f32_add_def exact_add_nan_iff f32_number_nan_iff)

lemma f32_mul_nan_iff:
  "f32_is_nan (f32_mul a b) \<longleftrightarrow> f32_is_nan a \<or> f32_is_nan b \<or>
     (\<exists>s t. (f32_number a = Infinite s \<and> f32_number b = Finite t 0) \<or>
            (f32_number a = Finite t 0 \<and> f32_number b = Infinite s))"
  by (simp add: f32_mul_def exact_mul_nan_iff f32_number_nan_iff)

lemma f32_number_pack: "b < 2 ^ 31 \<Longrightarrow> f32_number (f32_pack s b) = number_of_bits 23 f32_infinity_bits s b"
  using f32_pack_magnitude [of b s] by (simp add: f32_number_def)

lemma f32_number_one: "f32_number f32_one = Finite False f32_units_of_one"
  by (simp add: f32_number_def number_of_bits_def f32_negative_def f32_magnitude_def units_def f32_one_def)

text \<open>Scaling a finite value by a factor of at most 1 keeps it finite.\<close>

lemma f32_scale_finite:
  assumes a: "f32_number a = Finite s m" "m \<le> f32_units_of_one" and x: "f32_number x = Finite t n"
  obtains u k where "f32_number (f32_mul a x) = Finite u k" "k \<le> n"
proof -
  define b where "b = round_bits 23 f32_infinity_bits (m * n) f32_units_of_one"
  note n = f32_finiteD [OF x]
  have "m * n \<le> units 23 (unat (f32_magnitude x)) * f32_units_of_one"
    using a(2) n(3) by (simp add: mult.commute)
  then have b: "b \<le> unat (f32_magnitude x)"
    unfolding b_def using round_bits_bounds(2) [of f32_units_of_one "m * n" 23 _ f32_infinity_bits] n(4) by simp
  moreover have "f32_mul a x = f32_pack (s \<noteq> t) b" by (simp add: f32_mul_def a(1) x b_def)
  ultimately have "f32_number (f32_mul a x) = Finite (s \<noteq> t) (units 23 b)"
    using n(4) f32_number_pack [of b "s \<noteq> t"] by (simp add: number_of_bits_def)
  then show ?thesis using that b n(3) by simp
qed

lemma f32_clamp_rank:
  assumes "\<not> f32_is_nan v" "\<not> f32_is_nan lo" "\<not> f32_is_nan hi" "f32_rank lo \<le> f32_rank hi"
  shows "\<not> f32_is_nan (f32_clamp lo hi v)" "f32_rank lo \<le> f32_rank (f32_clamp lo hi v)"
    "f32_rank (f32_clamp lo hi v) \<le> f32_rank hi"
  using assms by (auto simp: f32_clamp_def f32_less_def)

lemmas f32_eval = f32_number_def number_of_bits_def f32_negative_def f32_magnitude_def units_def
  f32_pack_def f32_nan_def round_bits_def round_div_def signed_units_def Let_def shift_of.simps
  f32_add_def f32_sub_def f32_neg_def f32_mul_def f32_div_def

lemma f32_mul_commute: "f32_mul a b = f32_mul b a"
proof -
  have "exact_mul one x y = exact_mul one y x" for one x y
    by (cases x; cases y) (auto simp: mult.commute)
  then show ?thesis by (simp add: f32_mul_def)
qed

lemma f32_abs_number: "f32_number x = Finite s m \<Longrightarrow> f32_number (f32_abs x) = Finite False m"
  by (auto simp: f32_number_def number_of_bits_def f32_abs_def magnitude_take_bit f32_negative_def
      bit_take_bit_iff split: if_splits)

subsection \<open>Values that are not negative\<close>

definition f32_unsigned :: "f32 \<Rightarrow> bool" where
  "f32_unsigned x \<longleftrightarrow> f32_is_nan x \<or> \<not> f32_negative x"

lemma f32_unsigned_not_less: "f32_unsigned x \<Longrightarrow> \<not> f32_less x f32_zero"
  by (auto simp: f32_unsigned_def f32_less_def f32_rank_units [of x] signed_units_def)

lemma f32_unsigned_number:
  "f32_unsigned x \<longleftrightarrow> (\<forall>s m. (f32_number x = Finite s m \<or> f32_number x = Infinite s) \<longrightarrow> \<not> s)"
  by (auto simp: f32_unsigned_def f32_number_def number_of_bits_def f32_nan_iff)

lemma f32_unsigned_round:
  "(\<And>s n d. e = Exact s n d \<or> e = Exact_infinite s \<Longrightarrow> \<not> s) \<Longrightarrow> f32_unsigned (f32_round e)"
  using top_bits(1) f32_round_nan_iff [of Exact_nan] by (cases e) (auto simp: f32_unsigned_def)

lemma f32_unsigned_ops [intro]:
  "f32_unsigned a \<Longrightarrow> f32_unsigned b \<Longrightarrow> f32_unsigned (f32_add a b)"
  "f32_unsigned a \<Longrightarrow> f32_unsigned b \<Longrightarrow> f32_unsigned (f32_mul a b)"
  "f32_unsigned a \<Longrightarrow> f32_unsigned b \<Longrightarrow> f32_unsigned (f32_div a b)"
  "f32_unsigned a \<Longrightarrow> f32_unsigned b \<Longrightarrow> f32_unsigned (f32_max a b)"
  "f32_unsigned (f32_abs c)" "f32_unsigned (f32_of_nat n)"
proof -
  assume ab: "f32_unsigned a" "f32_unsigned b"
  show "f32_unsigned (f32_add a b)" unfolding f32_add_def
    by (rule f32_unsigned_round, cases "f32_number a"; cases "f32_number b")
      (use ab in \<open>auto simp: f32_unsigned_number signed_units_def Let_def split: if_splits\<close>)
  show "f32_unsigned (f32_mul a b)" unfolding f32_mul_def
    by (rule f32_unsigned_round, cases "f32_number a"; cases "f32_number b")
      (use ab in \<open>auto simp: f32_unsigned_number split: if_splits\<close>)
  show "f32_unsigned (f32_div a b)" unfolding f32_div_def
    by (rule f32_unsigned_round, cases "f32_number a"; cases "f32_number b")
      (use ab in \<open>auto simp: f32_unsigned_number split: if_splits\<close>)
  show "f32_unsigned (f32_max a b)" using ab by (simp add: f32_max_def)
next
  show "f32_unsigned (f32_abs c)"
    by (simp add: f32_unsigned_def f32_abs_def f32_negative_def magnitude_take_bit bit_take_bit_iff)
  show "f32_unsigned (f32_of_nat n)" unfolding f32_of_nat_def by (rule f32_unsigned_round) auto
qed

lemma f32_unsigned_constants [simp, intro]: "f32_unsigned f32_zero" "f32_unsigned f32_one"
  by (simp_all add: f32_unsigned_def f32_negative_def f32_zero_def f32_one_def)

subsection \<open>Results that are at least an operand\<close>

lemma f32_pack_number: "f32_pack (f32_negative x) (unat (f32_magnitude x)) = x"
proof (rule bit_word_eqI)
  fix k assume "k < LENGTH(32)"
  moreover have "bit (unat (f32_magnitude x)) k \<longleftrightarrow> k < 31 \<and> bit x k"
    by (auto simp: magnitude_take_bit bit_unsigned_iff bit_take_bit_iff)
  moreover have "unat (f32_magnitude x) < 2 ^ 31"
    unfolding magnitude_take_bit unsigned_take_bit_eq by (simp add: take_bit_eq_mod)
  then have "f32_magnitude (f32_pack s (unat (f32_magnitude x))) = f32_magnitude x"
    "f32_negative (f32_pack s (unat (f32_magnitude x))) = s" for s
    using f32_pack_magnitude f32_pack_negative by (simp_all add: word_unat_eq_iff)
  then have "bit (f32_pack (f32_negative x) (unat (f32_magnitude x))) k = bit x k" if "k < 31" "k < 32" for k
    using that by (metis bit_take_bit_iff magnitude_take_bit)
  moreover have "bit (f32_pack (f32_negative x) (unat (f32_magnitude x))) 31 = bit x 31"
    using \<open>\<And>s. f32_negative (f32_pack s (unat (f32_magnitude x))) = s\<close> by (simp add: f32_negative_def)
  ultimately show "bit (f32_pack (f32_negative x) (unat (f32_magnitude x))) k = bit x k"
    by (cases "k = 31") auto
qed

lemma f32_round_number:
  assumes "f32_number x = Finite s m" "0 < d"
  shows "f32_round (Exact s (m * d) d) = x"
  using f32_finiteD [OF assms(1)] f32_pack_number [of x]
  by (simp add: round_bits_exact [OF assms(2)] min_def)

text \<open>\<open>grows x y\<close>: \<open>y\<close> is a number, not negative, and at least the number \<open>x\<close>.\<close>

definition f32_grows :: "f32 \<Rightarrow> f32 \<Rightarrow> bool" where
  "f32_grows x y \<longleftrightarrow> (case (f32_number x, f32_number y) of
     (Finite s m, Finite t n) \<Rightarrow> \<not> s \<and> \<not> t \<and> m \<le> n
   | (Finite s m, Infinite t) \<Rightarrow> \<not> s \<and> \<not> t
   | (Infinite s, Infinite t) \<Rightarrow> \<not> s \<and> \<not> t
   | _ \<Rightarrow> False)"

lemma f32_grows_round:
  assumes "f32_number x = Finite False m" "0 < d" "m * d \<le> n"
  shows "f32_grows x (f32_round (Exact False n d))"
proof -
  note f = f32_finiteD [OF assms(1)]
  have "unat (f32_magnitude x) \<le> round_bits 23 f32_infinity_bits n d"
    using round_bits_bounds(1) [OF assms(2), of 23 "unat (f32_magnitude x)" n f32_infinity_bits] f assms(3)
    by (simp add: min_def)
  moreover have "round_bits 23 f32_infinity_bits n d \<le> f32_infinity_bits" by (rule round_bits_le_top)
  ultimately show ?thesis using f
    by (simp add: f32_grows_def assms(1) f32_number_pack [OF top_bits(1)] number_of_bits_def)
qed

lemma f32_grows_trans: "f32_grows x y \<Longrightarrow> f32_grows y z \<Longrightarrow> f32_grows x z"
  by (auto simp: f32_grows_def split: number.splits)

lemma f32_grows_add:
  assumes "f32_number x = Finite False m" "f32_unsigned y" "\<not> f32_is_nan y"
  shows "f32_grows x (f32_add x y)"
proof (cases "f32_number y")
  case Nan
  then show ?thesis using assms(3) by (simp add: f32_number_nan_iff)
next
  case (Infinite s)
  then have "\<not> s" using assms(2) by (auto simp: f32_unsigned_number)
  then show ?thesis using Infinite assms(1)
    by (simp add: f32_add_def f32_grows_def f32_number_pack number_of_bits_def)
next
  case (Finite s n)
  then have "\<not> s" using assms(2) by (auto simp: f32_unsigned_number)
  then have "f32_add x y = f32_round (Exact False (m + n) 1)"
    using Finite assms(1) by (auto simp: f32_add_def signed_units_def Let_def nat_add_distrib)
  then show ?thesis using f32_grows_round [OF assms(1), of 1 "m + n"] by simp
qed

definition f32_above_zero :: "f32 \<Rightarrow> bool" where
  "f32_above_zero x \<longleftrightarrow> (case f32_number x of Nan \<Rightarrow> False | Infinite s \<Rightarrow> \<not> s | Finite s m \<Rightarrow> \<not> s \<and> 0 < m)"

lemma f32_grows_above: "f32_above_zero x \<Longrightarrow> f32_grows x y \<Longrightarrow> f32_above_zero y"
  by (auto simp: f32_above_zero_def f32_grows_def split: number.splits)

lemma f32_grows_mul:
  assumes "f32_above_zero x" "f32_grows f32_one y"
  shows "f32_grows x (f32_mul x y)"
proof -
  from assms(2) consider n where "f32_number y = Finite False n" "f32_units_of_one \<le> n"
    | "f32_number y = Infinite False"
    by (auto simp: f32_grows_def f32_number_one split: number.splits)
  then show ?thesis
  proof cases
    case (1 n)
    show ?thesis
    proof (cases "f32_number x")
      case (Finite s m)
      then have "\<not> s" using assms(1) by (simp add: f32_above_zero_def)
      then show ?thesis using f32_grows_round [of x m f32_units_of_one "m * n"] Finite 1
        by (simp add: f32_mul_def)
    next
      case (Infinite s)
      then show ?thesis using assms(1) 1
        by (auto simp: f32_above_zero_def f32_grows_def f32_mul_def f32_number_pack number_of_bits_def)
    qed (use assms(1) in \<open>auto simp: f32_above_zero_def\<close>)
  next
    case 2
    then show ?thesis using assms(1)
      by (cases "f32_number x")
        (auto simp: f32_above_zero_def f32_grows_def f32_mul_def f32_number_pack number_of_bits_def)
  qed
qed

lemma f32_above_positive:
  assumes "f32_is_finite x" "f32_positive x"
  shows "f32_above_zero x"
proof -
  obtain s m where x: "f32_number x = Finite s m" using assms(1) f32_finite_number by blast
  have "0 < f32_rank x" using assms(2) by (simp add: f32_positive_def f32_less_def)
  then have "\<not> f32_negative x" "f32_magnitude x \<noteq> 0"
    by (auto simp: f32_rank_def split: if_splits)
  moreover from this(2) have "0 < unat (f32_magnitude x)" by (simp add: unat_gt_0)
  ultimately show ?thesis using f32_finiteD(2,3) [OF x] units_less_iff [of 23 0]
    by (simp add: f32_above_zero_def x)
qed

lemma f32_grows_not_less:
  assumes "f32_grows x y"
  shows "\<not> f32_less y x"
proof -
  have "\<not> f32_negative x" "\<not> f32_negative y" "unat (f32_magnitude x) \<le> unat (f32_magnitude y)"
    using assms by (auto simp: f32_grows_def f32_number_def number_of_bits_def split: if_splits number.splits)
  then have "f32_rank x \<le> f32_rank y" by (simp only: f32_rank_units signed_units_def if_False of_nat_le_iff)
  then show ?thesis by (simp add: f32_less_def)
qed

lemma f32_sub_zero:
  assumes "f32_above_zero x"
  shows "f32_sub x f32_zero = x"
proof -
  have z: "f32_number (f32_neg f32_zero) = Finite True 0"
    by (simp add: f32_number_def number_of_bits_def f32_neg_def f32_zero_def f32_negative_def
        f32_magnitude_def units_def)
  show ?thesis
  proof (cases "f32_number x")
    case (Finite s m)
    then have "\<not> s" "0 < m" using assms by (auto simp: f32_above_zero_def)
    then show ?thesis using f32_round_number [of x False m 1] Finite
      by (simp add: f32_sub_def f32_add_def z signed_units_def)
  next
    case (Infinite s)
    then have "\<not> f32_negative x" "unat (f32_magnitude x) = f32_infinity_bits" "\<not> s"
      using assms by (auto simp: f32_above_zero_def f32_number_def number_of_bits_def split: if_splits)
    then show ?thesis using f32_pack_number [of x] Infinite by (simp add: f32_sub_def f32_add_def z)
  qed (use assms in \<open>auto simp: f32_above_zero_def\<close>)
qed

lemma f32_mul_one: "f32_number x = Finite s m \<Longrightarrow> f32_mul f32_one x = x"
  using f32_round_number [of x s m f32_units_of_one]
  by (simp add: f32_mul_def f32_number_one mult.commute)

subsection \<open>Values between zero and one\<close>

definition f32_unit :: "f32 \<Rightarrow> bool" where
  "f32_unit x \<longleftrightarrow> (\<exists>s m. f32_number x = Finite s m \<and> m \<le> f32_units_of_one \<and> (s \<longrightarrow> m = 0))"

lemma one_bits_units: "units 23 0x3F800000 = f32_units_of_one"
  by (simp add: units_def)

lemma f32_round_unit:
  assumes "0 < d" "n \<le> f32_units_of_one * d" "s \<Longrightarrow> n = 0"
  shows "f32_unit (f32_round (Exact s n d))"
proof -
  define b where "b = round_bits 23 f32_infinity_bits n d"
  have b: "b \<le> 0x3F800000"
    using round_bits_bounds(2) [OF assms(1), of n 23 "0x3F800000" f32_infinity_bits] assms(2) one_bits_units
    by (simp add: b_def)
  moreover have "s \<Longrightarrow> b = 0"
    using round_bits_bounds(2) [OF assms(1), of n 23 0 f32_infinity_bits] assms(3) by (simp add: b_def)
  moreover have "units 23 b \<le> f32_units_of_one" using b units_le_iff [of 23 b "0x3F800000"] one_bits_units by simp
  ultimately show ?thesis
    using f32_number_pack [of b s] by (simp add: f32_unit_def number_of_bits_def flip: b_def)
qed

lemma f32_unitI: "f32_number x = Finite False m \<Longrightarrow> m \<le> f32_units_of_one \<Longrightarrow> f32_unit x"
  by (auto simp: f32_unit_def)

lemma f32_unit_mul:
  assumes "f32_unit x" "f32_unit y"
  shows "f32_unit (f32_mul x y)"
proof -
  obtain s m where x: "f32_number x = Finite s m" "m \<le> f32_units_of_one" "s \<longrightarrow> m = 0"
    using assms(1) unfolding f32_unit_def by blast
  obtain t n where y: "f32_number y = Finite t n" "n \<le> f32_units_of_one" "t \<longrightarrow> n = 0"
    using assms(2) unfolding f32_unit_def by blast
  have "f32_unit (f32_round (Exact (s \<noteq> t) (m * n) f32_units_of_one))"
    using x y by (intro f32_round_unit mult_le_mono) auto
  then show ?thesis by (simp add: f32_mul_def x(1) y(1) del: f32_round.simps)
qed

lemma f32_neg_number: "f32_number x = Finite s m \<Longrightarrow> f32_number (f32_neg x) = Finite (\<not> s) m"
proof -
  have sign: "(0x80000000 :: f32) = 2 ^ 31" by simp
  have "f32_magnitude (f32_neg x) = f32_magnitude x"
    unfolding magnitude_take_bit f32_neg_def sign by (rule bit_word_eqI) (auto simp: bit_simps)
  moreover have "f32_negative (f32_neg x) \<longleftrightarrow> \<not> f32_negative x"
    unfolding f32_negative_def f32_neg_def sign by (simp add: bit_xor_iff bit_exp_iff del: power_numeral)
  ultimately show "f32_number x = Finite s m \<Longrightarrow> f32_number (f32_neg x) = Finite (\<not> s) m"
    by (auto simp: f32_number_def number_of_bits_def split: if_splits)
qed

lemma f32_unit_complement: "f32_unit x \<Longrightarrow> f32_unit (f32_sub f32_one x)"
proof -
  assume "f32_unit x"
  then obtain s m where x: "f32_number x = Finite s m" "m \<le> f32_units_of_one" "s \<longrightarrow> m = 0"
    by (auto simp: f32_unit_def)
  define v where "v = int f32_units_of_one - int m"
  have "exact_add (f32_number f32_one) (f32_number (f32_neg x)) =
      Exact (if v = 0 then False else v < 0) (nat \<bar>v\<bar>) 1"
    using x(3) by (auto simp: f32_number_one f32_neg_number [OF x(1)] signed_units_def v_def Let_def)
  moreover have "0 \<le> v" "nat \<bar>v\<bar> \<le> f32_units_of_one" using x(2) by (auto simp: v_def)
  ultimately show ?thesis
    unfolding f32_sub_def f32_add_def
    by (simp del: f32_round.simps) (intro conjI impI f32_round_unit; simp)
qed

lemma f32_number_zero: "f32_number f32_zero = Finite False 0"
  by (simp add: f32_eval f32_zero_def)

lemma f32_unit_constants [simp]: "f32_unit f32_zero" "f32_unit f32_one"
  by (rule f32_unitI [OF f32_number_zero], simp) (rule f32_unitI [OF f32_number_one], simp)

lemma f32_unit_not_nan: "f32_unit x \<Longrightarrow> \<not> f32_is_nan x"
  by (auto simp: f32_unit_def simp flip: f32_number_nan_iff)

lemma f32_unit_le_one: "f32_unit x \<Longrightarrow> f32_greater_eq f32_one x"
proof -
  assume u: "f32_unit x"
  then obtain s m where x: "f32_number x = Finite s m" "m \<le> f32_units_of_one" by (auto simp: f32_unit_def)
  then have "\<not> f32_less f32_one x"
    unfolding f32_less_units [OF f32_number_one x(1)] by (auto simp: signed_units_def)
  then show ?thesis using f32_not_less_iff [of f32_one x] f32_unit_not_nan [OF u] f32_number_one
    by (simp flip: f32_number_nan_iff)
qed

text \<open>The share of a count in a larger one; at counts beyond the range of the format it is no number.\<close>

lemma f32_ratio_unit:
  assumes "a \<le> b" "0 < b"
  shows "f32_unit (f32_div (f32_of_nat a) (f32_of_nat b)) \<or> f32_is_nan (f32_div (f32_of_nat a) (f32_of_nat b))"
proof -
  define p where "p k = round_bits 23 f32_infinity_bits (k * f32_units_of_one) 1" for k
  have n: "f32_number (f32_of_nat k) = number_of_bits 23 f32_infinity_bits False (p k)" for k
    by (simp add: f32_of_nat_def p_def f32_number_pack [OF top_bits(1)])
  have le: "p a \<le> p b" unfolding p_def by (rule round_bits_mono) (use assms in simp_all)
  have top: "p k \<le> f32_infinity_bits" for k unfolding p_def by (rule round_bits_le_top)
  have "0x3F800000 \<le> p b"
    unfolding p_def using round_bits_bounds(1) [of 1 23 "0x3F800000" "b * f32_units_of_one" f32_infinity_bits]
      one_bits_units assms(2) by simp
  then have pos: "0 < units 23 (p b)" by (metis gr_zeroI units_eq_0_iff not_numeral_le_zero)
  show ?thesis
  proof (cases "p b = f32_infinity_bits")
    case True
    then have b: "f32_number (f32_of_nat b) = Infinite False" by (simp add: n number_of_bits_def)
    show ?thesis
    proof (cases "p a = f32_infinity_bits")
      case True
      then have "f32_number (f32_of_nat a) = Infinite False" by (simp add: n number_of_bits_def)
      then show ?thesis using b f32_round_nan_iff [of Exact_nan] by (simp add: f32_div_def)
    next
      case False
      then have "f32_number (f32_of_nat a) = Finite False (units 23 (p a))"
        using top [of a] by (simp add: n number_of_bits_def)
      then have "f32_unit (f32_div (f32_of_nat a) (f32_of_nat b))"
        using f32_round_unit [of 1 0 False] b by (simp add: f32_div_def del: f32_round.simps)
      then show ?thesis by blast
    qed
  next
    case False
    then have "f32_number (f32_of_nat b) = Finite False (units 23 (p b))"
      "f32_number (f32_of_nat a) = Finite False (units 23 (p a))"
      using le top [of b] by (simp_all add: n number_of_bits_def)
    then have "f32_unit (f32_div (f32_of_nat a) (f32_of_nat b))"
      using f32_round_unit [OF pos, of "units 23 (p a) * f32_units_of_one" False] pos le
      by (auto simp: f32_div_def mult.commute simp del: f32_round.simps)
    then show ?thesis by blast
  qed
qed

lemma f32_max_unit: "f32_unit x \<or> f32_is_nan x \<Longrightarrow> f32_unit y \<Longrightarrow> f32_unit (f32_max x y)"
  using f32_unit_not_nan by (auto simp: f32_max_def)

lemma f32_max_ge: "\<not> f32_is_nan y \<Longrightarrow> f32_greater_eq (f32_max x y) y"
  by (auto simp: f32_max_def f32_greater_eq_def f32_less_def)

lemma f32_clamp_unit: "f32_unit (f32_clamp f32_zero f32_one x) \<or> f32_is_nan (f32_clamp f32_zero f32_one x)"
proof (cases "f32_number x")
  case Nan
  then show ?thesis by (simp add: f32_number_nan_iff f32_clamp_def)
next
  case (Infinite s)
  then have "\<not> f32_is_nan x" "f32_rank x = signed_units s f32_infinity_bits"
    by (auto simp: f32_rank_units f32_number_def number_of_bits_def f32_nan_iff split: if_splits)
  moreover have "f32_rank f32_one < int f32_infinity_bits" "\<not> f32_is_nan f32_one"
    by (simp_all add: f32_rank_def f32_is_nan_def f32_one_def f32_magnitude_def f32_negative_def)
  ultimately show ?thesis by (cases s) (simp_all add: f32_clamp_def f32_less_def signed_units_def)
next
  case (Finite s m)
  have "f32_unit x" if "\<not> f32_less x f32_zero" "\<not> f32_less f32_one x"
    using that unfolding f32_less_units [OF Finite f32_number_zero] f32_less_units [OF f32_number_one Finite]
    by (auto simp: f32_unit_def Finite signed_units_def split: if_splits)
  then show ?thesis by (simp add: f32_clamp_def)
qed

lemma f32_sub_nan: "f32_is_nan y \<Longrightarrow> f32_is_nan (f32_sub x y)"
proof -
  have "f32_magnitude (f32_neg y) = f32_magnitude y"
    unfolding magnitude_take_bit f32_neg_def by (rule bit_word_eqI) (auto simp: bit_simps bit_numeral_rec)
  then have "f32_is_nan (f32_neg y) = f32_is_nan y" by (simp add: f32_is_nan_def)
  then show "f32_is_nan y \<Longrightarrow> f32_is_nan (f32_sub x y)"
    by (simp add: f32_sub_def f32_add_nan_iff)
qed

end
