(* ===== verification/Config.thy ===== *)
theory Config
  imports Deadline Cooldown Network Ieee
begin

text \<open>
  The settings of the library (\<open>src/config/\<close>): each is read from an environment variable,
  trimmed, parsed and clamped to its range or replaced by its default. The environment is a map
  from names to the values that are valid Unicode; parsing of decimal fractions is a parameter.
  Warnings are logged once per distinct value, which \<open>first_opt_out_sighting\<close> models; the other
  log output is left out.
\<close>

section \<open>Helpers\<close>

type_synonym environment = "string \<rightharpoonup> string"

record float_parsers =
  parse_f32 :: "string \<Rightarrow> f32 option"
  parse_f64 :: "string \<Rightarrow> f64 option"

abbreviation parse_u32 :: "string \<Rightarrow> nat option" where
  "parse_u32 \<equiv> parse_unsigned (2 ^ 32 - 1)"

abbreviation parse_u64 :: "string \<Rightarrow> nat option" where
  "parse_u64 \<equiv> parse_unsigned (2 ^ 64 - 1)"

definition first_opt_out_sighting ::
  "string \<Rightarrow> string \<Rightarrow> (string \<times> string) set \<Rightarrow> bool \<times> (string \<times> string) set" where
  "first_opt_out_sighting name raw seen = ((name, raw) \<notin> seen, insert (name, raw) seen)"

text \<open>Logging a guard that is disabled or invalid: at most one line per value.\<close>

definition warn_guard ::
  "string \<Rightarrow> string \<Rightarrow> (string \<times> string) set \<times> (string \<times> string) list \<Rightarrow>
     (string \<times> string) set \<times> (string \<times> string) list" where
  "warn_guard name raw = (\<lambda>(seen, lines).
     (case first_opt_out_sighting name raw seen of
        (first, seen') \<Rightarrow> (seen', if first then lines @ [(name, raw)] else lines)))"

definition env_trimmed :: "environment \<Rightarrow> string \<Rightarrow> string" where
  "env_trimmed env name = (case env name of Some v \<Rightarrow> trim v | None \<Rightarrow> [])"

text \<open>
  \<open>to_lowercase\<close> agrees with the ASCII mapping on the words that are compared: no other character
  has one of their letters as its lower case.
\<close>

definition ascii_lower :: "string \<Rightarrow> string" where
  "ascii_lower = map (\<lambda>c. if 65 \<le> (of_char c :: nat) \<and> (of_char c :: nat) \<le> 90
     then char_of (of_char c + 32 :: nat) else c)"

definition parse_bool_value :: "string option \<Rightarrow> bool" where
  "parse_bool_value raw =
     (case raw of None \<Rightarrow> False
      | Some v \<Rightarrow> ascii_lower (trim v) \<in> {''1'', ''true'', ''yes''})"

definition parse_bool_env :: "environment \<Rightarrow> string \<Rightarrow> bool" where
  "parse_bool_env env name = parse_bool_value (env name)"

definition parse_optional_bool_env :: "environment \<Rightarrow> string \<Rightarrow> bool option" where
  "parse_optional_bool_env env name =
     (case env name of
        None \<Rightarrow> None
      | Some v \<Rightarrow>
          (let w = ascii_lower (trim v) in
           if w \<in> {''1'', ''true'', ''yes''} then Some True
           else if w \<in> {''0'', ''false'', ''no''} then Some False
           else None))"

definition parse_env :: "(string \<Rightarrow> 'a option) \<Rightarrow> environment \<Rightarrow> string \<Rightarrow> 'a option" where
  "parse_env parse env name = Option.bind (env name) (\<lambda>v. parse (trim v))"

definition keep_if :: "('a \<Rightarrow> bool) \<Rightarrow> 'a option \<Rightarrow> 'a option" where
  "keep_if P x = (case x of Some v \<Rightarrow> if P v then Some v else None | None \<Rightarrow> None)"

definition unwrap_or :: "'a \<Rightarrow> 'a option \<Rightarrow> 'a" where
  "unwrap_or d x = (case x of Some v \<Rightarrow> v | None \<Rightarrow> d)"

definition clamp :: "'a::linorder \<Rightarrow> 'a \<Rightarrow> 'a \<Rightarrow> 'a" where
  "clamp lo hi v = (if v < lo then lo else if hi < v then hi else v)"

lemma clamp_bounds: "lo \<le> hi \<Longrightarrow> lo \<le> clamp lo hi v \<and> clamp lo hi v \<le> hi"
  by (auto simp: clamp_def)

text \<open>Single-precision clamping and maximum, for values that are no NaN.\<close>

definition f32_at_most :: "f32 \<Rightarrow> f32 \<Rightarrow> bool" where
  "f32_at_most a b \<longleftrightarrow> f32_greater_eq b a"

definition f64_zero :: f64 where "f64_zero = 0"

definition f64_positive :: "f64 \<Rightarrow> bool" where
  "f64_positive v \<longleftrightarrow> f64_less f64_zero v"

section \<open>GPU and watchdog\<close>

definition verbose :: "environment \<Rightarrow> bool" where
  "verbose env = parse_bool_env env ''NEAT_AI_DISCOVERY_VERBOSE''"

definition gpu_timing :: "environment \<Rightarrow> bool" where
  "gpu_timing env = parse_bool_env env ''NEAT_AI_DISCOVERY_GPU_TIMING''"

definition gpu_batch_size_override :: "environment \<Rightarrow> nat option" where
  "gpu_batch_size_override env =
     keep_if (\<lambda>n. 64 \<le> n \<and> n \<le> 4096) (parse_env parse_usize env ''NEAT_AI_DISCOVERY_GPU_BATCH_SIZE'')"

definition max_gpu_retry_limit :: nat where "max_gpu_retry_limit = 10"
definition default_gpu_retry_limit :: nat where "default_gpu_retry_limit = 3"

definition resolve_gpu_retry_limit :: "string option \<Rightarrow> nat" where
  "resolve_gpu_retry_limit raw =
     (case raw of
        None \<Rightarrow> default_gpu_retry_limit
      | Some s \<Rightarrow>
          (case parse_u32 (trim s) of
             None \<Rightarrow> default_gpu_retry_limit
           | Some n \<Rightarrow>
               if n = 0 then 0
               else if max_gpu_retry_limit < n then default_gpu_retry_limit
               else n))"

definition gpu_retry_limit :: "environment \<Rightarrow> nat" where
  "gpu_retry_limit env = resolve_gpu_retry_limit (env ''NEAT_AI_DISCOVERY_GPU_RETRY_LIMIT'')"

definition default_gpu_stall_window_secs :: nat where "default_gpu_stall_window_secs = 30"
definition min_gpu_stall_window_secs :: nat where "min_gpu_stall_window_secs = 1"
definition max_gpu_stall_window_secs :: nat where "max_gpu_stall_window_secs = 600"

definition gpu_stall_window :: "environment \<Rightarrow> duration" where
  "gpu_stall_window env =
     (case parse_env parse_u64 env ''NEAT_AI_DISCOVERY_GPU_STALL_WINDOW_SECS'' of
        None \<Rightarrow> default_gpu_stall_window_secs
      | Some secs \<Rightarrow>
          if secs = 0 then 0 else clamp min_gpu_stall_window_secs max_gpu_stall_window_secs secs)
     * ns_per_sec"

definition max_watchdog_stall_secs :: nat where "max_watchdog_stall_secs = 86400"

definition watchdog_stall_timeout :: "environment \<Rightarrow> duration option" where
  "watchdog_stall_timeout env =
     (let secs = unwrap_or 0 (parse_env parse_u64 env ''NEAT_AI_DISCOVERY_WATCHDOG_STALL_SECS'') in
      if secs = 0 then None else Some (min secs max_watchdog_stall_secs * ns_per_sec))"

definition default_watchdog_abort_delay_secs :: nat where "default_watchdog_abort_delay_secs = 2"
definition max_watchdog_abort_delay_secs :: nat where "max_watchdog_abort_delay_secs = 60"

definition watchdog_abort_delay :: "environment \<Rightarrow> duration" where
  "watchdog_abort_delay env =
     (let secs = unwrap_or default_watchdog_abort_delay_secs
          (parse_env parse_u64 env ''NEAT_AI_DISCOVERY_WATCHDOG_ABORT_DELAY_SECS'') in
      (if max_watchdog_abort_delay_secs < secs then max_watchdog_abort_delay_secs else secs) * ns_per_sec)"

section \<open>Streaming\<close>

definition max_cached_blocks :: "environment \<Rightarrow> nat option" where
  "max_cached_blocks env = parse_env parse_usize env ''NEAT_AI_DISCOVERY_MAX_CACHED_BLOCKS''"

definition prefetch_depth :: "environment \<Rightarrow> nat" where
  "prefetch_depth env = unwrap_or 2 (parse_env parse_usize env ''NEAT_AI_DISCOVERY_PREFETCH_DEPTH'')"

definition preload_all :: "environment \<Rightarrow> bool" where
  "preload_all env = parse_bool_env env ''NEAT_AI_DISCOVERY_PRELOAD_ALL''"

definition streaming_enabled :: "environment \<Rightarrow> bool" where
  "streaming_enabled env \<longleftrightarrow> \<not> preload_all env"

definition default_block_size :: nat where "default_block_size = 10000"
definition min_block_size :: nat where "min_block_size = 10"
definition max_block_size :: nat where "max_block_size = 100000"

definition block_size :: "environment \<Rightarrow> nat" where
  "block_size env = clamp min_block_size max_block_size
     (unwrap_or default_block_size (parse_env parse_usize env ''NEAT_AI_DISCOVERY_BLOCK_SIZE''))"

section \<open>Focus and analysis switches\<close>

definition neuron_targets_output_only :: "environment \<Rightarrow> bool" where
  "neuron_targets_output_only env = parse_bool_env env ''NEAT_AI_DISCOVERY_NEURON_TARGETS_OUTPUT_ONLY''"

definition focus_unused_observations :: "environment \<Rightarrow> bool" where
  "focus_unused_observations env = parse_bool_env env ''NEAT_AI_DISCOVERY_FOCUS_UNUSED_OBSERVATIONS''"

definition focus_exclude_constant_neurons :: "environment \<Rightarrow> bool" where
  "focus_exclude_constant_neurons env =
     parse_bool_env env ''NEAT_AI_DISCOVERY_FOCUS_EXCLUDE_CONSTANT_NEURONS''"

definition focus_reconstruction_mismatch_enabled :: "environment \<Rightarrow> bool" where
  "focus_reconstruction_mismatch_enabled env =
     parse_bool_env env ''NEAT_AI_DISCOVERY_FOCUS_RECONSTRUCTION_MISMATCH''"

definition default_focus_reconstruction_mismatch_weight :: f32 where
  "default_focus_reconstruction_mismatch_weight = 0x3DCCCCCD"

definition resolve_focus_reconstruction_mismatch_weight ::
  "float_parsers \<Rightarrow> string option \<Rightarrow> f32 \<Rightarrow> f32" where
  "resolve_focus_reconstruction_mismatch_weight fp raw d =
     unwrap_or d (keep_if (\<lambda>v. f32_is_finite v \<and> f32_greater_eq v f32_zero)
       (Option.bind raw (\<lambda>v. parse_f32 fp (trim v))))"

definition focus_reconstruction_mismatch_weight :: "float_parsers \<Rightarrow> environment \<Rightarrow> f32" where
  "focus_reconstruction_mismatch_weight fp env =
     resolve_focus_reconstruction_mismatch_weight fp
       (env ''NEAT_AI_DISCOVERY_FOCUS_RECONSTRUCTION_MISMATCH_WEIGHT'')
       default_focus_reconstruction_mismatch_weight"

definition default_focus_impact_gate_threshold :: f32 where
  "default_focus_impact_gate_threshold = 0x358637BD"

definition focus_impact_gate_enabled :: "environment \<Rightarrow> bool" where
  "focus_impact_gate_enabled env = parse_bool_env env ''NEAT_AI_DISCOVERY_FOCUS_IMPACT_GATE''"

definition resolve_focus_impact_gate_threshold ::
  "float_parsers \<Rightarrow> string option \<Rightarrow> f32 \<Rightarrow> f32" where
  "resolve_focus_impact_gate_threshold fp raw d =
     unwrap_or d (keep_if (\<lambda>v. f32_is_finite v \<and> f32_positive v)
       (Option.bind raw (\<lambda>v. parse_f32 fp (trim v))))"

definition focus_impact_gate_threshold :: "float_parsers \<Rightarrow> environment \<Rightarrow> f32" where
  "focus_impact_gate_threshold fp env =
     resolve_focus_impact_gate_threshold fp (env ''NEAT_AI_DISCOVERY_FOCUS_IMPACT_GATE_THRESHOLD'')
       default_focus_impact_gate_threshold"

definition cpu_pre_reject_enabled :: "environment \<Rightarrow> bool" where
  "cpu_pre_reject_enabled env =
     unwrap_or True (parse_optional_bool_env env ''NEAT_AI_DISCOVERY_CPU_PRE_REJECT'')"

definition hidden_squash_prune_enabled :: "environment \<Rightarrow> bool" where
  "hidden_squash_prune_enabled env =
     unwrap_or True (parse_optional_bool_env env ''NEAT_AI_DISCOVERY_HIDDEN_SQUASH_PRUNE'')"

definition max_activation_configs_per_target :: "environment \<Rightarrow> nat" where
  "max_activation_configs_per_target env =
     (case parse_env parse_usize env ''NEAT_AI_DISCOVERY_MAX_ACTIVATION_CONFIGS_PER_TARGET'' of
        Some cap \<Rightarrow> cap
      | None \<Rightarrow> 0)"

text \<open>A value that is set and not blank, trimmed.\<close>

definition env_value :: "environment \<Rightarrow> string \<Rightarrow> string option" where
  "env_value env name =
     (case env name of None \<Rightarrow> None | Some v \<Rightarrow> if trim v = [] then None else Some (trim v))"

definition max_source_input_index_bias :: f64 where
  "max_source_input_index_bias = 0x4024000000000000"

definition source_input_index_bias :: "float_parsers \<Rightarrow> environment \<Rightarrow> f64 option" where
  "source_input_index_bias fp env =
     keep_if (\<lambda>v. f64_is_finite v \<and> f64_positive v \<and> f64_less_eq v max_source_input_index_bias)
       (Option.bind (env_value env ''NEAT_AI_DISCOVERY_SOURCE_INPUT_INDEX_BIAS'') (parse_f64 fp))"

definition max_sources_per_target :: "environment \<Rightarrow> nat option" where
  "max_sources_per_target env =
     (case env_value env ''NEAT_AI_DISCOVERY_MAX_SOURCES_PER_TARGET'' of
        None \<Rightarrow> None
      | Some v \<Rightarrow>
          (case parse_usize v of
             None \<Rightarrow> None
           | Some n \<Rightarrow> if n = 0 then None else Some n))"

definition zero_copy_override :: "environment \<Rightarrow> bool option" where
  "zero_copy_override env = parse_optional_bool_env env ''NEAT_AI_DISCOVERY_ZERO_COPY''"

definition quiet_gpu :: "environment \<Rightarrow> bool" where
  "quiet_gpu env = parse_bool_env env ''NEAT_AI_DISCOVERY_QUIET_GPU''"

definition batch_successful_enabled :: "environment \<Rightarrow> bool" where
  "batch_successful_enabled env = parse_bool_env env ''NEAT_AI_DISCOVERY_BATCH_SUCCESSFUL''"

definition default_constant_source_effect_threshold :: f32 where
  "default_constant_source_effect_threshold = 0x33D6BF95"

definition constant_source_effect_threshold :: "float_parsers \<Rightarrow> environment \<Rightarrow> f32 option" where
  "constant_source_effect_threshold fp env =
     (case env_value env ''NEAT_AI_DISCOVERY_CONSTANT_SOURCE_EFFECT_THRESHOLD'' of
        None \<Rightarrow> Some default_constant_source_effect_threshold
      | Some t \<Rightarrow>
          (case parse_f32 fp t of
             Some v \<Rightarrow>
               if f32_is_finite v \<and> f32_is_zero v then None
               else if f32_is_finite v \<and> f32_positive v then Some v
               else Some default_constant_source_effect_threshold
           | None \<Rightarrow> Some default_constant_source_effect_threshold))"

text \<open>
  \<open>scale\<close> is the product \<open>DEFAULT * (avg / 0.05).max(1.0)\<close> in single precision.
\<close>

definition constant_source_threshold_with_dynamic ::
  "float_parsers \<Rightarrow> (f32 \<Rightarrow> f32) \<Rightarrow> environment \<Rightarrow> f32 option \<Rightarrow> f32 option" where
  "constant_source_threshold_with_dynamic fp scale env std_dev_avg =
     (let dynamic =
        (case std_dev_avg of
           Some avg \<Rightarrow>
             if f32_is_finite avg \<and> f32_positive avg
             then (if f32_is_finite (scale avg) then scale avg else default_constant_source_effect_threshold)
             else default_constant_source_effect_threshold
         | None \<Rightarrow> default_constant_source_effect_threshold)
      in case env_value env ''NEAT_AI_DISCOVERY_CONSTANT_SOURCE_EFFECT_THRESHOLD'' of
           None \<Rightarrow> Some dynamic
         | Some t \<Rightarrow>
             (case parse_f32 fp t of
                Some v \<Rightarrow>
                  if f32_is_finite v \<and> f32_is_zero v then None
                  else if f32_is_finite v \<and> f32_positive v then Some v
                  else Some dynamic
              | None \<Rightarrow> Some dynamic))"

definition min_mh_temperature :: f32 where "min_mh_temperature = 0x3C23D70A"
definition max_mh_temperature :: f32 where "max_mh_temperature = 0x40A00000"

definition mh_temperature :: "float_parsers \<Rightarrow> environment \<Rightarrow> f32 option" where
  "mh_temperature fp env =
     keep_if (\<lambda>v. f32_is_finite v \<and> f32_greater_eq v min_mh_temperature \<and> f32_at_most v max_mh_temperature)
       (Option.bind (env_value env ''NEAT_AI_DISCOVERY_MH_TEMPERATURE'') (parse_f32 fp))"

section \<open>Memory and time budgets\<close>

definition positive_u64 :: "environment \<Rightarrow> string \<Rightarrow> nat option" where
  "positive_u64 env name =
     (case env_value env name of
        None \<Rightarrow> None
      | Some t \<Rightarrow>
          (case parse_u64 t of
             None \<Rightarrow> None
           | Some v \<Rightarrow> if v = 0 then None else Some v))"

definition focus_ranking_memory_budget_mb :: "environment \<Rightarrow> nat option" where
  "focus_ranking_memory_budget_mb env =
     positive_u64 env ''NEAT_AI_DISCOVERY_FOCUS_RANKING_MEMORY_BUDGET_MB''"

definition max_parquet_decode_mb :: "environment \<Rightarrow> nat option" where
  "max_parquet_decode_mb env = positive_u64 env ''NEAT_AI_DISCOVERY_MAX_PARQUET_DECODE_MB''"

definition default_focus_ranking_memory_margin_mb :: nat where
  "default_focus_ranking_memory_margin_mb = 1024"

definition focus_ranking_memory_margin_mb :: "environment \<Rightarrow> nat" where
  "focus_ranking_memory_margin_mb env =
     unwrap_or default_focus_ranking_memory_margin_mb
       (Option.bind (env_value env ''NEAT_AI_DISCOVERY_FOCUS_RANKING_MEMORY_MARGIN_MB'') parse_u64)"

definition default_focus_ranking_budget_ms :: nat where "default_focus_ranking_budget_ms = 120000"
definition focus_ranking_budget_min_ms :: nat where "focus_ranking_budget_min_ms = 1000"
definition focus_ranking_budget_max_ms :: nat where "focus_ranking_budget_max_ms = 3600000"

datatype focus_budget_override = Explicit nat | Disabled | Default

definition focus_ranking_budget_override :: "environment \<Rightarrow> focus_budget_override" where
  "focus_ranking_budget_override env =
     (case env_value env ''NEAT_AI_DISCOVERY_FOCUS_RANKING_BUDGET_MS'' of
        None \<Rightarrow> Default
      | Some t \<Rightarrow>
          (case parse_u64 t of
             None \<Rightarrow> Default
           | Some v \<Rightarrow>
               if v = 0 then Disabled
               else Explicit (clamp focus_ranking_budget_min_ms focus_ranking_budget_max_ms v)))"

definition focus_ranking_budget_ms :: "environment \<Rightarrow> nat option" where
  "focus_ranking_budget_ms env =
     (case focus_ranking_budget_override env of
        Explicit v \<Rightarrow> Some v | Disabled \<Rightarrow> None | Default \<Rightarrow> Some default_focus_ranking_budget_ms)"

definition focus_ranking_lazy_budget_multiplier :: u64 where
  "focus_ranking_lazy_budget_multiplier = 4"

definition focus_ranking_budget_ms_per_projected_mb :: u64 where
  "focus_ranking_budget_ms_per_projected_mb = 20"

definition scale_default_focus_ranking_budget_ms :: "bool \<Rightarrow> u64 \<Rightarrow> nat" where
  "scale_default_focus_ranking_budget_ms is_lazy projected_mb =
     (if \<not> is_lazy then default_focus_ranking_budget_ms
      else
        (let scaled = sat_add (sat_mul (word_of_nat default_focus_ranking_budget_ms)
               focus_ranking_lazy_budget_multiplier)
             (sat_mul projected_mb focus_ranking_budget_ms_per_projected_mb)
         in clamp focus_ranking_budget_min_ms focus_ranking_budget_max_ms (unat scaled)))"

definition effective_focus_ranking_budget_ms :: "environment \<Rightarrow> bool \<Rightarrow> u64 \<Rightarrow> nat option" where
  "effective_focus_ranking_budget_ms env is_lazy projected_mb =
     (case focus_ranking_budget_override env of
        Explicit v \<Rightarrow> Some v
      | Disabled \<Rightarrow> None
      | Default \<Rightarrow> Some (scale_default_focus_ranking_budget_ms is_lazy projected_mb))"

definition default_analysis_reserve_ms :: nat where "default_analysis_reserve_ms = 60000"
definition analysis_reserve_max_ms :: nat where "analysis_reserve_max_ms = 3600000"

definition analysis_reserve_ms :: "environment \<Rightarrow> nat" where
  "analysis_reserve_ms env =
     (case env_value env ''NEAT_AI_DISCOVERY_ANALYSIS_RESERVE_MS'' of
        None \<Rightarrow> default_analysis_reserve_ms
      | Some t \<Rightarrow>
          (case parse_u64 t of
             None \<Rightarrow> default_analysis_reserve_ms
           | Some v \<Rightarrow> if v = 0 then 0 else clamp 1 analysis_reserve_max_ms v))"

definition default_analysis_reserve_fraction :: f64 where
  "default_analysis_reserve_fraction = 0x3FE0000000000000"

definition analysis_reserve_fraction_max :: f64 where
  "analysis_reserve_fraction_max = 0x3FECCCCCCCCCCCCD"

definition analysis_reserve_fraction :: "float_parsers \<Rightarrow> environment \<Rightarrow> f64" where
  "analysis_reserve_fraction fp env =
     (case Option.bind (env_value env ''NEAT_AI_DISCOVERY_ANALYSIS_RESERVE_FRACTION'') (parse_f64 fp) of
        Some v \<Rightarrow>
          if f64_is_finite v \<and> f64_positive v
          then (if f64_less analysis_reserve_fraction_max v then analysis_reserve_fraction_max else v)
          else default_analysis_reserve_fraction
      | None \<Rightarrow> default_analysis_reserve_fraction)"

definition default_insufficient_recording_fraction :: f64 where
  "default_insufficient_recording_fraction = f64_one"

definition resolve_insufficient_recording_fraction :: "float_parsers \<Rightarrow> string option \<Rightarrow> f64 option" where
  "resolve_insufficient_recording_fraction fp raw =
     (case raw of
        None \<Rightarrow> Some default_insufficient_recording_fraction
      | Some value \<Rightarrow>
          if trim value = [] then Some default_insufficient_recording_fraction
          else
            (case parse_f64 fp (trim value) of
               None \<Rightarrow> Some default_insufficient_recording_fraction
             | Some v \<Rightarrow>
                 if f64_is_finite v \<and> f64_positive v \<and> f64_less_eq v f64_one then Some v
                 else if f64_is_finite v \<and> f64_is_zero v then None
                 else Some default_insufficient_recording_fraction))"

definition insufficient_recording_fraction :: "float_parsers \<Rightarrow> environment \<Rightarrow> f64 option" where
  "insufficient_recording_fraction fp env =
     resolve_insufficient_recording_fraction fp (env ''NEAT_AI_DISCOVERY_INSUFFICIENT_RECORDING_FRACTION'')"

definition default_focus_ranking_perf_cliff_ms :: nat where
  "default_focus_ranking_perf_cliff_ms = 60000"

definition focus_ranking_perf_cliff_ms :: "environment \<Rightarrow> nat" where
  "focus_ranking_perf_cliff_ms env =
     unwrap_or default_focus_ranking_perf_cliff_ms
       (Option.bind (env_value env ''NEAT_AI_DISCOVERY_FOCUS_RANKING_PERF_CLIFF_MS'') parse_u64)"

definition default_session_ttl_secs :: nat where "default_session_ttl_secs = 3600"
definition min_session_ttl_secs :: nat where "min_session_ttl_secs = 60"
definition max_session_ttl_secs :: nat where "max_session_ttl_secs = 86400"

definition session_ttl_secs :: "environment \<Rightarrow> nat" where
  "session_ttl_secs env = clamp min_session_ttl_secs max_session_ttl_secs
     (unwrap_or default_session_ttl_secs (parse_env parse_u64 env ''NEAT_AI_DISCOVERY_SESSION_TTL_SECS''))"

definition default_max_wall_clock_minutes :: nat where "default_max_wall_clock_minutes = 20"
definition min_wall_clock_minutes :: nat where "min_wall_clock_minutes = 1"
definition max_wall_clock_minutes_cap :: nat where "max_wall_clock_minutes_cap = 120"

definition max_wall_clock_minutes :: "environment \<Rightarrow> nat" where
  "max_wall_clock_minutes env = clamp min_wall_clock_minutes max_wall_clock_minutes_cap
     (unwrap_or default_max_wall_clock_minutes
        (parse_env parse_u64 env ''NEAT_AI_DISCOVERY_MAX_WALL_CLOCK_MINUTES''))"

definition effective_wall_clock_minutes :: "environment \<Rightarrow> u64 option \<Rightarrow> nat" where
  "effective_wall_clock_minutes env requested =
     (case requested of
        None \<Rightarrow> max_wall_clock_minutes env
      | Some minutes \<Rightarrow> clamp min_wall_clock_minutes max_wall_clock_minutes_cap (unat minutes))"

definition sample_program_override :: "environment \<Rightarrow> string option" where
  "sample_program_override env =
     keep_if (\<lambda>v. trim v \<noteq> []) (env ''NEAT_AI_DISCOVERY_SAMPLE_PROGRAM'')"

definition sample_program :: "environment \<Rightarrow> string" where
  "sample_program env = unwrap_or ''sample'' (sample_program_override env)"

section \<open>Drought mitigation\<close>

definition in_unit_range :: "f32 \<Rightarrow> bool" where
  "in_unit_range v \<longleftrightarrow> f32_is_finite v \<and> f32_positive v \<and> f32_at_most v f32_one"

definition default_low_success_rate_threshold :: f32 where
  "default_low_success_rate_threshold = 0x3E4CCCCD"

definition low_success_rate_threshold :: "float_parsers \<Rightarrow> environment \<Rightarrow> f32" where
  "low_success_rate_threshold fp env = unwrap_or default_low_success_rate_threshold
     (keep_if in_unit_range (parse_env (parse_f32 fp) env ''NEAT_AI_DISCOVERY_LOW_SUCCESS_RATE_THRESHOLD''))"

definition conservative_mode_max_epochs :: "environment \<Rightarrow> nat" where
  "conservative_mode_max_epochs env = unwrap_or (unat default_conservative_mode_max_epochs)
     (keep_if (\<lambda>v. 1 \<le> v) (parse_env parse_u32 env ''NEAT_AI_DISCOVERY_CONSERVATIVE_MODE_MAX_EPOCHS''))"

definition default_conservative_gain_multiplier :: f32 where
  "default_conservative_gain_multiplier = 0x41200000"

definition conservative_gain_multiplier :: "float_parsers \<Rightarrow> environment \<Rightarrow> f32" where
  "conservative_gain_multiplier fp env =
     (let raw = unwrap_or default_conservative_gain_multiplier
          (keep_if f32_is_finite (parse_env (parse_f32 fp) env ''NEAT_AI_DISCOVERY_CONSERVATIVE_GAIN_MULTIPLIER''))
      in if f32_less raw f32_one then f32_one else raw)"

definition default_drought_log_threshold :: nat where "default_drought_log_threshold = 5"

definition drought_log_threshold :: "environment \<Rightarrow> nat" where
  "drought_log_threshold env = unwrap_or default_drought_log_threshold
     (keep_if (\<lambda>v. 1 \<le> v) (parse_env parse_u32 env ''NEAT_AI_DISCOVERY_DROUGHT_LOG_THRESHOLD''))"

definition resolve_drought_alarm_epochs :: "string option \<Rightarrow> nat \<Rightarrow> nat option" where
  "resolve_drought_alarm_epochs raw d =
     (case raw of
        None \<Rightarrow> Some d
      | Some value \<Rightarrow>
          (case parse_u32 (trim value) of
             None \<Rightarrow> Some d
           | Some n \<Rightarrow> if n = 0 then None else Some n))"

definition default_drought_alarm_epochs :: nat where "default_drought_alarm_epochs = 100"

definition drought_alarm_epochs :: "environment \<Rightarrow> nat option" where
  "drought_alarm_epochs env =
     resolve_drought_alarm_epochs (env ''NEAT_AI_DISCOVERY_DROUGHT_ALARM_EPOCHS'')
       default_drought_alarm_epochs"

definition min_remove_neuron_drought_factor :: f32 where
  "min_remove_neuron_drought_factor = 0x3A83126F"

definition neutral_deprioritisation_factor :: f32 where
  "neutral_deprioritisation_factor = f32_one"

definition default_remove_neuron_drought_factor :: f32 where
  "default_remove_neuron_drought_factor = 0x3DCCCCCD"

definition resolve_remove_neuron_drought_factor :: "float_parsers \<Rightarrow> string option \<Rightarrow> f32 \<Rightarrow> f32" where
  "resolve_remove_neuron_drought_factor fp raw d =
     f32_clamp min_remove_neuron_drought_factor neutral_deprioritisation_factor
       (unwrap_or d (keep_if f32_is_finite (Option.bind raw (\<lambda>v. parse_f32 fp (trim v)))))"

definition remove_neuron_drought_factor :: "float_parsers \<Rightarrow> environment \<Rightarrow> f32" where
  "remove_neuron_drought_factor fp env =
     resolve_remove_neuron_drought_factor fp (env ''NEAT_AI_DISCOVERY_REMOVE_NEURON_DROUGHT_FACTOR'')
       default_remove_neuron_drought_factor"

definition default_suppression_ratio_threshold :: f64 where
  "default_suppression_ratio_threshold = 0x3FE999999999999A"

definition novelty_suppression_ratio :: "float_parsers \<Rightarrow> environment \<Rightarrow> f64" where
  "novelty_suppression_ratio fp env = unwrap_or default_suppression_ratio_threshold
     (keep_if (\<lambda>v. f64_is_finite v \<and> f64_positive v \<and> f64_less_eq v f64_one)
        (parse_env (parse_f64 fp) env ''NEAT_AI_DISCOVERY_NOVELTY_SUPPRESSION_RATIO''))"

definition default_gain_floor_relaxation :: f32 where "default_gain_floor_relaxation = 0x3F000000"

definition novelty_gain_relaxation :: "float_parsers \<Rightarrow> environment \<Rightarrow> f32" where
  "novelty_gain_relaxation fp env = unwrap_or default_gain_floor_relaxation
     (keep_if in_unit_range (parse_env (parse_f32 fp) env ''NEAT_AI_DISCOVERY_NOVELTY_GAIN_RELAXATION''))"

definition max_min_available_memory_gb :: f64 where
  "max_min_available_memory_gb = 0x4050000000000000"

definition resolve_min_available_memory_gb :: "float_parsers \<Rightarrow> string option \<Rightarrow> f64 \<Rightarrow> f64" where
  "resolve_min_available_memory_gb fp raw default_gb =
     (case raw of
        None \<Rightarrow> default_gb
      | Some r \<Rightarrow>
          if trim r = [] then default_gb
          else unwrap_or default_gb
            (keep_if (\<lambda>v. f64_is_finite v \<and> f64_less_eq f64_zero v \<and> f64_less_eq v max_min_available_memory_gb)
               (parse_f64 fp (trim r))))"

text \<open>The platform's default floor: half a gigabyte on macOS, one elsewhere.\<close>

definition default_min_available_memory_gb :: "bool \<Rightarrow> f64" where
  "default_min_available_memory_gb is_macos = (if is_macos then 0x3FE0000000000000 else f64_one)"

definition min_available_memory_gb :: "float_parsers \<Rightarrow> bool \<Rightarrow> environment \<Rightarrow> f64" where
  "min_available_memory_gb fp is_macos env =
     resolve_min_available_memory_gb fp (env ''NEAT_AI_DISCOVERY_MIN_AVAILABLE_MEMORY_GB'')
       (default_min_available_memory_gb is_macos)"

definition default_drought_reset_after_epochs :: nat where "default_drought_reset_after_epochs = 50"

definition drought_reset_after_epochs :: "environment \<Rightarrow> nat option" where
  "drought_reset_after_epochs env =
     (case env ''NEAT_AI_DISCOVERY_DROUGHT_RESET_AFTER_EPOCHS'' of
        None \<Rightarrow> Some default_drought_reset_after_epochs
      | Some raw \<Rightarrow>
          (case parse_u32 (trim raw) of
             None \<Rightarrow> Some default_drought_reset_after_epochs
           | Some n \<Rightarrow> if n = 0 then None else Some n))"

definition target_cooldown_consecutive_failures :: nat where
  "target_cooldown_consecutive_failures = 3"

definition target_cooldown_consecutive_failures_env :: "environment \<Rightarrow> nat option" where
  "target_cooldown_consecutive_failures_env env =
     keep_if (\<lambda>v. 1 \<le> v) (parse_env parse_u32 env ''NEAT_AI_DISCOVERY_TARGET_COOLDOWN_FAILURES'')"

definition target_cooldown_epochs_env :: "environment \<Rightarrow> nat option" where
  "target_cooldown_epochs_env env =
     keep_if (\<lambda>v. 1 \<le> v) (parse_env parse_u64 env ''NEAT_AI_DISCOVERY_TARGET_COOLDOWN_EPOCHS'')"

definition within_batch_target_failure_limit_env :: "environment \<Rightarrow> nat option" where
  "within_batch_target_failure_limit_env env =
     keep_if (\<lambda>v. 1 \<le> v) (parse_env parse_u32 env ''NEAT_AI_DISCOVERY_BATCH_TARGET_FAILURE_LIMIT'')"

record drought_mitigation_config =
  dm_reset_after_epochs :: "nat option"
  dm_log_threshold :: nat
  dm_low_success_rate_threshold :: f32
  dm_conservative_mode_max_epochs :: nat
  dm_conservative_gain_multiplier :: f32
  dm_target_cooldown_failures :: nat
  dm_target_cooldown_epochs :: nat
  dm_alarm_epochs :: "nat option"
  dm_remove_neuron_drought_factor :: f32

definition drought_mitigation_from_env :: "float_parsers \<Rightarrow> environment \<Rightarrow> drought_mitigation_config" where
  "drought_mitigation_from_env fp env =
     \<lparr>dm_reset_after_epochs = drought_reset_after_epochs env,
      dm_log_threshold = drought_log_threshold env,
      dm_low_success_rate_threshold = low_success_rate_threshold fp env,
      dm_conservative_mode_max_epochs = conservative_mode_max_epochs env,
      dm_conservative_gain_multiplier = conservative_gain_multiplier fp env,
      dm_target_cooldown_failures = unwrap_or target_cooldown_consecutive_failures
        (target_cooldown_consecutive_failures_env env),
      dm_target_cooldown_epochs = unwrap_or (unat default_target_cooldown_epochs) (target_cooldown_epochs_env env),
      dm_alarm_epochs = drought_alarm_epochs env,
      dm_remove_neuron_drought_factor = remove_neuron_drought_factor fp env\<rparr>"

definition epochs_display :: "nat option \<Rightarrow> string" where
  "epochs_display epochs = (case epochs of None \<Rightarrow> ''disabled'' | Some n \<Rightarrow> dec_string n)"

section \<open>Detection and observability\<close>

definition positive_threshold :: "float_parsers \<Rightarrow> environment \<Rightarrow> string \<Rightarrow> f32 \<Rightarrow> f32" where
  "positive_threshold fp env name d =
     unwrap_or d (keep_if (\<lambda>v. f32_is_finite v \<and> f32_positive v) (parse_env (parse_f32 fp) env name))"

definition noise_signal_threshold :: "float_parsers \<Rightarrow> environment \<Rightarrow> f32 \<Rightarrow> f32" where
  "noise_signal_threshold fp env = positive_threshold fp env ''NEAT_AI_DISCOVERY_NOISE_SIGNAL_THRESHOLD''"

definition dominance_threshold :: "float_parsers \<Rightarrow> environment \<Rightarrow> f32 \<Rightarrow> f32" where
  "dominance_threshold fp env = positive_threshold fp env ''NEAT_AI_DISCOVERY_DOMINANCE_THRESHOLD''"

definition gradient_threshold :: "float_parsers \<Rightarrow> environment \<Rightarrow> f32 \<Rightarrow> f32" where
  "gradient_threshold fp env = positive_threshold fp env ''NEAT_AI_DISCOVERY_GRADIENT_THRESHOLD''"

definition timing :: "environment \<Rightarrow> bool" where
  "timing env = parse_bool_env env ''NEAT_AI_DISCOVERY_TIMING''"

datatype profile_mode = Profile_None | Profile_Json

text \<open>The one setting that is compared without being trimmed.\<close>

definition profile_mode_of :: "environment \<Rightarrow> profile_mode" where
  "profile_mode_of env =
     (if ascii_lower (unwrap_or [] (env ''NEAT_AI_DISCOVERY_PROFILE'')) = ''json''
      then Profile_Json else Profile_None)"

definition gpu_metrics :: "environment \<Rightarrow> bool" where
  "gpu_metrics env = parse_bool_env env ''NEAT_AI_DISCOVERY_GPU_METRICS''"

text \<open>\<open>debug_assertions\<close> of the build decides when the variable does not.\<close>

definition strict_candidate_reconciliation :: "bool \<Rightarrow> environment \<Rightarrow> bool" where
  "strict_candidate_reconciliation debug_assertions env =
     unwrap_or debug_assertions
       (parse_optional_bool_env env ''NEAT_AI_DISCOVERY_STRICT_CANDIDATE_RECONCILIATION'')"

definition default_calibration_miss_threshold :: f32 where
  "default_calibration_miss_threshold = 0x41200000"

definition calibration_miss_threshold :: "float_parsers \<Rightarrow> environment \<Rightarrow> f32" where
  "calibration_miss_threshold fp env = unwrap_or default_calibration_miss_threshold
     (keep_if (\<lambda>v. f32_is_finite v \<and> f32_less f32_one v)
        (parse_env (parse_f32 fp) env ''NEAT_AI_DISCOVERY_CALIBRATION_MISS_THRESHOLD''))"

section \<open>Ranges\<close>

lemma keep_ifD: "keep_if P x = Some v \<Longrightarrow> P v"
  by (auto simp: keep_if_def split: option.splits if_splits)

lemma unwrap_or_range: "P d \<Longrightarrow> (\<And>v. x = Some v \<Longrightarrow> P v) \<Longrightarrow> P (unwrap_or d x)"
  by (cases x) (auto simp: unwrap_or_def)

lemma unwrap_or_keep: "P d \<Longrightarrow> P (unwrap_or d (keep_if P x))"
  by (rule unwrap_or_range) (auto dest: keep_ifD)

lemma keep_if_case: "case keep_if P x of None \<Rightarrow> True | Some v \<Rightarrow> P v"
  by (auto simp: keep_if_def split: option.splits)

lemmas time_limit_defs =
  min_gpu_stall_window_secs_def max_gpu_stall_window_secs_def default_gpu_stall_window_secs_def
  max_watchdog_stall_secs_def default_watchdog_abort_delay_secs_def max_watchdog_abort_delay_secs_def
  min_session_ttl_secs_def max_session_ttl_secs_def default_session_ttl_secs_def
  min_wall_clock_minutes_def max_wall_clock_minutes_cap_def default_max_wall_clock_minutes_def

lemmas budget_limit_defs =
  default_focus_ranking_budget_ms_def focus_ranking_budget_min_ms_def focus_ranking_budget_max_ms_def
  default_analysis_reserve_ms_def analysis_reserve_max_ms_def
  min_block_size_def max_block_size_def default_block_size_def

lemma batch_override_range:
  "case gpu_batch_size_override env of None \<Rightarrow> True | Some n \<Rightarrow> 64 \<le> n \<and> n \<le> 4096"
  unfolding gpu_batch_size_override_def by (rule keep_if_case)

lemma retry_limit_range: "resolve_gpu_retry_limit raw \<le> 10"
  by (auto simp: resolve_gpu_retry_limit_def default_gpu_retry_limit_def max_gpu_retry_limit_def
      split: option.split)

lemma stall_window_range:
  "gpu_stall_window env = 0 \<or> ns_per_sec \<le> gpu_stall_window env \<and> gpu_stall_window env \<le> 600 * ns_per_sec"
  using clamp_bounds [of min_gpu_stall_window_secs max_gpu_stall_window_secs]
  by (auto simp: gpu_stall_window_def time_limit_defs split: option.split)

lemma watchdog_timeout_range:
  "case watchdog_stall_timeout env of None \<Rightarrow> True
   | Some d \<Rightarrow> ns_per_sec \<le> d \<and> d \<le> 86400 * ns_per_sec"
  by (auto simp: watchdog_stall_timeout_def max_watchdog_stall_secs_def Let_def split: option.split)

lemma abort_delay_range: "watchdog_abort_delay env \<le> 60 * ns_per_sec"
  by (auto simp: watchdog_abort_delay_def time_limit_defs Let_def)

lemma block_size_range: "10 \<le> block_size env \<and> block_size env \<le> 100000"
  using clamp_bounds [of min_block_size max_block_size] by (simp add: block_size_def budget_limit_defs)

lemma session_ttl_range: "60 \<le> session_ttl_secs env \<and> session_ttl_secs env \<le> 86400"
  using clamp_bounds [of min_session_ttl_secs max_session_ttl_secs]
  by (simp add: session_ttl_secs_def time_limit_defs)

lemma wall_clock_range: "1 \<le> max_wall_clock_minutes env \<and> max_wall_clock_minutes env \<le> 120"
  using clamp_bounds [of min_wall_clock_minutes max_wall_clock_minutes_cap]
  by (simp add: max_wall_clock_minutes_def time_limit_defs)

lemma effective_minutes_range:
  "1 \<le> effective_wall_clock_minutes env r \<and> effective_wall_clock_minutes env r \<le> 120"
  using clamp_bounds [of min_wall_clock_minutes max_wall_clock_minutes_cap] wall_clock_range [of env]
  by (auto simp: effective_wall_clock_minutes_def time_limit_defs split: option.split)

lemma scaled_budget_range:
  "1000 \<le> scale_default_focus_ranking_budget_ms lazy mb \<and>
   scale_default_focus_ranking_budget_ms lazy mb \<le> 3600000"
  using clamp_bounds [of focus_ranking_budget_min_ms focus_ranking_budget_max_ms]
  by (simp add: scale_default_focus_ranking_budget_ms_def budget_limit_defs Let_def)

lemma explicit_budget_range:
  "focus_ranking_budget_override env = Explicit v \<Longrightarrow> 1000 \<le> v \<and> v \<le> 3600000"
  using clamp_bounds [of focus_ranking_budget_min_ms focus_ranking_budget_max_ms]
  by (auto simp: focus_ranking_budget_override_def budget_limit_defs split: option.splits if_splits)

lemma effective_budget_range:
  "case effective_focus_ranking_budget_ms env lazy mb of None \<Rightarrow> True
   | Some b \<Rightarrow> 1000 \<le> b \<and> b \<le> 3600000"
  using explicit_budget_range scaled_budget_range
  by (auto simp: effective_focus_ranking_budget_ms_def split: focus_budget_override.split option.split)

lemma reserve_range: "analysis_reserve_ms env \<le> 3600000"
  using clamp_bounds [of 1 analysis_reserve_max_ms]
  by (auto simp: analysis_reserve_ms_def budget_limit_defs split: option.split)

text \<open>
  With the minutes that the library resolves, the wall-clock cap always takes effect: whatever
  the environment and the caller ask for, the capped deadline exists, lies no later than two hours
  after the start, no later than the resolved minutes, and no later than the deadline it caps.
\<close>

theorem wall_clock_cap_always_binds:
  assumes "time_representable (start + 7200 * int ns_per_sec)" "- (2 ^ 63) * int ns_per_sec \<le> start"
  shows "case cap_deadline_to_wall_clock deadline start
             (Some (word_of_nat (effective_wall_clock_minutes env requested))) of
           None \<Rightarrow> False
         | Some t \<Rightarrow>
             t \<le> start + 60 * int (effective_wall_clock_minutes env requested) * int ns_per_sec \<and>
             t \<le> start + 7200 * int ns_per_sec \<and>
             (case deadline of None \<Rightarrow> start < t | Some d \<Rightarrow> t \<le> d)"
proof -
  define m where "m = effective_wall_clock_minutes env requested"
  have m: "1 \<le> m" "m \<le> 120" using effective_minutes_range unfolding m_def by blast+
  then have u: "unat (word_of_nat m :: u64) = m" by (simp add: unsigned_of_nat take_bit_nat_eq_self)
  have "- (2 ^ 63) \<le> (start + int m * 60 * int ns_per_sec) div int ns_per_sec"
    using assms(2) by (simp add: ns_per_sec_def)
  moreover have "start + int m * 60 * int ns_per_sec \<le> start + 7200 * int ns_per_sec"
    using m by (simp add: ns_per_sec_def)
  then have "(start + int m * 60 * int ns_per_sec) div int ns_per_sec < 2 ^ 63"
    using assms(1) zdiv_mono1 [of _ _ "int ns_per_sec"] unfolding time_representable_def
    by (smt (verit) ns_per_sec_def of_nat_0_less_iff zero_less_numeral)
  ultimately have "wall_clock_deadline start (Some (word_of_nat m)) = Some (start + int m * 60 * int ns_per_sec)"
    using m by (simp only: wall_clock_exact u time_representable_def) simp
  then show ?thesis using m unfolding m_def [symmetric]
    by (cases deadline) (auto simp: cap_deadline_to_wall_clock_def ns_per_sec_def min_def)
qed

theorem wall_clock_cap_always_binds_witness:
  "effective_wall_clock_minutes (\<lambda>_. None) (Some 600) = 120 \<and>
   (case cap_deadline_to_wall_clock None 0
           (Some (word_of_nat (effective_wall_clock_minutes (\<lambda>_. None) (Some 600)))) of
      None \<Rightarrow> False | Some t \<Rightarrow> 0 < t \<and> t \<le> 7200 * int ns_per_sec)"
proof -
  have "effective_wall_clock_minutes (\<lambda>_. None) (Some 600) = 120"
    by (simp add: effective_wall_clock_minutes_def clamp_def time_limit_defs)
  then show ?thesis
    using wall_clock_cap_always_binds [of 0 "\<lambda>_. None" "Some 600" None]
    by (simp add: time_representable_def ns_per_sec_def split: option.splits)
qed

section \<open>Fractions and thresholds\<close>

lemma f64_not_less_imp_less_eq:
  "f64_is_finite a \<Longrightarrow> f64_is_finite b \<Longrightarrow> \<not> f64_less b a \<Longrightarrow> f64_less_eq a b"
  by (auto simp: f64_is_finite_def f64_less_def f64_less_eq_def)

lemma f32_finite_not_nan: "f32_is_finite x \<Longrightarrow> \<not> f32_is_nan x"
proof -
  assume fin: "f32_is_finite x"
  have "drop_bit 23 (f32_magnitude x) = f32_exponent x"
    by (rule bit_word_eqI)
      (auto simp: f32_magnitude_def f32_exponent_def bit_simps bit_numeral_rec)
  moreover have "drop_bit 23 (f32_magnitude x) = 255" if "0x7F800000 < f32_magnitude x"
  proof -
    have "uint (f32_magnitude x) \<le> 0x7FFFFFFF"
      by (simp add: f32_magnitude_def uint_and)
    moreover have "0x7F800000 < uint (f32_magnitude x)" using that by (simp add: word_less_def)
    ultimately have "uint (f32_magnitude x) div 2 ^ 23 = 255" by simp
    then have "uint (drop_bit 23 (f32_magnitude x)) = 255" 
      by (simp add: drop_bit_eq_div uint_div_distrib)
    then show ?thesis by (intro unsigned_word_eqI) simp
  qed
  ultimately show ?thesis using fin by (auto simp: f32_is_finite_def f32_is_nan_def)
qed

lemma finite_not_less:
  assumes "f32_is_finite a" "f32_is_finite b" "\<not> f32_less a b"
  shows "f32_greater_eq a b"
  using assms f32_not_less_iff f32_finite_not_nan by blast

lemmas f32_constant_defs =
  f32_one_def f32_is_finite_def f32_exponent_def f32_less_def f32_greater_eq_def f32_positive_def
  f32_is_nan_def f32_rank_def f32_negative_def f32_magnitude_def f32_zero_def

lemmas f64_constant_defs =
  f64_one_def f64_zero_def f64_is_finite_def f64_positive_def f64_less_def f64_less_eq_def
  f64_rank_def f64_magnitude_def

definition f32_within :: "f32 \<Rightarrow> f32 \<Rightarrow> f32 \<Rightarrow> bool" where
  "f32_within lo hi v \<longleftrightarrow> f32_is_finite v \<and> f32_greater_eq v lo \<and> f32_greater_eq hi v"

lemma f32_clamp_within:
  assumes "f32_is_finite v" "f32_within lo hi lo" "f32_within lo hi hi"
  shows "f32_within lo hi (f32_clamp lo hi v)"
  using assms finite_not_less [of v lo] finite_not_less [of hi v]
  by (auto simp: f32_within_def f32_clamp_def)

lemma in_unit_range_constants [simp]:
  "in_unit_range default_low_success_rate_threshold" "in_unit_range default_gain_floor_relaxation"
  by (simp_all add: in_unit_range_def f32_at_most_def f32_constant_defs
      default_low_success_rate_threshold_def default_gain_floor_relaxation_def)

lemma unit_settings_range:
  "in_unit_range (low_success_rate_threshold fp env)" "in_unit_range (novelty_gain_relaxation fp env)"
  unfolding low_success_rate_threshold_def novelty_gain_relaxation_def
  by (rule unwrap_or_keep; simp)+

lemma remove_neuron_constants [simp]:
  "f32_within min_remove_neuron_drought_factor neutral_deprioritisation_factor min_remove_neuron_drought_factor"
  "f32_within min_remove_neuron_drought_factor neutral_deprioritisation_factor neutral_deprioritisation_factor"
  "f32_is_finite default_remove_neuron_drought_factor"
  by (simp_all add: f32_within_def f32_constant_defs min_remove_neuron_drought_factor_def
      neutral_deprioritisation_factor_def default_remove_neuron_drought_factor_def)

lemma remove_neuron_factor_range:
  "f32_within min_remove_neuron_drought_factor neutral_deprioritisation_factor
     (remove_neuron_drought_factor fp env)"
  unfolding remove_neuron_drought_factor_def resolve_remove_neuron_drought_factor_def
  by (rule f32_clamp_within, rule unwrap_or_keep) simp_all

lemma gain_multiplier_range:
  "f32_is_finite (conservative_gain_multiplier fp env) \<and>
   f32_greater_eq (conservative_gain_multiplier fp env) f32_one"
proof -
  have "f32_is_finite (unwrap_or default_conservative_gain_multiplier (keep_if f32_is_finite x))" for x
    by (rule unwrap_or_keep) (simp add: default_conservative_gain_multiplier_def f32_constant_defs)
  moreover have "f32_is_finite f32_one" "f32_greater_eq f32_one f32_one"
    by (simp_all add: f32_constant_defs)
  ultimately show ?thesis using finite_not_less [of _ f32_one]
    by (auto simp: conservative_gain_multiplier_def Let_def)
qed

lemma reserve_fraction_range:
  "f64_positive (analysis_reserve_fraction fp env) \<and>
   f64_less_eq (analysis_reserve_fraction fp env) analysis_reserve_fraction_max"
proof -
  have "f64_positive analysis_reserve_fraction_max" "f64_is_finite analysis_reserve_fraction_max"
    "f64_positive default_analysis_reserve_fraction"
    "f64_less_eq analysis_reserve_fraction_max analysis_reserve_fraction_max"
    "f64_less_eq default_analysis_reserve_fraction analysis_reserve_fraction_max"
    by (simp_all add: analysis_reserve_fraction_max_def default_analysis_reserve_fraction_def
        f64_constant_defs)
  then show ?thesis using f64_not_less_imp_less_eq [of _ analysis_reserve_fraction_max]
    by (auto simp: analysis_reserve_fraction_def split: option.splits)
qed

lemma insufficient_fraction_range:
  "case insufficient_recording_fraction fp env of None \<Rightarrow> True
   | Some v \<Rightarrow> f64_positive v \<and> f64_less_eq v f64_one"
proof -
  have "f64_positive default_insufficient_recording_fraction"
    "f64_less_eq default_insufficient_recording_fraction f64_one"
    by (simp_all add: default_insufficient_recording_fraction_def f64_constant_defs)
  then show ?thesis
    by (auto simp: insufficient_recording_fraction_def resolve_insufficient_recording_fraction_def
        split: option.splits)
qed

text \<open>
  Whatever a fraction or factor setting holds, the value used is a number in its range: the
  drought fractions lie in the half-open unit interval, the factor that deprioritises removals
  between its floor and one, the conservative gain multiplier is at least one, and the analysis
  reserve is a positive share that leaves a tenth of the window.
\<close>

theorem fraction_settings_in_range:
  "in_unit_range (low_success_rate_threshold fp env) \<and>
   in_unit_range (novelty_gain_relaxation fp env) \<and>
   f32_within min_remove_neuron_drought_factor neutral_deprioritisation_factor
     (remove_neuron_drought_factor fp env) \<and>
   f32_is_finite (conservative_gain_multiplier fp env) \<and>
   f32_greater_eq (conservative_gain_multiplier fp env) f32_one \<and>
   f64_positive (analysis_reserve_fraction fp env) \<and>
   f64_less_eq (analysis_reserve_fraction fp env) analysis_reserve_fraction_max \<and>
   (case insufficient_recording_fraction fp env of None \<Rightarrow> True
    | Some v \<Rightarrow> f64_positive v \<and> f64_less_eq v f64_one)"
  using unit_settings_range [of fp env] remove_neuron_factor_range [of fp env] reserve_fraction_range [of fp env]
    gain_multiplier_range [of fp env] insufficient_fraction_range [of fp env]
  by (simp only: simp_thms)

section \<open>Switching a guard off\<close>

lemma clamp_pos: "0 < lo \<Longrightarrow> lo \<le> hi \<Longrightarrow> 0 < clamp lo hi (v :: nat)"
  using clamp_bounds [of lo hi v] by linarith

lemma stall_window_off_iff:
  "gpu_stall_window env = 0 \<longleftrightarrow> parse_env parse_u64 env ''NEAT_AI_DISCOVERY_GPU_STALL_WINDOW_SECS'' = Some 0"
  using clamp_pos [of min_gpu_stall_window_secs max_gpu_stall_window_secs]
  by (auto simp: gpu_stall_window_def time_limit_defs ns_per_sec_def split: option.split)

lemma retry_off_iff: "resolve_gpu_retry_limit raw = 0 \<longleftrightarrow> Option.bind raw (parse_u32 \<circ> trim) = Some 0"
  by (auto simp: resolve_gpu_retry_limit_def default_gpu_retry_limit_def split: option.split)

lemma focus_budget_off_iff:
  "effective_focus_ranking_budget_ms env lazy mb = None \<longleftrightarrow>
     Option.bind (env_value env ''NEAT_AI_DISCOVERY_FOCUS_RANKING_BUDGET_MS'') parse_u64 = Some 0"
  by (auto simp: effective_focus_ranking_budget_ms_def focus_ranking_budget_override_def
      split: option.split focus_budget_override.split)

lemma reserve_off_iff:
  "analysis_reserve_ms env = 0 \<longleftrightarrow>
     Option.bind (env_value env ''NEAT_AI_DISCOVERY_ANALYSIS_RESERVE_MS'') parse_u64 = Some 0"
  using clamp_pos [of 1 analysis_reserve_max_ms]
  by (auto simp: analysis_reserve_ms_def budget_limit_defs split: option.split)

lemma drought_alarm_off_iff:
  "drought_alarm_epochs env = None \<longleftrightarrow>
     parse_env parse_u32 env ''NEAT_AI_DISCOVERY_DROUGHT_ALARM_EPOCHS'' = Some 0"
  by (auto simp: drought_alarm_epochs_def resolve_drought_alarm_epochs_def parse_env_def split: option.split)

lemma drought_reset_off_iff:
  "drought_reset_after_epochs env = None \<longleftrightarrow>
     parse_env parse_u32 env ''NEAT_AI_DISCOVERY_DROUGHT_RESET_AFTER_EPOCHS'' = Some 0"
  by (auto simp: drought_reset_after_epochs_def parse_env_def split: option.split)

text \<open>
  A guard that is on by default is switched off by an explicit zero and by nothing else: an
  unset, blank or malformed variable leaves it on.
\<close>

theorem guards_off_only_by_zero:
  "(gpu_stall_window env = 0) =
     (parse_env parse_u64 env ''NEAT_AI_DISCOVERY_GPU_STALL_WINDOW_SECS'' = Some 0) \<and>
   (resolve_gpu_retry_limit raw = 0) = (Option.bind raw (parse_u32 \<circ> trim) = Some 0) \<and>
   (effective_focus_ranking_budget_ms env lazy mb = None) =
     (Option.bind (env_value env ''NEAT_AI_DISCOVERY_FOCUS_RANKING_BUDGET_MS'') parse_u64 = Some 0) \<and>
   (analysis_reserve_ms env = 0) =
     (Option.bind (env_value env ''NEAT_AI_DISCOVERY_ANALYSIS_RESERVE_MS'') parse_u64 = Some 0) \<and>
   (drought_alarm_epochs env = None) =
     (parse_env parse_u32 env ''NEAT_AI_DISCOVERY_DROUGHT_ALARM_EPOCHS'' = Some 0) \<and>
   (drought_reset_after_epochs env = None) =
     (parse_env parse_u32 env ''NEAT_AI_DISCOVERY_DROUGHT_RESET_AFTER_EPOCHS'' = Some 0)"
  by (simp only: stall_window_off_iff retry_off_iff focus_budget_off_iff reserve_off_iff
      drought_alarm_off_iff drought_reset_off_iff simp_thms)

text \<open>A warning is logged once for each value, however often a reader runs.\<close>

lemma warn_guard_once:
  assumes "warn_guard name raw (seen, lines) = (seen', lines')"
  shows "warn_guard name raw (seen', lines') = (seen', lines')"
    and "set lines \<subseteq> seen \<Longrightarrow> distinct lines \<Longrightarrow> set lines' \<subseteq> seen' \<and> distinct lines'"
  using assms by (auto simp: warn_guard_def first_opt_out_sighting_def split: if_splits)

end
