(* ===== verification/Limits.thy ===== *)
theory Limits
  imports Config Candidates Cooldown
begin

text \<open>
  The integral settings as a whole (\<open>docs/CONFIGURATION.md\<close>): the limits on emitted candidates of
  \<open>analysis/constants/candidate_scoring.rs\<close>, read from the environment by the helpers of the
  configuration module, and the ranges of every integral variable for which the document gives one.
\<close>

section \<open>Limits on candidates\<close>

definition max_add_neuron_candidates_per_target :: "environment \<Rightarrow> nat" where
  "max_add_neuron_candidates_per_target env =
     clamp 1 32 (unwrap_or 3 (parse_env parse_usize env ''NEAT_AI_DISCOVERY_MAX_ADD_NEURON_PER_TARGET''))"

definition max_coordinated_per_target_output :: "environment \<Rightarrow> nat" where
  "max_coordinated_per_target_output env =
     max_coordinated_per_target (parse_env parse_usize env ''NEAT_AI_DISCOVERY_MAX_COORDINATED_PER_TARGET'')"

definition min_distinct_targets_per_batch :: "environment \<Rightarrow> nat" where
  "min_distinct_targets_per_batch env =
     clamp 1 32 (unwrap_or 3 (parse_env parse_usize env ''NEAT_AI_DISCOVERY_MIN_DISTINCT_TARGETS_PER_BATCH''))"

definition neuron_ranking_reliability_bands :: "environment \<Rightarrow> nat" where
  "neuron_ranking_reliability_bands env =
     clamp 1 1000 (unwrap_or 10 (parse_env parse_u32 env ''NEAT_AI_DISCOVERY_NEURON_RANKING_BANDS''))"

text \<open>The two divisors of the target cooldown, as the environment sets them.\<close>

definition conservative_divisor_setting :: "environment \<Rightarrow> u64" where
  "conservative_divisor_setting env = cooldown_conservative_divisor
     (map_option word_of_nat (parse_env parse_u64 env ''NEAT_AI_DISCOVERY_COOLDOWN_CONSERVATIVE_DIVISOR''))"

definition extended_drought_divisor_setting :: "environment \<Rightarrow> u64" where
  "extended_drought_divisor_setting env = cooldown_extended_drought_divisor
     (map_option word_of_nat (parse_env parse_u64 env ''NEAT_AI_DISCOVERY_COOLDOWN_EXTENDED_DROUGHT_DIVISOR''))"

section \<open>Ranges\<close>

lemma candidate_limits_range:
  "1 \<le> max_add_neuron_candidates_per_target env" "max_add_neuron_candidates_per_target env \<le> 32"
  "1 \<le> max_coordinated_per_target_output env" "max_coordinated_per_target_output env \<le> 32"
  "1 \<le> min_distinct_targets_per_batch env" "min_distinct_targets_per_batch env \<le> 32"
  "1 \<le> neuron_ranking_reliability_bands env" "neuron_ranking_reliability_bands env \<le> 1000"
  using clamp_bounds [of "1 :: nat" 32] clamp_bounds [of "1 :: nat" 1000]
  by (simp_all add: max_add_neuron_candidates_per_target_def max_coordinated_per_target_output_def
      max_coordinated_per_target_def min_distinct_targets_per_batch_def neuron_ranking_reliability_bands_def)

lemma clamp_divisor_range: "1 \<le> clamp_divisor d \<and> clamp_divisor d \<le> 64"
  by (simp add: clamp_divisor_def cooldown_divisor_floor_def cooldown_divisor_ceiling_def)

lemma divisor_range:
  "1 \<le> conservative_divisor_setting env" "conservative_divisor_setting env \<le> 64"
  "1 \<le> extended_drought_divisor_setting env" "extended_drought_divisor_setting env \<le> 64"
  using clamp_divisor_range
  by (simp_all add: conservative_divisor_setting_def extended_drought_divisor_setting_def
      cooldown_conservative_divisor_def cooldown_extended_drought_divisor_def)

text \<open>The settings of which only 0 is excluded, some of them optional.\<close>

definition positive_if_set :: "nat option \<Rightarrow> bool" where
  "positive_if_set x \<longleftrightarrow> (case x of None \<Rightarrow> True | Some n \<Rightarrow> 1 \<le> n)"

lemma positive_settings:
  "1 \<le> drought_log_threshold env" "1 \<le> conservative_mode_max_epochs env"
  "positive_if_set (target_cooldown_consecutive_failures_env env)"
  "positive_if_set (target_cooldown_epochs_env env)"
  "positive_if_set (within_batch_target_failure_limit_env env)"
  "positive_if_set (drought_alarm_epochs env)" "positive_if_set (drought_reset_after_epochs env)"
  "positive_if_set (max_parquet_decode_mb env)" "positive_if_set (focus_ranking_memory_budget_mb env)"
  "positive_if_set (max_sources_per_target env)"
proof -
  show "1 \<le> drought_log_threshold env" unfolding drought_log_threshold_def
    by (rule unwrap_or_keep) (simp add: default_drought_log_threshold_def)
  show "1 \<le> conservative_mode_max_epochs env" unfolding conservative_mode_max_epochs_def
    by (rule unwrap_or_keep) (simp add: default_conservative_mode_max_epochs_def)
qed (auto simp: positive_if_set_def target_cooldown_consecutive_failures_env_def target_cooldown_epochs_env_def
  within_batch_target_failure_limit_env_def drought_alarm_epochs_def resolve_drought_alarm_epochs_def
  default_drought_alarm_epochs_def drought_reset_after_epochs_def default_drought_reset_after_epochs_def
  max_parquet_decode_mb_def focus_ranking_memory_budget_mb_def positive_u64_def max_sources_per_target_def
  dest: keep_ifD split: option.splits if_splits)

lemma retry_setting_range: "gpu_retry_limit env \<le> 10"
  by (simp add: gpu_retry_limit_def retry_limit_range)

text \<open>
  C25. Every integral setting for which the configuration document gives a range lies in that range,
  whatever the environment holds: the sizes, times and counts that are clamped or refused outside
  an interval, and those of which only 0 is excluded, which are read as unset or as the default. A
  setting that may be off (a zero window or delay, or no value) is in range when it is on.
\<close>

theorem settings_in_range:
  "(case gpu_batch_size_override env of None \<Rightarrow> True | Some n \<Rightarrow> 64 \<le> n \<and> n \<le> 4096) \<and>
   gpu_retry_limit env \<le> 10 \<and>
   (gpu_stall_window env = 0 \<or>
      ns_per_sec \<le> gpu_stall_window env \<and> gpu_stall_window env \<le> 600 * ns_per_sec) \<and>
   (case watchdog_stall_timeout env of None \<Rightarrow> True
    | Some d \<Rightarrow> ns_per_sec \<le> d \<and> d \<le> 86400 * ns_per_sec) \<and>
   watchdog_abort_delay env \<le> 60 * ns_per_sec \<and>
   10 \<le> block_size env \<and> block_size env \<le> 100000 \<and>
   60 \<le> session_ttl_secs env \<and> session_ttl_secs env \<le> 86400 \<and>
   1 \<le> effective_wall_clock_minutes env minutes \<and> effective_wall_clock_minutes env minutes \<le> 120 \<and>
   (case effective_focus_ranking_budget_ms env lazy mb of None \<Rightarrow> True
    | Some b \<Rightarrow> 1000 \<le> b \<and> b \<le> 3600000) \<and>
   analysis_reserve_ms env \<le> 3600000 \<and>
   1 \<le> max_add_neuron_candidates_per_target env \<and> max_add_neuron_candidates_per_target env \<le> 32 \<and>
   1 \<le> max_coordinated_per_target_output env \<and> max_coordinated_per_target_output env \<le> 32 \<and>
   1 \<le> min_distinct_targets_per_batch env \<and> min_distinct_targets_per_batch env \<le> 32 \<and>
   1 \<le> neuron_ranking_reliability_bands env \<and> neuron_ranking_reliability_bands env \<le> 1000 \<and>
   1 \<le> conservative_divisor_setting env \<and> conservative_divisor_setting env \<le> 64 \<and>
   1 \<le> extended_drought_divisor_setting env \<and> extended_drought_divisor_setting env \<le> 64 \<and>
   1 \<le> drought_log_threshold env \<and> 1 \<le> conservative_mode_max_epochs env \<and>
   positive_if_set (target_cooldown_consecutive_failures_env env) \<and>
   positive_if_set (target_cooldown_epochs_env env) \<and>
   positive_if_set (within_batch_target_failure_limit_env env) \<and>
   positive_if_set (drought_alarm_epochs env) \<and> positive_if_set (drought_reset_after_epochs env) \<and>
   positive_if_set (max_parquet_decode_mb env) \<and> positive_if_set (focus_ranking_memory_budget_mb env) \<and>
   positive_if_set (max_sources_per_target env)"
  by (simp only: batch_override_range retry_setting_range stall_window_range watchdog_timeout_range
      abort_delay_range block_size_range session_ttl_range effective_minutes_range
      effective_budget_range reserve_range candidate_limits_range divisor_range positive_settings simp_thms)

end
