(* ===== verification/Calibration.thy ===== *)
theory Calibration
  imports Config
begin

text \<open>
  The calibration of predicted gains (\<open>src/analysis/scoring/calibration_correction.rs\<close> and
  \<open>sample_creature_disconnect.rs\<close>, with the prior of risky squashes of
  \<open>constants/candidate_scoring.rs\<close>): the ratios of achieved to expected gains in the failure cache
  are grouped by change type, by target squash and by variant, averaged with exponential weights
  and clamped, and entries whose samples improved while the creature did not halve a penalty.
  The hash maps are maps; a loop over one inserts under distinct keys, so its order is immaterial.
\<close>

section \<open>The failure cache\<close>

record failure_cache_entry =
  fc_change_type :: string
  fc_expected :: f32
  fc_actual :: f32
  fc_target_squash :: "string option"
  fc_variant_key :: "string option"
  fc_target_uuid :: "string option"
  fc_improved_count :: "u32 option"
  fc_total_count :: "u32 option"
  fc_age_epochs :: "u32 option"

record target_neuron_info =
  tn_squash :: "string option"
  tn_uuid :: "string option"

text \<open>The entry as the JSON holds it, with the nested forms of three of its fields.\<close>

record failure_cache_entry_raw =
  raw_change_type :: string
  raw_expected :: f32
  raw_actual :: f32
  raw_target_neuron_info :: "target_neuron_info option"
  raw_target_squash :: "string option"
  raw_variant_key :: "string option"
  raw_variant_info :: "string option option"
  raw_target_uuid :: "string option"
  raw_age_epochs :: "u32 option"
  raw_improved_count :: "u32 option"
  raw_total_count :: "u32 option"

definition or_else :: "'a option \<Rightarrow> 'a option \<Rightarrow> 'a option" where
  "or_else a b = (case a of Some v \<Rightarrow> Some v | None \<Rightarrow> b)"

definition entry_of_raw :: "failure_cache_entry_raw \<Rightarrow> failure_cache_entry" where
  "entry_of_raw r =
     \<lparr>fc_change_type = raw_change_type r,
      fc_expected = raw_expected r,
      fc_actual = raw_actual r,
      fc_target_squash = or_else (raw_target_squash r) (Option.bind (raw_target_neuron_info r) tn_squash),
      fc_variant_key = or_else (raw_variant_key r) (Option.bind (raw_variant_info r) (\<lambda>k. k)),
      fc_target_uuid = or_else (raw_target_uuid r) (Option.bind (raw_target_neuron_info r) tn_uuid),
      fc_improved_count = raw_improved_count r,
      fc_total_count = raw_total_count r,
      fc_age_epochs = raw_age_epochs r\<rparr>"

section \<open>Samples that improve while the creature does not\<close>

definition sample_disconnect_ratio_threshold :: f32 where
  "sample_disconnect_ratio_threshold = 0x3F733333"

definition sample_disconnect_penalty :: f32 where "sample_disconnect_penalty = 0x3F000000"

definition detect_disconnect :: "u32 \<Rightarrow> u32 \<Rightarrow> f32 \<Rightarrow> bool" where
  "detect_disconnect improved total_count actual =
     (if total_count = 0 \<or> total_count < improved then False
      else if \<not> f32_is_finite actual then False
      else
        f32_greater_eq (f32_div (f32_of_nat (unat improved)) (f32_of_nat (unat total_count)))
          sample_disconnect_ratio_threshold \<and>
        f32_greater_eq f32_zero actual)"

definition detect_disconnect_entry :: "failure_cache_entry \<Rightarrow> bool" where
  "detect_disconnect_entry e =
     (case (fc_improved_count e, fc_total_count e) of
        (Some improved, Some total_count) \<Rightarrow> detect_disconnect improved total_count (fc_actual e)
      | _ \<Rightarrow> False)"

section \<open>The prior of risky squashes\<close>

definition risky_target_squashes :: "string list" where
  "risky_target_squashes = [''SINE'', ''COSINE'', ''GAUSSIAN'', ''SQUARE'', ''ABSOLUTE'']"

definition risky_squash_prior_default :: f32 where "risky_squash_prior_default = 0x3E800000"
definition min_risky_squash_prior :: f32 where "min_risky_squash_prior = 0x3A83126F"
definition max_risky_squash_prior :: f32 where "max_risky_squash_prior = f32_one"

definition is_risky_target_squash :: "string \<Rightarrow> bool" where
  "is_risky_target_squash squash \<longleftrightarrow> squash \<in> set risky_target_squashes"

definition risky_squash_prior :: "float_parsers \<Rightarrow> environment \<Rightarrow> f32" where
  "risky_squash_prior fp env =
     f32_clamp min_risky_squash_prior max_risky_squash_prior
       (unwrap_or risky_squash_prior_default
         (keep_if f32_is_finite (parse_env (parse_f32 fp) env ''NEAT_AI_DISCOVERY_RISKY_SQUASH_PRIOR'')))"

section \<open>The corrections\<close>

definition min_calibration_correction :: f32 where "min_calibration_correction = 0x3A83126F"
definition neutral_correction :: f32 where "neutral_correction = f32_one"
definition calibration_correction_ewma_alpha :: f32 where
  "calibration_correction_ewma_alpha = 0x3E99999A"
definition min_specific_target_squash_samples :: nat where "min_specific_target_squash_samples = 3"
definition min_specific_variant_key_samples :: nat where "min_specific_variant_key_samples = 3"

definition ewma_step :: "f32 \<Rightarrow> f32 \<Rightarrow> f32 \<Rightarrow> f32" where
  "ewma_step alpha x acc = f32_add (f32_mul (f32_sub f32_one alpha) acc) (f32_mul alpha x)"

fun ewma :: "f32 list \<Rightarrow> f32 \<Rightarrow> f32" where
  "ewma [] alpha = neutral_correction"
| "ewma (v # vs) alpha = fold (ewma_step alpha) vs v"

record calibration_correction =
  cc_corrections :: "string \<rightharpoonup> f32"
  cc_specific :: "string \<times> string \<rightharpoonup> f32"
  cc_variant :: "string \<times> string \<rightharpoonup> f32"
  cc_disconnect :: "string \<times> string \<times> string \<rightharpoonup> f32"

definition neutral :: calibration_correction where
  "neutral = \<lparr>cc_corrections = Map.empty, cc_specific = Map.empty, cc_variant = Map.empty,
     cc_disconnect = Map.empty\<rparr>"

definition push_ratio :: "'k \<Rightarrow> f32 \<Rightarrow> ('k \<rightharpoonup> f32 list) \<Rightarrow> ('k \<rightharpoonup> f32 list)" where
  "push_ratio k v g = g(k \<mapsto> (case g k of None \<Rightarrow> [v] | Some vs \<Rightarrow> vs @ [v]))"

record ratio_groups =
  rg_change_type :: "string \<rightharpoonup> f32 list"
  rg_specific :: "string \<times> string \<rightharpoonup> f32 list"
  rg_variant :: "string \<times> string \<rightharpoonup> f32 list"

definition group_entry :: "failure_cache_entry \<Rightarrow> ratio_groups \<Rightarrow> ratio_groups" where
  "group_entry e g =
     (if f32_is_zero (fc_expected e) then g
      else
        (let ratio = f32_div (fc_actual e) (fc_expected e) in
         if \<not> f32_is_finite ratio then g
         else
           \<lparr>rg_change_type = push_ratio (fc_change_type e) ratio (rg_change_type g),
            rg_specific = (case fc_target_squash e of None \<Rightarrow> rg_specific g
              | Some squash \<Rightarrow> push_ratio (fc_change_type e, squash) ratio (rg_specific g)),
            rg_variant = (case fc_variant_key e of None \<Rightarrow> rg_variant g
              | Some variant \<Rightarrow> push_ratio (fc_change_type e, variant) ratio (rg_variant g))\<rparr>))"

definition no_groups :: ratio_groups where
  "no_groups = \<lparr>rg_change_type = Map.empty, rg_specific = Map.empty, rg_variant = Map.empty\<rparr>"

text \<open>The loops over the groups, which skip those with too few ratios.\<close>

definition averaged :: "nat \<Rightarrow> ('k \<rightharpoonup> f32 list) \<Rightarrow> ('k \<rightharpoonup> f32)" where
  "averaged fewest g = (\<lambda>k.
     case g k of
       None \<Rightarrow> None
     | Some ratios \<Rightarrow>
         if length ratios < fewest then None
         else Some (f32_clamp min_calibration_correction neutral_correction
                (ewma ratios calibration_correction_ewma_alpha)))"

definition penalise_entry ::
  "failure_cache_entry \<Rightarrow> (string \<times> string \<times> string \<rightharpoonup> f32) \<Rightarrow> (string \<times> string \<times> string \<rightharpoonup> f32)" where
  "penalise_entry e penalties =
     (if \<not> detect_disconnect_entry e then penalties
      else
        (case (fc_target_squash e, fc_variant_key e) of
           (Some squash, Some variant) \<Rightarrow>
             (let key = (fc_change_type e, squash, variant);
                  current = (case penalties key of Some v \<Rightarrow> v | None \<Rightarrow> neutral_correction)
              in penalties(key \<mapsto> f32_clamp min_calibration_correction neutral_correction
                   (f32_mul current sample_disconnect_penalty)))
         | _ \<Rightarrow> penalties))"

definition from_failure_cache :: "failure_cache_entry list \<Rightarrow> calibration_correction" where
  "from_failure_cache cache =
     (let g = fold group_entry cache no_groups in
      \<lparr>cc_corrections = averaged 0 (rg_change_type g),
       cc_specific = averaged min_specific_target_squash_samples (rg_specific g),
       cc_variant = averaged min_specific_variant_key_samples (rg_variant g),
       cc_disconnect = fold penalise_entry cache Map.empty\<rparr>)"

definition get_correction :: "calibration_correction \<Rightarrow> string \<Rightarrow> f32" where
  "get_correction cc change_type = unwrap_or neutral_correction (cc_corrections cc change_type)"

text \<open>\<open>prior\<close> is the value of \<open>risky_squash_prior()\<close> at the call.\<close>

definition correction_for :: "f32 \<Rightarrow> calibration_correction \<Rightarrow> string \<Rightarrow> string option \<Rightarrow> f32" where
  "correction_for prior cc change_type target_squash =
     (case target_squash of
        None \<Rightarrow> get_correction cc change_type
      | Some squash \<Rightarrow>
          (case cc_specific cc (change_type, squash) of
             Some v \<Rightarrow> v
           | None \<Rightarrow>
               if is_risky_target_squash squash then prior else get_correction cc change_type))"

definition variant_correction_for :: "calibration_correction \<Rightarrow> string \<Rightarrow> string \<Rightarrow> f32" where
  "variant_correction_for cc change_type variant =
     unwrap_or neutral_correction (cc_variant cc (change_type, variant))"

definition disconnect_penalty_for :: "calibration_correction \<Rightarrow> string \<Rightarrow> string \<Rightarrow> string \<Rightarrow> f32" where
  "disconnect_penalty_for cc change_type squash variant =
     unwrap_or neutral_correction (cc_disconnect cc (change_type, squash, variant))"

definition correction_for_triple ::
  "f32 \<Rightarrow> calibration_correction \<Rightarrow> string \<Rightarrow> string \<Rightarrow> string \<Rightarrow> f32" where
  "correction_for_triple prior cc change_type squash variant =
     f32_clamp min_calibration_correction neutral_correction
       (f32_mul (correction_for prior cc change_type (Some squash))
          (disconnect_penalty_for cc change_type squash variant))"

definition is_empty_calibration :: "calibration_correction \<Rightarrow> bool" where
  "is_empty_calibration cc \<longleftrightarrow> cc_corrections cc = Map.empty"

section \<open>Averages stay numbers\<close>

definition correction_range :: "f32 \<Rightarrow> bool" where
  "correction_range v \<longleftrightarrow> f32_greater_eq v min_calibration_correction \<and> f32_greater_eq neutral_correction v"

lemma range_limits:
  "\<not> f32_is_nan min_calibration_correction" "\<not> f32_is_nan neutral_correction"
  "f32_rank min_calibration_correction \<le> f32_rank neutral_correction"
  by (simp_all add: min_calibration_correction_def neutral_correction_def f32_constant_defs)

lemma clamp_correction_range:
  "\<not> f32_is_nan v \<Longrightarrow> correction_range (f32_clamp min_calibration_correction neutral_correction v)"
  using f32_clamp_rank [OF _ range_limits] range_limits
  by (simp add: correction_range_def f32_greater_eq_def)

lemma neutral_in_range [simp]: "correction_range neutral_correction"
  using range_limits by (simp add: correction_range_def f32_greater_eq_def)

lemma alpha_number:
  "f32_number calibration_correction_ewma_alpha = Finite False (units 23 0x3E99999A)"
  by (simp add: f32_number_def number_of_bits_def f32_negative_def f32_magnitude_def
      calibration_correction_ewma_alpha_def)

lemma one_minus_alpha: "f32_sub f32_one calibration_correction_ewma_alpha = 0x3F333333"
  by (simp add: calibration_correction_ewma_alpha_def f32_one_def f32_eval)

lemma weight_number: "f32_number 0x3F333333 = Finite False (units 23 0x3F333333)"
  by (simp add: f32_number_def number_of_bits_def f32_negative_def f32_magnitude_def)

lemma one_units: "f32_units_of_one = units 23 0x3F800000"
  by (simp add: units_def)

lemma ewma_step_number:
  assumes "\<not> f32_is_nan acc" "f32_is_finite x"
  shows "\<not> f32_is_nan (ewma_step calibration_correction_ewma_alpha x acc)"
proof -
  obtain t n where "f32_number x = Finite t n"
    using assms(2) f32_finite_number by blast
  moreover have "units 23 0x3E99999A \<le> f32_units_of_one" by (simp only: one_units units_le_iff)
  ultimately obtain u k where x: "f32_number (f32_mul calibration_correction_ewma_alpha x) = Finite u k"
    using f32_scale_finite [OF alpha_number] by blast
  have "\<not> f32_is_nan 0x3F333333" by (simp add: f32_is_nan_def f32_magnitude_def)
  then have acc: "\<not> f32_is_nan (f32_mul 0x3F333333 acc)"
    using assms(1) by (simp add: f32_mul_nan_iff weight_number)
  have "f32_number (f32_mul calibration_correction_ewma_alpha x) \<noteq> Infinite s" for s by (simp add: x)
  moreover have "\<not> f32_is_nan (f32_mul calibration_correction_ewma_alpha x)"
    using x by (simp flip: f32_number_nan_iff)
  ultimately show ?thesis
    using acc unfolding ewma_step_def one_minus_alpha f32_add_nan_iff by blast
qed

lemma ewma_number:
  assumes "\<forall>v \<in> set vs. f32_is_finite v"
  shows "\<not> f32_is_nan (ewma vs calibration_correction_ewma_alpha)"
proof (cases vs)
  case Nil then show ?thesis using range_limits by simp
next
  case (Cons w ws)
  have "\<not> f32_is_nan (fold (ewma_step calibration_correction_ewma_alpha) ws w)"
    if "\<not> f32_is_nan w" "\<forall>v \<in> set ws. f32_is_finite v" for w
    using that by (induction ws arbitrary: w) (auto simp: ewma_step_number)
  then show ?thesis using Cons assms f32_finite_not_nan by simp
qed

section \<open>The groups\<close>

text \<open>The ratio of an entry that counts, and the ratios of the entries with a key, in cache order.\<close>

definition usable_ratio :: "failure_cache_entry \<Rightarrow> f32 option" where
  "usable_ratio e =
     (if f32_is_zero (fc_expected e) then None
      else keep_if f32_is_finite (Some (f32_div (fc_actual e) (fc_expected e))))"

definition ratios_of :: "(failure_cache_entry \<Rightarrow> 'k option) \<Rightarrow> 'k \<Rightarrow> failure_cache_entry list \<Rightarrow> f32 list" where
  "ratios_of key k cache = List.map_filter (\<lambda>e. if key e = Some k then usable_ratio e else None) cache"

definition groups_of :: "(failure_cache_entry \<Rightarrow> 'k option) \<Rightarrow> failure_cache_entry list \<Rightarrow> ('k \<rightharpoonup> f32 list)" where
  "groups_of key cache k = (if ratios_of key k cache = [] then None else Some (ratios_of key k cache))"

definition change_type_key :: "failure_cache_entry \<Rightarrow> string option" where
  "change_type_key e = Some (fc_change_type e)"

definition squash_key :: "failure_cache_entry \<Rightarrow> (string \<times> string) option" where
  "squash_key e = map_option (Pair (fc_change_type e)) (fc_target_squash e)"

definition variant_key :: "failure_cache_entry \<Rightarrow> (string \<times> string) option" where
  "variant_key e = map_option (Pair (fc_change_type e)) (fc_variant_key e)"

lemma ratios_of_snoc:
  "ratios_of key k (cache @ [e]) = ratios_of key k cache @
     (if key e = Some k then (case usable_ratio e of None \<Rightarrow> [] | Some r \<Rightarrow> [r]) else [])"
  by (auto simp: ratios_of_def map_filter_def split: option.split)

lemma groups_of_snoc:
  "groups_of key (cache @ [e]) =
     (case (key e, usable_ratio e) of
        (Some k, Some r) \<Rightarrow> push_ratio k r (groups_of key cache)
      | _ \<Rightarrow> groups_of key cache)"
  by (auto simp: fun_eq_iff groups_of_def ratios_of_snoc push_ratio_def split: option.split)

lemma group_entries:
  "fold group_entry cache no_groups =
     \<lparr>rg_change_type = groups_of change_type_key cache,
      rg_specific = groups_of squash_key cache, rg_variant = groups_of variant_key cache\<rparr>"
proof (induction cache rule: rev_induct)
  case Nil
  then show ?case by (simp add: no_groups_def groups_of_def ratios_of_def map_filter_def fun_eq_iff)
next
  case (snoc e cache)
  then show ?case
    by (simp add: groups_of_snoc group_entry_def usable_ratio_def keep_if_def change_type_key_def
        squash_key_def variant_key_def Let_def split: option.split)
qed

lemma ratios_finite: "\<forall>v \<in> set (ratios_of key k cache). f32_is_finite v"
  by (auto simp: ratios_of_def map_filter_def usable_ratio_def split: if_splits dest: keep_ifD)

text \<open>The average that a group of ratios stands for.\<close>

definition learned :: "f32 list \<Rightarrow> f32" where
  "learned ratios = f32_clamp min_calibration_correction neutral_correction
     (ewma ratios calibration_correction_ewma_alpha)"

lemma learned_range: "correction_range (learned (ratios_of key k cache))"
  unfolding learned_def by (intro clamp_correction_range ewma_number ratios_finite)

lemma averaged_groups:
  "averaged fewest (groups_of key cache) k =
     (let rs = ratios_of key k cache in
      if rs = [] \<or> length rs < fewest then None else Some (learned rs))"
  by (simp add: averaged_def groups_of_def learned_def Let_def)

lemma from_failure_cache_maps:
  "cc_corrections (from_failure_cache cache) = averaged 0 (groups_of change_type_key cache)"
  "cc_specific (from_failure_cache cache) = averaged 3 (groups_of squash_key cache)"
  "cc_variant (from_failure_cache cache) = averaged 3 (groups_of variant_key cache)"
  "cc_disconnect (from_failure_cache cache) = fold penalise_entry cache Map.empty"
  by (simp_all add: from_failure_cache_def group_entries Let_def min_specific_target_squash_samples_def
      min_specific_variant_key_samples_def)

section \<open>Properties\<close>

text \<open>
  The correction of a prediction is exactly what the documentation promises: the clamped
  exponential average of the usable ratios recorded for the change type and target squash once
  there are three, else the prior of a risky squash, else the average of the change type, else one.
\<close>

theorem correction_resolves:
  "correction_for prior (from_failure_cache cache) change_type target_squash =
     (let base = ratios_of change_type_key change_type cache;
          fallback = (if base = [] then neutral_correction else learned base)
      in case target_squash of
           None \<Rightarrow> fallback
         | Some squash \<Rightarrow>
             (let rs = ratios_of squash_key (change_type, squash) cache in
              if 3 \<le> length rs then learned rs
              else if is_risky_target_squash squash then prior else fallback))"
  by (auto simp: correction_for_def get_correction_def from_failure_cache_maps averaged_groups
      unwrap_or_def Let_def split: option.split)

lemma get_correction_range: "correction_range (get_correction (from_failure_cache cache) change_type)"
  using learned_range
  by (auto simp: get_correction_def from_failure_cache_maps averaged_groups unwrap_or_def Let_def)

lemma variant_range:
  "correction_range (variant_correction_for (from_failure_cache cache) change_type variant)"
  using learned_range
  by (auto simp: variant_correction_for_def from_failure_cache_maps averaged_groups unwrap_or_def Let_def)

lemma risky_prior_range: "correction_range (risky_squash_prior fp env)"
proof -
  have "f32_is_finite (unwrap_or risky_squash_prior_default (keep_if f32_is_finite x))" for x
    by (rule unwrap_or_keep) (simp add: risky_squash_prior_default_def f32_constant_defs)
  then have "correction_range (f32_clamp min_calibration_correction neutral_correction
      (unwrap_or risky_squash_prior_default (keep_if f32_is_finite x)))" for x
    by (intro clamp_correction_range f32_finite_not_nan)
  then show ?thesis
    by (simp add: risky_squash_prior_def min_risky_squash_prior_def max_risky_squash_prior_def
        min_calibration_correction_def neutral_correction_def)
qed

lemma correction_for_range:
  "correction_range prior \<Longrightarrow> correction_range (correction_for prior (from_failure_cache cache) ct sq)"
  using get_correction_range learned_range [of squash_key]
  by (auto simp: correction_for_def from_failure_cache_maps averaged_groups Let_def split: option.split if_splits)

text \<open>A penalty after \<open>n\<close> entries: halved each time, down to the floor.\<close>

definition halved :: "nat \<Rightarrow> f32" where
  "halved n = (if n \<le> 9 then word_of_nat ((127 - n) * 2 ^ 23) else min_calibration_correction)"

lemma halved_numbers:
  "n \<le> 9 \<Longrightarrow> f32_number (halved n) = Finite False (2 ^ 23 * 2 ^ (126 - n))"
proof -
  assume n: "n \<le> 9"
  then have b: "(127 - n) * 2 ^ 23 < (2 :: nat) ^ 31" "(127 - n) * 2 ^ 23 < f32_infinity_bits"
    by simp_all
  have "halved n = f32_pack False ((127 - n) * 2 ^ 23)" using n by (simp add: halved_def f32_pack_def)
  then show ?thesis
    using n b by (simp add: f32_number_pack number_of_bits_def units_def Let_def)
qed

lemma halve_small:
  assumes "n < 9"
  shows "f32_mul (halved n) sample_disconnect_penalty = halved (Suc n)"
proof -
  have "f32_number sample_disconnect_penalty = Finite False (2 ^ 23 * 2 ^ 125)"
    by (simp add: f32_number_def number_of_bits_def f32_negative_def f32_magnitude_def units_def
        sample_disconnect_penalty_def)
  then have "f32_mul (halved n) sample_disconnect_penalty =
      f32_pack False (round_bits 23 f32_infinity_bits (2 ^ 23 * 2 ^ (126 - n) * (2 ^ 23 * 2 ^ 125)) f32_units_of_one)"
    using assms by (simp add: f32_mul_def halved_numbers)
  also have "(2 :: nat) ^ 23 * 2 ^ (126 - n) * (2 ^ 23 * 2 ^ 125) = units 23 ((127 - Suc n) * 2 ^ 23) * f32_units_of_one"
  proof -
    have "units 23 ((127 - Suc n) * 2 ^ 23) = 2 ^ 23 * 2 ^ (125 - n)"
      using assms by (simp add: units_def Let_def)
    moreover have "(2 :: nat) ^ (126 - n) = 2 * 2 ^ (125 - n)"
      using assms by (simp flip: power_Suc add: Suc_diff_le)
    ultimately show ?thesis by simp
  qed
  also have "round_bits 23 f32_infinity_bits (units 23 ((127 - Suc n) * 2 ^ 23) * f32_units_of_one) f32_units_of_one =
      (127 - Suc n) * 2 ^ 23"
    using round_bits_exact [of f32_units_of_one 23 f32_infinity_bits "(127 - Suc n) * 2 ^ 23"] by simp
  finally show ?thesis using assms by (simp add: halved_def f32_pack_def)
qed

lemma halve_step:
  "f32_clamp min_calibration_correction neutral_correction (f32_mul (halved n) sample_disconnect_penalty)
     = halved (Suc n)"
proof -
  consider "n < 9" | "n = 9" | "9 < n" by linarith
  then show ?thesis
  proof cases
    case 1
    have keep: "f32_clamp min_calibration_correction neutral_correction (halved m) = halved m"
      if "m \<in> {1, 2, 3, 4, 5, 6, 7, 8, 9 :: nat}" for m
      using that by (elim insertE emptyE)
        (simp_all add: halved_def f32_clamp_def min_calibration_correction_def neutral_correction_def f32_constant_defs)
    have "Suc n \<in> {1, 2, 3, 4, 5, 6, 7, 8, 9}" using 1 by auto
    then show ?thesis using 1 by (simp only: halve_small keep)
  next
    case 2
    have "f32_mul (halved 9) sample_disconnect_penalty = 0x3A800000"
      by (simp add: halved_def sample_disconnect_penalty_def f32_eval)
    then show ?thesis using 2
      by (simp add: halved_def f32_clamp_def min_calibration_correction_def neutral_correction_def f32_constant_defs)
  next
    case 3
    have "f32_mul min_calibration_correction sample_disconnect_penalty = 0x3A03126F"
      by (simp add: min_calibration_correction_def sample_disconnect_penalty_def f32_eval)
    then show ?thesis using 3
      by (simp add: halved_def f32_clamp_def min_calibration_correction_def neutral_correction_def f32_constant_defs)
  qed
qed

definition disconnect_key :: "failure_cache_entry \<Rightarrow> (string \<times> string \<times> string) option" where
  "disconnect_key e =
     (if detect_disconnect_entry e
      then (case (fc_target_squash e, fc_variant_key e) of
              (Some squash, Some variant) \<Rightarrow> Some (fc_change_type e, squash, variant)
            | _ \<Rightarrow> None)
      else None)"

lemma penalties_counted:
  "fold penalise_entry cache Map.empty k =
     (let n = length (filter (\<lambda>e. disconnect_key e = Some k) cache) in
      if n = 0 then None else Some (halved n))"
proof (induction cache rule: rev_induct)
  case Nil
  then show ?case by simp
next
  case (snoc e cache)
  have "halved 0 = neutral_correction"
    by (simp add: halved_def neutral_correction_def f32_one_def)
  with snoc show ?case
    using halve_step [of 0] halve_step [of "length (filter (\<lambda>e. disconnect_key e = Some k) cache)"]
    by (auto simp: penalise_entry_def disconnect_key_def Let_def split: option.splits if_splits)
qed

text \<open>
  The penalty for a change type, target squash and variant is exactly one half for each entry
  whose samples improved while the creature did not, and never falls below the floor.
\<close>

theorem disconnect_penalty_exact:
  "disconnect_penalty_for (from_failure_cache cache) change_type squash variant =
     halved (length (filter (\<lambda>e. disconnect_key e = Some (change_type, squash, variant)) cache))"
  by (simp add: disconnect_penalty_for_def from_failure_cache_maps penalties_counted unwrap_or_def Let_def
      halved_def neutral_correction_def f32_one_def)

lemma correction_number:
  assumes "correction_range c"
  obtains m where "f32_number c = Finite False m" "0 < m" "m \<le> f32_units_of_one"
proof -
  have r: "\<not> f32_is_nan c" "0 < f32_rank c" "f32_rank c \<le> 0x3F800000"
    using assms by (auto simp: correction_range_def f32_greater_eq_def f32_rank_def
        min_calibration_correction_def neutral_correction_def f32_one_def f32_negative_def f32_magnitude_def
        split: if_splits)
  then have n: "\<not> f32_negative c" by (auto simp: f32_rank_def)
  then have "int (unat (f32_magnitude c)) = f32_rank c" by (simp add: f32_rank_def)
  then have b: "0 < unat (f32_magnitude c)" "unat (f32_magnitude c) \<le> 0x3F800000"
    using r(2,3) by linarith+
  then have "f32_number c = Finite False (units 23 (unat (f32_magnitude c)))"
    using n by (simp add: f32_number_def number_of_bits_def)
  moreover have "units 23 (unat (f32_magnitude c)) \<le> f32_units_of_one"
    using b(2) unfolding one_units units_le_iff .
  moreover have "0 < units 23 (unat (f32_magnitude c))"
    using b(1) units_less_iff [of 23 0] by (simp only: units_0)
  ultimately show ?thesis using that by blast
qed

lemma product_in_range:
  assumes "correction_range c" "correction_range d"
  shows "correction_range (f32_clamp min_calibration_correction neutral_correction (f32_mul c d))"
proof -
  obtain m n where "f32_number c = Finite False m" "f32_number d = Finite False n"
    using assms correction_number by metis
  moreover from this have "\<not> f32_is_nan c" "\<not> f32_is_nan d" using f32_finiteD(1) by blast+
  ultimately have "\<not> f32_is_nan (f32_mul c d)" by (simp add: f32_mul_nan_iff)
  then show ?thesis by (rule clamp_correction_range)
qed

lemma damps:
  assumes "correction_range c" "f32_is_finite gain"
  shows "f32_is_finite (f32_mul gain c) \<and> f32_greater_eq (f32_abs gain) (f32_abs (f32_mul gain c))"
proof -
  obtain m where c: "f32_number c = Finite False m" "m \<le> f32_units_of_one"
    using assms(1) correction_number by metis
  obtain t n where g: "f32_number gain = Finite t n" using assms(2) f32_finite_number by blast
  obtain u k where p: "f32_number (f32_mul gain c) = Finite u k" "k \<le> n"
    using f32_scale_finite [OF c g] f32_mul_commute by metis
  have "\<not> f32_less (f32_abs gain) (f32_abs (f32_mul gain c))"
    using f32_less_units [OF f32_abs_number [OF g] f32_abs_number [OF p(1)]] p(2)
    by (simp add: signed_units_def)
  then show ?thesis
    using p(1) g f32_finite_number finite_not_less f32_abs_number by metis
qed

lemma halved_range: "correction_range (halved n)"
proof (induction n)
  case 0
  have "halved 0 = neutral_correction" by (simp add: halved_def neutral_correction_def f32_one_def)
  then show ?case by simp
next
  case (Suc n)
  have "correction_range sample_disconnect_penalty"
    by (simp add: correction_range_def sample_disconnect_penalty_def min_calibration_correction_def
        neutral_correction_def f32_constant_defs)
  from product_in_range [OF Suc this] show ?case by (simp only: halve_step)
qed

lemma penalty_range: "correction_range (disconnect_penalty_for (from_failure_cache cache) ct squash variant)"
  by (simp add: disconnect_penalty_for_def from_failure_cache_maps penalties_counted unwrap_or_def Let_def
      halved_range)

definition damping :: "f32 \<Rightarrow> bool" where
  "damping c \<longleftrightarrow> correction_range c \<and>
     (\<forall>gain. f32_is_finite gain \<longrightarrow>
        f32_is_finite (f32_mul gain c) \<and> f32_greater_eq (f32_abs gain) (f32_abs (f32_mul gain c)))"

lemma damping_iff_range: "damping c \<longleftrightarrow> correction_range c"
  using damps by (auto simp: damping_def)

text \<open>
  C26. Calibration only ever damps: whatever the failure cache and the environment hold (values
  that are no numbers or infinite included), each of the five lookups lies between a thousandth and
  one, and multiplying a finite gain by it gives a finite gain of no larger magnitude.
\<close>

theorem calibration_only_damps:
  "let cc = from_failure_cache cache; prior = risky_squash_prior fp env in
   damping (get_correction cc ct) \<and> damping (correction_for prior cc ct target_squash) \<and>
   damping (variant_correction_for cc ct variant) \<and> damping (disconnect_penalty_for cc ct squash variant) \<and>
   damping (correction_for_triple prior cc ct squash variant)"
  unfolding Let_def damping_iff_range correction_for_triple_def
  by (intro conjI get_correction_range correction_for_range risky_prior_range variant_range penalty_range
      product_in_range)

end
