(* ===== verification/Impact.thy ===== *)
theory Impact
  imports Network Ieee
begin

text \<open>
  The structural impact of a neuron on the outputs (\<open>src/focus/impact.rs\<close>, with
  \<open>squash_emit_magnitude\<close> of \<open>src/activations.rs\<close> and \<open>build_squash_map\<close> of
  \<open>src/focus/gradient.rs\<close>): weighted path products over the synapses, computed by a recursion that
  many threads run at once on one shared cache. The hash maps built from the synapses are functions
  of the synapse list; the arithmetic is that of theory Ieee, in the order of the code.
\<close>

section \<open>Squashes\<close>

definition eq_ignore_ascii_case :: "string \<Rightarrow> string \<Rightarrow> bool" where
  "eq_ignore_ascii_case a b \<longleftrightarrow> map to_ascii_uppercase a = map to_ascii_uppercase b"

definition frac_pi_2 :: f32 where "frac_pi_2 = 0x3FC90FDB"
definition f32_six :: f32 where "f32_six = 0x40C00000"

definition squash_emit_magnitude :: "string \<Rightarrow> f32 option" where
  "squash_emit_magnitude name =
     (let n = deserialise_squash name in
      if n \<in> {''TANH'', ''LOGISTIC'', ''HARD_TANH'', ''CLIPPED'', ''SOFTSIGN'', ''BIPOLAR_SIGMOID'',
              ''ISRU'', ''STEP'', ''BIPOLAR'', ''GAUSSIAN''} then Some f32_one
      else if n = ''ARCTAN'' then Some frac_pi_2
      else if n = ''RELU6'' then Some f32_six
      else None)"

definition apply_squash_bounding :: "f32 \<Rightarrow> f32 \<Rightarrow> string \<Rightarrow> f32" where
  "apply_squash_bounding raw child_impact squash =
     (case squash_emit_magnitude squash of
        Some m \<Rightarrow> if f32_greater_eq m child_impact then raw else f32_mul raw (f32_div m child_impact)
      | None \<Rightarrow> raw)"

datatype squash_category = Linear | Threshold | Selection

definition squash_category_of :: "string \<Rightarrow> squash_category" where
  "squash_category_of squash =
     (if eq_ignore_ascii_case squash ''STEP'' \<or> eq_ignore_ascii_case squash ''BIPOLAR'' then Threshold
      else if eq_ignore_ascii_case squash ''MINIMUM'' \<or> eq_ignore_ascii_case squash ''MAXIMUM'' \<or>
              eq_ignore_ascii_case squash ''IF'' then Selection
      else Linear)"

section \<open>The graph\<close>

text \<open>The last neuron with an identifier decides its squash, as inserting into a map does.\<close>

definition build_squash_map :: "creature_json \<Rightarrow> string \<rightharpoonup> string" where
  "build_squash_map c = fold (\<lambda>n m. m(n_uuid n \<mapsto> n_squash n)) (c_neurons c) Map.empty"

definition build_adjacency :: "synapse_json list \<Rightarrow> string \<Rightarrow> (string \<times> f32) list" where
  "build_adjacency ss u = map (\<lambda>s. (s_to s, s_weight s)) (filter (\<lambda>s. s_from s = u) ss)"

definition inbound_weights :: "synapse_json list \<Rightarrow> string \<Rightarrow> f32 list" where
  "inbound_weights ss v = map (\<lambda>s. f32_abs (s_weight s)) (filter (\<lambda>s. s_to s = v) ss)"

text \<open>The first synapse inserts its weight and the others add theirs.\<close>

fun f32_accumulate :: "f32 list \<Rightarrow> f32 option" where
  "f32_accumulate [] = None"
| "f32_accumulate (x # xs) = Some (fold (\<lambda>y acc. f32_add acc y) xs x)"

definition total_inbound_weight :: "synapse_json list \<Rightarrow> string \<Rightarrow> f32 option" where
  "total_inbound_weight ss v = f32_accumulate (inbound_weights ss v)"

definition inbound_count :: "synapse_json list \<Rightarrow> string \<Rightarrow> nat option" where
  "inbound_count ss v =
     (let n = length (filter (\<lambda>s. s_to s = v) ss) in if n = 0 then None else Some n)"

definition output_uuids :: "creature_json \<Rightarrow> string list" where
  "output_uuids c = map n_uuid (filter (\<lambda>n. n_type n = ''output'') (c_neurons c))"

section \<open>What the recorded activations say about selection\<close>

type_synonym selection_stats = "string \<times> string \<rightharpoonup> f32"

text \<open>\<open>records_provider.get(uuid)\<close>: an error, no records, or the records of the neuron.\<close>

type_synonym 'e provider = "string \<Rightarrow> 'e + discover_record list option"

definition synapse_key :: "synapse_json \<Rightarrow> string \<times> string" where
  "synapse_key s = (s_from s, s_to s)"

text \<open>The weighted activations of every synapse, each with its observation.\<close>

fun contributions ::
  "'e provider \<Rightarrow> synapse_json list \<Rightarrow> 'e + (u32 \<times> (string \<times> string) \<times> f32) list" where
  "contributions get [] = Inr []"
| "contributions get (s # ss) =
     and_then (get (s_from s)) (\<lambda>recs.
       and_then (contributions get ss) (\<lambda>rest.
         Inr ((case recs of
                 None \<Rightarrow> []
               | Some rs \<Rightarrow>
                   map (\<lambda>r. (r_obs r, synapse_key s, f32_mul (s_weight s) (r_activation r)))
                     (filter (\<lambda>r. f32_is_finite (r_activation r)) rs)) @ rest)))"

definition f32_infinity :: f32 where "f32_infinity = 0x7F800000"
definition f32_neg_infinity :: f32 where "f32_neg_infinity = 0xFF800000"
definition tie_tolerance :: f32 where "tie_tolerance = 0x2EDBE6FF"

text \<open>
  The synapses that win an observation: those within the tolerance of the best value. \<open>start\<close> and
  \<open>best\<close> are \<open>INFINITY\<close> and \<open>min\<close>, or \<open>NEG_INFINITY\<close> and \<open>max\<close>.
\<close>

definition winners_of :: "f32 \<Rightarrow> (f32 \<Rightarrow> f32 \<Rightarrow> f32) \<Rightarrow> ((string \<times> string) \<times> f32) list \<Rightarrow> (string \<times> string) list" where
  "winners_of start best entries =
     (let best_val = fold (\<lambda>v acc. best acc v) (map snd entries) start in
      map fst (filter (\<lambda>e. f32_less (f32_abs (f32_sub (snd e) best_val)) tie_tolerance) entries))"

definition all_winners ::
  "f32 \<Rightarrow> (f32 \<Rightarrow> f32 \<Rightarrow> f32) \<Rightarrow> (u32 \<times> (string \<times> string) \<times> f32) list \<Rightarrow> (string \<times> string) list" where
  "all_winners start best cs =
     concat (map (\<lambda>obs. winners_of start best (map snd (filter (\<lambda>c. fst c = obs) cs)))
       (remdups (map fst cs)))"

definition compute_extreme_stats ::
  "f32 \<Rightarrow> (f32 \<Rightarrow> f32 \<Rightarrow> f32) \<Rightarrow> 'e provider \<Rightarrow> synapse_json list \<Rightarrow> selection_stats \<Rightarrow> 'e + selection_stats" where
  "compute_extreme_stats start best get ss stats =
     (if ss = [] then Inr stats
      else
        and_then (contributions get ss) (\<lambda>cs.
          (let total_obs = length (remdups (map fst cs));
               winners = all_winners start best cs in
           Inr (if 0 < total_obs
                then fold (\<lambda>s m. m(synapse_key s \<mapsto>
                       f32_div (f32_of_nat (length (filter (\<lambda>k. k = synapse_key s) winners)))
                         (f32_of_nat total_obs))) ss stats
                else stats))))"

definition compute_min_stats ::
  "'e provider \<Rightarrow> synapse_json list \<Rightarrow> selection_stats \<Rightarrow> 'e + selection_stats" where
  "compute_min_stats = compute_extreme_stats f32_infinity f32_min"

definition compute_max_stats ::
  "'e provider \<Rightarrow> synapse_json list \<Rightarrow> selection_stats \<Rightarrow> 'e + selection_stats" where
  "compute_max_stats = compute_extreme_stats f32_neg_infinity f32_max"

definition f32_half :: f32 where "f32_half = 0x3F000000"

definition insert_all :: "synapse_json list \<Rightarrow> f32 \<Rightarrow> selection_stats \<Rightarrow> selection_stats" where
  "insert_all ss v stats = fold (\<lambda>s m. m(synapse_key s \<mapsto> v)) ss stats"

text \<open>The sums of an observation: the first contribution is added to \<open>0.0\<close>.\<close>

definition condition_sum :: "(u32 \<times> (string \<times> string) \<times> f32) list \<Rightarrow> u32 \<Rightarrow> f32" where
  "condition_sum cs obs =
     fold (\<lambda>c acc. f32_add acc (snd (snd c))) (filter (\<lambda>c. fst c = obs) cs) f32_zero"

definition compute_if_stats ::
  "'e provider \<Rightarrow> synapse_json list \<Rightarrow> selection_stats \<Rightarrow> 'e + selection_stats" where
  "compute_if_stats get ss stats =
     (let condition = filter (\<lambda>s. s_type s = Some ''condition'') ss;
          positive = filter (\<lambda>s. s_type s = Some ''positive'') ss;
          negative = filter (\<lambda>s. s_type s = Some ''negative'') ss;
          share = (\<lambda>p group. f32_div p (f32_of_nat (max (length group) 1)))
      in if condition = [] \<and> positive = [] \<and> negative = []
         then Inr (insert_all ss (f32_div f32_one (f32_of_nat (length ss))) stats)
         else
           and_then (contributions get condition) (\<lambda>cs.
             (let observations = remdups (map fst cs);
                  total_obs = f32_of_nat (length observations);
                  positive_obs = f32_of_nat
                    (length (filter (\<lambda>obs. f32_less f32_zero (condition_sum cs obs)) observations));
                  negative_obs = f32_sub total_obs positive_obs;
                  stats1 = insert_all condition f32_one stats
              in Inr (if f32_is_zero total_obs
                      then insert_all negative (share f32_half negative)
                             (insert_all positive (share f32_half positive) stats1)
                      else insert_all negative (share (f32_div negative_obs total_obs) negative)
                             (insert_all positive (share (f32_div positive_obs total_obs) positive) stats1)))))"

text \<open>
  The statistics of every selection neuron, merged in the order of the neurons. An error of any
  neuron is the error of the whole; which of several the parallel collection reports is left to
  the first.
\<close>

definition neuron_stats :: "creature_json \<Rightarrow> 'e provider \<Rightarrow> neuron_json \<Rightarrow> 'e + selection_stats" where
  "neuron_stats c get n =
     (let squash = (case build_squash_map c (n_uuid n) of Some q \<Rightarrow> q | None \<Rightarrow> []);
          incoming = filter (\<lambda>s. s_to s = n_uuid n) (c_synapses c)
      in if squash \<notin> {''MINIMUM'', ''MAXIMUM'', ''IF''} \<or> incoming = [] then Inr Map.empty
         else if squash = ''MINIMUM'' then compute_min_stats get incoming Map.empty
         else if squash = ''MAXIMUM'' then compute_max_stats get incoming Map.empty
         else compute_if_stats get incoming Map.empty)"

fun merge_stats :: "creature_json \<Rightarrow> 'e provider \<Rightarrow> neuron_json list \<Rightarrow> selection_stats \<Rightarrow> 'e + selection_stats" where
  "merge_stats c get [] stats = Inr stats"
| "merge_stats c get (n # ns) stats =
     and_then (neuron_stats c get n) (\<lambda>partial_stats. merge_stats c get ns (stats ++ partial_stats))"

definition compute_selection_stats :: "creature_json \<Rightarrow> 'e provider \<Rightarrow> 'e + selection_stats" where
  "compute_selection_stats c get = merge_stats c get (c_neurons c) Map.empty"

section \<open>Output gates\<close>

datatype output_gate = Identity_gate | Min_against_constant f32 | Max_against_constant f32

definition gate_pass_probability :: "output_gate \<Rightarrow> discover_record list \<Rightarrow> f32" where
  "gate_pass_probability gate rs =
     (if gate = Identity_gate \<or> rs = [] then f32_one
      else
        (let finite = filter f32_is_finite (map r_activation rs) in
         if finite = [] then f32_one
         else
           (case gate of
              Identity_gate \<Rightarrow> f32_one
            | Min_against_constant t \<Rightarrow>
                f32_div (f32_of_nat (length (filter (\<lambda>v. f32_less v t) finite))) (f32_of_nat (length finite))
            | Max_against_constant t \<Rightarrow>
                f32_div (f32_of_nat (length (filter (\<lambda>v. f32_less t v) finite))) (f32_of_nat (length finite)))))"

text \<open>A missing contract means no gates; a failing provider means probability 1.\<close>

definition build_output_gate_factors ::
  "string list \<Rightarrow> 'e provider option \<Rightarrow> (string \<rightharpoonup> output_gate) option \<Rightarrow> string \<rightharpoonup> f32" where
  "build_output_gate_factors outputs get contract = (\<lambda>u.
     case contract of
       None \<Rightarrow> None
     | Some gates \<Rightarrow>
         if u \<notin> set outputs then None
         else
           (case gates u of
              None \<Rightarrow> None
            | Some gate \<Rightarrow>
                if gate = Identity_gate then None
                else Some (case get of
                       None \<Rightarrow> f32_one
                     | Some g \<Rightarrow>
                         (case g u of
                            Inr (Some rs) \<Rightarrow> gate_pass_probability gate rs
                          | _ \<Rightarrow> f32_one))))"

section \<open>The recursion\<close>

record impact_context =
  ic_synapses :: "synapse_json list"
  ic_squash :: "string \<rightharpoonup> string"
  ic_outputs :: "string list"
  ic_stats :: "selection_stats option"
  ic_gate_factors :: "string \<rightharpoonup> f32"

text \<open>The contribution of one synapse with its child's impact, which is not at most zero.\<close>

definition contribution :: "impact_context \<Rightarrow> string \<Rightarrow> string \<Rightarrow> f32 \<Rightarrow> f32 \<Rightarrow> f32" where
  "contribution ctx u v weight child_impact =
     (let squash = (case ic_squash ctx v of Some q \<Rightarrow> q | None \<Rightarrow> ''IDENTITY'');
          known = (case total_inbound_weight (ic_synapses ctx) v of Some t \<Rightarrow> t | None \<Rightarrow> f32_one);
          inbound_total = f32_max known (f32_abs weight);
          even_share = f32_div f32_one
            (f32_of_nat (max (case inbound_count (ic_synapses ctx) v of Some n \<Rightarrow> n | None \<Rightarrow> 1) 1))
      in case squash_category_of squash of
           Linear \<Rightarrow>
             apply_squash_bounding
               (if f32_greater_eq f32_zero inbound_total then f32_zero
                else f32_mul (f32_div (f32_abs weight) inbound_total) child_impact)
               child_impact squash
         | Threshold \<Rightarrow>
             (if f32_greater_eq f32_zero inbound_total then f32_zero
              else apply_squash_bounding (f32_mul (f32_div (f32_abs weight) inbound_total) child_impact)
                     child_impact squash)
         | Selection \<Rightarrow>
             (case ic_stats ctx of
                Some stats \<Rightarrow>
                  f32_mul (case stats (u, v) of Some p \<Rightarrow> p | None \<Rightarrow> even_share) child_impact
              | None \<Rightarrow> f32_mul even_share child_impact))"

definition add_contribution :: "impact_context \<Rightarrow> string \<Rightarrow> string \<Rightarrow> f32 \<Rightarrow> f32 \<Rightarrow> f32 \<Rightarrow> f32" where
  "add_contribution ctx u v weight child_impact acc =
     (if f32_greater_eq f32_zero child_impact then acc
      else f32_add acc (contribution ctx u v weight child_impact))"

definition has_edges :: "impact_context \<Rightarrow> string \<Rightarrow> bool" where
  "has_edges ctx u \<longleftrightarrow> (\<exists>s \<in> set (ic_synapses ctx). s_from s = u)"

definition unvisited :: "impact_context \<Rightarrow> string list \<Rightarrow> nat" where
  "unvisited ctx visiting = card (s_from ` set (ic_synapses ctx) - set visiting)"

text \<open>
  \<open>compute_impact_with_shared_cache\<close> of one thread, with the cache as its state. An output is not
  followed further; a neuron already on the path contributes nothing.
\<close>

function impact_cached ::
  "impact_context \<Rightarrow> string list \<Rightarrow> string \<Rightarrow> (string \<rightharpoonup> f32) \<Rightarrow> f32 \<times> (string \<rightharpoonup> f32)"
  and impact_edges ::
  "impact_context \<Rightarrow> string list \<Rightarrow> string \<Rightarrow> (string \<times> f32) list \<Rightarrow> f32 \<Rightarrow> (string \<rightharpoonup> f32)
     \<Rightarrow> f32 \<times> (string \<rightharpoonup> f32)" where
  "impact_cached ctx visiting u cache =
     (case cache u of
        Some v \<Rightarrow> (v, cache)
      | None \<Rightarrow>
          if u \<in> set visiting then (f32_zero, cache)
          else
            (case (if u \<in> set (ic_outputs ctx)
                   then ((case ic_gate_factors ctx u of Some p \<Rightarrow> p | None \<Rightarrow> f32_one), cache)
                   else if has_edges ctx u
                   then impact_edges ctx (u # visiting) u (build_adjacency (ic_synapses ctx) u) f32_zero cache
                   else (f32_zero, cache)) of
               (impact, cache') \<Rightarrow> (impact, cache'(u \<mapsto> impact))))"
| "impact_edges ctx visiting u [] acc cache = (acc, cache)"
| "impact_edges ctx visiting u ((v, weight) # es) acc cache =
     (case impact_cached ctx visiting v cache of
        (child_impact, cache') \<Rightarrow>
          impact_edges ctx visiting u es (add_contribution ctx u v weight child_impact acc) cache')"
  by pat_completeness auto
termination
proof (relation "inv_image (less_than <*lex*> less_than)
    (\<lambda>x. case x of Inl (ctx, visiting, u, cache) \<Rightarrow> (unvisited ctx visiting, 0)
       | Inr (ctx, visiting, u, es, acc, cache) \<Rightarrow> (unvisited ctx visiting, Suc (length es)))")
  fix ctx :: impact_context and visiting u and cache :: "string \<rightharpoonup> f32"
  assume "u \<notin> set visiting" "has_edges ctx u"
  then have "unvisited ctx (u # visiting) < unvisited ctx visiting"
    unfolding unvisited_def has_edges_def by (intro psubset_card_mono) auto
  then show "(Inr (ctx, u # visiting, u, build_adjacency (ic_synapses ctx) u, f32_zero, cache),
      Inl (ctx, visiting, u, cache)) \<in> inv_image (less_than <*lex*> less_than)
    (\<lambda>x. case x of Inl (ctx, visiting, u, cache) \<Rightarrow> (unvisited ctx visiting, 0)
       | Inr (ctx, visiting, u, es, acc, cache) \<Rightarrow> (unvisited ctx visiting, Suc (length es)))"
    by simp
qed (auto intro: wf_inv_image)

declare impact_cached.simps [simp del]

text \<open>The outer loop, as one thread runs it over the neurons.\<close>

fun impacts_of :: "impact_context \<Rightarrow> neuron_json list \<Rightarrow> (string \<rightharpoonup> f32) \<Rightarrow> (string \<rightharpoonup> f32)" where
  "impacts_of ctx [] cache = cache"
| "impacts_of ctx (n # ns) cache =
     impacts_of ctx ns
       (case cache (n_uuid n) of
          Some _ \<Rightarrow> cache
        | None \<Rightarrow>
            (case impact_cached ctx [] (n_uuid n) cache of (impact, cache') \<Rightarrow> cache'(n_uuid n \<mapsto> impact)))"

definition context_of ::
  "creature_json \<Rightarrow> selection_stats option \<Rightarrow> (string \<rightharpoonup> f32) \<Rightarrow> impact_context" where
  "context_of c stats factors =
     \<lparr>ic_synapses = c_synapses c, ic_squash = build_squash_map c, ic_outputs = output_uuids c,
      ic_stats = stats, ic_gate_factors = factors\<rparr>"

definition compute_impacts_with_contract ::
  "creature_json \<Rightarrow> 'e provider option \<Rightarrow> (string \<rightharpoonup> output_gate) option \<Rightarrow> 'e + (string \<rightharpoonup> f32)" where
  "compute_impacts_with_contract c get contract =
     and_then
       (case get of None \<Rightarrow> Inr None | Some g \<Rightarrow> and_then (compute_selection_stats c g) (\<lambda>s. Inr (Some s)))
       (\<lambda>stats. Inr (impacts_of
          (context_of c stats (build_output_gate_factors (output_uuids c) get contract))
          (c_neurons c) Map.empty))"

definition compute_impacts_with_activations :: "creature_json \<Rightarrow> 'e provider \<Rightarrow> 'e + (string \<rightharpoonup> f32)" where
  "compute_impacts_with_activations c get = compute_impacts_with_contract c (Some get) None"

definition compute_impacts_public :: "creature_json \<Rightarrow> string \<rightharpoonup> f32" where
  "compute_impacts_public c =
     (case compute_impacts_with_contract c (None :: unit provider option) None of
        Inr m \<Rightarrow> m | Inl _ \<Rightarrow> Map.empty)"

section \<open>Any interleaving of the threads\<close>

definition synapse_graph :: "impact_context \<Rightarrow> (string \<times> string) set" where
  "synapse_graph ctx = {(s_from s, s_to s) | s. s \<in> set (ic_synapses ctx)}"

text \<open>
  A thread that looks a neuron up in the shared cache may find a value that another thread, or
  itself earlier, computed for it under another path. \<open>computes\<close> over-approximates every
  interleaving: at each lookup the cache may hold any value that some computation could have
  stored, or nothing. The neurons on a path all lead to the one being computed.
\<close>

definition leads_to :: "impact_context \<Rightarrow> string list \<Rightarrow> string \<Rightarrow> bool" where
  "leads_to ctx visiting u \<longleftrightarrow> (\<forall>w \<in> set visiting. (w, u) \<in> (synapse_graph ctx)\<^sup>+)"

inductive computes :: "impact_context \<Rightarrow> string list \<Rightarrow> string \<Rightarrow> f32 \<Rightarrow> bool"
  and computes_edges :: "impact_context \<Rightarrow> string list \<Rightarrow> string \<Rightarrow> (string \<times> f32) list \<Rightarrow> f32 \<Rightarrow> f32 \<Rightarrow> bool"
  for ctx where
  hit: "computes ctx other u v \<Longrightarrow> leads_to ctx other u \<Longrightarrow> computes ctx visiting u v"
| on_path: "u \<in> set visiting \<Longrightarrow> computes ctx visiting u f32_zero"
| at_output: "u \<notin> set visiting \<Longrightarrow> u \<in> set (ic_outputs ctx) \<Longrightarrow>
    computes ctx visiting u (case ic_gate_factors ctx u of Some p \<Rightarrow> p | None \<Rightarrow> f32_one)"
| no_edges: "u \<notin> set visiting \<Longrightarrow> u \<notin> set (ic_outputs ctx) \<Longrightarrow> \<not> has_edges ctx u \<Longrightarrow>
    computes ctx visiting u f32_zero"
| follow: "u \<notin> set visiting \<Longrightarrow> u \<notin> set (ic_outputs ctx) \<Longrightarrow> has_edges ctx u \<Longrightarrow>
    computes_edges ctx (u # visiting) u (build_adjacency (ic_synapses ctx) u) f32_zero v \<Longrightarrow>
    computes ctx visiting u v"
| edges_done: "computes_edges ctx visiting u [] acc acc"
| edges_step: "computes ctx visiting v child_impact \<Longrightarrow>
    computes_edges ctx visiting u es (add_contribution ctx u v weight child_impact acc) res \<Longrightarrow>
    computes_edges ctx visiting u ((v, weight) # es) acc res"

text \<open>The reference: the sum over the paths of at most \<open>n\<close> synapses, without a cache.\<close>

fun impact_ref :: "impact_context \<Rightarrow> nat \<Rightarrow> string \<Rightarrow> f32" where
  "impact_ref ctx 0 u = f32_zero"
| "impact_ref ctx (Suc n) u =
     (if u \<in> set (ic_outputs ctx) then (case ic_gate_factors ctx u of Some p \<Rightarrow> p | None \<Rightarrow> f32_one)
      else fold (\<lambda>(v, weight) acc. add_contribution ctx u v weight (impact_ref ctx n v) acc)
             (build_adjacency (ic_synapses ctx) u) f32_zero)"

lemma adjacency_graph:
  "(v, weight) \<in> set (build_adjacency (ic_synapses ctx) u) \<Longrightarrow> (u, v) \<in> synapse_graph ctx"
  by (auto simp: build_adjacency_def synapse_graph_def)

lemma no_edges_adjacency: "\<not> has_edges ctx u \<Longrightarrow> build_adjacency (ic_synapses ctx) u = []"
  by (auto simp: has_edges_def build_adjacency_def filter_empty_conv)

definition ranked :: "impact_context \<Rightarrow> (string \<Rightarrow> nat) \<Rightarrow> bool" where
  "ranked ctx rank \<longleftrightarrow> (\<forall>(u, v) \<in> synapse_graph ctx. rank v < rank u) \<and> (\<forall>u. 0 < rank u)"

lemma impact_ref_enough:
  assumes "ranked ctx rank" "rank u \<le> m" "rank u \<le> n"
  shows "impact_ref ctx m u = impact_ref ctx n u"
  using assms(2,3)
proof (induction m arbitrary: n u)
  case 0
  then show ?case using assms(1) by (metis ranked_def le_zero_eq less_irrefl)
next
  case (Suc m)
  then obtain k where n: "n = Suc k" using assms(1) by (metis ranked_def le_zero_eq less_irrefl not0_implies_Suc)
  have "impact_ref ctx m v = impact_ref ctx k v"
    if "(v, weight) \<in> set (build_adjacency (ic_synapses ctx) u)" for v weight
  proof -
    have "rank v < rank u" using adjacency_graph [OF that] assms(1) by (auto simp: ranked_def)
    then show ?thesis using Suc.prems n by (intro Suc.IH) simp_all
  qed
  then have "fold (\<lambda>(v, weight) acc. add_contribution ctx u v weight (impact_ref ctx m v) acc)
        (build_adjacency (ic_synapses ctx) u) f32_zero =
      fold (\<lambda>(v, weight) acc. add_contribution ctx u v weight (impact_ref ctx k v) acc)
        (build_adjacency (ic_synapses ctx) u) f32_zero"
    by (intro fold_cong) auto
  then show ?case by (simp add: n)
qed

lemma path_descends:
  assumes "ranked ctx rank" "(w, u) \<in> (synapse_graph ctx)\<^sup>+"
  shows "rank u < rank w"
  using assms(2) by (induction rule: trancl_induct) (use assms(1) in \<open>auto simp: ranked_def dest: order.strict_trans\<close>)

lemma computes_unique:
  assumes rank: "ranked ctx rank" "\<forall>u. rank u \<le> n"
  shows "computes ctx visiting u v \<Longrightarrow> leads_to ctx visiting u \<Longrightarrow> v = impact_ref ctx n u"
    and "computes_edges ctx visiting u es acc res \<Longrightarrow>
      set es \<subseteq> set (build_adjacency (ic_synapses ctx) u) \<Longrightarrow>
      (\<forall>w \<in> set visiting. w = u \<or> (w, u) \<in> (synapse_graph ctx)\<^sup>+) \<Longrightarrow>
      res = fold (\<lambda>(v, weight) acc. add_contribution ctx u v weight (impact_ref ctx n v) acc) es acc"
proof (induction rule: computes_computes_edges.inducts)
  case (hit other u v visiting)
  then show ?case by simp
next
  case (on_path u visiting)
  then have "rank u < rank u" using path_descends [OF rank(1)] by (auto simp: leads_to_def)
  then show ?case by simp
next
  case (at_output u visiting)
  then show ?case using rank by (cases n) (auto simp: ranked_def dest: spec [of _ u])
next
  case (no_edges u visiting)
  then show ?case by (cases n) (auto simp: no_edges_adjacency)
next
  case (follow u visiting v)
  obtain m where n: "n = Suc m" using rank by (metis ranked_def le_zero_eq less_irrefl not0_implies_Suc)
  have "v = fold (\<lambda>(v, weight) acc. add_contribution ctx u v weight (impact_ref ctx n v) acc)
      (build_adjacency (ic_synapses ctx) u) f32_zero"
    using follow.IH follow.prems by (auto simp: leads_to_def)
  also have "\<dots> = fold (\<lambda>(v, weight) acc. add_contribution ctx u v weight (impact_ref ctx m v) acc)
      (build_adjacency (ic_synapses ctx) u) f32_zero"
  proof (intro fold_cong refl)
    fix e assume "e \<in> set (build_adjacency (ic_synapses ctx) u)"
    moreover obtain v weight where e: "e = (v, weight)" by fastforce
    ultimately have "rank v < rank u" using adjacency_graph rank(1) by (fastforce simp: ranked_def)
    moreover have "rank u \<le> Suc m" "rank v \<le> n" using rank(2) n by simp_all
    ultimately have "impact_ref ctx n v = impact_ref ctx m v"
      by (intro impact_ref_enough [OF rank(1)]) simp_all
    then show "(case e of (v, weight) \<Rightarrow> \<lambda>acc. add_contribution ctx u v weight (impact_ref ctx n v) acc) =
        (case e of (v, weight) \<Rightarrow> \<lambda>acc. add_contribution ctx u v weight (impact_ref ctx m v) acc)"
      by (simp add: e)
  qed
  finally show ?case using follow(2) by (simp add: n)
next
  case (edges_done visiting u acc)
  then show ?case by simp
next
  case (edges_step visiting v child_impact u es weight acc res)
  have uv: "(u, v) \<in> synapse_graph ctx" using edges_step.prems(1) adjacency_graph by fastforce
  then have "leads_to ctx visiting v"
    using edges_step.prems(2) by (auto simp: leads_to_def intro: trancl_into_trancl)
  then show ?case using edges_step by simp
qed

text \<open>One thread alone is one of the interleavings.\<close>

definition cache_computed :: "impact_context \<Rightarrow> (string \<rightharpoonup> f32) \<Rightarrow> bool" where
  "cache_computed ctx cache \<longleftrightarrow>
     (\<forall>u v. cache u = Some v \<longrightarrow> (\<exists>visiting. computes ctx visiting u v \<and> leads_to ctx visiting u))"

lemma cache_computed_insert:
  "cache_computed ctx cache \<Longrightarrow> computes ctx visiting u v \<Longrightarrow> leads_to ctx visiting u \<Longrightarrow>
   cache_computed ctx (cache(u \<mapsto> v))"
  by (auto simp: cache_computed_def)

lemma sequential_computes:
  "impact_cached ctx visiting u cache = (v, cache') \<Longrightarrow> cache_computed ctx cache \<Longrightarrow>
     leads_to ctx visiting u \<Longrightarrow> computes ctx visiting u v \<and> cache_computed ctx cache'"
  "impact_edges ctx visiting u es acc cache = (res, cache') \<Longrightarrow> cache_computed ctx cache \<Longrightarrow>
     set es \<subseteq> set (build_adjacency (ic_synapses ctx) u) \<Longrightarrow>
     (\<forall>w \<in> set visiting. w = u \<or> (w, u) \<in> (synapse_graph ctx)\<^sup>+) \<Longrightarrow>
     computes_edges ctx visiting u es acc res \<and> cache_computed ctx cache'"
proof (induction ctx visiting u cache and ctx visiting u es acc cache
    arbitrary: v cache' and res cache' rule: impact_cached_impact_edges.induct)
  case (1 ctx visiting u cache)
  show ?case
  proof (cases "cache u")
    case (Some x)
    then obtain other where "computes ctx other u x" "leads_to ctx other u"
      using "1.prems"(2) by (auto simp: cache_computed_def)
    then show ?thesis using "1.prems" Some by (auto simp: impact_cached.simps intro: computes_computes_edges.hit)
  next
    case None
    consider "u \<in> set visiting" | "u \<notin> set visiting" "u \<in> set (ic_outputs ctx)"
      | "u \<notin> set visiting" "u \<notin> set (ic_outputs ctx)" "\<not> has_edges ctx u"
      | "u \<notin> set visiting" "u \<notin> set (ic_outputs ctx)" "has_edges ctx u" by blast
    then show ?thesis
    proof cases
      case 1
      then show ?thesis using "1.prems" None
        by (auto simp: impact_cached.simps intro: computes_computes_edges.on_path)
    next
      case 2
      then show ?thesis using "1.prems" None computes_computes_edges.at_output [OF 2]
        by (auto simp: impact_cached.simps intro: cache_computed_insert)
    next
      case 3
      then show ?thesis using "1.prems" None computes_computes_edges.no_edges [OF 3]
        by (auto simp: impact_cached.simps intro: cache_computed_insert)
    next
      case 4
      obtain res mid where e: "impact_edges ctx (u # visiting) u (build_adjacency (ic_synapses ctx) u) f32_zero cache
          = (res, mid)" by fastforce
      have "computes_edges ctx (u # visiting) u (build_adjacency (ic_synapses ctx) u) f32_zero res \<and>
          cache_computed ctx mid"
        by (rule "1.IH" [OF None 4 e "1.prems"(2)]) (use "1.prems"(3) in \<open>auto simp: leads_to_def\<close>)
      then have "computes ctx visiting u res" "cache_computed ctx mid"
        using computes_computes_edges.follow [OF 4] by blast+
      then show ?thesis using "1.prems" None 4 e
        by (auto simp: impact_cached.simps intro: cache_computed_insert)
    qed
  qed
next
  case (2 ctx visiting u acc cache)
  then show ?case by (auto intro: computes_computes_edges.edges_done)
next
  case (3 ctx visiting u v weight es acc cache)
  obtain child mid where c: "impact_cached ctx visiting v cache = (child, mid)" by fastforce
  have "(u, v) \<in> synapse_graph ctx" using "3.prems"(3) adjacency_graph by fastforce
  then have "leads_to ctx visiting v"
    using "3.prems"(4) by (auto simp: leads_to_def intro: trancl_into_trancl)
  then have h: "computes ctx visiting v child" "cache_computed ctx mid"
    using "3.IH"(1) [OF c "3.prems"(2)] by blast+
  have "computes_edges ctx visiting u es (add_contribution ctx u v weight child acc) res \<and> cache_computed ctx cache'"
    by (rule "3.IH"(2) [OF c [symmetric] _ h(2)]) (use "3.prems" c in auto)
  then show ?case using h(1) by (auto intro: computes_computes_edges.edges_step)
qed

lemma impact_cached_dom:
  "impact_cached ctx visiting u cache = (v, cache') \<Longrightarrow> dom cache \<subseteq> dom cache'"
  "impact_edges ctx visiting u es acc cache = (res, cache') \<Longrightarrow> dom cache \<subseteq> dom cache'"
proof (induction ctx visiting u cache and ctx visiting u es acc cache
    arbitrary: v cache' and res cache' rule: impact_cached_impact_edges.induct)
  case (1 ctx visiting u cache)
  note eq = "1.prems" [unfolded impact_cached.simps [of ctx visiting u cache]]
  show ?case
  proof (cases "cache u = None \<and> u \<notin> set visiting \<and> u \<notin> set (ic_outputs ctx) \<and> has_edges ctx u")
    case True
    obtain res mid where e: "impact_edges ctx (u # visiting) u (build_adjacency (ic_synapses ctx) u) f32_zero cache
        = (res, mid)" by fastforce
    have "dom cache \<subseteq> dom mid" using "1.IH" True e by blast
    then show ?thesis using eq True e by auto
  next
    case False
    then show ?thesis using eq by (auto split: option.splits if_splits)
  qed
next
  case (3 ctx visiting u v weight es acc cache)
  obtain child mid where c: "impact_cached ctx visiting v cache = (child, mid)" by fastforce
  then show ?case using "3.IH"(1) [OF c] "3.IH"(2) [OF c [symmetric]] "3.prems" by fastforce
qed simp

lemma impacts_of_computed:
  assumes "cache_computed ctx cache"
  shows "cache_computed ctx (impacts_of ctx ns cache) \<and>
     dom cache \<union> n_uuid ` set ns \<subseteq> dom (impacts_of ctx ns cache)"
  using assms
proof (induction ctx ns cache rule: impacts_of.induct)
  case (2 ctx n ns cache)
  obtain v cache' where c: "impact_cached ctx [] (n_uuid n) cache = (v, cache')" by fastforce
  define next_cache where "next_cache = (case cache (n_uuid n) of Some _ \<Rightarrow> cache
        | None \<Rightarrow> (case impact_cached ctx [] (n_uuid n) cache of (v, cache') \<Rightarrow> cache'(n_uuid n \<mapsto> v)))"
  have r: "impacts_of ctx (n # ns) cache = impacts_of ctx ns next_cache"
    by (simp add: next_cache_def)
  have "leads_to ctx [] (n_uuid n)" by (simp add: leads_to_def)
  with sequential_computes(1) [OF c "2.prems"] have "cache_computed ctx next_cache"
    using "2.prems" by (auto simp: next_cache_def c intro: cache_computed_insert split: option.split)
  moreover have "dom cache \<subseteq> dom next_cache" "n_uuid n \<in> dom next_cache"
    using impact_cached_dom(1) [OF c] by (auto simp: next_cache_def c split: option.split)
  moreover have "cache_computed ctx next_cache \<Longrightarrow>
      cache_computed ctx (impacts_of ctx ns next_cache) \<and>
      dom next_cache \<union> n_uuid ` set ns \<subseteq> dom (impacts_of ctx ns next_cache)"
    using "2.IH" unfolding next_cache_def .
  ultimately show ?case unfolding r by auto
qed simp

section \<open>Accepted creatures\<close>

definition impact_rank :: "creature_json \<Rightarrow> string \<Rightarrow> nat" where
  "impact_rank c u =
     (case position_map (c_neurons c) 0 u of
        Some i \<Rightarrow> length (c_neurons c) - i
      | None \<Rightarrow> Suc (length (c_neurons c)))"

definition targets_listed :: "creature_json \<Rightarrow> bool" where
  "targets_listed c \<longleftrightarrow> (\<forall>s \<in> set (c_synapses c). s_to s \<in> n_uuid ` set (c_neurons c))"

lemma accepted_ranked:
  assumes "validate_creature c = Inr ()" "targets_listed c" "ic_synapses ctx = c_synapses c"
  shows "ranked ctx (impact_rank c)" "impact_rank c u \<le> Suc (length (c_neurons c))"
proof -
  from assms(1) have dist: "distinct (map n_uuid (c_neurons c))"
    and fwd: "\<forall>s \<in> set (c_synapses c). synapse_forward c s"
    by (simp_all add: validate_creature_def forward_only_ok_iff)
  have below: "impact_rank c v < impact_rank c w" if "(w, v) \<in> synapse_graph ctx" for w v
  proof -
    from that obtain s where s: "s \<in> set (c_synapses c)" "s_from s = w" "s_to s = v"
      by (auto simp: synapse_graph_def assms(3))
    then obtain j where j: "j < length (c_neurons c)" "n_uuid (c_neurons c ! j) = v"
      using assms(2) unfolding targets_listed_def by (metis imageE in_set_conv_nth)
    then have pv: "position_map (c_neurons c) 0 v = Some j" by (auto simp: position_map_Some [OF dist])
    show ?thesis
    proof (cases "position_map (c_neurons c) 0 w")
      case None
      then show ?thesis using j(1) by (simp add: impact_rank_def pv)
    next
      case (Some i)
      then have "i < length (c_neurons c)" "n_uuid (c_neurons c ! i) = w"
        by (auto simp: position_map_Some [OF dist])
      then have "i < j" using fwd s j by (auto simp: synapse_forward_def)
      then show ?thesis using j(1) by (simp add: impact_rank_def pv Some)
    qed
  qed
  have pos: "0 < impact_rank c v" for v
    by (auto simp: impact_rank_def position_map_Some [OF dist] split: option.split)
  show "ranked ctx (impact_rank c)" using below pos by (auto simp: ranked_def)
  show "impact_rank c u \<le> Suc (length (c_neurons c))"
    by (auto simp: impact_rank_def split: option.split)
qed

lemma accepted_impacts:
  assumes acc: "validate_creature c = Inr ()" "targets_listed c" and n: "n \<in> set (c_neurons c)"
    and ctx: "ic_synapses ctx = c_synapses c"
  shows "impacts_of ctx (c_neurons c) Map.empty (n_uuid n) =
      Some (impact_ref ctx (Suc (length (c_neurons c))) (n_uuid n))"
    and "computes ctx [] (n_uuid n) v \<Longrightarrow> v = impact_ref ctx (Suc (length (c_neurons c))) (n_uuid n)"
proof -
  note rank = accepted_ranked [OF acc ctx]
  have unique: "v = impact_ref ctx (Suc (length (c_neurons c))) u"
    if "computes ctx visiting u v" "leads_to ctx visiting u" for visiting u v
    using computes_unique(1) [OF rank(1) _ that] rank(2) by blast
  have "cache_computed ctx Map.empty" by (simp add: cache_computed_def)
  note h = impacts_of_computed [OF this, of "c_neurons c"]
  then obtain v where v: "impacts_of ctx (c_neurons c) Map.empty (n_uuid n) = Some v" using n by blast
  then obtain visiting where "computes ctx visiting (n_uuid n) v" "leads_to ctx visiting (n_uuid n)"
    using h unfolding cache_computed_def by blast
  then show "impacts_of ctx (c_neurons c) Map.empty (n_uuid n) =
      Some (impact_ref ctx (Suc (length (c_neurons c))) (n_uuid n))"
    unfolding v by (metis unique)
next
  have "leads_to ctx [] (n_uuid n)" by (simp add: leads_to_def)
  then show "computes ctx [] (n_uuid n) v \<Longrightarrow> v = impact_ref ctx (Suc (length (c_neurons c))) (n_uuid n)"
    using computes_unique(1) [OF accepted_ranked(1) [OF acc ctx]] accepted_ranked(2) [OF acc ctx] by blast
qed



section \<open>What the structural impact means\<close>

lemma contribution_unsigned:
  assumes "ic_stats ctx = None" "f32_unsigned child_impact"
  shows "f32_unsigned (contribution ctx u v weight child_impact)"
proof -
  have known: "f32_unsigned (case total_inbound_weight (ic_synapses ctx) v of Some t \<Rightarrow> t | None \<Rightarrow> f32_one)"
  proof -
    have "f32_unsigned (fold (\<lambda>y acc. f32_add acc y) xs x)" if "f32_unsigned x" "\<forall>y \<in> set xs. f32_unsigned y" for xs x
      using that by (induction xs arbitrary: x) auto
    then have "f32_accumulate xs = Some t \<Longrightarrow> \<forall>y \<in> set xs. f32_unsigned y \<Longrightarrow> f32_unsigned t" for xs t
      by (cases xs) auto
    moreover have "\<forall>y \<in> set (inbound_weights (ic_synapses ctx) v). f32_unsigned y"
      by (auto simp: inbound_weights_def)
    ultimately show ?thesis by (auto simp: total_inbound_weight_def split: option.split)
  qed
  have bound: "f32_unsigned (apply_squash_bounding raw child_impact squash)" if "f32_unsigned raw" for raw squash
  proof -
    have "f32_unsigned frac_pi_2" "f32_unsigned f32_six"
      by (simp_all add: f32_unsigned_def f32_negative_def frac_pi_2_def f32_six_def)
    then have "squash_emit_magnitude squash = Some m \<Longrightarrow> f32_unsigned m" for m
      by (auto simp: squash_emit_magnitude_def Let_def split: if_splits)
    then show ?thesis using that assms(2) by (auto simp: apply_squash_bounding_def split: option.split)
  qed
  show ?thesis using known assms
    by (auto simp: contribution_def Let_def split: squash_category.split intro!: bound)
qed

lemma impact_unsigned:
  assumes "ic_stats ctx = None" "ic_gate_factors ctx = Map.empty"
  shows "f32_unsigned (impact_ref ctx n u)"
proof (induction n arbitrary: u)
  case (Suc n)
  have "f32_unsigned (fold (\<lambda>(v, weight) acc. add_contribution ctx u v weight (impact_ref ctx n v) acc) es acc)"
    if "f32_unsigned acc" for es acc
    using that
  proof (induction es arbitrary: acc)
    case (Cons e es)
    obtain v w where e: "e = (v, w)" by fastforce
    have "f32_unsigned (add_contribution ctx u v w (impact_ref ctx n v) acc)"
      using Cons.prems contribution_unsigned [OF assms(1) Suc] by (auto simp: add_contribution_def)
    then show ?case using Cons.IH by (simp add: e)
  qed simp
  then show ?case using assms(2) by simp
qed simp

lemma impact_unreachable:
  assumes "\<forall>o' \<in> set (ic_outputs ctx). (u, o') \<notin> (synapse_graph ctx)\<^sup>*"
  shows "impact_ref ctx n u = f32_zero"
  using assms
proof (induction n arbitrary: u)
  case (Suc n)
  have "f32_greater_eq f32_zero f32_zero" by (simp add: f32_greater_eq_def)
  moreover have "impact_ref ctx n v = f32_zero" if "(v, w) \<in> set (build_adjacency (ic_synapses ctx) u)" for v w
    using Suc adjacency_graph [OF that] by (meson converse_rtrancl_into_rtrancl)
  ultimately have "fold (\<lambda>(v, weight) acc. add_contribution ctx u v weight (impact_ref ctx n v) acc) es acc = acc"
    if "set es \<subseteq> set (build_adjacency (ic_synapses ctx) u)" for es acc
    using that by (induction es) (auto simp: add_contribution_def)
  moreover have "u \<notin> set (ic_outputs ctx)" using Suc.prems by auto
  ultimately show ?case by simp
qed simp

text \<open>The impact the triage asks for, without records, and its two definite values.\<close>

abbreviation structural_context :: "creature_json \<Rightarrow> impact_context" where
  "structural_context c \<equiv> context_of c None Map.empty"

lemma public_impact:
  assumes "validate_creature c = Inr ()" "targets_listed c" "n \<in> set (c_neurons c)"
  shows "compute_impacts_public c (n_uuid n) =
      Some (impact_ref (structural_context c) (Suc (length (c_neurons c))) (n_uuid n))"
proof -
  have "build_output_gate_factors (output_uuids c) (None :: unit provider option) None = Map.empty"
    by (simp add: build_output_gate_factors_def fun_eq_iff)
  then have "compute_impacts_public c = impacts_of (structural_context c) (c_neurons c) Map.empty"
    by (simp add: compute_impacts_public_def compute_impacts_with_contract_def)
  then show ?thesis using accepted_impacts(1) [OF assms, of "structural_context c"] by (simp add: context_of_def)
qed

definition dead_end :: "creature_json \<Rightarrow> string \<Rightarrow> bool" where
  "dead_end c u \<longleftrightarrow>
     (\<forall>o' \<in> set (output_uuids c). (u, o') \<notin> {(s_from s, s_to s) | s. s \<in> set (c_synapses c)}\<^sup>*)"

lemma dead_end_impact: "dead_end c u \<Longrightarrow> impact_ref (structural_context c) k u = f32_zero"
  by (rule impact_unreachable) (simp add: dead_end_def synapse_graph_def context_of_def)

lemma output_impact: "u \<in> set (output_uuids c) \<Longrightarrow> impact_ref (structural_context c) (Suc k) u = f32_one"
  by (simp add: context_of_def)



end
