(* ===== verification/Removal.thy ===== *)
theory Removal
  imports Impact Config "HOL-Library.Product_Lexorder" "HOL-Library.Char_ord" "HOL-Library.List_Lexorder"
begin

text \<open>
  Neurons worth removing (\<open>src/focus/ranking/removal_candidates.rs\<close>, \<open>removal_triage.rs\<close>,
  \<open>activation_weighting.rs\<close>, the summary of \<open>src/parquet_format/activation_summary.rs\<close> and the
  noise floor of \<open>constants/candidate_scoring.rs\<close>): a removal is proposed when its boosted
  complexity savings exceed the neuron's impact by the floor; every neuron considered is either a
  candidate or counted as a rejection. Reasons are kept as the values their text interpolates.
\<close>

section \<open>Savings and the noise floor\<close>

definition default_cost_of_growth :: f32 where "default_cost_of_growth = 0x33D6BF95"
definition removal_candidate_boost :: f32 where "removal_candidate_boost = 0x3FC00000"
definition removal_mean_activation_threshold :: f32 where
  "removal_mean_activation_threshold = 0x3D23D70A"
definition remove_low_impact_noise_floor_units :: f32 where
  "remove_low_impact_noise_floor_units = f32_one"
definition gain_floor_noise_backstop :: f32 where "gain_floor_noise_backstop = 0x3089705F"
definition f32_ten :: f32 where "f32_ten = 0x41200000"
definition f32_epsilon :: f32 where "f32_epsilon = 0x34000000"

definition calculate_removal_savings :: "nat \<Rightarrow> nat \<Rightarrow> f32 \<Rightarrow> f32" where
  "calculate_removal_savings incoming outgoing growth_cost =
     f32_mul growth_cost (f32_add f32_one (f32_div (f32_of_nat (incoming + outgoing)) f32_ten))"

definition env_f32_non_negative :: "float_parsers \<Rightarrow> environment \<Rightarrow> string \<Rightarrow> f32 option" where
  "env_f32_non_negative fp env name =
     keep_if (\<lambda>v. f32_is_finite v \<and> f32_greater_eq v f32_zero) (parse_env (parse_f32 fp) env name)"

definition remove_low_impact_noise_floor :: "float_parsers \<Rightarrow> environment \<Rightarrow> f32 \<Rightarrow> f32" where
  "remove_low_impact_noise_floor fp env cost_of_growth =
     (case env_f32_non_negative fp env ''NEAT_AI_DISCOVERY_REMOVE_LOW_IMPACT_NOISE_FLOOR'' of
        Some absolute \<Rightarrow> absolute
      | None \<Rightarrow>
          (let units = unwrap_or remove_low_impact_noise_floor_units
               (env_f32_non_negative fp env ''NEAT_AI_DISCOVERY_REMOVE_LOW_IMPACT_NOISE_FLOOR_UNITS'')
           in if f32_is_zero units then f32_zero
              else if \<not> f32_is_finite cost_of_growth \<or> f32_greater_eq f32_zero cost_of_growth
              then gain_floor_noise_backstop
              else f32_max (f32_mul units cost_of_growth) gain_floor_noise_backstop))"

definition effective_cost_of_growth :: "f32 option \<Rightarrow> f32" where
  "effective_cost_of_growth cost =
     (case cost of
        Some v \<Rightarrow> if f32_is_finite v \<and> f32_positive v then v else default_cost_of_growth
      | None \<Rightarrow> default_cost_of_growth)"

text \<open>\<open>SynapseCounts\<close>: one count per end of each synapse.\<close>

definition synapse_counts :: "creature_json \<Rightarrow> string \<Rightarrow> nat \<times> nat" where
  "synapse_counts c u =
     (length (filter (\<lambda>s. s_to s = u) (c_synapses c)), length (filter (\<lambda>s. s_from s = u) (c_synapses c)))"

section \<open>Candidates and outcomes\<close>

datatype activation_gate =
    Gate_applied
  | Gate_pending
  | Gate_unresolved string
  | Gate_no_samples
  | Gate_resolved f32 nat f32 f32

datatype removal_reason = Saves f32 f32 f32 nat f32 activation_gate

record removal_candidate =
  rc_uuid :: string
  rc_total_error :: f32
  rc_impact :: f32
  rc_mean_activation :: f32
  rc_weighted_impact :: f32
  rc_incoming :: nat
  rc_outgoing :: nat
  rc_savings :: f32
  rc_expected :: f32
  rc_reason :: removal_reason

record removal_outcome =
  ro_candidates :: "removal_candidate list"
  ro_noise_floor :: u32
  ro_savings_below_impact :: u32
  ro_active_neuron :: u32
  ro_considered :: u32

definition total_rejections :: "removal_outcome \<Rightarrow> u32" where
  "total_rejections r = sat_add (sat_add (ro_noise_floor r) (ro_savings_below_impact r)) (ro_active_neuron r)"

definition rejection_breakdown :: "removal_outcome \<Rightarrow> string \<rightharpoonup> u32" where
  "rejection_breakdown r =
     fold (\<lambda>(reason, n) m. if 0 < n then m(reason \<mapsto> n) else m)
       [(''removal_below_noise_floor'', ro_noise_floor r),
        (''removal_savings_below_impact'', ro_savings_below_impact r),
        (''removal_active_neuron'', ro_active_neuron r)] Map.empty"

datatype verdict =
    Candidate removal_candidate
  | Noise_floor_reject
  | Savings_below_impact_reject
  | Active_neuron_reject

text \<open>The loop over the verdicts, with saturating counters.\<close>

definition count_verdict :: "verdict \<Rightarrow> removal_outcome \<Rightarrow> removal_outcome" where
  "count_verdict v r =
     (case v of
        Candidate c \<Rightarrow> r\<lparr>ro_candidates := ro_candidates r @ [c]\<rparr>
      | Noise_floor_reject \<Rightarrow> r\<lparr>ro_noise_floor := sat_add (ro_noise_floor r) 1\<rparr>
      | Savings_below_impact_reject \<Rightarrow> r\<lparr>ro_savings_below_impact := sat_add (ro_savings_below_impact r) 1\<rparr>
      | Active_neuron_reject \<Rightarrow> r\<lparr>ro_active_neuron := sat_add (ro_active_neuron r) 1\<rparr>)"

definition count_verdicts :: "verdict list \<Rightarrow> removal_outcome" where
  "count_verdicts vs = fold count_verdict vs
     \<lparr>ro_candidates = [], ro_noise_floor = 0, ro_savings_below_impact = 0, ro_active_neuron = 0,
      ro_considered = clamp_word (length vs)\<rparr>"

section \<open>Triage of the ranked neurons\<close>

record gradient_flow_stats =
  gf_avg_gradient :: f32
  gf_saturation :: f32
  gf_dead :: f32

record ranked_neuron =
  rn_uuid :: string
  rn_total_error :: f32
  rn_raw_error :: f32
  rn_impact :: f32
  rn_mean_activation :: f32
  rn_weighted_impact :: f32
  rn_gradient :: gradient_flow_stats
  rn_frequency :: f32
  rn_score :: f32
  rn_mismatch :: f32

definition ranked_verdict :: "(string \<Rightarrow> nat \<times> nat) \<Rightarrow> f32 \<Rightarrow> f32 \<Rightarrow> ranked_neuron \<Rightarrow> verdict" where
  "ranked_verdict counts growth_cost noise_floor n =
     (case counts (rn_uuid n) of (incoming, outgoing) \<Rightarrow>
       (let savings = calculate_removal_savings incoming outgoing growth_cost;
            boosted = f32_mul savings removal_candidate_boost
        in if \<not> f32_is_finite (rn_impact n) \<or> \<not> f32_is_finite (rn_weighted_impact n)
           then Savings_below_impact_reject
           else if f32_greater_eq (rn_weighted_impact n) boosted then Savings_below_impact_reject
           else if f32_less f32_epsilon (rn_impact n) \<and>
                   f32_less removal_mean_activation_threshold (rn_mean_activation n)
           then Active_neuron_reject
           else
             (let net = f32_sub boosted (rn_weighted_impact n) in
              if f32_less net noise_floor then Noise_floor_reject
              else Candidate
                \<lparr>rc_uuid = rn_uuid n, rc_total_error = rn_total_error n, rc_impact = rn_impact n,
                 rc_mean_activation = rn_mean_activation n, rc_weighted_impact = rn_weighted_impact n,
                 rc_incoming = incoming, rc_outgoing = outgoing, rc_savings = boosted,
                 rc_expected = rn_weighted_impact n,
                 rc_reason = Saves savings (rn_weighted_impact n) net (incoming + outgoing) growth_cost
                   Gate_applied\<rparr>)))"

text \<open>The order of the candidates: the best net improvement, then the least impact, then the identifier.\<close>

definition removal_order :: "(removal_candidate \<Rightarrow> f32) \<Rightarrow> removal_candidate \<Rightarrow> descending \<times> int \<times> string" where
  "removal_order impact c = (Descending (f32_sub (rc_savings c) (impact c)), total_key (impact c), rc_uuid c)"

definition sort_candidates :: "(removal_candidate \<Rightarrow> f32) \<Rightarrow> removal_outcome \<Rightarrow> removal_outcome" where
  "sort_candidates impact r = r\<lparr>ro_candidates := sort_key (removal_order impact) (ro_candidates r)\<rparr>"

definition identify_removal_candidates ::
  "float_parsers \<Rightarrow> environment \<Rightarrow> ranked_neuron list \<Rightarrow> (string \<Rightarrow> nat \<times> nat) \<Rightarrow> f32 \<Rightarrow> removal_outcome" where
  "identify_removal_candidates fp env neurons counts growth_cost =
     sort_candidates rc_weighted_impact
       (count_verdicts (map (ranked_verdict counts growth_cost (remove_low_impact_noise_floor fp env growth_cost))
          neurons))"

section \<open>Structural triage\<close>

definition structural_contribution :: "f32 option \<Rightarrow> f32" where
  "structural_contribution impact =
     (let raw = unwrap_or f32_zero impact in
      if \<not> f32_is_finite raw then f32_infinity
      else if f32_positive raw then raw
      else f32_zero)"

definition structural_removal_verdict ::
  "(string \<rightharpoonup> f32) \<Rightarrow> (string \<Rightarrow> nat \<times> nat) \<Rightarrow> f32 \<Rightarrow> f32 \<Rightarrow> neuron_json \<Rightarrow> verdict" where
  "structural_removal_verdict impacts counts growth_cost noise_floor n =
     (case counts (n_uuid n) of (incoming, outgoing) \<Rightarrow>
       (let savings = calculate_removal_savings incoming outgoing growth_cost;
            boosted = f32_mul savings removal_candidate_boost;
            impact = structural_contribution (impacts (n_uuid n))
        in if f32_greater_eq impact boosted then Savings_below_impact_reject
           else
             (let net = f32_sub boosted impact in
              if f32_less net noise_floor then Noise_floor_reject
              else Candidate
                \<lparr>rc_uuid = n_uuid n, rc_total_error = f32_zero, rc_impact = impact,
                 rc_mean_activation = f32_zero, rc_weighted_impact = f32_zero,
                 rc_incoming = incoming, rc_outgoing = outgoing, rc_savings = boosted,
                 rc_expected = impact,
                 rc_reason = Saves savings impact net (incoming + outgoing) growth_cost Gate_pending\<rparr>)))"

definition identify_structural_removal_candidates_at ::
  "float_parsers \<Rightarrow> environment \<Rightarrow> creature_json \<Rightarrow> f32 \<Rightarrow> removal_outcome" where
  "identify_structural_removal_candidates_at fp env c growth_cost =
     sort_candidates rc_impact
       (count_verdicts (map (structural_removal_verdict (compute_impacts_public c) (synapse_counts c)
            growth_cost (remove_low_impact_noise_floor fp env growth_cost))
          (filter (\<lambda>n. n_type n = ''hidden'') (c_neurons c))))"

definition identify_structural_removal_candidates ::
  "float_parsers \<Rightarrow> environment \<Rightarrow> creature_json \<Rightarrow> f32 option \<Rightarrow> removal_outcome" where
  "identify_structural_removal_candidates fp env c cost =
     identify_structural_removal_candidates_at fp env c (effective_cost_of_growth cost)"

record structural_removal_candidate =
  sr_uuid :: string
  sr_impact :: f32
  sr_incoming :: nat
  sr_outgoing :: nat
  sr_savings :: f32
  sr_net :: f32
  sr_reason :: removal_reason

record structural_removal_triage =
  st_candidates :: "structural_removal_candidate list"
  st_noise_floor :: u32
  st_savings_below_impact :: u32
  st_considered :: u32

definition triage_removal_candidates ::
  "float_parsers \<Rightarrow> environment \<Rightarrow> creature_json \<Rightarrow> f32 option \<Rightarrow> structural_removal_triage" where
  "triage_removal_candidates fp env c cost =
     (let r = identify_structural_removal_candidates fp env c cost in
      \<lparr>st_candidates = map (\<lambda>k.
         \<lparr>sr_uuid = rc_uuid k, sr_impact = rc_impact k, sr_incoming = rc_incoming k,
          sr_outgoing = rc_outgoing k, sr_savings = rc_savings k,
          sr_net = f32_sub (rc_savings k) (rc_impact k), sr_reason = rc_reason k\<rparr>) (ro_candidates r),
       st_noise_floor = ro_noise_floor r, st_savings_below_impact = ro_savings_below_impact r,
       st_considered = ro_considered r\<rparr>)"

definition triage_total_rejections :: "structural_removal_triage \<Rightarrow> u32" where
  "triage_total_rejections t = sat_add (st_noise_floor t) (st_savings_below_impact t)"

section \<open>The activation-weighted gate\<close>

record activation_summary =
  as_mean :: f32
  as_count :: nat

type_synonym accumulators = "string \<rightharpoonup> f64 \<times> nat"

definition accumulate_row :: "string set \<Rightarrow> string \<times> f32 \<Rightarrow> accumulators \<Rightarrow> accumulators" where
  "accumulate_row wanted = (\<lambda>(uuid, activation) accs.
     if uuid \<notin> wanted \<or> \<not> f32_is_finite activation then accs
     else
       (case (case accs uuid of Some a \<Rightarrow> a | None \<Rightarrow> (f64_zero, 0)) of
          (sum_abs, n) \<Rightarrow> accs(uuid \<mapsto> (f64_add sum_abs (f64_of_f32 (f32_abs activation)), Suc n))))"

definition summarise :: "accumulators \<Rightarrow> string \<rightharpoonup> activation_summary" where
  "summarise accs = (\<lambda>uuid.
     case accs uuid of
       None \<Rightarrow> None
     | Some (sum_abs, n) \<Rightarrow>
         if n = 0 then None
         else Some \<lparr>as_mean = f32_of_f64 (f64_div sum_abs (f64_of_nat n)), as_count = n\<rparr>)"

text \<open>
  The batches of the file, each an error or its rows; \<open>expired\<close> is the reading of the clock
  against the deadline before each batch, and \<open>late\<close> the one before the file is opened.
\<close>

fun read_batches ::
  "string set \<Rightarrow> (nat \<Rightarrow> bool) \<Rightarrow> nat \<Rightarrow> (string + (string \<times> f32) list) list \<Rightarrow> accumulators
     \<Rightarrow> string + accumulators" where
  "read_batches wanted expired k [] accs = Inr accs"
| "read_batches wanted expired k (b # bs) accs =
     (if expired k then Inl ''deadline expired''
      else
        (case b of
           Inl e \<Rightarrow> Inl e
         | Inr rows \<Rightarrow> read_batches wanted expired (Suc k) bs (fold (accumulate_row wanted) rows accs)))"

definition read_mean_abs_activation_by_neuron ::
  "string set \<Rightarrow> bool \<Rightarrow> (nat \<Rightarrow> bool) \<Rightarrow> string + (string + (string \<times> f32) list) list
     \<Rightarrow> string + (string \<rightharpoonup> activation_summary)" where
  "read_mean_abs_activation_by_neuron wanted late expired file =
     (if wanted = {} then Inr Map.empty
      else if late then Inl ''deadline already passed''
      else
        and_then file (\<lambda>batches.
          and_then (read_batches wanted expired 0 batches Map.empty) (\<lambda>accs. Inr (summarise accs))))"

text \<open>Replacing the placeholder in a reason, where it still stands.\<close>

definition resolve_reason :: "activation_gate \<Rightarrow> removal_candidate \<Rightarrow> removal_candidate" where
  "resolve_reason gate c =
     c\<lparr>rc_reason := (case rc_reason c of
        Saves savings impact net synapses cost g \<Rightarrow>
          Saves savings impact net synapses cost (if g = Gate_pending then gate else g))\<rparr>"

definition apply_gate :: "activation_summary \<Rightarrow> f32 \<Rightarrow> removal_candidate \<Rightarrow> verdict" where
  "apply_gate summary noise_floor c =
     (let mean = as_mean summary;
          weighted = f32_mul (rc_impact c) mean
      in if \<not> f32_is_finite mean \<or> \<not> f32_is_finite weighted then Savings_below_impact_reject
         else if f32_less f32_epsilon (rc_impact c) \<and> f32_less removal_mean_activation_threshold mean
         then Active_neuron_reject
         else if f32_greater_eq weighted (rc_savings c) then Savings_below_impact_reject
         else
           (let net = f32_sub (rc_savings c) weighted in
            if f32_less net noise_floor then Noise_floor_reject
            else Candidate (resolve_reason (Gate_resolved mean (as_count summary) weighted net)
              (c\<lparr>rc_mean_activation := mean, rc_weighted_impact := weighted, rc_expected := weighted\<rparr>))))"

definition gate_verdict ::
  "(string \<rightharpoonup> activation_summary) \<Rightarrow> f32 \<Rightarrow> removal_candidate \<Rightarrow> verdict" where
  "gate_verdict summaries noise_floor c =
     (case summaries (rc_uuid c) of
        None \<Rightarrow> Candidate (resolve_reason Gate_no_samples c)
      | Some summary \<Rightarrow> apply_gate summary noise_floor c)"

definition gate_order ::
  "(string \<rightharpoonup> activation_summary) \<Rightarrow> removal_candidate \<Rightarrow> bool \<times> descending \<times> int \<times> string" where
  "gate_order summaries c = (summaries (rc_uuid c) = None, removal_order rc_weighted_impact c)"

definition resolve_activation_weighted_gate ::
  "float_parsers \<Rightarrow> environment \<Rightarrow> string + (string \<rightharpoonup> activation_summary) \<Rightarrow> f32 \<Rightarrow> removal_outcome
     \<Rightarrow> removal_outcome" where
  "resolve_activation_weighted_gate fp env summaries growth_cost r =
     (if ro_candidates r = [] then r
      else
        (case summaries of
           Inl e \<Rightarrow> r\<lparr>ro_candidates := map (resolve_reason (Gate_unresolved e)) (ro_candidates r)\<rparr>
         | Inr found \<Rightarrow>
             (let gated = fold count_verdict
                    (map (gate_verdict found (remove_low_impact_noise_floor fp env growth_cost)) (ro_candidates r))
                    (r\<lparr>ro_candidates := []\<rparr>)
              in gated\<lparr>ro_candidates := sort_key (gate_order found) (ro_candidates gated)\<rparr>)))"

definition identify_removal_candidates_for_focus ::
  "float_parsers \<Rightarrow> environment \<Rightarrow> creature_json \<Rightarrow> f32 option \<Rightarrow> bool \<Rightarrow> (nat \<Rightarrow> bool)
     \<Rightarrow> string + (string + (string \<times> f32) list) list \<Rightarrow> removal_outcome" where
  "identify_removal_candidates_for_focus fp env c cost late expired file =
     (let growth_cost = effective_cost_of_growth cost;
          structural = identify_structural_removal_candidates_at fp env c growth_cost;
          summaries = read_mean_abs_activation_by_neuron (rc_uuid ` set (ro_candidates structural)) late expired file
      in resolve_activation_weighted_gate fp env summaries growth_cost structural)"

section \<open>Constant neurons\<close>

definition constant_variance_threshold :: f32 where "constant_variance_threshold = 0x2EDBE6FF"

text \<open>Mean and variance of the finite activations, in double precision.\<close>

definition activation_mean_and_variance :: "discover_record list \<Rightarrow> f32 \<times> f32" where
  "activation_mean_and_variance rs =
     (if length rs < 2 then (f32_zero, f32_zero)
      else
        (let finite = map f64_of_f32 (filter f32_is_finite (map r_activation rs)) in
         if length finite < 2 then (f32_zero, f32_zero)
         else
           (let n = f64_of_nat (length finite);
                mean = f64_div (fold (\<lambda>a acc. f64_add acc a) finite f64_zero) n;
                mean_sq = f64_div (fold (\<lambda>a acc. f64_add acc (f64_mul a a)) finite f64_zero) n;
                variance = f64_sub mean_sq (f64_mul mean mean)
            in (f32_of_f64 mean, f32_of_f64 (f64_max variance f64_zero)))))"

definition last_of :: "(neuron_json \<Rightarrow> 'a) \<Rightarrow> creature_json \<Rightarrow> string \<rightharpoonup> 'a" where
  "last_of field c = fold (\<lambda>n m. m(n_uuid n \<mapsto> field n)) (c_neurons c) Map.empty"

text \<open>\<open>get_records_or_error(..).ok()\<close>.\<close>

definition records_ok :: "'e provider \<Rightarrow> string \<Rightarrow> discover_record list option" where
  "records_ok get u = (case get u of Inr (Some rs) \<Rightarrow> Some rs | _ \<Rightarrow> None)"

definition functionally_constant :: "creature_json \<Rightarrow> 'e provider \<Rightarrow> neuron_json \<Rightarrow> (f32 \<times> f32) option" where
  "functionally_constant c get n =
     (if last_of n_type c (n_uuid n) \<noteq> Some ''hidden'' then None
      else map_option activation_mean_and_variance (records_ok get (n_uuid n)))"

definition functionally_constant_focus_uuids ::
  "creature_json \<Rightarrow> 'e provider \<Rightarrow> neuron_json list \<Rightarrow> string set" where
  "functionally_constant_focus_uuids c get selectable =
     n_uuid ` set (filter (\<lambda>n. case functionally_constant c get n of
        None \<Rightarrow> False
      | Some (_, variance) \<Rightarrow> f32_greater_eq constant_variance_threshold variance) selectable)"

datatype removal_op = Op_set_bias string f32 | Op_remove_neuron string

record constant_removal =
  cr_operations :: "removal_op list"
  cr_expected_gain :: f32
  cr_mean :: f32
  cr_variance :: f32
  cr_downstream :: nat

definition constant_removal_of ::
  "creature_json \<Rightarrow> f32 \<Rightarrow> neuron_json \<Rightarrow> f32 \<times> f32 \<Rightarrow> constant_removal option" where
  "constant_removal_of c growth_cost n = (\<lambda>(mean, variance).
     (let outgoing = build_adjacency (c_synapses c) (n_uuid n) in
      if f32_less constant_variance_threshold variance \<or> outgoing = [] then None
      else
        (let biases = concat (map (\<lambda>(v, weight).
               (let new_bias = f32_add (unwrap_or f32_zero (last_of n_bias c v)) (f32_mul weight mean) in
                if f32_is_finite new_bias then [Op_set_bias v new_bias] else [])) outgoing)
         in case synapse_counts c (n_uuid n) of (incoming, out_count) \<Rightarrow>
            Some \<lparr>cr_operations = biases @ [Op_remove_neuron (n_uuid n)],
                  cr_expected_gain = calculate_removal_savings incoming out_count growth_cost,
                  cr_mean = mean, cr_variance = variance, cr_downstream = length outgoing\<rparr>)))"

definition detect_constant_neuron_removals ::
  "creature_json \<Rightarrow> 'e provider \<Rightarrow> neuron_json list \<Rightarrow> f32 \<Rightarrow> constant_removal list" where
  "detect_constant_neuron_removals c get selectable growth_cost =
     List.map_filter (\<lambda>n. Option.bind (functionally_constant c get n) (constant_removal_of c growth_cost n))
       selectable"

section \<open>Conservation\<close>

text \<open>How many neurons an outcome accounts for.\<close>

definition accounted :: "removal_outcome \<Rightarrow> nat" where
  "accounted r = length (ro_candidates r) + unat (ro_noise_floor r) +
     unat (ro_savings_below_impact r) + unat (ro_active_neuron r)"

lemma accounted_step:
  assumes "Suc (accounted r) < 2 ^ 32"
  shows "accounted (count_verdict v r) = Suc (accounted r)" "ro_considered (count_verdict v r) = ro_considered r"
  using assms by (auto simp: accounted_def count_verdict_def unat_sat_add split: verdict.split)

lemma accounted_fold:
  "accounted r + length vs < 2 ^ 32 \<Longrightarrow> accounted (fold count_verdict vs r) = accounted r + length vs \<and>
     ro_considered (fold count_verdict vs r) = ro_considered r"
proof (induction vs arbitrary: r)
  case (Cons v vs)
  then have "accounted (count_verdict v r) = Suc (accounted r)" by (intro accounted_step) simp
  then show ?case using Cons by (simp add: accounted_step)
qed simp

lemma accounted_rejections:
  "accounted r < 2 ^ 32 \<Longrightarrow> length (ro_candidates r) + unat (total_rejections r) = accounted r"
  by (simp add: accounted_def total_rejections_def unat_sat_add)

lemma accounted_sorted [simp]:
  "accounted (r\<lparr>ro_candidates := sort_key f (ro_candidates r)\<rparr>) = accounted r"
  "accounted (sort_candidates g r) = accounted r" "ro_considered (sort_candidates g r) = ro_considered r"
  by (simp_all add: accounted_def sort_candidates_def)

lemma accounted_verdicts:
  assumes "length vs < 2 ^ 32"
  shows "accounted (count_verdicts vs) = length vs" "unat (ro_considered (count_verdicts vs)) = length vs"
  using accounted_fold [of "\<lparr>ro_candidates = [], ro_noise_floor = 0, ro_savings_below_impact = 0,
      ro_active_neuron = 0, ro_considered = clamp_word (length vs)\<rparr>" vs] assms
  by (simp_all add: count_verdicts_def accounted_def unat_clamp_word)

lemma accounted_gate:
  assumes "accounted r < 2 ^ 32"
  shows "accounted (resolve_activation_weighted_gate fp env summaries growth_cost r) = accounted r \<and>
    ro_considered (resolve_activation_weighted_gate fp env summaries growth_cost r) = ro_considered r"
proof (cases "ro_candidates r = []")
  case True
  then show ?thesis by (simp add: resolve_activation_weighted_gate_def)
next
  case False
  show ?thesis
  proof (cases summaries)
    case (Inl e)
    then show ?thesis using False by (simp add: resolve_activation_weighted_gate_def accounted_def)
  next
    case (Inr found)
    have "accounted (r\<lparr>ro_candidates := []\<rparr>) + length (ro_candidates r) = accounted r" by (simp add: accounted_def)
    then show ?thesis using False assms Inr
        accounted_fold [of "r\<lparr>ro_candidates := []\<rparr>"
          "map (gate_verdict found (remove_low_impact_noise_floor fp env growth_cost)) (ro_candidates r)"]
      by (simp add: resolve_activation_weighted_gate_def Let_def)
  qed
qed

text \<open>
  C29. Removal triage loses no neuron: in the triage of the ranked neurons, in the structural
  triage and after the activation-weighted gate, whether the records could be read or not, the
  candidates and the rejections add up to the neurons considered.
\<close>

theorem removal_triage_conserves:
  assumes "length (c_neurons c) < 2 ^ 32" "length neurons < 2 ^ 32"
  shows "(let r = identify_removal_candidates fp env neurons counts growth_cost in
      length (ro_candidates r) + unat (total_rejections r) = unat (ro_considered r) \<and>
      unat (ro_considered r) = length neurons) \<and>
    (let r = identify_removal_candidates_for_focus fp env c cost late expired file in
      length (ro_candidates r) + unat (total_rejections r) = unat (ro_considered r) \<and>
      unat (ro_considered r) = length (filter (\<lambda>n. n_type n = ''hidden'') (c_neurons c))) \<and>
    (let t = triage_removal_candidates fp env c cost in
      length (st_candidates t) + unat (triage_total_rejections t) = unat (st_considered t))"
proof -
  have hidden: "length (filter (\<lambda>n. n_type n = ''hidden'') (c_neurons c)) < 2 ^ 32"
    using assms(1) length_filter_le le_less_trans by blast
  define structural where
    "structural = identify_structural_removal_candidates_at fp env c (effective_cost_of_growth cost)"
  have st: "accounted structural = length (filter (\<lambda>n. n_type n = ''hidden'') (c_neurons c))"
    "unat (ro_considered structural) = length (filter (\<lambda>n. n_type n = ''hidden'') (c_neurons c))"
    using hidden by (simp_all add: structural_def identify_structural_removal_candidates_at_def accounted_verdicts)
  have active: "ro_active_neuron structural = 0"
  proof -
    have "ro_active_neuron (fold count_verdict (map (structural_removal_verdict i k g f) ns) r) = ro_active_neuron r"
      for i k g f ns r
      by (induction ns arbitrary: r)
        (auto simp: count_verdict_def structural_removal_verdict_def Let_def split: prod.split)
    then show ?thesis
      by (simp add: structural_def identify_structural_removal_candidates_at_def sort_candidates_def count_verdicts_def)
  qed
  have "let r = identify_removal_candidates fp env neurons counts growth_cost in
      length (ro_candidates r) + unat (total_rejections r) = unat (ro_considered r) \<and>
      unat (ro_considered r) = length neurons"
    using assms(2) by (simp add: identify_removal_candidates_def Let_def accounted_rejections accounted_verdicts)
  moreover have "let r = identify_removal_candidates_for_focus fp env c cost late expired file in
      length (ro_candidates r) + unat (total_rejections r) = unat (ro_considered r) \<and>
      unat (ro_considered r) = length (filter (\<lambda>n. n_type n = ''hidden'') (c_neurons c))"
    using hidden st accounted_gate [of structural]
    by (simp add: identify_removal_candidates_for_focus_def Let_def accounted_rejections flip: structural_def)
  moreover have "let t = triage_removal_candidates fp env c cost in
      length (st_candidates t) + unat (triage_total_rejections t) = unat (st_considered t)"
    using hidden st active accounted_rejections [of structural]
    by (simp add: triage_removal_candidates_def identify_structural_removal_candidates_def Let_def
        triage_total_rejections_def total_rejections_def accounted_def unat_sat_add flip: structural_def)
  ultimately show ?thesis by blast
qed

definition no_floats :: float_parsers where
  "no_floats = \<lparr>parse_f32 = \<lambda>_. None, parse_f64 = \<lambda>_. None\<rparr>"

theorem removal_triage_conserves_witness:
  "(let r = identify_removal_candidates_for_focus no_floats Map.empty example_creature None True (\<lambda>_. False) (Inr []) in
      length (ro_candidates r) + unat (total_rejections r) = 1)"
  using removal_triage_conserves [of example_creature "[]"] by (simp add: example_creature_def Let_def)

section \<open>What a candidate promises\<close>

lemma fold_count_candidates:
  "k \<in> set (ro_candidates (fold count_verdict vs r)) \<longleftrightarrow>
     k \<in> set (ro_candidates r) \<or> Candidate k \<in> set vs"
  by (induction vs arbitrary: r) (auto simp: count_verdict_def split: verdict.split)

lemma count_verdicts_candidates [simp]:
  "k \<in> set (ro_candidates (count_verdicts vs)) \<longleftrightarrow> Candidate k \<in> set vs"
  by (simp add: count_verdicts_def fold_count_candidates)

lemma sort_candidates_set [simp]: "set (ro_candidates (sort_candidates f r)) = set (ro_candidates r)"
  by (simp add: sort_candidates_def)

text \<open>
  A candidate pays off at a floor: its savings exceed the impact given up, which is a number, by
  no less than the floor.
\<close>

definition pays_off :: "f32 \<Rightarrow> f32 \<Rightarrow> f32 \<Rightarrow> bool" where
  "pays_off noise_floor savings impact \<longleftrightarrow>
     f32_is_finite impact \<and> f32_less impact savings \<and> \<not> f32_less (f32_sub savings impact) noise_floor"

lemma finite_not_nan: "f32_is_finite x \<Longrightarrow> \<not> f32_is_nan x"
  by (metis f32_finite_number f32_number_nan_iff number.distinct(3))

lemma not_greater_eqD:
  "\<not> f32_greater_eq a b \<Longrightarrow> \<not> f32_is_nan a \<Longrightarrow> \<not> f32_is_nan b \<Longrightarrow> f32_less a b"
  by (auto simp: f32_greater_eq_def f32_less_def)

lemma infinity_not_less: "\<not> f32_less f32_infinity x"
proof
  assume l: "f32_less f32_infinity x"
  have "unat (f32_magnitude x) \<le> 0x7F800000" using l by (auto simp: f32_less_def f32_nan_iff)
  moreover have "f32_rank x \<le> int (unat (f32_magnitude x))"
    unfolding f32_rank_units by (simp add: signed_units_def)
  moreover have "f32_rank f32_infinity = 0x7F800000"
    by (simp add: f32_rank_def f32_infinity_def f32_negative_def f32_magnitude_def)
  ultimately show False using l unfolding f32_less_def by linarith
qed

text \<open>The boosted savings are at least the cost of growth, whatever the synapses.\<close>

lemma effective_cost_above_zero: "f32_above_zero (effective_cost_of_growth cost)"
  and effective_cost_finite: "f32_is_finite (effective_cost_of_growth cost)"
proof -
  have d: "f32_is_finite default_cost_of_growth \<and> f32_positive default_cost_of_growth"
    by (simp add: f32_is_finite_def f32_exponent_def f32_positive_def f32_less_def f32_rank_def f32_negative_def
        f32_magnitude_def f32_is_nan_def default_cost_of_growth_def f32_zero_def)
  then show "f32_above_zero (effective_cost_of_growth cost)" "f32_is_finite (effective_cost_of_growth cost)"
    by (auto simp: effective_cost_of_growth_def intro: f32_above_positive split: option.split)
qed

lemma synapse_share_unsigned:
  "f32_unsigned (f32_div (f32_of_nat n) f32_ten)" "\<not> f32_is_nan (f32_div (f32_of_nat n) f32_ten)"
proof -
  have ten: "f32_number f32_ten = Finite False (10 * 2 ^ 149)" by (simp add: f32_eval f32_ten_def)
  have "f32_unsigned f32_ten" by (simp add: f32_unsigned_def f32_negative_def f32_ten_def)
  then show "f32_unsigned (f32_div (f32_of_nat n) f32_ten)" by blast
  have "f32_number (f32_of_nat n) \<noteq> Nan" by (simp add: f32_number_nan_iff f32_of_nat_def del: f32_round.simps)
  then show "\<not> f32_is_nan (f32_div (f32_of_nat n) f32_ten)"
    by (cases "f32_number (f32_of_nat n)") (simp_all add: f32_div_def ten del: f32_round.simps)
qed

lemma boosted_savings_grow:
  assumes "f32_above_zero g"
  shows "f32_grows g (f32_mul (calculate_removal_savings incoming outgoing g) removal_candidate_boost)"
proof -
  have "f32_grows f32_one (f32_add f32_one (f32_div (f32_of_nat (incoming + outgoing)) f32_ten))"
    using synapse_share_unsigned by (intro f32_grows_add [OF f32_number_one])
  then have s: "f32_grows g (calculate_removal_savings incoming outgoing g)"
    unfolding calculate_removal_savings_def by (intro f32_grows_mul assms)
  have "f32_grows f32_one removal_candidate_boost"
    by (simp add: f32_grows_def f32_number_one) (simp add: f32_eval removal_candidate_boost_def)
  then have "f32_grows (calculate_removal_savings incoming outgoing g)
      (f32_mul (calculate_removal_savings incoming outgoing g) removal_candidate_boost)"
    by (intro f32_grows_mul f32_grows_above [OF assms s])
  then show ?thesis by (rule f32_grows_trans [OF s])
qed

lemma grows_not_nan: "f32_grows x y \<Longrightarrow> \<not> f32_is_nan y"
  by (auto simp: f32_grows_def f32_number_nan_iff [symmetric] split: number.splits)

lemma boosted_not_nan:
  "\<not> f32_is_nan (f32_mul (calculate_removal_savings i k (effective_cost_of_growth cost)) removal_candidate_boost)"
  using grows_not_nan [OF boosted_savings_grow [OF effective_cost_above_zero]] .

lemma structural_candidate:
  assumes "structural_removal_verdict impacts counts (effective_cost_of_growth cost) noise_floor n = Candidate k"
  shows "rc_uuid k = n_uuid n" "pays_off noise_floor (rc_savings k) (rc_impact k)"
proof -
  obtain i j where ij: "counts (n_uuid n) = (i, j)" by fastforce
  define boosted where
    "boosted = f32_mul (calculate_removal_savings i j (effective_cost_of_growth cost)) removal_candidate_boost"
  define impact where "impact = structural_contribution (impacts (n_uuid n))"
  from assms have le: "\<not> f32_greater_eq impact boosted" and net: "\<not> f32_less (f32_sub boosted impact) noise_floor"
    and k: "rc_uuid k = n_uuid n" "rc_savings k = boosted" "rc_impact k = impact"
    by (auto simp: structural_removal_verdict_def ij Let_def boosted_def impact_def split: if_splits)
  have i: "impact = f32_infinity \<or> f32_is_finite impact"
    by (auto simp: impact_def structural_contribution_def Let_def f32_is_finite_def f32_exponent_def f32_zero_def)
  have "\<not> f32_is_nan impact"
    using i finite_not_nan by (auto simp: f32_infinity_def f32_is_nan_def f32_magnitude_def)
  then have less: "f32_less impact boosted"
    using not_greater_eqD [OF le] boosted_not_nan unfolding boosted_def by blast
  then have "f32_is_finite impact" using i infinity_not_less by auto
  then show "rc_uuid k = n_uuid n" "pays_off noise_floor (rc_savings k) (rc_impact k)"
    using k less net by (simp_all add: pays_off_def)
qed

lemma gated_candidate:
  assumes "gate_verdict summaries noise_floor c = Candidate k" "\<not> f32_is_nan (rc_savings c)"
  shows "rc_uuid k = rc_uuid c" "rc_savings k = rc_savings c" "rc_impact k = rc_impact c"
    and "summaries (rc_uuid c) \<noteq> None \<Longrightarrow> pays_off noise_floor (rc_savings k) (rc_weighted_impact k)"
    and "summaries (rc_uuid c) = Some a \<Longrightarrow> f32_less f32_epsilon (rc_impact k) \<Longrightarrow>
      \<not> f32_less removal_mean_activation_threshold (as_mean a)"
  using assms finite_not_nan not_greater_eqD
  by (auto simp: gate_verdict_def apply_gate_def resolve_reason_def pays_off_def Let_def
      split: option.splits if_splits)

text \<open>
  C30. What the focus proposes to remove: every candidate is a hidden neuron of the creature whose
  boosted savings exceed its structural impact, a finite number, by at least the noise floor; if
  the records measured it, they also exceed its activation-weighted impact by the floor, and a
  neuron with more than a negligible impact has not been active.
\<close>

theorem removals_pay_off:
  assumes "summaries = read_mean_abs_activation_by_neuron
      (rc_uuid ` set (ro_candidates (identify_structural_removal_candidates fp env c cost))) late expired file"
    and "noise_floor = remove_low_impact_noise_floor fp env (effective_cost_of_growth cost)"
    and "k \<in> set (ro_candidates (identify_removal_candidates_for_focus fp env c cost late expired file))"
  shows "(\<exists>n \<in> set (c_neurons c). n_type n = ''hidden'' \<and> n_uuid n = rc_uuid k) \<and>
    pays_off noise_floor (rc_savings k) (rc_impact k) \<and>
    (case summaries of
       Inl _ \<Rightarrow> True
     | Inr found \<Rightarrow>
         (case found (rc_uuid k) of
            None \<Rightarrow> True
          | Some a \<Rightarrow> pays_off noise_floor (rc_savings k) (rc_weighted_impact k) \<and>
              \<not> (f32_less f32_epsilon (rc_impact k) \<and> f32_less removal_mean_activation_threshold (as_mean a))))"
proof -
  define r where "r = identify_structural_removal_candidates_at fp env c (effective_cost_of_growth cost)"
  have structural: "(\<exists>n \<in> set (c_neurons c). n_type n = ''hidden'' \<and> n_uuid n = rc_uuid s) \<and>
      pays_off noise_floor (rc_savings s) (rc_impact s)" if "s \<in> set (ro_candidates r)" for s
    using that structural_candidate
    by (auto simp: r_def identify_structural_removal_candidates_at_def assms(2))
  have final: "k \<in> set (ro_candidates (resolve_activation_weighted_gate fp env summaries (effective_cost_of_growth cost) r))"
    using assms(1,3)
    by (simp add: identify_removal_candidates_for_focus_def identify_structural_removal_candidates_def Let_def r_def)
  show ?thesis
  proof (cases summaries)
    case (Inl e)
    then obtain s where "s \<in> set (ro_candidates r)" "k = resolve_reason (Gate_unresolved e) s \<or> k = s"
      using final by (auto simp: resolve_activation_weighted_gate_def split: if_splits)
    then show ?thesis using structural [of s] Inl by (auto simp: resolve_reason_def)
  next
    case (Inr found)
    show ?thesis
    proof (cases "ro_candidates r = []")
      case True
      then show ?thesis using final by (simp add: resolve_activation_weighted_gate_def)
    next
      case False
      then obtain s where s: "s \<in> set (ro_candidates r)" "gate_verdict found noise_floor s = Candidate k"
        using final Inr
        by (auto simp: resolve_activation_weighted_gate_def assms(2) fold_count_candidates Let_def dest: sym)
      have "\<not> f32_is_nan (rc_savings s)" using structural [OF s(1)] by (auto simp: pays_off_def f32_less_def)
      note g = gated_candidate [OF s(2) this]
      show ?thesis using structural [OF s(1)] g Inr by (auto split: option.split)
    qed
  qed
qed

text \<open>Without overrides the floor is one cost of growth, when that is above the backstop.\<close>

definition floor_overridden :: "environment \<Rightarrow> bool" where
  "floor_overridden env \<longleftrightarrow>
     env ''NEAT_AI_DISCOVERY_REMOVE_LOW_IMPACT_NOISE_FLOOR'' \<noteq> None \<or>
     env ''NEAT_AI_DISCOVERY_REMOVE_LOW_IMPACT_NOISE_FLOOR_UNITS'' \<noteq> None"

lemma default_noise_floor:
  assumes "\<not> floor_overridden env" "f32_is_finite g" "f32_positive g" "f32_greater_eq g gain_floor_noise_backstop"
  shows "remove_low_impact_noise_floor fp env g = g"
proof -
  have "env_f32_non_negative fp env ''NEAT_AI_DISCOVERY_REMOVE_LOW_IMPACT_NOISE_FLOOR'' = None"
    "env_f32_non_negative fp env ''NEAT_AI_DISCOVERY_REMOVE_LOW_IMPACT_NOISE_FLOOR_UNITS'' = None"
    using assms(1) by (simp_all add: env_f32_non_negative_def parse_env_def floor_overridden_def keep_if_def)
  moreover have "\<not> f32_is_zero f32_one" by (simp add: f32_is_zero_def f32_one_def f32_magnitude_def)
  moreover have "\<not> f32_greater_eq f32_zero g"
    using assms(3) by (auto simp: f32_positive_def f32_less_def f32_greater_eq_def)
  moreover have "f32_mul f32_one g = g" using assms(2) f32_mul_one f32_finite_number by blast
  moreover have "f32_max g gain_floor_noise_backstop = g"
    using assms(4) by (auto simp: f32_max_def f32_less_def f32_greater_eq_def)
  ultimately show ?thesis
    using assms(2) by (simp add: remove_low_impact_noise_floor_def Let_def unwrap_or_def
        remove_low_impact_noise_floor_units_def)
qed

lemma effective_cost_positive: "f32_positive (effective_cost_of_growth cost)"
proof -
  have "f32_positive default_cost_of_growth"
    by (simp add: f32_positive_def f32_less_def f32_rank_def f32_negative_def
        f32_magnitude_def f32_is_nan_def default_cost_of_growth_def f32_zero_def)
  then show ?thesis by (auto simp: effective_cost_of_growth_def split: option.split)
qed

definition boosted_savings :: "creature_json \<Rightarrow> f32 \<Rightarrow> string \<Rightarrow> f32" where
  "boosted_savings c growth_cost u =
     (case synapse_counts c u of
        (incoming, outgoing) \<Rightarrow> f32_mul (calculate_removal_savings incoming outgoing growth_cost) removal_candidate_boost)"

text \<open>A dead neuron has no impact, so its savings alone face the floor.\<close>

lemma dead_neuron_verdict:
  assumes "validate_creature c = Inr ()" "targets_listed c"
    and "n \<in> set (c_neurons c)" "dead_end c (n_uuid n)"
    and v: "v = structural_removal_verdict (compute_impacts_public c) (synapse_counts c)
      (effective_cost_of_growth cost) noise_floor n"
  shows "\<not> f32_less (boosted_savings c (effective_cost_of_growth cost) (n_uuid n)) (effective_cost_of_growth cost)"
    and "if f32_less (boosted_savings c (effective_cost_of_growth cost) (n_uuid n)) noise_floor
      then v = Noise_floor_reject
      else \<exists>k. v = Candidate k \<and> rc_uuid k = n_uuid n \<and> rc_impact k = f32_zero"
proof -
  define g where "g = effective_cost_of_growth cost"
  obtain i j where ij: "synapse_counts c (n_uuid n) = (i, j)" by fastforce
  define boosted where "boosted = f32_mul (calculate_removal_savings i j g) removal_candidate_boost"
  have b: "boosted_savings c g (n_uuid n) = boosted" by (simp add: boosted_savings_def ij boosted_def)
  have grows: "f32_grows g boosted"
    unfolding boosted_def g_def by (rule boosted_savings_grow [OF effective_cost_above_zero])
  then have above: "f32_above_zero boosted" using f32_grows_above effective_cost_above_zero g_def by blast
  have impact: "structural_contribution (compute_impacts_public c (n_uuid n)) = f32_zero"
    using dead_end_impact [OF assms(4)]
    by (simp add: public_impact [OF assms(1-3)] structural_contribution_def f32_positive_def unwrap_or_def
        f32_less_def f32_is_finite_def f32_exponent_def f32_zero_def Let_def del: impact_ref.simps)
  have less: "\<not> f32_less boosted g" using grows by (rule f32_grows_not_less)
  have positive: "\<not> f32_greater_eq f32_zero boosted"
  proof
    assume "f32_greater_eq f32_zero boosted"
    then have "f32_less boosted g"
      using effective_cost_positive [of cost] f32_less_greater_eq_trans
      by (auto simp: g_def f32_positive_def f32_less_def f32_greater_eq_def)
    then show False using less by blast
  qed
  show "\<not> f32_less (boosted_savings c (effective_cost_of_growth cost) (n_uuid n)) (effective_cost_of_growth cost)"
    using less by (simp add: b flip: g_def)
  show "if f32_less (boosted_savings c (effective_cost_of_growth cost) (n_uuid n)) noise_floor
      then v = Noise_floor_reject
      else \<exists>k. v = Candidate k \<and> rc_uuid k = n_uuid n \<and> rc_impact k = f32_zero"
    using positive f32_sub_zero [OF above]
    unfolding v structural_removal_verdict_def ij g_def [symmetric] b impact
    by (simp add: Let_def flip: boosted_def)
qed

lemma structural_candidates:
  "set (ro_candidates (identify_structural_removal_candidates fp env c cost)) =
     {k. \<exists>n \<in> set (c_neurons c). n_type n = ''hidden'' \<and>
        structural_removal_verdict (compute_impacts_public c) (synapse_counts c) (effective_cost_of_growth cost)
          (remove_low_impact_noise_floor fp env (effective_cost_of_growth cost)) n = Candidate k}"
  by (force simp: identify_structural_removal_candidates_def identify_structural_removal_candidates_at_def image_iff)

lemma verdict_uuid: "structural_removal_verdict impacts counts g floor n = Candidate k \<Longrightarrow> rc_uuid k = n_uuid n"
  by (auto simp: structural_removal_verdict_def Let_def split: prod.splits if_splits)

lemma dead_neuron_candidate:
  assumes "validate_creature c = Inr ()" "targets_listed c"
    and "n \<in> set (c_neurons c)" "n_type n = ''hidden''" "dead_end c (n_uuid n)"
    and "\<not> floor_overridden env" "f32_greater_eq (effective_cost_of_growth cost) gain_floor_noise_backstop"
  shows "\<exists>k \<in> set (ro_candidates (identify_structural_removal_candidates fp env c cost)).
    rc_uuid k = n_uuid n \<and> rc_impact k = f32_zero"
proof -
  have floor: "remove_low_impact_noise_floor fp env (effective_cost_of_growth cost) = effective_cost_of_growth cost"
    using default_noise_floor assms(6,7) effective_cost_finite effective_cost_positive by blast
  from dead_neuron_verdict(2) [OF assms(1-3,5) refl, where noise_floor = "effective_cost_of_growth cost" and cost = cost]
    dead_neuron_verdict(1) [OF assms(1-3,5) refl, where cost = cost]
  show ?thesis using assms(3,4) by (auto simp: structural_candidates floor)
qed

text \<open>
  C31. Dead neurons are found: take an accepted creature whose synapses end at listed neurons, and
  its hidden neurons from which no output can be reached. Whatever the environment and the cost of
  growth, the structural triage proposes exactly those of them for removal whose boosted savings are
  not below the noise floor in force, with impact zero; the environment can raise that floor above
  the savings and so reject dead neurons. Without such an override, and with a cost of growth of at
  least the backstop, it proposes every one of them.
\<close>

theorem dead_neurons_proposed:
  assumes "validate_creature c = Inr ()" "targets_listed c"
    and "dead = n_uuid ` {n \<in> set (c_neurons c). n_type n = ''hidden'' \<and> dead_end c (n_uuid n)}"
    and "proposed = st_candidates (triage_removal_candidates fp env c cost)"
    and "g = effective_cost_of_growth cost"
  shows "dead \<inter> sr_uuid ` set proposed =
      {u \<in> dead. \<not> f32_less (boosted_savings c g u) (remove_low_impact_noise_floor fp env g)} \<and>
    (\<forall>k \<in> set proposed. sr_uuid k \<in> dead \<longrightarrow> sr_impact k = f32_zero) \<and>
    (\<not> floor_overridden env \<and> f32_greater_eq g gain_floor_noise_backstop \<longrightarrow> dead \<subseteq> sr_uuid ` set proposed)"
proof -
  define noise_floor where "noise_floor = remove_low_impact_noise_floor fp env g"
  define ks where "ks = set (ro_candidates (identify_structural_removal_candidates fp env c cost))"
  have names: "sr_uuid ` set proposed = rc_uuid ` ks"
    and zero: "(\<forall>k \<in> set proposed. sr_uuid k \<in> dead \<longrightarrow> sr_impact k = f32_zero) \<longleftrightarrow>
      (\<forall>k \<in> ks. rc_uuid k \<in> dead \<longrightarrow> rc_impact k = f32_zero)"
    by (auto simp: assms(4) ks_def triage_removal_candidates_def Let_def image_image)
  have verdict: "if f32_less (boosted_savings c g (n_uuid n)) noise_floor then v = Noise_floor_reject
      else \<exists>k. v = Candidate k \<and> rc_uuid k = n_uuid n \<and> rc_impact k = f32_zero"
    if "n \<in> set (c_neurons c)" "n_uuid n \<in> dead"
      "v = structural_removal_verdict (compute_impacts_public c) (synapse_counts c) g noise_floor n" for n v
  proof -
    have "dead_end c (n_uuid n)" using that(2) unfolding assms(3) by auto
    from dead_neuron_verdict(2) [OF assms(1,2) that(1) this that(3) [unfolded assms(5)]]
    show ?thesis unfolding assms(5) .
  qed
  have ks: "ks = {k. \<exists>n \<in> set (c_neurons c). n_type n = ''hidden'' \<and>
      structural_removal_verdict (compute_impacts_public c) (synapse_counts c) g noise_floor n = Candidate k}"
    by (simp add: ks_def structural_candidates assms(5) noise_floor_def)
  have "dead \<inter> rc_uuid ` ks = {u \<in> dead. \<not> f32_less (boosted_savings c g u) noise_floor}"
  proof (intro set_eqI iffI)
    fix u assume "u \<in> dead \<inter> rc_uuid ` ks"
    then obtain k n where k: "u \<in> dead" "u = rc_uuid k" "n \<in> set (c_neurons c)"
      "structural_removal_verdict (compute_impacts_public c) (synapse_counts c) g noise_floor n = Candidate k"
      unfolding ks by blast
    then have "u = n_uuid n" using verdict_uuid by metis
    with verdict [OF k(3) _ refl] k show "u \<in> {u \<in> dead. \<not> f32_less (boosted_savings c g u) noise_floor}"
      by (auto split: if_splits)
  next
    fix u assume "u \<in> {u \<in> dead. \<not> f32_less (boosted_savings c g u) noise_floor}"
    then have u: "u \<in> dead" "\<not> f32_less (boosted_savings c g u) noise_floor" by simp_all
    then obtain n where n: "n \<in> set (c_neurons c)" "n_type n = ''hidden''" "u = n_uuid n"
      unfolding assms(3) by blast
    with verdict [OF n(1) _ refl] u have "\<exists>k \<in> ks. rc_uuid k = u" unfolding ks by auto
    with u(1) show "u \<in> dead \<inter> rc_uuid ` ks" by auto
  qed
  moreover have "rc_impact k = f32_zero" if "k \<in> ks" "rc_uuid k \<in> dead" for k
  proof -
    from that(1) obtain n where n: "n \<in> set (c_neurons c)"
      "structural_removal_verdict (compute_impacts_public c) (synapse_counts c) g noise_floor n = Candidate k"
      unfolding ks by blast
    then have "n_uuid n \<in> dead" using verdict_uuid that(2) by metis
    from verdict [OF n(1) this refl] n(2) show ?thesis by (auto split: if_splits)
  qed
  moreover have "dead \<subseteq> rc_uuid ` ks" if "\<not> floor_overridden env" "f32_greater_eq g gain_floor_noise_backstop"
  proof
    fix u assume "u \<in> dead"
    then obtain n where n: "n \<in> set (c_neurons c)" "n_type n = ''hidden''" "dead_end c (n_uuid n)" "u = n_uuid n"
      unfolding assms(3) by blast
    from dead_neuron_candidate [OF assms(1,2) n(1-3) that(1) that(2) [unfolded assms(5)]] n(4)
    show "u \<in> rc_uuid ` ks" by (force simp: ks_def)
  qed
  ultimately show ?thesis unfolding names zero noise_floor_def by blast
qed

text \<open>The hidden neuron of this creature has an input and no way out.\<close>

definition stranded_creature :: creature_json where
  "stranded_creature = example_creature
     \<lparr>c_synapses := [\<lparr>s_from = ''input-0'', s_to = ''hidden-0'', s_weight = f32_one, s_type = None\<rparr>]\<rparr>"

lemma stranded_accepted: "validate_creature stranded_creature = Inr ()" "targets_listed stranded_creature"
proof -
  have "validate_forward_only_synapses stranded_creature = Inr ()" by code_simp
  moreover have "validate_neuron_biases stranded_creature = Inr ()" by code_simp
  moreover have "validate_creature_input_bounds stranded_creature = Inr ()"
    by (simp add: input_bounds_ok_iff stranded_creature_def example_creature_def max_creature_input_neurons_def
        max_creature_output_neurons_def)
  ultimately show "validate_creature stranded_creature = Inr ()" by (simp add: validate_creature_def)
  show "targets_listed stranded_creature"
    by (simp add: targets_listed_def stranded_creature_def example_creature_def)
qed

lemma stranded_dead: "dead_end stranded_creature ''hidden-0''"
proof -
  have "(''hidden-0'', u) \<in> {(s_from s, s_to s) | s. s \<in> set (c_synapses stranded_creature)}\<^sup>* \<Longrightarrow> u = ''hidden-0''" for u
    by (induction rule: rtrancl_induct) (auto simp: stranded_creature_def)
  then show ?thesis by (auto simp: dead_end_def output_uuids_def stranded_creature_def example_creature_def)
qed

lemma stranded_hidden:
  "c_neurons stranded_creature ! 0 \<in> set (c_neurons stranded_creature)"
  "n_type (c_neurons stranded_creature ! 0) = ''hidden''" "n_uuid (c_neurons stranded_creature ! 0) = ''hidden-0''"
  by (simp_all add: stranded_creature_def example_creature_def)

lemma stranded_cost:
  "f32_greater_eq (effective_cost_of_growth None) gain_floor_noise_backstop" "\<not> floor_overridden Map.empty"
  by (simp_all add: floor_overridden_def effective_cost_of_growth_def f32_greater_eq_def f32_rank_def f32_negative_def
      f32_magnitude_def f32_is_nan_def default_cost_of_growth_def gain_floor_noise_backstop_def)

theorem dead_neurons_proposed_witness:
  "''hidden-0'' \<in> sr_uuid ` set (st_candidates (triage_removal_candidates no_floats Map.empty stranded_creature None))"
proof -
  have "''hidden-0'' \<in> n_uuid ` {n \<in> set (c_neurons stranded_creature). n_type n = ''hidden'' \<and>
      dead_end stranded_creature (n_uuid n)}"
    by (intro image_eqI [of _ _ "c_neurons stranded_creature ! 0"] CollectI conjI)
      (simp_all only: stranded_hidden stranded_dead)
  then show ?thesis
    using dead_neurons_proposed [OF stranded_accepted refl refl refl, where fp = no_floats and env = Map.empty
      and cost = None] stranded_cost by blast
qed

theorem removals_pay_off_witness:
  "\<exists>k :: removal_candidate. rc_uuid k = ''hidden-0'' \<and>
     pays_off (remove_low_impact_noise_floor no_floats Map.empty (effective_cost_of_growth None)) (rc_savings k) (rc_impact k)"
proof -
  obtain s where s: "s \<in> set (ro_candidates (identify_structural_removal_candidates no_floats Map.empty stranded_creature None))"
    "rc_uuid s = ''hidden-0''"
    using dead_neuron_candidate [OF stranded_accepted stranded_hidden(1,2) _ stranded_cost(2,1), of no_floats]
      stranded_dead unfolding stranded_hidden(3) by blast
  then have "resolve_reason (Gate_unresolved ''deadline already passed'') s \<in> set (ro_candidates
      (identify_removal_candidates_for_focus no_floats Map.empty stranded_creature None True (\<lambda>_. False) (Inr [])))"
    by (auto simp: identify_removal_candidates_for_focus_def identify_structural_removal_candidates_def
        resolve_activation_weighted_gate_def read_mean_abs_activation_by_neuron_def Let_def)
  from removals_pay_off [OF refl refl this]
  have "pays_off (remove_low_impact_noise_floor no_floats Map.empty (effective_cost_of_growth None)) (rc_savings s) (rc_impact s)"
    by (simp add: resolve_reason_def)
  then show ?thesis using s(2) by blast
qed

section \<open>Neurons called constant\<close>

lemma mean_and_variance_unmeasured:
  "length (filter f32_is_finite (map r_activation rs)) < 2 \<Longrightarrow> activation_mean_and_variance rs = (f32_zero, f32_zero)"
  by (simp add: activation_mean_and_variance_def Let_def)

text \<open>
  A neuron with fewer than two finite samples gets variance zero, so it passes for a constant of
  mean zero: its removal is proposed without any compensation of its targets, whatever the one
  recorded activation was.
\<close>

theorem unmeasured_neuron_called_constant:
  assumes "n \<in> set selectable" "last_of n_type c (n_uuid n) = Some ''hidden''"
    and "build_adjacency (c_synapses c) (n_uuid n) \<noteq> []"
    and "get (n_uuid n) = Inr (Some rs)" "length (filter f32_is_finite (map r_activation rs)) < 2"
  shows "\<exists>k \<in> set (detect_constant_neuron_removals c get selectable growth_cost).
    Op_remove_neuron (n_uuid n) \<in> set (cr_operations k) \<and> cr_mean k = f32_zero"
proof -
  have f: "functionally_constant c get n = Some (f32_zero, f32_zero)"
    using assms(2,4) mean_and_variance_unmeasured [OF assms(5)] by (simp add: functionally_constant_def records_ok_def)
  have "\<not> f32_less constant_variance_threshold f32_zero"
    by (simp add: f32_less_def f32_rank_def f32_negative_def f32_magnitude_def constant_variance_threshold_def f32_zero_def)
  then obtain k where "constant_removal_of c growth_cost n (f32_zero, f32_zero) = Some k"
    "Op_remove_neuron (n_uuid n) \<in> set (cr_operations k)" "cr_mean k = f32_zero"
    using assms(3) by (cases "synapse_counts c (n_uuid n)") (simp add: constant_removal_of_def Let_def)
  then show ?thesis using f assms(1)
    by (force simp: detect_constant_neuron_removals_def List.map_filter_def image_iff)
qed

end
