(* ===== verification/Providers.thy ===== *)
theory Providers
  imports RecordCaches Reader Impact
begin

text \<open>
  Where the focus ranking gets its records from (\<open>src/focus/ranking/record_providers.rs\<close>): the eager
  provider holds every neuron's records, the lazy one loads a neuron on demand and keeps the most
  recently inserted ones. A \<open>HashMap\<close> is an association list. The eviction loop of the cache runs
  until the cache fits, and would never stop if its queue were exhausted first: it is a partial
  function, and that it returns is proved.
\<close>

section \<open>The eager provider\<close>

type_synonym grouped = "(string \<times> discover_record list) list"

definition eager_from_shared :: "grouped \<Rightarrow> grouped" where
  "eager_from_shared shared = map (\<lambda>(u, rs). (u, sort_key r_obs rs)) shared"

definition eager_get :: "grouped \<Rightarrow> 'e provider" where
  "eager_get records u = Inr (map_of records u)"

section \<open>The lazy provider\<close>

record lazy_cache =
  lc_entries :: grouped
  lc_order :: "string list"
  lc_capacity :: nat

definition default_cache_capacity :: nat where "default_cache_capacity = 8"

definition lazy_new :: "nat \<Rightarrow> lazy_cache" where
  "lazy_new capacity = \<lparr>lc_entries = [], lc_order = [], lc_capacity = capacity\<rparr>"

definition lazy_with_capacity :: "nat \<Rightarrow> lazy_cache" where
  "lazy_with_capacity capacity = lazy_new (max capacity default_cache_capacity)"

partial_function (option) lazy_evict :: "lazy_cache \<Rightarrow> lazy_cache option" where
  "lazy_evict c =
     (if lc_capacity c < length (lc_entries c)
      then
        (case lc_order c of
           [] \<Rightarrow> lazy_evict c
         | oldest # rest \<Rightarrow>
             lazy_evict (c\<lparr>lc_entries := AList.delete oldest (lc_entries c), lc_order := rest\<rparr>))
      else Some c)"

definition lazy_insert :: "string \<Rightarrow> discover_record list \<Rightarrow> lazy_cache \<Rightarrow> lazy_cache option" where
  "lazy_insert key rs c =
     (let order = (if map_of (lc_entries c) key = None then lc_order c
                   else filter (\<lambda>k. k \<noteq> key) (lc_order c))
      in lazy_evict (c\<lparr>lc_entries := AList.update key rs (lc_entries c), lc_order := order @ [key]\<rparr>))"

fun lazy_seed :: "grouped \<Rightarrow> lazy_cache \<Rightarrow> lazy_cache option" where
  "lazy_seed [] c = Some c"
| "lazy_seed ((u, rs) # rest) c =
     (if rs = [] then lazy_seed rest c
      else Option.bind (lazy_insert u (sort_key r_obs rs) c) (lazy_seed rest))"

definition lazy_get ::
  "(string \<Rightarrow> 'e + discover_record list) \<Rightarrow> string \<Rightarrow> lazy_cache
     \<Rightarrow> (('e + discover_record list option) \<times> lazy_cache) option" where
  "lazy_get load u c =
     (case map_of (lc_entries c) u of
        Some rs \<Rightarrow> Some (Inr (Some rs), c)
      | None \<Rightarrow>
          (case load u of
             Inl e \<Rightarrow> Some (Inl e, c)
           | Inr rs \<Rightarrow>
               if rs = [] then Some (Inr None, c)
               else
                 (let loaded = sort_key r_obs rs in
                  Option.bind (lazy_insert u loaded c) (\<lambda>c'. Some (Inr (Some loaded), c')))))"

definition get_records_or_error :: "'e provider \<Rightarrow> (string \<Rightarrow> 'e) \<Rightarrow> string \<Rightarrow> 'e + discover_record list" where
  "get_records_or_error get missing u =
     and_then (get u) (\<lambda>r. case r of Some rs \<Rightarrow> Inr rs | None \<Rightarrow> Inl (missing u))"

section \<open>What the cache holds\<close>

definition provider_answer :: "(string \<Rightarrow> 'e + discover_record list) \<Rightarrow> 'e provider" where
  "provider_answer load u =
     (case load u of
        Inl e \<Rightarrow> Inl e
      | Inr rs \<Rightarrow> Inr (if rs = [] then None else Some (sort_key r_obs rs)))"

definition queue_matches :: "lazy_cache \<Rightarrow> bool" where
  "queue_matches c \<longleftrightarrow> distinct (map fst (lc_entries c)) \<and> distinct (lc_order c) \<and>
     set (lc_order c) = fst ` set (lc_entries c)"

definition lazy_inv :: "(string \<Rightarrow> 'e + discover_record list) \<Rightarrow> lazy_cache \<Rightarrow> bool" where
  "lazy_inv load c \<longleftrightarrow> queue_matches c \<and>
     (\<forall>(u, rs) \<in> set (lc_entries c). provider_answer load u = Inr (Some rs))"

lemma lazy_evict_returns:
  assumes "queue_matches c" "\<forall>p \<in> set (lc_entries c). P p"
  shows "\<exists>c'. lazy_evict c = Some c' \<and> queue_matches c' \<and> (\<forall>p \<in> set (lc_entries c'). P p) \<and>
    lc_capacity c' = lc_capacity c \<and> length (lc_entries c') \<le> lc_capacity c"
  using assms
proof (induction "length (lc_entries c)" arbitrary: c rule: less_induct)
  case less
  show ?case
  proof (cases "lc_capacity c < length (lc_entries c)")
    case False
    then show ?thesis using less.prems by (subst lazy_evict.simps) simp
  next
    case True
    then have "fst ` set (lc_entries c) \<noteq> {}" by auto
    then obtain oldest rest where o: "lc_order c = oldest # rest"
      using less.prems(1) by (cases "lc_order c") (auto simp: queue_matches_def)
    define c1 where "c1 = c\<lparr>lc_entries := AList.delete oldest (lc_entries c), lc_order := rest\<rparr>"
    have "oldest \<in> fst ` set (lc_entries c)" using less.prems(1) o by (auto simp: queue_matches_def)
    then obtain v where "map_of (lc_entries c) oldest = Some v" by (metis map_of_eq_None_iff not_Some_eq)
    then have shorter: "length (lc_entries c1) < length (lc_entries c)"
      unfolding c1_def by (simp add: length_alist_delete)
    have "queue_matches c1" using less.prems(1) o
      by (auto simp: queue_matches_def c1_def alist_delete_filter distinct_map_filter image_iff)
    moreover have "\<forall>p \<in> set (lc_entries c1). P p"
      using less.prems(2) set_alist_delete unfolding c1_def by fastforce
    ultimately obtain c' where "lazy_evict c1 = Some c' \<and> queue_matches c' \<and> (\<forall>p \<in> set (lc_entries c'). P p) \<and>
        lc_capacity c' = lc_capacity c1 \<and> length (lc_entries c') \<le> lc_capacity c1"
      using less.hyps [OF shorter] by blast
    moreover have "lazy_evict c = lazy_evict c1" using True o by (subst lazy_evict.simps) (simp add: c1_def)
    ultimately show ?thesis by (auto simp: c1_def)
  qed
qed

lemma queue_matches_update:
  assumes "queue_matches c"
  shows "queue_matches (c\<lparr>lc_entries := AList.update key rs (lc_entries c),
    lc_order := (if map_of (lc_entries c) key = None then lc_order c
      else filter (\<lambda>k. k \<noteq> key) (lc_order c)) @ [key]\<rparr>)"
  using assms
  by (auto simp: queue_matches_def distinct_update dom_update map_of_eq_None_iff)

lemma lazy_insert_ok:
  assumes "lazy_inv load c" "provider_answer load u = Inr (Some rs)"
  shows "\<exists>c'. lazy_insert u rs c = Some c' \<and> lazy_inv load c' \<and>
    lc_capacity c' = lc_capacity c \<and> length (lc_entries c') \<le> lc_capacity c"
proof -
  have "\<forall>(k, v) \<in> set (AList.update u rs (lc_entries c)). provider_answer load k = Inr (Some v)"
    using assms set_update_subset by (fastforce simp: lazy_inv_def)
  then show ?thesis
    using lazy_evict_returns [OF queue_matches_update [of c u rs],
        of "\<lambda>(k, v). provider_answer load k = Inr (Some v)"] assms(1)
    by (auto simp: lazy_insert_def lazy_inv_def Let_def)
qed

lemma lazy_get_ok:
  assumes "lazy_inv load c"
  shows "\<exists>c'. lazy_get load u c = Some (provider_answer load u, c') \<and> lazy_inv load c' \<and>
    lc_capacity c' = lc_capacity c \<and> (c' = c \<or> length (lc_entries c') \<le> lc_capacity c)"
proof (cases "map_of (lc_entries c) u")
  case (Some rs)
  then have "provider_answer load u = Inr (Some rs)"
    using assms map_of_SomeD by (fastforce simp: lazy_inv_def)
  then show ?thesis using Some assms by (simp add: lazy_get_def)
next
  case None
  show ?thesis
  proof (cases "load u")
    case (Inl e)
    then show ?thesis using None assms by (simp add: lazy_get_def provider_answer_def)
  next
    case (Inr rs)
    show ?thesis
    proof (cases "rs = []")
      case True
      then show ?thesis using None Inr assms by (simp add: lazy_get_def provider_answer_def)
    next
      case False
      then have a: "provider_answer load u = Inr (Some (sort_key r_obs rs))"
        using Inr by (simp add: provider_answer_def)
      show ?thesis
        using lazy_insert_ok [OF assms a] None Inr False by (auto simp: lazy_get_def a Let_def)
    qed
  qed
qed

lemma lazy_get_laws:
  assumes "lazy_inv load c"
  shows "fst (the (lazy_get load u c)) = provider_answer load u"
    and "lazy_inv load (snd (the (lazy_get load u c)))"
    and "length (lc_entries c) \<le> lc_capacity c \<Longrightarrow>
      length (lc_entries (snd (the (lazy_get load u c)))) \<le> lc_capacity (snd (the (lazy_get load u c)))"
  using lazy_get_ok [OF assms, of u] by auto

interpretation lazy: bounded_cache "\<lambda>u c. the (lazy_get load u c)" "lazy_inv load" "provider_answer load"
    "\<lambda>c. length (lc_entries c) \<le> lc_capacity c" for load
  by unfold_locales (rule lazy_get_laws; assumption)+

text \<open>
  The states threads can bring the cache into: each lookup is one step under the lock, each store
  of a loaded answer another, and the two steps of different threads interleave in any way.
\<close>

inductive lazy_reach :: "(string \<Rightarrow> 'e + discover_record list) \<Rightarrow> nat \<Rightarrow> lazy_cache \<Rightarrow> bool"
  for load capacity where
  start: "lazy_reach load capacity (lazy_with_capacity capacity)"
| store: "lazy_reach load capacity c \<Longrightarrow> load u = Inr rs \<Longrightarrow> rs \<noteq> [] \<Longrightarrow>
    lazy_insert u (sort_key r_obs rs) c = Some c' \<Longrightarrow> lazy_reach load capacity c'"

inductive_cases lazy_reach_cases: "lazy_reach load capacity c"

lemma lazy_reach_inv:
  "lazy_reach load capacity c \<Longrightarrow> lazy_inv load c \<and> lc_capacity c = max capacity default_cache_capacity \<and>
     length (lc_entries c) \<le> lc_capacity c"
proof (induction rule: lazy_reach.induct)
  case start
  then show ?case by (simp add: lazy_with_capacity_def lazy_new_def lazy_inv_def queue_matches_def)
next
  case (store c u rs c')
  then have "provider_answer load u = Inr (Some (sort_key r_obs rs))" by (simp add: provider_answer_def)
  then show ?case using lazy_insert_ok [of load c u "sort_key r_obs rs"] store by auto
qed

lemma lazy_seed_reach:
  assumes "lazy_reach load capacity c" "\<forall>(u, rs) \<in> set groups. load u = Inr rs"
  shows "\<exists>c'. lazy_seed groups c = Some c' \<and> lazy_reach load capacity c'"
  using assms
proof (induction groups arbitrary: c)
  case (Cons g groups)
  obtain u rs where g: "g = (u, rs)" by fastforce
  show ?case
  proof (cases "rs = []")
    case True
    then show ?thesis using Cons g by simp
  next
    case False
    then have "load u = Inr rs" "provider_answer load u = Inr (Some (sort_key r_obs rs))"
      using Cons.prems(2) g by (simp_all add: provider_answer_def)
    then obtain c' where "lazy_insert u (sort_key r_obs rs) c = Some c'" "lazy_reach load capacity c'"
      using lazy_insert_ok [of load c] lazy_reach_inv [OF Cons.prems(1)] lazy_reach.store [OF Cons.prems(1) _ False]
      by blast
    then show ?thesis using Cons.IH [of c'] Cons.prems(2) g False by simp
  qed
qed simp

lemma eager_answer:
  assumes "\<forall>u. load u = Inr (lookup_list groups u)" "\<forall>(u, rs) \<in> set groups. rs \<noteq> []"
  shows "eager_get (eager_from_shared groups) u = (provider_answer load u :: 'e + discover_record list option)"
proof -
  have m: "map_of (eager_from_shared groups) u = map_option (sort_key r_obs) (map_of groups u)"
    by (induction groups) (auto simp: eager_from_shared_def)
  show ?thesis
  proof (cases "map_of groups u")
    case (Some rs)
    then have "rs \<noteq> []" using assms(2) map_of_SomeD by fastforce
    then show ?thesis using Some assms(1) by (simp add: eager_get_def m provider_answer_def lookup_list_def)
  qed (use assms(1) in \<open>simp add: eager_get_def m provider_answer_def lookup_list_def\<close>)
qed

text \<open>
  The lazy provider stands in for the eager one: when the loader returns for every neuron the
  rows the grouped read has for it, a lookup in any state the threads and the warm pass can have
  brought the cache into returns (its eviction loop ends), answers exactly what the eager provider
  answers, as does every further run of lookups, leaves such a state behind and never lets the cache outgrow its capacity.
\<close>

theorem lazy_provider_stands_in:
  assumes "\<forall>u. load u = (Inr (lookup_list groups u) :: 'e + discover_record list)" "\<forall>(u, rs) \<in> set groups. rs \<noteq> []"
    and "lazy_reach load capacity c"
  shows "\<exists>c'. lazy_get load u c = Some (eager_get (eager_from_shared groups) u, c') \<and>
    lazy_reach load capacity c' \<and> length (lc_entries c') \<le> max capacity default_cache_capacity \<and>
    fst (run_gets (\<lambda>u c. the (lazy_get load u c)) us c) = map (eager_get (eager_from_shared groups)) us"
proof -
  note inv = lazy_reach_inv [OF assms(3)]
  obtain c' where get: "lazy_get load u c = Some (provider_answer load u, c')" and "lazy_inv load c'"
    and cap: "length (lc_entries c') \<le> max capacity default_cache_capacity"
    using lazy_get_ok [of load c u] inv by auto
  have "lazy_reach load capacity c'"
    using get assms(3) lazy_reach.store [OF assms(3)]
    by (auto simp: lazy_get_def Let_def bind_eq_Some_conv split: option.splits sum.splits if_splits)
  moreover have "fst (run_gets (\<lambda>u c. the (lazy_get load u c)) us c) = map (provider_answer load) us"
    using lazy.run_answers inv by blast
  ultimately show ?thesis using get cap eager_answer [OF assms(1,2)] by auto
qed

theorem lazy_provider_stands_in_witness:
  "\<exists>c'. lazy_get (\<lambda>u. Inr (lookup_list [(''a'', [new_record 1 ''a'' None f32_zero []])] u) :: string + discover_record list)
     ''a'' (lazy_with_capacity 0) = Some (Inr (Some [new_record 1 ''a'' None f32_zero []]), c') \<and>
     length (lc_entries c') \<le> 8"
  using lazy_provider_stands_in [of "\<lambda>u. Inr (lookup_list [(''a'', [new_record 1 ''a'' None f32_zero []])] u) :: string + discover_record list"
      "[(''a'', [new_record 1 ''a'' None f32_zero []])]" 0 "lazy_with_capacity 0" "''a''", OF _ _ lazy_reach.start]
  by (simp add: eager_get_def eager_from_shared_def default_cache_capacity_def) blast

end
