(* ===== verification/SquareRoot.thy ===== *)
theory SquareRoot
  imports Ieee
begin

text \<open>
  The square root of \<open>f32\<close> (\<open>f32::sqrt\<close>), which IEEE 754 and Rust's documentation fix to the
  correctly rounded result, executable on the bit patterns: the integer square root of the units,
  with a sticky digit for what lies below it, rounded once. The lemmas show when a rounded result
  reaches a value (past the midpoint of it and its predecessor), how far below the exact result
  rounding can go, and that \<open>|x| \<le> sqrt (1 + x * x)\<close> holds in rounded arithmetic, whatever each of the
  three operations loses.
\<close>

section \<open>The integer square root\<close>

definition next_digit :: "nat \<Rightarrow> nat \<Rightarrow> nat" where
  "next_digit n q = (if (2 * q + 1) * (2 * q + 1) \<le> n then 2 * q + 1 else 2 * q)"

fun isqrt :: "nat \<Rightarrow> nat" where
  "isqrt n = (if n = 0 then 0 else next_digit n (isqrt (n div 4)))"

declare isqrt.simps [simp del]

lemma isqrt_spec: "isqrt n * isqrt n \<le> n \<and> n < Suc (isqrt n) * Suc (isqrt n)"
proof (induction n rule: isqrt.induct)
  case (1 n)
  show ?case
  proof (cases "n = 0")
    case False
    define q where "q = isqrt (n div 4)"
    have q: "q * q \<le> n div 4" "n div 4 < Suc q * Suc q"
      using 1 False by (simp_all add: q_def)
    then have "4 * (q * q) \<le> n" "n < 4 * (Suc q * Suc q)" by linarith+
    then have "2 * q * (2 * q) \<le> n" "n < Suc (Suc (2 * q)) * Suc (Suc (2 * q))"
      by (simp_all add: algebra_simps)
    then show ?thesis using False by (simp add: isqrt.simps [of n] next_digit_def flip: q_def)
  qed (simp add: isqrt.simps)
qed

lemma isqrt_ge: "m * m \<le> n \<Longrightarrow> m \<le> isqrt n"
proof (rule ccontr)
  assume "m * m \<le> n" "\<not> m \<le> isqrt n"
  then have "Suc (isqrt n) * Suc (isqrt n) \<le> m * m" by (intro mult_le_mono) simp_all
  with \<open>m * m \<le> n\<close> isqrt_spec [of n] show False by linarith
qed

text \<open>Twice the square root, with a last digit that tells an exact root from a larger one.\<close>

definition sticky_root :: "nat \<Rightarrow> nat" where
  "sticky_root n = 2 * isqrt n + (if isqrt n * isqrt n = n then 0 else 1)"

lemma sticky_root_ge: "m * m \<le> n \<Longrightarrow> 2 * m \<le> sticky_root n"
  using isqrt_ge [of m n] by (simp add: sticky_root_def)

lemma sticky_root_greater:
  assumes "m * m < n"
  shows "2 * m < sticky_root n"
proof (cases "isqrt n = m")
  case True
  then show ?thesis using assms by (simp add: sticky_root_def)
next
  case False
  then have "m < isqrt n" using isqrt_ge [of m n] assms by simp
  then show ?thesis by (simp add: sticky_root_def)
qed

fun exact_sqrt :: "nat \<Rightarrow> number \<Rightarrow> exact" where
  "exact_sqrt one Nan = Exact_nan"
| "exact_sqrt one (Infinite s) = (if s then Exact_nan else Exact_infinite False)"
| "exact_sqrt one (Finite s m) =
     (if m = 0 then Exact s 0 1
      else if s then Exact_nan
      else Exact False (sticky_root (m * one)) 2)"

definition f32_sqrt :: "f32 \<Rightarrow> f32" where
  "f32_sqrt x = f32_round (exact_sqrt f32_units_of_one (f32_number x))"

lemma isqrt_unique:
  assumes "m * m \<le> n" "n < Suc m * Suc m"
  shows "isqrt n = m"
proof -
  have "\<not> Suc m \<le> isqrt n"
  proof
    assume "Suc m \<le> isqrt n"
    then have "Suc m * Suc m \<le> isqrt n * isqrt n" by (intro mult_le_mono)
    with assms(2) isqrt_spec [of n] show False by linarith
  qed
  with isqrt_ge [OF assms(1)] show ?thesis by simp
qed

text \<open>The roots of 2 and 4, and the special values.\<close>

lemma f32_sqrt_two: "f32_sqrt 0x40000000 = 0x3FB504F3"
proof -
  have "isqrt (2 ^ 150 * 2 ^ 149) = 1009216521945237994791381332037992686769626072"
    by (rule isqrt_unique) simp_all
  then have "sticky_root (2 ^ 150 * 2 ^ 149) = 2018433043890475989582762664075985373539252145" by (simp add: sticky_root_def)
  then show ?thesis by (simp add: f32_sqrt_def f32_eval)
qed

lemma f32_sqrt_samples:
  "f32_sqrt 0x40800000 = 0x40000000" "f32_sqrt 0x80000000 = 0x80000000"
  "f32_sqrt 0x7F800000 = 0x7F800000" "f32_sqrt 0xBF800000 = f32_nan"
proof -
  have "isqrt (2 ^ 151 * 2 ^ 149) = 2 ^ 150" by (rule isqrt_unique) simp_all
  then have "sticky_root (2 ^ 151 * 2 ^ 149) = 2 ^ 151" by (simp add: sticky_root_def)
  then show "f32_sqrt 0x40800000 = 0x40000000" by (simp add: f32_sqrt_def f32_eval)
qed (simp_all add: f32_sqrt_def f32_eval)

section \<open>Rounding to nearest\<close>

text \<open>A magnitude is a significand and a shift.\<close>

lemma units_significand:
  assumes "F \<le> 2 ^ Suc p" "0 < k \<Longrightarrow> 2 ^ p \<le> F"
  shows "units p (k * 2 ^ p + F) = F * 2 ^ k"
proof -
  consider "F < 2 ^ p" | "2 ^ p \<le> F" "F < 2 ^ Suc p" | "F = 2 ^ Suc p" using assms(1) by linarith
  then show ?thesis
  proof cases
    case 1
    then have "k = 0" using assms(2) by (cases k) auto
    with 1 show ?thesis by (simp add: units_def)
  next
    case 2
    define f where "f = F - 2 ^ p"
    have F: "F = 2 ^ p + f" "f < 2 ^ p" using 2 by (simp_all add: f_def)
    have "k * 2 ^ p + F = Suc k * 2 ^ p + f" by (simp add: F(1))
    then have "(k * 2 ^ p + F) div 2 ^ p = Suc k" "(k * 2 ^ p + F) mod 2 ^ p = f"
      using F(2) by (simp_all del: mult_Suc)
    then show ?thesis by (simp add: units_def F(1))
  next
    case 3
    then have "k * 2 ^ p + F = (k + 2) * 2 ^ p" by simp
    then have "(k * 2 ^ p + F) div 2 ^ p = k + 2" "(k * 2 ^ p + F) mod 2 ^ p = 0"
      by (simp_all del: add_2_eq_Suc')
    then show ?thesis by (simp add: units_def 3)
  qed
qed

lemma significand_shift:
  obtains k F where "c = k * 2 ^ p + F" "F < 2 ^ Suc p" "k = 0 \<or> 2 ^ p \<le> F"
    "units p c = F * 2 ^ k" "units p (Suc c) = Suc F * 2 ^ k"
proof (cases "c div 2 ^ p = 0")
  case True
  then have "c < 2 ^ p" by (simp add: div_eq_0_iff)
  then have c: "c = 0 * 2 ^ p + c" "c < 2 ^ Suc p" by simp_all
  have "Suc c \<le> 2 ^ Suc p" using c(2) by simp
  then show ?thesis
    using that [of 0 c] c(2) units_significand [of c p 0] units_significand [of "Suc c" p 0] by simp
next
  case False
  define k F where "k = c div 2 ^ p - 1" and "F = 2 ^ p + c mod 2 ^ p"
  have "c = c div 2 ^ p * 2 ^ p + c mod 2 ^ p" by (rule div_mult_mod_eq [symmetric])
  also have "c div 2 ^ p = Suc k" using False by (simp add: k_def)
  finally have c: "c = k * 2 ^ p + F" by (simp add: F_def)
  have F: "F < 2 ^ Suc p" "2 ^ p \<le> F" by (simp_all add: F_def)
  have "units p c = F * 2 ^ k" unfolding c using F by (intro units_significand) simp_all
  moreover have "units p (Suc c) = Suc F * 2 ^ k"
    using F units_significand [of "Suc F" p k] by (simp add: c)
  ultimately show ?thesis using that [OF c F(1) disjI2 [OF F(2)]] by simp
qed

text \<open>A quotient above the midpoint of a value and its successor rounds to the successor or beyond.\<close>

lemma round_bits_above_mid:
  assumes d: "0 < d" and b: "Suc c \<le> infb" and mid: "(units p c + units p (Suc c)) * d < 2 * n"
  shows "Suc c \<le> round_bits p infb n d"
proof (cases "units p (Suc c) * d \<le> n")
  case True
  then show ?thesis using round_bits_bounds(1) [OF d, of p "Suc c" n infb] b by simp
next
  case False
  obtain k F where c: "c = k * 2 ^ p + F" "F < 2 ^ Suc p" "k = 0 \<or> 2 ^ p \<le> F"
    "units p c = F * 2 ^ k" "units p (Suc c) = Suc F * 2 ^ k"
    by (rule significand_shift [of c p])
  define D where "D = d * 2 ^ k"
  have D: "0 < D" using d by (simp add: D_def)
  have mid': "(2 * F + 1) * D < 2 * n" using mid c by (simp add: D_def algebra_simps)
  have hi: "n < Suc F * D" using False c by (simp add: D_def algebra_simps)
  have lo: "F * D \<le> n" using mid' by (simp add: algebra_simps)
  have q: "n div D = F" using lo hi D by (intro div_nat_eqI) (simp_all add: mult.commute)
  have "n div d div 2 ^ k = F" using q by (simp add: D_def div_mult2_eq)
  then have ndk: "F * 2 ^ k \<le> n div d" "n div d < Suc F * 2 ^ k"
    by (metis div_times_less_eq_dividend) (metis \<open>n div d div 2 ^ k = F\<close> lessI less_mult_imp_div_less div_less_iff_less_mult zero_less_numeral zero_less_power)
  have shift: "shift_of p (n div d) = k"
  proof (cases "k = 0")
    case True
    have "n div d < 2 ^ Suc p" using ndk(2) c(2) True by simp
    then show ?thesis using True by (simp add: shift_of.simps [of p "n div d"])
  next
    case False
    then have F: "2 ^ p \<le> F" using c(3) by simp
    have "2 ^ p * 2 ^ k \<le> F * 2 ^ k" using F by (rule mult_le_mono1)
    then have low: "2 ^ (p + k) \<le> n div d" unfolding power_add using ndk(1) by linarith
    have "Suc F * 2 ^ k \<le> 2 ^ Suc p * 2 ^ k" using c(2) by (intro mult_le_mono1) simp
    then have "n div d < 2 ^ (Suc p + k)" unfolding power_add using ndk(2) by linarith
    with low show ?thesis by (rule shift_of_unique)
  qed
  have "n = F * D + n mod D" using q by (metis div_mult_mod_eq)
  then have "D < 2 * (n mod D)" using mid' by (simp add: algebra_simps)
  then have "round_div n D = Suc F" by (simp add: round_div_def q Let_def)
  then show ?thesis using b c(1) by (simp add: round_bits_def shift Let_def flip: D_def)
qed

text \<open>So the exact result lies at most half a step above the rounded one.\<close>

lemma round_bits_half_step:
  assumes d: "0 < d" and c: "c = round_bits p infb n d" "c < infb"
  shows "2 * n \<le> (units p c + units p (Suc c)) * d"
proof (rule ccontr)
  assume "\<not> ?thesis"
  then have "(units p c + units p (Suc c)) * d < 2 * n" by simp
  from round_bits_above_mid [OF d _ this, of infb] c show False by simp
qed

section \<open>The root of one more than a square\<close>

text \<open>
  \<open>m\<close> units are squared, rounded (to \<open>P\<close> units), increased and rounded (to \<open>S\<close> units, not fewer), and
  the root is taken and rounded: the result is not below \<open>m\<close>. Squares of powers of two are exact;
  for every other significand the half step that squaring can lose is less than what separates
  the square from the square of the midpoint below it.
\<close>

lemma rounded_square_bound:
  assumes m: "m = M * 2 ^ e" "2 ^ 23 \<le> M" "M < 2 ^ 24" "126 \<le> e"
    and B: "B = round_bits 23 f32_infinity_bits (m * m) (2 ^ 149)" "B < f32_infinity_bits"
  shows "m * m \<le> units 23 B * 2 ^ 149 + 2 ^ 23 * (2 ^ e * 2 ^ e)"
proof -
  obtain f where e: "e = 126 + f" using m(4) le_Suc_ex by blast
  define k' :: nat where "k' = 128 + 2 * f"
  define C where "C = k' * 2 ^ 23 + 2 ^ 23"
  have C: "units 23 C = 2 ^ 23 * 2 ^ k'" unfolding C_def by (rule units_significand) simp_all
  have pow: "(2::nat) ^ k' * 2 ^ 149 = 2 ^ 25 * (2 ^ e * 2 ^ e)"
  proof -
    have "k' + 149 = 25 + (e + e)" by (simp add: k'_def e)
    then have "(2::nat) ^ (k' + 149) = 2 ^ (25 + (e + e))" by (rule arg_cong)
    then show ?thesis by (simp only: power_add)
  qed
  have "m * m \<le> (2 ^ 24 * 2 ^ e) * (2 ^ 24 * 2 ^ e)"
    unfolding m(1) using m(3) by (intro mult_le_mono mult_le_mono1) simp_all
  also have "\<dots> = units 23 C * 2 ^ 149"
  proof -
    have "units 23 C * 2 ^ 149 = 2 ^ 23 * (2 ^ k' * 2 ^ 149)" by (simp add: C)
    then show ?thesis unfolding pow by simp
  qed
  finally have top: "m * m \<le> units 23 C * 2 ^ 149" .
  then have BC: "B \<le> C" using round_bits_bounds(2) [of "2 ^ 149" "m * m" 23 C f32_infinity_bits] B(1) by simp
  show ?thesis
  proof (cases "B = C")
    case True
    then show ?thesis using top by simp
  next
    case False
    obtain k F where c: "B = k * 2 ^ 23 + F" "F < 2 ^ Suc 23" "k = 0 \<or> 2 ^ 23 \<le> F"
      "units 23 B = F * 2 ^ k" "units 23 (Suc B) = Suc F * 2 ^ k"
      by (rule significand_shift [of B 23])
    have "k < k'"
    proof (rule ccontr)
      assume "\<not> k < k'"
      then have k: "k' \<le> k" by simp
      then have "0 < k" by (simp add: k'_def)
      then have "C \<le> B" using c(3) k unfolding C_def c(1) by (intro add_mono mult_le_mono1) simp_all
      with BC False show False by simp
    qed
    then have "(2::nat) ^ Suc k \<le> 2 ^ k'" by (intro power_increasing) simp_all
    then have "2 * 2 ^ k * 2 ^ 149 \<le> (2 :: nat) ^ k' * 2 ^ 149" by simp
    then have step: "2 ^ k * 2 ^ 149 \<le> (2 :: nat) ^ 24 * (2 ^ e * 2 ^ e)" unfolding pow by simp
    have "2 * (m * m) \<le> (units 23 B + units 23 (Suc B)) * 2 ^ 149"
      by (rule round_bits_half_step [OF _ B]) simp
    also have "units 23 B + units 23 (Suc B) = 2 * units 23 B + 2 ^ k" by (simp add: c(4,5))
    finally have "2 * (m * m) \<le> 2 * (units 23 B * 2 ^ 149) + 2 ^ k * 2 ^ 149" by (simp add: algebra_simps)
    with step show ?thesis by simp
  qed
qed

lemma root_reaches:
  assumes b: "b < f32_infinity_bits" "m = units 23 b"
    and B: "B = round_bits 23 f32_infinity_bits (m * m) (2 ^ 149)" "B < f32_infinity_bits"
    and S: "units 23 B \<le> S" "2 ^ 149 \<le> S"
  shows "b \<le> round_bits 23 f32_infinity_bits (sticky_root (S * 2 ^ 149)) 2"
proof -
  define r where "r = round_bits 23 f32_infinity_bits (sticky_root (S * 2 ^ 149)) 2"
  have reach: "b \<le> r" if "m * m \<le> S * 2 ^ 149"
    using sticky_root_ge [OF that] round_bits_bounds(1) [of 2 23 b "sticky_root (S * 2 ^ 149)" f32_infinity_bits] b
    by (simp add: r_def mult.commute)
  have "b \<le> r"
  proof (cases "m \<le> 2 ^ 149")
    case True
    then have "m * m \<le> 2 ^ 149 * 2 ^ 149" by (intro mult_le_mono)
    also have "\<dots> \<le> S * 2 ^ 149" using S(2) by simp
    finally show ?thesis by (rule reach)
  next
    case False
    obtain e M where c: "b = e * 2 ^ 23 + M" "M < 2 ^ Suc 23" "e = 0 \<or> 2 ^ 23 \<le> M"
      "units 23 b = M * 2 ^ e"
      by (rule significand_shift [of b 23])
    have m: "m = M * 2 ^ e" by (simp add: b(2) c(4))
    have e: "126 \<le> e"
    proof (rule ccontr)
      assume "\<not> 126 \<le> e"
      then have "(2::nat) ^ e \<le> 2 ^ 125" by (intro power_increasing) simp_all
      then have "M * 2 ^ e \<le> 2 ^ 24 * 2 ^ 125" using c(2) by (intro mult_le_mono) simp_all
      then show False using False by (simp add: m)
    qed
    have M: "2 ^ 23 \<le> M" "M < 2 ^ 24" using c(2,3) e by auto
    define W :: nat where "W = 2 ^ e * 2 ^ e"
    have W: "0 < W" by (simp add: W_def)
    have mm: "m * m = M * M * W" by (simp add: m W_def)
    show ?thesis
    proof (cases "M = 2 ^ 23")
      case True
      obtain f where f: "e = 126 + f" using e le_Suc_ex by blast
      define C where "C = (126 + 2 * f) * 2 ^ 23 + 2 ^ 23"
      have C: "units 23 C = 2 ^ 23 * 2 ^ (126 + 2 * f)" unfolding C_def by (rule units_significand) simp_all
      have exact: "m * m = units 23 C * 2 ^ 149"
      proof -
        have "23 + 23 + (e + e) = 23 + (126 + 2 * f) + 149" by (simp add: f)
        then have "(2::nat) ^ (23 + 23 + (e + e)) = 2 ^ (23 + (126 + 2 * f) + 149)" by (rule arg_cong)
        then show ?thesis unfolding mm True W_def C by (simp only: power_add)
      qed
      have "B = min f32_infinity_bits C"
        unfolding B(1) exact by (rule round_bits_exact) simp
      then have "B = C" using B(2) by simp
      then show ?thesis using exact S(1) by (intro reach) simp
    next
      case False
      then obtain N where N: "M = Suc N" "2 ^ 23 \<le> N" using M(1) by (cases M) auto
      define c where "c = e * 2 ^ 23 + N"
      have b_Suc: "b = Suc c" by (simp add: c(1) N(1) c_def)
      have uc: "units 23 c = N * 2 ^ e" unfolding c_def using N M(2) by (intro units_significand) simp_all
      define mid where "mid = (2 * N + 1) * 2 ^ (e - 1)"
      have e1: "(2::nat) ^ e = 2 * 2 ^ (e - 1)" using e by (simp flip: power_Suc)
      have sum: "units 23 c + units 23 (Suc c) = 2 * mid"
        unfolding uc b_Suc [symmetric] c(4) N(1) mid_def e1 by (simp add: algebra_simps)
      have W4: "W = 4 * (2 ^ (e - 1) * 2 ^ (e - 1))" by (simp add: W_def e1)
      have mid4: "4 * (mid * mid) = (2 * N + 1) * (2 * N + 1) * W" unfolding mid_def W4 by (simp only: ac_simps)
      have "m * m \<le> units 23 B * 2 ^ 149 + 2 ^ 23 * W"
        unfolding W_def by (rule rounded_square_bound [OF m M e B])
      also have "\<dots> \<le> S * 2 ^ 149 + 2 ^ 23 * W" using S(1) by simp
      finally have low: "4 * (M * M * W) \<le> 4 * (S * 2 ^ 149) + 2 ^ 25 * W" by (simp add: mm)
      have "4 * (M * M * W) = (2 * N + 1) * (2 * N + 1) * W + (4 * N + 3) * W"
        unfolding N(1) by (simp add: algebra_simps)
      moreover have "2 ^ 25 * W < (4 * N + 3) * W" using N(2) W by (intro mult_strict_right_mono) simp_all
      ultimately have "4 * (mid * mid) < 4 * (S * 2 ^ 149)" using low unfolding mid4 by linarith
      then have "mid * mid < S * 2 ^ 149" by simp
      from sticky_root_greater [OF this]
      have "(units 23 c + units 23 (Suc c)) * 2 < 2 * sticky_root (S * 2 ^ 149)" unfolding sum by simp
      from round_bits_above_mid [OF _ _ this, of f32_infinity_bits] show ?thesis
        using b(1) by (simp add: r_def b_Suc)
    qed
  qed
  then show ?thesis by (simp add: r_def)
qed

end
