(* ===== verification/Squash.thy ===== *)
theory Squash
  imports Impact SquareRoot
begin

text \<open>
  The activation functions (\<open>src/activations.rs\<close>): the table that applies a squash by name, the
  table of function pointers for the simulation, the approximate inverses and the names that are
  recognised. A \<open>match\<close> on the normalised name is a lookup in a list of pairs. The functions of the
  platform's maths library, whose results the language does not fix, are the fields of \<open>maths\<close>; the
  square root, which it does fix, is computed.
\<close>

record maths =
  m_exp :: "f32 \<Rightarrow> f32"
  m_ln :: "f32 \<Rightarrow> f32"
  m_ln_1p :: "f32 \<Rightarrow> f32"
  m_tanh :: "f32 \<Rightarrow> f32"
  m_atanh :: "f32 \<Rightarrow> f32"
  m_sin :: "f32 \<Rightarrow> f32"
  m_cos :: "f32 \<Rightarrow> f32"
  m_tan :: "f32 \<Rightarrow> f32"
  m_atan :: "f32 \<Rightarrow> f32"
  m_powf :: "f32 \<Rightarrow> f32 \<Rightarrow> f32"
  m_exp64 :: "f64 \<Rightarrow> f64"
  m_ln64 :: "f64 \<Rightarrow> f64"

section \<open>Constants\<close>

definition f32_three_halves :: f32 where "f32_three_halves = 0x3FC00000"
definition f32_two :: f32 where "f32_two = 0x40000000"
definition f32_hundred :: f32 where "f32_hundred = 0x42C80000"
definition f32_hundredth :: f32 where "f32_hundredth = 0x3C23D70A"
definition f32_three :: f32 where "f32_three = 0x40400000"
definition f32_minus_one :: f32 where "f32_minus_one = 0xBF800000"
definition f32_fifth :: f32 where "f32_fifth = 0x3E4CCCCD"
definition f32_thousandth :: f32 where "f32_thousandth = 0x3A83126F"
definition f32_999_thousandths :: f32 where "f32_999_thousandths = 0x3F7FBE77"

definition js_max_safe_integer :: f32 where "js_max_safe_integer = 0x5A000000"
definition exponential_cutoff :: f32 where "exponential_cutoff = 0x42100000"
definition softplus_cutoff :: f32 where "softplus_cutoff = 0x44314000"
definition softplus_large_threshold :: f32 where "softplus_large_threshold = f32_hundred"
definition softplus_small_threshold :: f32 where "softplus_small_threshold = 0x26901D7D"
definition stdinverse_epsilon :: f32 where "stdinverse_epsilon = 0x2EDBE6FF"

definition selu_alpha :: f32 where "selu_alpha = 0x3FD62D7D"
definition selu_lambda :: f32 where "selu_lambda = 0x3F867D5F"
definition gelu_scale :: f32 where "gelu_scale = 0x3F4C422A"
definition gelu_cubic :: f32 where "gelu_cubic = 0x3D372713"

section \<open>The functions\<close>

definition sigmoid :: "maths \<Rightarrow> f32 \<Rightarrow> f32" where
  "sigmoid lm v =
     (if f32_greater_eq v f32_zero then f32_div f32_one (f32_add f32_one (m_exp lm (f32_neg v)))
      else (let e = m_exp lm v in f32_div e (f32_add f32_one e)))"

definition sech2_of :: "f32 \<Rightarrow> f32" where
  "sech2_of tanh_val = f32_sub f32_one (f32_mul tanh_val tanh_val)"

definition bent_identity :: "f32 \<Rightarrow> f32" where
  "bent_identity x =
     f32_add (f32_div (f32_sub (f32_sqrt (f32_add (f32_mul x x) f32_one)) f32_one) f32_two) x"

definition bipolar :: "f32 \<Rightarrow> f32" where
  "bipolar x = (if f32_less f32_zero x then f32_one else f32_minus_one)"

definition bipolar_sigmoid :: "maths \<Rightarrow> f32 \<Rightarrow> f32" where
  "bipolar_sigmoid lm x = f32_sub (f32_div f32_two (f32_add f32_one (m_exp lm (f32_neg x)))) f32_one"

definition elu :: "maths \<Rightarrow> f32 \<Rightarrow> f32" where
  "elu lm x = (if f32_greater_eq x f32_zero then x else f32_sub (m_exp lm x) f32_one)"

definition exponential :: "maths \<Rightarrow> f32 \<Rightarrow> f32" where
  "exponential lm x =
     (if \<not> f32_is_finite x \<or> f32_greater_eq x exponential_cutoff then js_max_safe_integer
      else
        (let result = f32_of_f64 (m_exp64 lm (f64_of_f32 x)) in
         if f32_is_finite result then result else js_max_safe_integer))"

definition gaussian :: "maths \<Rightarrow> f32 \<Rightarrow> f32" where
  "gaussian lm x =
     (let safe = f32_min (f32_abs x) f32_hundred in m_exp lm (f32_mul (f32_neg safe) safe))"

definition gelu_tanh_arg :: "f32 \<Rightarrow> f32" where
  "gelu_tanh_arg x = f32_mul gelu_scale (f32_add x (f32_mul gelu_cubic (f32_mul (f32_mul x x) x)))"

definition gelu :: "maths \<Rightarrow> f32 \<Rightarrow> f32" where
  "gelu lm x = f32_mul (f32_mul f32_half x) (f32_add f32_one (m_tanh lm (gelu_tanh_arg x)))"

definition hard_tanh :: "f32 \<Rightarrow> f32" where
  "hard_tanh x = f32_clamp f32_minus_one f32_one x"

definition isru :: "f32 \<Rightarrow> f32" where
  "isru x = f32_div x (f32_sqrt (f32_add f32_one (f32_mul x x)))"

definition leaky_relu :: "f32 \<Rightarrow> f32" where
  "leaky_relu x = (if f32_greater_eq x f32_zero then x else f32_mul f32_hundredth x)"

definition logsigmoid :: "maths \<Rightarrow> f32 \<Rightarrow> f32" where
  "logsigmoid lm x =
     (if f32_greater_eq x f32_zero then f32_neg (m_ln_1p lm (m_exp lm (f32_neg x)))
      else f32_sub x (m_ln_1p lm (m_exp lm x)))"

definition mish :: "maths \<Rightarrow> f32 \<Rightarrow> f32" where
  "mish lm x = f32_mul x (m_tanh lm (m_ln lm (f32_add f32_one (m_exp lm x))))"

definition relu :: "f32 \<Rightarrow> f32" where "relu x = f32_max x f32_zero"
definition relu6 :: "f32 \<Rightarrow> f32" where "relu6 x = f32_clamp f32_zero f32_six x"

definition selu :: "maths \<Rightarrow> f32 \<Rightarrow> f32" where
  "selu lm x =
     (if f32_greater_eq x f32_zero then f32_mul selu_lambda x
      else f32_mul (f32_mul selu_lambda selu_alpha) (f32_sub (m_exp lm x) f32_one))"

definition softplus :: "maths \<Rightarrow> f32 \<Rightarrow> f32" where
  "softplus lm x =
     (if \<not> f32_is_finite x then softplus_small_threshold
      else if f32_greater_eq x softplus_cutoff then softplus_large_threshold
      else
        (let result = f32_of_f64 (m_ln64 lm (f64_add f64_one (m_exp64 lm (f64_of_f32 x)))) in
         if f32_is_finite result then result else softplus_large_threshold))"

definition softsign :: "f32 \<Rightarrow> f32" where
  "softsign x = f32_div x (f32_add f32_one (f32_abs x))"

definition safe_sqrt :: "f32 \<Rightarrow> f32" where
  "safe_sqrt x = (if f32_is_finite x \<and> f32_greater_eq x f32_zero then f32_sqrt x else f32_zero)"

definition stdinverse :: "f32 \<Rightarrow> f32" where
  "stdinverse x =
     f32_div f32_one
       (if f32_less (f32_abs x) stdinverse_epsilon
        then if f32_greater_eq x f32_zero then stdinverse_epsilon else f32_neg stdinverse_epsilon
        else x)"

definition heaviside :: "f32 \<Rightarrow> f32" where
  "heaviside x = (if f32_less f32_zero x then f32_one else f32_zero)"

definition swish :: "maths \<Rightarrow> f32 \<Rightarrow> f32" where "swish lm x = f32_mul x (sigmoid lm x)"

definition complement :: "f32 \<Rightarrow> f32" where "complement x = f32_sub f32_one x"

section \<open>The tables\<close>

definition known_scalar_names :: "string list" where
  "known_scalar_names =
     [''ABSOLUTE'', ''ARCTAN'', ''BENT_IDENTITY'', ''BIPOLAR'', ''BIPOLAR_SIGMOID'', ''COMPLEMENT'',
      ''INVERSE'', ''COSINE'', ''CUBE'', ''ELU'', ''EXPONENTIAL'', ''GAUSSIAN'', ''GELU'', ''HARD_TANH'',
      ''CLIPPED'', ''IDENTITY'', ''ISRU'', ''LEAKYRELU'', ''LOGISTIC'', ''LOGSIGMOID'', ''MISH'', ''RELU'',
      ''RELU6'', ''SELU'', ''SINE'', ''SINUSOID'', ''SOFTPLUS'', ''SOFTSIGN'', ''SQRT'', ''SQUARE'',
      ''STDINVERSE'', ''STEP'', ''SWISH'', ''TAN'', ''TANH'']"

definition aggregate_names :: "string list" where
  "aggregate_names = [''IF'', ''MAXIMUM'', ''MINIMUM'', ''MEAN'', ''HYPOT'', ''HYPOTV2'']"

definition is_known_squash_name :: "string \<Rightarrow> bool" where
  "is_known_squash_name name \<longleftrightarrow>
     deserialise_squash name \<in> set (known_scalar_names @ aggregate_names)"

definition is_aggregate_squash :: "string \<Rightarrow> bool" where
  "is_aggregate_squash name \<longleftrightarrow> deserialise_squash name \<in> set aggregate_names"

definition apply_scalar_squash :: "maths \<Rightarrow> string \<Rightarrow> f32 \<Rightarrow> f32 option" where
  "apply_scalar_squash lm name x = map_option (\<lambda>f. f x) (map_of
     [(''ABSOLUTE'', f32_abs),
      (''ARCTAN'', m_atan lm),
      (''BENT_IDENTITY'', bent_identity),
      (''BIPOLAR'', bipolar),
      (''BIPOLAR_SIGMOID'', bipolar_sigmoid lm),
      (''COMPLEMENT'', complement),
      (''INVERSE'', complement),
      (''COSINE'', m_cos lm),
      (''CUBE'', \<lambda>x. f32_mul (f32_mul x x) x),
      (''ELU'', elu lm),
      (''EXPONENTIAL'', exponential lm),
      (''GAUSSIAN'', gaussian lm),
      (''GELU'', gelu lm),
      (''HARD_TANH'', hard_tanh),
      (''CLIPPED'', hard_tanh),
      (''IDENTITY'', \<lambda>x. x),
      (''ISRU'', isru),
      (''LEAKYRELU'', leaky_relu),
      (''LOGISTIC'', sigmoid lm),
      (''LOGSIGMOID'', logsigmoid lm),
      (''MISH'', mish lm),
      (''RELU'', relu),
      (''RELU6'', relu6),
      (''SELU'', selu lm),
      (''SINE'', m_sin lm),
      (''SINUSOID'', m_sin lm),
      (''SOFTPLUS'', softplus lm),
      (''SOFTSIGN'', softsign),
      (''SQRT'', safe_sqrt),
      (''SQUARE'', \<lambda>x. f32_mul x x),
      (''STDINVERSE'', stdinverse),
      (''STEP'', heaviside),
      (''SWISH'', swish lm),
      (''TAN'', m_tan lm),
      (''TANH'', m_tanh lm)] (deserialise_squash name))"

definition target_simulation_fn :: "maths \<Rightarrow> string \<Rightarrow> (f32 \<Rightarrow> f32) option" where
  "target_simulation_fn lm name = map_of
     [(''ABSOLUTE'', f32_abs),
      (''ARCTAN'', m_atan lm),
      (''BENT_IDENTITY'', bent_identity),
      (''BIPOLAR'', bipolar),
      (''BIPOLAR_SIGMOID'', bipolar_sigmoid lm),
      (''COMPLEMENT'', complement),
      (''INVERSE'', complement),
      (''COSINE'', m_cos lm),
      (''CUBE'', \<lambda>x. f32_mul (f32_mul x x) x),
      (''ELU'', elu lm),
      (''EXPONENTIAL'', exponential lm),
      (''GAUSSIAN'', gaussian lm),
      (''GELU'', gelu lm),
      (''HARD_TANH'', hard_tanh),
      (''CLIPPED'', hard_tanh),
      (''IDENTITY'', \<lambda>x. x),
      (''ISRU'', isru),
      (''LEAKYRELU'', leaky_relu),
      (''LOGISTIC'', sigmoid lm),
      (''LOGSIGMOID'', logsigmoid lm),
      (''MISH'', mish lm),
      (''RELU'', relu),
      (''RELU6'', relu6),
      (''SELU'', selu lm),
      (''SINE'', m_sin lm),
      (''SINUSOID'', m_sin lm),
      (''SOFTPLUS'', softplus lm),
      (''SOFTSIGN'', softsign),
      (''SQRT'', safe_sqrt),
      (''SQUARE'', \<lambda>x. f32_mul x x),
      (''STDINVERSE'', stdinverse),
      (''STEP'', heaviside),
      (''SWISH'', swish lm),
      (''TAN'', m_tan lm),
      (''TANH'', m_tanh lm)] (deserialise_squash name)"

section \<open>Approximate inverses\<close>

text \<open>One Newton step towards \<open>y\<close>, skipped where the derivative is too flat.\<close>

definition newton_step :: "f32 \<Rightarrow> f32 \<Rightarrow> f32 \<Rightarrow> f32 \<Rightarrow> f32" where
  "newton_step y value derivative x =
     (if f32_less stdinverse_epsilon (f32_abs derivative)
      then f32_sub x (f32_div (f32_sub value y) derivative) else x)"

definition clamp_open :: "f32 \<Rightarrow> f32" where
  "clamp_open y = f32_clamp (f32_neg f32_999_thousandths) f32_999_thousandths y"

definition gelu_newton :: "maths \<Rightarrow> f32 \<Rightarrow> f32 \<Rightarrow> f32" where
  "gelu_newton lm y x =
     (let tanh_val = m_tanh lm (gelu_tanh_arg x);
          value = f32_mul (f32_mul f32_half x) (f32_add f32_one tanh_val);
          d_arg = f32_mul gelu_scale
            (f32_add f32_one (f32_mul (f32_mul (f32_mul f32_three gelu_cubic) x) x));
          derivative = f32_add (f32_mul f32_half (f32_add f32_one tanh_val))
            (f32_mul (f32_mul (f32_mul f32_half x) (sech2_of tanh_val)) d_arg)
      in newton_step y value derivative x)"

definition mish_newton :: "maths \<Rightarrow> f32 \<Rightarrow> f32 \<Rightarrow> f32" where
  "mish_newton lm y x =
     (let exp_x = m_exp lm x;
          tanh_sp = m_tanh lm (m_ln lm (f32_add f32_one exp_x));
          sig = f32_div exp_x (f32_add f32_one exp_x);
          derivative = f32_add tanh_sp (f32_mul (f32_mul x (sech2_of tanh_sp)) sig)
      in newton_step y (f32_mul x tanh_sp) derivative x)"

definition swish_newton :: "maths \<Rightarrow> f32 \<Rightarrow> f32 \<Rightarrow> f32" where
  "swish_newton lm y x =
     (let sig = sigmoid lm x;
          derivative = f32_add sig (f32_mul (f32_mul x sig) (f32_sub f32_one sig))
      in newton_step y (f32_mul x sig) derivative x)"

definition gelu_start :: "f32 \<Rightarrow> f32" where
  "gelu_start y =
     (if f32_greater_eq y f32_zero then y
      else if f32_less (f32_neg f32_fifth) y then f32_mul y f32_three_halves
      else f32_minus_one)"

definition approximate_inverse_fn :: "maths \<Rightarrow> string \<Rightarrow> (f32 \<Rightarrow> f32) option" where
  "approximate_inverse_fn lm name = map_of
     [(''HARD_TANH'', hard_tanh), (''CLIPPED'', hard_tanh), (''RELU6'', relu6),
      (''TANH'', \<lambda>y. m_atanh lm (clamp_open y)),
      (''LOGISTIC'', \<lambda>y. let c = f32_clamp f32_thousandth f32_999_thousandths y
         in m_ln lm (f32_div c (f32_sub f32_one c))),
      (''SOFTSIGN'', \<lambda>y. let c = clamp_open y in f32_div c (f32_sub f32_one (f32_abs c))),
      (''BIPOLAR_SIGMOID'', \<lambda>y. f32_mul f32_two (m_atanh lm (clamp_open y))),
      (''ISRU'', \<lambda>y. let c = clamp_open y
         in f32_div c (f32_sqrt (f32_sub f32_one (f32_mul c c)))),
      (''ARCTAN'', m_tan lm),
      (''LOGSIGMOID'', \<lambda>y. let c = f32_min y (f32_neg f32_thousandth)
         in f32_neg (m_ln lm (f32_max (f32_sub (m_exp lm (f32_neg c)) f32_one) stdinverse_epsilon))),
      (''ELU'', \<lambda>y. if f32_greater_eq y f32_zero then y
         else m_ln lm (f32_max (f32_add y f32_one) f32_thousandth)),
      (''LEAKYRELU'', \<lambda>y. if f32_greater_eq y f32_zero then y else f32_div y f32_hundredth),
      (''SELU'', \<lambda>y. if f32_greater_eq y f32_zero then f32_div y selu_lambda
         else m_ln lm (f32_max (f32_add (f32_div y (f32_mul selu_lambda selu_alpha)) f32_one) f32_thousandth)),
      (''SOFTPLUS'', \<lambda>y. let c = f32_max y f32_thousandth
         in m_ln lm (f32_max (f32_sub (m_exp lm c) f32_one) stdinverse_epsilon)),
      (''GELU'', \<lambda>y. (gelu_newton lm y ^^ 4) (gelu_start y)),
      (''MISH'', \<lambda>y. (mish_newton lm y ^^ 4) y),
      (''SWISH'', \<lambda>y. (swish_newton lm y ^^ 4) y),
      (''IDENTITY'', \<lambda>y. y),
      (''COMPLEMENT'', complement), (''INVERSE'', complement)] (deserialise_squash name)"

section \<open>The tables agree\<close>

lemma target_names: "target_simulation_fn lm name = None \<longleftrightarrow> deserialise_squash name \<notin> set known_scalar_names"
  unfolding target_simulation_fn_def map_of_eq_None_iff by (simp add: known_scalar_names_def)

lemma inverse_names:
  "approximate_inverse_fn lm name \<noteq> None \<Longrightarrow> deserialise_squash name \<in> set known_scalar_names"
  unfolding approximate_inverse_fn_def not_None_eq
  by (elim exE, drule map_of_SomeD) (auto simp: known_scalar_names_def)

lemma magnitude_names: "squash_emit_magnitude name \<noteq> None \<Longrightarrow> deserialise_squash name \<in> set known_scalar_names"
  by (auto simp: squash_emit_magnitude_def known_scalar_names_def Let_def split: if_splits)

lemma names_disjoint: "set known_scalar_names \<inter> set aggregate_names = {}"
  by (simp add: known_scalar_names_def aggregate_names_def)

text \<open>
  The tables of the activation functions agree: the function pointer of the simulation is the
  squash that is applied by name, and both are missing for the same names; the recognised names are
  those with a function and the aggregates, never both; only a squash with a function has an
  approximate inverse or an output bound.
\<close>

theorem squash_tables_agree:
  "apply_scalar_squash lm name =
     (case target_simulation_fn lm name of Some f \<Rightarrow> (\<lambda>x. Some (f x)) | None \<Rightarrow> (\<lambda>x. None)) \<and>
   (is_known_squash_name name \<longleftrightarrow> (target_simulation_fn lm name \<noteq> None) \<noteq> is_aggregate_squash name) \<and>
   (target_simulation_fn lm name = None \<longleftrightarrow>
      target_simulation_fn lm name = None \<and> approximate_inverse_fn lm name = None \<and> squash_emit_magnitude name = None)"
proof -
  have "apply_scalar_squash lm name x = map_option (\<lambda>f. f x) (target_simulation_fn lm name)" for x
    unfolding apply_scalar_squash_def target_simulation_fn_def ..
  then have "apply_scalar_squash lm name =
     (case target_simulation_fn lm name of Some f \<Rightarrow> (\<lambda>x. Some (f x)) | None \<Rightarrow> (\<lambda>x. None))"
    by (auto split: option.split)
  moreover have "is_known_squash_name name \<longleftrightarrow> (target_simulation_fn lm name \<noteq> None) \<noteq> is_aggregate_squash name"
    using names_disjoint
    by (auto simp: is_known_squash_name_def is_aggregate_squash_def target_names)
  ultimately show ?thesis using inverse_names magnitude_names target_names by blast
qed

section \<open>The output bounds hold\<close>

text \<open>
  What the platform's functions promise: \<open>exp\<close> is not negative and at most one on negative
  arguments, \<open>tanh\<close> and \<open>atan\<close> stay within their ranges.
\<close>

definition magnitude_at_most :: "f32 \<Rightarrow> f32 \<Rightarrow> bool" where
  "magnitude_at_most bound x \<longleftrightarrow> f32_is_nan x \<or> f32_greater_eq bound (f32_abs x)"

definition sound_maths :: "maths \<Rightarrow> bool" where
  "sound_maths lm \<longleftrightarrow>
     (\<forall>x. f32_unsigned (m_exp lm x)) \<and>
     (\<forall>x. f32_negative x \<longrightarrow> magnitude_at_most f32_one (m_exp lm x)) \<and>
     (\<forall>x. magnitude_at_most f32_one (m_tanh lm x)) \<and>
     (\<forall>x. magnitude_at_most frac_pi_2 (m_atan lm x))"

lemma f32_abs_rank: "f32_rank (f32_abs x) = uint (f32_magnitude x)"
  by (simp add: f32_rank_def f32_abs_def f32_negative_def magnitude_take_bit bit_take_bit_iff)

lemma f32_abs_nan [simp]: "f32_is_nan (f32_abs x) = f32_is_nan x"
  by (simp add: f32_is_nan_def f32_abs_def magnitude_take_bit)

lemma at_most_iff: "\<not> f32_is_nan b \<Longrightarrow>
    magnitude_at_most b x \<longleftrightarrow> f32_is_nan x \<or> (- f32_rank b \<le> f32_rank x \<and> f32_rank x \<le> f32_rank b)"
proof -
  obtain m where m: "uint (f32_magnitude x) = m" "0 \<le> m" by simp
  show "\<not> f32_is_nan b \<Longrightarrow> ?thesis"
    unfolding magnitude_at_most_def f32_greater_eq_def f32_abs_rank f32_rank_def [of x] m(1) using m(2) by auto
qed

lemma bound_ranks: "\<not> f32_is_nan f32_one" "f32_rank f32_one = 0x3F800000"
  "\<not> f32_is_nan f32_minus_one" "f32_rank f32_minus_one = - 0x3F800000"
  "\<not> f32_is_nan f32_six" "f32_rank f32_six = 0x40C00000" "\<not> f32_is_nan frac_pi_2"
  by (simp_all add: f32_is_nan_def f32_rank_def f32_magnitude_def f32_negative_def f32_one_def
      f32_minus_one_def f32_six_def frac_pi_2_def)

lemma clamp_at_most:
  assumes "\<not> f32_is_nan lo" "\<not> f32_is_nan hi" "f32_rank lo \<le> f32_rank hi" "- f32_rank hi \<le> f32_rank lo"
  shows "magnitude_at_most hi (f32_clamp lo hi x)"
proof (cases "f32_is_nan x")
  case True
  then show ?thesis by (simp add: magnitude_at_most_def f32_clamp_def)
next
  case False
  note c = f32_clamp_rank [OF False assms(1,2,3)]
  with assms(4) show ?thesis by (simp add: at_most_iff [OF assms(2)])
qed

lemma unit_magnitude_at_most: "f32_unit x \<or> f32_is_nan x \<Longrightarrow> magnitude_at_most f32_one x"
proof -
  have "f32_unit x \<Longrightarrow> magnitude_at_most f32_one x"
  proof -
    assume "f32_unit x"
    then have "f32_unit (f32_abs x)" using f32_abs_number by (auto simp: f32_unit_def)
    then show ?thesis by (simp add: magnitude_at_most_def f32_unit_le_one)
  qed
  then show "f32_unit x \<or> f32_is_nan x \<Longrightarrow> magnitude_at_most f32_one x" by (auto simp: magnitude_at_most_def)
qed

lemma quotient_unit:
  assumes "f32_grows a b" "f32_above_zero b"
  shows "f32_unit (f32_div a b) \<or> f32_is_nan (f32_div a b)"
proof -
  have unit: "f32_unit (f32_round (Exact False n d))" if "0 < d" "n \<le> 2 ^ 149 * d" for n d
    using f32_round_unit [of d n False] that by simp
  show ?thesis
  proof (cases "f32_number a"; cases "f32_number b")
    fix s m t n assume "f32_number a = Finite s m" "f32_number b = Finite t n"
    then show ?thesis using assms unit [of n "m * 2 ^ 149"]
      by (auto simp: f32_div_def f32_grows_def f32_above_zero_def mult.commute simp del: f32_round.simps)
  next
    fix s m t assume "f32_number a = Finite s m" "f32_number b = Infinite t"
    then show ?thesis using assms unit [of 1 0]
      by (auto simp: f32_div_def f32_grows_def simp del: f32_round.simps)
  qed (use assms in \<open>auto simp: f32_div_def f32_grows_def simp del: f32_round.simps\<close>)
qed

lemma f32_add_commute: "f32_add a b = f32_add b a"
proof -
  have "exact_add x y = exact_add y x" for x y
    by (cases x; cases y) (auto simp: Let_def add.commute)
  then show ?thesis by (simp add: f32_add_def)
qed

lemma one_above_zero: "f32_above_zero f32_one"
  by (simp add: f32_above_zero_def f32_number_one)

lemma one_plus_grows:
  assumes "f32_unsigned e" "\<not> f32_is_nan e"
  shows "f32_grows f32_one (f32_add f32_one e)" "f32_above_zero (f32_add f32_one e)"
    and "f32_is_finite e \<Longrightarrow> f32_grows e (f32_add f32_one e)"
proof -
  show g: "f32_grows f32_one (f32_add f32_one e)" by (rule f32_grows_add [OF f32_number_one assms])
  then show "f32_above_zero (f32_add f32_one e)" using f32_grows_above one_above_zero by blast
  assume "f32_is_finite e"
  then obtain m where "f32_number e = Finite False m"
    using assms(1) f32_finite_number by (auto simp: f32_unsigned_number)
  then have "f32_grows e (f32_add e f32_one)"
    by (rule f32_grows_add) (simp_all add: bound_ranks)
  then show "f32_grows e (f32_add f32_one e)" by (simp add: f32_add_commute)
qed

lemma infinite_ratio:
  assumes "f32_unsigned e" "\<not> f32_is_finite e" "\<not> f32_is_nan e"
  shows "f32_is_nan (f32_div e (f32_add f32_one e))"
proof -
  obtain s where e: "f32_number e = Infinite s"
    using assms(2,3) f32_finite_number f32_number_nan_iff by (cases "f32_number e") auto
  then have "f32_number (f32_add f32_one e) = Infinite s"
    by (simp add: f32_add_def f32_number_one f32_number_pack number_of_bits_def)
  then show ?thesis using e f32_round_nan_iff [of Exact_nan] by (simp add: f32_div_def)
qed

lemma nan_operand:
  "f32_is_nan y \<Longrightarrow> f32_is_nan (f32_div x y)" "f32_is_nan x \<Longrightarrow> f32_is_nan (f32_div x y)"
proof -
  have "exact_div one Nan n = Exact_nan" "exact_div one n Nan = Exact_nan" for one n by (cases n; simp)+
  then show "f32_is_nan y \<Longrightarrow> f32_is_nan (f32_div x y)" "f32_is_nan x \<Longrightarrow> f32_is_nan (f32_div x y)"
    by (simp_all add: f32_div_def f32_number_nan_iff [symmetric] del: f32_round.simps)
      (use f32_round_nan_iff [of Exact_nan] in \<open>simp_all add: f32_number_nan_iff\<close>)
qed

lemma self_share:
  assumes "f32_unsigned e"
  shows "f32_unit (f32_div e (f32_add f32_one e)) \<or> f32_is_nan (f32_div e (f32_add f32_one e))"
  using assms quotient_unit [OF one_plus_grows(3,2)] infinite_ratio nan_operand(2) by blast

lemma sigmoid_unit:
  assumes "sound_maths lm"
  shows "f32_unit (sigmoid lm x) \<or> f32_is_nan (sigmoid lm x)"
proof -
  have e: "f32_unsigned (m_exp lm y)" for y using assms by (simp add: sound_maths_def)
  have "f32_unit (f32_div f32_one (f32_add f32_one (m_exp lm y))) \<or>
      f32_is_nan (f32_div f32_one (f32_add f32_one (m_exp lm y)))" for y
    using quotient_unit [OF one_plus_grows(1,2) [OF e]] nan_operand(1) f32_add_nan_iff by blast
  then show ?thesis using self_share [OF e] by (simp add: sigmoid_def Let_def)
qed

lemma f32_abs_pack: "b < 2 ^ 31 \<Longrightarrow> f32_abs (f32_pack s b) = f32_pack False b"
proof -
  assume b: "b < 2 ^ 31"
  then have "f32_magnitude (f32_pack s b) = f32_magnitude (f32_pack False b)"
    using f32_pack_magnitude by (simp add: word_unat_eq_iff)
  moreover have "\<not> f32_negative (f32_pack False b)" "unat (f32_magnitude (f32_pack False b)) = b"
    using b f32_pack_negative [of b False] f32_pack_magnitude [of b False] by auto
  then have "f32_pack False b = f32_magnitude (f32_pack False b)"
    using b by (simp add: f32_pack_def word_unat_eq_iff unat_of_nat)
  ultimately show ?thesis by (simp add: f32_abs_def)
qed

lemma round_at_most:
  assumes "0 < d" "n \<le> 2 ^ 149 * d"
  shows "magnitude_at_most f32_one (f32_round (Exact s n d))"
proof -
  have "f32_abs (f32_round (Exact s n d)) = f32_round (Exact False n d)"
    using f32_abs_pack [OF top_bits(1)] by simp
  moreover have "f32_unit (f32_round (Exact False n d))" using f32_round_unit [of d n False] assms by simp
  ultimately show ?thesis by (simp add: magnitude_at_most_def f32_unit_le_one del: f32_round.simps)
qed

lemma softsign_bounded: "magnitude_at_most f32_one (softsign x)"
proof (cases "f32_number x")
  case Nan
  then show ?thesis using nan_operand(2) by (simp add: softsign_def magnitude_at_most_def f32_number_nan_iff)
next
  case (Infinite s)
  then have a: "f32_number (f32_abs x) = Infinite False"
    by (auto simp: f32_number_def number_of_bits_def f32_abs_def magnitude_take_bit f32_negative_def
        bit_take_bit_iff split: if_splits)
  then have "f32_number (f32_add f32_one (f32_abs x)) = Infinite False"
    by (simp add: f32_add_def f32_number_one f32_number_pack number_of_bits_def)
  then have "f32_is_nan (softsign x)"
    using Infinite f32_round_nan_iff [of Exact_nan] by (simp add: softsign_def f32_div_def)
  then show ?thesis by (simp add: magnitude_at_most_def)
next
  case (Finite s m)
  have "f32_is_finite (f32_abs x)" "\<not> f32_is_nan (f32_abs x)" "f32_number (f32_abs x) = Finite False m"
    using f32_abs_number [OF Finite] f32_finiteD(1) [OF Finite] f32_finite_number by auto
  then have g: "f32_grows (f32_abs x) (f32_add f32_one (f32_abs x))" "f32_above_zero (f32_add f32_one (f32_abs x))"
    "f32_number (f32_abs x) = Finite False m"
    using one_plus_grows [of "f32_abs x"] by auto
  show ?thesis
  proof (cases "f32_number (f32_add f32_one (f32_abs x))")
    case (Finite t n)
    then have "\<not> t" "m \<le> n" "0 < n" using g by (auto simp: f32_grows_def f32_above_zero_def)
    then show ?thesis
      using round_at_most [of n "m * 2 ^ 149" s] Finite \<open>f32_number x = Finite s m\<close>
      by (simp add: softsign_def f32_div_def mult.commute del: f32_round.simps)
  next
    case (Infinite t)
    then show ?thesis using round_at_most [of 1 0] \<open>f32_number x = Finite s m\<close>
      by (simp add: softsign_def f32_div_def del: f32_round.simps)
  qed (use g in \<open>auto simp: f32_grows_def\<close>)
qed

lemma two_number: "f32_number f32_two = Finite False (2 ^ 150)"
  by (simp add: f32_eval f32_two_def)

lemma bipolar_sigmoid_bounded:
  assumes "sound_maths lm"
  shows "magnitude_at_most f32_one (bipolar_sigmoid lm x)"
proof -
  define e where "e = m_exp lm (f32_neg x)"
  define q where "q = f32_div f32_two (f32_add f32_one e)"
  have e: "f32_unsigned e" using assms by (simp add: sound_maths_def e_def)
  have b: "bipolar_sigmoid lm x = f32_sub q f32_one" by (simp add: bipolar_sigmoid_def q_def e_def)
  show ?thesis
  proof (cases "f32_is_nan e")
    case True
    then have "f32_is_nan q" using nan_operand(1) f32_add_nan_iff by (simp add: q_def)
    then show ?thesis by (simp add: b magnitude_at_most_def f32_sub_def f32_add_nan_iff)
  next
    case False
    note g = one_plus_grows(1) [OF e False]
    obtain k where k: "f32_number q = Finite False k" "k \<le> 2 ^ 150"
    proof (cases "f32_number (f32_add f32_one e)")
      case (Finite t n)
      then have n: "\<not> t" "2 ^ 149 \<le> n" using g by (auto simp: f32_grows_def f32_number_one)
      define r where "r = round_bits 23 f32_infinity_bits (2 ^ 150 * 2 ^ 149) n"
      have u: "units 23 0x40000000 = 2 ^ 150" by (simp add: units_def)
      have "r \<le> 0x40000000"
        using round_bits_bounds(2) [of n "2 ^ 150 * 2 ^ 149" 23 "0x40000000" f32_infinity_bits] n(2)
        by (simp add: r_def u)
      moreover from this have "units 23 r \<le> 2 ^ 150" using units_le_iff [of 23 r "0x40000000"] u by simp
      moreover have "q = f32_pack False r" using Finite n by (simp add: q_def f32_div_def two_number r_def)
      ultimately show ?thesis using that f32_number_pack [of r False] by (simp add: number_of_bits_def)
    next
      case (Infinite t)
      then have "f32_number q = Finite False (units 23 (round_bits 23 f32_infinity_bits 0 1))"
        using g by (simp add: q_def f32_div_def two_number f32_grows_def f32_number_one
            f32_number_pack [OF top_bits(1)]) (simp add: f32_eval)
      then show ?thesis using that round_bits_bounds(2) [of 1 0 23 0 f32_infinity_bits] by simp
    qed (use g in \<open>auto simp: f32_grows_def split: number.splits\<close>)
    define v where "v = int k - 2 ^ 149"
    have "bipolar_sigmoid lm x = f32_round (Exact (if v = 0 then False else v < 0) (nat \<bar>v\<bar>) 1)"
      by (simp add: b f32_sub_def f32_add_def k(1) f32_neg_number [OF f32_number_one] signed_units_def v_def Let_def
          del: f32_round.simps)
    moreover have "nat \<bar>v\<bar> \<le> 2 ^ 149 * 1" using k(2) by (simp add: v_def)
    ultimately show ?thesis using round_at_most [of 1 "nat \<bar>v\<bar>"] by (simp del: f32_round.simps)
  qed
qed

lemma square_number:
  assumes "f32_number x = Finite s m"
  shows "f32_number (f32_mul x x) =
    number_of_bits 23 f32_infinity_bits False (round_bits 23 f32_infinity_bits (m * m) (2 ^ 149))"
  using assms f32_number_pack [OF top_bits(1)] by (simp add: f32_mul_def)

text \<open>The root is not below the input in magnitude, for every input, rounding included.\<close>

lemma isru_bounded: "magnitude_at_most f32_one (isru x)"
proof (cases "f32_number x")
  case Nan
  then show ?thesis using nan_operand(2) by (simp add: isru_def magnitude_at_most_def f32_number_nan_iff)
next
  case (Infinite s)
  then have "f32_number (f32_mul x x) = Infinite False"
    by (simp add: f32_mul_def f32_number_pack number_of_bits_def)
  then have "f32_number (f32_add f32_one (f32_mul x x)) = Infinite False"
    by (simp add: f32_add_def f32_number_one f32_number_pack number_of_bits_def)
  then have "f32_number (f32_sqrt (f32_add f32_one (f32_mul x x))) = Infinite False"
    by (simp add: f32_sqrt_def f32_number_pack number_of_bits_def)
  then have "f32_is_nan (isru x)"
    using Infinite f32_round_nan_iff [of Exact_nan] by (simp add: isru_def f32_div_def)
  then show ?thesis by (simp add: magnitude_at_most_def)
next
  case x: (Finite s m)
  define p where "p = f32_mul x x"
  define t where "t = f32_add f32_one p"
  define B where "B = round_bits 23 f32_infinity_bits (m * m) (2 ^ 149)"
  have p: "f32_number p = number_of_bits 23 f32_infinity_bits False B"
    unfolding p_def B_def by (rule square_number [OF x])
  have infinite: ?thesis if "f32_number t = Infinite False"
  proof -
    have "f32_number (f32_sqrt t) = Infinite False"
      using that by (simp add: f32_sqrt_def f32_number_pack number_of_bits_def)
    then show ?thesis
      using round_at_most [of 1 0] x by (simp add: isru_def f32_div_def t_def p_def del: f32_round.simps)
  qed
  show ?thesis
  proof (cases "B < f32_infinity_bits")
    case False
    then have "B = f32_infinity_bits" using round_bits_le_top by (metis B_def nat_less_le)
    then have "f32_number p = Infinite False" by (simp add: p number_of_bits_def)
    then have "f32_number t = Infinite False"
      by (simp add: t_def f32_add_def f32_number_one f32_number_pack number_of_bits_def)
    then show ?thesis by (rule infinite)
  next
    case B: True
    then have pn: "f32_number p = Finite False (units 23 B)" by (simp add: p number_of_bits_def)
    then have pu: "f32_unsigned p" "\<not> f32_is_nan p" "f32_is_finite p"
      using f32_finiteD [OF pn] f32_finite_number by (auto simp: f32_unsigned_def)
    have g: "f32_grows f32_one t" "f32_grows p t"
      using one_plus_grows(1,3) [OF pu(1,2)] pu(3) by (simp_all add: t_def)
    show ?thesis
    proof (cases "f32_number t")
      case Nan
      then show ?thesis using g(1) by (simp add: f32_grows_def f32_number_one)
    next
      case (Infinite u)
      then show ?thesis using g(1) infinite by (simp add: f32_grows_def f32_number_one)
    next
      case (Finite u S)
      then have S: "\<not> u" "2 ^ 149 \<le> S" "units 23 B \<le> S"
        using g pn by (simp_all add: f32_grows_def f32_number_one)
      define b where "b = unat (f32_magnitude x)"
      have b: "b < f32_infinity_bits" "m = units 23 b" using f32_finiteD [OF x] by (simp_all add: b_def)
      define R where "R = round_bits 23 f32_infinity_bits (sticky_root (S * 2 ^ 149)) 2"
      have R: "b \<le> R" unfolding R_def by (rule root_reaches [OF b B_def B S(3,2)])
      have "f32_sqrt t = f32_pack False R"
        using Finite S by (simp add: f32_sqrt_def R_def)
      then have root: "f32_number (f32_sqrt t) = number_of_bits 23 f32_infinity_bits False R"
        using f32_number_pack [OF top_bits(1)] by (simp add: R_def)
      show ?thesis
      proof (cases "f32_number (f32_sqrt t)")
        case (Finite v n)
        then have n: "\<not> v" "m \<le> n" using root R b(2) by (auto simp: number_of_bits_def split: if_splits)
        show ?thesis
        proof (cases "n = 0")
          case True
          then have "f32_is_nan (isru x)"
            using Finite n x f32_round_nan_iff [of Exact_nan] by (simp add: isru_def f32_div_def t_def p_def)
          then show ?thesis by (simp add: magnitude_at_most_def)
        next
          case False
          then show ?thesis
            using round_at_most [of n "m * 2 ^ 149" s] Finite x n
            by (simp add: isru_def f32_div_def t_def p_def mult.commute del: f32_round.simps)
        qed
      next
        case (Infinite v)
        then show ?thesis
          using round_at_most [of 1 0] x by (simp add: isru_def f32_div_def t_def p_def del: f32_round.simps)
      next
        case Nan
        then show ?thesis
          using root round_bits_le_top [of 23 f32_infinity_bits "sticky_root (S * 2 ^ 149)" 2]
          by (simp add: number_of_bits_def R_def split: if_splits)
      qed
    qed
  qed
qed

lemma gaussian_bounded:
  assumes "sound_maths lm"
  shows "magnitude_at_most f32_one (gaussian lm x)"
proof -
  define safe where "safe = f32_min (f32_abs x) f32_hundred"
  have h: "f32_number f32_hundred = Finite False (100 * 2 ^ 149)" by (simp add: f32_eval f32_hundred_def)
  have "\<exists>k. f32_number safe = Finite False k"
  proof (cases "f32_number (f32_abs x)")
    case (Finite s k)
    then have "\<not> s" using f32_finiteD(2) [OF Finite]
      by (simp add: f32_abs_def f32_negative_def magnitude_take_bit bit_take_bit_iff)
    then show ?thesis using Finite h by (simp add: safe_def f32_min_def)
  next
    case (Infinite s)
    then have "f32_magnitude (f32_abs x) = 0x7F800000" "\<not> f32_is_nan (f32_abs x)"
      by (auto simp: f32_number_def number_of_bits_def word_unat_eq_iff f32_nan_iff split: if_splits)
    then have "f32_less f32_hundred (f32_abs x)"
      using f32_abs_rank [of "f32_abs x"]
      by (simp add: f32_less_def f32_rank_def f32_abs_def magnitude_take_bit f32_negative_def bit_take_bit_iff
          f32_is_nan_def f32_hundred_def)
    then show ?thesis using h by (auto simp: safe_def f32_min_def f32_less_def)
  next
    case Nan
    then show ?thesis using h by (simp add: safe_def f32_min_def f32_number_nan_iff)
  qed
  then obtain k where k: "f32_number safe = Finite False k" by blast
  have "f32_negative (f32_mul (f32_neg safe) safe)"
    using f32_pack_negative [OF top_bits(1)] by (simp add: f32_mul_def k f32_neg_number [OF k])
  then show ?thesis using assms by (simp add: sound_maths_def gaussian_def safe_def Let_def)
qed

text \<open>
  C32. The output bound of a squash holds: whenever \<open>squash_emit_magnitude\<close> gives a bound, the value
  the squash returns is within it in magnitude or no number at all, for every squash with a bound and
  every input, given a maths library whose \<open>exp\<close>, \<open>tanh\<close> and \<open>atan\<close> keep their ranges.
\<close>

theorem emit_magnitude_bounds_squash:
  assumes "sound_maths lm" "squash_emit_magnitude name = Some bound" "apply_scalar_squash lm name x = Some y"
  shows "magnitude_at_most bound y"
proof -
  note r = bound_ranks
  have m: "magnitude_at_most f32_one (m_tanh lm x)" "magnitude_at_most frac_pi_2 (m_atan lm x)"
    using assms(1) by (simp_all add: sound_maths_def)
  have z: "magnitude_at_most f32_one f32_zero" "magnitude_at_most f32_one f32_one" "magnitude_at_most f32_one f32_minus_one"
    using r by (simp_all add: at_most_iff)
  have c: "magnitude_at_most f32_one (hard_tanh x)" "magnitude_at_most f32_six (relu6 x)"
    unfolding hard_tanh_def relu6_def using r by (auto intro!: clamp_at_most)
  have f: "magnitude_at_most f32_one (sigmoid lm x)" "magnitude_at_most f32_one (heaviside x)" "magnitude_at_most f32_one (bipolar x)"
    using unit_magnitude_at_most [OF sigmoid_unit [OF assms(1)]] z by (simp_all add: heaviside_def bipolar_def)
  note bounds = m c f softsign_bounded [of x] bipolar_sigmoid_bounded [OF assms(1)] gaussian_bounded [OF assms(1)]
    isru_bounded [of x]
  from assms(2) consider
      "deserialise_squash name \<in> {''TANH'', ''LOGISTIC'', ''HARD_TANH'', ''CLIPPED'', ''SOFTSIGN'',
        ''BIPOLAR_SIGMOID'', ''ISRU'', ''STEP'', ''BIPOLAR'', ''GAUSSIAN''}" "bound = f32_one"
    | "deserialise_squash name = ''ARCTAN''" "bound = frac_pi_2"
    | "deserialise_squash name = ''RELU6''" "bound = f32_six"
    by (auto simp: squash_emit_magnitude_def Let_def split: if_splits)
  then show ?thesis
    using assms(3) bounds by cases (auto simp: apply_scalar_squash_def)
qed

text \<open>A library of constant functions keeps the ranges.\<close>

definition flat_maths :: maths where
  "flat_maths = \<lparr>m_exp = \<lambda>_. f32_one, m_ln = \<lambda>_. f32_zero, m_ln_1p = \<lambda>_. f32_zero, m_tanh = \<lambda>_. f32_zero,
     m_atanh = \<lambda>_. f32_zero, m_sin = \<lambda>_. f32_zero, m_cos = \<lambda>_. f32_one, m_tan = \<lambda>_. f32_zero,
     m_atan = \<lambda>_. f32_zero, m_powf = \<lambda>_ _. f32_one, m_exp64 = \<lambda>_. f64_one,
     m_ln64 = \<lambda>_. f64_one\<rparr>"

lemma flat_maths_sound: "sound_maths flat_maths"
  using bound_ranks
  by (simp add: sound_maths_def flat_maths_def at_most_iff)
    (simp add: magnitude_at_most_def f32_greater_eq_def f32_abs_rank f32_rank_def frac_pi_2_def f32_magnitude_def
      f32_negative_def f32_zero_def)

theorem emit_magnitude_bounds_squash_witness: "magnitude_at_most f32_six (relu6 f32_hundred)"
proof -
  have n: "deserialise_squash ''RELU6'' = ''RELU6''" by code_simp
  have "squash_emit_magnitude ''RELU6'' = Some f32_six"
    "apply_scalar_squash flat_maths ''RELU6'' f32_hundred = Some (relu6 f32_hundred)"
    by (simp_all add: squash_emit_magnitude_def apply_scalar_squash_def n)
  then show ?thesis using emit_magnitude_bounds_squash [OF flat_maths_sound] n by fastforce
qed

end
