(* ===== verification/Gradient.thy ===== *)
theory Gradient
  imports Removal Squash
begin

text \<open>
  The gradient flow through a neuron (\<open>src/focus/gradient.rs\<close>): the derivative of each squash at
  the recorded pre-activation, the share of samples in which it vanishes, and the factor the focus
  ranking multiplies with. The functions of the platform's maths library, whose results the
  language does not fix, are the fields of \<open>maths\<close> (theory Squash); every theorem holds for all of them.
\<close>

section \<open>Constants\<close>

definition f32_five :: f32 where "f32_five = 0x40A00000"
definition f32_twenty :: f32 where "f32_twenty = 0x41A00000"
definition f32_millionth :: f32 where "f32_millionth = 0x358637BD"

definition tanh_threshold :: f32 where "tanh_threshold = f32_three"
definition logistic_threshold :: f32 where "logistic_threshold = f32_five"
definition hard_tanh_threshold :: f32 where "hard_tanh_threshold = f32_one"
definition arctan_threshold :: f32 where "arctan_threshold = f32_ten"
definition softsign_threshold :: f32 where "softsign_threshold = f32_ten"
definition gradient_saturation_threshold :: f32 where "gradient_saturation_threshold = f32_hundredth"

definition stdinverse_eps :: f32 where "stdinverse_eps = 0x26901D7D"
definition exponential_limit :: f32 where "exponential_limit = 0x42B00000"
definition f32_largest :: f32 where "f32_largest = 0x7F7FFFFF"

section \<open>The derivative of a squash\<close>

definition gelu_gradient :: "maths \<Rightarrow> f32 \<Rightarrow> f32" where
  "gelu_gradient lm v =
     (let x3 = f32_mul (f32_mul v v) v;
          tanh_val = m_tanh lm (f32_mul gelu_scale (f32_add v (f32_mul gelu_cubic x3)));
          inner_deriv = f32_mul gelu_scale
            (f32_add f32_one (f32_mul (f32_mul (f32_mul f32_three gelu_cubic) v) v))
      in f32_add (f32_mul f32_half (f32_add f32_one tanh_val))
           (f32_mul (f32_mul (f32_mul f32_half v) (sech2_of tanh_val)) inner_deriv))"

definition mish_gradient :: "maths \<Rightarrow> f32 \<Rightarrow> f32" where
  "mish_gradient lm v =
     (let large = f32_less f32_twenty v;
          sp = (if large then v else m_ln lm (f32_add f32_one (m_exp lm v)));
          tanh_sp = m_tanh lm sp;
          sp_deriv = (if large then f32_one else f32_div (m_exp lm v) (f32_add f32_one (m_exp lm v)))
      in f32_add tanh_sp (f32_mul (f32_mul v (sech2_of tanh_sp)) sp_deriv))"

definition compute_activation_gradient :: "maths \<Rightarrow> string \<Rightarrow> f32 \<Rightarrow> f32 \<times> bool" where
  "compute_activation_gradient lm squash v =
     (if squash = ''RELU'' then if f32_less f32_zero v then (f32_one, False) else (f32_zero, True)
      else if squash = ''RELU6'' then
        if f32_greater_eq f32_zero v then (f32_zero, True)
        else if f32_greater_eq v f32_six then (f32_zero, False)
        else (f32_one, False)
      else if squash = ''LEAKYRELU'' then
        if f32_greater_eq v f32_zero then (f32_one, False) else (f32_hundredth, False)
      else if squash = ''ELU'' then
        if f32_greater_eq v f32_zero then (f32_one, False) else (m_exp lm v, False)
      else if squash = ''SELU'' then
        if f32_greater_eq v f32_zero then (selu_lambda, False)
        else (f32_mul (f32_mul selu_lambda selu_alpha) (m_exp lm v), False)
      else if squash = ''TANH'' then (sech2_of (m_tanh lm v), False)
      else if squash = ''LOGISTIC'' then
        (f32_mul (sigmoid lm v) (f32_sub f32_one (sigmoid lm v)), False)
      else if squash \<in> {''HARD_TANH'', ''CLIPPED''} then
        if f32_greater_eq (f32_abs v) hard_tanh_threshold then (f32_zero, False) else (f32_one, False)
      else if squash = ''BIPOLAR_SIGMOID'' then
        (f32_mul (f32_mul f32_two (sigmoid lm v)) (f32_sub f32_one (sigmoid lm v)), False)
      else if squash = ''SOFTSIGN'' then
        (let denom = f32_add f32_one (f32_abs v) in (f32_div f32_one (f32_mul denom denom), False))
      else if squash = ''IDENTITY'' then (f32_one, False)
      else if squash \<in> {''ABSOLUTE'', ''ABS''} then
        if f32_is_zero v then (f32_zero, False) else (f32_one, False)
      else if squash = ''ARCTAN'' then (f32_div f32_one (f32_add f32_one (f32_mul v v)), False)
      else if squash = ''BENT_IDENTITY'' then
        (f32_add (f32_div v (f32_mul f32_two (f32_sqrt (f32_add (f32_mul v v) f32_one)))) f32_one, False)
      else if squash = ''CUBE'' then (f32_mul (f32_mul f32_three v) v, False)
      else if squash = ''SQUARE'' then (f32_mul f32_two v, False)
      else if squash = ''GAUSSIAN'' then
        (let safe = f32_min (f32_abs v) f32_hundred in
         (f32_abs (f32_mul (f32_mul (f32_neg f32_two) v) (m_exp lm (f32_mul (f32_neg safe) safe))), False))
      else if squash = ''GELU'' then (gelu_gradient lm v, False)
      else if squash = ''ISRU'' then
        (f32_div f32_one (m_powf lm (f32_add f32_one (f32_mul v v)) f32_three_halves), False)
      else if squash = ''MISH'' then (mish_gradient lm v, False)
      else if squash = ''SOFTPLUS'' then (sigmoid lm v, False)
      else if squash = ''SWISH'' then
        (f32_add (sigmoid lm v)
           (f32_mul (f32_mul v (sigmoid lm v)) (f32_sub f32_one (sigmoid lm v))), False)
      else if squash \<in> {''SINE'', ''SINUSOID''} then (f32_abs (m_cos lm v), False)
      else if squash = ''COSINE'' then (f32_abs (m_sin lm v), False)
      else if squash = ''TAN'' then
        (let cos_val = m_cos lm v in
         if f32_less (f32_abs cos_val) f32_millionth then (f32_hundred, False)
         else (f32_div f32_one (f32_mul cos_val cos_val), False))
      else if squash = ''EXPONENTIAL'' then
        if f32_greater_eq v exponential_limit then (f32_largest, False) else (m_exp lm v, False)
      else if squash = ''LOGSIGMOID'' then (f32_sub f32_one (sigmoid lm v), False)
      else if squash = ''SQRT'' then
        if f32_less f32_zero v then (f32_div f32_half (f32_sqrt v), False) else (f32_zero, False)
      else if squash = ''STDINVERSE'' then
        (let safe = (if f32_less (f32_abs v) stdinverse_eps then stdinverse_eps else f32_abs v)
         in (f32_div f32_one (f32_mul safe safe), False))
      else if squash \<in> {''STEP'', ''BIPOLAR''} then (f32_zero, False)
      else (f32_one, False))"

definition is_saturated :: "string \<Rightarrow> f32 \<Rightarrow> f32 \<Rightarrow> bool" where
  "is_saturated squash v gradient \<longleftrightarrow>
     (if squash = ''TANH'' then f32_less tanh_threshold (f32_abs v)
      else if squash = ''LOGISTIC'' then f32_less logistic_threshold (f32_abs v)
      else if squash \<in> {''HARD_TANH'', ''CLIPPED''} then f32_greater_eq (f32_abs v) hard_tanh_threshold
      else if squash = ''ARCTAN'' then f32_less arctan_threshold (f32_abs v)
      else if squash = ''SOFTSIGN'' then f32_less softsign_threshold (f32_abs v)
      else if squash = ''RELU6'' then \<not> (f32_greater_eq v f32_zero \<and> f32_greater_eq f32_six v)
      else False) \<or>
     f32_less gradient gradient_saturation_threshold"

section \<open>The statistics of a neuron\<close>

definition default_gradient_flow :: gradient_flow_stats where
  "default_gradient_flow = \<lparr>gf_avg_gradient = f32_one, gf_saturation = f32_zero, gf_dead = f32_zero\<rparr>"

text \<open>The samples that count: a finite pre-activation with a finite gradient.\<close>

definition gradient_sample :: "maths \<Rightarrow> string \<Rightarrow> discover_record \<Rightarrow> (f32 \<times> f32 \<times> bool) option" where
  "gradient_sample lm squash r =
     (case r_value r of
        None \<Rightarrow> None
      | Some v \<Rightarrow>
          if \<not> f32_is_finite v then None
          else
            (case compute_activation_gradient lm squash v of
               (gradient, is_dead) \<Rightarrow> if f32_is_finite gradient then Some (v, gradient, is_dead) else None))"

definition flow_of_samples :: "string \<Rightarrow> (f32 \<times> f32 \<times> bool) list \<Rightarrow> gradient_flow_stats" where
  "flow_of_samples squash samples =
     (if samples = [] then default_gradient_flow
      else
        (let total = fold (\<lambda>(v, gradient, is_dead) acc. f64_add acc (f64_of_f32 gradient)) samples f64_zero;
             valid = length samples;
             saturated = length (filter (\<lambda>(v, gradient, is_dead). is_saturated squash v gradient) samples);
             dead = length (filter (\<lambda>(v, gradient, is_dead). is_dead) samples)
         in \<lparr>gf_avg_gradient = f32_of_f64 (f64_div total (f64_of_nat valid)),
             gf_saturation = f32_div (f32_of_nat saturated) (f32_of_nat valid),
             gf_dead = f32_div (f32_of_nat dead) (f32_of_nat valid)\<rparr>))"

definition compute_gradient_flow_for_neuron ::
  "maths \<Rightarrow> string \<Rightarrow> (string \<rightharpoonup> string) \<Rightarrow> discover_record list \<Rightarrow> gradient_flow_stats" where
  "compute_gradient_flow_for_neuron lm u squash_map rs =
     (case squash_map u of
        None \<Rightarrow> default_gradient_flow
      | Some squash \<Rightarrow>
          if rs = [] then default_gradient_flow
          else flow_of_samples squash (List.map_filter (gradient_sample lm squash) rs))"

definition is_selectable_type :: "string \<Rightarrow> bool" where
  "is_selectable_type t \<longleftrightarrow> t \<noteq> ''input'' \<and> t \<noteq> ''constant''"

text \<open>\<open>compute_gradient_flow_stats\<close>, given the records of the file by neuron or the error of reading them.\<close>

definition compute_gradient_flow_stats ::
  "maths \<Rightarrow> 'e + (string \<rightharpoonup> discover_record list) \<Rightarrow> creature_json \<Rightarrow> 'e + (string \<rightharpoonup> gradient_flow_stats)" where
  "compute_gradient_flow_stats lm grouped c =
     and_then grouped (\<lambda>records.
       Inr (fold (\<lambda>n m.
         (case (build_squash_map c (n_uuid n), records (n_uuid n)) of
            (Some squash, Some rs) \<Rightarrow>
              m(n_uuid n \<mapsto>
                (if rs = [] then default_gradient_flow
                 else flow_of_samples squash (List.map_filter (gradient_sample lm squash) rs)))
          | _ \<Rightarrow> m))
        (filter (\<lambda>n. is_selectable_type (n_type n)) (c_neurons c)) Map.empty))"

definition compute_gradient_flow_factor :: "gradient_flow_stats \<Rightarrow> f32" where
  "compute_gradient_flow_factor s =
     (let saturation_factor = f32_max (f32_sub f32_one (gf_saturation s)) f32_zero;
          dead_factor = f32_max (f32_sub f32_one (gf_dead s)) f32_zero;
          clamped = f32_clamp f32_zero f32_one (gf_avg_gradient s);
          gradient_boost = f32_add f32_half (f32_mul f32_half clamped)
      in f32_max (f32_mul (f32_mul saturation_factor dead_factor) gradient_boost) f32_hundredth)"

section \<open>The factor\<close>

lemma half_number: "f32_number f32_half = Finite False (2 ^ 148)"
  by (simp add: f32_eval f32_half_def)

lemma boost_unit:
  assumes "f32_unit x \<or> f32_is_nan x"
  shows "f32_unit (f32_add f32_half (f32_mul f32_half x)) \<or> f32_is_nan (f32_add f32_half (f32_mul f32_half x))"
proof (cases "f32_is_nan x")
  case True
  then show ?thesis by (simp add: f32_add_nan_iff f32_mul_nan_iff)
next
  case False
  then obtain s m where x: "f32_number x = Finite s m" "m \<le> f32_units_of_one" using assms by (auto simp: f32_unit_def)
  obtain u k where k: "f32_number (f32_mul x f32_half) = Finite u k" "k \<le> 2 ^ 148"
    using f32_scale_finite [OF x half_number] .
  define v where "v = 2 ^ 148 + signed_units u k"
  have "0 \<le> v" "nat \<bar>v\<bar> \<le> f32_units_of_one" using k(2) by (auto simp: v_def signed_units_def)
  moreover have "exact_add (f32_number f32_half) (f32_number (f32_mul f32_half x)) =
      Exact (if v = 0 then False else v < 0) (nat \<bar>v\<bar>) 1"
    by (simp add: half_number k(1) f32_mul_commute [of f32_half] signed_units_def v_def Let_def)
  ultimately have "f32_unit (f32_add f32_half (f32_mul f32_half x))"
    unfolding f32_add_def by (simp del: f32_round.simps) (intro conjI impI f32_round_unit; simp)
  then show ?thesis by blast
qed

definition plausible_flow :: "gradient_flow_stats \<Rightarrow> bool" where
  "plausible_flow s \<longleftrightarrow> (f32_unit (gf_saturation s) \<or> f32_is_nan (gf_saturation s)) \<and>
     (f32_unit (gf_dead s) \<or> f32_is_nan (gf_dead s))"

lemma flow_plausible: "plausible_flow (compute_gradient_flow_for_neuron lm u squash_map rs)"
proof -
  have d: "plausible_flow default_gradient_flow"
    by (simp add: plausible_flow_def default_gradient_flow_def)
  have "plausible_flow (flow_of_samples squash samples)" for squash samples
    using d f32_ratio_unit length_filter_le
    by (auto simp: flow_of_samples_def plausible_flow_def Let_def)
  with d show ?thesis
    by (simp add: compute_gradient_flow_for_neuron_def split: option.split)
qed

lemma complement_factor:
  "f32_unit x \<or> f32_is_nan x \<Longrightarrow> f32_unit (f32_max (f32_sub f32_one x) f32_zero)"
  using f32_unit_complement f32_sub_nan by (intro f32_max_unit) auto

text \<open>
  The gradient-flow factor of a neuron is a number in \<open>[0.01, 1]\<close>, whatever the records hold,
  whatever the squash and whatever the platform's maths library returns: it can discount a neuron
  by at most a hundred and never raises it.
\<close>

theorem gradient_factor_in_range:
  "f32_greater_eq f32_one (compute_gradient_flow_factor (compute_gradient_flow_for_neuron lm u squash_map rs)) \<and>
   f32_greater_eq (compute_gradient_flow_factor (compute_gradient_flow_for_neuron lm u squash_map rs)) f32_hundredth"
proof -
  define s where "s = compute_gradient_flow_for_neuron lm u squash_map rs"
  have s: "plausible_flow s" unfolding s_def by (rule flow_plausible)
  define a where "a = f32_mul (f32_max (f32_sub f32_one (gf_saturation s)) f32_zero)
    (f32_max (f32_sub f32_one (gf_dead s)) f32_zero)"
  define b where "b = f32_add f32_half (f32_mul f32_half (f32_clamp f32_zero f32_one (gf_avg_gradient s)))"
  have a: "f32_unit a" unfolding a_def
    using s by (intro f32_unit_mul complement_factor) (auto simp: plausible_flow_def)
  have b: "f32_unit b \<or> f32_is_nan b" unfolding b_def by (rule boost_unit [OF f32_clamp_unit])
  have product: "f32_unit (f32_mul a b) \<or> f32_is_nan (f32_mul a b)"
    using a b f32_unit_mul by (auto simp: f32_mul_nan_iff)
  have h: "f32_unit f32_hundredth"
    by (rule f32_unitI [of _ "10737418 * 2 ^ 119"]) (simp_all add: f32_eval f32_hundredth_def)
  have f: "compute_gradient_flow_factor s = f32_max (f32_mul a b) f32_hundredth"
    by (simp add: compute_gradient_flow_factor_def a_def b_def Let_def)
  show ?thesis
    using f32_unit_le_one [OF f32_max_unit [OF product h]] f32_max_ge [OF f32_unit_not_nan [OF h]]
    unfolding s_def [symmetric] f by blast
qed

section \<open>The two computations agree\<close>

text \<open>
  The statistics of the whole creature are those of each neuron on its own: a selectable
  neuron with records gets what \<open>compute_gradient_flow_for_neuron\<close> computes, and no other
  identifier has an entry.
\<close>

theorem gradient_stats_per_neuron:
  "compute_gradient_flow_stats lm (Inr records) c =
     Inr (\<lambda>u. if \<exists>n \<in> set (c_neurons c). n_uuid n = u \<and> is_selectable_type (n_type n)
       then map_option (compute_gradient_flow_for_neuron lm u (build_squash_map c)) (records u)
       else None)"
proof -
  define f where "f u = (case (build_squash_map c u, records u) of
      (Some squash, Some rs) \<Rightarrow> Some (compute_gradient_flow_for_neuron lm u (build_squash_map c) rs)
    | _ \<Rightarrow> None)" for u
  define ns where "ns = filter (\<lambda>n. is_selectable_type (n_type n)) (c_neurons c)"
  have g: "compute_gradient_flow_stats lm (Inr records) c =
      Inr (fold (\<lambda>n m. case f (n_uuid n) of Some v \<Rightarrow> m(n_uuid n \<mapsto> v) | None \<Rightarrow> m) ns Map.empty)"
    unfolding compute_gradient_flow_stats_def ns_def and_then_simps sum.inject
    by (intro fold_cong ext refl) (simp add: f_def compute_gradient_flow_for_neuron_def split: option.split)
  have dom: "build_squash_map c u \<noteq> None" if "u \<in> n_uuid ` set (c_neurons c)" for u
  proof -
    have "dom (fold (\<lambda>n m. m(n_uuid n \<mapsto> n_squash n)) xs m0) = n_uuid ` set xs \<union> dom m0"
      for xs :: "neuron_json list" and m0
    proof (induction xs arbitrary: m0)
      case (Cons x xs)
      then show ?case by (simp only: fold_simps(2) comp_def dom_fun_upd list.set image_insert) simp
    qed simp
    from this [of "c_neurons c" Map.empty] have "dom (build_squash_map c) = n_uuid ` set (c_neurons c)"
      by (simp add: build_squash_map_def)
    then show ?thesis using that by blast
  qed
  have "fold (\<lambda>n m. case f (n_uuid n) of Some v \<Rightarrow> m(n_uuid n \<mapsto> v) | None \<Rightarrow> m) ns Map.empty u =
      (if u \<in> n_uuid ` set ns then f u else None)" for u
  proof -
    have "fold (\<lambda>n m. case f (n_uuid n) of Some v \<Rightarrow> m(n_uuid n \<mapsto> v) | None \<Rightarrow> m) ns m0 u =
        (if u \<in> n_uuid ` set ns \<and> f u \<noteq> None then f u else m0 u)" for m0
      by (induction ns arbitrary: m0) (auto split: option.split)
    then show ?thesis by simp
  qed
  moreover have "f u = map_option (compute_gradient_flow_for_neuron lm u (build_squash_map c)) (records u)"
    if "u \<in> n_uuid ` set ns" for u
    using dom [of u] that by (auto simp: f_def ns_def split: option.split)
  ultimately show ?thesis unfolding g by (auto simp: fun_eq_iff ns_def image_iff)
qed

section \<open>The descending side of a square\<close>

text \<open>
  The derivative of \<open>SQUARE\<close> keeps its sign, and a gradient below 0.01 counts as saturation: a
  neuron whose recorded pre-activations are all negative is taken for wholly saturated and gets the
  least factor, however steep the square is there.
\<close>

lemma negative_square_gradient:
  assumes "f32_less v f32_zero" "f32_is_finite (f32_mul f32_two v)" "f32_is_finite v"
  shows "f32_less (f32_mul f32_two v) f32_hundredth"
proof -
  obtain s m where v: "f32_number v = Finite s m" using assms(3) f32_finite_number by blast
  then have "s" using assms(1) unfolding f32_less_units [OF v f32_number_zero] by (simp add: signed_units_def split: if_splits)
  have two: "f32_number f32_two = Finite False (2 ^ 150)" by (simp add: f32_eval f32_two_def)
  have hundredth: "f32_number f32_hundredth = Finite False (10737418 * 2 ^ 119)" by (simp add: f32_eval f32_hundredth_def)
  obtain t n where p: "f32_number (f32_mul f32_two v) = Finite t n" using assms(2) f32_finite_number by blast
  have "f32_negative (f32_mul f32_two v)"
    using \<open>s\<close> f32_pack_negative [OF top_bits(1)] by (simp add: f32_mul_def two v)
  then have "t" using f32_finiteD(2) [OF p] by simp
  then show ?thesis unfolding f32_less_units [OF p hundredth] by (simp add: signed_units_def)
qed

lemma self_ratio: "0 < k \<Longrightarrow> f32_div (f32_of_nat k) (f32_of_nat k) = f32_one \<or> f32_is_nan (f32_div (f32_of_nat k) (f32_of_nat k))"
proof (cases "f32_number (f32_of_nat k)")
  case (Finite s m)
  assume "0 < k"
  have u: "f32_unsigned (f32_of_nat k)" by blast
  then have "\<not> s" using Finite by (auto simp: f32_unsigned_number)
  have "f32_grows f32_one (f32_of_nat k)" unfolding f32_of_nat_def
    by (rule f32_grows_round [OF f32_number_one]) (use \<open>0 < k\<close> in simp_all)
  then have "0 < m" using Finite \<open>\<not> s\<close> by (auto simp: f32_grows_def f32_number_one)
  then show ?thesis
    using f32_round_number [OF f32_number_one, of m] Finite by (auto simp: f32_div_def mult.commute simp del: f32_round.simps)
next
  case (Infinite s)
  then show ?thesis using f32_round_nan_iff [of Exact_nan] by (simp add: f32_div_def)
next
  case Nan
  then show ?thesis using f32_round_nan_iff [of Exact_nan] by (simp add: f32_div_def)
qed

lemma square_gradient: "compute_activation_gradient lm ''SQUARE'' v = (f32_mul f32_two v, False)"
  by (simp add: compute_activation_gradient_def)

lemma map_filter_all: "\<forall>x \<in> set xs. f x = Some (g x) \<Longrightarrow> List.map_filter f xs = map g xs"
  by (induction xs) (auto simp: List.map_filter_simps)

lemma mul_zero_number:
  assumes "f32_number x = Finite s 0" "f32_unit y \<or> f32_is_nan y"
  shows "(\<exists>t. f32_number (f32_mul x y) = Finite t 0) \<or> f32_is_nan (f32_mul x y)"
proof (cases "f32_is_nan y")
  case False
  then obtain t n where y: "f32_number y = Finite t n" "n \<le> f32_units_of_one"
    using assms(2) unfolding f32_unit_def by blast
  obtain u k where "f32_number (f32_mul y x) = Finite u k" "k \<le> 0" using f32_scale_finite [OF y assms(1)] .
  then show ?thesis by (auto simp: f32_mul_commute [of x])
qed (simp add: f32_mul_nan_iff)

lemma saturated_factor:
  assumes "plausible_flow s" "gf_saturation s = f32_one \<or> f32_is_nan (gf_saturation s)"
  shows "compute_gradient_flow_factor s = f32_hundredth"
proof -
  define dead where "dead = f32_max (f32_sub f32_one (gf_dead s)) f32_zero"
  define boost where "boost = f32_add f32_half (f32_mul f32_half (f32_clamp f32_zero f32_one (gf_avg_gradient s)))"
  have "f32_sub f32_one f32_one = f32_zero"
    by (simp add: f32_sub_def f32_add_def f32_number_one f32_neg_number [OF f32_number_one] signed_units_def)
      (simp add: f32_eval f32_zero_def)
  then have zero: "f32_max (f32_sub f32_one (gf_saturation s)) f32_zero = f32_zero"
    using assms(2) f32_sub_nan by (auto simp: f32_max_def f32_less_def)
  have "f32_unit dead" unfolding dead_def by (rule complement_factor) (use assms(1) in \<open>simp add: plausible_flow_def\<close>)
  then have "(\<exists>t. f32_number (f32_mul f32_zero dead) = Finite t 0) \<or> f32_is_nan (f32_mul f32_zero dead)"
    using mul_zero_number [OF f32_number_zero] by blast
  moreover have "f32_unit boost \<or> f32_is_nan boost" unfolding boost_def by (rule boost_unit [OF f32_clamp_unit])
  ultimately have "(\<exists>t. f32_number (f32_mul (f32_mul f32_zero dead) boost) = Finite t 0) \<or>
      f32_is_nan (f32_mul (f32_mul f32_zero dead) boost)"
    using mul_zero_number f32_mul_nan_iff by blast
  moreover have hundredth: "f32_number f32_hundredth = Finite False (10737418 * 2 ^ 119)"
    by (simp add: f32_eval f32_hundredth_def)
  then have "f32_less z f32_hundredth" if "f32_number z = Finite t 0" for z t
    unfolding f32_less_units [OF that hundredth] by (simp add: signed_units_def)
  moreover have "\<not> f32_is_nan f32_hundredth" using hundredth by (simp flip: f32_number_nan_iff)
  ultimately have "f32_max (f32_mul (f32_mul f32_zero dead) boost) f32_hundredth = f32_hundredth"
    by (auto simp: f32_max_def)
  then show ?thesis by (simp add: compute_gradient_flow_factor_def zero Let_def flip: dead_def boost_def)
qed

theorem descending_square_discounted:
  assumes "squash_map u = Some ''SQUARE''" "rs \<noteq> []"
    and "\<forall>r \<in> set rs. \<exists>v. r_value r = Some v \<and> f32_is_finite v \<and> f32_less v f32_zero \<and>
      f32_is_finite (f32_mul f32_two v)"
  shows "compute_gradient_flow_factor (compute_gradient_flow_for_neuron lm u squash_map rs) = f32_hundredth"
proof -
  define g :: "discover_record \<Rightarrow> f32 \<times> f32 \<times> bool" where "g r = (the (r_value r), f32_mul f32_two (the (r_value r)), False)" for r
  have samples: "List.map_filter (gradient_sample lm ''SQUARE'') rs = map g rs"
    by (rule map_filter_all) (use assms(3) in \<open>fastforce simp: gradient_sample_def square_gradient g_def\<close>)
  have "is_saturated ''SQUARE'' v gradient" if "(v, gradient, is_dead) \<in> set (map g rs)" for v gradient is_dead
    using that assms(3) negative_square_gradient
    by (fastforce simp: g_def is_saturated_def gradient_saturation_threshold_def)
  then have all: "filter (\<lambda>(v, gradient, is_dead). is_saturated ''SQUARE'' v gradient) (map g rs) = map g rs"
    by (intro filter_True ballI) (metis (no_types, lifting) case_prod_beta prod.collapse)
  have "gf_saturation (flow_of_samples ''SQUARE'' (map g rs)) = f32_one \<or>
      f32_is_nan (gf_saturation (flow_of_samples ''SQUARE'' (map g rs)))"
    using self_ratio [of "length rs"] assms(2) by (simp add: flow_of_samples_def Let_def all)
  then show ?thesis
    using saturated_factor [OF flow_plausible [of lm u squash_map rs]] assms(1,2)
    by (simp add: compute_gradient_flow_for_neuron_def samples)
qed

end
