(* ===== verification/Scores.thy ===== *)
theory Scores
  imports Providers Gradient
begin

text \<open>
  What the focus ranking measures of a neuron (\<open>src/focus/ranking/score_calculation.rs\<close>,
  \<open>reconstruction.rs\<close> and the margins of \<open>src/focus/impact.rs\<close>): errors, activations, decision
  margins and the mismatch of the activation recomputed from the recorded inputs. Sums run in the
  order of the code. The code sums the mismatch in the order of a \<open>HashMap\<close>, which changes from
  run to run: that order is the parameter \<open>hash_order\<close>.
\<close>

section \<open>Errors and activations\<close>

definition finite_errors :: "discover_record \<Rightarrow> f32 list" where
  "finite_errors r = filter f32_is_finite (r_errors r)"

definition sum_f32 :: "f32 list \<Rightarrow> f32" where
  "sum_f32 xs = fold (\<lambda>x acc. f32_add acc x) xs f32_zero"

definition mean_or_zero :: "f32 list \<Rightarrow> f32" where
  "mean_or_zero xs = (if xs = [] then f32_zero else f32_div (sum_f32 xs) (f32_of_nat (length xs)))"

definition average_absolute_error :: "discover_record list \<Rightarrow> f32" where
  "average_absolute_error rs = mean_or_zero (map f32_abs (concat (map finite_errors rs)))"

type_synonym obs_map = "(u32 \<times> f32) list"

definition obs_weight :: "obs_map \<Rightarrow> u32 \<Rightarrow> f32" where
  "obs_weight weights obs = unwrap_or f32_one (map_of weights obs)"

text \<open>Each finite error with the weight of its observation, where that is positive and finite.\<close>

definition weighted_errors :: "obs_map \<Rightarrow> discover_record list \<Rightarrow> (f32 \<times> f32) list" where
  "weighted_errors weights rs = concat (map (\<lambda>r.
     (let w = obs_weight weights (r_obs r) in
      if \<not> f32_is_finite w \<or> f32_greater_eq f32_zero w then []
      else map (\<lambda>e. (w, f32_abs e)) (finite_errors r))) rs)"

definition weighted_average_absolute_error :: "discover_record list \<Rightarrow> obs_map option \<Rightarrow> f32" where
  "weighted_average_absolute_error rs obs_weights =
     (case obs_weights of
        None \<Rightarrow> average_absolute_error rs
      | Some weights \<Rightarrow>
          (let ws = weighted_errors weights rs;
               weighted_sum = sum_f32 (map (\<lambda>(w, e). f32_mul w e) ws);
               weight_total = sum_f32 (map fst ws)
           in if f32_greater_eq f32_zero weight_total then f32_zero
              else f32_div weighted_sum weight_total))"

definition finite_activations :: "discover_record list \<Rightarrow> f32 list" where
  "finite_activations rs = filter f32_is_finite (map r_activation rs)"

definition mean_absolute_activation :: "discover_record list \<Rightarrow> f32" where
  "mean_absolute_activation rs = mean_or_zero (map f32_abs (finite_activations rs))"

definition activation_firing_threshold :: f32 where "activation_firing_threshold = f32_millionth"
definition frequency_low_threshold :: f32 where "frequency_low_threshold = 0x3DCCCCCD"
definition frequency_high_threshold :: f32 where "frequency_high_threshold = 0x3F666666"
definition frequency_penalty_factor :: f32 where "frequency_penalty_factor = 0x3F4CCCCD"

definition activation_frequency :: "discover_record list \<Rightarrow> f32" where
  "activation_frequency rs =
     (let finite = finite_activations rs;
          firing = filter (\<lambda>a. f32_less activation_firing_threshold (f32_abs a)) finite
      in if finite = [] then f32_zero
         else f32_div (f32_of_nat (length firing)) (f32_of_nat (length finite)))"

definition compute_frequency_factor :: "f32 \<Rightarrow> f32" where
  "compute_frequency_factor frequency =
     (if f32_greater_eq frequency frequency_low_threshold \<and> f32_greater_eq frequency_high_threshold frequency
      then f32_one else frequency_penalty_factor)"

section \<open>Decision margins\<close>

definition margin_weight_eps :: f32 where "margin_weight_eps = 0x3D4CCCCD"

text \<open>The finite activations of the outputs, each with its observation.\<close>

fun output_activations :: "'e provider \<Rightarrow> string list \<Rightarrow> 'e + (u32 \<times> f32) list" where
  "output_activations get [] = Inr []"
| "output_activations get (u # us) =
     and_then (get u) (\<lambda>recs.
       and_then (output_activations get us) (\<lambda>rest.
         Inr ((case recs of
                 None \<Rightarrow> []
               | Some rs \<Rightarrow>
                   map (\<lambda>r. (r_obs r, r_activation r)) (filter (\<lambda>r. f32_is_finite (r_activation r)) rs)) @ rest)))"

definition top_two_step :: "f32 \<Rightarrow> f32 \<times> f32 \<Rightarrow> f32 \<times> f32" where
  "top_two_step v = (\<lambda>(top1, top2).
     if f32_less top1 v then (v, top1) else if f32_less top2 v then (top1, v) else (top1, top2))"

definition margin_of :: "f32 list \<Rightarrow> f32 option" where
  "margin_of acts =
     (if length acts < 2 then None
      else
        (case fold top_two_step acts (f32_neg_infinity, f32_neg_infinity) of
           (top1, top2) \<Rightarrow>
             if f32_is_finite top2 then Some (f32_max (f32_sub top1 top2) f32_zero) else None))"

definition margins_of :: "(u32 \<times> f32) list \<Rightarrow> obs_map" where
  "margins_of ps = List.map_filter
     (\<lambda>obs. map_option (Pair obs) (margin_of (map snd (filter (\<lambda>p. fst p = obs) ps))))
     (remdups (map fst ps))"

definition compute_per_obs_margins :: "creature_json \<Rightarrow> 'e provider \<Rightarrow> 'e + obs_map" where
  "compute_per_obs_margins c get =
     (if length (output_uuids c) < 2 then Inr []
      else and_then (output_activations get (output_uuids c)) (\<lambda>ps. Inr (margins_of ps)))"

definition margin_weights_from_margins :: "obs_map \<Rightarrow> obs_map" where
  "margin_weights_from_margins margins =
     map (\<lambda>(obs, m). (obs, f32_div f32_one (f32_add (f32_max m f32_zero) margin_weight_eps))) margins"

text \<open>\<open>round()\<close> half away from zero and the saturating \<open>as usize\<close>: a NaN and anything negative give 0.\<close>

definition f32_round_usize :: "f32 \<Rightarrow> nat" where
  "f32_round_usize x =
     (case f32_number x of
        Nan \<Rightarrow> 0
      | Infinite negative \<Rightarrow> if negative then 0 else 2 ^ 64 - 1
      | Finite negative m \<Rightarrow>
          if negative then 0
          else min ((2 * m + f32_units_of_one) div (2 * f32_units_of_one)) (2 ^ 64 - 1))"

definition derive_regime_threshold :: "discover_record list \<Rightarrow> f32 \<Rightarrow> f32 option" where
  "derive_regime_threshold rs percentile =
     (let values = sort_key total_key (finite_activations rs) in
      if values = [] then None
      else
        (let p = f32_clamp f32_zero f32_one percentile;
             idx = min (f32_round_usize (f32_mul p (f32_of_nat (length values - 1)))) (length values - 1)
         in Some (values ! idx)))"

lemma regime_threshold_recorded:
  "case derive_regime_threshold rs percentile of
     None \<Rightarrow> finite_activations rs = []
   | Some t \<Rightarrow> t \<in> set (finite_activations rs)"
proof -
  have "sort_key total_key xs ! min i (length xs - 1) \<in> set xs" if "xs \<noteq> []" for i and xs :: "f32 list"
  proof -
    have "min i (length xs - 1) < length (sort_key total_key xs)" using that by (cases xs) auto
    then have "sort_key total_key xs ! min i (length xs - 1) \<in> set (sort_key total_key xs)" by (rule nth_mem)
    then show ?thesis by simp
  qed
  moreover have "sort_key total_key (finite_activations rs) = [] \<longleftrightarrow> finite_activations rs = []"
    by (metis length_0_conv length_sort)
  ultimately show ?thesis by (auto simp: derive_regime_threshold_def Let_def split: option.splits)
qed

section \<open>The reconstruction mismatch\<close>

type_synonym activation_by_obs = "(u32 \<times> f32) list"

text \<open>Inserting a neuron's finite activations by observation: the last of several wins.\<close>

definition activations_by_obs :: "discover_record list \<Rightarrow> activation_by_obs" where
  "activations_by_obs rs =
     fold (\<lambda>r m. AList.update (r_obs r) (r_activation r) m) (filter (\<lambda>r. f32_is_finite (r_activation r)) rs) []"

definition apply_squash :: "maths \<Rightarrow> string \<Rightarrow> f32 \<Rightarrow> f32" where
  "apply_squash lm squash v = unwrap_or v (apply_scalar_squash lm squash v)"

definition reconstructed_value ::
  "neuron_json \<Rightarrow> (string \<times> f32) list \<Rightarrow> (string \<rightharpoonup> activation_by_obs) \<Rightarrow> u32 \<Rightarrow> f32" where
  "reconstructed_value n inbound activations obs =
     fold (\<lambda>(from, weight) acc.
       (case Option.bind (activations from) (\<lambda>m. map_of m obs) of
          Some a \<Rightarrow> if f32_is_finite a \<and> f32_is_finite weight then f32_add acc (f32_mul a weight) else acc
        | None \<Rightarrow> acc)) inbound (n_bias n)"

definition activation_delta ::
  "maths \<Rightarrow> neuron_json \<Rightarrow> (string \<times> f32) list \<Rightarrow> (string \<rightharpoonup> activation_by_obs) \<Rightarrow> u32 \<times> f32 \<Rightarrow> f32 option" where
  "activation_delta lm n inbound activations = (\<lambda>(obs, recorded).
     if \<not> f32_is_finite recorded then None
     else
       (let v = reconstructed_value n inbound activations obs in
        if \<not> f32_is_finite v then None
        else
          (let delta = f32_abs (f32_sub recorded (apply_squash lm (n_squash n) v)) in
           if f32_is_finite delta then Some delta else None)))"

definition mean_activation_delta ::
  "(activation_by_obs \<Rightarrow> activation_by_obs) \<Rightarrow> maths \<Rightarrow> neuron_json \<Rightarrow> (string \<times> f32) list
     \<Rightarrow> (string \<rightharpoonup> activation_by_obs) \<Rightarrow> activation_by_obs \<Rightarrow> f32" where
  "mean_activation_delta hash_order lm n inbound activations own =
     mean_or_zero (List.map_filter (activation_delta lm n inbound activations) (hash_order own))"

definition inbound_of :: "synapse_json list \<Rightarrow> string \<Rightarrow> (string \<times> f32) list" where
  "inbound_of ss u = map (\<lambda>s. (s_from s, s_weight s)) (filter (\<lambda>s. s_to s = u) ss)"

definition needed_uuids :: "creature_json \<Rightarrow> neuron_json list \<Rightarrow> string list" where
  "needed_uuids c selectable =
     remdups (sort (concat (map (\<lambda>n. n_uuid n # map fst (inbound_of (c_synapses c) (n_uuid n))) selectable)))"

fun collect_activations ::
  "'e provider \<Rightarrow> string list \<Rightarrow> (string \<rightharpoonup> activation_by_obs) \<Rightarrow> 'e + (string \<rightharpoonup> activation_by_obs)" where
  "collect_activations get [] acts = Inr acts"
| "collect_activations get (u # us) acts =
     and_then (get u) (\<lambda>recs.
       collect_activations get us
         (case recs of None \<Rightarrow> acts | Some rs \<Rightarrow> acts(u \<mapsto> activations_by_obs rs)))"

definition compute_reconstruction_mismatch_map ::
  "(activation_by_obs \<Rightarrow> activation_by_obs) \<Rightarrow> maths \<Rightarrow> creature_json \<Rightarrow> neuron_json list \<Rightarrow> 'e provider
     \<Rightarrow> 'e + (string \<rightharpoonup> f32)" where
  "compute_reconstruction_mismatch_map hash_order lm c selectable get =
     and_then (collect_activations get (needed_uuids c selectable) Map.empty) (\<lambda>acts.
       Inr (fold (\<lambda>n m.
         (case acts (n_uuid n) of
            None \<Rightarrow> m
          | Some own \<Rightarrow>
              m(n_uuid n \<mapsto>
                mean_activation_delta hash_order lm n (inbound_of (c_synapses c) (n_uuid n)) acts own)))
         selectable Map.empty))"

section \<open>Margins are the gap of the two largest activations\<close>

lemma neg_infinity_not_nan: "\<not> f32_is_nan f32_neg_infinity"
  by (simp add: f32_is_nan_def f32_neg_infinity_def f32_magnitude_def)

lemma f32_less_rank:
  "f32_is_finite a \<or> a = f32_neg_infinity \<Longrightarrow> f32_is_finite b \<or> b = f32_neg_infinity \<Longrightarrow>
     f32_less a b \<longleftrightarrow> f32_rank a < f32_rank b"
  using f32_finite_not_nan neg_infinity_not_nan by (auto simp: f32_less_def)

definition comparable :: "f32 \<Rightarrow> bool" where
  "comparable x \<longleftrightarrow> f32_is_finite x \<or> x = f32_neg_infinity"

text \<open>The two largest seen so far, over a multiset of the others.\<close>

definition two_largest :: "f32 multiset \<Rightarrow> f32 \<times> f32 \<Rightarrow> bool" where
  "two_largest M = (\<lambda>(top1, top2). \<exists>others. M = {#top1, top2#} + others \<and>
     f32_rank top2 \<le> f32_rank top1 \<and> (\<forall>x \<in># others. f32_rank x \<le> f32_rank top2))"

lemma two_largest_step:
  assumes "two_largest M (t1, t2)" "comparable t1" "comparable t2" "comparable v"
  shows "two_largest (add_mset v M) (top_two_step v (t1, t2)) \<and>
    comparable (fst (top_two_step v (t1, t2))) \<and> comparable (snd (top_two_step v (t1, t2)))"
proof -
  obtain others where o: "M = {#t1, t2#} + others" "f32_rank t2 \<le> f32_rank t1"
    "\<forall>x \<in># others. f32_rank x \<le> f32_rank t2"
    using assms(1) by (auto simp: two_largest_def)
  have less: "f32_less t1 v \<longleftrightarrow> f32_rank t1 < f32_rank v" "f32_less t2 v \<longleftrightarrow> f32_rank t2 < f32_rank v"
    using assms(2-4) f32_less_rank by (simp_all add: comparable_def)
  consider "f32_rank t1 < f32_rank v" | "f32_rank v \<le> f32_rank t1" "f32_rank t2 < f32_rank v" | "f32_rank v \<le> f32_rank t2"
    using o(2) by linarith
  then show ?thesis
  proof cases
    case 1
    then have "add_mset v M = {#v, t1#} + add_mset t2 others" using o(1) by simp
    then have "two_largest (add_mset v M) (v, t1)" unfolding two_largest_def using 1 o(2,3) by force
    then show ?thesis using 1 assms(2,4) less by (simp add: top_two_step_def)
  next
    case 2
    then have "add_mset v M = {#t1, v#} + add_mset t2 others" using o(1) by simp
    then have "two_largest (add_mset v M) (t1, v)" unfolding two_largest_def using 2 o(2,3) by force
    then show ?thesis using 2 assms(2,4) less by (simp add: top_two_step_def)
  next
    case 3
    then have "add_mset v M = {#t1, t2#} + add_mset v others" using o(1) by simp
    then have "two_largest (add_mset v M) (t1, t2)" unfolding two_largest_def using 3 o(2,3) by force
    then show ?thesis using 3 o(2) assms(2,3) less by (simp add: top_two_step_def)
  qed
qed

lemma two_largest_fold:
  assumes "two_largest M ts" "comparable (fst ts)" "comparable (snd ts)" "list_all comparable xs"
  shows "two_largest (mset xs + M) (fold top_two_step xs ts)"
  using assms
proof (induction xs arbitrary: M ts)
  case (Cons v xs)
  obtain t1 t2 where ts: "ts = (t1, t2)" by fastforce
  note step = two_largest_step [of M t1 t2 v]
  show ?case
    using Cons.IH [of "add_mset v M" "top_two_step v ts"] step Cons.prems ts by simp
qed simp

lemma finite_above:
  assumes "f32_is_finite x"
  shows "f32_rank f32_neg_infinity < f32_rank x"
proof -
  have "unat (f32_magnitude x) < f32_infinity_bits"
    using assms by (auto simp: f32_finite_number f32_number_def number_of_bits_def split: if_splits)
  moreover have "n < b \<Longrightarrow> - int b < signed_units s n" for n b s by (simp add: signed_units_def)
  ultimately have "- int f32_infinity_bits < f32_rank x" unfolding f32_rank_units by blast
  then show ?thesis
    by (simp add: f32_rank_def f32_neg_infinity_def f32_negative_def f32_magnitude_def)
qed

text \<open>
  C33. A decision margin is the gap of the two largest activations: over the finite activations of
  an observation's outputs there is a margin exactly when there are two of them, and then it is the
  difference of the two largest, never below zero; the maximum is kept twice when it occurs twice.
\<close>

theorem margin_is_gap_of_two_largest:
  "case margin_of (filter f32_is_finite acts) of
     None \<Rightarrow> length (filter f32_is_finite acts) < 2
   | Some m \<Rightarrow> \<exists>top1 top2. two_largest (mset (filter f32_is_finite acts)) (top1, top2) \<and>
       m = f32_max (f32_sub top1 top2) f32_zero"
proof -
  define xs where "xs = filter f32_is_finite acts"
  obtain top1 top2 where t: "fold top_two_step xs (f32_neg_infinity, f32_neg_infinity) = (top1, top2)" by fastforce
  have fin: "\<forall>x \<in> set xs. f32_is_finite x" by (simp add: xs_def)
  show ?thesis
  proof (cases "length xs < 2")
    case True
    then show ?thesis by (simp add: margin_of_def flip: xs_def)
  next
    case False
    define M where "M = {#f32_neg_infinity, f32_neg_infinity#}"
    have "list_all comparable xs" using fin by (simp add: list_all_iff comparable_def)
    moreover have "two_largest M (f32_neg_infinity, f32_neg_infinity)" by (simp add: two_largest_def M_def)
    ultimately have "two_largest (mset xs + M) (top1, top2)"
      using two_largest_fold [of M "(f32_neg_infinity, f32_neg_infinity)" xs] t by (simp add: comparable_def)
    then obtain others where o: "mset xs + M = {#top1, top2#} + others" "f32_rank top2 \<le> f32_rank top1"
      "\<forall>x \<in># others. f32_rank x \<le> f32_rank top2"
      by (auto simp: two_largest_def)
    have above: "f32_rank f32_neg_infinity < f32_rank top2"
    proof (rule ccontr)
      assume low: "\<not> ?thesis"
      have "size {#x \<in># mset xs + M. f32_rank f32_neg_infinity < f32_rank x#} \<le> 1"
      proof -
        have "{#x \<in># others. f32_rank f32_neg_infinity < f32_rank x#} = {#}" using o(3) low by auto
        then show ?thesis using low by (subst o(1)) (simp del: filter_mset_eq_mempty_iff)
      qed
      moreover have "size (mset xs) \<le> size {#x \<in># mset xs + M. f32_rank f32_neg_infinity < f32_rank x#}"
      proof -
        have "filter (\<lambda>x. f32_rank f32_neg_infinity < f32_rank x) xs = xs"
          using fin finite_above by (simp add: filter_id_conv)
        then show ?thesis by (simp flip: mset_filter)
      qed
      ultimately show False using False by simp
    qed
    then have ne: "top1 \<noteq> f32_neg_infinity" "top2 \<noteq> f32_neg_infinity" using o(2) by auto
    have "count (mset xs) f32_neg_infinity = 0" using fin finite_above by (auto simp: count_eq_zero_iff)
    with ne have "count others f32_neg_infinity = 2"
      using arg_cong [OF o(1), of "\<lambda>N. count N f32_neg_infinity"] by (simp add: M_def del: count_mset_0_iff count_eq_zero_iff)
    then have "M \<subseteq># others" by (auto simp: M_def intro!: mset_subset_eqI)
    then obtain rest where rest: "others = M + rest" using mset_subset_eq_exists_conv by blast
    then have eq: "mset xs = {#top1, top2#} + rest" using o(1) by (simp add: add.commute)
    then have "f32_is_finite top2" using fin by (metis add_mset_add_single multi_member_this set_mset_mset union_commute union_iff)
    moreover have "two_largest (mset xs) (top1, top2)"
      unfolding two_largest_def using eq o(2,3) rest by force
    ultimately show ?thesis using False t by (simp add: margin_of_def flip: xs_def) blast
  qed
qed

section \<open>The mismatch depends on the order of a hash table\<close>

definition output_neuron :: neuron_json where
  "output_neuron = \<lparr>n_uuid = ''o'', n_type = ''output'', n_squash = ''IDENTITY'', n_bias = f32_zero\<rparr>"

definition recorded_activations :: activation_by_obs where
  "recorded_activations = [(0, 0x4B800000), (1, 0x3F800000), (2, 0x3F800000)]"

lemma identity_squash: "apply_squash lm ''IDENTITY'' v = v"
proof -
  have "deserialise_squash ''IDENTITY'' = ''IDENTITY''" by code_simp
  then show ?thesis by (simp add: apply_squash_def apply_scalar_squash_def unwrap_or_def)
qed

lemma evaluated_sums:
  "f32_sub 0x4B800000 0 = 0x4B800000" "f32_sub 0x3F800000 0 = 0x3F800000"
  "f32_add 0 0x4B800000 = 0x4B800000" "f32_add 0 0x3F800000 = 0x3F800000"
  "f32_add 0x4B800000 0x3F800000 = 0x4B800000" "f32_add 0x3F800000 0x3F800000 = 0x40000000"
  "f32_add 0x40000000 0x4B800000 = 0x4B800001"
  by (simp_all add: f32_eval)

lemma evaluated_means:
  "f32_div 0x4B800000 (f32_of_nat 3) = 0x4AAAAAAB" "f32_div 0x4B800001 (f32_of_nat 3) = 0x4AAAAAAC"
  by (simp_all add: f32_of_nat_def f32_eval)

lemma recorded_delta:
  "activation_delta lm output_neuron [] Map.empty (obs, 0x4B800000) = Some 0x4B800000"
  "activation_delta lm output_neuron [] Map.empty (obs, 0x3F800000) = Some 0x3F800000"
  by (simp_all add: activation_delta_def output_neuron_def reconstructed_value_def identity_squash evaluated_sums
      f32_abs_def f32_is_finite_def f32_exponent_def f32_magnitude_def f32_zero_def)

text \<open>
  The same records, summed in two orders of the table, give two mismatches: with the term switched
  on, the score of a neuron and with it the ranking may change from run to run.
\<close>

lemma mismatch_depends_on_hash_order:
  "mean_activation_delta id lm output_neuron [] Map.empty recorded_activations \<noteq>
   mean_activation_delta rev lm output_neuron [] Map.empty recorded_activations"
  by (simp add: mean_activation_delta_def recorded_activations_def recorded_delta map_filter_simps mean_or_zero_def
      sum_f32_def evaluated_sums evaluated_means f32_one_def f32_zero_def numeral_3_eq_3 [symmetric])

end
