(* ===== verification/History.thy ===== *)
theory History
  imports Config
begin

text \<open>
  What past discoveries yielded (\<open>src/discovery_history.rs\<close>): per neuron the attempts and successes
  with their Bayesian score, and per module and candidate type the predicted and actual gains with
  the factor that calibrates them. A \<open>HashMap\<close> is an association list.
\<close>

section \<open>Calibration keys\<close>

definition calibration_key :: "string \<Rightarrow> string \<Rightarrow> string" where
  "calibration_key module_name candidate_type = module_name @ ''::'' @ candidate_type"

text \<open>\<open>split_once("::")\<close>: at the first occurrence.\<close>

fun split_colons :: "string \<Rightarrow> (string \<times> string) option" where
  "split_colons [] = None"
| "split_colons (a # s) =
     (if a = CHR '':'' \<and> s \<noteq> [] \<and> hd s = CHR '':'' then Some ([], tl s)
      else map_option (\<lambda>(x, y). (a # x, y)) (split_colons s))"

definition parse_calibration_key :: "string \<Rightarrow> string \<times> string" where
  "parse_calibration_key key = unwrap_or (key, []) (split_colons key)"

section \<open>Calibration factors\<close>

type_synonym calibration_observation = "f64 \<times> f64"

definition calibration_factor_min :: f64 where "calibration_factor_min = 0x3FB999999999999A"
definition calibration_factor_max :: f64 where "calibration_factor_max = 0x4024000000000000"
definition calibration_epsilon :: f64 where "calibration_epsilon = 0x3DDB7CDFD9D7BDBB"
definition min_calibration_samples :: nat where "min_calibration_samples = 1"
definition f64_largest :: f64 where "f64_largest = 0x7FEFFFFFFFFFFFFF"
definition f64_half :: f64 where "f64_half = 0x3FE0000000000000"

definition f64_is_infinite :: "f64 \<Rightarrow> bool" where
  "f64_is_infinite x \<longleftrightarrow> f64_magnitude x = 0x7FF0000000000000"

definition compensated_add :: "f64 \<Rightarrow> f64 \<times> f64 \<Rightarrow> f64 \<times> f64" where
  "compensated_add v = (\<lambda>(total, compensation).
     (let adjusted = f64_sub v compensation;
          next_total = f64_add total adjusted
      in (next_total, f64_sub (f64_sub next_total total) adjusted)))"

definition saturating_finite_product :: "f64 \<Rightarrow> f64 \<Rightarrow> f64" where
  "saturating_finite_product mean scale =
     (let v = f64_mul mean scale in
      if f64_is_infinite v then (if bit v 63 then f64_neg f64_largest else f64_largest) else v)"

definition calibration_errors :: "calibration_observation list \<Rightarrow> f64 \<times> f64" where
  "calibration_errors obs =
     (let scale = fold (\<lambda>v acc. f64_max acc v) (concat (map (\<lambda>(p, a). [f64_abs p, f64_abs a]) obs)) f64_zero in
      if f64_is_zero scale then (f64_zero, f64_zero)
      else
        (let differences = map (\<lambda>(p, a). f64_sub (f64_div p scale) (f64_div a scale)) obs;
             count = f64_of_nat (length obs);
             absolute = fst (fold (\<lambda>d. compensated_add (f64_abs d)) differences (f64_zero, f64_zero));
             bias = fst (fold compensated_add differences (f64_zero, f64_zero))
         in (saturating_finite_product (f64_div absolute count) scale,
             saturating_finite_product (f64_div bias count) scale)))"

definition observation_ratio :: "calibration_observation \<Rightarrow> f64 option" where
  "observation_ratio = (\<lambda>(predicted, actual).
     if \<not> f64_is_finite predicted \<or> \<not> f64_is_finite actual then None
     else if f64_less calibration_epsilon (f64_abs predicted) then
       keep_if f64_is_finite (Some (f64_div actual predicted))
     else Some calibration_factor_max)"

definition compute_calibration_factor :: "calibration_observation list \<Rightarrow> f64" where
  "compute_calibration_factor obs =
     (if obs = [] then f64_one
      else
        (let ratios = List.map_filter observation_ratio obs;
             scale = fold (\<lambda>v acc. f64_max acc v) (map f64_abs ratios) f64_zero
         in if ratios = [] then f64_one
            else if f64_is_zero scale then calibration_factor_min
            else
              (let scaled_sum = fst (fold (\<lambda>r. compensated_add (f64_div r scale)) ratios (f64_zero, f64_zero));
                   scaled_mean = f64_div scaled_sum (f64_of_nat (length ratios));
                   mean_ratio =
                     (if f64_less f64_zero scaled_mean \<and> f64_less_eq (f64_div calibration_factor_max scale) scaled_mean
                      then calibration_factor_max
                      else if f64_less scaled_mean f64_zero \<and> f64_less_eq scaled_mean (f64_div calibration_factor_min scale)
                      then calibration_factor_min
                      else f64_mul scaled_mean scale)
               in f64_clamp calibration_factor_min calibration_factor_max mean_ratio)))"

section \<open>The tracker of predictions\<close>

type_synonym calibration_tracker = "(string \<times> calibration_observation list) list"

definition observations_of :: "calibration_tracker \<Rightarrow> string \<Rightarrow> calibration_observation list" where
  "observations_of t key = unwrap_or [] (map_of t key)"

definition record_prediction :: "string \<Rightarrow> string \<Rightarrow> f64 \<Rightarrow> f64 \<Rightarrow> calibration_tracker \<Rightarrow> calibration_tracker" where
  "record_prediction module_name candidate_type predicted actual t =
     (if \<not> f64_is_finite predicted \<or> \<not> f64_is_finite actual then t
      else
        (let key = calibration_key module_name candidate_type in
         AList.update key (observations_of t key @ [(predicted, actual)]) t))"

definition tracker_factor :: "calibration_tracker \<Rightarrow> string \<Rightarrow> string \<Rightarrow> f64" where
  "tracker_factor t module_name candidate_type =
     (case map_of t (calibration_key module_name candidate_type) of
        Some obs \<Rightarrow> if min_calibration_samples \<le> length obs then compute_calibration_factor obs else f64_one
      | None \<Rightarrow> f64_one)"

record calibration_summary_entry =
  cs_module :: string
  cs_candidate_type :: string
  cs_sample_count :: nat
  cs_mean_absolute_error :: f64
  cs_bias :: f64
  cs_factor :: f64

definition calibration_summary :: "calibration_tracker \<Rightarrow> calibration_summary_entry list" where
  "calibration_summary t =
     sort_key (\<lambda>e. - int (cs_sample_count e))
       (map (\<lambda>(key, obs).
          (case (parse_calibration_key key, calibration_errors obs) of
             ((module_name, candidate_type), (mae, bias)) \<Rightarrow>
               \<lparr>cs_module = module_name, cs_candidate_type = candidate_type, cs_sample_count = length obs,
                cs_mean_absolute_error = mae, cs_bias = bias, cs_factor = compute_calibration_factor obs\<rparr>)) t)"

section \<open>The history of a neuron\<close>

record neuron_history =
  nh_uuid :: string
  nh_attempts :: u32
  nh_successes :: u32
  nh_last_success :: "u64 option"

text \<open>Deserialising refuses a history with more successes than attempts.\<close>

definition neuron_history_of_wire :: "neuron_history \<Rightarrow> string + neuron_history" where
  "neuron_history_of_wire w =
     (if nh_attempts w < nh_successes w then Inl (nh_uuid w) else Inr w)"

definition neuron_history_new :: "string \<Rightarrow> neuron_history" where
  "neuron_history_new u = \<lparr>nh_uuid = u, nh_attempts = 0, nh_successes = 0, nh_last_success = None\<rparr>"

definition neuron_success_rate :: "neuron_history \<Rightarrow> f64" where
  "neuron_success_rate h =
     (if nh_attempts h = 0 then f64_half
      else f64_div (f64_of_nat (unat (nh_successes h))) (f64_of_nat (unat (nh_attempts h))))"

definition bayesian_score :: "neuron_history \<Rightarrow> f64" where
  "bayesian_score h =
     (let alpha = f64_add (f64_of_nat (unat (nh_successes h))) f64_one;
          beta = f64_add (f64_of_nat (unat (sat_sub (nh_attempts h) (nh_successes h)))) f64_one
      in f64_div alpha (f64_add alpha beta))"

definition record_attempt :: "bool \<Rightarrow> u64 option \<Rightarrow> neuron_history \<Rightarrow> neuron_history" where
  "record_attempt success epoch h =
     (let h1 = h\<lparr>nh_attempts := sat_add (nh_attempts h) 1\<rparr> in
      if success
      then h1\<lparr>nh_successes := sat_add (nh_successes h) 1,
              nh_last_success := (case epoch of Some e \<Rightarrow> Some e | None \<Rightarrow> nh_last_success h)\<rparr>
      else h1)"

record discovery_history =
  dh_neurons :: "(string \<times> neuron_history) list"
  dh_calibration :: calibration_tracker

definition history_new :: discovery_history where
  "history_new = \<lparr>dh_neurons = [], dh_calibration = []\<rparr>"

definition history_record :: "string \<Rightarrow> bool \<Rightarrow> u64 option \<Rightarrow> discovery_history \<Rightarrow> discovery_history" where
  "history_record u success epoch h =
     (let entry = unwrap_or (neuron_history_new u) (map_of (dh_neurons h) u) in
      h\<lparr>dh_neurons := AList.update u (record_attempt success epoch entry) (dh_neurons h)\<rparr>)"

definition bayesian_score_for :: "discovery_history \<Rightarrow> string \<Rightarrow> f64" where
  "bayesian_score_for h u = unwrap_or f64_half (map_option bayesian_score (map_of (dh_neurons h) u))"

definition history_clear :: "discovery_history \<Rightarrow> discovery_history" where
  "history_clear h = h\<lparr>dh_neurons := []\<rparr>"

definition history_prune :: "string list \<Rightarrow> discovery_history \<Rightarrow> discovery_history" where
  "history_prune current h = h\<lparr>dh_neurons := filter (\<lambda>p. fst p \<in> set current) (dh_neurons h)\<rparr>"

definition history_record_calibration ::
  "string \<Rightarrow> string \<Rightarrow> f64 \<Rightarrow> f64 \<Rightarrow> discovery_history \<Rightarrow> discovery_history" where
  "history_record_calibration module_name candidate_type predicted actual h =
     h\<lparr>dh_calibration := record_prediction module_name candidate_type predicted actual (dh_calibration h)\<rparr>"

section \<open>Valid histories\<close>

definition history_ok :: "discovery_history \<Rightarrow> bool" where
  "history_ok h \<longleftrightarrow> distinct (map fst (dh_neurons h)) \<and>
     (\<forall>(u, n) \<in> set (dh_neurons h). nh_uuid n = u \<and> nh_successes n \<le> nh_attempts n) \<and>
     (\<forall>(key, obs) \<in> set (dh_calibration h). \<forall>(p, a) \<in> set obs. f64_is_finite p \<and> f64_is_finite a)"

datatype discovery_call =
    Record string bool "u64 option"
  | Prune "string list"
  | Clear
  | Calibrate string string f64 f64

fun discovery_step :: "discovery_call \<Rightarrow> discovery_history \<Rightarrow> discovery_history" where
  "discovery_step (Record u success epoch) h = history_record u success epoch h"
| "discovery_step (Prune current) h = history_prune current h"
| "discovery_step Clear h = history_clear h"
| "discovery_step (Calibrate m t p a) h = history_record_calibration m t p a h"

lemma record_attempt_ok:
  "nh_successes n \<le> nh_attempts n \<Longrightarrow> nh_successes (record_attempt s e n) \<le> nh_attempts (record_attempt s e n)"
  "nh_uuid (record_attempt s e n) = nh_uuid n"
  using sat_add_mono [of _ _ 1] order_trans [OF _ sat_add_ge] by (auto simp: record_attempt_def Let_def)

lemma discovery_step_ok: "history_ok h \<Longrightarrow> history_ok (discovery_step call h)"
proof (cases call)
  case (Record u success epoch)
  assume ok: "history_ok h"
  define entry where "entry = unwrap_or (neuron_history_new u) (map_of (dh_neurons h) u)"
  have "nh_uuid entry = u \<and> nh_successes entry \<le> nh_attempts entry"
  proof (cases "map_of (dh_neurons h) u")
    case (Some n)
    then show ?thesis using ok map_of_SomeD [OF Some] by (auto simp: entry_def unwrap_or_def history_ok_def)
  qed (simp add: entry_def unwrap_or_def neuron_history_new_def)
  then have "\<forall>(k, n) \<in> set (AList.update u (record_attempt success epoch entry) (dh_neurons h)).
      nh_uuid n = k \<and> nh_successes n \<le> nh_attempts n"
    using ok record_attempt_ok set_update_subset by (fastforce simp: history_ok_def)
  then show ?thesis using ok Record
    by (simp add: history_record_def history_ok_def distinct_update Let_def flip: entry_def)
next
  case (Prune current)
  assume "history_ok h"
  then show ?thesis using Prune by (auto simp: history_prune_def history_ok_def distinct_map_filter)
next
  case Clear
  assume "history_ok h"
  then show ?thesis using Clear by (auto simp: history_clear_def history_ok_def)
next
  case (Calibrate m t p a)
  assume ok: "history_ok h"
  define key where "key = calibration_key m t"
  have "\<forall>(x, y) \<in> set (observations_of (dh_calibration h) key). f64_is_finite x \<and> f64_is_finite y"
    using ok map_of_SomeD [of "dh_calibration h" key]
    by (cases "map_of (dh_calibration h) key") (auto simp: observations_of_def unwrap_or_def history_ok_def)
  then show ?thesis using ok Calibrate set_update_subset
    by (fastforce simp: history_record_calibration_def record_prediction_def history_ok_def Let_def
        simp flip: key_def)
qed

text \<open>How often a neuron was recorded since the history last lost it.\<close>

fun recorded :: "string \<Rightarrow> discovery_call list \<Rightarrow> nat \<times> nat" where
  "recorded u [] = (0, 0)"
| "recorded u (call # earlier) =
     (case recorded u earlier of (attempts, successes) \<Rightarrow>
       (case call of
          Record v success _ \<Rightarrow>
            if v = u then (Suc attempts, if success then Suc successes else successes) else (attempts, successes)
        | Prune current \<Rightarrow> if u \<in> set current then (attempts, successes) else (0, 0)
        | Clear \<Rightarrow> (0, 0)
        | Calibrate _ _ _ _ \<Rightarrow> (attempts, successes)))"

lemma sat_add_clamp: "sat_add (clamp_word k) 1 = (clamp_word (Suc k) :: 'a::len word)"
proof (rule word_unat_eq_iff [THEN iffD2])
  have "unat (1 :: 'a word) = 1" "(1::nat) < 2 ^ LENGTH('a)" using one_less_power [of "2::nat" "LENGTH('a)"] by simp_all
  then show "unat (sat_add (clamp_word k) (1 :: 'a word)) = unat (clamp_word (Suc k) :: 'a word)"
    unfolding unat_sat_add unat_clamp_word by (simp only: min_def split: if_splits) linarith
qed

lemma clamp_word_0 [simp]: "clamp_word 0 = 0"
  by (simp add: clamp_word_def)

lemma history_counts:
  assumes "recorded u calls = (attempts, successes)"
  shows "case map_of (dh_neurons (foldr discovery_step calls history_new)) u of
      None \<Rightarrow> attempts = 0 \<and> successes = 0
    | Some n \<Rightarrow> nh_attempts n = clamp_word attempts \<and> nh_successes n = clamp_word successes"
  using assms
proof (induction calls arbitrary: attempts successes)
  case Nil
  then show ?case by (simp add: history_new_def)
next
  case (Cons call calls)
  obtain a s where r: "recorded u calls = (a, s)" by fastforce
  note IH = Cons.IH [OF r]
  define h where "h = foldr discovery_step calls history_new"
  show ?case
  proof (cases call)
    case (Record v success epoch)
    show ?thesis
    proof (cases "v = u")
      case True
      then show ?thesis using IH Cons.prems r Record
        by (auto simp: history_record_def record_attempt_def update_conv' neuron_history_new_def unwrap_or_def
            sat_add_clamp Let_def split: option.splits simp flip: h_def sat_add_clamp)
    next
      case False
      then show ?thesis using IH Cons.prems r Record
        by (clarsimp simp: history_record_def update_conv' Let_def simp flip: h_def)
    qed
  next
    case (Prune current)
    have "map_of (filter (\<lambda>p. fst p \<in> set current) xs) u = (if u \<in> set current then map_of xs u else None)"
      for xs :: "(string \<times> neuron_history) list"
      by (induction xs) auto
    then show ?thesis using IH Cons.prems r Prune
      by (clarsimp simp: history_prune_def split: if_splits simp flip: h_def)
  next
    case Clear
    then show ?thesis using Cons.prems r by (simp add: history_clear_def)
  next
    case (Calibrate m t p q)
    then show ?thesis using IH Cons.prems r by (clarsimp simp: history_record_calibration_def)
  qed
qed

text \<open>
  C34. The discovery history counts exactly: after any calls, most recent first, a neuron's
  attempts and successes are the numbers of its recorded attempts and successes since it was last
  pruned or cleared, held at \<open>u32::MAX\<close>, and the history satisfies its invariant (no more successes
  than attempts, which the deserialiser refuses; every calibration observation finite).
\<close>

theorem history_counts_exactly:
  "(case recorded u calls of (attempts, successes) \<Rightarrow>
     (case map_of (dh_neurons (foldr discovery_step calls history_new)) u of
        None \<Rightarrow> attempts = 0 \<and> successes = 0
      | Some n \<Rightarrow> nh_attempts n = clamp_word attempts \<and> nh_successes n = clamp_word successes \<and>
          neuron_history_of_wire n = Inr n)) \<and>
   history_ok (foldr discovery_step calls history_new)"
proof -
  have ok: "history_ok (foldr discovery_step calls history_new)"
    by (induction calls) (simp_all add: discovery_step_ok, simp add: history_ok_def history_new_def)
  then have "map_of (dh_neurons (foldr discovery_step calls history_new)) u = Some n \<Longrightarrow> neuron_history_of_wire n = Inr n" for n
    using map_of_SomeD by (fastforce simp: history_ok_def neuron_history_of_wire_def)
  then show ?thesis using history_counts [of u calls] ok by (auto split: option.splits)
qed

section \<open>Keys parse back\<close>

definition colon_free :: "string \<Rightarrow> bool" where "colon_free s \<longleftrightarrow> CHR '':'' \<notin> set s"

lemma calibration_key_roundtrip:
  "colon_free m \<Longrightarrow> parse_calibration_key (calibration_key m t) = (m, t)"
proof -
  have "colon_free m \<Longrightarrow> split_colons (m @ ''::'' @ t) = Some (m, t)"
    by (induction m) (auto simp: colon_free_def)
  then show "colon_free m \<Longrightarrow> ?thesis" by (simp add: parse_calibration_key_def calibration_key_def unwrap_or_def)
qed

text \<open>Names with colons collide: these two pairs share one entry of the tracker.\<close>

lemma calibration_keys_collide: "calibration_key ''a'' ''b::c'' = calibration_key ''a::b'' ''c''"
  by (simp add: calibration_key_def)

end
