(* ===== verification/Ranking.thy ===== *)
theory Ranking
  imports Scores History Deadline Cooldown
begin

text \<open>
  The focus ranking (\<open>src/focus/ranking/mod.rs\<close>): how the records are loaded (\<open>plan_loading\<close>,
  \<open>build_provider\<close>), the wall-clock budget (\<open>FocusDeadline\<close>) and the pass itself
  (\<open>rank_focus_core\<close>, \<open>rank_selectable\<close>). Times are nanoseconds: \<open>instants\<close> gives the monotonic
  clock at every checkpoint of the pass, so any progress of time is covered. The size of the file,
  the free memory and the outcome of reading the file are arguments. The neurons are scored in
  parallel: when several fail, \<open>race\<close> picks the error that is reported. Messages added to an error on
  its way up and the log output are left out.
\<close>

section \<open>Loading modes\<close>

datatype focus_loading_mode = Mode_preload | Mode_lazy

datatype focus_lazy_reason = Reason_none | Reason_budget | Reason_memory_pressure

fun loading_mode_as_str :: "focus_loading_mode \<Rightarrow> string" where
  "loading_mode_as_str Mode_preload = ''preload''"
| "loading_mode_as_str Mode_lazy = ''lazy''"

fun lazy_reason_as_str :: "focus_lazy_reason \<Rightarrow> string" where
  "lazy_reason_as_str Reason_none = ''none''"
| "lazy_reason_as_str Reason_budget = ''budget''"
| "lazy_reason_as_str Reason_memory_pressure = ''memory_pressure''"

definition decide_loading_mode_for_budget :: "u64 \<Rightarrow> u64 \<Rightarrow> focus_loading_mode \<times> focus_lazy_reason" where
  "decide_loading_mode_for_budget projected_bytes budget_mb =
     (if sat_mul budget_mb bytes_per_mb < projected_bytes then (Mode_lazy, Reason_budget)
      else (Mode_preload, Reason_none))"

definition decide_loading_mode_for_available_memory ::
  "u64 \<Rightarrow> u64 \<Rightarrow> u64 \<Rightarrow> focus_loading_mode \<times> focus_lazy_reason" where
  "decide_loading_mode_for_available_memory projected_bytes available_bytes margin_bytes =
     (if parquet_preload_fits_available projected_bytes available_bytes margin_bytes
      then (Mode_preload, Reason_none) else (Mode_lazy, Reason_memory_pressure))"

definition lazy_pass_exceeds_perf_cliff :: "focus_loading_mode \<Rightarrow> nat \<Rightarrow> nat \<Rightarrow> bool" where
  "lazy_pass_exceeds_perf_cliff mode elapsed_ms threshold_ms \<longleftrightarrow>
     mode = Mode_lazy \<and> 0 < threshold_ms \<and> threshold_ms \<le> elapsed_ms"

definition bytes_to_mb_ceil :: "u64 \<Rightarrow> u64" where
  "bytes_to_mb_ceil bytes =
     (let q = bytes div bytes_per_mb in if bytes mod bytes_per_mb = 0 then q else q + 1)"

record loading_plan =
  lp_mode :: focus_loading_mode
  lp_reason :: focus_lazy_reason
  lp_budget_mb :: "u64 option"
  lp_projected_mb :: u64

definition plan_loading :: "environment \<Rightarrow> u64 \<Rightarrow> u64 \<Rightarrow> loading_plan" where
  "plan_loading env projected_bytes available_bytes =
     (let projected_mb = bytes_to_mb_ceil projected_bytes in
      case focus_ranking_memory_budget_mb env of
        Some b \<Rightarrow>
          (case decide_loading_mode_for_budget projected_bytes (word_of_nat b) of (mode, reason) \<Rightarrow>
             \<lparr>lp_mode = mode, lp_reason = reason, lp_budget_mb = Some (word_of_nat b),
              lp_projected_mb = projected_mb\<rparr>)
      | None \<Rightarrow>
          (let margin_bytes = sat_mul (word_of_nat (focus_ranking_memory_margin_mb env)) bytes_per_mb in
           case decide_loading_mode_for_available_memory projected_bytes available_bytes margin_bytes of
             (mode, reason) \<Rightarrow>
               \<lparr>lp_mode = mode, lp_reason = reason, lp_budget_mb = None, lp_projected_mb = projected_mb\<rparr>))"

section \<open>The deadline\<close>

definition focus_ranking_budget_grace_ms :: u64 where "focus_ranking_budget_grace_ms = 1000"

record focus_deadline =
  fd_expires_at :: nat
  fd_budget_ms :: u64

definition focus_deadline_new :: "nat \<Rightarrow> u64 \<Rightarrow> focus_deadline" where
  "focus_deadline_new start budget_ms =
     \<lparr>fd_expires_at = start + duration_from_millis (sat_add budget_ms focus_ranking_budget_grace_ms),
      fd_budget_ms = budget_ms\<rparr>"

definition from_shared_deadline :: "nat \<Rightarrow> system_time \<Rightarrow> u64 option \<Rightarrow> focus_deadline option" where
  "from_shared_deadline start now shared_deadline_ms =
     Option.bind (map_option as_millis_u64 (duration_since now 0)) (\<lambda>now_ms.
       Option.bind (remaining_ms_until shared_deadline_ms now_ms) (\<lambda>remaining_ms.
         Some \<lparr>fd_expires_at = start + duration_from_millis remaining_ms, fd_budget_ms = remaining_ms\<rparr>))"

definition resolve_deadline ::
  "environment \<Rightarrow> nat \<Rightarrow> system_time \<Rightarrow> u64 option \<Rightarrow> focus_loading_mode \<Rightarrow> u64 \<Rightarrow> focus_deadline option" where
  "resolve_deadline env start now shared_deadline_ms mode projected_mb =
     (case (map_option (\<lambda>ms. focus_deadline_new start (word_of_nat ms))
              (effective_focus_ranking_budget_ms env (mode = Mode_lazy) projected_mb),
            from_shared_deadline start now shared_deadline_ms) of
        (Some budget, Some shared) \<Rightarrow>
          Some (if fd_expires_at shared \<le> fd_expires_at budget then shared else budget)
      | (Some budget, None) \<Rightarrow> Some budget
      | (None, Some shared) \<Rightarrow> Some shared
      | (None, None) \<Rightarrow> None)"

text \<open>\<open>as_system_time\<close>: the deadline on the wall clock, from the two clocks read together.\<close>

definition deadline_as_system_time :: "nat \<Rightarrow> system_time \<Rightarrow> focus_deadline option \<Rightarrow> system_time option" where
  "deadline_as_system_time instant now deadline =
     map_option (\<lambda>d. now + int (fd_expires_at d - instant)) deadline"

datatype rank_error = Timeout u64 | Missing_records string | Read_failed string

definition check_focus_deadline :: "focus_deadline option \<Rightarrow> nat \<Rightarrow> rank_error + unit" where
  "check_focus_deadline deadline instant =
     (case deadline of
        Some d \<Rightarrow> if fd_expires_at d \<le> instant then Inl (Timeout (fd_budget_ms d)) else Inr ()
      | None \<Rightarrow> Inr ())"

section \<open>The provider\<close>

datatype record_provider = Eager grouped | On_demand lazy_cache

definition build_lazy_provider ::
  "neuron_json list \<Rightarrow> focus_deadline option \<Rightarrow> nat \<Rightarrow> string + grouped \<Rightarrow> (rank_error + lazy_cache) option" where
  "build_lazy_provider selectable deadline instant warm =
     (let provider = lazy_with_capacity (length selectable) in
      case warm of
        Inr groups \<Rightarrow>
          map_option Inr
            (lazy_seed (filter (\<lambda>(u, _). u \<in> n_uuid ` set selectable) groups) provider)
      | Inl _ \<Rightarrow> Some (and_then (check_focus_deadline deadline instant) (\<lambda>_. Inr provider)))"

definition build_provider ::
  "neuron_json list \<Rightarrow> loading_plan \<Rightarrow> focus_deadline option \<Rightarrow> nat \<Rightarrow> string + grouped
     \<Rightarrow> (rank_error + record_provider) option" where
  "build_provider selectable plan deadline instant read =
     (case lp_mode plan of
        Mode_lazy \<Rightarrow>
          map_option (\<lambda>r. and_then r (\<lambda>c. Inr (On_demand c)))
            (build_lazy_provider selectable deadline instant read)
      | Mode_preload \<Rightarrow>
          Some (case read of
            Inr shared \<Rightarrow> Inr (Eager (eager_from_shared shared))
          | Inl e \<Rightarrow> and_then (check_focus_deadline deadline instant) (\<lambda>_. Inl (Read_failed e))))"

text \<open>
  What a provider answers. An on-demand provider answers every lookup from the same cache here: by
  the theory of the lazy provider no lookup changes what any other is answered.
\<close>

definition provider_get :: "(string \<Rightarrow> rank_error + discover_record list) \<Rightarrow> record_provider \<Rightarrow> rank_error provider" where
  "provider_get load p u =
     (case p of Eager groups \<Rightarrow> eager_get groups u | On_demand c \<Rightarrow> fst (the (lazy_get load u c)))"

section \<open>Scores\<close>

definition impact_epsilon :: f32 where "impact_epsilon = 0x38D1B717"
definition impact_gamma :: f32 where "impact_gamma = 0x3F4CCCCD"

fun output_errors :: "rank_error provider \<Rightarrow> obs_map option \<Rightarrow> string list \<Rightarrow> rank_error + f32 list" where
  "output_errors get obs_weights [] = Inr []"
| "output_errors get obs_weights (u # us) =
     and_then (get_records_or_error get Missing_records u) (\<lambda>rs.
       and_then (output_errors get obs_weights us) (\<lambda>es.
         Inr (weighted_average_absolute_error rs obs_weights # es)))"

definition compute_max_output_error ::
  "creature_json \<Rightarrow> rank_error provider \<Rightarrow> obs_map option \<Rightarrow> rank_error + f32" where
  "compute_max_output_error c get obs_weights =
     (let outputs = filter (\<lambda>n. n_type n = ''output'') (c_neurons c) in
      if outputs = [] then Inr f32_zero
      else and_then (output_errors get obs_weights (map n_uuid outputs)) (\<lambda>errors.
        Inr (fold (\<lambda>e acc. f32_max acc e) errors f32_zero)))"

record ranked_inputs =
  ri_impacts :: "string \<rightharpoonup> f32"
  ri_squashes :: "string \<rightharpoonup> string"
  ri_max_error :: f32
  ri_weights :: "obs_map option"
  ri_mismatch :: "string \<rightharpoonup> f32"

definition ranked_of :: "maths \<Rightarrow> ranked_inputs \<Rightarrow> string \<Rightarrow> discover_record list \<Rightarrow> ranked_neuron" where
  "ranked_of lm inp u rs =
     (let raw_error = (if ri_weights inp \<noteq> None then weighted_average_absolute_error rs (ri_weights inp)
                       else average_absolute_error rs);
          structural_impact = unwrap_or f32_zero (ri_impacts inp u);
          mean_activation = mean_absolute_activation rs
      in \<lparr>rn_uuid = u,
          rn_total_error = (if f32_less f32_zero (ri_max_error inp) then f32_min raw_error (ri_max_error inp)
                            else raw_error),
          rn_raw_error = raw_error, rn_impact = structural_impact, rn_mean_activation = mean_activation,
          rn_weighted_impact = f32_mul structural_impact mean_activation,
          rn_gradient = compute_gradient_flow_for_neuron lm u (ri_squashes inp) rs,
          rn_frequency = activation_frequency rs, rn_score = f32_zero,
          rn_mismatch = unwrap_or f32_zero (ri_mismatch inp u)\<rparr>)"

text \<open>One neuron of the parallel loop, with the clock as that neuron reads it.\<close>

definition rank_neuron ::
  "maths \<Rightarrow> ranked_inputs \<Rightarrow> rank_error provider \<Rightarrow> focus_deadline option \<Rightarrow> (string \<Rightarrow> nat) \<Rightarrow> neuron_json
     \<Rightarrow> rank_error + ranked_neuron" where
  "rank_neuron lm inp get deadline instant n =
     and_then (check_focus_deadline deadline (instant (n_uuid n))) (\<lambda>_.
       and_then (get_records_or_error get Missing_records (n_uuid n)) (\<lambda>rs.
         Inr (ranked_of lm inp (n_uuid n) rs)))"

definition errors_of :: "('e + 'a) list \<Rightarrow> 'e list" where
  "errors_of rs = List.map_filter (\<lambda>r. case r of Inl e \<Rightarrow> Some e | Inr _ \<Rightarrow> None) rs"

definition collect_parallel :: "('e list \<Rightarrow> 'e) \<Rightarrow> ('e + 'a) list \<Rightarrow> 'e + 'a list" where
  "collect_parallel race rs =
     (if errors_of rs = [] then Inr (List.map_filter (\<lambda>r. case r of Inl _ \<Rightarrow> None | Inr a \<Rightarrow> Some a) rs)
      else Inl (race (errors_of rs)))"

definition build_ranked_neurons ::
  "(rank_error list \<Rightarrow> rank_error) \<Rightarrow> maths \<Rightarrow> neuron_json list \<Rightarrow> rank_error provider \<Rightarrow> ranked_inputs
     \<Rightarrow> focus_deadline option \<Rightarrow> (string \<Rightarrow> nat) \<Rightarrow> rank_error + ranked_neuron list" where
  "build_ranked_neurons race lm selectable get inp deadline instant =
     collect_parallel race (map (rank_neuron lm inp get deadline instant) selectable)"

definition compute_focus_weighted_score :: "maths \<Rightarrow> ranked_neuron \<Rightarrow> f32 option \<Rightarrow> f32 \<Rightarrow> f32" where
  "compute_focus_weighted_score lm n history_factor recon_weight =
     (let base = f32_mul (rn_total_error n) (m_powf lm (f32_add (rn_impact n) impact_epsilon) impact_gamma);
          with_gradient = f32_mul (f32_mul base (compute_gradient_flow_factor (rn_gradient n)))
            (compute_frequency_factor (rn_frequency n));
          scaled = (case history_factor of
                      Some h \<Rightarrow> f32_mul with_gradient (f32_add f32_half h)
                    | None \<Rightarrow> with_gradient)
      in f32_add scaled (f32_mul recon_weight (rn_mismatch n)))"

definition impact_below_gate :: "f32 \<Rightarrow> f32 \<Rightarrow> bool" where
  "impact_below_gate impact gate \<longleftrightarrow> \<not> f32_is_finite (f32_abs impact) \<or> f32_less (f32_abs impact) gate"

definition apply_focus_impact_gate :: "ranked_neuron list \<Rightarrow> f32 \<Rightarrow> ranked_neuron list \<times> nat" where
  "apply_focus_impact_gate neurons gate =
     (let kept = filter (\<lambda>n. \<not> impact_below_gate (rn_impact n) gate) neurons in
      (kept, length neurons - length kept))"

definition descriptor_activates_margin_ranking :: "target_topology option \<Rightarrow> bool" where
  "descriptor_activates_margin_ranking descriptor \<longleftrightarrow>
     (case descriptor of None \<Rightarrow> False | Some t \<Rightarrow> t \<in> {One_Hot, Margin})"

section \<open>The pass\<close>

datatype checkpoint =
    Verify string | Margins | Max_output_error | Impacts | Reconstruction | Build string | Constant_removals
  | Finished

record rank_args =
  ra_creature :: creature_json
  ra_max_results :: "nat option"
  ra_cost_of_growth :: "f32 option"
  ra_topology :: "target_topology option"
  ra_history :: "discovery_history option"
  ra_shared_deadline_ms :: "u64 option"

record rank_focus_stats =
  rf_neurons :: "ranked_neuron list"
  rf_removals :: "removal_candidate list"
  rf_constant_removals :: "constant_removal list"
  rf_max_error :: f32
  rf_processed :: nat
  rf_total :: nat
  rf_duration_ms :: nat
  rf_breakdown :: "string \<rightharpoonup> u32"
  rf_mode :: focus_loading_mode
  rf_reason :: focus_lazy_reason
  rf_budget_mb :: "u64 option"
  rf_projected_mb :: u64
  rf_ineligible_constant :: nat
  rf_ineligible_low_impact :: nat

text \<open>What the pass reads of its surroundings.\<close>

record surroundings =
  su_env :: environment
  su_parsers :: float_parsers
  su_maths :: maths
  su_instants :: "checkpoint \<Rightarrow> nat"
  su_race :: "rank_error list \<Rightarrow> rank_error"
  su_hash_order :: "activation_by_obs \<Rightarrow> activation_by_obs"

definition check_at :: "surroundings \<Rightarrow> focus_deadline option \<Rightarrow> checkpoint \<Rightarrow> rank_error + unit" where
  "check_at w deadline cp = check_focus_deadline deadline (su_instants w cp)"

fun verify_records ::
  "surroundings \<Rightarrow> focus_deadline option \<Rightarrow> rank_error provider \<Rightarrow> neuron_json list \<Rightarrow> rank_error + unit" where
  "verify_records w deadline get [] = Inr ()"
| "verify_records w deadline get (n # ns) =
     and_then (check_at w deadline (Verify (n_uuid n))) (\<lambda>_.
       and_then (get_records_or_error get Missing_records (n_uuid n)) (\<lambda>_.
         verify_records w deadline get ns))"

definition margin_obs_weights ::
  "rank_args \<Rightarrow> rank_error provider \<Rightarrow> rank_error + obs_map option" where
  "margin_obs_weights args get =
     (if descriptor_activates_margin_ranking (ra_topology args)
      then and_then (compute_per_obs_margins (ra_creature args) get) (\<lambda>margins.
        Inr (if margins = [] then None else Some (margin_weights_from_margins margins)))
      else Inr None)"

definition mismatch_phase ::
  "surroundings \<Rightarrow> rank_args \<Rightarrow> neuron_json list \<Rightarrow> rank_error provider \<Rightarrow> rank_error + (string \<rightharpoonup> f32)" where
  "mismatch_phase w args selectable get =
     (if focus_reconstruction_mismatch_enabled (su_env w)
      then compute_reconstruction_mismatch_map (su_hash_order w) (su_maths w) (ra_creature args) selectable get
      else Inr Map.empty)"

definition recon_weight_of :: "surroundings \<Rightarrow> f32" where
  "recon_weight_of w =
     (if focus_reconstruction_mismatch_enabled (su_env w)
      then focus_reconstruction_mismatch_weight (su_parsers w) (su_env w) else f32_zero)"

definition scored :: "surroundings \<Rightarrow> rank_args \<Rightarrow> ranked_neuron \<Rightarrow> ranked_neuron" where
  "scored w args n =
     n\<lparr>rn_score := compute_focus_weighted_score (su_maths w) n
         (map_option (\<lambda>h. f32_of_f64 (bayesian_score_for h (rn_uuid n))) (ra_history args))
         (recon_weight_of w)\<rparr>"

definition focus_order :: "ranked_neuron \<Rightarrow> descending \<times> descending \<times> string" where
  "focus_order n = (Descending (rn_score n), Descending (rn_impact n), rn_uuid n)"

definition rank_order :: "surroundings \<Rightarrow> rank_args \<Rightarrow> ranked_neuron list \<Rightarrow> ranked_neuron list" where
  "rank_order w args neurons = sort_key focus_order (map (scored w args) neurons)"

definition exclude_constants ::
  "surroundings \<Rightarrow> rank_args \<Rightarrow> neuron_json list \<Rightarrow> rank_error provider \<Rightarrow> ranked_neuron list
     \<Rightarrow> ranked_neuron list \<times> nat" where
  "exclude_constants w args selectable get neurons =
     (if focus_exclude_constant_neurons (su_env w)
      then
        (let constant_uuids = functionally_constant_focus_uuids (ra_creature args) get selectable;
             kept = filter (\<lambda>n. rn_uuid n \<notin> constant_uuids) neurons
         in (kept, length neurons - length kept))
      else (neurons, 0))"

definition gate_impacts :: "surroundings \<Rightarrow> ranked_neuron list \<Rightarrow> ranked_neuron list \<times> nat" where
  "gate_impacts w neurons =
     (if focus_impact_gate_enabled (su_env w)
      then apply_focus_impact_gate neurons (focus_impact_gate_threshold (su_parsers w) (su_env w))
      else (neurons, 0))"

definition limit_results :: "nat option \<Rightarrow> 'a list \<Rightarrow> 'a list" where
  "limit_results max_results neurons =
     (case max_results of
        Some limit \<Rightarrow> if limit < length neurons then take limit neurons else neurons
      | None \<Rightarrow> neurons)"

definition rank_selectable ::
  "surroundings \<Rightarrow> rank_args \<Rightarrow> neuron_json list \<Rightarrow> rank_error provider \<Rightarrow> loading_plan
     \<Rightarrow> focus_deadline option \<Rightarrow> nat \<Rightarrow> rank_error + rank_focus_stats" where
  "rank_selectable w args selectable get meta deadline start =
     (let c = ra_creature args; counts = synapse_counts c in
      and_then (verify_records w deadline get selectable) (\<lambda>_.
      and_then (check_at w deadline Margins) (\<lambda>_.
      and_then (margin_obs_weights args get) (\<lambda>obs_weights.
      and_then (check_at w deadline Max_output_error) (\<lambda>_.
      and_then (compute_max_output_error c get obs_weights) (\<lambda>max_output_error.
      and_then (check_at w deadline Impacts) (\<lambda>_.
      and_then (compute_impacts_with_activations c get) (\<lambda>impact_map.
      and_then (check_at w deadline Reconstruction) (\<lambda>_.
      and_then (mismatch_phase w args selectable get) (\<lambda>mismatch.
      and_then (build_ranked_neurons (su_race w) (su_maths w) selectable get
          \<lparr>ri_impacts = impact_map, ri_squashes = build_squash_map c, ri_max_error = max_output_error,
           ri_weights = obs_weights, ri_mismatch = mismatch\<rparr>
          deadline (\<lambda>u. su_instants w (Build u))) (\<lambda>built.
        (let neurons = rank_order w args built;
             growth_cost = effective_cost_of_growth (ra_cost_of_growth args);
             removal = identify_removal_candidates (su_parsers w) (su_env w) neurons counts growth_cost
         in case exclude_constants w args selectable get neurons of (varying, ineligible_constant) \<Rightarrow>
            case gate_impacts w varying of (passed, ineligible_low_impact) \<Rightarrow>
              and_then (check_at w deadline Constant_removals) (\<lambda>_.
                Inr \<lparr>rf_neurons = limit_results (ra_max_results args) passed,
                     rf_removals = ro_candidates removal,
                     rf_constant_removals = detect_constant_neuron_removals c get selectable growth_cost,
                     rf_max_error = max_output_error,
                     rf_processed = length selectable, rf_total = length selectable,
                     rf_duration_ms = (su_instants w Finished - start) div ns_per_ms,
                     rf_breakdown = rejection_breakdown removal,
                     rf_mode = lp_mode meta, rf_reason = lp_reason meta,
                     rf_budget_mb = lp_budget_mb meta, rf_projected_mb = lp_projected_mb meta,
                     rf_ineligible_constant = ineligible_constant,
                     rf_ineligible_low_impact = ineligible_low_impact\<rparr>)))))))))))))"

definition selectable_of :: "creature_json \<Rightarrow> neuron_json list" where
  "selectable_of c = filter (\<lambda>n. is_selectable_type (n_type n)) (c_neurons c)"

text \<open>
  \<open>rank_focus_core\<close>: \<open>read\<close> is the outcome of the grouped read of the file, \<open>read_done\<close> the instant
  it ended, \<open>load\<close> the loading of a single neuron.
\<close>

definition rank_focus_core ::
  "surroundings \<Rightarrow> rank_args \<Rightarrow> u64 \<Rightarrow> u64 \<Rightarrow> nat \<Rightarrow> system_time \<Rightarrow> nat \<Rightarrow> string + grouped
     \<Rightarrow> (string \<Rightarrow> rank_error + discover_record list) \<Rightarrow> (rank_error + rank_focus_stats) option" where
  "rank_focus_core w args projected_bytes available_bytes start now read_done read load =
     (let selectable = selectable_of (ra_creature args) in
      if selectable = [] then
        Some (Inr \<lparr>rf_neurons = [], rf_removals = [], rf_constant_removals = [], rf_max_error = f32_zero,
          rf_processed = 0, rf_total = 0, rf_duration_ms = (su_instants w Finished - start) div ns_per_ms,
          rf_breakdown = Map.empty, rf_mode = Mode_preload, rf_reason = Reason_none,
          rf_budget_mb = map_option word_of_nat (focus_ranking_memory_budget_mb (su_env w)),
          rf_projected_mb = 0, rf_ineligible_constant = 0, rf_ineligible_low_impact = 0\<rparr>)
      else
        (let plan = plan_loading (su_env w) projected_bytes available_bytes;
             deadline = resolve_deadline (su_env w) start now (ra_shared_deadline_ms args)
               (lp_mode plan) (lp_projected_mb plan)
         in map_option (\<lambda>r. and_then r (\<lambda>p.
              rank_selectable w args selectable (provider_get load p) plan deadline start))
              (build_provider selectable plan deadline read_done read)))"

section \<open>What the pass returns\<close>

text \<open>Which ranked neurons keep a focus slot before the limit is applied.\<close>

definition eligible ::
  "surroundings \<Rightarrow> rank_args \<Rightarrow> neuron_json list \<Rightarrow> rank_error provider \<Rightarrow> ranked_neuron \<Rightarrow> bool" where
  "eligible w args selectable get n \<longleftrightarrow>
     (if focus_exclude_constant_neurons (su_env w)
      then rn_uuid n \<notin> functionally_constant_focus_uuids (ra_creature args) get selectable else True) \<and>
     (if focus_impact_gate_enabled (su_env w)
      then \<not> impact_below_gate (rn_impact n) (focus_impact_gate_threshold (su_parsers w) (su_env w)) else True)"

lemma exclude_constants_eq:
  "exclude_constants w args selectable get neurons = (varying, excluded) \<Longrightarrow>
     varying = filter (\<lambda>n. focus_exclude_constant_neurons (su_env w) \<longrightarrow>
       rn_uuid n \<notin> functionally_constant_focus_uuids (ra_creature args) get selectable) neurons \<and>
     length varying + excluded = length neurons"
  by (auto simp: exclude_constants_def Let_def split: if_splits)

lemma gate_impacts_eq:
  "gate_impacts w neurons = (passed, gated) \<Longrightarrow>
     passed = filter (\<lambda>n. focus_impact_gate_enabled (su_env w) \<longrightarrow>
       \<not> impact_below_gate (rn_impact n) (focus_impact_gate_threshold (su_parsers w) (su_env w))) neurons \<and>
     length passed + gated = length neurons"
  by (auto simp: gate_impacts_def apply_focus_impact_gate_def Let_def split: if_splits)

lemma collect_parallel_Inr:
  "collect_parallel race rs = Inr xs \<Longrightarrow> rs = map Inr xs"
proof -
  have "errors_of rs = [] \<Longrightarrow>
      rs = map Inr (List.map_filter (\<lambda>r. case r of Inl _ \<Rightarrow> None | Inr a \<Rightarrow> Some a) rs)" for rs :: "('a + 'b) list"
    by (induction rs) (auto simp: errors_of_def map_filter_simps split: sum.splits)
  then show "collect_parallel race rs = Inr xs \<Longrightarrow> rs = map Inr xs"
    by (auto simp: collect_parallel_def split: if_splits)
qed

lemma rank_neuron_uuid: "rank_neuron lm inp get deadline instant n = Inr r \<Longrightarrow> rn_uuid r = n_uuid n"
  by (auto simp: rank_neuron_def ranked_of_def Let_def)

lemma build_ranked_uuids:
  assumes "build_ranked_neurons race lm selectable get inp deadline instant = Inr built"
  shows "map rn_uuid built = map n_uuid selectable"
proof -
  have "map (rank_neuron lm inp get deadline instant) selectable = map Inr built"
    using assms collect_parallel_Inr by (simp add: build_ranked_neurons_def)
  then show ?thesis using rank_neuron_uuid
    by (induction selectable arbitrary: built) (auto simp: Cons_eq_map_conv)
qed

lemma rank_selectable_Inr:
  assumes "rank_selectable w args selectable get meta deadline start = Inr s"
  obtains obs_weights max_error impacts mismatch built where
    "verify_records w deadline get selectable = Inr ()"
    "\<forall>cp \<in> {Margins, Max_output_error, Impacts, Reconstruction, Constant_removals}. check_at w deadline cp = Inr ()"
    "compute_max_output_error (ra_creature args) get obs_weights = Inr max_error"
    "build_ranked_neurons (su_race w) (su_maths w) selectable get
       \<lparr>ri_impacts = impacts, ri_squashes = build_squash_map (ra_creature args), ri_max_error = max_error,
        ri_weights = obs_weights, ri_mismatch = mismatch\<rparr> deadline (\<lambda>u. su_instants w (Build u)) = Inr built"
    "rf_ineligible_constant s = snd (exclude_constants w args selectable get (rank_order w args built))"
    "rf_ineligible_low_impact s =
       snd (gate_impacts w (fst (exclude_constants w args selectable get (rank_order w args built))))"
    "rf_neurons s = limit_results (ra_max_results args)
       (fst (gate_impacts w (fst (exclude_constants w args selectable get (rank_order w args built)))))"
    "rf_removals s = ro_candidates (identify_removal_candidates (su_parsers w) (su_env w)
       (rank_order w args built) (synapse_counts (ra_creature args)) (effective_cost_of_growth (ra_cost_of_growth args)))"
    "rf_total s = length selectable"
  using assms by (auto simp: rank_selectable_def Let_def case_prod_unfold)

text \<open>
  C35. The focus pass accounts for every neuron: a pass that returns has ranked exactly the
  selectable neurons by score, impact and identifier; the focus list is the eligible ones in that order, cut
  to the requested number; what the exclusion of constant neurons and the impact gate removed is
  counted exactly; and the removal candidates come from the ranking before any of these cuts.
\<close>

theorem focus_pass_accounts_for_neurons:
  "case rank_selectable w args selectable get meta deadline start of
     Inl _ \<Rightarrow> True
   | Inr s \<Rightarrow> \<exists>neurons.
       mset (map rn_uuid neurons) = mset (map n_uuid selectable) \<and> sorted (map focus_order neurons) \<and>
       rf_neurons s = limit_results (ra_max_results args) (filter (eligible w args selectable get) neurons) \<and>
       length (filter (eligible w args selectable get) neurons) +
         rf_ineligible_constant s + rf_ineligible_low_impact s = rf_total s \<and>
       rf_removals s = ro_candidates (identify_removal_candidates (su_parsers w) (su_env w) neurons
         (synapse_counts (ra_creature args)) (effective_cost_of_growth (ra_cost_of_growth args)))"
proof (cases "rank_selectable w args selectable get meta deadline start")
  case (Inr s)
  then obtain built ow me im mm where
    b: "build_ranked_neurons (su_race w) (su_maths w) selectable get
       \<lparr>ri_impacts = im, ri_squashes = build_squash_map (ra_creature args), ri_max_error = me,
        ri_weights = ow, ri_mismatch = mm\<rparr> deadline (\<lambda>u. su_instants w (Build u)) = Inr built"
    and i: "rf_ineligible_constant s = snd (exclude_constants w args selectable get (rank_order w args built))"
      "rf_ineligible_low_impact s =
       snd (gate_impacts w (fst (exclude_constants w args selectable get (rank_order w args built))))"
      "rf_neurons s = limit_results (ra_max_results args)
       (fst (gate_impacts w (fst (exclude_constants w args selectable get (rank_order w args built)))))"
    and r: "rf_removals s = ro_candidates (identify_removal_candidates (su_parsers w) (su_env w)
       (rank_order w args built) (synapse_counts (ra_creature args)) (effective_cost_of_growth (ra_cost_of_growth args)))"
    and t: "rf_total s = length selectable"
    by (rule rank_selectable_Inr) blast
  obtain varying where e: "exclude_constants w args selectable get (rank_order w args built) = (varying, rf_ineligible_constant s)"
    using i(1) by (metis prod.collapse)
  then obtain passed where g: "gate_impacts w varying = (passed, rf_ineligible_low_impact s)"
    and n: "rf_neurons s = limit_results (ra_max_results args) passed"
    using i(2,3) by (metis fst_conv prod.collapse)
  have u: "map rn_uuid built = map n_uuid selectable" using build_ranked_uuids [OF b] .
  have "image_mset rn_uuid (mset (rank_order w args built)) = mset (map rn_uuid built)"
    by (simp add: rank_order_def scored_def image_mset.compositionality comp_def)
  then have 1: "mset (map rn_uuid (rank_order w args built)) = mset (map n_uuid selectable)" by (simp add: u)
  have 2: "passed = filter (eligible w args selectable get) (rank_order w args built)"
    using exclude_constants_eq [OF e] gate_impacts_eq [OF g]
    by (simp add: eligible_def cong: filter_cong) (rule filter_cong; auto)
  have 3: "length passed + rf_ineligible_constant s + rf_ineligible_low_impact s = rf_total s"
    using exclude_constants_eq [OF e, THEN conjunct2] gate_impacts_eq [OF g, THEN conjunct2]
      mset_eq_length [OF 1] t by simp
  have "sorted (map focus_order (rank_order w args built))" by (simp add: rank_order_def)
  then show ?thesis using Inr 1 2 3 n r by auto
qed simp

section \<open>Faults of a pass\<close>

text \<open>
  The checkpoints of a pass, and what can go wrong: a checkpoint reached after the deadline, a
  selectable neuron without records, and a lookup that fails. The pass looks up the selectable
  neurons, always, and the sources of synapses, depending on the creature and the settings.
\<close>

definition checkpoints_of :: "neuron_json list \<Rightarrow> checkpoint set" where
  "checkpoints_of selectable =
     Verify ` n_uuid ` set selectable \<union> {Margins, Max_output_error, Impacts, Reconstruction} \<union>
     Build ` n_uuid ` set selectable \<union> {Constant_removals}"

definition read_failures :: "'e provider \<Rightarrow> string set \<Rightarrow> 'e set" where
  "read_failures get us = {e. \<exists>u \<in> us. get u = Inl e}"

definition faults ::
  "surroundings \<Rightarrow> focus_deadline option \<Rightarrow> neuron_json list \<Rightarrow> rank_error provider \<Rightarrow> rank_error set" where
  "faults w deadline selectable get =
     {e. \<exists>cp \<in> checkpoints_of selectable. check_at w deadline cp = Inl e} \<union>
     Missing_records ` {u \<in> n_uuid ` set selectable. get u = Inr None} \<union>
     read_failures get (n_uuid ` set selectable)"

definition source_names :: "creature_json \<Rightarrow> string set" where
  "source_names c = s_from ` set (c_synapses c)"

definition pass_reads :: "creature_json \<Rightarrow> string set" where
  "pass_reads c = n_uuid ` set (selectable_of c) \<union> source_names c"

definition reports_one :: "('e list \<Rightarrow> 'e) \<Rightarrow> bool" where
  "reports_one race \<longleftrightarrow> (\<forall>es. es \<noteq> [] \<longrightarrow> race es \<in> set es)"

text \<open>A provider of which the errors on some names are known.\<close>

locale fallible_provider =
  fixes get :: "'e provider" and names :: "string set" and failed :: "'e set"
  assumes read_error: "u \<in> names \<Longrightarrow> get u = Inl e \<Longrightarrow> e \<in> failed"
begin

lemma contributions_Inl: "contributions get ss = Inl e \<Longrightarrow> s_from ` set ss \<subseteq> names \<Longrightarrow> e \<in> failed"
  by (induction ss) (auto simp: and_then_Inl_iff intro: read_error)

lemma neuron_stats_Inl:
  assumes "neuron_stats c get n = Inl e" "source_names c \<subseteq> names"
  shows "e \<in> failed"
proof -
  define incoming where "incoming = filter (\<lambda>s. s_to s = n_uuid n) (c_synapses c)"
  have sub: "s_from ` set ss \<subseteq> names" if "set ss \<subseteq> set incoming" for ss
    using that assms(2) by (auto simp: incoming_def source_names_def)
  from assms(1) consider
      "contributions get incoming = Inl e"
    | "contributions get (filter (\<lambda>s. s_type s = Some ''condition'') incoming) = Inl e"
    unfolding neuron_stats_def Let_def incoming_def [symmetric]
    by (auto simp: compute_min_stats_def compute_max_stats_def compute_extreme_stats_def
        compute_if_stats_def and_then_Inl_iff Let_def split: if_splits)
  then show ?thesis by cases (rule contributions_Inl, assumption, rule sub, simp)+
qed

lemma impacts_Inl:
  assumes "compute_impacts_with_activations c get = Inl e" "source_names c \<subseteq> names"
  shows "e \<in> failed"
proof -
  have "merge_stats c get ns stats = Inl e \<Longrightarrow> e \<in> failed" for ns stats
    by (induction ns arbitrary: stats) (auto simp: and_then_Inl_iff intro: neuron_stats_Inl [OF _ assms(2)])
  with assms(1) show ?thesis
    by (auto simp: compute_impacts_with_activations_def compute_impacts_with_contract_def
        compute_selection_stats_def and_then_Inl_iff)
qed

lemma margins_Inl:
  assumes "compute_per_obs_margins c get = Inl e" "set (output_uuids c) \<subseteq> names"
  shows "e \<in> failed"
proof -
  have "output_activations get us = Inl e \<Longrightarrow> set us \<subseteq> names \<Longrightarrow> e \<in> failed" for us
    by (induction us) (auto simp: and_then_Inl_iff intro: read_error)
  with assms show ?thesis by (auto simp: compute_per_obs_margins_def and_then_Inl_iff split: if_splits)
qed

lemma mismatch_Inl:
  assumes "compute_reconstruction_mismatch_map hash_order lm c selectable get = Inl e"
    and "set (needed_uuids c selectable) \<subseteq> names"
  shows "e \<in> failed"
proof -
  have "collect_activations get us acts = Inl e \<Longrightarrow> set us \<subseteq> names \<Longrightarrow> e \<in> failed" for us acts
    by (induction us arbitrary: acts) (auto simp: and_then_Inl_iff intro: read_error)
  with assms show ?thesis by (auto simp: compute_reconstruction_mismatch_map_def and_then_Inl_iff)
qed

end

interpretation reads: fallible_provider get us "read_failures get us" for get us
  by unfold_locales (auto simp: read_failures_def)

lemma output_uuids_read: "set (output_uuids c) \<subseteq> pass_reads c"
  by (auto simp: output_uuids_def pass_reads_def selectable_of_def is_selectable_type_def)

lemma needed_uuids_read: "set (needed_uuids c (selectable_of c)) \<subseteq> pass_reads c"
  by (auto simp: needed_uuids_def pass_reads_def source_names_def inbound_of_def)

lemma source_names_read: "source_names c \<subseteq> pass_reads c"
  by (simp add: pass_reads_def)

lemma get_records_Inl:
  "get_records_or_error get missing u = Inl e \<longleftrightarrow> get u = Inl e \<or> e = missing u \<and> get u = Inr None"
  by (auto simp: get_records_or_error_def and_then_Inl_iff split: option.splits)

lemma record_fault:
  "get_records_or_error get Missing_records u = Inl e \<Longrightarrow> u \<in> n_uuid ` set selectable \<Longrightarrow>
     e \<in> faults w deadline selectable get"
  by (auto simp: get_records_Inl faults_def read_failures_def)

lemma check_fault: "check_at w deadline cp = Inl e \<Longrightarrow> cp \<in> checkpoints_of selectable \<Longrightarrow>
    e \<in> faults w deadline selectable get"
  by (auto simp: faults_def)

lemma verify_Inl:
  assumes "verify_records w deadline get ns = Inl e" "set ns \<subseteq> set selectable"
  shows "e \<in> faults w deadline selectable get"
  using assms
proof (induction ns)
  case (Cons n ns)
  then have n: "n_uuid n \<in> n_uuid ` set selectable" and sub: "set ns \<subseteq> set selectable" by auto
  then have cp: "Verify (n_uuid n) \<in> checkpoints_of selectable" by (simp add: checkpoints_of_def)
  from Cons.prems(1) consider "check_at w deadline (Verify (n_uuid n)) = Inl e"
    | "get_records_or_error get Missing_records (n_uuid n) = Inl e"
    | "verify_records w deadline get ns = Inl e"
    by (auto simp: and_then_Inl_iff)
  then show ?case
    by cases (fact check_fault [OF _ cp], fact record_fault [OF _ n], fact Cons.IH [OF _ sub])
qed simp

lemma verify_Inr:
  "verify_records w deadline get ns = Inr () \<Longrightarrow> n \<in> set ns \<Longrightarrow>
     check_at w deadline (Verify (n_uuid n)) = Inr () \<and> (\<exists>rs. get (n_uuid n) = Inr (Some rs))"
proof (induction ns)
  case (Cons m ns)
  then show ?case
    by (cases "get (n_uuid m)") (auto simp: get_records_or_error_def split: option.splits)
qed simp

lemma output_errors_Inl:
  "output_errors get ws us = Inl e \<Longrightarrow> \<exists>u \<in> set us. get_records_or_error get Missing_records u = Inl e"
  by (induction us) (auto simp: and_then_Inl_iff)

lemma compute_max_output_error_Inl:
  assumes "compute_max_output_error c get ws = Inl e"
  shows "e \<in> faults w deadline (selectable_of c) get"
proof -
  have "output_errors get ws (output_uuids c) = Inl e"
    using assms by (cases "output_errors get ws (output_uuids c)")
      (simp_all add: compute_max_output_error_def output_uuids_def Let_def split: if_split_asm)
  from output_errors_Inl [OF this] obtain u where
    "u \<in> set (output_uuids c)" "get_records_or_error get Missing_records u = Inl e" by blast
  moreover from this(1) have "u \<in> n_uuid ` set (selectable_of c)"
    by (auto simp: output_uuids_def selectable_of_def is_selectable_type_def)
  ultimately show ?thesis by (blast intro: record_fault)
qed

lemma collect_parallel_Inl:
  assumes "reports_one race" "collect_parallel race rs = Inl e"
  shows "Inl e \<in> set rs"
proof -
  have "set (errors_of rs) = {e. Inl e \<in> set rs}"
    by (induction rs) (auto simp: errors_of_def map_filter_simps split: sum.splits)
  then show ?thesis using assms by (auto simp: collect_parallel_def reports_one_def split: if_splits)
qed

lemma build_Inl:
  assumes "reports_one race"
    and "build_ranked_neurons race lm selectable get inp deadline (\<lambda>u. su_instants w (Build u)) = Inl e"
  shows "e \<in> faults w deadline selectable get"
proof -
  let ?rank = "rank_neuron lm inp get deadline (\<lambda>u. su_instants w (Build u))"
  from collect_parallel_Inl [OF assms [unfolded build_ranked_neurons_def]] obtain n where
    n: "n \<in> set selectable" "?rank n = Inl e"
    by (metis (no_types, lifting) imageE list.set_map)
  then have cp: "Build (n_uuid n) \<in> checkpoints_of selectable" and u: "n_uuid n \<in> n_uuid ` set selectable"
    by (simp_all add: checkpoints_of_def)
  from n(2) consider "check_at w deadline (Build (n_uuid n)) = Inl e"
    | "get_records_or_error get Missing_records (n_uuid n) = Inl e"
    by (auto simp: rank_neuron_def and_then_Inl_iff check_at_def)
  then show ?thesis by cases (fact check_fault [OF _ cp], fact record_fault [OF _ u])
qed

lemma build_Inr:
  assumes "build_ranked_neurons race lm selectable get inp deadline instant = Inr built" "n \<in> set selectable"
  shows "check_focus_deadline deadline (instant (n_uuid n)) = Inr ()"
proof -
  have "map (rank_neuron lm inp get deadline instant) selectable = map Inr built"
    using assms(1) collect_parallel_Inr by (simp add: build_ranked_neurons_def)
  then have "rank_neuron lm inp get deadline instant n \<in> Inr ` set built"
    using assms(2) by (metis image_eqI list.set_map)
  then show ?thesis by (auto simp: rank_neuron_def)
qed

text \<open>
  C36. A focus pass fails only for a fault, and never passes one over. The faults are: a checkpoint
  reached after the deadline, a selectable neuron without records, and a selectable neuron whose
  lookup fails. A pass that returns a ranking met none of them; a pass that fails reports one of
  them, or the failed lookup of a synapse's source, which only some creatures and settings read.
  So where the lookups of sources succeed, the pass returns a ranking exactly when there is no
  fault. A pass that runs out of time never returns part of a ranking.
\<close>

theorem focus_pass_fails_for_faults:
  assumes "reports_one (su_race w)"
  shows "case rank_selectable w args (selectable_of (ra_creature args)) get meta deadline start of
      Inl e \<Rightarrow> e \<in> faults w deadline (selectable_of (ra_creature args)) get \<union>
        read_failures get (source_names (ra_creature args))
    | Inr s \<Rightarrow> faults w deadline (selectable_of (ra_creature args)) get = {}"
proof -
  define sel where "sel = selectable_of (ra_creature args)"
  define F where "F = faults w deadline sel get \<union> read_failures get (source_names (ra_creature args))"
  have reads: "read_failures get (pass_reads (ra_creature args)) \<subseteq> F"
    by (auto simp: F_def faults_def pass_reads_def read_failures_def sel_def)
  have check: "check_at w deadline cp = Inl e \<Longrightarrow> cp \<in> checkpoints_of sel \<Longrightarrow> e \<in> F" for cp e
    using check_fault by (auto simp: F_def)
  have verify: "verify_records w deadline get sel = Inl e \<Longrightarrow> e \<in> F" for e
    using verify_Inl by (auto simp: F_def)
  have max_error: "compute_max_output_error (ra_creature args) get ws = Inl e \<Longrightarrow> e \<in> F" for ws e
    using compute_max_output_error_Inl by (auto simp: F_def sel_def)
  have build: "build_ranked_neurons (su_race w) lm sel get inp deadline (\<lambda>u. su_instants w (Build u)) = Inl e \<Longrightarrow>
      e \<in> F" for lm inp e
    using build_Inl [OF assms] by (auto simp: F_def)
  have impacts: "compute_impacts_with_activations (ra_creature args) get = Inl e \<Longrightarrow> e \<in> F" for e
    by (rule subsetD [OF reads], rule reads.impacts_Inl [OF _ source_names_read])
  have margins: "margin_obs_weights args get = Inl e \<Longrightarrow> e \<in> F" for e
    by (rule subsetD [OF reads], rule reads.margins_Inl [OF _ output_uuids_read])
      (simp add: margin_obs_weights_def and_then_Inl_iff split: if_split_asm)
  have mismatch: "mismatch_phase w args sel get = Inl e \<Longrightarrow> e \<in> F" for e
    by (rule subsetD [OF reads], rule reads.mismatch_Inl [OF _ needed_uuids_read])
      (simp add: mismatch_phase_def sel_def split: if_split_asm)
  show ?thesis unfolding sel_def [symmetric]
  proof (cases "rank_selectable w args sel get meta deadline start")
    case (Inl e)
    then have "verify_records w deadline get sel = Inl e \<or>
        (\<exists>cp \<in> {Margins, Max_output_error, Impacts, Reconstruction, Constant_removals}. check_at w deadline cp = Inl e) \<or>
        margin_obs_weights args get = Inl e \<or>
        (\<exists>ws. compute_max_output_error (ra_creature args) get ws = Inl e) \<or>
        compute_impacts_with_activations (ra_creature args) get = Inl e \<or>
        mismatch_phase w args sel get = Inl e \<or>
        (\<exists>lm inp. build_ranked_neurons (su_race w) lm sel get inp deadline (\<lambda>u. su_instants w (Build u)) = Inl e)"
      unfolding rank_selectable_def Let_def and_then_Inl_iff case_prod_unfold by (elim disjE exE conjE) blast+
    moreover have "cp \<in> checkpoints_of sel"
      if "cp \<in> {Margins, Max_output_error, Impacts, Reconstruction, Constant_removals}" for cp
      using that by (auto simp: checkpoints_of_def)
    ultimately have "e \<in> F"
      using verify check margins max_error impacts mismatch build by metis
    then show "case rank_selectable w args sel get meta deadline start of
        Inl e \<Rightarrow> e \<in> faults w deadline sel get \<union> read_failures get (source_names (ra_creature args))
      | Inr s \<Rightarrow> faults w deadline sel get = {}"
      using Inl by (simp add: F_def)
  next
    case (Inr s)
    then obtain built inp where v: "verify_records w deadline get sel = Inr ()"
      and c: "\<forall>cp \<in> {Margins, Max_output_error, Impacts, Reconstruction, Constant_removals}. check_at w deadline cp = Inr ()"
      and b: "build_ranked_neurons (su_race w) (su_maths w) sel get inp deadline (\<lambda>u. su_instants w (Build u)) = Inr built"
      by (rule rank_selectable_Inr) blast
    have "check_at w deadline cp = Inr ()" if "cp \<in> checkpoints_of sel" for cp
      using that c verify_Inr [OF v] build_Inr [OF b] by (auto simp: checkpoints_of_def check_at_def)
    moreover have "\<exists>rs. get u = Inr (Some rs)" if "u \<in> n_uuid ` set sel" for u
      using that verify_Inr [OF v] by blast
    ultimately have "faults w deadline sel get = {}"
      by (fastforce simp: faults_def read_failures_def)
    then show "case rank_selectable w args sel get meta deadline start of
        Inl e \<Rightarrow> e \<in> faults w deadline sel get \<union> read_failures get (source_names (ra_creature args))
      | Inr s \<Rightarrow> faults w deadline sel get = {}"
      using Inr by simp
  qed
qed

section \<open>Both loading modes\<close>

lemma on_demand_answers:
  assumes "lazy_reach load capacity c"
  shows "provider_get load (On_demand c) = provider_answer load"
proof
  fix u
  show "provider_get load (On_demand c) u = provider_answer load u"
    using lazy_get_ok [of load c u] lazy_reach_inv [OF assms] by (auto simp: provider_get_def)
qed

text \<open>
  C37. Both loading modes rank alike. When every neuron can be loaded on its own and yields the rows
  the grouped read has for it, the preloading provider and the lazy one are built, whatever the
  deadline. When the warm pass of the lazy mode fails, the cold provider is built as long as the
  deadline, if there is one, has not passed, and the timeout of the deadline is returned once it
  has. A pass over any of these providers returns the same ranking or the same error.
\<close>

theorem loading_modes_rank_alike:
  assumes "\<forall>u. load u = Inr (lookup_list groups u)" "\<forall>(u, rs) \<in> set groups. rs \<noteq> []" "distinct (map fst groups)"
  shows "\<exists>preloaded warm cold.
    build_provider selectable (plan\<lparr>lp_mode := Mode_preload\<rparr>) deadline instant (Inr groups) = Some (Inr preloaded) \<and>
    build_provider selectable (plan\<lparr>lp_mode := Mode_lazy\<rparr>) deadline instant (Inr groups) = Some (Inr warm) \<and>
    build_provider selectable (plan\<lparr>lp_mode := Mode_lazy\<rparr>) deadline instant (Inl e) =
      Some (case deadline of
              None \<Rightarrow> Inr cold
            | Some d \<Rightarrow> if instant < fd_expires_at d then Inr cold else Inl (Timeout (fd_budget_ms d))) \<and>
    (\<forall>p \<in> {preloaded, warm, cold}.
      rank_selectable w args selectable (provider_get load p) meta deadline' start =
      rank_selectable w args selectable (provider_answer load) meta deadline' start)"
proof -
  define wanted where "wanted = filter (\<lambda>(u, _). u \<in> n_uuid ` set selectable) groups"
  define cold where "cold = lazy_with_capacity (length selectable)"
  have "load u = Inr rs" if "(u, rs) \<in> set wanted" for u rs
    using that assms(1,3) by (auto simp: wanted_def lookup_list_def)
  then obtain c where c: "lazy_seed wanted cold = Some c" "lazy_reach load (length selectable) c"
    using lazy_seed_reach [OF lazy_reach.start [of load "length selectable"], of wanted]
    by (auto simp: cold_def)
  have pre: "provider_get load (Eager (eager_from_shared groups)) = provider_answer load"
    using eager_answer [OF assms(1,2)] by (auto simp: provider_get_def)
  have "provider_get load (On_demand c) = provider_answer load" "provider_get load (On_demand cold) = provider_answer load"
    using on_demand_answers [OF c(2)] on_demand_answers [OF lazy_reach.start] unfolding cold_def by auto
  then show ?thesis using pre c(1)
    by (intro exI [of _ "Eager (eager_from_shared groups)"] exI [of _ "On_demand c"] exI [of _ "On_demand cold"])
      (simp add: build_provider_def build_lazy_provider_def check_focus_deadline_def Let_def not_less
        split: option.split flip: wanted_def cold_def)
qed

section \<open>Concrete passes\<close>

definition one_output :: creature_json where
  "one_output = \<lparr>c_neurons = [\<lparr>n_uuid = ''o'', n_type = ''output'', n_squash = ''IDENTITY'', n_bias = f32_zero\<rparr>],
     c_synapses = [], c_input = 1, c_output = 1\<rparr>"

definition plain_args :: rank_args where
  "plain_args = \<lparr>ra_creature = one_output, ra_max_results = None, ra_cost_of_growth = None, ra_topology = None,
     ra_history = None, ra_shared_deadline_ms = None\<rparr>"

definition plain_plan :: loading_plan where
  "plain_plan = \<lparr>lp_mode = Mode_preload, lp_reason = Reason_none, lp_budget_mb = None, lp_projected_mb = 1\<rparr>"

definition plain_surroundings :: surroundings where
  "plain_surroundings = \<lparr>su_env = Map.empty, su_parsers = no_floats, su_maths = flat_maths, su_instants = (\<lambda>_. 5),
     su_race = hd, su_hash_order = id\<rparr>"

theorem focus_pass_fails_for_faults_witness:
  "rank_selectable plain_surroundings plain_args (selectable_of one_output) (\<lambda>_. Inr None) plain_plan None 0 =
     Inl (Missing_records ''o'')"
proof -
  have sel: "selectable_of one_output = c_neurons one_output" "n_uuid ` set (c_neurons one_output) = {''o''}"
    by (simp_all add: selectable_of_def one_output_def is_selectable_type_def)
  have "faults plain_surroundings None (selectable_of one_output) (\<lambda>_. Inr None) \<union>
      read_failures (\<lambda>_. Inr None) (source_names one_output) = {Missing_records ''o''}"
    by (auto simp: faults_def read_failures_def check_at_def check_focus_deadline_def sel)
  moreover have "faults plain_surroundings None (selectable_of one_output) (\<lambda>_. Inr None) \<noteq> {}"
    by (simp add: faults_def sel)
  ultimately show ?thesis
    using focus_pass_fails_for_faults [where w = plain_surroundings and args = plain_args
      and get = "\<lambda>_. Inr None" and meta = plain_plan and deadline = None and start = 0]
    by (auto simp: reports_one_def plain_surroundings_def plain_args_def split: sum.splits)
qed

theorem loading_modes_rank_alike_witness:
  "\<exists>cold. build_provider (selectable_of one_output) (plain_plan\<lparr>lp_mode := Mode_lazy\<rparr>)
      (Some (focus_deadline_new 0 120000)) 5 (Inl ''e'') = Some (Inr cold) \<and>
     rank_selectable plain_surroundings plain_args (selectable_of one_output)
       (provider_get (\<lambda>u. Inr (lookup_list [(''o'', [new_record 1 ''o'' None f32_zero []])] u)) cold) plain_plan None 0 =
     rank_selectable plain_surroundings plain_args (selectable_of one_output)
       (provider_answer (\<lambda>u. Inr (lookup_list [(''o'', [new_record 1 ''o'' None f32_zero []])] u))) plain_plan None 0"
proof -
  have "5 < fd_expires_at (focus_deadline_new 0 120000)"
    by (simp add: focus_deadline_new_def duration_from_millis_def sat_add_def focus_ranking_budget_grace_ms_def
        ns_per_ms_def)
  then show ?thesis
    using loading_modes_rank_alike [where load = "\<lambda>u. Inr (lookup_list [(''o'', [new_record 1 ''o'' None f32_zero []])] u)"
      and groups = "[(''o'', [new_record 1 ''o'' None f32_zero []])]" and selectable = "selectable_of one_output"
      and plan = plain_plan and deadline = "Some (focus_deadline_new 0 120000)" and instant = 5 and e = "''e''"
      and w = plain_surroundings and args = plain_args and meta = plain_plan and deadline' = None and start = 0]
    by auto
qed

end
