(* ===== verification/Reduction.thy ===== *)
theory Reduction
  imports Removal Candidates
begin

text \<open>
  Removing a neuron without changing what the network computes: the statistics of two recorded
  activations and the redistribution of a removed weight (\<open>analysis/remove_neuron_compensation.rs\<close>), the
  fold of a constant neuron into biases (\<open>remove_neuron_bias_fold.rs\<close>), neurons that are constant by
  structure and their promotion (\<open>remove_neuron_constant_promotion.rs\<close>), the honest gain of a removal
  (\<open>remove_neuron_gain.rs\<close>, \<open>remove_neuron_net_gain.rs\<close>), their demotion in a drought
  (\<open>remove_neuron_drought.rs\<close>), and the phase of the analysis that applies all of them
  (\<open>discovery_dispatch.rs\<close>, \<open>orchestration.rs\<close>). The square root of \<open>f64\<close> is the argument \<open>sqrt64\<close>.
\<close>

section \<open>Covariance\<close>

definition variance_epsilon :: f64 where "variance_epsilon = 0x3D719799812DEA11"
definition f64_minus_one :: f64 where "f64_minus_one = 0xBFF0000000000000"

record activation_covariance =
  ac_count :: nat
  ac_candidate_mean :: f64
  ac_survivor_mean :: f64
  ac_candidate_variance :: f64
  ac_survivor_variance :: f64
  ac_covariance :: f64

text \<open>The running moments of Welford's algorithm.\<close>

record moments =
  mo_count :: nat
  mo_n :: f64
  mo_mean_x :: f64
  mo_mean_y :: f64
  mo_m2_x :: f64
  mo_m2_y :: f64
  mo_co :: f64

definition no_moments :: moments where
  "no_moments = \<lparr>mo_count = 0, mo_n = f64_zero, mo_mean_x = f64_zero, mo_mean_y = f64_zero, mo_m2_x = f64_zero,
     mo_m2_y = f64_zero, mo_co = f64_zero\<rparr>"

definition add_pair :: "f64 \<times> f64 \<Rightarrow> moments \<Rightarrow> moments" where
  "add_pair = (\<lambda>(x, y) m.
     (let n = f64_add (mo_n m) f64_one;
          dx = f64_sub x (mo_mean_x m);
          dy = f64_sub y (mo_mean_y m);
          mean_x = f64_add (mo_mean_x m) (f64_div dx n);
          mean_y = f64_add (mo_mean_y m) (f64_div dy n)
      in \<lparr>mo_count = mo_count m + 1, mo_n = n, mo_mean_x = mean_x, mo_mean_y = mean_y,
          mo_m2_x = f64_add (mo_m2_x m) (f64_mul dx (f64_sub x mean_x)),
          mo_m2_y = f64_add (mo_m2_y m) (f64_mul dy (f64_sub y mean_y)),
          mo_co = f64_add (mo_co m) (f64_mul dx (f64_sub y mean_y))\<rparr>))"

definition covariance_from_pairs :: "(f64 \<times> f64) list \<Rightarrow> activation_covariance option" where
  "covariance_from_pairs pairs =
     (let m = fold add_pair pairs no_moments in
      if mo_count m = 0 then None
      else Some \<lparr>ac_count = mo_count m, ac_candidate_mean = mo_mean_x m, ac_survivor_mean = mo_mean_y m,
             ac_candidate_variance = f64_div (mo_m2_x m) (mo_n m),
             ac_survivor_variance = f64_div (mo_m2_y m) (mo_n m),
             ac_covariance = f64_div (mo_co m) (mo_n m)\<rparr>)"

definition covariance_from_values :: "f64 list \<Rightarrow> activation_covariance option" where
  "covariance_from_values vs = covariance_from_pairs (map (\<lambda>v. (v, v)) vs)"

definition correlation :: "(f64 \<Rightarrow> f64) \<Rightarrow> activation_covariance \<Rightarrow> f64" where
  "correlation sqrt64 s =
     (if f64_less_eq (ac_candidate_variance s) variance_epsilon \<or>
         f64_less_eq (ac_survivor_variance s) variance_epsilon
      then f64_zero
      else
        (let denom = sqrt64 (f64_mul (ac_candidate_variance s) (ac_survivor_variance s)) in
         f64_clamp f64_minus_one f64_one (f64_div (ac_covariance s) denom)))"

section \<open>Redistributing a weight\<close>

record weight_redistribution =
  wr_delta_weight :: f64
  wr_bias_only :: f64
  wr_redistributed :: f64
  wr_recovered :: f64
  wr_fully_compensable :: bool

definition compensable_fraction :: f64 where "compensable_fraction = 0x3E112E0BE826D695"

definition evaluate_weight_redistribution :: "f64 \<Rightarrow> activation_covariance \<Rightarrow> weight_redistribution" where
  "evaluate_weight_redistribution wc s =
     (let bias_only = f64_mul (f64_mul wc wc) (ac_candidate_variance s) in
      if f64_less_eq bias_only variance_epsilon then
        \<lparr>wr_delta_weight = f64_zero, wr_bias_only = bias_only, wr_redistributed = bias_only,
         wr_recovered = f64_zero, wr_fully_compensable = True\<rparr>
      else if f64_less_eq (ac_survivor_variance s) variance_epsilon then
        \<lparr>wr_delta_weight = f64_zero, wr_bias_only = bias_only, wr_redistributed = bias_only,
         wr_recovered = f64_zero, wr_fully_compensable = False\<rparr>
      else
        (let delta_weight = f64_div (f64_mul wc (ac_covariance s)) (ac_survivor_variance s);
             recovered = f64_div (f64_mul (f64_mul (f64_mul wc wc) (ac_covariance s)) (ac_covariance s))
               (ac_survivor_variance s);
             bounded = f64_max (f64_min recovered bias_only) f64_zero;
             residual = f64_max (f64_sub bias_only bounded) f64_zero
         in \<lparr>wr_delta_weight = delta_weight, wr_bias_only = bias_only, wr_redistributed = residual,
             wr_recovered = bounded,
             wr_fully_compensable = f64_less_eq residual (f64_mul compensable_fraction bias_only)\<rparr>))"

record shared_target =
  st_target :: string
  st_candidate_weight :: f64
  st_survivor :: string

definition outgoing_of :: "creature_json \<Rightarrow> string \<Rightarrow> synapse_json list" where
  "outgoing_of c u = filter (\<lambda>s. s_from s = u) (c_synapses c)"

definition shared_downstream_targets :: "creature_json \<Rightarrow> string \<Rightarrow> shared_target list" where
  "shared_downstream_targets c u = concat (map (\<lambda>out.
     map (\<lambda>other. \<lparr>st_target = s_to out, st_candidate_weight = f64_of_f32 (s_weight out), st_survivor = s_from other\<rparr>)
       (filter (\<lambda>s. s_to s = s_to out \<and> s_from s \<noteq> u \<and> s_from s \<noteq> s_to out) (c_synapses c))) (outgoing_of c u))"

definition aligned_activations :: "discover_record list \<Rightarrow> discover_record list \<Rightarrow> (f64 \<times> f64) list" where
  "aligned_activations candidates survivors =
     (let by_obs = fold (\<lambda>r m. m(r_obs r \<mapsto> r_activation r)) survivors Map.empty in
      List.map_filter (\<lambda>r. map_option (\<lambda>s. (f64_of_f32 (r_activation r), f64_of_f32 s)) (by_obs (r_obs r)))
        candidates)"

definition records_of :: "discover_record list \<Rightarrow> string \<Rightarrow> discover_record list" where
  "records_of rs u = filter (\<lambda>r. r_uuid r = u) rs"

definition better_redistribution ::
  "discover_record list \<Rightarrow> discover_record list \<Rightarrow> shared_target
     \<Rightarrow> (shared_target \<times> weight_redistribution) option \<Rightarrow> (shared_target \<times> weight_redistribution) option" where
  "better_redistribution rs candidates shared best =
     (case covariance_from_pairs (aligned_activations candidates (records_of rs (st_survivor shared))) of
        None \<Rightarrow> best
      | Some stats \<Rightarrow>
          (let redist = evaluate_weight_redistribution (st_candidate_weight shared) stats in
           if (case best of
                 Some (_, current) \<Rightarrow> f64_less (wr_recovered current) (wr_recovered redist)
               | None \<Rightarrow> True)
           then Some (shared, redist) else best))"

definition best_weight_redistribution ::
  "creature_json \<Rightarrow> string \<Rightarrow> discover_record list \<Rightarrow> (shared_target \<times> weight_redistribution) option" where
  "best_weight_redistribution c u rs =
     (if records_of rs u = [] then None
      else fold (better_redistribution rs (records_of rs u)) (shared_downstream_targets c u) None)"

section \<open>Folding a constant neuron\<close>

definition bias_fold_gate_tolerance :: f64 where "bias_fold_gate_tolerance = 0x3EB0C6F7A0B5ED8D"

record bias_fold_outcome =
  bo_accepted :: bool
  bo_constant :: f64
  bo_variance :: f64
  bo_max_residual :: f64
  bo_targets :: "(string \<times> f64) list"

definition neuron_activations :: "discover_record list \<Rightarrow> string \<Rightarrow> f64 list" where
  "neuron_activations rs u = map (\<lambda>r. f64_of_f32 (r_activation r)) (records_of rs u)"

definition evaluate_constant_neuron_bias_fold ::
  "creature_json \<Rightarrow> discover_record list \<Rightarrow> string \<Rightarrow> f64 \<Rightarrow> bias_fold_outcome option" where
  "evaluate_constant_neuron_bias_fold c rs u tolerance =
     map_option (\<lambda>stats.
       (let constant = ac_candidate_mean stats; variance = ac_candidate_variance stats;
            deviation = fold (\<lambda>a acc. f64_max acc (f64_abs (f64_sub a constant))) (neuron_activations rs u) f64_zero;
            weights = map (\<lambda>s. f64_of_f32 (s_weight s)) (outgoing_of c u);
            max_residual = fold (\<lambda>w acc. f64_max acc (f64_mul (f64_abs w) deviation)) weights f64_zero
        in \<lparr>bo_accepted = f64_less_eq variance variance_epsilon \<or> f64_less_eq max_residual tolerance,
            bo_constant = constant, bo_variance = variance, bo_max_residual = max_residual,
            bo_targets = map (\<lambda>s. (s_to s, f64_mul (f64_of_f32 (s_weight s)) constant)) (outgoing_of c u)\<rparr>))
       (covariance_from_values (neuron_activations rs u))"

definition fold_target :: "string \<times> f64 \<Rightarrow> neuron_json list \<Rightarrow> neuron_json list" where
  "fold_target = (\<lambda>(u, delta) ns.
     map (\<lambda>n. if n_uuid n = u then n\<lparr>n_bias := f32_of_f64 (f64_add (f64_of_f32 (n_bias n)) delta)\<rparr> else n) ns)"

definition apply_fold :: "string \<Rightarrow> (string \<times> f64) list \<Rightarrow> creature_json \<Rightarrow> creature_json" where
  "apply_fold u targets c =
     c\<lparr>c_neurons := filter (\<lambda>n. n_uuid n \<noteq> u) (fold fold_target targets (c_neurons c)),
       c_synapses := filter (\<lambda>s. s_from s \<noteq> u \<and> s_to s \<noteq> u) (c_synapses c)\<rparr>"

definition no_fold :: bias_fold_outcome where
  "no_fold = \<lparr>bo_accepted = False, bo_constant = f64_zero, bo_variance = f64_zero, bo_max_residual = f64_zero,
     bo_targets = []\<rparr>"

definition fold_and_remove_constant_neuron ::
  "discover_record list \<Rightarrow> string \<Rightarrow> f64 \<Rightarrow> creature_json \<Rightarrow> creature_json \<times> bias_fold_outcome" where
  "fold_and_remove_constant_neuron rs u tolerance c =
     (case evaluate_constant_neuron_bias_fold c rs u tolerance of
        None \<Rightarrow> (c, no_fold)
      | Some outcome \<Rightarrow> (if bo_accepted outcome then apply_fold u (bo_targets outcome) c else c, outcome))"

section \<open>The gain of a removal\<close>

definition remove_influence_calibration :: f32 where "remove_influence_calibration = 0x3B449BA6"
definition removal_net_gain_floor_units :: f32 where "removal_net_gain_floor_units = f32_half"
definition max_reasonable_squash_error :: f64 where "max_reasonable_squash_error = 0x4202A05F20000000"

definition estimate_remove_neuron_gain :: "creature_json \<Rightarrow> string \<Rightarrow> f64 option" where
  "estimate_remove_neuron_gain c u =
     (if \<exists>n \<in> set (c_neurons c). n_uuid n = u \<and> n_type n = ''output'' then None
      else map_option (\<lambda>influence. f64_neg (f64_max (f64_of_f32 influence) f64_zero)) (compute_impacts_public c u))"

definition assess_remove_neuron :: "creature_json \<Rightarrow> string \<Rightarrow> f64 \<Rightarrow> (bool \<times> f64) option" where
  "assess_remove_neuron c u squash_error =
     map_option (\<lambda>gain. (f64_less max_reasonable_squash_error squash_error, gain)) (estimate_remove_neuron_gain c u)"

definition removal_influence_loss :: "f64 \<Rightarrow> f32" where
  "removal_influence_loss influence =
     (if \<not> f64_is_finite influence then f32_infinity
      else f32_of_f64 (f64_mul (f64_abs influence) (f64_of_f32 remove_influence_calibration)))"

definition removal_net_gain :: "f32 \<Rightarrow> f64 \<Rightarrow> f32" where
  "removal_net_gain saving influence = f32_sub saving (removal_influence_loss influence)"

definition estimate_remove_neuron_net_gain :: "creature_json \<Rightarrow> string \<Rightarrow> f32 \<Rightarrow> f32 option" where
  "estimate_remove_neuron_net_gain c u growth_cost =
     map_option (\<lambda>influence.
       (case synapse_counts c u of (incoming, outgoing) \<Rightarrow>
          removal_net_gain (calculate_removal_savings incoming outgoing growth_cost) influence))
       (estimate_remove_neuron_gain c u)"

definition removal_net_gain_floor :: "f32 \<Rightarrow> f32" where
  "removal_net_gain_floor growth_cost =
     (if \<not> f32_is_finite growth_cost \<or> f32_greater_eq f32_zero growth_cost then gain_floor_noise_backstop
      else f32_max (f32_mul removal_net_gain_floor_units growth_cost) gain_floor_noise_backstop)"

definition removal_net_gain_accepted :: "f32 \<Rightarrow> f32 \<Rightarrow> f32 \<Rightarrow> bool" where
  "removal_net_gain_accepted net_gain growth_cost floor_multiplier =
     (let multiplier = (if f32_is_finite floor_multiplier then f32_max floor_multiplier f32_one else f32_one) in
      f32_greater_eq net_gain (f32_mul (removal_net_gain_floor growth_cost) multiplier))"

section \<open>What is attached to the candidates\<close>

definition single_op_remove_neuron_uuid :: "candidate \<Rightarrow> string option" where
  "single_op_remove_neuron_uuid cand =
     (case cd_operations cand of [Remove_Neuron u] \<Rightarrow> Some u | _ \<Rightarrow> None)"

text \<open>A pass over the candidates that may change each of them, and how many it changed.\<close>

definition update_each :: "('a \<Rightarrow> 'a option) \<Rightarrow> 'a list \<Rightarrow> 'a list \<times> nat" where
  "update_each f xs =
     (map (\<lambda>x. case f x of None \<Rightarrow> x | Some y \<Rightarrow> y) xs, length (filter (\<lambda>x. f x \<noteq> None) xs))"

definition honest_gain :: "creature_json \<Rightarrow> candidate \<Rightarrow> candidate option" where
  "honest_gain c cand =
     Option.bind (single_op_remove_neuron_uuid cand) (\<lambda>u.
       map_option (\<lambda>net_gain. cand\<lparr>cd_gain := net_gain\<rparr>)
         (estimate_remove_neuron_net_gain c u default_cost_of_growth))"

definition apply_honest_remove_neuron_gain :: "creature_json \<Rightarrow> candidate list \<Rightarrow> candidate list \<times> nat" where
  "apply_honest_remove_neuron_gain c = update_each (honest_gain c)"

definition accepted_constant_bias_fold ::
  "creature_json \<Rightarrow> discover_record list \<Rightarrow> string \<Rightarrow> bias_fold_outcome option" where
  "accepted_constant_bias_fold c rs u =
     Option.bind (evaluate_constant_neuron_bias_fold c rs u bias_fold_gate_tolerance) (\<lambda>outcome.
       if bo_accepted outcome \<and> bo_targets outcome \<noteq> [] then Some outcome else None)"

definition compensation_json ::
  "(f64 \<Rightarrow> f64) \<Rightarrow> shared_target \<Rightarrow> weight_redistribution \<Rightarrow> activation_covariance \<Rightarrow> compensation" where
  "compensation_json sqrt64 shared redist stats =
     \<lparr>cm_target_neuron_uuid = st_target shared, cm_survivor_neuron_uuid = st_survivor shared,
      cm_delta_weight = f32_of_f64 (wr_delta_weight redist), cm_sample_count = word_of_nat (ac_count stats),
      cm_candidate_variance = f32_of_f64 (ac_candidate_variance stats),
      cm_survivor_variance = f32_of_f64 (ac_survivor_variance stats),
      cm_covariance = f32_of_f64 (ac_covariance stats), cm_correlation = f32_of_f64 (correlation sqrt64 stats),
      cm_bias_only_residual_variance = f32_of_f64 (wr_bias_only redist),
      cm_redistributed_residual_variance = f32_of_f64 (wr_redistributed redist),
      cm_variance_recovered = f32_of_f64 (wr_recovered redist),
      cm_fully_compensable = wr_fully_compensable redist\<rparr>"

definition compensate ::
  "(f64 \<Rightarrow> f64) \<Rightarrow> creature_json \<Rightarrow> discover_record list \<Rightarrow> candidate \<Rightarrow> candidate option" where
  "compensate sqrt64 c rs cand =
     Option.bind (single_op_remove_neuron_uuid cand) (\<lambda>u.
       if accepted_constant_bias_fold c rs u \<noteq> None then None
       else
         Option.bind (best_weight_redistribution c u rs) (\<lambda>(shared, redist).
           map_option (\<lambda>stats. cand\<lparr>cd_compensation := Some (compensation_json sqrt64 shared redist stats)\<rparr>)
             (covariance_from_pairs (aligned_activations (records_of rs u) (records_of rs (st_survivor shared))))))"

definition apply_remove_neuron_compensation ::
  "(f64 \<Rightarrow> f64) \<Rightarrow> creature_json \<Rightarrow> discover_record list \<Rightarrow> candidate list \<Rightarrow> candidate list \<times> nat" where
  "apply_remove_neuron_compensation sqrt64 c rs = update_each (compensate sqrt64 c rs)"

definition bias_fold_json :: "bias_fold_outcome \<Rightarrow> bias_fold" where
  "bias_fold_json outcome =
     \<lparr>bf_constant_activation = f32_of_f64 (bo_constant outcome),
      bf_activation_variance = f32_of_f64 (bo_variance outcome),
      bf_max_residual = f32_of_f64 (bo_max_residual outcome),
      bf_folded_targets = map (\<lambda>(u, delta). \<lparr>fb_target_neuron_uuid = u, fb_bias_delta = f32_of_f64 delta\<rparr>)
        (bo_targets outcome)\<rparr>"

definition attach_fold :: "creature_json \<Rightarrow> discover_record list \<Rightarrow> candidate \<Rightarrow> candidate option" where
  "attach_fold c rs cand =
     Option.bind (single_op_remove_neuron_uuid cand) (\<lambda>u.
       map_option (\<lambda>outcome. cand\<lparr>cd_bias_fold := Some (bias_fold_json outcome)\<rparr>)
         (accepted_constant_bias_fold c rs u))"

definition apply_constant_neuron_bias_fold ::
  "creature_json \<Rightarrow> discover_record list \<Rightarrow> candidate list \<Rightarrow> candidate list \<times> nat" where
  "apply_constant_neuron_bias_fold c rs = update_each (attach_fold c rs)"

section \<open>Demotion and promotion\<close>

definition remove_neuron_deprioritisation_factor :: "u32 \<Rightarrow> u32 \<Rightarrow> u32 \<Rightarrow> f32 \<Rightarrow> f32" where
  "remove_neuron_deprioritisation_factor failures disabled_passes threshold configured =
     (if \<not> is_search_exhaustion_drought failures disabled_passes threshold then neutral_deprioritisation_factor
      else if \<not> f32_is_finite configured then neutral_deprioritisation_factor
      else f32_clamp min_remove_neuron_drought_factor neutral_deprioritisation_factor configured)"

definition demote :: "f32 \<Rightarrow> candidate \<Rightarrow> candidate option" where
  "demote factor cand =
     (if single_op_remove_neuron_uuid cand \<noteq> None \<and> f32_is_finite (cd_gain cand) \<and> f32_positive (cd_gain cand)
      then Some (cand\<lparr>cd_gain := f32_mul (cd_gain cand) factor\<rparr>) else None)"

definition deprioritise_remove_neuron_candidates :: "f32 \<Rightarrow> candidate list \<Rightarrow> candidate list \<times> nat" where
  "deprioritise_remove_neuron_candidates factor cs =
     (if \<not> f32_is_finite factor \<or> f32_greater_eq factor neutral_deprioritisation_factor then (cs, 0)
      else update_each (demote factor) cs)"

definition constant_neuron_priority_gain :: f32 where "constant_neuron_priority_gain = f32_one"

definition promote :: "string set \<Rightarrow> candidate \<Rightarrow> candidate option" where
  "promote flagged cand =
     (case single_op_remove_neuron_uuid cand of
        Some u \<Rightarrow> if u \<in> flagged then Some (cand\<lparr>cd_gain := constant_neuron_priority_gain\<rparr>) else None
      | None \<Rightarrow> None)"

definition promote_constant_remove_neuron_candidates :: "string set \<Rightarrow> candidate list \<Rightarrow> candidate list \<times> nat" where
  "promote_constant_remove_neuron_candidates flagged cs =
     (if flagged = {} then (cs, 0) else update_each (promote flagged) cs)"

definition bias_folded_constant_neuron_uuids :: "candidate list \<Rightarrow> string set" where
  "bias_folded_constant_neuron_uuids cs =
     set (List.map_filter single_op_remove_neuron_uuid (filter (\<lambda>cand. cd_bias_fold cand \<noteq> None) cs))"

section \<open>Constant by structure\<close>

definition is_declared_constant :: "neuron_json \<Rightarrow> bool" where
  "is_declared_constant n \<longleftrightarrow> n_type n = ''constant''"

definition sources_fixed :: "creature_json \<Rightarrow> string set \<Rightarrow> string \<Rightarrow> bool" where
  "sources_fixed c const u \<longleftrightarrow>
     (\<forall>s \<in> set (c_synapses c). s_to s = u \<longrightarrow> f32_is_zero (s_weight s) \<or> s_from s \<in> const)"

definition hidden_uuids :: "creature_json \<Rightarrow> string list" where
  "hidden_uuids c = map n_uuid (filter (\<lambda>n. n_type n = ''hidden'') (c_neurons c))"

definition constant_pass :: "creature_json \<Rightarrow> string list \<Rightarrow> string set \<Rightarrow> string set \<times> bool" where
  "constant_pass c us const =
     fold (\<lambda>u (const, changed).
       if u \<in> const then (const, changed)
       else if sources_fixed c const u then (insert u const, True)
       else (const, changed)) us (const, False)"

fun constant_rounds :: "creature_json \<Rightarrow> nat \<Rightarrow> string set \<Rightarrow> string set" where
  "constant_rounds c 0 const = const"
| "constant_rounds c (Suc n) const =
     (case constant_pass c (hidden_uuids c) const of
        (const', changed) \<Rightarrow> if changed then constant_rounds c n const' else const')"

definition functionally_constant_neuron_uuids :: "creature_json \<Rightarrow> string list" where
  "functionally_constant_neuron_uuids c =
     (let declared = n_uuid ` set (filter is_declared_constant (c_neurons c));
          const = constant_rounds c (length (hidden_uuids c) + 1) declared
      in filter (\<lambda>u. u \<in> const) (hidden_uuids c))"

section \<open>The phase\<close>

record drought_inputs =
  di_failures :: u32
  di_disabled_passes :: u32
  di_threshold :: u32
  di_configured_factor :: f32

definition flagged_constants :: "creature_json \<Rightarrow> candidate list \<Rightarrow> string set" where
  "flagged_constants c cs =
     set (functionally_constant_neuron_uuids c) \<union> bias_folded_constant_neuron_uuids cs"

definition remove_neuron_phase ::
  "(f64 \<Rightarrow> f64) \<Rightarrow> creature_json \<Rightarrow> discover_record list \<Rightarrow> drought_inputs \<Rightarrow> candidate list \<Rightarrow> candidate list" where
  "remove_neuron_phase sqrt64 c rs di cs =
     (let honest = fst (apply_honest_remove_neuron_gain c cs);
          compensated = fst (apply_remove_neuron_compensation sqrt64 c rs honest);
          folded = fst (apply_constant_neuron_bias_fold c rs compensated);
          factor = remove_neuron_deprioritisation_factor (di_failures di) (di_disabled_passes di)
            (di_threshold di) (di_configured_factor di);
          demoted = fst (deprioritise_remove_neuron_candidates factor folded)
      in fst (promote_constant_remove_neuron_candidates (flagged_constants c demoted) demoted))"

section \<open>The loop finds every structural constant\<close>

text \<open>What it means to be constant by structure, without a loop.\<close>

inductive structurally_constant :: "creature_json \<Rightarrow> string \<Rightarrow> bool" for c where
  declared: "n \<in> set (c_neurons c) \<Longrightarrow> is_declared_constant n \<Longrightarrow> structurally_constant c (n_uuid n)"
| propagated: "u \<in> set (hidden_uuids c) \<Longrightarrow>
    (\<And>s. s \<in> set (c_synapses c) \<Longrightarrow> s_to s = u \<Longrightarrow>
       f32_is_zero (s_weight s) \<or> structurally_constant c (s_from s)) \<Longrightarrow>
    structurally_constant c u"

lemma constant_pass_props:
  assumes "constant_pass c us const = (const', changed)"
  shows "const \<subseteq> const'" "const' \<subseteq> const \<union> set us" "changed \<longleftrightarrow> const' \<noteq> const"
    "(\<forall>u \<in> const. structurally_constant c u) \<and> set us \<subseteq> set (hidden_uuids c) \<longrightarrow> (\<forall>u \<in> const'. structurally_constant c u)"
    "\<not> changed \<longrightarrow> (\<forall>u \<in> set us. sources_fixed c const u \<longrightarrow> u \<in> const)"
proof -
  define step where "step = (\<lambda>u (K, b). if u \<in> K then (K, b)
    else if sources_fixed c K u then (insert u K, True) else (K, b))"
  have cons: "fold step (u # us) (K, b) =
      (if u \<in> K \<or> \<not> sources_fixed c K u then fold step us (K, b) else fold step us (insert u K, True))" for u us K b
    by (simp add: step_def)
  have bounds: "K \<subseteq> fst (fold step us (K, b)) \<and> fst (fold step us (K, b)) \<subseteq> K \<union> set us" for us K b
  proof (induction us arbitrary: K b)
    case (Cons u us)
    show ?case using Cons.IH [of K b] Cons.IH [of "insert u K" True]
      unfolding cons by (cases "u \<in> K \<or> \<not> sources_fixed c K u") (simp_all only: if_True if_False list.set, blast+)
  qed simp
  have flag: "snd (fold step us (K, b)) \<longleftrightarrow> b \<or> fst (fold step us (K, b)) \<noteq> K" for us K b
  proof (induction us arbitrary: K b)
    case (Cons u us)
    show ?case
    proof (cases "u \<in> K \<or> \<not> sources_fixed c K u")
      case False
      then have "fst (fold step us (insert u K, True)) \<noteq> K" using bounds [of "insert u K" us True] by blast
      then show ?thesis using False Cons.IH [of "insert u K" True] by (simp only: cons if_False simp_thms)
    qed (use Cons.IH [of K b] in \<open>simp only: cons if_True\<close>)
  qed simp
  have sound: "\<forall>u \<in> fst (fold step us (K, b)). structurally_constant c u"
    if "\<forall>u \<in> K. structurally_constant c u" "set us \<subseteq> set (hidden_uuids c)" for us K b
    using that
  proof (induction us arbitrary: K b)
    case (Cons u us)
    have "structurally_constant c u" if "sources_fixed c K u"
      using that Cons.prems structurally_constant.propagated [of u c] by (auto simp: sources_fixed_def)
    note sc = this
    show ?case
    proof (cases "u \<in> K \<or> \<not> sources_fixed c K u")
      case True
      then have "fold step (u # us) (K, b) = fold step us (K, b)" by (simp only: cons if_True)
      moreover have "\<forall>u \<in> fst (fold step us (K, b)). structurally_constant c u"
        by (rule Cons.IH [OF Cons.prems(1)]) (use Cons.prems(2) in simp)
      ultimately show ?thesis by (simp only:)
    next
      case False
      then have "fold step (u # us) (K, b) = fold step us (insert u K, True)" by (simp only: cons if_False)
      moreover have "\<forall>u \<in> fst (fold step us (insert u K, True)). structurally_constant c u"
        by (rule Cons.IH) (use Cons.prems sc False in auto)
      ultimately show ?thesis by (simp only:)
    qed
  qed simp
  have complete: "\<forall>u \<in> set us. sources_fixed c K u \<longrightarrow> u \<in> K" if "fst (fold step us (K, b)) = K" for us K b
    using that
  proof (induction us arbitrary: b)
    case (Cons u us)
    show ?case
    proof (cases "u \<in> K \<or> \<not> sources_fixed c K u")
      case True
      then have "fst (fold step us (K, b)) = K" using Cons.prems by (simp only: cons if_True)
      then show ?thesis using Cons.IH True by (simp only: list.set) blast
    next
      case False
      then have "fst (fold step us (insert u K, True)) = K" using Cons.prems by (simp only: cons if_False)
      then show ?thesis using bounds [of "insert u K" us True] False by blast
    qed
  qed simp
  have "(const', changed) = fold step us (const, False)"
    using assms by (simp add: constant_pass_def step_def)
  from arg_cong [OF this, of fst] arg_cong [OF this, of snd]
  have r: "const' = fst (fold step us (const, False))" "changed = snd (fold step us (const, False))" by simp_all
  show "const \<subseteq> const'" "const' \<subseteq> const \<union> set us" using bounds [of const us False] r(1) by simp_all
  show "changed \<longleftrightarrow> const' \<noteq> const" using flag [of us const False] r by simp
  show "(\<forall>u \<in> const. structurally_constant c u) \<and> set us \<subseteq> set (hidden_uuids c) \<longrightarrow>
      (\<forall>u \<in> const'. structurally_constant c u)"
    using sound [of const us False] r(1) by simp
  show "\<not> changed \<longrightarrow> (\<forall>u \<in> set us. sources_fixed c const u \<longrightarrow> u \<in> const)" 
    using complete [of us const False] flag [of us const False] r by simp
qed

text \<open>Each round that changes anything takes a hidden neuron out of the rest, so the bound suffices.\<close>

lemma constant_rounds_props:
  assumes "card (set (hidden_uuids c) - const) < n" "\<forall>u \<in> const. structurally_constant c u"
  shows "const \<subseteq> constant_rounds c n const \<and> (\<forall>u \<in> constant_rounds c n const. structurally_constant c u) \<and>
    (\<forall>u \<in> set (hidden_uuids c). sources_fixed c (constant_rounds c n const) u \<longrightarrow> u \<in> constant_rounds c n const)"
  using assms
proof (induction n arbitrary: const)
  case (Suc n)
  obtain const' changed where p: "constant_pass c (hidden_uuids c) const = (const', changed)" by fastforce
  note props = constant_pass_props [OF p]
  show ?case
  proof (cases changed)
    case False
    then show ?thesis using p props Suc.prems by auto
  next
    case True
    then have "set (hidden_uuids c) - const' \<subset> set (hidden_uuids c) - const" using props(1-3) by blast
    then have "card (set (hidden_uuids c) - const') < card (set (hidden_uuids c) - const)"
      by (simp add: psubset_card_mono)
    then have "card (set (hidden_uuids c) - const') < n" using Suc.prems(1) by linarith
    moreover have "\<forall>u \<in> const'. structurally_constant c u" using props(4) Suc.prems(2) by blast
    ultimately show ?thesis using Suc.IH [of const'] p True props(1) by auto
  qed
qed simp

lemma functionally_constant_iff:
  "u \<in> set (functionally_constant_neuron_uuids c) \<longleftrightarrow> u \<in> set (hidden_uuids c) \<and> structurally_constant c u"
proof -
  define declared where "declared = n_uuid ` set (filter is_declared_constant (c_neurons c))"
  define K where "K = constant_rounds c (length (hidden_uuids c) + 1) declared"
  have "card (set (hidden_uuids c) - declared) \<le> card (set (hidden_uuids c))" by (simp add: card_mono)
  also have "\<dots> < length (hidden_uuids c) + 1" using card_length [of "hidden_uuids c"] by linarith
  finally have "card (set (hidden_uuids c) - declared) < length (hidden_uuids c) + 1" .
  moreover have "\<forall>u \<in> declared. structurally_constant c u"
    using structurally_constant.declared by (auto simp: declared_def)
  ultimately have K: "declared \<subseteq> K" "\<forall>u \<in> K. structurally_constant c u"
    "\<forall>u \<in> set (hidden_uuids c). sources_fixed c K u \<longrightarrow> u \<in> K"
    using constant_rounds_props unfolding K_def by blast+
  have "structurally_constant c u \<Longrightarrow> u \<in> K" for u
  proof (induction rule: structurally_constant.induct)
    case (declared n)
    then show ?case using K(1) by (auto simp: declared_def)
  next
    case (propagated u)
    then show ?case using K(3) by (auto simp: sources_fixed_def)
  qed
  then show ?thesis using K(2) by (auto simp: functionally_constant_neuron_uuids_def Let_def K_def declared_def)
qed

text \<open>
  An evaluation of the creature on one observation: every hidden neuron has the value its function
  gives to the contributions of its inbound synapses, and a declared constant has its fixed value.
  The functions are arbitrary, so scalar squashes and aggregates are both covered.
\<close>

definition evaluates ::
  "creature_json \<Rightarrow> (synapse_json \<Rightarrow> 'v \<Rightarrow> 'v) \<Rightarrow> (string \<Rightarrow> 'v list \<Rightarrow> 'v) \<Rightarrow> (string \<Rightarrow> 'v) \<Rightarrow> (string \<Rightarrow> 'v) \<Rightarrow> bool" where
  "evaluates c contrib out fixed act \<longleftrightarrow>
     (\<forall>u \<in> set (hidden_uuids c).
        act u = out u (map (\<lambda>s. contrib s (act (s_from s))) (filter (\<lambda>s. s_to s = u) (c_synapses c)))) \<and>
     (\<forall>n \<in> set (c_neurons c). is_declared_constant n \<longrightarrow> act (n_uuid n) = fixed (n_uuid n))"

definition zero_weights_vanish :: "(synapse_json \<Rightarrow> 'v \<Rightarrow> 'v) \<Rightarrow> bool" where
  "zero_weights_vanish contrib \<longleftrightarrow> (\<forall>s v v'. f32_is_zero (s_weight s) \<longrightarrow> contrib s v = contrib s v')"

text \<open>
  C38. The neurons flagged as constant by structure are exactly the hidden ones whose every
  incoming synapse has weight zero or comes from a constant, however long the chain (the bound of
  the loop is enough), and such a neuron has the same value in any two evaluations of the creature,
  whatever its functions: removing it with its value folded away loses no information.
\<close>

theorem structural_constants_exact:
  assumes "zero_weights_vanish contrib" "evaluates c contrib out fixed act" "evaluates c contrib out fixed act'"
  shows "set (functionally_constant_neuron_uuids c) = {u \<in> set (hidden_uuids c). structurally_constant c u} \<and>
    (\<forall>u \<in> set (functionally_constant_neuron_uuids c). act u = act' u)"
proof -
  have "structurally_constant c u \<Longrightarrow> act u = act' u" for u
  proof (induction rule: structurally_constant.induct)
    case (declared n)
    then show ?case using assms(2,3) by (simp add: evaluates_def)
  next
    case (propagated u)
    have "contrib s (act (s_from s)) = contrib s (act' (s_from s))"
      if "s \<in> set (filter (\<lambda>s. s_to s = u) (c_synapses c))" for s
      using that propagated.IH [of s] assms(1) unfolding zero_weights_vanish_def by auto
    then have "map (\<lambda>s. contrib s (act (s_from s))) (filter (\<lambda>s. s_to s = u) (c_synapses c)) =
        map (\<lambda>s. contrib s (act' (s_from s))) (filter (\<lambda>s. s_to s = u) (c_synapses c))"
      by (rule map_cong [OF refl])
    then show ?case using assms(2,3) propagated.hyps(1) unfolding evaluates_def by metis
  qed
  then show ?thesis using functionally_constant_iff by blast
qed

definition constant_chain :: creature_json where
  "constant_chain = \<lparr>c_neurons = [
       \<lparr>n_uuid = ''c'', n_type = ''constant'', n_squash = ''IDENTITY'', n_bias = f32_zero\<rparr>,
       \<lparr>n_uuid = ''h'', n_type = ''hidden'', n_squash = ''IDENTITY'', n_bias = f32_zero\<rparr>],
     c_synapses = [
       \<lparr>s_from = ''i'', s_to = ''h'', s_weight = f32_zero, s_type = None\<rparr>,
       \<lparr>s_from = ''c'', s_to = ''h'', s_weight = f32_one, s_type = None\<rparr>],
     c_input = 1, c_output = 0\<rparr>"

theorem structural_constants_exact_witness:
  "set (functionally_constant_neuron_uuids constant_chain) =
     {u \<in> set (hidden_uuids constant_chain). structurally_constant constant_chain u}"
proof -
  define contrib :: "synapse_json \<Rightarrow> nat \<Rightarrow> nat" where
    "contrib = (\<lambda>s v. if f32_is_zero (s_weight s) then 0 else v)"
  have "f32_is_zero f32_zero" "\<not> f32_is_zero f32_one"
    by (simp_all add: f32_is_zero_def f32_magnitude_def f32_zero_def f32_one_def)
  then have "evaluates constant_chain contrib (\<lambda>_. sum_list) (\<lambda>_. 5) (\<lambda>u. if u = ''i'' then k else 5)" for k
    by (auto simp: evaluates_def constant_chain_def hidden_uuids_def is_declared_constant_def contrib_def)
  from structural_constants_exact [OF _ this [of 1] this [of 2]] show ?thesis
    by (simp add: zero_weights_vanish_def contrib_def)
qed

section \<open>What the phase leaves\<close>

definition changed_by :: "('a \<Rightarrow> 'a option) \<Rightarrow> 'a \<Rightarrow> 'a" where
  "changed_by f x = (case f x of None \<Rightarrow> x | Some y \<Rightarrow> y)"

lemma update_each_map: "fst (update_each f xs) = map (changed_by f) xs"
  by (simp add: update_each_def changed_by_def)

lemmas phase_steps = honest_gain_def compensate_def attach_fold_def demote_def promote_def

lemma single_op_changed:
  "cd_operations (changed_by (honest_gain c) x) = cd_operations x"
  "cd_operations (changed_by (compensate sqrt64 c rs) x) = cd_operations x"
  "cd_operations (changed_by (attach_fold c rs) x) = cd_operations x"
  "cd_operations (changed_by (demote factor) x) = cd_operations x"
  "cd_operations (changed_by (promote flagged) x) = cd_operations x"
  by (auto simp: changed_by_def phase_steps bind_eq_Some_conv split: option.splits if_splits)

lemma not_single_op:
  assumes "single_op_remove_neuron_uuid x = None"
  shows "changed_by (honest_gain c) x = x" "changed_by (compensate sqrt64 c rs) x = x"
    "changed_by (attach_fold c rs) x = x" "changed_by (demote factor) x = x" "changed_by (promote flagged) x = x"
  using assms by (auto simp: changed_by_def phase_steps)

lemma remedies_kept:
  "cd_compensation (changed_by (honest_gain c) x) = cd_compensation x"
  "cd_bias_fold (changed_by (honest_gain c) x) = cd_bias_fold x"
  "cd_bias_fold (changed_by (compensate sqrt64 c rs) x) = cd_bias_fold x"
  "cd_compensation (changed_by (attach_fold c rs) x) = cd_compensation x"
  "cd_compensation (changed_by (demote factor) x) = cd_compensation x"
  "cd_bias_fold (changed_by (demote factor) x) = cd_bias_fold x"
  "cd_compensation (changed_by (promote flagged) x) = cd_compensation x"
  "cd_bias_fold (changed_by (promote flagged) x) = cd_bias_fold x"
  by (auto simp: changed_by_def phase_steps bind_eq_Some_conv split: option.splits if_splits)

lemma single_op_cong: "cd_operations x = cd_operations y \<Longrightarrow> single_op_remove_neuron_uuid x = single_op_remove_neuron_uuid y"
  by (simp add: single_op_remove_neuron_uuid_def)

text \<open>What the phase may do to one candidate.\<close>

definition remedied :: "creature_json \<Rightarrow> candidate \<Rightarrow> candidate \<Rightarrow> bool" where
  "remedied c old new \<longleftrightarrow>
     cd_operations new = cd_operations old \<and>
     (case single_op_remove_neuron_uuid old of
        None \<Rightarrow> new = old
      | Some u \<Rightarrow>
          (cd_compensation old = None \<and> cd_bias_fold old = None \<longrightarrow>
             cd_compensation new = None \<or> cd_bias_fold new = None) \<and>
          (cd_bias_fold new \<noteq> None \<or> u \<in> set (functionally_constant_neuron_uuids c) \<longrightarrow>
             cd_gain new = constant_neuron_priority_gain))"

text \<open>
  C39. The phase of the analysis that treats removals leaves every candidate its operations and
  its place, changes nothing but sole removals of a neuron, gives such a candidate at most one
  remedy (the fold of a constant or the redistribution of the weight, never both), and gives the
  priority gain to every removal of a structural constant or with a fold.
\<close>

theorem remove_neuron_phase_remedies:
  "list_all2 (remedied c) cs (remove_neuron_phase sqrt64 c rs di cs)"
proof -
  define factor where "factor = remove_neuron_deprioritisation_factor (di_failures di) (di_disabled_passes di)
            (di_threshold di) (di_configured_factor di)"
  define f where "f = (\<lambda>x. changed_by (attach_fold c rs) (changed_by (compensate sqrt64 c rs) (changed_by (honest_gain c) x)))"
  define g where "g = (if \<not> f32_is_finite factor \<or> f32_greater_eq factor neutral_deprioritisation_factor then id
    else changed_by (demote factor))"
  define F where "F = flagged_constants c (map (g \<circ> f) cs)"
  define h where "h = (if F = {} then id else changed_by (promote F))"
  have phase: "remove_neuron_phase sqrt64 c rs di cs = map (h \<circ> g \<circ> f) cs"
    by (simp add: remove_neuron_phase_def apply_honest_remove_neuron_gain_def apply_remove_neuron_compensation_def
        apply_constant_neuron_bias_fold_def deprioritise_remove_neuron_candidates_def
        promote_constant_remove_neuron_candidates_def update_each_map Let_def f_def g_def h_def F_def comp_def
        flip: factor_def)
  have ops: "cd_operations (f x) = cd_operations x" "cd_operations (g x) = cd_operations x"
    "cd_operations (h x) = cd_operations x" for x
    by (simp_all add: f_def g_def h_def single_op_changed)
  have remedies: "cd_compensation (h (g x)) = cd_compensation x" "cd_bias_fold (h (g x)) = cd_bias_fold x" for x
    by (simp_all add: g_def h_def remedies_kept)
  have "remedied c x (h (g (f x)))" if x: "x \<in> set cs" for x
  proof (cases "single_op_remove_neuron_uuid x")
    case None
    then have "h (g (f x)) = x" by (simp add: f_def g_def h_def not_single_op)
    then show ?thesis using None by (simp add: remedied_def)
  next
    case (Some u)
    have single: "single_op_remove_neuron_uuid y = Some u" if "cd_operations y = cd_operations x" for y
      using Some single_op_cong [OF that] by simp
    have one: "cd_compensation (f x) = None \<or> cd_bias_fold (f x) = None"
      if "cd_compensation x = None" "cd_bias_fold x = None"
    proof (cases "accepted_constant_bias_fold c rs u = None")
      case True
      have "changed_by (attach_fold c rs) y = y" if "cd_operations y = cd_operations x" for y
        using single [OF that] True by (simp add: changed_by_def attach_fold_def)
      then show ?thesis using that by (simp add: f_def single_op_changed remedies_kept)
    next
      case False
      have "changed_by (compensate sqrt64 c rs) y = y" if "cd_operations y = cd_operations x" for y
        using single [OF that] False by (simp add: changed_by_def compensate_def)
      then show ?thesis using that by (simp add: f_def single_op_changed remedies_kept)
    qed
    have "u \<in> F" if "cd_bias_fold (f x) \<noteq> None \<or> u \<in> set (functionally_constant_neuron_uuids c)"
    proof -
      have "cd_bias_fold (g (f x)) = cd_bias_fold (f x)" by (simp add: g_def remedies_kept)
      moreover have "single_op_remove_neuron_uuid (g (f x)) = Some u" by (rule single) (simp add: ops)
      ultimately show ?thesis using that x
        by (force simp: F_def flagged_constants_def bias_folded_constant_neuron_uuids_def map_filter_def)
    qed
    moreover have "single_op_remove_neuron_uuid (g (f x)) = Some u" by (rule single) (simp add: ops)
    ultimately have "cd_gain (h (g (f x))) = constant_neuron_priority_gain"
      if "cd_bias_fold (f x) \<noteq> None \<or> u \<in> set (functionally_constant_neuron_uuids c)"
      using that by (auto simp: h_def changed_by_def promote_def)
    then show ?thesis using Some one by (auto simp: remedied_def ops remedies)
  qed
  then show ?thesis by (simp add: phase list_all2_conv_all_nth)
qed

section \<open>A recorded NaN passes the gate\<close>

definition nan_record :: discover_record where
  "nan_record = \<lparr>r_obs = 0, r_uuid = ''h'', r_value = None, r_activation = f32_nan, r_errors = []\<rparr>"

definition fed_output :: creature_json where
  "fed_output = \<lparr>c_neurons = [
       \<lparr>n_uuid = ''h'', n_type = ''hidden'', n_squash = ''IDENTITY'', n_bias = f32_zero\<rparr>,
       \<lparr>n_uuid = ''o'', n_type = ''output'', n_squash = ''IDENTITY'', n_bias = f32_zero\<rparr>],
     c_synapses = [\<lparr>s_from = ''h'', s_to = ''o'', s_weight = f32_one, s_type = None\<rparr>],
     c_input = 1, c_output = 1\<rparr>"

lemma number_nan: "f64_number f64_nan = Nan" "f64_number (f64_neg f64_nan) = Nan" "f64_abs f64_nan = f64_nan"
    "f64_is_nan f64_nan" "\<not> f64_is_nan f64_zero"
  by (simp_all add: f64_number_def number_of_bits_def f64_nan_def f64_neg_def f64_abs_def f64_magnitude_def
      f64_is_nan_def f64_zero_def)

lemma exact_nan: "exact_add Nan x = Exact_nan" "exact_add x Nan = Exact_nan"
    "exact_mul one Nan x = Exact_nan" "exact_mul one x Nan = Exact_nan" "exact_div one Nan x = Exact_nan"
  by (cases x; simp)+

lemma nan_operands:
  "f64_add f64_nan x = f64_nan" "f64_add x f64_nan = f64_nan" "f64_sub f64_nan x = f64_nan" "f64_sub x f64_nan = f64_nan"
  "f64_mul f64_nan x = f64_nan" "f64_mul x f64_nan = f64_nan" "f64_div f64_nan x = f64_nan"
  by (simp_all add: f64_add_def f64_sub_def f64_mul_def f64_div_def number_nan exact_nan)

lemma f64_of_nan: "f64_of_f32 f32_nan = f64_nan"
  by (simp add: f64_of_f32_def f32_number_def number_of_bits_def f32_nan_def f32_magnitude_def)

text \<open>
  The residual gate ignores deviations that are no numbers: a neuron whose recording holds a NaN is
  accepted as constant, and its fold carries NaN bias deltas.
\<close>

lemma nan_activation_accepted:
  "case accepted_constant_bias_fold fed_output [nan_record] ''h'' of
     None \<Rightarrow> False
   | Some outcome \<Rightarrow> f64_is_nan (bo_constant outcome) \<and> list_all (\<lambda>(u, d). f64_is_nan d) (bo_targets outcome)"
proof -
  have activations: "neuron_activations [nan_record] ''h'' = [f64_nan]"
    by (simp add: neuron_activations_def records_of_def nan_record_def f64_of_nan)
  obtain stats where stats: "covariance_from_values [f64_nan] = Some stats" "ac_candidate_mean stats = f64_nan"
    by (simp add: covariance_from_values_def covariance_from_pairs_def add_pair_def no_moments_def nan_operands Let_def)
  have "f64_max f64_zero f64_nan = f64_zero" by (simp add: f64_max_def number_nan)
  moreover have "f64_mul (f64_abs (f64_of_f32 f32_one)) f64_zero = f64_zero"
  proof -
    have "f32_units_of_one * 2 ^ 925 = units 52 0x3FF0000000000000" by (simp add: units_def)
    then have "f64_of_f32 f32_one = f64_one"
      by (simp only: f64_of_f32_def f32_number_one number.case f64_round.simps One_nat_def round_bits_units)
        (simp add: f64_pack_def f64_one_def)
    moreover have "\<exists>m. f64_number (f64_abs f64_one) = Finite False m"
      by (simp add: f64_number_def number_of_bits_def f64_abs_def f64_magnitude_def f64_one_def)
    moreover have "f64_number f64_zero = Finite False 0"
      by (simp add: f64_number_def number_of_bits_def f64_magnitude_def f64_zero_def)
    ultimately show ?thesis
      by (auto simp: f64_mul_def round_bits_def round_div_def shift_of.simps f64_pack_def f64_zero_def)
  qed
  moreover have "f64_less_eq f64_zero bias_fold_gate_tolerance"
    by (simp add: f64_less_eq_def f64_zero_def bias_fold_gate_tolerance_def f64_magnitude_def f64_rank_def)
  ultimately show ?thesis
    by (simp add: accepted_constant_bias_fold_def evaluate_constant_neuron_bias_fold_def activations stats nan_operands
        outgoing_of_def fed_output_def Let_def number_nan f64_max_def)
qed

end
