(* ===== verification/Merge.thy ===== *)
theory Merge
  imports Reduction Scores
begin

text \<open>
  Merging redundant neurons (\<open>analysis/merge_redundant_neuron.rs\<close>): pairs of hidden neurons whose
  recorded activations correlate, and the operations that fold one of a pair into the other. The
  activations of a neuron are a hash table, whose order of iteration is the argument \<open>hash_order\<close>; the comment of a candidate is
  the argument \<open>describe\<close>.
\<close>

section \<open>Detection\<close>

definition merge_correlation_threshold :: f64 where "merge_correlation_threshold = 0x3FEFF7CED916872B"
definition merge_base_improvement :: f32 where "merge_base_improvement = 0x3B449BA6"
definition min_discovery_sample_count :: nat where "min_discovery_sample_count = 20"
definition f64_epsilon :: f64 where "f64_epsilon = 0x3CB0000000000000"

record redundant_pair =
  rp_remove :: string
  rp_keep :: string
  rp_correlation :: f64
  rp_scale :: f64
  rp_offset :: f64
  rp_sample_count :: nat
  rp_max_residual :: f64
  rp_remove_impact :: f64
  rp_keep_impact :: f64

definition activation_map :: "discover_record list \<Rightarrow> activation_by_obs" where
  "activation_map rs = fold (\<lambda>r m. AList.update (r_obs r) (r_activation r) m) rs []"

definition eligible_activation_maps ::
  "creature_json \<Rightarrow> (string \<times> discover_record list) list \<Rightarrow> (string \<times> activation_by_obs) list" where
  "eligible_activation_maps c recordings =
     (let records_map = fold (\<lambda>(u, rs) m. m(u \<mapsto> rs)) recordings Map.empty in
      sort_key fst (List.map_filter (\<lambda>u.
        (case records_map u of
           None \<Rightarrow> None
         | Some rs \<Rightarrow> if length rs < min_discovery_sample_count then None else Some (u, activation_map rs)))
        (hidden_uuids c)))"

definition sum_f64 :: "f64 list \<Rightarrow> f64" where
  "sum_f64 xs = fold (\<lambda>x acc. f64_add acc x) xs f64_zero"

definition max_f64 :: "f64 list \<Rightarrow> f64" where
  "max_f64 xs = fold (\<lambda>x acc. f64_max acc x) xs f64_zero"

definition outgoing_magnitudes :: "creature_json \<Rightarrow> string \<Rightarrow> f64 list" where
  "outgoing_magnitudes c u = map (\<lambda>s. f64_abs (f64_of_f32 (s_weight s))) (outgoing_of c u)"

definition outgoing_weight_magnitude :: "creature_json \<Rightarrow> string \<Rightarrow> f64" where
  "outgoing_weight_magnitude c u = sum_f64 (outgoing_magnitudes c u)"

definition downstream_impact ::
  "(activation_by_obs \<Rightarrow> activation_by_obs) \<Rightarrow> creature_json \<Rightarrow> string \<Rightarrow> activation_by_obs \<Rightarrow> f64" where
  "downstream_impact hash_order c u acts =
     (let mean_abs = (if acts = [] then f64_zero
        else f64_div (sum_f64 (map (\<lambda>p. f64_of_f32 (f32_abs (snd p))) (hash_order acts))) (f64_of_nat (length acts)))
      in f64_mul mean_abs (outgoing_weight_magnitude c u))"

definition directly_connected :: "creature_json \<Rightarrow> string \<Rightarrow> string \<Rightarrow> bool" where
  "directly_connected c a b \<longleftrightarrow>
     (\<exists>s \<in> set (c_synapses c). (s_from s = a \<and> s_to s = b) \<or> (s_from s = b \<and> s_to s = a))"

definition paired ::
  "(activation_by_obs \<Rightarrow> activation_by_obs) \<Rightarrow> activation_by_obs \<Rightarrow> activation_by_obs \<Rightarrow> (f64 \<times> f64) list" where
  "paired hash_order map_a map_b =
     List.map_filter (\<lambda>(obs, a). map_option (\<lambda>b. (f64_of_f32 a, f64_of_f32 b)) (map_of map_b obs)) (hash_order map_a)"

text \<open>The fit of the removed neuron over the kept one.\<close>

definition fit_pair ::
  "creature_json \<Rightarrow> string \<Rightarrow> string \<Rightarrow> f64 \<Rightarrow> f64 \<Rightarrow> f64 \<Rightarrow> (f64 \<times> f64) list \<Rightarrow> redundant_pair option" where
  "fit_pair c remove keep remove_impact keep_impact corr oriented =
     Option.bind (covariance_from_pairs oriented) (\<lambda>fit.
       if f64_less_eq (ac_survivor_variance fit) variance_epsilon then None
       else
         (let scale = f64_div (ac_covariance fit) (ac_survivor_variance fit);
              offset = f64_sub (ac_candidate_mean fit) (f64_mul scale (ac_survivor_mean fit));
              max_dev = max_f64 (map (\<lambda>(r, k). f64_abs (f64_sub r (f64_add (f64_mul scale k) offset))) oriented);
              max_weight = max_f64 (outgoing_magnitudes c remove)
          in Some \<lparr>rp_remove = remove, rp_keep = keep, rp_correlation = corr, rp_scale = scale, rp_offset = offset,
               rp_sample_count = length oriented, rp_max_residual = f64_mul max_dev max_weight,
               rp_remove_impact = remove_impact, rp_keep_impact = keep_impact\<rparr>))"

definition score_pair ::
  "(f64 \<Rightarrow> f64) \<Rightarrow> (activation_by_obs \<Rightarrow> activation_by_obs) \<Rightarrow> creature_json \<Rightarrow> f64
     \<Rightarrow> (string \<times> activation_by_obs) \<times> (string \<times> activation_by_obs) \<Rightarrow> redundant_pair option" where
  "score_pair sqrt64 hash_order c threshold = (\<lambda>((a, map_a), (b, map_b)).
     (let pairs = paired hash_order map_a map_b in
      if length pairs < min_discovery_sample_count then None
      else Option.bind (covariance_from_pairs pairs) (\<lambda>stats.
        (let corr = correlation sqrt64 stats in
         if f64_less corr threshold \<or> directly_connected c a b then None
         else
           (let impact_a = downstream_impact hash_order c a map_a;
                impact_b = downstream_impact hash_order c b map_b
            in if f64_less_eq impact_a impact_b
               then fit_pair c a b impact_a impact_b corr pairs
               else fit_pair c b a impact_b impact_a corr (if b = a then pairs else map prod.swap pairs))))))"

fun all_pairs :: "'a list \<Rightarrow> ('a \<times> 'a) list" where
  "all_pairs [] = []"
| "all_pairs (x # xs) = map (Pair x) xs @ all_pairs xs"

text \<open>\<open>total_cmp\<close> of \<open>f64\<close>.\<close>

definition f64_total_key :: "f64 \<Rightarrow> int" where
  "f64_total_key x = (if bit x 63 then - int (unat (f64_magnitude x)) - 1 else int (unat (f64_magnitude x)))"

fun select_disjoint :: "string set \<Rightarrow> redundant_pair list \<Rightarrow> redundant_pair list" where
  "select_disjoint used [] = []"
| "select_disjoint used (p # ps) =
     (if rp_remove p \<in> used \<or> rp_keep p \<in> used then select_disjoint used ps
      else p # select_disjoint (insert (rp_keep p) (insert (rp_remove p) used)) ps)"

definition detect_redundant_neuron_pairs_with_threshold ::
  "(f64 \<Rightarrow> f64) \<Rightarrow> (activation_by_obs \<Rightarrow> activation_by_obs) \<Rightarrow> creature_json
     \<Rightarrow> (string \<times> discover_record list) list \<Rightarrow> f64 \<Rightarrow> redundant_pair list" where
  "detect_redundant_neuron_pairs_with_threshold sqrt64 hash_order c recordings threshold =
     (let maps = eligible_activation_maps c recordings in
      if length maps < 2 then []
      else select_disjoint {}
        (sort_key (\<lambda>p. - f64_total_key (rp_correlation p))
          (List.map_filter (score_pair sqrt64 hash_order c threshold) (all_pairs maps))))"

definition detect_redundant_neuron_pairs ::
  "(f64 \<Rightarrow> f64) \<Rightarrow> (activation_by_obs \<Rightarrow> activation_by_obs) \<Rightarrow> creature_json
     \<Rightarrow> (string \<times> discover_record list) list \<Rightarrow> redundant_pair list" where
  "detect_redundant_neuron_pairs sqrt64 hash_order c recordings =
     detect_redundant_neuron_pairs_with_threshold sqrt64 hash_order c recordings merge_correlation_threshold"

section \<open>Conversion\<close>

definition weight_of :: "creature_json \<Rightarrow> string \<times> string \<rightharpoonup> f32" where
  "weight_of c = fold (\<lambda>s m. m((s_from s, s_to s) \<mapsto> s_weight s)) (c_synapses c) Map.empty"

definition merge_targets :: "creature_json \<Rightarrow> string \<Rightarrow> string list" where
  "merge_targets c u = remdups (sort (map s_to (outgoing_of c u)))"

text \<open>What a target gains: the products of the factor with the weights of all synapses to it.\<close>

definition target_delta :: "creature_json \<Rightarrow> string \<Rightarrow> f64 \<Rightarrow> string \<Rightarrow> f64" where
  "target_delta c u factor target =
     sum_f64 (map (\<lambda>s. f64_mul factor (f64_of_f32 (s_weight s))) (filter (\<lambda>s. s_to s = target) (outgoing_of c u)))"

definition redirect_op :: "creature_json \<Rightarrow> redundant_pair \<Rightarrow> string \<Rightarrow> structural_op" where
  "redirect_op c p target =
     (let delta = target_delta c (rp_remove p) (rp_scale p) target in
      case weight_of c (rp_keep p, target) of
        Some existing \<Rightarrow> Set_Weight (rp_keep p) target (f32_of_f64 (f64_add (f64_of_f32 existing) delta))
      | None \<Rightarrow> Add_Synapse (rp_keep p) target (f32_of_f64 delta))"

definition bias_op :: "creature_json \<Rightarrow> redundant_pair \<Rightarrow> string \<Rightarrow> structural_op option" where
  "bias_op c p target =
     (let delta = target_delta c (rp_remove p) (rp_offset p) target in
      if f64_less_eq (f64_abs delta) f64_epsilon then None
      else Some (Set_Bias target (f32_of_f64 (f64_add
        (f64_of_f32 (unwrap_or f32_zero (last_of n_bias c target))) delta))))"

definition merge_gain :: "redundant_pair \<Rightarrow> f32" where
  "merge_gain p =
     (let severity = f64_clamp f64_zero f64_one
        (f64_div (f64_sub (rp_correlation p) merge_correlation_threshold) (f64_sub f64_one merge_correlation_threshold))
      in f32_mul merge_base_improvement (f32_add f32_half (f32_mul f32_half (f32_of_f64 severity))))"

definition merge_candidate :: "(redundant_pair \<Rightarrow> string) \<Rightarrow> creature_json \<Rightarrow> redundant_pair \<Rightarrow> candidate" where
  "merge_candidate describe c p =
     (let targets = merge_targets c (rp_remove p) in
      \<lparr>cd_operations = map (redirect_op c p) targets @ List.map_filter (bias_op c p) targets @
         [Remove_Neuron (rp_remove p)],
       cd_gain = merge_gain p, cd_comment = Some (describe p), cd_compensation = None,
       cd_bias_fold = None\<rparr>)"

definition redundant_pairs_to_coordinated_candidates ::
  "(redundant_pair \<Rightarrow> string) \<Rightarrow> redundant_pair list \<Rightarrow> creature_json \<Rightarrow> candidate list" where
  "redundant_pairs_to_coordinated_candidates describe ps c =
     sort_key (\<lambda>cand. Descending (cd_gain cand)) (map (merge_candidate describe c) ps)"

section \<open>The pairs are disjoint\<close>

definition pair_uuids :: "redundant_pair \<Rightarrow> string set" where
  "pair_uuids p = {rp_remove p, rp_keep p}"

lemma select_disjoint_props:
  "set (select_disjoint used ps) \<subseteq> {p \<in> set ps. pair_uuids p \<inter> used = {}} \<and>
   sorted_wrt (\<lambda>p q. pair_uuids p \<inter> pair_uuids q = {}) (select_disjoint used ps)"
proof (induction ps arbitrary: used)
  case (Cons p ps)
  show ?case
  proof (cases "rp_remove p \<in> used \<or> rp_keep p \<in> used")
    case True
    then show ?thesis using Cons.IH [of used] by auto
  next
    case False
    have "q \<in> set ps \<and> pair_uuids q \<inter> insert (rp_keep p) (insert (rp_remove p) used) = {}"
      if "q \<in> set (select_disjoint (insert (rp_keep p) (insert (rp_remove p) used)) ps)" for q
      using Cons.IH [of "insert (rp_keep p) (insert (rp_remove p) used)"] that by blast
    then show ?thesis using False Cons.IH [of "insert (rp_keep p) (insert (rp_remove p) used)"]
      by (auto simp: pair_uuids_def)
  qed
qed simp

text \<open>
  What detection guarantees of a pair. The test of the correlation is passed by every value that is
  not less than the threshold, and so also by a NaN.
\<close>

definition mergeable :: "creature_json \<Rightarrow> f64 \<Rightarrow> redundant_pair \<Rightarrow> bool" where
  "mergeable c threshold p \<longleftrightarrow>
     rp_remove p \<in> set (hidden_uuids c) \<and> rp_keep p \<in> set (hidden_uuids c) \<and>
     \<not> directly_connected c (rp_remove p) (rp_keep p) \<and>
     (f64_less_eq threshold (rp_correlation p) \<or> f64_is_nan (rp_correlation p)) \<and> min_discovery_sample_count \<le> rp_sample_count p"

lemma fit_pair_Some:
  "fit_pair c remove keep ri ki corr oriented = Some p \<Longrightarrow>
     rp_remove p = remove \<and> rp_keep p = keep \<and> rp_correlation p = corr \<and> rp_sample_count p = length oriented"
  by (auto simp: fit_pair_def bind_eq_Some_conv Let_def split: if_splits)

lemma directly_connected_commute: "directly_connected c a b \<longleftrightarrow> directly_connected c b a"
  by (auto simp: directly_connected_def)

lemma not_less_threshold:
  "\<not> f64_less x merge_correlation_threshold \<longleftrightarrow>
     f64_less_eq merge_correlation_threshold x \<or> f64_is_nan x"
proof -
  have "f64_magnitude merge_correlation_threshold \<le> 0x7FF0000000000000"
    by (simp add: merge_correlation_threshold_def f64_magnitude_def)
  then show ?thesis by (auto simp: f64_less_def f64_less_eq_def f64_is_nan_def not_less not_le)
qed

lemma score_pair_Some:
  assumes "score_pair sqrt64 hash_order c merge_correlation_threshold ((a, map_a), (b, map_b)) = Some p"
    "a \<in> set (hidden_uuids c)" "b \<in> set (hidden_uuids c)"
  shows "mergeable c merge_correlation_threshold p"
  using assms directly_connected_commute [of c a b]
  unfolding mergeable_def not_less_threshold [symmetric]
  by (auto simp: score_pair_def bind_eq_Some_conv Let_def dest!: fit_pair_Some split: if_splits)

lemma all_pairs_subset: "set (all_pairs xs) \<subseteq> set xs \<times> set xs"
  by (induction xs) auto

lemma eligible_hidden: "(u, m) \<in> set (eligible_activation_maps c recordings) \<Longrightarrow> u \<in> set (hidden_uuids c)"
  by (auto simp: eligible_activation_maps_def Let_def map_filter_def split: option.splits if_splits)

section \<open>The operations of a merge\<close>

definition op_source :: "structural_op \<Rightarrow> (string \<times> string) option" where
  "op_source op =
     (case op of Set_Weight u v _ \<Rightarrow> Some (u, v) | Add_Synapse u v _ \<Rightarrow> Some (u, v) | _ \<Rightarrow> None)"

text \<open>
  Every former target of the removed neuron gets exactly one edge operation from the kept one,
  which sets the weight where the edge exists and adds it where it does not, and none is an edge
  of a neuron to itself; the removal comes last.
\<close>

definition folds_into :: "creature_json \<Rightarrow> redundant_pair \<Rightarrow> candidate \<Rightarrow> bool" where
  "folds_into c p cand \<longleftrightarrow>
     last (cd_operations cand) = Remove_Neuron (rp_remove p) \<and>
     distinct (List.map_filter op_source (cd_operations cand)) \<and>
     set (List.map_filter op_source (cd_operations cand)) =
       {(rp_keep p, s_to s) | s. s \<in> set (c_synapses c) \<and> s_from s = rp_remove p} \<and>
     (\<forall>(u, v) \<in> set (List.map_filter op_source (cd_operations cand)). u \<noteq> v) \<and>
     (\<forall>op \<in> set (cd_operations cand). case op of
        Set_Weight u v _ \<Rightarrow> \<exists>s \<in> set (c_synapses c). s_from s = u \<and> s_to s = v
      | Add_Synapse u v _ \<Rightarrow> \<forall>s \<in> set (c_synapses c). \<not> (s_from s = u \<and> s_to s = v)
      | _ \<Rightarrow> True)"

lemma weight_of_None: "weight_of c (u, v) = None \<longleftrightarrow> (\<forall>s \<in> set (c_synapses c). \<not> (s_from s = u \<and> s_to s = v))"
proof -
  have "fold (\<lambda>s m. m((s_from s, s_to s) \<mapsto> s_weight s)) ss m (u, v) = None \<longleftrightarrow>
      m (u, v) = None \<and> (\<forall>s \<in> set ss. \<not> (s_from s = u \<and> s_to s = v))" for ss and m :: "string \<times> string \<rightharpoonup> f32"
    by (induction ss arbitrary: m) (auto simp: fun_upd_def)
  from this [of "c_synapses c" Map.empty] show ?thesis by (simp add: weight_of_def)
qed

lemma op_source_redirect: "op_source (redirect_op c p target) = Some (rp_keep p, target)"
  by (simp add: redirect_op_def op_source_def Let_def split: option.split)

lemma op_source_bias: "bias_op c p target = Some op \<Longrightarrow> op_source op = None"
  by (auto simp: bias_op_def op_source_def Let_def split: if_splits)

lemma merge_edges:
  "List.map_filter op_source (cd_operations (merge_candidate describe c p)) =
     map (Pair (rp_keep p)) (merge_targets c (rp_remove p))"
proof -
  have append: "List.map_filter f (xs @ ys) = List.map_filter f xs @ List.map_filter f ys"
    for f :: "structural_op \<Rightarrow> (string \<times> string) option" and xs ys
    by (simp add: map_filter_def)
  have "List.map_filter op_source (map (redirect_op c p) ts) = map (Pair (rp_keep p)) ts" for ts
    by (induction ts) (auto simp: op_source_redirect)
  moreover have "List.map_filter op_source (List.map_filter (bias_op c p) ts) = []" for ts
    by (induction ts) (auto simp: op_source_bias split: option.split)
  ultimately show ?thesis by (simp add: merge_candidate_def Let_def append op_source_def)
qed

lemma merge_candidate_folds:
  assumes "\<not> directly_connected c (rp_remove p) (rp_keep p)"
  shows "folds_into c p (merge_candidate describe c p)"
proof -
  have edges: "set (merge_targets c (rp_remove p)) = {s_to s | s. s \<in> set (c_synapses c) \<and> s_from s = rp_remove p}"
    by (auto simp: merge_targets_def outgoing_of_def)
  have "rp_keep p \<noteq> s_to s" if "s \<in> set (c_synapses c)" "s_from s = rp_remove p" for s
    using assms that by (auto simp: directly_connected_def)
  then have self: "\<forall>(u, v) \<in> set (map (Pair (rp_keep p)) (merge_targets c (rp_remove p))). u \<noteq> v"
    using edges by auto
  have ops: "case op of
        Set_Weight u v _ \<Rightarrow> \<exists>s \<in> set (c_synapses c). s_from s = u \<and> s_to s = v
      | Add_Synapse u v _ \<Rightarrow> \<forall>s \<in> set (c_synapses c). \<not> (s_from s = u \<and> s_to s = v)
      | _ \<Rightarrow> True" if "op \<in> set (cd_operations (merge_candidate describe c p))" for op
  proof -
    consider target where "op = redirect_op c p target" | target where "bias_op c p target = Some op"
      | "op = Remove_Neuron (rp_remove p)"
      using \<open>op \<in> _\<close> by (auto simp: merge_candidate_def Let_def map_filter_def)
    then show ?thesis
    proof cases
      case 1
      then show ?thesis using weight_of_None [of c "rp_keep p" target]
        by (auto simp: redirect_op_def Let_def split: option.splits)
    next
      case 2
      then show ?thesis by (auto simp: bias_op_def Let_def split: if_splits)
    qed simp
  qed
  have "last (cd_operations (merge_candidate describe c p)) = Remove_Neuron (rp_remove p)"
    by (simp add: merge_candidate_def Let_def)
  moreover have "distinct (map (Pair (rp_keep p)) (merge_targets c (rp_remove p)))"
    by (simp add: distinct_map merge_targets_def inj_on_def)
  ultimately show ?thesis using self ops unfolding folds_into_def merge_edges by (auto simp: edges)
qed

text \<open>
  C40. Merging redundant neurons proposes well-formed folds: whatever the recordings, the detected
  pairs are disjoint and each joins two hidden neurons that no synapse connects, seen together in
  at least twenty observations and with a correlation that reaches the threshold or is a NaN, which
  the code lets through (shown below); and the candidates are
  one per pair, each redirecting every outgoing synapse of the removed neuron onto the kept one by
  exactly one edge operation, never from a neuron to itself, before the removal.
\<close>

theorem merges_fold_disjoint_pairs:
  "sorted_wrt (\<lambda>p q. pair_uuids p \<inter> pair_uuids q = {}) (detect_redundant_neuron_pairs sqrt64 hash_order c recordings) \<and>
   list_all (mergeable c merge_correlation_threshold) (detect_redundant_neuron_pairs sqrt64 hash_order c recordings) \<and>
   (\<exists>cands. mset cands = mset (redundant_pairs_to_coordinated_candidates describe
        (detect_redundant_neuron_pairs sqrt64 hash_order c recordings) c) \<and>
      list_all2 (folds_into c) (detect_redundant_neuron_pairs sqrt64 hash_order c recordings) cands)"
proof -
  define ps where "ps = detect_redundant_neuron_pairs sqrt64 hash_order c recordings"
  define maps where "maps = eligible_activation_maps c recordings"
  define found where "found = sort_key (\<lambda>p. - f64_total_key (rp_correlation p))
    (List.map_filter (score_pair sqrt64 hash_order c merge_correlation_threshold) (all_pairs maps))"
  have ps: "ps = (if length maps < 2 then [] else select_disjoint {} found)"
    by (simp add: ps_def detect_redundant_neuron_pairs_def detect_redundant_neuron_pairs_with_threshold_def
        Let_def maps_def found_def)
  have "mergeable c merge_correlation_threshold p" if p: "p \<in> set found" for p
  proof -
    obtain x y where xy: "(x, y) \<in> set (all_pairs maps)"
      "score_pair sqrt64 hash_order c merge_correlation_threshold (x, y) = Some p"
      using p by (auto simp: found_def map_filter_def)
    obtain a ma b mb where "x = (a, ma)" "y = (b, mb)" by fastforce
    moreover have "x \<in> set maps" "y \<in> set maps" using all_pairs_subset xy(1) by blast+
    ultimately show ?thesis using score_pair_Some xy(2) eligible_hidden by (auto simp: maps_def)
  qed
  then have ok: "list_all (mergeable c merge_correlation_threshold) ps"
    using select_disjoint_props [of "{}" found] by (auto simp: ps list_all_iff)
  moreover have "sorted_wrt (\<lambda>p q. pair_uuids p \<inter> pair_uuids q = {}) ps"
    using select_disjoint_props [of "{}" found] by (simp add: ps)
  moreover have "list_all2 (folds_into c) ps (map (merge_candidate describe c) ps)"
    using ok merge_candidate_folds by (fastforce simp: list_all_iff list_all2_conv_all_nth mergeable_def)
  moreover have "mset (map (merge_candidate describe c) ps) = mset (redundant_pairs_to_coordinated_candidates describe ps c)"
    by (simp add: redundant_pairs_to_coordinated_candidates_def)
  ultimately show ?thesis unfolding ps_def by blast
qed

section \<open>A NaN passes for a correlation\<close>

text \<open>
  The module promises to fold only pairs that correlate at the threshold or above. The code skips a
  pair when its correlation is less than the threshold, which a NaN is not: one NaN among the paired
  activations of the first neuron makes every later moment a NaN, and the pair is merged.
\<close>

lemma f64_nan_ops:
  assumes "f64_is_nan x"
  shows "f64_add x y = f64_nan" "f64_sub x y = f64_nan" "f64_mul x y = f64_nan" "f64_div x y = f64_nan"
    "f64_add y x = f64_nan"
proof -
  have "f64_number x = Nan"
    using assms by (simp add: f64_number_def number_of_bits_def f64_is_nan_def word_less_nat_alt)
  then show "f64_add x y = f64_nan" "f64_sub x y = f64_nan" "f64_mul x y = f64_nan" "f64_div x y = f64_nan"
    "f64_add y x = f64_nan"
    by (simp_all add: f64_add_def f64_sub_def f64_mul_def f64_div_def)
      (cases "f64_number y"; simp)
qed

lemma f64_nan_consts [simp]:
  "f64_is_nan f64_nan" "f64_is_nan (f64_neg f64_nan)" "\<not> f64_less f64_nan x" "\<not> f64_less x f64_nan"
  "\<not> f64_less_eq f64_nan x"
  by (simp_all add: f64_is_nan_def f64_less_def f64_less_eq_def f64_nan_def f64_neg_def f64_magnitude_def)

lemma f64_sub_nan [simp]: "f64_sub y f64_nan = f64_nan"
  by (simp add: f64_sub_def f64_nan_ops)

definition nan_x :: "moments \<Rightarrow> bool" where
  "nan_x m \<longleftrightarrow> mo_mean_x m = f64_nan \<and> mo_m2_x m = f64_nan \<and> mo_co m = f64_nan"

definition nan_y :: "moments \<Rightarrow> bool" where
  "nan_y m \<longleftrightarrow> mo_mean_y m = f64_nan \<and> mo_m2_y m = f64_nan"

lemma add_pair_nan:
  "f64_is_nan x \<Longrightarrow> nan_x (add_pair (x, y) m)" "nan_x m \<Longrightarrow> nan_x (add_pair xy m)"
  "f64_is_nan y \<Longrightarrow> nan_y (add_pair (x, y) m)" "nan_y m \<Longrightarrow> nan_y (add_pair xy m)"
  by (simp_all add: add_pair_def nan_x_def nan_y_def f64_nan_ops Let_def split: prod.split)

lemma fold_add_pair_nan:
  "nan_x m \<or> (\<exists>xy \<in> set pairs. f64_is_nan (fst xy)) \<Longrightarrow> nan_x (fold add_pair pairs m)"
  "nan_y m \<or> (\<exists>xy \<in> set pairs. f64_is_nan (snd xy)) \<Longrightarrow> nan_y (fold add_pair pairs m)"
proof (induction pairs arbitrary: m)
  case (Cons xy pairs)
  {
    case 1
    then have "nan_x (add_pair xy m) \<or> (\<exists>xy \<in> set pairs. f64_is_nan (fst xy))"
      using add_pair_nan(1) [of "fst xy" "snd xy" m] add_pair_nan(2) [of m xy] by auto
    from Cons.IH(1) [OF this] show ?case by simp
  next
    case 2
    then have "nan_y (add_pair xy m) \<or> (\<exists>xy \<in> set pairs. f64_is_nan (snd xy))"
      using add_pair_nan(3) [of "snd xy" "fst xy" m] add_pair_nan(4) [of m xy] by auto
    from Cons.IH(2) [OF this] show ?case by simp
  }
qed simp_all

lemma fold_add_pair_count: "mo_count (fold add_pair pairs m) = mo_count m + length pairs"
  by (induction pairs arbitrary: m) (auto simp: add_pair_def Let_def split: prod.split)

lemma covariance_returns: "pairs \<noteq> [] \<Longrightarrow> \<exists>stats. covariance_from_pairs pairs = Some stats"
  by (simp add: covariance_from_pairs_def fold_add_pair_count Let_def)

lemma covariance_nan:
  assumes "covariance_from_pairs pairs = Some stats"
  shows "\<exists>xy \<in> set pairs. f64_is_nan (fst xy) \<Longrightarrow>
      ac_candidate_variance stats = f64_nan \<and> ac_covariance stats = f64_nan"
    and "\<exists>xy \<in> set pairs. f64_is_nan (snd xy) \<Longrightarrow> ac_survivor_variance stats = f64_nan"
  using assms fold_add_pair_nan [of no_moments pairs]
  by (auto simp: covariance_from_pairs_def nan_x_def nan_y_def f64_nan_ops Let_def split: if_splits)

lemma fit_pair_returns:
  assumes "covariance_from_pairs oriented = Some fit"
    "\<not> f64_less_eq (ac_survivor_variance fit) variance_epsilon"
  shows "\<exists>p. fit_pair c remove keep ri ki f64_nan oriented = Some p \<and> f64_is_nan (rp_correlation p)"
  using assms by (simp add: fit_pair_def Let_def)

theorem nan_activation_merges:
  assumes "a \<noteq> b" "\<not> directly_connected c a b"
    and "min_discovery_sample_count \<le> length (paired hash_order map_a map_b)"
    and "\<exists>xy \<in> set (paired hash_order map_a map_b). f64_is_nan (fst xy)"
    and "covariance_from_pairs (paired hash_order map_a map_b) = Some stats"
    and "\<not> f64_less_eq (ac_survivor_variance stats) variance_epsilon"
  shows "\<exists>p. score_pair sqrt64 hash_order c threshold ((a, map_a), (b, map_b)) = Some p \<and>
    f64_is_nan (rp_correlation p)"
proof -
  define pairs where "pairs = paired hash_order map_a map_b"
  note nan = covariance_nan(1) [OF assms(5,4)]
  have corr: "correlation sqrt64 stats = f64_nan"
    using assms(6) nan by (simp add: correlation_def f64_nan_ops f64_clamp_def Let_def)
  have "length pairs \<noteq> 0" using assms(3) unfolding pairs_def min_discovery_sample_count_def by linarith
  then have "map prod.swap pairs \<noteq> []" by auto
  then obtain fit where fit: "covariance_from_pairs (map prod.swap pairs) = Some fit"
    using covariance_returns by blast
  have "\<exists>xy \<in> set (map prod.swap pairs). f64_is_nan (snd xy)"
    using assms(4) by (auto simp: pairs_def)
  from covariance_nan(2) [OF fit this]
  have swapped: "\<not> f64_less_eq (ac_survivor_variance fit) variance_epsilon" by simp
  show ?thesis
    using assms(1-3,5) corr fit_pair_returns [OF assms(5,6)] fit_pair_returns [OF fit swapped]
    by (auto simp: score_pair_def Let_def simp flip: pairs_def)
qed

definition spiked :: activation_by_obs where
  "spiked = map (\<lambda>i. (word_of_nat i, if i = 7 then f32_nan else f32_one)) [0..<20]"

theorem nan_activation_merges_witness:
  "\<exists>p. score_pair sqrt64 id \<lparr>c_neurons = [], c_synapses = [], c_input = 1, c_output = 1\<rparr> merge_correlation_threshold
     ((''a'', spiked), (''b'', spiked)) = Some p \<and> f64_is_nan (rp_correlation p)"
proof -
  let ?pairs = "paired id spiked spiked"
  have nan: "f64_is_nan (f64_of_f32 f32_nan)"
    by (simp add: f64_of_f32_def f32_number_def number_of_bits_def f32_nan_def f32_magnitude_def)
  have "length ?pairs = 20" "(f64_of_f32 f32_nan, f64_of_f32 f32_nan) \<in> set ?pairs"
    by (simp_all add: paired_def spiked_def upt_rec map_filter_simps)
  then have pairs: "min_discovery_sample_count \<le> length ?pairs"
    "\<exists>xy \<in> set ?pairs. f64_is_nan (fst xy)" "\<exists>xy \<in> set ?pairs. f64_is_nan (snd xy)" "?pairs \<noteq> []"
    using nan by (auto simp: min_discovery_sample_count_def intro: bexI [rotated])
  from covariance_returns [OF this(4)] obtain stats where stats: "covariance_from_pairs ?pairs = Some stats" by blast
  from covariance_nan(2) [OF this pairs(3)]
  have "\<not> f64_less_eq (ac_survivor_variance stats) variance_epsilon" by simp
  from nan_activation_merges [OF _ _ pairs(1,2) stats this] show ?thesis
    by (simp add: directly_connected_def)
qed

section \<open>A merge can close a cycle\<close>

text \<open>
  Only a direct connection of the pair is excluded. Where the removed neuron feeds the kept one
  through a third, the redirected edge runs backwards: here \<open>first\<close> feeds \<open>last\<close> through \<open>relay\<close>, the
  creature is accepted, and with the proposed edge it is refused.
\<close>

definition relay_creature :: creature_json where
  "relay_creature = \<lparr>c_neurons = map (\<lambda>u. \<lparr>n_uuid = u, n_type = (if u = ''o'' then ''output'' else ''hidden''),
       n_squash = ''IDENTITY'', n_bias = f32_zero\<rparr>) [''first'', ''relay'', ''last'', ''o''],
     c_synapses = map (\<lambda>(u, v). \<lparr>s_from = u, s_to = v, s_weight = f32_one, s_type = None\<rparr>)
       [(''input-0'', ''first''), (''first'', ''relay''), (''relay'', ''last''), (''last'', ''o'')],
     c_input = 1, c_output = 1\<rparr>"

definition with_synapse :: "string \<Rightarrow> string \<Rightarrow> creature_json \<Rightarrow> creature_json" where
  "with_synapse u v c = c\<lparr>c_synapses := c_synapses c @ [\<lparr>s_from = u, s_to = v, s_weight = f32_one, s_type = None\<rparr>]\<rparr>"

lemma merge_closes_cycle:
  assumes "rp_remove p = ''first''" "rp_keep p = ''last''"
  shows "validate_creature relay_creature = Inr ()" "\<not> directly_connected relay_creature (rp_remove p) (rp_keep p)"
    "\<exists>w. Add_Synapse ''last'' ''relay'' w \<in> set (cd_operations (merge_candidate describe relay_creature p))"
    "\<exists>e. validate_creature (with_synapse ''last'' ''relay'' relay_creature) = Inl e"
proof -
  have "validate_forward_only_synapses relay_creature = Inr ()" by code_simp
  moreover have "validate_neuron_biases relay_creature = Inr ()" by code_simp
  moreover have "validate_creature_input_bounds relay_creature = Inr ()"
    by (simp add: input_bounds_ok_iff relay_creature_def max_creature_input_neurons_def max_creature_output_neurons_def)
  ultimately show "validate_creature relay_creature = Inr ()" by (simp add: validate_creature_def)
  show "\<not> directly_connected relay_creature (rp_remove p) (rp_keep p)"
    by (simp add: directly_connected_def relay_creature_def assms)
  have "weight_of relay_creature (''last'', ''relay'') = None"
    by (simp add: weight_of_None relay_creature_def)
  then show "\<exists>w. Add_Synapse ''last'' ''relay'' w \<in> set (cd_operations (merge_candidate describe relay_creature p))"
    using assms by (force simp: merge_candidate_def merge_targets_def outgoing_of_def relay_creature_def redirect_op_def Let_def)
  have "\<not> (case validate_forward_only_synapses (with_synapse ''last'' ''relay'' relay_creature) of Inr _ \<Rightarrow> True | Inl _ \<Rightarrow> False)"
    by code_simp
  then show "\<exists>e. validate_creature (with_synapse ''last'' ''relay'' relay_creature) = Inl e"
    by (auto simp: validate_creature_def and_then_def split: sum.splits)
qed

end
