(* ===== verification/Spec2Isabelle.thy ===== *)
theory Spec2Isabelle
  imports Sessions StreamingFiles GpuQueue Cooldown Cleanup Dispatch Focus Deadline
    Timestamp Watchdog Limits Calibration Impact Removal Ranking Merge
begin

text \<open>
  Verification development of NEAT-AI-Discovery, the Rust library that records how a NEAT network
  (a creature) behaves on its training data and searches the recording for structural changes worth
  trying. A host calls it through an FFI: it records observations into Parquet files, has the
  neurons ranked by how much they contribute to the error, runs the discovery modules over the
  best ones on the CPU and the GPU, and returns scored candidates. File names below are relative to
  \<open>src/\<close>; a definition has the name of the Rust item it models unless that clashes with HOL.

  \<^bold>\<open>Foundations.\<close>
  Theory Prelude: machine words at their width with saturating and checked operations, results as
  sums (\<open>and_then\<close>), little-endian bytes, association lists. Theory Floats: the bit patterns of \<open>f32\<close>
  and \<open>f64\<close> and their orders (partial comparison, \<open>total_cmp\<close>). Theory Ieee: IEEE-754 addition,
  subtraction, multiplication, division and conversion, rounded to nearest even from the exact
  result, so that every value of the code is the one the machine computes; what the language defines
  has no entry in the map. Theory SquareRoot: the square root, which the standard rounds correctly too,
  and the bound that rests on its rounding. The transcendental functions of the platform are the
  record \<open>maths\<close>, an argument wherever they are used; parsing floats from text is \<open>float_parsers\<close>.

  \<^bold>\<open>Input and recording.\<close>
  Network: the creature at the FFI boundary and the gate that validates it, with the errors and
  their codes (\<open>ffi_types/\<close>). ParquetWriter: the columns and the batches of the writer, with the
  Parquet crate as an argument (\<open>parquet_format/schema.rs\<close>, \<open>writer.rs\<close>). Recording: the single-call
  recording over a small file system whose every call may fail (\<open>record/\<close>). Sessions: the streaming
  sessions, their registry, and the cleanup of abandoned ones, as steps of concurrent calls
  (\<open>streaming.rs\<close>), refined to an abstract map of sessions. Reader: the readers of a recording, the
  decode budget, the footer statistics and the shared grouped records (\<open>parquet_format/reader.rs\<close>).
  Timestamp: the timestamp of an export. Cleanup: the removal of discovery directories against
  other processes (\<open>discovery_cleanup.rs\<close>).

  \<^bold>\<open>Caches.\<close>
  Serialise: the byte format of a cached record (\<open>analysis/cache/serialisation.rs\<close>). RecordCaches: the
  LRU cache, the compressed cache and the choice between loading strategies. BlockCache and
  StreamingFiles: the streaming block cache on a Parquet file (\<open>analysis/streaming.rs\<close>). Providers: the
  record providers of the focus ranking. What a cache promises is stated once, in the locales
  \<open>record_cache\<close> (a lookup answers what the loader would) and \<open>bounded_cache\<close> (and the cache stays
  within its bound), interpreted for \<open>lru\<close>, \<open>memo\<close>, \<open>stream\<close>, \<open>tiered\<close> and \<open>lazy\<close>; what an encoder and
  its decoder promise is the locale \<open>codec\<close>, interpreted for every field of the format and composed
  to the record.

  \<^bold>\<open>Ranking the neurons.\<close>
  Layers and Focus: the layers of the network and the selection of focus neurons within a budget
  (\<open>focus/layers.rs\<close>, \<open>allocation.rs\<close>, \<open>selection.rs\<close>). Impact: the memoised recursion that attributes the
  outputs to the neurons (\<open>focus/impact.rs\<close>). Squash: the activation functions (\<open>activations.rs\<close>).
  Gradient: the gradient flow (\<open>focus/gradient.rs\<close>). Removal: the neurons worth removing
  (\<open>focus/ranking/removal_*.rs\<close>, \<open>activation_weighting.rs\<close>). Scores: errors, margins and the
  reconstruction mismatch (\<open>score_calculation.rs\<close>, \<open>reconstruction.rs\<close>). History: the outcome of past
  discoveries (\<open>discovery_history.rs\<close>). Ranking: the focus pass itself, with its loading modes and its
  deadline (\<open>focus/ranking/mod.rs\<close>), which composes all of these.

  \<^bold>\<open>Analysing.\<close>
  Deadline: deadlines, reserves and the order of sources (\<open>analysis/utils/deadline.rs\<close>). GpuGuard and
  GpuQueue: breaker, budget, heartbeat and the work queue of the GPU with its recovery
  (\<open>analysis/gpu/\<close>); the GPU itself is an argument. Watchdog: cancellation and the hang watchdog.
  Reduction: what is attached to a candidate that removes a neuron, the fold of a constant or the
  redistribution of its weight, its honest gain, demotion and promotion
  (\<open>analysis/remove_neuron_*.rs\<close>). Merge: folding redundant neurons (\<open>merge_redundant_neuron.rs\<close>).
  Candidates: candidates, caps and their ordering. Dispatch: running the discovery modules
  (\<open>analysis/discovery_dispatch.rs\<close>, \<open>module_weights.rs\<close>). Rejections: the reasons for dropped candidates
  and their reconciliation (\<open>analysis/diagnostics/\<close>). Cooldown: failing targets, droughts and their
  resets (\<open>analysis/target_failure_tracker.rs\<close> and its neighbours). Calibration: the correction of
  predicted gains (\<open>analysis/scoring/\<close>). Config: every setting of \<open>config/\<close> from its environment
  variable. Limits: the limits on emitted candidates that the environment sets
  (\<open>analysis/constants/candidate_scoring.rs\<close>) and the documented ranges of all integral settings.

  \<^bold>\<open>What the lemmas show.\<close>
  Each theory states the invariant of its state and that every operation keeps it, what each
  operation returns on every branch, and one or more claims (C1, C2, ...) over the composition:
  recordings are published whole or not at all and read back exactly; concurrent sessions own their
  files; caches are transparent and bounded, the LRU cache also when the lookups of several threads
  interleave; every GPU request is answered once and every wait ends at the first poll that has an
  answer or finds the heartbeat silent for the window;
  validated creatures are layered; the impact of a neuron does not depend on the schedule of the
  threads; every ranked neuron is accounted for and a ranking that runs out of time is an error,
  never a part; both loading modes rank alike under any deadline; rejections add up; deadlines and budgets are kept. A claim with a hypothesis has a
  witness that applies it to concrete data.

  \<^bold>\<open>Bounds and fuel.\<close>
  Recursions whose end rests on data are functions with a measure (the walk of the layers, the
  memoised impact, where the measure counts the nodes not yet on the path). Loops that might not end
  are partial functions, and that they return is proved: the eviction of the lazy cache ends
  because its queue lists exactly its entries, the wait of the GPU queue because its deadline is
  finite. The retry loops carry the code's own bounds. Nothing else uses fuel.

  \<^bold>\<open>Modelling conventions.\<close>
  Clocks, random numbers, free memory, the file system's answers, the order of a hash table and the
  outcome of a race are arguments, so a theorem holds for all of them. Instants are nanoseconds.
  Third-party code (Arrow, Parquet, zstd, wgpu, rayon, serde) is an argument with its documented
  laws as hypotheses. Strings are Isabelle strings whose characters stand for bytes. Log output,
  metrics and the wording of messages are left out; values interpolated into them are kept where
  the code reads them back.

  \<^bold>\<open>Not modelled.\<close>
  The GPU device, its shaders and the evaluation kernels; the detection modules, each a numeric
  heuristic over the records, the generation and post-processing of neuron and synapse variants and
  the closures that wire them to the dispatcher; the FFI wrappers with their JSON; the export of
  snapshots but for the timestamp; tracing, debug reports and the tracking allocator; the reading of
  the host's memory. The manifest lists them as components of their own with the reason. What is
  partly modelled says in its note what is missing.
\<close>

end
